(* ===== verification/Prelude.thy ===== *)
theory Prelude
  imports Main "HOL-Library.Word" "HOL-Library.Monad_Syntax" "HOL-Library.Multiset"
begin

text \<open>
  Shared vocabulary of the development.

  The programs modelled here are the kernels \<^verbatim>\<open>src/fs_PintOS\<close> and \<^verbatim>\<open>src/vm_PintOS\<close> and the
  course projects beside them. They are C programs for a 32-bit machine:
  \<^verbatim>\<open>size_t\<close>, \<^verbatim>\<open>unsigned\<close> and pointers have 32 bits. An \<^verbatim>\<open>ASSERT\<close> that fails, a call of
  \<^verbatim>\<open>PANIC\<close> and an access through a null pointer or past the end of an array all stop the
  kernel, so an operation that can do one of these returns an \<open>option\<close> whose \<^const>\<open>None\<close> means
  "the kernel does not continue". A failure that the C code reports by a return value (a null
  pointer, \<^verbatim>\<open>false\<close>, \<^verbatim>\<open>BITMAP_ERROR\<close>) is an ordinary value of the model.

  The theory holds: the 32-bit sizes, the \<^verbatim>\<open>ASSERT\<close> macro, \<^verbatim>\<open>for\<close> loops and search loops in the
  \<open>option\<close> monad, and the list lemmas that several components use.
\<close>

unbundle bit_operations_syntax

named_theorems panic_simps \<open>unfolding of the kernel's checks\<close>
named_theorems wf_intros \<open>well-formedness invariants kept by operations\<close>

type_synonym size_t = nat
type_synonym u8 = "8 word"
type_synonym u32 = "32 word"

definition SIZE_MAX :: size_t where
  "SIZE_MAX = 4294967295"

definition wrap32 :: "nat \<Rightarrow> size_t" where
  "wrap32 n = n mod 4294967296"

definition ASSERT :: "bool \<Rightarrow> unit option" where
  "ASSERT b = (if b then Some () else None)"

text \<open>The macros of \<^verbatim>\<open>lib/round.h\<close> at \<^verbatim>\<open>size_t\<close>, where the sum can wrap around.\<close>

definition ROUND_UP :: "size_t \<Rightarrow> size_t \<Rightarrow> size_t" where
  "ROUND_UP x step = wrap32 (x + step + SIZE_MAX) div step * step"

definition DIV_ROUND_UP :: "size_t \<Rightarrow> size_t \<Rightarrow> size_t" where
  "DIV_ROUND_UP x step = wrap32 (x + step + SIZE_MAX) div step"

text \<open>
  \<open>foldM f xs s\<close> runs the loop body \<open>f\<close> over \<open>xs\<close> and stops at the first panic;
  \<open>for_range i n f s\<close> is \<^verbatim>\<open>for (; i < n; i++) s = f (i, s);\<close>; \<open>findM p xs\<close> is a loop that
  returns at the first element for which the test \<open>p\<close> is true.
\<close>

fun foldM :: "('a \<Rightarrow> 's \<Rightarrow> 's option) \<Rightarrow> 'a list \<Rightarrow> 's \<Rightarrow> 's option" where
  "foldM f [] s = Some s"
| "foldM f (x # xs) s = do { s' \<leftarrow> f x s; foldM f xs s' }"

definition for_range :: "nat \<Rightarrow> nat \<Rightarrow> (nat \<Rightarrow> 's \<Rightarrow> 's option) \<Rightarrow> 's \<Rightarrow> 's option" where
  "for_range i n f s = foldM f [i..<n] s"

fun findM :: "('a \<Rightarrow> bool option) \<Rightarrow> 'a list \<Rightarrow> 'a option option" where
  "findM p [] = Some None"
| "findM p (x # xs) = do { b \<leftarrow> p x; if b then Some (Some x) else findM p xs }"

text \<open>
  Memory is bytes; the machine stores a 32-bit word with its low byte first. \<open>u32s_bytes\<close> is
  an array of words as bytes and \<open>bytes_u32s\<close> reads bytes back as words, as a cast of the
  pointer does.
\<close>

definition u32_bytes :: "u32 \<Rightarrow> u8 list" where
  "u32_bytes w = [ucast w, ucast (drop_bit 8 w), ucast (drop_bit 16 w), ucast (drop_bit 24 w)]"

definition bytes_u32 :: "u8 \<Rightarrow> u8 \<Rightarrow> u8 \<Rightarrow> u8 \<Rightarrow> u32" where
  "bytes_u32 a b c d =
     ucast a OR push_bit 8 (ucast b) OR push_bit 16 (ucast c) OR push_bit 24 (ucast d)"

definition u32s_bytes :: "u32 list \<Rightarrow> u8 list" where
  "u32s_bytes ws = concat (map u32_bytes ws)"

fun bytes_u32s :: "u8 list \<Rightarrow> u32 list" where
  "bytes_u32s (a # b # c # d # bs) = bytes_u32 a b c d # bytes_u32s bs"
| "bytes_u32s bs = []"

subsection \<open>The checks\<close>

lemma ASSERT_simps [simp]: "ASSERT True = Some ()" "ASSERT False = None"
  by (simp_all add: ASSERT_def)

lemma ASSERT_eq_Some [simp]: "ASSERT b = Some u \<longleftrightarrow> b"
  by (simp add: ASSERT_def)

lemma ASSERT_eq_None [simp]: "ASSERT b = None \<longleftrightarrow> \<not> b"
  by (simp add: ASSERT_def)

lemma ASSERT_bind [panic_simps]: "ASSERT b \<bind> f = (if b then f () else None)"
  by (simp add: ASSERT_def)

lemma bind_Some_iff: "Option.bind m f = Some y \<longleftrightarrow> (\<exists>x. m = Some x \<and> f x = Some y)"
  by (cases m) auto

lemma wrap32_less [simp]: "wrap32 n < 4294967296"
  by (simp add: wrap32_def)

lemma wrap32_id [simp]: "n < 4294967296 \<Longrightarrow> wrap32 n = n"
  by (simp add: wrap32_def)

lemma DIV_ROUND_UP_eq:
  assumes "0 < x + step" and "x + step \<le> 4294967296"
  shows "DIV_ROUND_UP x step = (x + step - 1) div step"
proof -
  have eq: "x + step + SIZE_MAX = (x + step - 1) + 4294967296"
    using assms(1) by (simp add: SIZE_MAX_def)
  have "wrap32 (x + step + SIZE_MAX) = x + step - 1"
    using assms unfolding wrap32_def eq by (simp only: mod_add_self2) simp
  then show ?thesis by (simp add: DIV_ROUND_UP_def)
qed

lemma div_ceil_less_iff:
  assumes "0 < (k::nat)"
  shows "i < (n + k - 1) div k \<longleftrightarrow> i * k < n"
proof -
  have "i < (n + k - 1) div k \<longleftrightarrow> Suc i * k \<le> n + k - 1"
    using assms by (simp add: less_eq_div_iff_mult_less_eq Suc_le_eq [symmetric])
  also have "\<dots> \<longleftrightarrow> i * k < n" using assms by auto
  finally show ?thesis .
qed

subsection \<open>Loops\<close>

lemma foldM_append: "foldM f (xs @ ys) s = do { s' \<leftarrow> foldM f xs s; foldM f ys s' }"
  by (induction xs arbitrary: s) (auto simp: Option.bind_eq_None_conv split: Option.bind_splits)

lemma foldM_cong [fundef_cong]:
  "xs = ys \<Longrightarrow> s = t \<Longrightarrow> (\<And>x u. x \<in> set ys \<Longrightarrow> f x u = g x u) \<Longrightarrow> foldM f xs s = foldM g ys t"
proof (induction xs arbitrary: ys s t)
  case (Cons x xs)
  then show ?case by (auto split: Option.bind_splits)
qed auto

lemma foldM_invariant:
  assumes "foldM f xs s = Some t" and "P s"
    and "\<And>x u v. x \<in> set xs \<Longrightarrow> P u \<Longrightarrow> f x u = Some v \<Longrightarrow> P v"
  shows "P t"
  using assms
proof (induction xs arbitrary: s)
  case (Cons x xs)
  then obtain u where "f x s = Some u" and "foldM f xs u = Some t"
    by (auto simp: bind_Some_iff)
  with Cons show ?case by auto
qed simp

lemma foldM_total:
  assumes "P s" and "\<And>x u. x \<in> set xs \<Longrightarrow> P u \<Longrightarrow> \<exists>v. f x u = Some v \<and> P v"
  shows "\<exists>t. foldM f xs s = Some t \<and> P t"
  using assms
proof (induction xs arbitrary: s)
  case (Cons x xs)
  from Cons.prems obtain u where "f x s = Some u" and "P u" by (meson list.set_intros(1))
  with Cons show ?case by auto
qed simp

lemma foldM_Nil_bind: "m \<bind> foldM f [] = m"
  by (cases m) auto

lemma for_range_empty [simp]: "n \<le> i \<Longrightarrow> for_range i n f s = Some s"
  by (simp add: for_range_def)

lemma for_range_Suc: "i \<le> n \<Longrightarrow> for_range i (Suc n) f s = for_range i n f s \<bind> f n"
  by (cases "foldM f [i..<n] s") (simp_all add: for_range_def foldM_append foldM_Nil_bind)

lemma for_range_unfold: "i < n \<Longrightarrow> for_range i n f s = f i s \<bind> for_range (Suc i) n f"
  by (simp add: for_range_def upt_conv_Cons split: Option.bind_splits)

lemma for_range_invariant:
  assumes "P i s" and "i \<le> n"
    and "\<And>k u. i \<le> k \<Longrightarrow> k < n \<Longrightarrow> P k u \<Longrightarrow> \<exists>v. f k u = Some v \<and> P (Suc k) v"
  shows "\<exists>t. for_range i n f s = Some t \<and> P n t"
  using assms(2,3)
proof (induction n)
  case 0
  with assms(1) show ?case by simp
next
  case (Suc n)
  show ?case
  proof (cases "i = Suc n")
    case True
    with assms(1) show ?thesis by simp
  next
    case False
    with Suc.prems(1) have i: "i \<le> n" by simp
    from Suc.IH [OF i] Suc.prems(2) obtain u where "for_range i n f s = Some u" "P n u"
      by (meson less_Suc_eq)
    with Suc.prems(2) [of n u] i show ?thesis by (auto simp: for_range_Suc)
  qed
qed

lemma upt_split_at: "i \<le> k \<Longrightarrow> k < n \<Longrightarrow> [i..<n] = [i..<k] @ k # [Suc k..<n]"
  by (metis le_add_diff_inverse less_imp_le upt_add_eq_append upt_conv_Cons)

lemma for_range_None:
  assumes "i \<le> k" and "k < n" and "\<And>s. f k s = None"
  shows "for_range i n f s = None"
  using assms
  by (simp add: for_range_def upt_split_at [of i k] foldM_append split: Option.bind_splits)

lemma findM_total:
  assumes "\<And>x. x \<in> set xs \<Longrightarrow> p x = Some (q x)"
  shows "findM p xs = Some (find q xs)"
  using assms by (induction xs) auto

subsection \<open>Words as bytes\<close>

lemma bytes_u32_u32_bytes:
  "bytes_u32 (ucast w) (ucast (drop_bit 8 w)) (ucast (drop_bit 16 w)) (ucast (drop_bit 24 w)) = w"
proof (rule bit_word_eqI)
  fix n
  assume "n < LENGTH(32)"
  then show "bit (bytes_u32 (ucast w) (ucast (drop_bit 8 w)) (ucast (drop_bit 16 w))
      (ucast (drop_bit 24 w))) n = bit w n"
    by (cases "n < 8"; cases "n < 16"; cases "n < 24")
      (auto simp: bytes_u32_def bit_simps)
qed

lemma length_u32_bytes [simp]: "length (u32_bytes w) = 4"
  by (simp add: u32_bytes_def)

lemma length_u32s_bytes [simp]: "length (u32s_bytes ws) = 4 * length ws"
  by (induction ws) (simp_all add: u32s_bytes_def)

lemma u32s_bytes_simps [simp]:
  "u32s_bytes [] = []"
  "u32s_bytes (w # ws) = u32_bytes w @ u32s_bytes ws"
  by (simp_all add: u32s_bytes_def)

lemma u32s_bytes_append: "u32s_bytes (vs @ ws) = u32s_bytes vs @ u32s_bytes ws"
  by (simp add: u32s_bytes_def)

lemma bytes_u32s_u32s_bytes [simp]: "bytes_u32s (u32s_bytes ws) = ws"
  by (induction ws) (simp_all add: u32_bytes_def bytes_u32_u32_bytes)

lemma bytes_u32s_append: "bytes_u32s (u32s_bytes ws @ bs) = ws @ bytes_u32s bs"
  by (induction ws) (simp_all add: u32_bytes_def bytes_u32_u32_bytes)

subsection \<open>Lists\<close>

lemma list_split_nth: "i < length xs \<Longrightarrow> xs = take i xs @ xs ! i # drop (Suc i) xs"
  by (rule id_take_nth_drop)

lemma find_append_conv:
  "find q (xs @ ys) = (case find q xs of None \<Rightarrow> find q ys | Some x \<Rightarrow> Some x)"
  by (induction xs) auto

lemma find_upt_Some:
  "find q [i..<n] = Some k \<longleftrightarrow> i \<le> k \<and> k < n \<and> q k \<and> (\<forall>j. i \<le> j \<and> j < k \<longrightarrow> \<not> q j)"
proof (induction n arbitrary: k)
  case (Suc n)
  show ?case
  proof (cases "i \<le> n")
    case True
    show ?thesis
    proof (cases "find q [i..<n]")
      case None
      then have "\<forall>j. i \<le> j \<and> j < n \<longrightarrow> \<not> q j" by (auto simp: find_None_iff)
      with None True show ?thesis
        by (auto simp: find_append_conv less_Suc_eq)
    next
      case (Some m)
      with True Suc.IH [of m] show ?thesis
        by (auto simp: find_append_conv less_Suc_eq) (metis linorder_neqE_nat)+
    qed
  qed auto
qed simp

lemma find_upt_None: "find q [i..<n] = None \<longleftrightarrow> (\<forall>j. i \<le> j \<and> j < n \<longrightarrow> \<not> q j)"
  by (auto simp: find_None_iff)

lemma ex_shift: "(\<exists>i<n. P (k + i)) \<longleftrightarrow> (\<exists>j::nat. k \<le> j \<and> j < k + n \<and> P j)"
proof
  assume "\<exists>j. k \<le> j \<and> j < k + n \<and> P j"
  then obtain j where "k \<le> j" "j < k + n" "P j" by blast
  then show "\<exists>i<n. P (k + i)" by (intro exI [of _ "j - k"]) auto
next
  assume "\<exists>i<n. P (k + i)"
  then obtain i where "i < n" "P (k + i)" by blast
  then show "\<exists>j. k \<le> j \<and> j < k + n \<and> P j" by (intro exI [of _ "k + i"]) auto
qed

lemma nth_take_replicate_drop:
  assumes "start + cnt \<le> length xs" and "i < length xs"
  shows "(take start xs @ replicate cnt v @ drop (start + cnt) xs) ! i =
    (if start \<le> i \<and> i < start + cnt then v else xs ! i)"
  using assms by (auto simp: nth_append)

end
