(* ===== verification/Bitmap.thy ===== *)
theory Bitmap
  imports Prelude
begin

text \<open>
  The bitmaps of \<^verbatim>\<open>lib/kernel/bitmap.c\<close>: an array of bits kept in an array of 32-bit
  elements. Every operation of the file is a definition with the source's name; the page
  allocator, the free map of the file system and the swap table are its clients.

  \<open>bits_of\<close> is the abstract array of bits. The lemmas show that each operation computes on the
  elements what its comment promises on that array, that the loops stay in bounds or panic, and
  that \<^verbatim>\<open>bitmap_scan\<close> finds the first group. The locale \<open>region_allocator\<close> is the contract
  that the clients of \<^verbatim>\<open>bitmap_scan_and_flip\<close> rely on, interpreted at the end of the theory.
\<close>

definition ELEM_BITS :: size_t where
  "ELEM_BITS = 32"

definition BITMAP_ERROR :: size_t where
  "BITMAP_ERROR = SIZE_MAX"

record bitmap =
  bit_cnt :: size_t
  bits :: "u32 list"

definition elem_idx :: "size_t \<Rightarrow> size_t" where
  "elem_idx bit_idx = bit_idx div ELEM_BITS"

definition bit_mask :: "size_t \<Rightarrow> u32" where
  "bit_mask bit_idx = push_bit (bit_idx mod ELEM_BITS) 1"

definition elem_cnt :: "size_t \<Rightarrow> size_t" where
  "elem_cnt n = DIV_ROUND_UP n ELEM_BITS"

definition byte_cnt :: "size_t \<Rightarrow> size_t" where
  "byte_cnt n = wrap32 (4 * elem_cnt n)"

definition last_mask :: "bitmap \<Rightarrow> u32" where
  "last_mask b =
     (let last_bits = bit_cnt b mod ELEM_BITS
      in if last_bits \<noteq> 0 then push_bit last_bits 1 - 1 else -1)"

definition bitmap_size :: "bitmap \<Rightarrow> size_t" where
  "bitmap_size b = bit_cnt b"

text \<open>
  \<^verbatim>\<open>bitmap_mark\<close>, \<^verbatim>\<open>bitmap_reset\<close> and \<^verbatim>\<open>bitmap_flip\<close> do not check the index: only an element
  outside the array stops them here.
\<close>

definition update_elem :: "bitmap \<Rightarrow> size_t \<Rightarrow> (u32 \<Rightarrow> u32) \<Rightarrow> bitmap option" where
  "update_elem b idx f =
     (if idx < length (bits b) then Some (b\<lparr>bits := (bits b)[idx := f (bits b ! idx)]\<rparr>) else None)"

definition bitmap_mark :: "bitmap \<Rightarrow> size_t \<Rightarrow> bitmap option" where
  "bitmap_mark b bit_idx = update_elem b (elem_idx bit_idx) (\<lambda>e. e OR bit_mask bit_idx)"

definition bitmap_reset :: "bitmap \<Rightarrow> size_t \<Rightarrow> bitmap option" where
  "bitmap_reset b bit_idx = update_elem b (elem_idx bit_idx) (\<lambda>e. e AND NOT (bit_mask bit_idx))"

definition bitmap_flip :: "bitmap \<Rightarrow> size_t \<Rightarrow> bitmap option" where
  "bitmap_flip b bit_idx = update_elem b (elem_idx bit_idx) (\<lambda>e. e XOR bit_mask bit_idx)"

definition bitmap_set :: "bitmap \<Rightarrow> size_t \<Rightarrow> bool \<Rightarrow> bitmap option" where
  "bitmap_set b idx value = do {
     ASSERT (idx < bit_cnt b);
     if value then bitmap_mark b idx else bitmap_reset b idx }"

definition bitmap_test :: "bitmap \<Rightarrow> size_t \<Rightarrow> bool option" where
  "bitmap_test b idx = do {
     ASSERT (idx < bit_cnt b);
     ASSERT (elem_idx idx < length (bits b));
     Some (bits b ! elem_idx idx AND bit_mask idx \<noteq> 0) }"

definition bitmap_set_multiple :: "bitmap \<Rightarrow> size_t \<Rightarrow> size_t \<Rightarrow> bool \<Rightarrow> bitmap option" where
  "bitmap_set_multiple b start cnt value = do {
     ASSERT (start \<le> bit_cnt b);
     ASSERT (wrap32 (start + cnt) \<le> bit_cnt b);
     for_range 0 cnt (\<lambda>i b. bitmap_set b (wrap32 (start + i)) value) b }"

definition bitmap_set_all :: "bitmap \<Rightarrow> bool \<Rightarrow> bitmap option" where
  "bitmap_set_all b value = bitmap_set_multiple b 0 (bitmap_size b) value"

definition bitmap_count :: "bitmap \<Rightarrow> size_t \<Rightarrow> size_t \<Rightarrow> bool \<Rightarrow> size_t option" where
  "bitmap_count b start cnt value = do {
     ASSERT (start \<le> bit_cnt b);
     ASSERT (wrap32 (start + cnt) \<le> bit_cnt b);
     for_range 0 cnt
       (\<lambda>i value_cnt. do {
          v \<leftarrow> bitmap_test b (wrap32 (start + i));
          Some (if v = value then value_cnt + 1 else value_cnt) }) 0 }"

definition bitmap_contains :: "bitmap \<Rightarrow> size_t \<Rightarrow> size_t \<Rightarrow> bool \<Rightarrow> bool option" where
  "bitmap_contains b start cnt value = do {
     ASSERT (start \<le> bit_cnt b);
     ASSERT (wrap32 (start + cnt) \<le> bit_cnt b);
     hit \<leftarrow> findM (\<lambda>i. do {
         v \<leftarrow> bitmap_test b (wrap32 (start + i));
         Some (v = value) }) [0..<cnt];
     Some (hit \<noteq> None) }"

definition bitmap_any :: "bitmap \<Rightarrow> size_t \<Rightarrow> size_t \<Rightarrow> bool option" where
  "bitmap_any b start cnt = bitmap_contains b start cnt True"

definition bitmap_none :: "bitmap \<Rightarrow> size_t \<Rightarrow> size_t \<Rightarrow> bool option" where
  "bitmap_none b start cnt = map_option Not (bitmap_contains b start cnt True)"

definition bitmap_all :: "bitmap \<Rightarrow> size_t \<Rightarrow> size_t \<Rightarrow> bool option" where
  "bitmap_all b start cnt = map_option Not (bitmap_contains b start cnt False)"

definition bitmap_scan :: "bitmap \<Rightarrow> size_t \<Rightarrow> size_t \<Rightarrow> bool \<Rightarrow> size_t option" where
  "bitmap_scan b start cnt value = do {
     ASSERT (start \<le> bit_cnt b);
     if cnt \<le> bit_cnt b
     then do {
       let last = bit_cnt b - cnt;
       hit \<leftarrow> findM (\<lambda>i. map_option Not (bitmap_contains b i cnt (\<not> value))) [start..<last + 1];
       Some (case hit of Some i \<Rightarrow> i | None \<Rightarrow> BITMAP_ERROR) }
     else Some BITMAP_ERROR }"

definition bitmap_scan_and_flip ::
  "bitmap \<Rightarrow> size_t \<Rightarrow> size_t \<Rightarrow> bool \<Rightarrow> (size_t \<times> bitmap) option" where
  "bitmap_scan_and_flip b start cnt value = do {
     idx \<leftarrow> bitmap_scan b start cnt value;
     b' \<leftarrow> (if idx \<noteq> BITMAP_ERROR then bitmap_set_multiple b idx cnt (\<not> value) else Some b);
     Some (idx, b') }"

text \<open>
  Creation. \<^verbatim>\<open>malloc\<close> is a parameter: whether the allocation of the descriptor succeeds, and
  what the storage for the elements holds if it is obtained. \<^verbatim>\<open>malloc (0)\<close> is a null pointer.
\<close>

definition bitmap_create ::
  "bool \<Rightarrow> u32 list option \<Rightarrow> size_t \<Rightarrow> bitmap option option" where
  "bitmap_create malloc_b malloc_bits n =
     (if malloc_b
      then if malloc_bits \<noteq> None \<or> n = 0
        then map_option Some (bitmap_set_all
          \<lparr>bit_cnt = n, bits = (case malloc_bits of Some ws \<Rightarrow> ws | None \<Rightarrow> [])\<rparr> False)
        else Some None
      else Some None)"

definition bitmap_buf_size :: "size_t \<Rightarrow> size_t" where
  "bitmap_buf_size n = wrap32 (8 + byte_cnt n)"

definition bitmap_create_in_buf :: "size_t \<Rightarrow> u32 list \<Rightarrow> size_t \<Rightarrow> bitmap option" where
  "bitmap_create_in_buf n block block_size = do {
     ASSERT (bitmap_buf_size n \<le> block_size);
     bitmap_set_all \<lparr>bit_cnt = n, bits = drop 2 block\<rparr> False }"

text \<open>
  File input and output. The file functions are parameters: \<open>read_at size ofs\<close> is the list of
  bytes that \<^verbatim>\<open>file_read_at\<close> stores (its length is the return value), and
  \<open>write_at buf size ofs\<close> returns the number of bytes written.
\<close>

definition bitmap_file_size :: "bitmap \<Rightarrow> size_t" where
  "bitmap_file_size b = byte_cnt (bit_cnt b)"

definition bitmap_read ::
  "(size_t \<Rightarrow> size_t \<Rightarrow> u8 list) \<Rightarrow> bitmap \<Rightarrow> (bool \<times> bitmap) option" where
  "bitmap_read read_at b =
     (if bit_cnt b > 0
      then do {
        let size = byte_cnt (bit_cnt b);
        let data = read_at size 0;
        let b' = b\<lparr>bits := bytes_u32s (data @ drop (length data) (u32s_bytes (bits b)))\<rparr>;
        b'' \<leftarrow> update_elem b' (elem_cnt (bit_cnt b) - 1) (\<lambda>e. e AND last_mask b);
        Some (length data = size, b'') }
      else Some (True, b))"

definition bitmap_write ::
  "(u8 list \<Rightarrow> size_t \<Rightarrow> size_t \<Rightarrow> size_t \<times> 's) \<Rightarrow> bitmap \<Rightarrow> bool \<times> 's" where
  "bitmap_write write_at b =
     (let size = byte_cnt (bit_cnt b); (n, s) = write_at (u32s_bytes (bits b)) size 0
      in (n = size, s))"

subsection \<open>The abstract array of bits\<close>

definition bits_of :: "bitmap \<Rightarrow> bool list" where
  "bits_of b = map (\<lambda>i. bit (bits b ! (i div 32)) (i mod 32)) [0..<bit_cnt b]"

definition bitmap_wf :: "bitmap \<Rightarrow> bool" where
  "bitmap_wf b \<longleftrightarrow> bit_cnt b + 32 \<le> 4294967296 \<and> elem_cnt (bit_cnt b) \<le> length (bits b)"


subsection \<open>Single bits\<close>

lemma bit_bit_mask: "bit (bit_mask i) k \<longleftrightarrow> k = i mod 32"
proof -
  have "i mod 32 < 32" by simp
  then show ?thesis by (auto simp: bit_mask_def ELEM_BITS_def bit_simps)
qed

lemma and_bit_mask_ne_0: "(w :: u32) AND bit_mask i \<noteq> 0 \<longleftrightarrow> bit w (i mod 32)"
proof
  assume "w AND bit_mask i \<noteq> 0"
  then obtain n where "bit (w AND bit_mask i) n" by (metis bit_0_eq bit_eqI bot_apply bot_bool_def)
  then show "bit w (i mod 32)" by (auto simp: bit_and_iff bit_bit_mask)
next
  assume "bit w (i mod 32)"
  then have "bit (w AND bit_mask i) (i mod 32)" by (simp add: bit_and_iff bit_bit_mask)
  then show "w AND bit_mask i \<noteq> 0" by auto
qed

lemma length_bits_of [simp]: "length (bits_of b) = bit_cnt b"
  by (simp add: bits_of_def)

lemma nth_bits_of: "i < bit_cnt b \<Longrightarrow> bits_of b ! i = bit (bits b ! (i div 32)) (i mod 32)"
  by (simp add: bits_of_def)

lemma elem_cnt_eq: "n + 32 \<le> 4294967296 \<Longrightarrow> elem_cnt n = (n + 31) div 32"
  by (simp add: elem_cnt_def ELEM_BITS_def DIV_ROUND_UP_eq)

lemma bitmap_wf_elem_idx:
  assumes "bitmap_wf b" and "i < bit_cnt b"
  shows "i div 32 < length (bits b)"
proof -
  have "i div 32 < (bit_cnt b + 31) div 32" using assms(2) by simp
  with assms(1) show ?thesis by (auto simp: bitmap_wf_def elem_cnt_eq)
qed

lemma update_elem_bits:
  assumes wf: "bitmap_wf b" and i: "i < bit_cnt b"
    and f: "\<And>e k. k < 32 \<Longrightarrow> bit (f e) k = (if k = i mod 32 then v (bit e k) else bit e k)"
  shows "\<exists>b'. update_elem b (elem_idx i) f = Some b' \<and> bitmap_wf b' \<and> bit_cnt b' = bit_cnt b \<and>
    bits_of b' = (bits_of b)[i := v (bits_of b ! i)]"
proof -
  let ?b' = "b\<lparr>bits := (bits b)[i div 32 := f (bits b ! (i div 32))]\<rparr>"
  have len: "i div 32 < length (bits b)" using wf i by (rule bitmap_wf_elem_idx)
  have upd: "update_elem b (elem_idx i) f = Some ?b'"
    using len by (simp add: update_elem_def elem_idx_def ELEM_BITS_def)
  have "bits_of ?b' ! j = (bits_of b)[i := v (bits_of b ! i)] ! j" if j: "j < bit_cnt b" for j
  proof (cases "j div 32 = i div 32")
    case True
    have same: "j mod 32 = i mod 32 \<longleftrightarrow> j = i"
      using True by (metis div_mod_decomp)
    have "bits_of ?b' ! j = bit (f (bits b ! (i div 32))) (j mod 32)"
      using j len True by (simp add: nth_bits_of)
    also have "\<dots> = (if j = i then v (bits_of b ! i) else bits_of b ! j)"
      using f [of "j mod 32"] same True i j by (simp add: nth_bits_of)
    finally show ?thesis using i j by (auto simp: nth_list_update)
  next
    case False
    then have "j \<noteq> i" by auto
    with False j show ?thesis by (simp add: nth_bits_of nth_list_update)
  qed
  then have "bits_of ?b' = (bits_of b)[i := v (bits_of b ! i)]"
    by (intro nth_equalityI) simp_all
  moreover have "bitmap_wf ?b'" using wf by (simp add: bitmap_wf_def)
  ultimately show ?thesis using upd by auto
qed

lemma bitmap_mark_bits:
  assumes "bitmap_wf b" and "i < bit_cnt b"
  shows "\<exists>b'. bitmap_mark b i = Some b' \<and> bitmap_wf b' \<and> bit_cnt b' = bit_cnt b \<and>
    bits_of b' = (bits_of b)[i := True]"
  unfolding bitmap_mark_def
  by (rule update_elem_bits [OF assms, where v = "\<lambda>_. True"]) (auto simp: bit_or_iff bit_bit_mask)

lemma bitmap_reset_bits:
  assumes "bitmap_wf b" and "i < bit_cnt b"
  shows "\<exists>b'. bitmap_reset b i = Some b' \<and> bitmap_wf b' \<and> bit_cnt b' = bit_cnt b \<and>
    bits_of b' = (bits_of b)[i := False]"
  unfolding bitmap_reset_def
  by (rule update_elem_bits [OF assms, where v = "\<lambda>_. False"])
    (auto simp: bit_and_iff bit_not_iff bit_bit_mask)

lemma bitmap_flip_bits:
  assumes "bitmap_wf b" and "i < bit_cnt b"
  shows "\<exists>b'. bitmap_flip b i = Some b' \<and> bitmap_wf b' \<and> bit_cnt b' = bit_cnt b \<and>
    bits_of b' = (bits_of b)[i := \<not> bits_of b ! i]"
  unfolding bitmap_flip_def
  by (rule update_elem_bits [OF assms, where v = Not]) (auto simp: bit_xor_iff bit_bit_mask)

lemma bitmap_set_bits:
  assumes "bitmap_wf b" and "i < bit_cnt b"
  shows "\<exists>b'. bitmap_set b i v = Some b' \<and> bitmap_wf b' \<and> bit_cnt b' = bit_cnt b \<and>
    bits_of b' = (bits_of b)[i := v]"
  using bitmap_mark_bits [OF assms] bitmap_reset_bits [OF assms] assms(2)
  by (cases v) (simp_all add: bitmap_set_def)

lemma bitmap_set_None: "bit_cnt b \<le> i \<Longrightarrow> bitmap_set b i v = None"
  by (simp add: bitmap_set_def)

lemma bitmap_set_bit_cnt: "bitmap_set b i v = Some b' \<Longrightarrow> bit_cnt b' = bit_cnt b"
  by (auto simp: bitmap_set_def bitmap_mark_def bitmap_reset_def update_elem_def
      panic_simps split: if_splits)

lemma bitmap_test_eq:
  assumes "bitmap_wf b"
  shows "bitmap_test b i = (if i < bit_cnt b then Some (bits_of b ! i) else None)"
  using bitmap_wf_elem_idx [OF assms, of i]
  by (simp add: bitmap_test_def panic_simps elem_idx_def ELEM_BITS_def nth_bits_of
      and_bit_mask_ne_0)

subsection \<open>Groups of bits\<close>

definition set_range :: "bool list \<Rightarrow> nat \<Rightarrow> nat \<Rightarrow> bool \<Rightarrow> bool list" where
  "set_range xs start cnt v = take start xs @ replicate cnt v @ drop (start + cnt) xs"

lemma nth_set_range:
  "start + cnt \<le> length xs \<Longrightarrow> i < length xs \<Longrightarrow>
    set_range xs start cnt v ! i = (if start \<le> i \<and> i < start + cnt then v else xs ! i)"
  unfolding set_range_def by (rule nth_take_replicate_drop)

lemma length_set_range [simp]:
  "start + cnt \<le> length xs \<Longrightarrow> length (set_range xs start cnt v) = length xs"
  by (simp add: set_range_def)

lemma set_range_0 [simp]: "set_range xs start 0 v = xs"
  by (simp add: set_range_def)

lemma set_range_Suc:
  assumes "start + Suc n \<le> length xs"
  shows "set_range xs start (Suc n) v = (set_range xs start n v)[start + n := v]"
  using assms by (intro nth_equalityI) (auto simp: nth_set_range nth_list_update)

lemma bitmap_set_multiple_bits:
  assumes wf: "bitmap_wf b" and len: "start + cnt \<le> bit_cnt b"
  shows "\<exists>b'. bitmap_set_multiple b start cnt v = Some b' \<and> bitmap_wf b' \<and>
    bit_cnt b' = bit_cnt b \<and> bits_of b' = set_range (bits_of b) start cnt v"
proof -
  have small: "bit_cnt b < 4294967296" using wf by (simp add: bitmap_wf_def)
  let ?P = "\<lambda>k c. bitmap_wf c \<and> bit_cnt c = bit_cnt b \<and> bits_of c = set_range (bits_of b) start k v"
  have "\<exists>t. for_range 0 cnt (\<lambda>i b. bitmap_set b (wrap32 (start + i)) v) b = Some t \<and> ?P cnt t"
  proof (rule for_range_invariant)
    fix k u
    assume k: "k < cnt" and u: "?P k u"
    then have i: "start + k < bit_cnt u" using len by simp
    have "set_range (bits_of b) start (Suc k) v = (bits_of u)[start + k := v]"
      using u k len by (simp add: set_range_Suc)
    with u i small len bitmap_set_bits [of u "start + k" v]
    show "\<exists>w. bitmap_set u (wrap32 (start + k)) v = Some w \<and> ?P (Suc k) w" by auto
  qed (simp_all add: wf)
  with len small show ?thesis by (simp add: bitmap_set_multiple_def)
qed

lemma bitmap_set_multiple_None:
  assumes "bitmap_wf b" and "cnt < 4294967296" and "bit_cnt b < start + cnt"
  shows "bitmap_set_multiple b start cnt v = None"
proof (cases "start \<le> bit_cnt b")
  case True
  have small: "bit_cnt b < 4294967296" using assms(1) by (simp add: bitmap_wf_def)
  define k where "k = bit_cnt b - start"
  let ?f = "\<lambda>i b. bitmap_set b (wrap32 (start + i)) v"
  have k: "k < cnt" "start + k = bit_cnt b" using assms(3) True by (simp_all add: k_def)
  have keeps: "bit_cnt u = bit_cnt b" if "foldM ?f [0..<k] b = Some u" for u
    using that by (rule foldM_invariant) (auto simp: bitmap_set_bit_cnt)
  have "[0..<cnt] = [0..<k] @ k # [Suc k..<cnt]"
    using k(1) by (intro upt_split_at) simp_all
  then have "for_range 0 cnt ?f b = do { u \<leftarrow> foldM ?f [0..<k] b; foldM ?f (k # [Suc k..<cnt]) u }"
    by (simp only: for_range_def foldM_append)
  also have "\<dots> = None"
  proof (cases "foldM ?f [0..<k] b")
    case (Some u)
    have "?f k u = None" using keeps [OF Some] small k(2) by (simp add: bitmap_set_None)
    with Some show ?thesis by simp
  qed simp
  finally have "for_range 0 cnt ?f b = None" .
  then show ?thesis by (simp add: bitmap_set_multiple_def panic_simps)
qed (simp add: bitmap_set_multiple_def)

lemma bitmap_set_all_bits:
  assumes "bitmap_wf b"
  shows "\<exists>b'. bitmap_set_all b v = Some b' \<and> bitmap_wf b' \<and> bit_cnt b' = bit_cnt b \<and>
    bits_of b' = replicate (bit_cnt b) v"
  using bitmap_set_multiple_bits [OF assms, of 0 "bit_cnt b" v]
  by (simp add: bitmap_set_all_def bitmap_size_def set_range_def)

lemma bitmap_contains_eq:
  assumes wf: "bitmap_wf b" and len: "start + cnt \<le> bit_cnt b"
  shows "bitmap_contains b start cnt v = Some (\<exists>i. start \<le> i \<and> i < start + cnt \<and> bits_of b ! i = v)"
proof -
  have small: "bit_cnt b < 4294967296" using wf by (simp add: bitmap_wf_def)
  have "findM (\<lambda>i. do { w \<leftarrow> bitmap_test b (wrap32 (start + i)); Some (w = v) }) [0..<cnt] =
    Some (find (\<lambda>i. bits_of b ! (start + i) = v) [0..<cnt])"
    using wf len small by (intro findM_total) (auto simp: bitmap_test_eq)
  moreover have "find (\<lambda>i. bits_of b ! (start + i) = v) [0..<cnt] \<noteq> None \<longleftrightarrow>
    (\<exists>i<cnt. bits_of b ! (start + i) = v)"
    unfolding find_None_iff by auto
  moreover have "(\<exists>i<cnt. bits_of b ! (start + i) = v) \<longleftrightarrow>
    (\<exists>i. start \<le> i \<and> i < start + cnt \<and> bits_of b ! i = v)"
    by (rule ex_shift)
  ultimately show ?thesis using len small by (simp add: bitmap_contains_def)
qed

lemma bitmap_all_eq:
  assumes "bitmap_wf b" and "start + cnt \<le> bit_cnt b"
  shows "bitmap_all b start cnt = Some (\<forall>i. start \<le> i \<and> i < start + cnt \<longrightarrow> bits_of b ! i)"
  using bitmap_contains_eq [OF assms, of False] by (auto simp: bitmap_all_def)

lemma bitmap_none_eq:
  assumes "bitmap_wf b" and "start + cnt \<le> bit_cnt b"
  shows "bitmap_none b start cnt = Some (\<forall>i. start \<le> i \<and> i < start + cnt \<longrightarrow> \<not> bits_of b ! i)"
  using bitmap_contains_eq [OF assms, of True] by (auto simp: bitmap_none_def)

lemma bitmap_any_eq:
  assumes "bitmap_wf b" and "start + cnt \<le> bit_cnt b"
  shows "bitmap_any b start cnt = Some (\<exists>i. start \<le> i \<and> i < start + cnt \<and> bits_of b ! i)"
  using bitmap_contains_eq [OF assms, of True] by (simp add: bitmap_any_def)

lemma bitmap_count_eq:
  assumes wf: "bitmap_wf b" and len: "start + cnt \<le> bit_cnt b"
  shows "bitmap_count b start cnt v = Some (count_list (take cnt (drop start (bits_of b))) v)"
proof -
  have small: "bit_cnt b < 4294967296" using wf by (simp add: bitmap_wf_def)
  let ?f = "\<lambda>i c. do { w \<leftarrow> bitmap_test b (wrap32 (start + i)); Some (if w = v then c + 1 else c) }"
  have "\<exists>t. for_range 0 cnt ?f 0 = Some t \<and> t = count_list (take cnt (drop start (bits_of b))) v"
  proof (rule for_range_invariant)
    fix k :: nat and u :: nat
    assume k: "k < cnt" and u: "u = count_list (take k (drop start (bits_of b))) v"
    then have i: "start + k < bit_cnt b" using len by simp
    then have "take (Suc k) (drop start (bits_of b)) =
        take k (drop start (bits_of b)) @ [bits_of b ! (start + k)]"
      by (simp add: take_Suc_conv_app_nth)
    with i small u show "\<exists>w. ?f k u = Some w \<and> w = count_list (take (Suc k) (drop start (bits_of b))) v"
      by (simp add: bitmap_test_eq [OF wf] count_list_append)
  qed simp_all
  with len small show ?thesis by (simp add: bitmap_count_def)
qed


subsection \<open>Finding a group\<close>

text \<open>\<open>group_at b i cnt v\<close>: the \<open>cnt\<close> bits from \<open>i\<close> are inside the bitmap and all equal to \<open>v\<close>.\<close>

definition group_at :: "bitmap \<Rightarrow> nat \<Rightarrow> nat \<Rightarrow> bool \<Rightarrow> bool" where
  "group_at b i cnt v \<longleftrightarrow>
     i + cnt \<le> bit_cnt b \<and> (\<forall>k. i \<le> k \<and> k < i + cnt \<longrightarrow> bits_of b ! k = v)"

definition scan_end :: "bitmap \<Rightarrow> nat \<Rightarrow> nat" where
  "scan_end b cnt = bit_cnt b - cnt + 1"

lemma bitmap_scan_eq:
  assumes wf: "bitmap_wf b" and start: "start \<le> bit_cnt b"
  shows "bitmap_scan b start cnt v =
    Some (case find (\<lambda>i. group_at b i cnt v) [start..<scan_end b cnt] of
            Some i \<Rightarrow> if cnt \<le> bit_cnt b then i else BITMAP_ERROR | None \<Rightarrow> BITMAP_ERROR)"
proof (cases "cnt \<le> bit_cnt b")
  case True
  have "findM (\<lambda>i. map_option Not (bitmap_contains b i cnt (\<not> v))) [start..<scan_end b cnt] =
    Some (find (\<lambda>i. group_at b i cnt v) [start..<scan_end b cnt])"
    using wf True by (intro findM_total) (auto simp: scan_end_def bitmap_contains_eq group_at_def)
  with True start show ?thesis by (simp add: bitmap_scan_def scan_end_def split: option.splits)
next
  case False
  with start show ?thesis by (simp add: bitmap_scan_def split: option.splits)
qed

lemma bitmap_scan_total:
  "bitmap_wf b \<Longrightarrow> start \<le> bit_cnt b \<Longrightarrow> \<exists>i. bitmap_scan b start cnt v = Some i"
  by (simp add: bitmap_scan_eq)

lemma bitmap_scan_found:
  assumes wf: "bitmap_wf b" and start: "start \<le> bit_cnt b" and i: "i \<noteq> BITMAP_ERROR"
  shows "bitmap_scan b start cnt v = Some i \<longleftrightarrow>
    start \<le> i \<and> group_at b i cnt v \<and> (\<forall>j. start \<le> j \<and> j < i \<longrightarrow> \<not> group_at b j cnt v)"
    (is "?l = ?r")
proof
  assume ?l
  with wf start i have "find (\<lambda>i. group_at b i cnt v) [start..<scan_end b cnt] = Some i"
    by (auto simp: bitmap_scan_eq split: option.splits if_splits)
  then show ?r by (simp add: find_upt_Some)
next
  assume r: ?r
  then have "i < scan_end b cnt" "cnt \<le> bit_cnt b" by (auto simp: group_at_def scan_end_def)
  with r have "find (\<lambda>i. group_at b i cnt v) [start..<scan_end b cnt] = Some i"
    by (simp add: find_upt_Some)
  with wf start \<open>cnt \<le> bit_cnt b\<close> show ?l by (simp add: bitmap_scan_eq)
qed

lemma bitmap_scan_error:
  assumes wf: "bitmap_wf b" and start: "start \<le> bit_cnt b"
  shows "bitmap_scan b start cnt v = Some BITMAP_ERROR \<longleftrightarrow>
    (\<forall>i\<ge>start. \<not> group_at b i cnt v)" (is "?l = ?r")
proof
  assume l: ?l
  show ?r
  proof (intro allI impI notI)
    fix i
    assume i: "start \<le> i" "group_at b i cnt v"
    then have "find (\<lambda>i. group_at b i cnt v) [start..<scan_end b cnt] \<noteq> None"
      "cnt \<le> bit_cnt b"
      by (auto simp: find_None_iff group_at_def scan_end_def)
    with l wf start obtain j where "find (\<lambda>i. group_at b i cnt v) [start..<scan_end b cnt] = Some j"
      "j = BITMAP_ERROR"
      by (auto simp: bitmap_scan_eq split: option.splits if_splits)
    then have "BITMAP_ERROR < scan_end b cnt" by (simp add: find_upt_Some)
    then have "BITMAP_ERROR \<le> bit_cnt b" by (simp add: scan_end_def)
    with wf show False by (simp add: bitmap_wf_def BITMAP_ERROR_def SIZE_MAX_def)
  qed
next
  assume ?r
  then have "find (\<lambda>i. group_at b i cnt v) [start..<scan_end b cnt] = None"
    by (auto simp: find_None_iff)
  with wf start show ?l by (simp add: bitmap_scan_eq)
qed

lemma group_at_not_error: "bitmap_wf b \<Longrightarrow> group_at b i cnt v \<Longrightarrow> i \<noteq> BITMAP_ERROR"
  by (auto simp: group_at_def bitmap_wf_def BITMAP_ERROR_def SIZE_MAX_def)

text \<open>
  \<^verbatim>\<open>bitmap_scan_and_flip\<close> never panics when it starts inside the bitmap: either no group exists,
  and the bitmap is unchanged, or the first group is returned and flipped.
\<close>

lemma bitmap_scan_and_flip_cases:
  assumes wf: "bitmap_wf b" and start: "start \<le> bit_cnt b"
  obtains (error) "bitmap_scan_and_flip b start cnt v = Some (BITMAP_ERROR, b)"
      "\<And>i. start \<le> i \<Longrightarrow> \<not> group_at b i cnt v"
    | (found) i b' where "bitmap_scan_and_flip b start cnt v = Some (i, b')" "i \<noteq> BITMAP_ERROR"
      "start \<le> i" "group_at b i cnt v" "\<And>j. start \<le> j \<Longrightarrow> j < i \<Longrightarrow> \<not> group_at b j cnt v"
      "bitmap_wf b'" "bit_cnt b' = bit_cnt b" "bits_of b' = set_range (bits_of b) i cnt (\<not> v)"
proof -
  obtain i where i: "bitmap_scan b start cnt v = Some i"
    using bitmap_scan_total [OF wf start] by blast
  show thesis
  proof (cases "i = BITMAP_ERROR")
    case True
    with i bitmap_scan_error [OF wf start, of cnt v] show thesis
      by (intro error) (simp_all add: bitmap_scan_and_flip_def)
  next
    case False
    with i have g: "start \<le> i" "group_at b i cnt v" "\<forall>j. start \<le> j \<and> j < i \<longrightarrow> \<not> group_at b j cnt v"
      by (simp_all add: bitmap_scan_found [OF wf start])
    from g(2) have "i + cnt \<le> bit_cnt b" by (simp add: group_at_def)
    with bitmap_set_multiple_bits [OF wf] obtain b' where
      "bitmap_set_multiple b i cnt (\<not> v) = Some b'" "bitmap_wf b'" "bit_cnt b' = bit_cnt b"
      "bits_of b' = set_range (bits_of b) i cnt (\<not> v)" by blast
    with i False g show thesis by (intro found [of i b']) (auto simp: bitmap_scan_and_flip_def)
  qed
qed

subsection \<open>Creation and file images\<close>

lemma bitmap_create_bits:
  assumes "n + 32 \<le> 4294967296" and "length ws = elem_cnt n"
  shows "\<exists>b. bitmap_create True (Some ws) n = Some (Some b) \<and> bitmap_wf b \<and> bit_cnt b = n \<and>
    bits_of b = replicate n False"
  using bitmap_set_all_bits [of "\<lparr>bit_cnt = n, bits = ws\<rparr>" False] assms
  by (auto simp: bitmap_create_def bitmap_wf_def)

lemma elem_cnt_le_words:
  assumes "n + 32 \<le> 4294967296" and "bitmap_buf_size n \<le> 4 * length block"
    and "8 + 4 * elem_cnt n < 4294967296"
  shows "elem_cnt n \<le> length (drop 2 block)"
  using assms by (simp add: bitmap_buf_size_def byte_cnt_def)

lemma bitmap_create_in_buf_bits:
  assumes n: "n + 32 \<le> 4294967296" and size: "bitmap_buf_size n \<le> 4 * length block"
  shows "\<exists>b. bitmap_create_in_buf n block (4 * length block) = Some b \<and> bitmap_wf b \<and>
    bit_cnt b = n \<and> bits_of b = replicate n False"
proof -
  have "elem_cnt n \<le> 134217727" using n by (simp add: elem_cnt_eq)
  then have "elem_cnt n \<le> length (drop 2 block)" using n size by (intro elem_cnt_le_words) simp_all
  then have "bitmap_wf \<lparr>bit_cnt = n, bits = drop 2 block\<rparr>" using n by (simp add: bitmap_wf_def)
  from bitmap_set_all_bits [OF this, of False] size show ?thesis
    by (simp add: bitmap_create_in_buf_def)
qed

lemma bit_last_mask:
  assumes "bit_cnt b mod 32 = r" and "k < 32"
  shows "bit (last_mask b) k \<longleftrightarrow> r = 0 \<or> k < r"
proof (cases "r = 0")
  case False
  have "r < 32" using assms(1) by auto
  have "last_mask b = mask r"
    using False assms(1) by (simp add: last_mask_def ELEM_BITS_def mask_eq_exp_minus_1 push_bit_eq_mult)
  with False \<open>r < 32\<close> show ?thesis by (auto simp: bit_mask_iff)
qed (use assms in \<open>simp add: last_mask_def ELEM_BITS_def\<close>)

lemma last_elem_mod:
  assumes "i < n" and "i div 32 = (n + 31) div 32 - 1"
  shows "n mod 32 = 0 \<or> i mod 32 < n mod (32::nat)"
proof (rule disjCI)
  assume "\<not> i mod 32 < n mod 32"
  moreover have "i = 32 * (i div 32) + i mod 32" "n = 32 * (n div 32) + n mod 32" by simp_all
  ultimately have "i div 32 < n div 32" using assms(1) by linarith
  with assms(2) have le: "(n + 31) div 32 \<le> n div 32" by linarith
  show "n mod 32 = 0"
  proof (rule ccontr)
    assume "n mod 32 \<noteq> 0"
    then have "32 * (n div 32) + 32 \<le> n + 31" using \<open>n = 32 * (n div 32) + n mod 32\<close> by linarith
    then have "(32 * (n div 32) + 32) div 32 \<le> (n + 31) div 32" by (rule div_le_mono)
    with le show False by simp
  qed
qed

text \<open>
  A bitmap that was written to a file and is read back has the same bits, whatever the bits
  behind the end of the last element were.
\<close>

lemma bitmap_read_write:
  assumes wf: "bitmap_wf b" and len: "length (bits b) = elem_cnt (bit_cnt b)"
    and c: "bit_cnt c = bit_cnt b" "length (bits c) = elem_cnt (bit_cnt b)"
    and read: "\<And>size. size = byte_cnt (bit_cnt b) \<Longrightarrow> read_at size 0 = take size (u32s_bytes (bits b))"
  shows "\<exists>c'. bitmap_read read_at c = Some (True, c') \<and> bits_of c' = bits_of b \<and> bitmap_wf c'"
proof (cases "bit_cnt b = 0")
  case True
  with wf c show ?thesis by (simp add: bitmap_read_def bits_of_def bitmap_wf_def)
next
  case False
  have n: "bit_cnt b + 32 \<le> 4294967296" using wf by (simp add: bitmap_wf_def)
  have e: "elem_cnt (bit_cnt b) = (bit_cnt b + 31) div 32" using n by (rule elem_cnt_eq)
  have pos: "0 < elem_cnt (bit_cnt b)" using False e by simp
  have bytes: "byte_cnt (bit_cnt b) = 4 * elem_cnt (bit_cnt b)" using n e by (simp add: byte_cnt_def)
  let ?l = "elem_cnt (bit_cnt b) - 1"
  let ?c = "c\<lparr>bits := (bits b)[?l := bits b ! ?l AND last_mask c]\<rparr>"
  have "read_at (byte_cnt (bit_cnt b)) 0 = u32s_bytes (bits b)"
    using read bytes len by simp
  then have "bitmap_read read_at c = Some (True, ?c)"
    using False c len pos bytes by (simp add: bitmap_read_def update_elem_def)
  moreover have "bits_of ?c ! i = bits_of b ! i" if i: "i < bit_cnt b" for i
  proof (cases "i div 32 = ?l")
    case True
    let ?r = "bit_cnt b mod 32"
    have "?r = 0 \<or> i mod 32 < ?r" using i True e by (simp add: last_elem_mod)
    then have "bit (last_mask c) (i mod 32)" using bit_last_mask [of c ?r "i mod 32"] c by simp
    with True i c pos len show ?thesis by (simp add: nth_bits_of bit_and_iff)
  next
    case False
    with i c show ?thesis by (simp add: nth_bits_of)
  qed
  ultimately show ?thesis
    using c len wf by (auto simp: bitmap_wf_def intro!: nth_equalityI)
qed


subsection \<open>The contract of the allocators\<close>

text \<open>
  Pages, disk sectors and swap slots are all handed out by scanning a bitmap for a group of
  free units and marking it. \<open>region_allocator\<close> is what those clients rely on: \<open>used\<close> is the set
  of units in use, \<open>alloc s n\<close> returns the first unit of a group of \<open>n\<close> units or \<open>None\<close>, and
  \<open>release s i n\<close> gives a group back (it is an error, \<^const>\<open>None\<close>, if the group is not in use).
\<close>

locale region_allocator =
  fixes invar :: "'s \<Rightarrow> bool"
    and used :: "'s \<Rightarrow> nat set"
    and cap :: "'s \<Rightarrow> nat"
    and alloc :: "'s \<Rightarrow> nat \<Rightarrow> nat option \<times> 's"
    and release :: "'s \<Rightarrow> nat \<Rightarrow> nat \<Rightarrow> 's option"
  assumes used_cap: "invar s \<Longrightarrow> used s \<subseteq> {..<cap s}"
    and alloc_Some: "invar s \<Longrightarrow> alloc s n = (Some i, s') \<Longrightarrow>
      invar s' \<and> cap s' = cap s \<and> i + n \<le> cap s \<and> {i..<i + n} \<inter> used s = {} \<and>
      used s' = used s \<union> {i..<i + n}"
    and alloc_None: "invar s \<Longrightarrow> alloc s n = (None, s') \<Longrightarrow>
      s' = s \<and> (\<forall>i. i + n \<le> cap s \<longrightarrow> {i..<i + n} \<inter> used s \<noteq> {})"
    and release_eq: "invar s \<Longrightarrow> i + n \<le> cap s \<Longrightarrow> {i..<i + n} \<subseteq> used s \<Longrightarrow>
      \<exists>s'. release s i n = Some s' \<and> invar s' \<and> cap s' = cap s \<and> used s' = used s - {i..<i + n}"
    and release_free: "invar s \<Longrightarrow> i + n \<le> cap s \<Longrightarrow> \<not> {i..<i + n} \<subseteq> used s \<Longrightarrow> release s i n = None"
begin

lemma alloc_fresh: "invar s \<Longrightarrow> alloc s n = (Some i, s') \<Longrightarrow> k \<in> {i..<i + n} \<Longrightarrow> k \<notin> used s \<and> k \<in> used s'"
  using alloc_Some [of s n i s'] by blast

lemma alloc_fails_iff:
  assumes "invar s"
  shows "fst (alloc s n) = None \<longleftrightarrow> (\<forall>i. i + n \<le> cap s \<longrightarrow> {i..<i + n} \<inter> used s \<noteq> {})"
proof (cases "alloc s n")
  case (Pair r s')
  then show ?thesis
    using alloc_None [OF assms, of n s'] alloc_Some [OF assms, of n _ s'] by (cases r) auto
qed

lemma alloc_alloc_disjoint:
  assumes "invar s" and "alloc s n = (Some i, s')" and "alloc s' m = (Some j, s'')"
  shows "{i..<i + n} \<inter> {j..<j + m} = {}"
  using alloc_Some [OF assms(1,2)] alloc_Some [OF _ assms(3)] by blast

text \<open>A group that is given back leaves the units in use as they were.\<close>

lemma alloc_release:
  assumes "invar s" and "alloc s n = (Some i, s')"
  shows "\<exists>s''. release s' i n = Some s'' \<and> invar s'' \<and> used s'' = used s"
proof -
  note a = alloc_Some [OF assms]
  then have "invar s'" "i + n \<le> cap s'" "{i..<i + n} \<subseteq> used s'" by auto
  then obtain s'' where "release s' i n = Some s''" "invar s''" "used s'' = used s' - {i..<i + n}"
    using release_eq by blast
  with a show ?thesis by blast
qed

lemma release_realloc:
  assumes "invar s" and "i + n \<le> cap s" and "{i..<i + n} \<subseteq> used s" and "release s i n = Some s'"
  shows "fst (alloc s' n) \<noteq> None"
proof -
  from release_eq [OF assms(1-3)] assms(4) have "invar s'" "cap s' = cap s"
    "used s' = used s - {i..<i + n}" by auto
  with assms(2) show ?thesis by (auto simp: alloc_fails_iff)
qed

lemma double_release:
  assumes "invar s" and "i + n \<le> cap s" and "{i..<i + n} \<subseteq> used s" and "0 < n"
    and "release s i n = Some s'"
  shows "release s' i n = None"
proof -
  from release_eq [OF assms(1-3)] assms(5) have s': "invar s'" "cap s' = cap s"
    "used s' = used s - {i..<i + n}" by auto
  then have "i \<in> {i..<i + n}" "i \<notin> used s'" using assms(4) by auto
  then have "\<not> {i..<i + n} \<subseteq> used s'" by blast
  with s' assms(2) show ?thesis by (intro release_free) auto
qed

end

text \<open>The operations of the contract, as the clients write them over \<^verbatim>\<open>bitmap.c\<close>.\<close>

definition used_units :: "bitmap \<Rightarrow> nat set" where
  "used_units b = {i. i < bit_cnt b \<and> bits_of b ! i}"

definition take_units :: "bitmap \<Rightarrow> nat \<Rightarrow> nat option \<times> bitmap" where
  "take_units b n =
     (case bitmap_scan_and_flip b 0 n False of
        Some (i, b') \<Rightarrow> (if i \<noteq> BITMAP_ERROR then Some i else None, b')
      | None \<Rightarrow> (None, b))"

definition give_units :: "bitmap \<Rightarrow> nat \<Rightarrow> nat \<Rightarrow> bitmap option" where
  "give_units b i n = do {
     all \<leftarrow> bitmap_all b i n;
     ASSERT all;
     bitmap_set_multiple b i n False }"

lemma group_at_free: "group_at b i n False \<longleftrightarrow> i + n \<le> bit_cnt b \<and> {i..<i + n} \<inter> used_units b = {}"
  by (fastforce simp: group_at_def used_units_def)

lemma used_units_set_range:
  assumes "bits_of b' = set_range (bits_of b) i n v" and "bit_cnt b' = bit_cnt b"
    and "i + n \<le> bit_cnt b"
  shows "used_units b' = (if v then used_units b \<union> {i..<i + n} else used_units b - {i..<i + n})"
  using assms by (auto simp: used_units_def nth_set_range split: if_splits)

lemma take_units_Some:
  assumes wf: "bitmap_wf b" and t: "take_units b n = (Some i, b')"
  shows "bitmap_wf b' \<and> bit_cnt b' = bit_cnt b \<and> i + n \<le> bit_cnt b \<and>
    {i..<i + n} \<inter> used_units b = {} \<and> used_units b' = used_units b \<union> {i..<i + n}"
  using wf
proof (rule bitmap_scan_and_flip_cases [where start = 0 and cnt = n and v = False])
  fix j c
  assume *: "bitmap_scan_and_flip b 0 n False = Some (j, c)" "j \<noteq> BITMAP_ERROR"
    "group_at b j n False" "bitmap_wf c" "bit_cnt c = bit_cnt b"
    "bits_of c = set_range (bits_of b) j n (\<not> False)"
  with t have "j = i" "c = b'" by (simp_all add: take_units_def)
  with * show ?thesis by (simp add: group_at_free used_units_set_range)
qed (use t in \<open>simp_all add: take_units_def\<close>)

lemma take_units_None:
  assumes wf: "bitmap_wf b" and t: "take_units b n = (None, b')"
  shows "b' = b \<and> (\<forall>i. i + n \<le> bit_cnt b \<longrightarrow> {i..<i + n} \<inter> used_units b \<noteq> {})"
  using wf
proof (rule bitmap_scan_and_flip_cases [where start = 0 and cnt = n and v = False])
  assume "bitmap_scan_and_flip b 0 n False = Some (BITMAP_ERROR, b)"
    and "\<And>i. 0 \<le> i \<Longrightarrow> \<not> group_at b i n False"
  with t show ?thesis by (auto simp: take_units_def group_at_free)
qed (use t in \<open>simp_all add: take_units_def\<close>)

lemma give_units_eq:
  assumes wf: "bitmap_wf b" and len: "i + n \<le> bit_cnt b"
  shows "if {i..<i + n} \<subseteq> used_units b
    then \<exists>b'. give_units b i n = Some b' \<and> bitmap_wf b' \<and> bit_cnt b' = bit_cnt b \<and>
      used_units b' = used_units b - {i..<i + n}
    else give_units b i n = None"
proof -
  obtain b' where b': "bitmap_set_multiple b i n False = Some b'" "bitmap_wf b'"
    "bit_cnt b' = bit_cnt b" "bits_of b' = set_range (bits_of b) i n False"
    using bitmap_set_multiple_bits [OF assms] by blast
  have "(\<forall>k. i \<le> k \<and> k < i + n \<longrightarrow> bits_of b ! k) \<longleftrightarrow> {i..<i + n} \<subseteq> used_units b"
    using len by (fastforce simp: used_units_def)
  with b' used_units_set_range [OF b'(4,3) len] show ?thesis
    by (auto simp: give_units_def bitmap_all_eq [OF assms] panic_simps)
qed

interpretation units: region_allocator bitmap_wf used_units bit_cnt take_units give_units
proof unfold_locales
  show "bitmap_wf s \<Longrightarrow> used_units s \<subseteq> {..<bit_cnt s}" for s by (auto simp: used_units_def)
qed (use take_units_Some take_units_None give_units_eq in \<open>auto split: if_splits; blast\<close>)+

subsection \<open>Properties\<close>

text \<open>
  C9. \<^verbatim>\<open>bitmap_scan_and_flip\<close>: on a well-formed bitmap with a start inside it the call never
  panics. Either no group of \<^verbatim>\<open>cnt\<close> bits with the value exists from the start on, and then it
  returns \<^verbatim>\<open>BITMAP_ERROR\<close> and changes nothing; or it returns the first index at which such a group
  begins and the bitmap in which exactly the bits of that group have the other value. For a count of zero the group begins at
  \<^verbatim>\<open>start\<close>, which is returned although the comment says that it is 0, and nothing changes.
\<close>

lemma bitmap_scan_and_flip_zero:
  assumes "bitmap_wf b" and "start \<le> bit_cnt b"
  shows "bitmap_scan_and_flip b start 0 v = Some (start, b)"
proof -
  have e: "start \<noteq> BITMAP_ERROR" "wrap32 start = start" using assms by (auto simp: bitmap_wf_def BITMAP_ERROR_def SIZE_MAX_def wrap32_def)
  moreover have "bitmap_scan b start 0 v = Some start" using bitmap_scan_found [OF assms e(1)] assms(2) by (auto simp: group_at_def)
  ultimately show ?thesis using assms(2) by (simp add: bitmap_scan_and_flip_def bitmap_set_multiple_def)
qed

theorem bitmap_scan_and_flip_spec:
  assumes "bitmap_wf b" and "start \<le> bit_cnt b"
  shows "(bitmap_scan_and_flip b start cnt v = Some (BITMAP_ERROR, b) \<and> (\<forall>i\<ge>start. \<not> group_at b i cnt v)
    \<or> (\<exists>i b'. bitmap_scan_and_flip b start cnt v = Some (i, b') \<and> i \<noteq> BITMAP_ERROR
        \<and> start \<le> i \<and> group_at b i cnt v \<and> (\<forall>j. start \<le> j \<and> j < i \<longrightarrow> \<not> group_at b j cnt v)
        \<and> bitmap_wf b' \<and> bits_of b' = set_range (bits_of b) i cnt (\<not> v)))
    \<and> (cnt = 0 \<longrightarrow> bitmap_scan_and_flip b start cnt v = Some (start, b))"
  using bitmap_scan_and_flip_zero [OF assms, of v] by (auto intro: bitmap_scan_and_flip_cases [OF assms, where cnt = cnt and v = v])

definition demo_bitmap :: bitmap where
  "demo_bitmap = \<lparr>bit_cnt = 40, bits = [11, 0]\<rparr>"

lemma demo_bitmap_wf: "bitmap_wf demo_bitmap"
  by (simp add: bitmap_wf_def demo_bitmap_def elem_cnt_eq)

theorem bitmap_scan_and_flip_spec_witness:
  "bitmap_wf demo_bitmap \<and> (\<exists>i b'. bitmap_scan_and_flip demo_bitmap 3 2 False = Some (i, b'))"
  using bitmap_scan_and_flip_spec [OF demo_bitmap_wf, of 3 2 False] demo_bitmap_wf
  by (auto simp: demo_bitmap_def)

text \<open>
  \<^verbatim>\<open>bitmap_set_multiple\<close> with a count of \<^verbatim>\<open>size_t\<close>: a range inside the bitmap is set and every
  other bit stays; every range that is not inside it is a panic, also when \<^verbatim>\<open>start + cnt\<close> wraps
  around, so that the call never writes outside of the bitmap.
\<close>

theorem bitmap_set_multiple_exact:
  assumes "bitmap_wf b" and "cnt < 4294967296"
  shows "if start + cnt \<le> bit_cnt b
    then \<exists>b'. bitmap_set_multiple b start cnt v = Some b' \<and> bitmap_wf b' \<and> bit_cnt b' = bit_cnt b
      \<and> bits_of b' = set_range (bits_of b) start cnt v
    else bitmap_set_multiple b start cnt v = None"
  using bitmap_set_multiple_bits [OF assms(1)] bitmap_set_multiple_None [OF assms] by auto

text \<open>
  \<^verbatim>\<open>bitmap_write\<close> and \<^verbatim>\<open>bitmap_read\<close>: when a file gives back the bytes that were written to it,
  reading a bitmap of the same size from it succeeds and gives the bits that were written, whatever
  the bits in memory were before and whatever the unused bits of the last element are.
\<close>

definition file_write_model :: "u8 list \<Rightarrow> u8 list \<Rightarrow> size_t \<Rightarrow> size_t \<Rightarrow> size_t \<times> u8 list" where
  "file_write_model f buf sz ofs = (sz, take ofs f @ take sz buf @ drop (ofs + sz) f)"

theorem bitmap_write_read:
  assumes "bitmap_wf b" and "length (bits b) = elem_cnt (bit_cnt b)"
    and "bit_cnt c = bit_cnt b" and "length (bits c) = elem_cnt (bit_cnt b)"
    and "bitmap_write (file_write_model f0) b = (ok, f)"
  shows "ok \<and> (\<exists>c'. bitmap_read (\<lambda>sz ofs. take sz (drop ofs f)) c = Some (True, c') \<and> bits_of c' = bits_of b \<and> bitmap_wf c')"
proof -
  let ?n = "byte_cnt (bit_cnt b)"
  have f: "ok" "f = take ?n (u32s_bytes (bits b)) @ drop ?n f0"
    using assms(5) by (simp_all add: bitmap_write_def file_write_model_def Let_def)
  have n: "bit_cnt b + 32 \<le> 4294967296" using assms(1) by (simp add: bitmap_wf_def)
  then have "?n = 4 * elem_cnt (bit_cnt b)" by (simp add: byte_cnt_def elem_cnt_eq)
  then have "?n = length (u32s_bytes (bits b))" using assms(2) by simp
  then show ?thesis
    using assms(1-4) f by (intro conjI bitmap_read_write) simp_all
qed

text \<open>
  Allocation by bitmap, as the page allocator, the free map and the swap table do it: of two
  allocations one after the other each is inside the bitmap and free before it, and they do not
  overlap; giving the second back leaves the units in use as they were after the first.
\<close>

theorem allocations_disjoint:
  assumes "bitmap_wf b" and "take_units b n = (Some i, b1)" and "take_units b1 m = (Some j, b2)"
  shows "{i..<i + n} \<inter> {j..<j + m} = {} \<and> {i..<i + n} \<inter> used_units b = {} \<and> j + m \<le> bit_cnt b
    \<and> (\<exists>b3. give_units b2 j m = Some b3 \<and> bitmap_wf b3 \<and> used_units b3 = used_units b1)"
proof -
  note a1 = units.alloc_Some [OF assms(1,2)]
  then have wf: "bitmap_wf b1" by blast
  note a2 = units.alloc_Some [OF wf assms(3)]
  show ?thesis
    using a1 a2 units.alloc_alloc_disjoint [OF assms] units.alloc_release [OF wf assms(3)] by auto
qed

definition two_bits :: bitmap where
  "two_bits = \<lparr>bit_cnt = 2, bits = [0]\<rparr>"

end
