(* ===== verification/Klist.thy ===== *)
theory Klist
  imports Prelude
begin

text \<open>
  The doubly linked lists of \<^verbatim>\<open>lib/kernel/list.c\<close>, modelled at the level of the pointers. The
  list elements are embedded in the structures that the lists hold, so the state is the two
  fields of every \<^verbatim>\<open>struct list_elem\<close> in memory: \<open>links\<close> maps the address of an element to its
  \<^verbatim>\<open>prev\<close> and \<^verbatim>\<open>next\<close> pointers, and the null pointer is 0. A \<^verbatim>\<open>struct list\<close> at address \<open>l\<close> has
  its head element at \<open>l\<close> and its tail element eight bytes behind. An access through a null
  pointer and a failed \<^verbatim>\<open>ASSERT\<close> are \<^const>\<open>None\<close>. The comparison function \<^verbatim>\<open>less\<close> is the
  parameter \<open>lt\<close>; it reads the structures around the elements and not their links.

  \<open>dlist h l xs\<close> says that memory \<open>h\<close> holds a well-formed list at \<open>l\<close> with the interior elements
  \<open>xs\<close>. The lemmas show, for every operation, that it ends without panic on a well-formed list,
  what list it leaves, and that no other element is touched.
\<close>

type_synonym addr = nat

abbreviation (input) NULL :: addr where
  "NULL \<equiv> 0"

record links =
  le_prev :: "addr \<Rightarrow> addr"
  le_next :: "addr \<Rightarrow> addr"

definition tail_of :: "addr \<Rightarrow> addr" where
  "tail_of l = l + 8"

definition set_prev :: "links \<Rightarrow> addr \<Rightarrow> addr \<Rightarrow> links option" where
  "set_prev h e p = (if e = NULL then None else Some (h\<lparr>le_prev := (le_prev h)(e := p)\<rparr>))"

definition set_next :: "links \<Rightarrow> addr \<Rightarrow> addr \<Rightarrow> links option" where
  "set_next h e n = (if e = NULL then None else Some (h\<lparr>le_next := (le_next h)(e := n)\<rparr>))"

definition is_head :: "links \<Rightarrow> addr \<Rightarrow> bool" where
  "is_head h elem \<longleftrightarrow> elem \<noteq> NULL \<and> le_prev h elem = NULL \<and> le_next h elem \<noteq> NULL"

definition is_interior :: "links \<Rightarrow> addr \<Rightarrow> bool" where
  "is_interior h elem \<longleftrightarrow> elem \<noteq> NULL \<and> le_prev h elem \<noteq> NULL \<and> le_next h elem \<noteq> NULL"

definition is_tail :: "links \<Rightarrow> addr \<Rightarrow> bool" where
  "is_tail h elem \<longleftrightarrow> elem \<noteq> NULL \<and> le_prev h elem \<noteq> NULL \<and> le_next h elem = NULL"

definition list_init :: "links \<Rightarrow> addr \<Rightarrow> links option" where
  "list_init h l = do {
     ASSERT (l \<noteq> NULL);
     h \<leftarrow> set_prev h l NULL;
     h \<leftarrow> set_next h l (tail_of l);
     h \<leftarrow> set_prev h (tail_of l) l;
     set_next h (tail_of l) NULL }"

definition list_begin :: "links \<Rightarrow> addr \<Rightarrow> addr option" where
  "list_begin h l = do { ASSERT (l \<noteq> NULL); Some (le_next h l) }"

definition list_next :: "links \<Rightarrow> addr \<Rightarrow> addr option" where
  "list_next h elem = do { ASSERT (is_head h elem \<or> is_interior h elem); Some (le_next h elem) }"

definition list_end :: "addr \<Rightarrow> addr option" where
  "list_end l = do { ASSERT (l \<noteq> NULL); Some (tail_of l) }"

definition list_rbegin :: "links \<Rightarrow> addr \<Rightarrow> addr option" where
  "list_rbegin h l = do { ASSERT (l \<noteq> NULL); Some (le_prev h (tail_of l)) }"

definition list_prev :: "links \<Rightarrow> addr \<Rightarrow> addr option" where
  "list_prev h elem = do { ASSERT (is_interior h elem \<or> is_tail h elem); Some (le_prev h elem) }"

definition list_rend :: "addr \<Rightarrow> addr option" where
  "list_rend l = do { ASSERT (l \<noteq> NULL); Some l }"

definition list_head :: "addr \<Rightarrow> addr option" where
  "list_head l = do { ASSERT (l \<noteq> NULL); Some l }"

definition list_tail :: "addr \<Rightarrow> addr option" where
  "list_tail l = do { ASSERT (l \<noteq> NULL); Some (tail_of l) }"

definition list_insert :: "links \<Rightarrow> addr \<Rightarrow> addr \<Rightarrow> links option" where
  "list_insert h before elem = do {
     ASSERT (is_interior h before \<or> is_tail h before);
     ASSERT (elem \<noteq> NULL);
     h \<leftarrow> set_prev h elem (le_prev h before);
     h \<leftarrow> set_next h elem before;
     h \<leftarrow> set_next h (le_prev h before) elem;
     set_prev h before elem }"

definition list_splice :: "links \<Rightarrow> addr \<Rightarrow> addr \<Rightarrow> addr \<Rightarrow> links option" where
  "list_splice h before first stop = do {
     ASSERT (is_interior h before \<or> is_tail h before);
     if first = stop then Some h
     else do {
       lst \<leftarrow> list_prev h stop;
       ASSERT (is_interior h first);
       ASSERT (is_interior h lst);
       h \<leftarrow> set_next h (le_prev h first) (le_next h lst);
       h \<leftarrow> set_prev h (le_next h lst) (le_prev h first);
       h \<leftarrow> set_prev h first (le_prev h before);
       h \<leftarrow> set_next h lst before;
       h \<leftarrow> set_next h (le_prev h before) first;
       set_prev h before lst } }"

definition list_push_front :: "links \<Rightarrow> addr \<Rightarrow> addr \<Rightarrow> links option" where
  "list_push_front h l elem = do { b \<leftarrow> list_begin h l; list_insert h b elem }"

definition list_push_back :: "links \<Rightarrow> addr \<Rightarrow> addr \<Rightarrow> links option" where
  "list_push_back h l elem = do { e \<leftarrow> list_end l; list_insert h e elem }"

definition list_remove :: "links \<Rightarrow> addr \<Rightarrow> (addr \<times> links) option" where
  "list_remove h elem = do {
     ASSERT (is_interior h elem);
     h \<leftarrow> set_next h (le_prev h elem) (le_next h elem);
     h \<leftarrow> set_prev h (le_next h elem) (le_prev h elem);
     Some (le_next h elem, h) }"

definition list_empty :: "links \<Rightarrow> addr \<Rightarrow> bool option" where
  "list_empty h l = do { b \<leftarrow> list_begin h l; e \<leftarrow> list_end l; Some (b = e) }"

definition list_front :: "links \<Rightarrow> addr \<Rightarrow> addr option" where
  "list_front h l = do { em \<leftarrow> list_empty h l; ASSERT (\<not> em); Some (le_next h l) }"

definition list_back :: "links \<Rightarrow> addr \<Rightarrow> addr option" where
  "list_back h l = do { em \<leftarrow> list_empty h l; ASSERT (\<not> em); Some (le_prev h (tail_of l)) }"

definition list_pop_front :: "links \<Rightarrow> addr \<Rightarrow> (addr \<times> links) option" where
  "list_pop_front h l = do {
     front \<leftarrow> list_front h l;
     (_, h) \<leftarrow> list_remove h front;
     Some (front, h) }"

definition list_pop_back :: "links \<Rightarrow> addr \<Rightarrow> (addr \<times> links) option" where
  "list_pop_back h l = do {
     back \<leftarrow> list_back h l;
     (_, h) \<leftarrow> list_remove h back;
     Some (back, h) }"

text \<open>
  The loops follow the links, so their end depends on the memory they run on: each is a
  \<^theory_text>\<open>partial_function\<close> whose \<^const>\<open>None\<close> is a panic or a run that never ends.
\<close>

partial_function (option) list_size_loop :: "links \<Rightarrow> addr \<Rightarrow> addr \<Rightarrow> size_t \<Rightarrow> size_t option" where
  "list_size_loop h e stop cnt =
     (if e \<noteq> stop
      then do { e' \<leftarrow> list_next h e; list_size_loop h e' stop (wrap32 (cnt + 1)) }
      else Some cnt)"

definition list_size :: "links \<Rightarrow> addr \<Rightarrow> size_t option" where
  "list_size h l = do { b \<leftarrow> list_begin h l; e \<leftarrow> list_end l; list_size_loop h b e 0 }"

definition swap_links :: "links \<Rightarrow> addr \<Rightarrow> links option" where
  "swap_links h e = do { h' \<leftarrow> set_prev h e (le_next h e); set_next h' e (le_prev h e) }"

partial_function (option) list_reverse_loop :: "links \<Rightarrow> addr \<Rightarrow> addr \<Rightarrow> links option" where
  "list_reverse_loop h e stop =
     (if e \<noteq> stop
      then do { h \<leftarrow> swap_links h e; list_reverse_loop h (le_prev h e) stop }
      else Some h)"

definition list_reverse :: "links \<Rightarrow> addr \<Rightarrow> links option" where
  "list_reverse h l = do {
     em \<leftarrow> list_empty h l;
     if \<not> em
     then do {
       b \<leftarrow> list_begin h l;
       e \<leftarrow> list_end l;
       h \<leftarrow> list_reverse_loop h b e;
       let t = le_next h l;
       h1 \<leftarrow> set_next h l (le_prev h (tail_of l));
       h2 \<leftarrow> set_prev h1 (tail_of l) t;
       let p = le_prev h2 (le_next h2 l);
       h3 \<leftarrow> set_prev h2 (le_next h2 l) (le_next h2 (le_prev h2 (tail_of l)));
       set_next h3 (le_prev h3 (tail_of l)) p }
     else Some h }"

partial_function (option) is_sorted_loop ::
  "links \<Rightarrow> addr \<Rightarrow> addr \<Rightarrow> (addr \<Rightarrow> addr \<Rightarrow> bool) \<Rightarrow> bool option" where
  "is_sorted_loop h a b lt = do {
     a \<leftarrow> list_next h a;
     if a \<noteq> b
     then do { p \<leftarrow> list_prev h a; if lt a p then Some False else is_sorted_loop h a b lt }
     else Some True }"

definition is_sorted :: "links \<Rightarrow> addr \<Rightarrow> addr \<Rightarrow> (addr \<Rightarrow> addr \<Rightarrow> bool) \<Rightarrow> bool option" where
  "is_sorted h a b lt = (if a \<noteq> b then is_sorted_loop h a b lt else Some True)"

partial_function (option) find_end_loop ::
  "links \<Rightarrow> addr \<Rightarrow> addr \<Rightarrow> (addr \<Rightarrow> addr \<Rightarrow> bool) \<Rightarrow> addr option" where
  "find_end_loop h a b lt = do {
     a \<leftarrow> list_next h a;
     if a \<noteq> b
     then do { p \<leftarrow> list_prev h a; if \<not> lt a p then find_end_loop h a b lt else Some a }
     else Some a }"

definition find_end_of_run :: "links \<Rightarrow> addr \<Rightarrow> addr \<Rightarrow> (addr \<Rightarrow> addr \<Rightarrow> bool) \<Rightarrow> addr option" where
  "find_end_of_run h a b lt = do {
     ASSERT (a \<noteq> NULL);
     ASSERT (b \<noteq> NULL);
     ASSERT (a \<noteq> b);
     find_end_loop h a b lt }"

partial_function (option) merge_loop ::
  "links \<Rightarrow> addr \<Rightarrow> addr \<Rightarrow> addr \<Rightarrow> (addr \<Rightarrow> addr \<Rightarrow> bool) \<Rightarrow> links option" where
  "merge_loop h a0 a1b0 b1 lt =
     (if a0 \<noteq> a1b0 \<and> a1b0 \<noteq> b1
      then if \<not> lt a1b0 a0
        then do { a0 \<leftarrow> list_next h a0; merge_loop h a0 a1b0 b1 lt }
        else do {
          a1b0 \<leftarrow> list_next h a1b0;
          f \<leftarrow> list_prev h a1b0;
          h \<leftarrow> list_splice h a0 f a1b0;
          merge_loop h a0 a1b0 b1 lt }
      else Some h)"

definition inplace_merge ::
  "links \<Rightarrow> addr \<Rightarrow> addr \<Rightarrow> addr \<Rightarrow> (addr \<Rightarrow> addr \<Rightarrow> bool) \<Rightarrow> links option" where
  "inplace_merge h a0 a1b0 b1 lt = do {
     ASSERT (a0 \<noteq> NULL);
     ASSERT (a1b0 \<noteq> NULL);
     ASSERT (b1 \<noteq> NULL);
     s1 \<leftarrow> is_sorted h a0 a1b0 lt;
     ASSERT s1;
     s2 \<leftarrow> is_sorted h a1b0 b1 lt;
     ASSERT s2;
     merge_loop h a0 a1b0 b1 lt }"

partial_function (option) sort_pass ::
  "links \<Rightarrow> addr \<Rightarrow> addr \<Rightarrow> size_t \<Rightarrow> (addr \<Rightarrow> addr \<Rightarrow> bool) \<Rightarrow> (links \<times> size_t) option" where
  "sort_pass h a0 stop output_run_cnt lt =
     (if a0 \<noteq> stop
      then do {
        a1b0 \<leftarrow> find_end_of_run h a0 stop lt;
        if a1b0 = stop then Some (h, wrap32 (output_run_cnt + 1))
        else do {
          b1 \<leftarrow> find_end_of_run h a1b0 stop lt;
          h \<leftarrow> inplace_merge h a0 a1b0 b1 lt;
          sort_pass h b1 stop (wrap32 (output_run_cnt + 1)) lt } }
      else Some (h, output_run_cnt))"

partial_function (option) sort_loop ::
  "links \<Rightarrow> addr \<Rightarrow> (addr \<Rightarrow> addr \<Rightarrow> bool) \<Rightarrow> links option" where
  "sort_loop h l lt = do {
     b \<leftarrow> list_begin h l;
     e \<leftarrow> list_end l;
     r \<leftarrow> sort_pass h b e 0 lt;
     if snd r > 1 then sort_loop (fst r) l lt else Some (fst r) }"

definition list_sort :: "links \<Rightarrow> addr \<Rightarrow> (addr \<Rightarrow> addr \<Rightarrow> bool) \<Rightarrow> links option" where
  "list_sort h l lt = do {
     ASSERT (l \<noteq> NULL);
     h \<leftarrow> sort_loop h l lt;
     b \<leftarrow> list_begin h l;
     e \<leftarrow> list_end l;
     s \<leftarrow> is_sorted h b e lt;
     ASSERT s;
     Some h }"

partial_function (option) insert_pos ::
  "links \<Rightarrow> addr \<Rightarrow> addr \<Rightarrow> addr \<Rightarrow> (addr \<Rightarrow> addr \<Rightarrow> bool) \<Rightarrow> addr option" where
  "insert_pos h e stop elem lt =
     (if e \<noteq> stop
      then if lt elem e then Some e
        else do { e \<leftarrow> list_next h e; insert_pos h e stop elem lt }
      else Some e)"

definition list_insert_ordered ::
  "links \<Rightarrow> addr \<Rightarrow> addr \<Rightarrow> (addr \<Rightarrow> addr \<Rightarrow> bool) \<Rightarrow> links option" where
  "list_insert_ordered h l elem lt = do {
     ASSERT (l \<noteq> NULL);
     ASSERT (elem \<noteq> NULL);
     b \<leftarrow> list_begin h l;
     stop \<leftarrow> list_end l;
     e \<leftarrow> insert_pos h b stop elem lt;
     list_insert h e elem }"

partial_function (option) unique_loop ::
  "links \<Rightarrow> addr \<Rightarrow> addr \<Rightarrow> addr \<Rightarrow> (addr \<Rightarrow> addr \<Rightarrow> bool) \<Rightarrow> links option" where
  "unique_loop h elem stop duplicates lt = do {
     nxt \<leftarrow> list_next h elem;
     if nxt \<noteq> stop
     then if \<not> lt elem nxt \<and> \<not> lt nxt elem
       then do {
         r \<leftarrow> list_remove h nxt;
         h \<leftarrow> (if duplicates \<noteq> NULL then list_push_back (snd r) duplicates nxt else Some (snd r));
         unique_loop h elem stop duplicates lt }
       else unique_loop h nxt stop duplicates lt
     else Some h }"

definition list_unique ::
  "links \<Rightarrow> addr \<Rightarrow> addr \<Rightarrow> (addr \<Rightarrow> addr \<Rightarrow> bool) \<Rightarrow> links option" where
  "list_unique h l duplicates lt = do {
     ASSERT (l \<noteq> NULL);
     em \<leftarrow> list_empty h l;
     if em then Some h
     else do {
       b \<leftarrow> list_begin h l;
       stop \<leftarrow> list_end l;
       unique_loop h b stop duplicates lt } }"

partial_function (option) extremum_loop ::
  "links \<Rightarrow> addr \<Rightarrow> addr \<Rightarrow> addr \<Rightarrow> (addr \<Rightarrow> addr \<Rightarrow> bool) \<Rightarrow> addr option" where
  "extremum_loop h best e stop better =
     (if e \<noteq> stop
      then do {
        e' \<leftarrow> list_next h e;
        extremum_loop h (if better best e then e else best) e' stop better }
      else Some best)"

definition list_max :: "links \<Rightarrow> addr \<Rightarrow> (addr \<Rightarrow> addr \<Rightarrow> bool) \<Rightarrow> addr option" where
  "list_max h l lt = do {
     mx \<leftarrow> list_begin h l;
     stop \<leftarrow> list_end l;
     if mx \<noteq> stop
     then do { e \<leftarrow> list_next h mx; extremum_loop h mx e stop lt }
     else Some mx }"

definition list_min :: "links \<Rightarrow> addr \<Rightarrow> (addr \<Rightarrow> addr \<Rightarrow> bool) \<Rightarrow> addr option" where
  "list_min h l lt = do {
     mn \<leftarrow> list_begin h l;
     stop \<leftarrow> list_end l;
     if mn \<noteq> stop
     then do { e \<leftarrow> list_next h mn; extremum_loop h mn e stop (\<lambda>m e. lt e m) }
     else Some mn }"


subsection \<open>Well-formed lists in memory\<close>

fun seg :: "links \<Rightarrow> addr list \<Rightarrow> bool" where
  "seg h (x # y # zs) \<longleftrightarrow> le_next h x = y \<and> le_prev h y = x \<and> seg h (y # zs)"
| "seg h zs \<longleftrightarrow> True"

definition dcells :: "links \<Rightarrow> addr list \<Rightarrow> bool" where
  "dcells h cs \<longleftrightarrow> seg h cs \<and> distinct cs \<and> NULL \<notin> set cs \<and>
     le_prev h (hd cs) = NULL \<and> le_next h (last cs) = NULL"

definition list_cells :: "addr \<Rightarrow> addr list \<Rightarrow> addr list" where
  "list_cells l xs = l # xs @ [tail_of l]"

definition dlist :: "links \<Rightarrow> addr \<Rightarrow> addr list \<Rightarrow> bool" where
  "dlist h l xs \<longleftrightarrow> dcells h (list_cells l xs)"

definition same_outside :: "links \<Rightarrow> links \<Rightarrow> addr set \<Rightarrow> bool" where
  "same_outside h h' S \<longleftrightarrow>
     (\<forall>e. e \<notin> S \<longrightarrow> le_prev h' e = le_prev h e \<and> le_next h' e = le_next h e)"

lemma seg_append: "seg h (xs @ x # ys) \<longleftrightarrow> seg h (xs @ [x]) \<and> seg h (x # ys)"
proof (induction xs)
  case (Cons a xs)
  then show ?case by (cases xs) auto
qed simp

lemma seg_append2 [simp]:
  "seg h (xs @ x # y # ys) \<longleftrightarrow> seg h (xs @ [x]) \<and> seg h (x # y # ys)"
  by (rule seg_append)

lemma seg_cong:
  "(\<And>e. e \<in> set (butlast xs) \<Longrightarrow> le_next h' e = le_next h e) \<Longrightarrow>
   (\<And>e. e \<in> set (tl xs) \<Longrightarrow> le_prev h' e = le_prev h e) \<Longrightarrow> seg h' xs = seg h xs"
  by (induction xs rule: induct_list012) auto

lemma in_set_tlD: "e \<in> set (tl xs) \<Longrightarrow> e \<in> set xs"
  by (cases xs) auto

lemma seg_frame:
  assumes "seg h xs"
    and "\<And>e. e \<in> set (butlast xs) \<Longrightarrow> le_next h' e = le_next h e"
    and "\<And>e. e \<in> set (tl xs) \<Longrightarrow> le_prev h' e = le_prev h e"
  shows "seg h' xs"
  using assms seg_cong [of xs h' h] by blast

lemma dcells_link:
  assumes "dcells h (us @ a # b # vs)"
  shows "le_next h a = b" and "le_prev h b = a" and "a \<noteq> NULL" and "b \<noteq> NULL"
  using assms by (auto simp: dcells_def)

lemma dcells_interior:
  assumes "dcells h (us @ a # x # b # vs)"
  shows "is_interior h x"
proof -
  have "dcells h ((us @ [a]) @ x # b # vs)" using assms by simp
  with dcells_link [OF assms] dcells_link [OF this] show ?thesis by (simp add: is_interior_def)
qed

lemma dcells_tail:
  assumes "dcells h (us @ [a, x])"
  shows "is_tail h x"
proof -
  have "le_next h x = NULL" using assms by (simp add: dcells_def)
  moreover have "le_prev h x \<noteq> NULL" "x \<noteq> NULL" using dcells_link [OF assms] by auto
  ultimately show ?thesis by (simp add: is_tail_def)
qed

lemma dcells_interior_or_tail:
  assumes "dcells h (us @ a # x # vs)"
  shows "is_interior h x \<or> is_tail h x"
proof (cases vs)
  case Nil
  with assms show ?thesis by (simp add: dcells_tail)
next
  case (Cons b ws)
  with assms show ?thesis by (simp add: dcells_interior)
qed

lemma dcells_head_or_interior:
  assumes "dcells h (us @ x # b # vs)"
  shows "is_head h x \<or> is_interior h x"
proof (cases us rule: rev_cases)
  case Nil
  then show ?thesis using assms dcells_link [OF assms] by (simp add: is_head_def dcells_def)
next
  case (snoc us' a)
  then show ?thesis using assms dcells_interior [of h us' a x b vs] by simp
qed

lemma list_next_dcells: "dcells h (us @ x # b # vs) \<Longrightarrow> list_next h x = Some b"
  using dcells_head_or_interior [of h us x b vs] dcells_link(1) [of h us x b vs]
  by (simp add: list_next_def)

lemma list_prev_dcells: "dcells h (us @ a # x # vs) \<Longrightarrow> list_prev h x = Some a"
  using dcells_interior_or_tail [of h us a x vs] dcells_link(2) [of h us a x vs]
  by (simp add: list_prev_def)

lemma dcells_insert:
  assumes d: "dcells h (us @ p # b # vs)" and e: "e \<notin> set (us @ p # b # vs)" "e \<noteq> NULL"
  shows "\<exists>h'. list_insert h b e = Some h' \<and> dcells h' (us @ p # e # b # vs) \<and>
    same_outside h h' {p, e, b}"
proof -
  have ok: "is_interior h b \<or> is_tail h b" using d by (rule dcells_interior_or_tail)
  have link: "le_prev h b = p" "p \<noteq> NULL" "b \<noteq> NULL" using dcells_link [OF d] by simp_all
  let ?h = "h\<lparr>le_prev := (le_prev h)(e := p, b := e), le_next := (le_next h)(e := b, p := e)\<rparr>"
  have op: "list_insert h b e = Some ?h"
    using ok e link by (simp add: list_insert_def set_prev_def set_next_def)
  have parts: "seg h (us @ [p])" "seg h (b # vs)" and dist: "distinct (us @ p # b # vs)"
    using d by (auto simp: dcells_def)
  have "seg ?h (us @ [p])"
    by (rule seg_frame [OF parts(1)]) (use dist e in \<open>auto dest: in_set_tlD\<close>)
  moreover have "seg ?h (b # vs)"
    by (rule seg_frame [OF parts(2)])
      (use dist e in \<open>auto dest: in_set_butlastD split: if_splits\<close>)
  ultimately have "seg ?h (us @ p # e # b # vs)"
    using e d by (auto simp: dcells_def)
  then have "dcells ?h (us @ p # e # b # vs)"
    using d e by (cases us; cases vs rule: rev_cases) (auto simp: dcells_def hd_append)
  with op show ?thesis by (auto simp: same_outside_def)
qed

lemma dcells_remove:
  assumes d: "dcells h (us @ p # e # b # vs)"
  shows "\<exists>h'. list_remove h e = Some (b, h') \<and> dcells h' (us @ p # b # vs) \<and>
    same_outside h h' {p, b}"
proof -
  have ok: "is_interior h e" using d by (rule dcells_interior)
  have d': "dcells h ((us @ [p]) @ e # b # vs)" using d by simp
  have link: "le_prev h e = p" "p \<noteq> NULL" "le_next h e = b" "b \<noteq> NULL"
    using dcells_link [OF d] dcells_link [OF d'] by simp_all
  have ne: "e \<noteq> p" "e \<noteq> b" using d by (auto simp: dcells_def)
  let ?h = "h\<lparr>le_prev := (le_prev h)(b := p), le_next := (le_next h)(p := b)\<rparr>"
  have op: "list_remove h e = Some (b, ?h)"
    using ok ne link by (simp add: list_remove_def set_prev_def set_next_def)
  have parts: "seg h (us @ [p])" "seg h (b # vs)" and dist: "distinct (us @ p # b # vs)"
    using d by (auto simp: dcells_def)
  have "seg ?h (us @ [p])"
    by (rule seg_frame [OF parts(1)]) (use dist in \<open>auto dest: in_set_tlD\<close>)
  moreover have "seg ?h (b # vs)"
    by (rule seg_frame [OF parts(2)])
      (use dist in \<open>auto dest: in_set_butlastD split: if_splits\<close>)
  ultimately have "seg ?h (us @ p # b # vs)"
    using d by (auto simp: dcells_def)
  then have "dcells ?h (us @ p # b # vs)"
    using d by (cases us; cases vs rule: rev_cases) (auto simp: dcells_def hd_append)
  with op show ?thesis by (auto simp: same_outside_def)
qed

lemma seg_append_ne:
  "xs \<noteq> [] \<Longrightarrow> ys \<noteq> [] \<Longrightarrow>
   seg h (xs @ ys) \<longleftrightarrow> seg h xs \<and> seg h ys \<and> le_next h (last xs) = hd ys \<and> le_prev h (hd ys) = last xs"
  by (induction xs rule: induct_list012) (auto simp: neq_Nil_conv)

lemma last_notin_butlast: "distinct xs \<Longrightarrow> e \<in> set (butlast xs) \<Longrightarrow> e \<noteq> last xs"
  by (induction xs) (auto split: if_splits)

lemma hd_notin_tl: "distinct xs \<Longrightarrow> e \<in> set (tl xs) \<Longrightarrow> e \<noteq> hd xs"
  by (cases xs) auto

lemma dcells_interior_mem:
  assumes d: "dcells h (us @ p # xs @ b # vs)" and x: "x \<in> set xs"
  shows "is_interior h x"
proof -
  obtain ys zs where xs: "xs = ys @ x # zs" using x by (auto simp: in_set_conv_decomp)
  have "us @ p # ys \<noteq> []" "zs @ b # vs \<noteq> []" by simp_all
  then obtain us' a b' vs' where "us @ p # ys = us' @ [a]" "zs @ b # vs = b' # vs'"
    by (metis append_butlast_last_id list.exhaust)
  then have "us @ p # xs @ b # vs = us' @ a # x # b' # vs'"
    using xs by (metis append.assoc append_Cons append_Nil)
  with d show ?thesis by (metis dcells_interior)
qed

lemma dcells_splice:
  assumes d: "dcells h (us @ p # A @ S @ b # vs)" and ne: "A \<noteq> []" "S \<noteq> []"
  shows "\<exists>h'. list_splice h (hd A) (hd S) b = Some h' \<and> dcells h' (us @ p # S @ A @ b # vs) \<and>
    same_outside h h' (set (p # A @ S @ [b]))"
proof -
  define a q s t where "a = hd A" and "q = last A" and "s = hd S" and "t = last S"
  note defs = a_def q_def s_def t_def
  have dist: "distinct (us @ p # A @ S @ b # vs)" and nz: "NULL \<notin> set (us @ p # A @ S @ b # vs)"
    using d by (simp_all add: dcells_def)
  have "seg h ((us @ [p]) @ A @ S @ b # vs)" using d by (simp add: dcells_def)
  then have parts: "seg h (us @ [p])" "seg h A" "seg h S" "seg h (b # vs)"
    and link: "le_next h p = a" "le_prev h a = p" "le_next h q = s" "le_prev h s = q"
      "le_next h t = b" "le_prev h b = t"
    using ne by (simp_all add: seg_append_ne defs del: append_assoc append_Cons seg_append2)
  have mem: "a \<in> set A" "q \<in> set A" "s \<in> set S" "t \<in> set S" using ne by (simp_all add: defs)
  let ?h = "h\<lparr>le_prev := (le_prev h)(b := q, s := p, a := t),
    le_next := (le_next h)(q := b, t := a, p := s)\<rparr>"
  have neq: "p \<noteq> a" "p \<noteq> q" "p \<noteq> s" "p \<noteq> t" "p \<noteq> b" "a \<noteq> s" "a \<noteq> t" "a \<noteq> b" "q \<noteq> s" "q \<noteq> t"
    "q \<noteq> b" "s \<noteq> b" "t \<noteq> b" "p \<noteq> NULL" "a \<noteq> NULL" "q \<noteq> NULL" "s \<noteq> NULL" "t \<noteq> NULL" "b \<noteq> NULL"
    using dist nz mem by auto
  have "us @ p # A @ S @ b # vs = (us @ p # A @ butlast S) @ t # b # vs"
    using ne by (simp add: t_def)
  then have "list_prev h b = Some t" using d by (metis list_prev_dcells)
  moreover have "is_interior h x" if "x \<in> set (A @ S)" for x
    using d that by (auto intro: dcells_interior_mem [of h us p "A @ S" b vs])
  ultimately have int: "is_interior h a" "is_interior h s" "is_interior h t" "list_prev h b = Some t"
    using mem by auto
  have op: "list_splice h a s b = Some ?h"
    using int neq link
    by (simp add: list_splice_def set_prev_def set_next_def fun_upd_twist)
  have dA: "distinct A" "distinct S" using dist by simp_all
  have "seg ?h (us @ [p])"
    by (rule seg_frame [OF parts(1)]) (use dist mem in \<open>auto dest!: in_set_tlD\<close>)
  moreover have "seg ?h A"
    by (rule seg_frame [OF parts(2)])
      (use dist mem in \<open>auto dest: in_set_tlD in_set_butlastD last_notin_butlast [OF dA(1)]
         hd_notin_tl [OF dA(1)] simp: defs\<close>)
  moreover have "seg ?h S"
    by (rule seg_frame [OF parts(3)])
      (use dist mem in \<open>auto dest: in_set_tlD in_set_butlastD last_notin_butlast [OF dA(2)]
         hd_notin_tl [OF dA(2)] simp: defs\<close>)
  moreover have "seg ?h (b # vs)"
    by (rule seg_frame [OF parts(4)])
      (use dist mem in \<open>auto dest: in_set_butlastD split: if_splits\<close>)
  ultimately have "seg ?h ((us @ [p]) @ S @ A @ b # vs)"
    using ne neq by (simp add: seg_append_ne defs del: append_assoc append_Cons seg_append2)
  moreover have "le_prev ?h (hd (us @ p # S @ A @ b # vs)) = NULL"
    using d dist mem by (cases us) (auto simp: dcells_def)
  moreover have "le_next ?h (last (us @ p # S @ A @ b # vs)) = NULL"
    using d dist mem by (cases vs rule: rev_cases) (auto simp: dcells_def)
  ultimately have "dcells ?h (us @ p # S @ A @ b # vs)"
    using dist nz by (auto simp: dcells_def)
  moreover have "same_outside h ?h (set (p # A @ S @ [b]))"
    using mem by (auto simp: same_outside_def)
  ultimately show ?thesis using op unfolding a_def s_def by blast
qed

subsection \<open>Insertion and removal on lists\<close>

lemma same_outside_refl [simp]: "same_outside h h S"
  by (simp add: same_outside_def)

lemma same_outside_trans:
  "same_outside h h' S \<Longrightarrow> same_outside h' h'' S \<Longrightarrow> same_outside h h'' S"
  by (simp add: same_outside_def)

lemma same_outside_mono: "same_outside h h' S \<Longrightarrow> S \<subseteq> T \<Longrightarrow> same_outside h h' T"
  by (auto simp: same_outside_def)

lemma dcells_frame:
  assumes "dcells h cs" and "cs \<noteq> []" and "same_outside h h' S" and "S \<inter> set cs = {}"
  shows "dcells h' cs"
proof -
  have eq: "le_prev h' e = le_prev h e" "le_next h' e = le_next h e" if "e \<in> set cs" for e
    using assms(3,4) that by (auto simp: same_outside_def)
  then have "seg h' cs = seg h cs"
    by (intro seg_cong) (auto dest: in_set_tlD in_set_butlastD)
  with assms(1,2) eq show ?thesis by (simp add: dcells_def)
qed

text \<open>An operation on one list leaves every list with other elements as it is.\<close>

lemma dlist_frame:
  "dlist h m ys \<Longrightarrow> same_outside h h' S \<Longrightarrow> S \<inter> set (list_cells m ys) = {} \<Longrightarrow> dlist h' m ys"
  unfolding dlist_def by (rule dcells_frame) (auto simp: list_cells_def)

lemma dlist_cells: "dlist h l xs \<Longrightarrow> distinct (list_cells l xs) \<and> NULL \<notin> set (list_cells l xs)"
  by (simp add: dlist_def dcells_def)

lemma dlist_nonnull: "dlist h l xs \<Longrightarrow> l \<noteq> NULL"
  using dlist_cells [of h l xs] by (simp add: list_cells_def)

lemma list_init_dlist:
  "l \<noteq> NULL \<Longrightarrow> \<exists>h'. list_init h l = Some h' \<and> dlist h' l [] \<and> same_outside h h' {l, tail_of l}"
  by (simp add: list_init_def set_prev_def set_next_def tail_of_def dlist_def dcells_def
      list_cells_def same_outside_def)

lemma list_begin_dlist: "dlist h l xs \<Longrightarrow> list_begin h l = Some (hd (xs @ [tail_of l]))"
  using dcells_link(1) [of h "[]" l "hd (xs @ [tail_of l])" "tl (xs @ [tail_of l])"]
  by (cases xs) (simp_all add: list_begin_def dlist_nonnull, simp_all add: dlist_def list_cells_def)

lemma list_end_dlist: "dlist h l xs \<Longrightarrow> list_end l = Some (tail_of l)"
  by (simp add: list_end_def dlist_nonnull)

lemma list_rbegin_dlist: "dlist h l xs \<Longrightarrow> list_rbegin h l = Some (last (l # xs))"
  using dcells_link(2) [of h "butlast (l # xs)" "last (l # xs)" "tail_of l" "[]"]
  by (cases xs rule: rev_cases)
    (simp_all add: list_rbegin_def dlist_nonnull, simp_all add: dlist_def list_cells_def)

lemma list_next_dlist:
  "dlist h l (xs @ x # ys) \<Longrightarrow> list_next h x = Some (hd (ys @ [tail_of l]))"
  using list_next_dcells [of h "l # xs" x "hd (ys @ [tail_of l])" "tl (ys @ [tail_of l])"]
  by (cases ys) (auto simp: dlist_def list_cells_def)

lemma list_prev_dlist:
  "dlist h l (xs @ x # ys) \<Longrightarrow> list_prev h x = Some (last (l # xs))"
  using list_prev_dcells [of h "butlast (l # xs)" "last (l # xs)" x "ys @ [tail_of l]"]
  by (cases xs rule: rev_cases) (auto simp: dlist_def list_cells_def)

lemma list_insert_dlist:
  assumes d: "dlist h l (xs @ ys)" and e: "e \<notin> set (list_cells l (xs @ ys))" "e \<noteq> NULL"
  shows "\<exists>h'. list_insert h (hd (ys @ [tail_of l])) e = Some h' \<and> dlist h' l (xs @ e # ys) \<and>
    same_outside h h' (insert e (set (list_cells l (xs @ ys))))"
proof -
  obtain us p where us: "l # xs = us @ [p]" by (metis append_butlast_last_id list.discI)
  obtain b vs where vs: "ys @ [tail_of l] = b # vs" by (cases ys) auto
  have cells: "list_cells l (xs @ ys) = us @ p # b # vs"
    using us vs unfolding list_cells_def by (metis append.assoc append_Cons append_Nil)
  have cells': "list_cells l (xs @ e # ys) = us @ p # e # b # vs"
    using us vs unfolding list_cells_def by (metis append.assoc append_Cons append_Nil)
  obtain h' where "list_insert h b e = Some h'" "dcells h' (us @ p # e # b # vs)"
    "same_outside h h' {p, e, b}"
    using dcells_insert [of h us p b vs e] d e by (auto simp: dlist_def cells)
  then show ?thesis
    using vs by (auto simp: dlist_def cells cells' elim!: same_outside_mono)
qed

lemma list_remove_dlist:
  assumes d: "dlist h l (xs @ e # ys)"
  shows "\<exists>h'. list_remove h e = Some (hd (ys @ [tail_of l]), h') \<and> dlist h' l (xs @ ys) \<and>
    same_outside h h' (set (list_cells l (xs @ ys)))"
proof -
  obtain us p where us: "l # xs = us @ [p]" by (metis append_butlast_last_id list.discI)
  obtain b vs where vs: "ys @ [tail_of l] = b # vs" by (cases ys) auto
  have cells: "list_cells l (xs @ ys) = us @ p # b # vs"
    using us vs unfolding list_cells_def by (metis append.assoc append_Cons append_Nil)
  have cells': "list_cells l (xs @ e # ys) = us @ p # e # b # vs"
    using us vs unfolding list_cells_def by (metis append.assoc append_Cons append_Nil)
  obtain h' where "list_remove h e = Some (b, h')" "dcells h' (us @ p # b # vs)"
    "same_outside h h' {p, b}"
    using dcells_remove [of h us p e b vs] d by (auto simp: dlist_def cells')
  then show ?thesis
    using vs by (auto simp: dlist_def cells cells' elim!: same_outside_mono)
qed

lemma list_push_front_dlist:
  assumes "dlist h l xs" and "e \<notin> set (list_cells l xs)" and "e \<noteq> NULL"
  shows "\<exists>h'. list_push_front h l e = Some h' \<and> dlist h' l (e # xs) \<and>
    same_outside h h' (insert e (set (list_cells l xs)))"
  using list_insert_dlist [of h l "[]" xs e] assms
  by (simp add: list_push_front_def list_begin_dlist)

lemma list_push_back_dlist:
  assumes "dlist h l xs" and "e \<notin> set (list_cells l xs)" and "e \<noteq> NULL"
  shows "\<exists>h'. list_push_back h l e = Some h' \<and> dlist h' l (xs @ [e]) \<and>
    same_outside h h' (insert e (set (list_cells l xs)))"
  using list_insert_dlist [of h l xs "[]" e] assms
  by (simp add: list_push_back_def list_end_dlist [OF assms(1)])

lemma list_empty_dlist: "dlist h l xs \<Longrightarrow> list_empty h l = Some (xs = [])"
  using dlist_cells [of h l xs]
  by (cases xs) (auto simp: list_empty_def list_begin_dlist list_end_dlist list_cells_def)

lemma list_front_dlist: "dlist h l (x # xs) \<Longrightarrow> list_front h l = Some x"
  using list_begin_dlist [of h l "x # xs"]
  by (simp add: list_front_def list_empty_dlist list_begin_def panic_simps split: if_splits)

lemma list_back_dlist: "dlist h l (xs @ [x]) \<Longrightarrow> list_back h l = Some x"
  using list_rbegin_dlist [of h l "xs @ [x]"]
  by (simp add: list_back_def list_empty_dlist list_rbegin_def panic_simps split: if_splits)

lemma list_pop_front_dlist:
  assumes "dlist h l (x # xs)"
  shows "\<exists>h'. list_pop_front h l = Some (x, h') \<and> dlist h' l xs \<and>
    same_outside h h' (set (list_cells l xs))"
  using list_remove_dlist [of h l "[]" x xs] assms
  by (auto simp: list_pop_front_def list_front_dlist)

lemma list_pop_back_dlist:
  assumes "dlist h l (xs @ [x])"
  shows "\<exists>h'. list_pop_back h l = Some (x, h') \<and> dlist h' l xs \<and>
    same_outside h h' (set (list_cells l xs))"
  using list_remove_dlist [of h l xs x "[]"] assms
  by (auto simp: list_pop_back_def list_back_dlist)

lemma list_pop_empty: "dlist h l [] \<Longrightarrow> list_pop_front h l = None \<and> list_pop_back h l = None"
  by (simp add: list_pop_front_def list_pop_back_def list_front_def list_back_def list_empty_dlist)

subsection \<open>Walking along a list\<close>

lemma tail_notin: "dlist h l (us @ xs) \<Longrightarrow> x \<in> set xs \<Longrightarrow> x \<noteq> tail_of l"
  using dlist_cells [of h l "us @ xs"] by (auto simp: list_cells_def)

lemma list_size_loop_dlist:
  "dlist h l (us @ xs) \<Longrightarrow> cnt + length xs < 4294967296 \<Longrightarrow>
    list_size_loop h (hd (xs @ [tail_of l])) (tail_of l) cnt = Some (cnt + length xs)"
proof (induction xs arbitrary: us cnt)
  case (Cons x xs)
  then have "x \<noteq> tail_of l" "list_next h x = Some (hd (xs @ [tail_of l]))"
    using tail_notin [of h l us "x # xs" x] list_next_dlist [of h l us x xs] by simp_all
  with Cons.prems Cons.IH [of "us @ [x]" "Suc cnt"] show ?case
    by (subst list_size_loop.simps) simp
qed (simp add: list_size_loop.simps)

lemma list_size_dlist:
  "dlist h l xs \<Longrightarrow> length xs < 4294967296 \<Longrightarrow> list_size h l = Some (length xs)"
  using list_size_loop_dlist [of h l "[]" xs 0]
  by (simp add: list_size_def list_begin_dlist list_end_dlist)

lemma insert_pos_dlist:
  "dlist h l (us @ xs) \<Longrightarrow>
    insert_pos h (hd (xs @ [tail_of l])) (tail_of l) e lt =
      Some (hd (dropWhile (\<lambda>y. \<not> lt e y) xs @ [tail_of l]))"
proof (induction xs arbitrary: us)
  case (Cons x xs)
  then have "x \<noteq> tail_of l" "list_next h x = Some (hd (xs @ [tail_of l]))"
    using tail_notin [of h l us "x # xs" x] list_next_dlist [of h l us x xs] by simp_all
  with Cons.prems Cons.IH [of "us @ [x]"] show ?case
    by (subst insert_pos.simps) simp
qed (simp add: insert_pos.simps)

text \<open>\<open>ins_ord lt e xs\<close>: \<open>e\<close> goes just before the first element that it is less than.\<close>

definition ins_ord :: "('a \<Rightarrow> 'a \<Rightarrow> bool) \<Rightarrow> 'a \<Rightarrow> 'a list \<Rightarrow> 'a list" where
  "ins_ord lt e xs = takeWhile (\<lambda>y. \<not> lt e y) xs @ e # dropWhile (\<lambda>y. \<not> lt e y) xs"

lemma list_insert_ordered_dlist:
  assumes "dlist h l xs" and "e \<notin> set (list_cells l xs)" and "e \<noteq> NULL"
  shows "\<exists>h'. list_insert_ordered h l e lt = Some h' \<and> dlist h' l (ins_ord lt e xs) \<and>
    same_outside h h' (insert e (set (list_cells l xs)))"
proof -
  let ?p = "\<lambda>y. \<not> lt e y"
  have split: "takeWhile ?p xs @ dropWhile ?p xs = xs" by simp
  have "dlist h l (takeWhile ?p xs @ dropWhile ?p xs)" using assms(1) by simp
  from list_insert_dlist [OF this, of e] assms(2,3) split
  obtain h' where "list_insert h (hd (dropWhile ?p xs @ [tail_of l])) e = Some h'"
    "dlist h' l (ins_ord lt e xs)" "same_outside h h' (insert e (set (list_cells l xs)))"
    by (auto simp: ins_ord_def)
  then show ?thesis
    using assms insert_pos_dlist [of h l "[]" xs e lt]
    by (simp add: list_insert_ordered_def dlist_nonnull list_begin_dlist list_end_dlist [OF assms(1)])
qed

text \<open>\<open>best_of better m xs\<close>: the element that a scan keeping the first best one ends with.\<close>

definition best_of :: "('a \<Rightarrow> 'a \<Rightarrow> bool) \<Rightarrow> 'a \<Rightarrow> 'a list \<Rightarrow> 'a" where
  "best_of better m xs = fold (\<lambda>e m. if better m e then e else m) xs m"

lemma extremum_loop_dlist:
  "dlist h l (us @ xs) \<Longrightarrow>
    extremum_loop h m (hd (xs @ [tail_of l])) (tail_of l) better = Some (best_of better m xs)"
proof (induction xs arbitrary: us m)
  case (Cons x xs)
  then have "x \<noteq> tail_of l" "list_next h x = Some (hd (xs @ [tail_of l]))"
    using tail_notin [of h l us "x # xs" x] list_next_dlist [of h l us x xs] by simp_all
  with Cons.prems Cons.IH [of "us @ [x]"] show ?case
    by (subst extremum_loop.simps) (simp add: best_of_def)
qed (simp add: extremum_loop.simps best_of_def)

lemma list_max_dlist:
  assumes "dlist h l xs"
  shows "list_max h l lt =
    Some (case xs of [] \<Rightarrow> tail_of l | x # ys \<Rightarrow> best_of lt x ys)"
proof (cases xs)
  case (Cons x ys)
  with assms have "x \<noteq> tail_of l" "list_next h x = Some (hd (ys @ [tail_of l]))"
    using tail_notin [of h l "[]" xs x] list_next_dlist [of h l "[]" x ys] by simp_all
  with Cons assms extremum_loop_dlist [of h l "[x]" ys x lt] show ?thesis
    by (simp add: list_max_def list_begin_dlist list_end_dlist [OF assms])
qed (use assms in \<open>simp add: list_max_def list_begin_dlist list_end_dlist\<close>)

lemma list_min_dlist:
  assumes "dlist h l xs"
  shows "list_min h l lt =
    Some (case xs of [] \<Rightarrow> tail_of l | x # ys \<Rightarrow> best_of (\<lambda>m e. lt e m) x ys)"
proof (cases xs)
  case (Cons x ys)
  with assms have "x \<noteq> tail_of l" "list_next h x = Some (hd (ys @ [tail_of l]))"
    using tail_notin [of h l "[]" xs x] list_next_dlist [of h l "[]" x ys] by simp_all
  with Cons assms extremum_loop_dlist [of h l "[x]" ys x "\<lambda>m e. lt e m"] show ?thesis
    by (simp add: list_min_def list_begin_dlist list_end_dlist [OF assms])
qed (use assms in \<open>simp add: list_min_def list_begin_dlist list_end_dlist\<close>)

lemma best_of_mem: "best_of better m xs \<in> insert m (set xs)"
  unfolding best_of_def by (induction xs arbitrary: m) auto

lemma best_of_best:
  assumes wo: "\<And>x y z. better x z \<Longrightarrow> better x y \<or> better y z" and asym: "\<And>x y. better x y \<Longrightarrow> \<not> better y x"
  shows "y \<in> insert m (set xs) \<Longrightarrow> \<not> better (best_of better m xs) y"
proof (induction xs arbitrary: m y)
  case Nil
  with asym show ?case by (auto simp: best_of_def)
next
  case (Cons x xs)
  let ?m = "if better m x then x else m"
  have step: "best_of better m (x # xs) = best_of better ?m xs" by (simp add: best_of_def)
  have "\<not> better (best_of better ?m xs) ?m" using Cons.IH by blast
  moreover have "\<not> better ?m m" "\<not> better ?m x" using asym by auto
  ultimately have "\<not> better (best_of better ?m xs) m" "\<not> better (best_of better ?m xs) x"
    using wo by blast+
  with Cons step show ?case by auto
qed

subsection \<open>Reversing\<close>

definition swapped :: "links \<Rightarrow> addr set \<Rightarrow> links" where
  "swapped h S = h\<lparr>le_prev := (\<lambda>e. if e \<in> S then le_next h e else le_prev h e),
     le_next := (\<lambda>e. if e \<in> S then le_prev h e else le_next h e)\<rparr>"

lemma swapped_empty [simp]: "swapped h {} = h"
  by (simp add: swapped_def)

lemma swap_links_swapped:
  "x \<notin> S \<Longrightarrow> x \<noteq> NULL \<Longrightarrow> swap_links (swapped h S) x = Some (swapped h (insert x S))"
  by (auto simp: swap_links_def set_prev_def set_next_def swapped_def fun_eq_iff)

lemma list_reverse_loop_dlist:
  "dlist h l (us @ xs) \<Longrightarrow>
    list_reverse_loop (swapped h (set us)) (hd (xs @ [tail_of l])) (tail_of l) =
      Some (swapped h (set us \<union> set xs))"
proof (induction xs arbitrary: us)
  case (Cons x xs)
  then have x: "x \<noteq> tail_of l" "x \<notin> set us" "x \<noteq> NULL"
    using dlist_cells [OF Cons.prems] by (auto simp: list_cells_def)
  have "le_next h x = hd (xs @ [tail_of l])"
    using list_next_dlist [OF Cons.prems] by (simp add: list_next_def panic_simps split: if_splits)
  then have "le_prev (swapped h (insert x (set us))) x = hd (xs @ [tail_of l])"
    by (simp add: swapped_def)
  with x Cons.prems Cons.IH [of "us @ [x]"] show ?case
    by (subst list_reverse_loop.simps) (simp add: swap_links_swapped)
qed (simp add: list_reverse_loop.simps)

lemma seg_swapped: "seg h xs \<Longrightarrow> set xs \<subseteq> S \<Longrightarrow> seg (swapped h S) (rev xs)"
proof (induction xs rule: induct_list012)
  case (3 x y zs)
  then have "seg (swapped h S) (rev zs @ [y])" by simp
  moreover have "seg (swapped h S) [y, x]" using 3 by (simp add: swapped_def)
  ultimately show ?case using seg_append [of "swapped h S" "rev zs" y "[x]"] by simp
qed simp_all

lemma list_reverse_dlist:
  assumes d: "dlist h l xs"
  shows "\<exists>h'. list_reverse h l = Some h' \<and> dlist h' l (rev xs) \<and>
    same_outside h h' (set (list_cells l xs))"
proof (cases "xs = []")
  case True
  with d show ?thesis by (auto simp: list_reverse_def list_empty_dlist)
next
  case ne: False
  define x y t where "x = hd xs" and "y = last xs" and "t = tail_of l"
  have mem: "x \<in> set xs" "y \<in> set xs" using ne by (simp_all add: x_def y_def)
  have dist: "distinct (l # xs @ [t])" and nz: "NULL \<notin> set (l # xs @ [t])"
    using dlist_cells [OF d] unfolding list_cells_def t_def by blast+
  have "seg h ([l] @ xs @ [t])" using d by (simp add: dlist_def dcells_def list_cells_def t_def)
  then have inner: "seg h xs" and link: "le_next h l = x" "le_prev h x = l" "le_next h y = t" "le_prev h t = y"
    using ne by (simp_all add: seg_append_ne x_def y_def del: append_Cons)
  let ?s = "swapped h (set xs)"
  let ?h = "?s\<lparr>le_prev := (le_prev ?s)(t := x, y := l), le_next := (le_next ?s)(l := y, x := t)\<rparr>"
  have "list_reverse_loop h (hd (xs @ [tail_of l])) (tail_of l) = Some ?s"
    using list_reverse_loop_dlist [of h l "[]" xs] d by simp
  moreover have s: "le_next ?s l = x" "le_prev ?s t = y" "le_prev ?s y = t" "le_next ?s x = l"
    using link mem dist by (auto simp: swapped_def)
  moreover have neq: "l \<noteq> t" "l \<noteq> x" "l \<noteq> y" "t \<noteq> x" "t \<noteq> y" "l \<noteq> NULL" "t \<noteq> NULL" "x \<noteq> NULL" "y \<noteq> NULL"
    using mem dist nz by (auto intro!: gr0I)
  ultimately have op: "list_reverse h l = Some ?h"
    using ne d
    by (simp add: list_reverse_def list_empty_dlist list_begin_dlist list_end_dlist [OF d]
        set_prev_def set_next_def flip: t_def)
  have "seg ?s (rev xs)" using inner by (rule seg_swapped) simp
  then have "seg ?h (rev xs)"
  proof (rule seg_frame)
    have r: "distinct (rev xs)" "hd (rev xs) = y" "last (rev xs) = x"
      using dist by (simp_all add: x_def y_def hd_rev last_rev)
    show "le_next ?h e = le_next ?s e" if "e \<in> set (butlast (rev xs))" for e
      using that last_notin_butlast [OF r(1) that] in_set_butlastD [OF that] dist r by auto
    show "le_prev ?h e = le_prev ?s e" if "e \<in> set (tl (rev xs))" for e
      using that hd_notin_tl [OF r(1) that] in_set_tlD [OF that] dist r by auto
  qed
  moreover have "hd (rev xs) = y" "last (rev xs) = x" by (simp_all add: x_def y_def hd_rev last_rev)
  ultimately have "seg ?h ([l] @ rev xs @ [t])"
    using ne neq by (simp add: seg_append_ne del: append_Cons)
  moreover have "le_prev ?h l = NULL" "le_next ?h t = NULL"
    using d dist mem by (auto simp: dlist_def dcells_def list_cells_def t_def swapped_def)
  ultimately have "dlist ?h l (rev xs)"
    using dist nz by (simp add: dlist_def dcells_def list_cells_def t_def)
  moreover have "same_outside h ?h (set (list_cells l xs))"
    using mem by (auto simp: same_outside_def list_cells_def t_def swapped_def)
  ultimately show ?thesis using op by blast
qed

subsection \<open>The merge sort\<close>

text \<open>
  The reference for \<^verbatim>\<open>list_sort\<close> on lists: \<open>take_run\<close> and \<open>drop_run\<close> split off the first run of
  elements that do not decrease, \<open>merge_runs\<close> merges two runs and keeps the order of equal
  elements, \<open>merge_pass\<close> merges neighbouring runs pairwise and counts the runs it leaves.
\<close>

fun take_run :: "('a \<Rightarrow> 'a \<Rightarrow> bool) \<Rightarrow> 'a list \<Rightarrow> 'a list" where
  "take_run lt (x # y # zs) = (if lt y x then [x] else x # take_run lt (y # zs))"
| "take_run lt xs = xs"

fun drop_run :: "('a \<Rightarrow> 'a \<Rightarrow> bool) \<Rightarrow> 'a list \<Rightarrow> 'a list" where
  "drop_run lt (x # y # zs) = (if lt y x then y # zs else drop_run lt (y # zs))"
| "drop_run lt xs = []"

fun adj_sorted :: "('a \<Rightarrow> 'a \<Rightarrow> bool) \<Rightarrow> 'a list \<Rightarrow> bool" where
  "adj_sorted lt (x # y # zs) \<longleftrightarrow> \<not> lt y x \<and> adj_sorted lt (y # zs)"
| "adj_sorted lt xs \<longleftrightarrow> True"

fun merge_runs :: "('a \<Rightarrow> 'a \<Rightarrow> bool) \<Rightarrow> 'a list \<Rightarrow> 'a list \<Rightarrow> 'a list" where
  "merge_runs lt (a # as) (b # bs) =
     (if \<not> lt b a then a # merge_runs lt as (b # bs) else b # merge_runs lt (a # as) bs)"
| "merge_runs lt [] bs = bs"
| "merge_runs lt as [] = as"

lemma take_drop_run: "take_run lt xs @ drop_run lt xs = xs"
  by (induction lt xs rule: take_run.induct) auto

lemma length_drop_run: "xs \<noteq> [] \<Longrightarrow> length (drop_run lt xs) < length xs"
  by (induction lt xs rule: drop_run.induct) auto

function merge_pass :: "('a \<Rightarrow> 'a \<Rightarrow> bool) \<Rightarrow> 'a list \<Rightarrow> 'a list \<times> nat" where
  "merge_pass lt xs =
     (if xs = [] then ([], 0)
      else let rest = drop_run lt xs in
        if rest = [] then (xs, 1)
        else let (ys, n) = merge_pass lt (drop_run lt rest)
          in (merge_runs lt (take_run lt xs) (take_run lt rest) @ ys, n + 1))"
  by pat_completeness auto
termination
proof (relation "measure (\<lambda>(lt, xs). length xs)")
  fix lt :: "'a \<Rightarrow> 'a \<Rightarrow> bool" and xs rest
  assume "xs \<noteq> []" and "rest = drop_run lt xs" and "rest \<noteq> []"
  then have "length (drop_run lt rest) < length rest" "length rest < length xs"
    by (auto intro: length_drop_run)
  then show "((lt, drop_run lt rest), lt, xs) \<in> measure (\<lambda>(lt, xs). length xs)" by simp
qed simp

declare merge_pass.simps [simp del]

lemma take_run_Nil_iff [simp]: "take_run lt xs = [] \<longleftrightarrow> xs = []"
  by (cases "(lt, xs)" rule: take_run.cases) auto

lemma adj_sorted_Cons: "adj_sorted lt (x # zs) \<longleftrightarrow> (zs = [] \<or> \<not> lt (hd zs) x) \<and> adj_sorted lt zs"
  by (cases zs) auto

lemma adj_sorted_take_run: "adj_sorted lt (take_run lt xs)"
proof (induction lt xs rule: take_run.induct)
  case (1 lt x y zs)
  moreover have "hd (take_run lt (y # zs)) = y" by (cases zs) auto
  ultimately show ?case by (simp add: adj_sorted_Cons)
qed auto

lemma mset_merge_runs: "mset (merge_runs lt as bs) = mset as + mset bs"
  by (induction lt as bs rule: merge_runs.induct) auto

lemma hd_merge_runs:
  "merge_runs lt as bs \<noteq> [] \<Longrightarrow>
    as \<noteq> [] \<and> hd (merge_runs lt as bs) = hd as \<or> bs \<noteq> [] \<and> hd (merge_runs lt as bs) = hd bs"
  by (induction lt as bs rule: merge_runs.induct) auto

lemma adj_sorted_merge_runs:
  assumes asym: "\<And>x y. lt x y \<Longrightarrow> \<not> lt y x"
    and "adj_sorted lt as" and "adj_sorted lt bs"
  shows "adj_sorted lt (merge_runs lt as bs)"
  using assms
proof (induction lt as bs rule: merge_runs.induct)
  case (1 lt a as b bs)
  note sorted = "1.prems"(2,3) [unfolded adj_sorted_Cons [of lt]]
  show ?case
  proof (cases "lt b a")
    case True
    then have "\<not> lt a b" by (rule "1.prems"(1))
    moreover have "adj_sorted lt (merge_runs lt (a # as) bs)"
      using "1.IH"(2) True "1.prems"(1,2) sorted by blast
    ultimately show ?thesis
      using True sorted hd_merge_runs [of lt "a # as" bs] by (auto simp: adj_sorted_Cons)
  next
    case False
    moreover have "adj_sorted lt (merge_runs lt as (b # bs))"
      using "1.IH"(1) False "1.prems"(1,3) sorted by blast
    ultimately show ?thesis
      using sorted hd_merge_runs [of lt as "b # bs"] by (auto simp: adj_sorted_Cons)
  qed
qed auto


fun run_cnt :: "('a \<Rightarrow> 'a \<Rightarrow> bool) \<Rightarrow> 'a list \<Rightarrow> nat" where
  "run_cnt lt (x # y # zs) = (if lt y x then Suc (run_cnt lt (y # zs)) else run_cnt lt (y # zs))"
| "run_cnt lt [x] = 1"
| "run_cnt lt [] = 0"

lemma run_cnt_drop_run: "xs \<noteq> [] \<Longrightarrow> run_cnt lt xs = Suc (run_cnt lt (drop_run lt xs))"
  by (induction lt xs rule: run_cnt.induct) auto

lemma run_cnt_0 [simp]: "run_cnt lt xs = 0 \<longleftrightarrow> xs = []"
  by (induction lt xs rule: run_cnt.induct) auto

lemma run_cnt_le_1: "run_cnt lt xs \<le> 1 \<longleftrightarrow> adj_sorted lt xs"
  by (induction lt xs rule: run_cnt.induct) auto

lemma run_cnt_length: "run_cnt lt xs \<le> length xs"
  by (induction lt xs rule: run_cnt.induct) auto

lemma run_cnt_append: "run_cnt lt (xs @ ys) \<le> run_cnt lt xs + run_cnt lt ys"
proof (induction lt xs rule: run_cnt.induct)
  case (2 lt x)
  then show ?case by (cases ys) auto
qed auto

lemma merge_pass_count: "snd (merge_pass lt xs) = (run_cnt lt xs + 1) div 2"
proof (induction lt xs rule: merge_pass.induct)
  case (1 lt xs)
  show ?case
  proof (cases "xs = [] \<or> drop_run lt xs = []")
    case True
    then show ?thesis
      using run_cnt_drop_run [of xs lt] by (auto simp: merge_pass.simps [of lt xs])
  next
    case False
    then have "run_cnt lt xs = Suc (Suc (run_cnt lt (drop_run lt (drop_run lt xs))))"
      by (simp add: run_cnt_drop_run)
    with False 1 show ?thesis
      by (auto simp: merge_pass.simps [of lt xs] Let_def split: prod.splits)
  qed
qed

lemma merge_pass_runs:
  assumes "\<And>x y. lt x y \<Longrightarrow> \<not> lt y x"
  shows "run_cnt lt (fst (merge_pass lt xs)) \<le> snd (merge_pass lt xs)"
  using assms
proof (induction lt xs rule: merge_pass.induct)
  case (1 lt xs)
  show ?case
  proof (cases "xs = [] \<or> drop_run lt xs = []")
    case True
    then show ?thesis
      using run_cnt_drop_run [of xs lt] by (auto simp: merge_pass.simps [of lt xs])
  next
    case False
    let ?m = "merge_runs lt (take_run lt xs) (take_run lt (drop_run lt xs))"
    have "adj_sorted lt ?m"
      using "1.prems" by (intro adj_sorted_merge_runs) (auto simp: adj_sorted_take_run)
    then have "run_cnt lt ?m \<le> 1" by (simp only: run_cnt_le_1)
    moreover have "run_cnt lt (fst (merge_pass lt (drop_run lt (drop_run lt xs))))
        \<le> snd (merge_pass lt (drop_run lt (drop_run lt xs)))"
      using False 1 by auto
    ultimately show ?thesis
      using False run_cnt_append [of lt ?m "fst (merge_pass lt (drop_run lt (drop_run lt xs)))"]
      by (auto simp: merge_pass.simps [of lt xs] Let_def split: prod.splits)
  qed
qed

lemma mset_merge_pass: "mset (fst (merge_pass lt xs)) = mset xs"
proof (induction lt xs rule: merge_pass.induct)
  case (1 lt xs)
  have split: "mset (take_run lt ys) + mset (drop_run lt ys) = mset ys" for ys
    using arg_cong [OF take_drop_run, of mset] by simp
  show ?case
    using 1 split [of xs] split [of "drop_run lt xs"]
    by (auto simp: merge_pass.simps [of lt xs] Let_def mset_merge_runs add.assoc split: prod.splits)
qed

text \<open>The pointer loops compute these functions.\<close>

lemma find_end_loop_dcells:
  "dcells h (us @ x # ys @ b # vs) \<Longrightarrow>
    find_end_loop h x b lt = Some (hd (drop_run lt (x # ys) @ [b]))"
proof (induction ys arbitrary: us x)
  case Nil
  then have "list_next h x = Some b" by (intro list_next_dcells [of h us]) simp
  then show ?case by (simp add: find_end_loop.simps)
next
  case (Cons y ys)
  have d: "dcells h ((us @ [x]) @ y # ys @ b # vs)" using Cons.prems by simp
  have "list_next h x = Some y" "list_prev h y = Some x"
    using Cons.prems by (auto intro: list_next_dcells [of h us] list_prev_dcells [of h us])
  moreover have "y \<noteq> b" using Cons.prems by (auto simp: dcells_def)
  ultimately show ?case using Cons.IH [OF d] by (simp add: find_end_loop.simps [of h x])
qed

lemma is_sorted_loop_dcells:
  "dcells h (us @ x # ys @ b # vs) \<Longrightarrow> is_sorted_loop h x b lt = Some (adj_sorted lt (x # ys))"
proof (induction ys arbitrary: us x)
  case Nil
  then have "list_next h x = Some b" by (intro list_next_dcells [of h us]) simp
  then show ?case by (simp add: is_sorted_loop.simps)
next
  case (Cons y ys)
  have d: "dcells h ((us @ [x]) @ y # ys @ b # vs)" using Cons.prems by simp
  have "list_next h x = Some y" "list_prev h y = Some x"
    using Cons.prems by (auto intro: list_next_dcells [of h us] list_prev_dcells [of h us])
  moreover have "y \<noteq> b" using Cons.prems by (auto simp: dcells_def)
  ultimately show ?case using Cons.IH [OF d] by (simp add: is_sorted_loop.simps [of h x])
qed

lemma is_sorted_dcells:
  assumes "dcells h (us @ xs @ b # vs)"
  shows "is_sorted h (hd (xs @ [b])) b lt = Some (adj_sorted lt xs)"
proof (cases xs)
  case (Cons x ys)
  then have "x \<noteq> b" using assms by (auto simp: dcells_def)
  with Cons assms show ?thesis
    by (simp add: is_sorted_def is_sorted_loop_dcells)
qed (simp add: is_sorted_def)

lemma merge_loop_dcells:
  assumes "dcells h (us @ p # as @ bs @ b1 # vs)"
  shows "\<exists>h'. merge_loop h (hd (as @ bs @ [b1])) (hd (bs @ [b1])) b1 lt = Some h' \<and>
    dcells h' (us @ p # merge_runs lt as bs @ b1 # vs) \<and>
    same_outside h h' (set (p # as @ bs @ [b1]))"
  using assms
proof (induction lt as bs arbitrary: h us p rule: merge_runs.induct)
  case (1 lt a as b bs)
  let ?S = "set (p # (a # as) @ (b # bs) @ [b1])"
  have neq: "a \<noteq> b" "b \<noteq> b1" using "1.prems" by (auto simp: dcells_def)
  show ?case
  proof (cases "lt b a")
    case False
    have d: "dcells h ((us @ [p]) @ a # as @ (b # bs) @ b1 # vs)" using "1.prems" by simp
    have "list_next h a = Some (hd (as @ (b # bs) @ [b1]))"
      using d list_next_dcells [of h "us @ [p]" a "hd (as @ (b # bs) @ [b1])"
          "tl (as @ (b # bs) @ [b1]) @ vs"]
      by (cases as) auto
    moreover obtain h' where
      "merge_loop h (hd (as @ (b # bs) @ [b1])) (hd ((b # bs) @ [b1])) b1 lt = Some h'"
      "dcells h' ((us @ [p]) @ a # merge_runs lt as (b # bs) @ b1 # vs)"
      "same_outside h h' (set (a # as @ (b # bs) @ [b1]))"
      using "1.IH"(1) [OF False d] by blast
    moreover from this(3) have "same_outside h h' ?S" by (rule same_outside_mono) auto
    ultimately show ?thesis
      using False neq by (simp add: merge_loop.simps [of h a])
  next
    case True
    obtain c ws where c: "bs @ b1 # vs = c # ws" "hd (bs @ [b1]) = c" by (cases bs) auto
    have d: "dcells h (us @ p # (a # as) @ [b] @ c # ws)" using "1.prems" c by simp
    have "dcells h ((us @ p # a # as) @ b # c # ws)" using d by simp
    then have step: "list_next h b = Some c" "list_prev h c = Some b"
      by (rule list_next_dcells, rule list_prev_dcells)
    obtain h1 where h1: "list_splice h a b c = Some h1" "dcells h1 (us @ p # [b] @ (a # as) @ c # ws)"
      "same_outside h h1 (set (p # (a # as) @ [b] @ [c]))"
      using dcells_splice [OF d] by auto
    have d1: "dcells h1 ((us @ [p]) @ b # (a # as) @ bs @ b1 # vs)" using h1(2) c by simp
    obtain h2 where h2: "merge_loop h1 (hd ((a # as) @ bs @ [b1])) (hd (bs @ [b1])) b1 lt = Some h2"
      "dcells h2 ((us @ [p]) @ b # merge_runs lt (a # as) bs @ b1 # vs)"
      "same_outside h1 h2 (set (b # (a # as) @ bs @ [b1]))"
      using "1.IH"(2) [OF _ d1] True by blast
    have "c \<in> set (bs @ [b1])" using c(2) by (cases bs) auto
    then have "same_outside h h1 ?S" using h1(3) by (auto elim!: same_outside_mono)
    moreover have "same_outside h1 h2 ?S" using h2(3) by (rule same_outside_mono) auto
    ultimately have "same_outside h h2 ?S" by (rule same_outside_trans)
    with True neq step h1(1) h2(1,2) c(2) show ?thesis
      by (simp add: merge_loop.simps [of h a])
  qed
qed (auto simp: merge_loop.simps)

lemma hd_drop_run_neq_stop:
  assumes "dcells h (us @ p # xs @ stop # vs)" and "hd (drop_run lt xs @ [stop]) = stop"
  shows "drop_run lt xs = []"
proof (rule ccontr)
  assume ne: "drop_run lt xs \<noteq> []"
  then have "hd (drop_run lt xs @ [stop]) \<in> set (take_run lt xs @ drop_run lt xs)" by simp
  then have "hd (drop_run lt xs @ [stop]) \<in> set xs" by (simp only: take_drop_run)
  with assms show False by (auto simp: dcells_def)
qed

lemma find_end_of_run_dcells:
  assumes d: "dcells h (us @ p # xs @ stop # vs)" and ne: "xs \<noteq> []"
  shows "find_end_of_run h (hd xs) stop lt = Some (hd (drop_run lt xs @ [stop]))"
proof -
  obtain x ys where xs: "xs = x # ys" using ne by (cases xs) auto
  have d': "dcells h ((us @ [p]) @ x # ys @ stop # vs)" using d xs by simp
  have "x \<noteq> 0" "stop \<noteq> 0" "x \<noteq> stop" using d xs by (auto simp: dcells_def)
  with xs find_end_loop_dcells [OF d'] show ?thesis by (simp add: find_end_of_run_def)
qed

lemma inplace_merge_dcells:
  assumes d: "dcells h (us @ p # as @ bs @ b1 # vs)" and ne: "as \<noteq> []" "bs \<noteq> []"
    and s: "adj_sorted lt as" "adj_sorted lt bs"
  shows "\<exists>h'. inplace_merge h (hd as) (hd bs) b1 lt = Some h' \<and>
    dcells h' (us @ p # merge_runs lt as bs @ b1 # vs) \<and>
    same_outside h h' (set (p # as @ bs @ [b1]))"
proof -
  have nz: "hd as \<noteq> 0" "hd bs \<noteq> 0" "b1 \<noteq> 0"
    using d ne by (auto simp: dcells_def neq_Nil_conv)
  obtain b bs' where bs: "bs = b # bs'" using ne by (cases bs) auto
  have "dcells h ((us @ [p]) @ as @ b # bs' @ b1 # vs)" using d bs by simp
  from is_sorted_dcells [OF this, of lt] have s1: "is_sorted h (hd as) (hd bs) lt = Some True"
    using ne s bs by simp
  have "dcells h ((us @ p # as) @ bs @ b1 # vs)" using d by simp
  from is_sorted_dcells [OF this, of lt] have s2: "is_sorted h (hd bs) b1 lt = Some True"
    using ne s by simp
  from merge_loop_dcells [OF d, of lt] ne show ?thesis
    using nz s1 s2 by (simp add: inplace_merge_def)
qed

lemma set_runs: "set xs = set (take_run lt xs) \<union> set (drop_run lt xs)"
  using arg_cong [OF take_drop_run, of set lt xs] by simp

lemma set_merge_runs: "set (merge_runs lt as bs) = set as \<union> set bs"
  using arg_cong [OF mset_merge_runs, of set_mset lt as bs] by simp

lemma sort_pass_step:
  fixes lt :: "addr \<Rightarrow> addr \<Rightarrow> bool"
  assumes d: "dcells h (us @ p # xs @ [stop])" and two: "xs \<noteq> []" "drop_run lt xs \<noteq> []"
  defines "R \<equiv> drop_run lt xs" and "M \<equiv> merge_runs lt (take_run lt xs) (take_run lt (drop_run lt xs))"
  shows "\<exists>h1 us1 q. sort_pass h (hd (xs @ [stop])) stop cnt lt =
      sort_pass h1 (hd (drop_run lt R @ [stop])) stop (wrap32 (cnt + 1)) lt \<and>
    us1 @ [q] = us @ p # M \<and> q \<in> set xs \<and> dcells h1 (us1 @ q # drop_run lt R @ [stop]) \<and>
    same_outside h h1 (set (p # xs @ [stop]))"
proof -
  let ?A = "take_run lt xs" let ?B = "take_run lt R" let ?R2 = "drop_run lt R"
  have xs: "xs = ?A @ R" "R = ?B @ ?R2" by (simp_all add: take_drop_run R_def)
  have A: "?A \<noteq> []" "?B \<noteq> []" "hd xs = hd ?A" "hd R = hd ?B"
    using two xs by (simp_all add: R_def, metis take_run_Nil_iff hd_append2, metis take_run_Nil_iff hd_append2)
  have ne: "hd xs \<noteq> stop" "hd R \<noteq> stop"
    using d two hd_drop_run_neq_stop [of h us p xs stop "[]" lt]
    by (auto simp: dcells_def neq_Nil_conv R_def)
  have e1: "find_end_of_run h (hd xs) stop lt = Some (hd R)"
    using find_end_of_run_dcells [of h us p xs stop "[]" lt] two d by (simp add: R_def)
  have "dcells h ((us @ p # butlast ?A) @ last ?A # R @ [stop])"
    using d xs(1) A(1) by (metis append.assoc append_Cons append_butlast_last_id append_Nil)
  then have e2: "find_end_of_run h (hd R) stop lt = Some (hd (?R2 @ [stop]))"
    using find_end_of_run_dcells [of h "us @ p # butlast ?A" "last ?A" R stop "[]" lt] two
    by (simp add: R_def)
  obtain b1 vs where b1: "?R2 @ [stop] = b1 # vs" by (cases ?R2) auto
  have "dcells h (us @ p # ?A @ ?B @ b1 # vs)" using d xs b1 by (metis append.assoc)
  then obtain h1 where h1: "inplace_merge h (hd ?A) (hd ?B) b1 lt = Some h1"
    "dcells h1 (us @ p # M @ b1 # vs)" "same_outside h h1 (set (p # ?A @ ?B @ [b1]))"
    using inplace_merge_dcells [OF _ A(1,2) adj_sorted_take_run adj_sorted_take_run]
    unfolding M_def R_def by blast
  have M: "M \<noteq> []" using mset_merge_runs [of lt ?A ?B] A(1) by (auto simp: M_def R_def)
  have d1: "dcells h1 ((us @ p # butlast M) @ last M # ?R2 @ [stop])"
    using h1(2) b1 M by (metis append.assoc append_Cons append_butlast_last_id append_Nil)
  have sets: "set xs = set ?A \<union> set ?B \<union> set ?R2" "set M = set ?A \<union> set ?B"
    using set_runs [of xs lt] set_runs [of R lt] by (auto simp: R_def M_def set_merge_runs)
  then have "last M \<in> set xs" using last_in_set [OF M] by auto
  moreover have "b1 \<in> set (?R2 @ [stop])" using b1 by (metis list.set_intros(1))
  then have "same_outside h h1 (set (p # xs @ [stop]))"
    using h1(3) sets(1) by (elim same_outside_mono) auto
  moreover have "sort_pass h (hd (xs @ [stop])) stop cnt lt =
      sort_pass h1 (hd (?R2 @ [stop])) stop (wrap32 (cnt + 1)) lt"
    using two ne e1 e2 h1(1) A b1 by (simp add: sort_pass.simps [of h])
  ultimately show ?thesis
    using d1 M by (intro exI [of _ h1] exI [of _ "us @ p # butlast M"] exI [of _ "last M"]) simp
qed

lemma sort_pass_dcells:
  assumes "dcells h (us @ p # xs @ [stop])" and "cnt + length xs < 4294967296"
  shows "\<exists>h'. sort_pass h (hd (xs @ [stop])) stop cnt lt = Some (h', cnt + snd (merge_pass lt xs)) \<and>
    dcells h' (us @ p # fst (merge_pass lt xs) @ [stop]) \<and> same_outside h h' (set (p # xs @ [stop]))"
  using assms
proof (induction lt xs arbitrary: h us p cnt rule: merge_pass.induct)
  case (1 lt xs)
  let ?R2 = "drop_run lt (drop_run lt xs)"
  let ?M = "merge_runs lt (take_run lt xs) (take_run lt (drop_run lt xs))"
  consider (empty) "xs = []" | (one) "xs \<noteq> []" "drop_run lt xs = []"
    | (two) "xs \<noteq> []" "drop_run lt xs \<noteq> []" by blast
  then show ?case
  proof cases
    case empty
    with "1.prems" show ?thesis by (simp add: sort_pass.simps merge_pass.simps [of lt])
  next
    case one
    then have "hd xs \<noteq> stop" using "1.prems"(1) by (auto simp: dcells_def neq_Nil_conv)
    moreover have "find_end_of_run h (hd xs) stop lt = Some stop"
      using find_end_of_run_dcells [of h us p xs stop "[]" lt] one "1.prems"(1) by simp
    ultimately show ?thesis
      using one "1.prems" by (cases xs) (auto simp: sort_pass.simps [of h] merge_pass.simps [of lt])
  next
    case two
    obtain h1 us1 q where h1: "sort_pass h (hd (xs @ [stop])) stop cnt lt =
        sort_pass h1 (hd (?R2 @ [stop])) stop (wrap32 (cnt + 1)) lt" "us1 @ [q] = us @ p # ?M"
      "q \<in> set xs" "dcells h1 (us1 @ q # ?R2 @ [stop])" "same_outside h h1 (set (p # xs @ [stop]))"
      using sort_pass_step [OF "1.prems"(1) two, of cnt] by blast
    have "length ?R2 < length (drop_run lt xs)" "length (drop_run lt xs) < length xs"
      using two by (auto intro: length_drop_run)
    then have c: "cnt + 1 + length ?R2 < 4294967296" "wrap32 (cnt + 1) = cnt + 1"
      using "1.prems"(2) by auto
    obtain h2 where h2: "sort_pass h1 (hd (?R2 @ [stop])) stop (cnt + 1) lt =
        Some (h2, cnt + 1 + snd (merge_pass lt ?R2))"
      "dcells h2 (us1 @ q # fst (merge_pass lt ?R2) @ [stop])"
      "same_outside h1 h2 (set (q # ?R2 @ [stop]))"
      using "1.IH" [OF two(1) refl two(2) h1(4) c(1)] by blast
    have mp: "fst (merge_pass lt xs) = ?M @ fst (merge_pass lt ?R2)"
      "snd (merge_pass lt xs) = snd (merge_pass lt ?R2) + 1"
      using two by (simp_all add: merge_pass.simps [of lt xs] Let_def split: prod.splits)
    have "same_outside h1 h2 (set (p # xs @ [stop]))"
      using h2(3) h1(3) set_runs [of xs lt] set_runs [of "drop_run lt xs" lt]
      by (elim same_outside_mono) auto
    with h1(5) have "same_outside h h2 (set (p # xs @ [stop]))" by (rule same_outside_trans)
    moreover have "dcells h2 (us @ p # fst (merge_pass lt xs) @ [stop])"
      using h2(2) h1(2) mp(1) by (metis append.assoc append_Cons append_Nil)
    ultimately show ?thesis using h1(1) h2(1) c(2) mp(2) by simp
  qed
qed

text \<open>
  \<^verbatim>\<open>list_sort\<close> ends: every pass but the last one at least halves the number of runs. Its last
  \<^verbatim>\<open>ASSERT\<close> holds when \<open>lt\<close> is asymmetric.
\<close>

lemma sort_loop_dlist:
  assumes "dlist h l xs" and "length xs < 4294967296" and asym: "\<And>x y. lt x y \<Longrightarrow> \<not> lt y x"
  shows "\<exists>h' ys. sort_loop h l lt = Some h' \<and> dlist h' l ys \<and> mset ys = mset xs \<and>
    adj_sorted lt ys \<and> same_outside h h' (set (list_cells l xs))"
  using assms(1,2)
proof (induction "run_cnt lt xs" arbitrary: h xs rule: less_induct)
  case less
  let ?ys = "fst (merge_pass lt xs)"
  have "dcells h ([] @ l # xs @ [tail_of l])" using less.prems(1) by (simp add: dlist_def list_cells_def)
  from sort_pass_dcells [OF this, of 0 lt] less.prems(2) obtain h1 where
    h1: "sort_pass h (hd (xs @ [tail_of l])) (tail_of l) 0 lt = Some (h1, snd (merge_pass lt xs))"
    "dlist h1 l ?ys" "same_outside h h1 (set (list_cells l xs))"
    by (auto simp: dlist_def list_cells_def)
  have m: "mset ?ys = mset xs" by (rule mset_merge_pass)
  then have len: "length ?ys = length xs" and "set ?ys = set xs"
    by (rule mset_eq_length, rule mset_eq_setD)
  then have cells: "set (list_cells l ?ys) = set (list_cells l xs)" by (simp add: list_cells_def)
  have step: "sort_loop h l lt =
      (if snd (merge_pass lt xs) > 1 then sort_loop h1 l lt else Some h1)"
    using h1(1) less.prems(1)
    by (subst sort_loop.simps) (simp add: list_begin_dlist list_end_dlist [OF less.prems(1)])
  have runs: "run_cnt lt ?ys \<le> snd (merge_pass lt xs)" using asym by (rule merge_pass_runs)
  show ?case
  proof (cases "snd (merge_pass lt xs) > 1")
    case True
    then have "run_cnt lt ?ys < run_cnt lt xs"
      using runs merge_pass_count [of lt xs] by linarith
    from less.hyps [OF this h1(2)] less.prems(2) len obtain h' ys where
      "sort_loop h1 l lt = Some h'" "dlist h' l ys" "mset ys = mset ?ys" "adj_sorted lt ys"
      "same_outside h1 h' (set (list_cells l ?ys))" by auto
    with True step m cells h1(3) show ?thesis by (auto intro: same_outside_trans)
  next
    case False
    then have "run_cnt lt ?ys \<le> 1" using runs by linarith
    with False step h1(2,3) m show ?thesis unfolding run_cnt_le_1 by auto
  qed
qed

lemma list_sort_dlist:
  assumes "dlist h l xs" and "length xs < 4294967296" and "\<And>x y. lt x y \<Longrightarrow> \<not> lt y x"
  shows "\<exists>h' ys. list_sort h l lt = Some h' \<and> dlist h' l ys \<and> mset ys = mset xs \<and>
    adj_sorted lt ys \<and> same_outside h h' (set (list_cells l xs))"
proof -
  obtain h' ys where h': "sort_loop h l lt = Some h'" "dlist h' l ys" "mset ys = mset xs"
    "adj_sorted lt ys" "same_outside h h' (set (list_cells l xs))"
    using sort_loop_dlist [where lt = lt, OF assms] by blast
  have "dcells h' ([l] @ ys @ tail_of l # [])" using h'(2) by (simp add: dlist_def list_cells_def)
  from is_sorted_dcells [OF this, of lt]
  have "is_sorted h' (hd (ys @ [tail_of l])) (tail_of l) lt = Some True" using h'(4) by simp
  then have "list_sort h l lt = Some h'"
    using h'(1,2) assms(1)
    by (simp add: list_sort_def dlist_nonnull list_begin_dlist list_end_dlist [OF h'(2)])
  with h' show ?thesis by blast
qed

lemma adj_sorted_sorted_wrt:
  assumes wo: "\<And>x y z. lt x z \<Longrightarrow> lt x y \<or> lt y z"
  shows "adj_sorted lt xs \<Longrightarrow> sorted_wrt (\<lambda>a b. \<not> lt b a) xs"
proof (induction xs rule: induct_list012)
  case (3 x y zs)
  then have "\<forall>b \<in> set (y # zs). \<not> lt b x" using wo by auto
  with 3 show ?case by simp
qed simp_all

subsection \<open>Removing duplicates\<close>

text \<open>\<open>uniq lt xs\<close> is \<open>xs\<close> without the repetitions of adjacent equal elements, and those repetitions.\<close>

fun uniq :: "('a \<Rightarrow> 'a \<Rightarrow> bool) \<Rightarrow> 'a list \<Rightarrow> 'a list \<times> 'a list" where
  "uniq lt (x # y # zs) =
     (if \<not> lt x y \<and> \<not> lt y x
      then let (us, ds) = uniq lt (x # zs) in (us, y # ds)
      else let (us, ds) = uniq lt (y # zs) in (x # us, ds))"
| "uniq lt xs = (xs, [])"

lemma mset_uniq: "mset (fst (uniq lt xs)) + mset (snd (uniq lt xs)) = mset xs"
  by (induction lt xs rule: uniq.induct) (auto simp: Let_def split: prod.splits)

lemma unique_loop_dlist:
  assumes "dlist h l (us @ xs)" and "xs \<noteq> []"
    and "dup \<noteq> 0 \<Longrightarrow> dlist h dup ds \<and> set (list_cells l (us @ xs)) \<inter> set (list_cells dup ds) = {}"
  shows "\<exists>h'. unique_loop h (hd xs) (tail_of l) dup lt = Some h' \<and> dlist h' l (us @ fst (uniq lt xs)) \<and>
    (dup \<noteq> 0 \<longrightarrow> dlist h' dup (ds @ snd (uniq lt xs)))"
  using assms
proof (induction lt xs arbitrary: h us ds rule: uniq.induct [case_names two nil one])
  case (two lt x y zs)
  have next_x: "list_next h x = Some y" using list_next_dlist [of h l us x "y # zs"] two by simp
  have y: "y \<noteq> tail_of l" using tail_notin [of h l us "x # y # zs" y] two by simp
  show ?case
  proof (cases "\<not> lt x y \<and> \<not> lt y x")
    case True
    have "dlist h l ((us @ [x]) @ y # zs)" using two.prems(1) by simp
    from list_remove_dlist [OF this] obtain n h1 where
      h1: "list_remove h y = Some (n, h1)" "dlist h1 l (us @ x # zs)"
      "same_outside h h1 (set (list_cells l (us @ x # zs)))" by auto
    define h2 where "h2 = (if dup \<noteq> 0 then the (list_push_back h1 dup y) else h1)"
    have h2: "(if dup \<noteq> 0 then list_push_back h1 dup y else Some h1) = Some h2 \<and>
        dlist h2 l (us @ x # zs) \<and> (dup \<noteq> 0 \<longrightarrow> dlist h2 dup (ds @ [y]) \<and>
          set (list_cells l (us @ x # zs)) \<inter> set (list_cells dup (ds @ [y])) = {})"
    proof (cases "dup = 0")
      case False
      have dup: "dlist h dup ds" "set (list_cells l (us @ x # y # zs)) \<inter> set (list_cells dup ds) = {}"
        using two.prems(3) [OF False] by simp_all
      have sub: "set (list_cells l (us @ x # zs)) \<inter> set (list_cells dup ds) = {}"
        and yl: "y \<notin> set (list_cells l (us @ x # zs))" "y \<notin> set (list_cells dup ds)" "y \<noteq> 0"
        using dup(2) dlist_cells [OF two.prems(1)] by (auto simp: list_cells_def)
      have "dlist h1 dup ds" using dup(1) h1(3) sub by (rule dlist_frame)
      from list_push_back_dlist [OF this yl(2,3)] obtain h3 where
        h3: "list_push_back h1 dup y = Some h3" "dlist h3 dup (ds @ [y])"
        "same_outside h1 h3 (insert y (set (list_cells dup ds)))" by blast
      have "dlist h3 l (us @ x # zs)" using h1(2) h3(3) by (rule dlist_frame) (use sub yl in auto)
      with h3 False sub yl show ?thesis by (auto simp: h2_def list_cells_def)
    qed (use h1 in \<open>simp add: h2_def\<close>)
    from two.IH(1) [OF True, of h2 us "ds @ [y]"] h2 obtain h' where
      "unique_loop h2 x (tail_of l) dup lt = Some h'" "dlist h' l (us @ fst (uniq lt (x # zs)))"
      "dup \<noteq> 0 \<longrightarrow> dlist h' dup (ds @ y # snd (uniq lt (x # zs)))" by auto
    with True next_x y h1(1) h2 show ?thesis
      by (auto simp: unique_loop.simps [of h x] Let_def split: prod.splits)
  next
    case False
    from two.IH(2) [OF False, of h "us @ [x]" ds] two.prems obtain h' where
      "unique_loop h y (tail_of l) dup lt = Some h'" "dlist h' l (us @ x # fst (uniq lt (y # zs)))"
      "dup \<noteq> 0 \<longrightarrow> dlist h' dup (ds @ snd (uniq lt (y # zs)))" by auto
    with False next_x y show ?thesis
      by (auto simp: unique_loop.simps [of h x] Let_def split: prod.splits)
  qed
next
  case (one lt x)
  have "list_next h x = Some (tail_of l)" using list_next_dlist [of h l us x "[]"] one by simp
  with one show ?case by (simp add: unique_loop.simps)
qed simp

lemma list_unique_dlist:
  assumes "dlist h l xs"
    and "dup \<noteq> 0 \<Longrightarrow> dlist h dup ds \<and> set (list_cells l xs) \<inter> set (list_cells dup ds) = {}"
  shows "\<exists>h'. list_unique h l dup lt = Some h' \<and> dlist h' l (fst (uniq lt xs)) \<and>
    (dup \<noteq> 0 \<longrightarrow> dlist h' dup (ds @ snd (uniq lt xs)))"
proof (cases "xs = []")
  case True
  with assms show ?thesis by (simp add: list_unique_def dlist_nonnull list_empty_dlist)
next
  case False
  with assms unique_loop_dlist [of h l "[]" xs dup ds lt] show ?thesis
    by (simp add: list_unique_def dlist_nonnull list_empty_dlist list_begin_dlist
        list_end_dlist [OF assms(1)])
qed

subsection \<open>Lists as queues\<close>

text \<open>
  What the kernel's wait queues rely on: a state that holds a sequence, to which elements are added
  at the back or at the front, and from which the front is taken. \<open>fresh xs e\<close> says that \<open>e\<close> may be
  added to the sequence \<open>xs\<close>.
\<close>

primrec pops :: "('s \<Rightarrow> ('e \<times> 's) option) \<Rightarrow> nat \<Rightarrow> 's \<Rightarrow> ('e list \<times> 's) option" where
  "pops pop 0 s = Some ([], s)"
| "pops pop (Suc n) s = do { (x, s) \<leftarrow> pop s; (xs, s) \<leftarrow> pops pop n s; Some (x # xs, s) }"

primrec all_fresh :: "('e list \<Rightarrow> 'e \<Rightarrow> bool) \<Rightarrow> 'e list \<Rightarrow> 'e list \<Rightarrow> bool" where
  "all_fresh fresh xs [] \<longleftrightarrow> True"
| "all_fresh fresh xs (e # es) \<longleftrightarrow> fresh xs e \<and> all_fresh fresh (xs @ [e]) es"

locale elem_queue =
  fixes holds :: "'s \<Rightarrow> 'e list \<Rightarrow> bool" and fresh :: "'e list \<Rightarrow> 'e \<Rightarrow> bool"
    and push :: "'s \<Rightarrow> 'e \<Rightarrow> 's option" and push_head :: "'s \<Rightarrow> 'e \<Rightarrow> 's option"
    and pop :: "'s \<Rightarrow> ('e \<times> 's) option"
  assumes push_law: "holds s xs \<Longrightarrow> fresh xs e \<Longrightarrow> \<exists>s'. push s e = Some s' \<and> holds s' (xs @ [e])"
    and push_head_law: "holds s xs \<Longrightarrow> fresh xs e \<Longrightarrow> \<exists>s'. push_head s e = Some s' \<and> holds s' (e # xs)"
    and pop_law: "holds s (x # xs) \<Longrightarrow> \<exists>s'. pop s = Some (x, s') \<and> holds s' xs"
    and fresh_set: "set xs = set ys \<Longrightarrow> fresh xs e \<longleftrightarrow> fresh ys e"
begin

lemma all_fresh_set: "set xs = set ys \<Longrightarrow> all_fresh fresh xs es \<longleftrightarrow> all_fresh fresh ys es"
proof (induction es arbitrary: xs ys)
  case (Cons e es)
  have "set (xs @ [e]) = set (ys @ [e])" using Cons.prems by simp
  then have "all_fresh fresh (xs @ [e]) es \<longleftrightarrow> all_fresh fresh (ys @ [e]) es" by (rule Cons.IH)
  with fresh_set [OF Cons.prems] show ?case by simp
qed simp

lemma push_all:
  "holds s xs \<Longrightarrow> all_fresh fresh xs es \<Longrightarrow> \<exists>s'. foldM (\<lambda>e s. push s e) es s = Some s' \<and> holds s' (xs @ es)"
proof (induction es arbitrary: s xs)
  case (Cons e es)
  then obtain s1 where "push s e = Some s1" "holds s1 (xs @ [e])" using push_law [of s xs e] by auto
  with Cons show ?case by force
qed simp

lemma push_head_all:
  "holds s xs \<Longrightarrow> all_fresh fresh xs es \<Longrightarrow> \<exists>s'. foldM (\<lambda>e s. push_head s e) es s = Some s' \<and> holds s' (rev es @ xs)"
proof (induction es arbitrary: s xs)
  case (Cons e es)
  then obtain s1 where "push_head s e = Some s1" "holds s1 (e # xs)" using push_head_law [of s xs e] by auto
  moreover have "all_fresh fresh (e # xs) es" using Cons.prems(2) all_fresh_set [of "e # xs" "xs @ [e]"] by simp
  ultimately show ?case using Cons.IH [of s1 "e # xs"] by auto
qed simp

lemma pops_all: "holds s (xs @ ys) \<Longrightarrow> \<exists>s'. pops pop (length xs) s = Some (xs, s') \<and> holds s' ys"
proof (induction xs arbitrary: s)
  case (Cons x xs)
  then obtain s1 where "pop s = Some (x, s1)" "holds s1 (xs @ ys)" using pop_law [of s x "xs @ ys"] by auto
  with Cons.IH [of s1] show ?case by auto
qed simp

lemma fifo:
  assumes "holds s []" and "all_fresh fresh [] es"
  shows "\<exists>s1 s2. foldM (\<lambda>e s. push s e) es s = Some s1 \<and> pops pop (length es) s1 = Some (es, s2) \<and> holds s2 []"
  using push_all [OF assms] pops_all [of _ es "[]"] by fastforce

lemma lifo:
  assumes "holds s []" and "all_fresh fresh [] es"
  shows "\<exists>s1 s2. foldM (\<lambda>e s. push_head s e) es s = Some s1 \<and> pops pop (length es) s1 = Some (rev es, s2) \<and> holds s2 []"
  using push_head_all [OF assms] pops_all [of _ "rev es" "[]"] by fastforce

end

interpretation klists: elem_queue "\<lambda>h. dlist h l" "\<lambda>xs e. e \<notin> set (list_cells l xs) \<and> e \<noteq> NULL"
    "\<lambda>h. list_push_back h l" "\<lambda>h. list_push_front h l" "\<lambda>h. list_pop_front h l" for l
proof unfold_locales
  show "e \<notin> set (list_cells l xs) \<and> e \<noteq> NULL \<longleftrightarrow> e \<notin> set (list_cells l ys) \<and> e \<noteq> NULL"
    if "set xs = set ys" for xs ys e using that by (simp add: list_cells_def)
qed (use list_push_back_dlist list_push_front_dlist list_pop_front_dlist in blast)+

subsection \<open>Properties\<close>

text \<open>
  A list at address 100 with the elements 48, 16 and 32, and an element 64 outside of it.
\<close>

definition demo_links :: links where
  "demo_links = \<lparr>le_prev = (\<lambda>_. 0)(48 := 100, 16 := 48, 32 := 16, 108 := 32),
     le_next = (\<lambda>_. 0)(100 := 48, 48 := 16, 16 := 32, 32 := 108)\<rparr>"

lemma demo_dlist: "dlist demo_links 100 [48, 16, 32]"
  by (simp add: dlist_def dcells_def list_cells_def tail_of_def demo_links_def)

text \<open>
  C5. \<^verbatim>\<open>list_sort\<close>: for every doubly linked list and every strict weak order, the natural merge sort
  on the pointers ends without a panic (its own final assertion included); the list then holds a
  permutation of its elements that is in nondescending order, and no link outside of the list has
  changed.
\<close>

theorem list_sort_sorts:
  assumes "dlist h l xs" and "length xs < 4294967296"
    and "\<And>x y. lt x y \<Longrightarrow> \<not> lt y x" and "\<And>x y z. lt x z \<Longrightarrow> lt x y \<or> lt y z"
  shows "\<exists>h' ys. list_sort h l lt = Some h' \<and> dlist h' l ys \<and> mset ys = mset xs
    \<and> sorted_wrt (\<lambda>a b. \<not> lt b a) ys \<and> same_outside h h' (set (list_cells l xs))"
  using list_sort_dlist [OF assms(1,2), of lt] adj_sorted_sorted_wrt [of lt] assms(3,4) by blast

theorem list_sort_sorts_witness:
  "\<exists>h' ys. list_sort demo_links 100 (<) = Some h' \<and> dlist h' 100 ys \<and> mset ys = {#48, 16, 32#}
     \<and> sorted_wrt (\<lambda>a b. \<not> b < a) ys"
proof -
  have "\<exists>h' ys. list_sort demo_links 100 (<) = Some h' \<and> dlist h' 100 ys \<and> mset ys = mset [48, 16, 32]
    \<and> sorted_wrt (\<lambda>a b. \<not> b < a) ys \<and> same_outside demo_links h' (set (list_cells 100 [48, 16, 32]))"
    by (rule list_sort_sorts [OF demo_dlist]) auto
  then show ?thesis by (simp only: mset.simps) blast
qed

lemma sorted_wrt_insert:
  "sorted_wrt R (us @ vs) \<Longrightarrow> (\<And>x. x \<in> set us \<Longrightarrow> R x e) \<Longrightarrow> (\<And>x. x \<in> set vs \<Longrightarrow> R e x) \<Longrightarrow>
    sorted_wrt R (us @ e # vs)"
  by (auto simp: sorted_wrt_append)

lemma sorted_tail_not_less:
  assumes "sorted_wrt (\<lambda>a b. \<not> lt b a) xs" and "\<And>x y. lt x y \<Longrightarrow> \<not> lt y x"
    and "\<And>x y z. lt x z \<Longrightarrow> lt x y \<or> lt y z" and "x \<in> set (dropWhile (\<lambda>y. \<not> lt e y) xs)"
  shows "\<not> lt x e"
proof -
  obtain v vs where v: "dropWhile (\<lambda>y. \<not> lt e y) xs = v # vs"
    using assms(4) by (cases "dropWhile (\<lambda>y. \<not> lt e y) xs") auto
  then have "lt e v" using hd_dropWhile [of "\<lambda>y. \<not> lt e y" xs] by simp
  have "sorted_wrt (\<lambda>a b. \<not> lt b a) (v # vs)"
    using assms(1) unfolding v [symmetric] by (rule sorted_wrt_dropWhile)
  then have "x = v \<or> \<not> lt x v" using assms(4) v by auto
  with \<open>lt e v\<close> assms(2,3) show ?thesis by blast
qed

text \<open>
  \<^verbatim>\<open>list_insert_ordered\<close> puts an element that is not in the list directly before the first
  element that it is less than, that is after all that it is not less than: an ordered list stays
  ordered and elements of equal rank keep the order of their insertion.
\<close>

theorem list_insert_ordered_sorted:
  assumes "dlist h l xs" and "e \<notin> set (list_cells l xs)" and "e \<noteq> 0"
    and "sorted_wrt (\<lambda>a b. \<not> lt b a) xs"
    and "\<And>x y. lt x y \<Longrightarrow> \<not> lt y x" and "\<And>x y z. lt x z \<Longrightarrow> lt x y \<or> lt y z"
  shows "\<exists>h' us vs. list_insert_ordered h l e lt = Some h' \<and> xs = us @ vs \<and> dlist h' l (us @ e # vs)
    \<and> (\<forall>x \<in> set us. \<not> lt e x) \<and> (\<forall>x \<in> set vs. \<not> lt x e) \<and> (vs \<noteq> [] \<longrightarrow> lt e (hd vs))
    \<and> sorted_wrt (\<lambda>a b. \<not> lt b a) (us @ e # vs)"
proof -
  let ?us = "takeWhile (\<lambda>y. \<not> lt e y) xs" and ?vs = "dropWhile (\<lambda>y. \<not> lt e y) xs"
  obtain h' where "list_insert_ordered h l e lt = Some h'" "dlist h' l (?us @ e # ?vs)"
    using list_insert_ordered_dlist [OF assms(1-3), of lt] by (auto simp: ins_ord_def)
  moreover have us: "\<forall>x \<in> set ?us. \<not> lt e x" by (auto dest: set_takeWhileD)
  moreover have hd: "?vs \<noteq> [] \<longrightarrow> lt e (hd ?vs)" using hd_dropWhile by blast
  moreover have vs: "\<not> lt x e" if "x \<in> set ?vs" for x
    using assms(4-6) that by (rule sorted_tail_not_less)
  moreover have "sorted_wrt (\<lambda>a b. \<not> lt b a) (?us @ e # ?vs)"
    by (rule sorted_wrt_insert) (use us vs assms(4) in auto)
  moreover have "xs = ?us @ ?vs" by (rule takeWhile_dropWhile_id [symmetric])
  ultimately show ?thesis by blast
qed

text \<open>
  \<^verbatim>\<open>list_push_back\<close> and \<^verbatim>\<open>list_pop_front\<close> make every list a first-in first-out queue, and
  \<^verbatim>\<open>list_push_front\<close> with \<^verbatim>\<open>list_pop_front\<close> makes it a stack: for any sequence of different
  elements outside of the empty list, pushing all of them and popping as many returns them in the
  same, respectively in reverse order, and leaves the list empty.
\<close>

theorem list_fifo_lifo:
  assumes "dlist h l []" and "distinct es" and "set es \<inter> {l, tail_of l, 0} = {}"
  shows "(\<exists>h1 h2. foldM (\<lambda>e h. list_push_back h l e) es h = Some h1
      \<and> pops (\<lambda>h. list_pop_front h l) (length es) h1 = Some (es, h2) \<and> dlist h2 l [])
    \<and> (\<exists>h1 h2. foldM (\<lambda>e h. list_push_front h l e) es h = Some h1
      \<and> pops (\<lambda>h. list_pop_front h l) (length es) h1 = Some (rev es, h2) \<and> dlist h2 l [])"
proof -
  let ?fresh = "\<lambda>xs e. e \<notin> set (list_cells l xs) \<and> e \<noteq> NULL"
  have "all_fresh ?fresh xs es" if "set es \<inter> set (list_cells l xs) = {}" for xs
    using that assms(2,3) by (induction es arbitrary: xs) (auto simp: list_cells_def)
  from this [of "[]"] have "all_fresh ?fresh [] es" using assms(3) by (auto simp: list_cells_def)
  with assms(1) klists.fifo [of h l es] klists.lifo [of h l es] show ?thesis by blast
qed

text \<open>
  \<^verbatim>\<open>list_reverse\<close>: the list holds the same elements in the opposite order, its links are
  consistent in both directions, and no link outside of the list has changed.
\<close>

theorem list_reverse_reverses:
  assumes "dlist h l xs"
  shows "\<exists>h'. list_reverse h l = Some h' \<and> dlist h' l (rev xs) \<and> same_outside h h' (set (list_cells l xs))"
  using assms by (rule list_reverse_dlist)

text \<open>
  \<^verbatim>\<open>list_unique\<close>: of every run of adjacent equal elements the first stays in the list and the
  others are moved, in their order, to the end of the list of duplicates if there is one; no element
  is lost.
\<close>

theorem list_unique_moves_duplicates:
  assumes "dlist h l xs" and "dup \<noteq> 0 \<Longrightarrow> dlist h dup ds \<and> set (list_cells l xs) \<inter> set (list_cells dup ds) = {}"
  shows "\<exists>h'. list_unique h l dup lt = Some h' \<and> dlist h' l (fst (uniq lt xs))
    \<and> (dup \<noteq> 0 \<longrightarrow> dlist h' dup (ds @ snd (uniq lt xs)))
    \<and> mset (fst (uniq lt xs)) + mset (snd (uniq lt xs)) = mset xs"
  using list_unique_dlist [OF assms] mset_uniq by blast

text \<open>
  \<^verbatim>\<open>list_max\<close>: on a list that is not empty and for a strict weak order it returns an element of
  the list that is less than none of them; on an empty list it returns the list's tail.
\<close>

theorem list_max_greatest:
  assumes "dlist h l xs"
    and "\<And>x y. lt x y \<Longrightarrow> \<not> lt y x" and "\<And>x y z. lt x z \<Longrightarrow> lt x y \<or> lt y z"
  shows "\<exists>m. list_max h l lt = Some m \<and>
    (if xs = [] then m = tail_of l else m \<in> set xs \<and> (\<forall>x \<in> set xs. \<not> lt m x))"
proof (cases xs)
  case Nil
  with assms(1) show ?thesis by (simp add: list_max_dlist)
next
  case (Cons x ys)
  have "best_of lt x ys \<in> insert x (set ys)" by (rule best_of_mem)
  with Cons assms best_of_best [of lt _ x ys] show ?thesis by (simp add: list_max_dlist)
qed

end
