(* ===== verification/Hash.thy ===== *)
theory Hash
  imports Klist
begin

text \<open>
  The hash tables of \<^verbatim>\<open>lib/kernel/hash.c\<close>. A table is an array of buckets, each a list of
  elements; the lists are the abstract lists that \<open>Klist\<close> shows the pointer code to implement.
  The functions of the table's user, \<^verbatim>\<open>hash\<close> and \<^verbatim>\<open>less\<close>, are fields of the record as they
  are fields of the structure. Whether \<^verbatim>\<open>malloc\<close> succeeds is an argument (\<open>mem\<close>) of the
  operations that allocate.

  The lemmas show that under the contract of the user's functions (the locale \<open>hash_contract\<close>)
  a table is a set of pairwise different elements: each operation keeps the invariant
  \<open>hash_wf\<close>, \<^verbatim>\<open>hash_find\<close> finds exactly what is in the set, and \<^verbatim>\<open>rehash\<close> keeps it, whether
  memory is available or not.
\<close>

record 'a hash =
  elem_cnt_of :: size_t
  bucket_cnt :: size_t
  buckets :: "'a list list"
  hash_of :: "'a \<Rightarrow> u32"
  less_of :: "'a \<Rightarrow> 'a \<Rightarrow> bool"

text \<open>\<^verbatim>\<open>x - 1\<close> is \<open>2 ^ 32 - 1\<close> for \<open>x = 0\<close> in the source; the conjunction with 0 is 0 either way.\<close>

definition turn_off_least_1bit :: "size_t \<Rightarrow> size_t" where
  "turn_off_least_1bit x = x AND (x - 1)"

definition is_power_of_2 :: "size_t \<Rightarrow> bool" where
  "is_power_of_2 x \<longleftrightarrow> x \<noteq> 0 \<and> turn_off_least_1bit x = 0"

definition bucket_idx :: "'a hash \<Rightarrow> 'a \<Rightarrow> nat" where
  "bucket_idx h e = unat (hash_of h e) AND (bucket_cnt h - 1)"

definition equal_elems :: "'a hash \<Rightarrow> 'a \<Rightarrow> 'a \<Rightarrow> bool" where
  "equal_elems h x e \<longleftrightarrow> \<not> less_of h x e \<and> \<not> less_of h e x"

definition find_elem :: "'a hash \<Rightarrow> nat \<Rightarrow> 'a \<Rightarrow> 'a option" where
  "find_elem h b e = find (\<lambda>x. equal_elems h x e) (buckets h ! b)"

definition insert_elem :: "'a hash \<Rightarrow> nat \<Rightarrow> 'a \<Rightarrow> 'a hash" where
  "insert_elem h b e =
     h\<lparr>elem_cnt_of := wrap32 (elem_cnt_of h + 1), buckets := (buckets h)[b := e # buckets h ! b]\<rparr>"

text \<open>\<^verbatim>\<open>list_remove\<close> unlinks the element from the one list that holds it.\<close>

definition remove_elem :: "'a hash \<Rightarrow> 'a \<Rightarrow> 'a hash" where
  "remove_elem h e =
     h\<lparr>elem_cnt_of := wrap32 (elem_cnt_of h + SIZE_MAX), buckets := map (remove1 e) (buckets h)\<rparr>"

partial_function (option) round_down_pow2 :: "size_t \<Rightarrow> size_t option" where
  "round_down_pow2 n =
     (if \<not> is_power_of_2 n then round_down_pow2 (turn_off_least_1bit n) else Some n)"

definition move_elem :: "'a \<Rightarrow> 'a hash \<Rightarrow> 'a hash" where
  "move_elem e h = h\<lparr>buckets := (buckets h)[bucket_idx h e := e # buckets h ! bucket_idx h e]\<rparr>"

definition rehash :: "bool \<Rightarrow> 'a hash \<Rightarrow> 'a hash option" where
  "rehash mem h = do {
     let old_buckets = buckets h;
     let old_bucket_cnt = bucket_cnt h;
     let n = elem_cnt_of h div 2;
     let n = (if n < 4 then 4 else n);
     new_bucket_cnt \<leftarrow> round_down_pow2 n;
     if new_bucket_cnt = old_bucket_cnt then Some h
     else if \<not> mem then Some h
     else do {
       let h = h\<lparr>buckets := replicate new_bucket_cnt [], bucket_cnt := new_bucket_cnt\<rparr>;
       Some (fold move_elem (concat (take old_bucket_cnt old_buckets)) h) } }"

text \<open>
  \<^verbatim>\<open>hash_clear\<close> runs the destructor over the elements of each bucket in order; the second
  component is the sequence of calls.
\<close>

definition hash_clear :: "'a hash \<Rightarrow> bool \<Rightarrow> 'a hash \<times> 'a list" where
  "hash_clear h destructor =
     (h\<lparr>elem_cnt_of := 0, buckets := replicate (bucket_cnt h) []\<rparr>,
      if destructor then concat (take (bucket_cnt h) (buckets h)) else [])"

definition hash_init :: "bool \<Rightarrow> ('a \<Rightarrow> u32) \<Rightarrow> ('a \<Rightarrow> 'a \<Rightarrow> bool) \<Rightarrow> 'a hash option" where
  "hash_init mem hsh lt =
     (if mem
      then Some (fst (hash_clear
        \<lparr>elem_cnt_of = 0, bucket_cnt = 4, buckets = replicate 4 [], hash_of = hsh, less_of = lt\<rparr> False))
      else None)"

definition hash_insert :: "bool \<Rightarrow> 'a hash \<Rightarrow> 'a \<Rightarrow> ('a option \<times> 'a hash) option" where
  "hash_insert mem h new = do {
     let bucket = bucket_idx h new;
     let old = find_elem h bucket new;
     let h = (if old = None then insert_elem h bucket new else h);
     h \<leftarrow> rehash mem h;
     Some (old, h) }"

definition hash_replace :: "bool \<Rightarrow> 'a hash \<Rightarrow> 'a \<Rightarrow> ('a option \<times> 'a hash) option" where
  "hash_replace mem h new = do {
     let bucket = bucket_idx h new;
     let old = find_elem h bucket new;
     let h = (case old of Some x \<Rightarrow> remove_elem h x | None \<Rightarrow> h);
     let h = insert_elem h bucket new;
     h \<leftarrow> rehash mem h;
     Some (old, h) }"

definition hash_find :: "'a hash \<Rightarrow> 'a \<Rightarrow> 'a option" where
  "hash_find h e = find_elem h (bucket_idx h e) e"

definition hash_delete :: "bool \<Rightarrow> 'a hash \<Rightarrow> 'a \<Rightarrow> ('a option \<times> 'a hash) option" where
  "hash_delete mem h e = do {
     let found = find_elem h (bucket_idx h e) e;
     case found of
       Some x \<Rightarrow> do { h \<leftarrow> rehash mem (remove_elem h x); Some (found, h) }
     | None \<Rightarrow> Some (found, h) }"

text \<open>\<^verbatim>\<open>hash_destroy\<close> releases the table; what remains are the calls of the destructor.\<close>

definition hash_destroy :: "'a hash \<Rightarrow> bool \<Rightarrow> 'a list" where
  "hash_destroy h destructor = (if destructor then snd (hash_clear h True) else [])"

text \<open>\<^verbatim>\<open>hash_apply\<close>: the sequence of elements that the action is called with.\<close>

definition hash_apply :: "'a hash \<Rightarrow> 'a list" where
  "hash_apply h = concat (take (bucket_cnt h) (buckets h))"

definition hash_size :: "'a hash \<Rightarrow> size_t" where
  "hash_size h = elem_cnt_of h"

definition hash_empty :: "'a hash \<Rightarrow> bool" where
  "hash_empty h \<longleftrightarrow> elem_cnt_of h = 0"

text \<open>
  The iterator: the current bucket, the current element (\<^const>\<open>None\<close> for the list head after
  \<^verbatim>\<open>hash_first\<close> and for the null pointer at the end) and what follows it in its bucket.
\<close>

record 'a hash_iterator =
  it_bucket :: nat
  it_elem :: "'a option"
  it_rest :: "'a list"

definition hash_first :: "'a hash \<Rightarrow> 'a hash_iterator" where
  "hash_first h = \<lparr>it_bucket = 0, it_elem = None, it_rest = buckets h ! 0\<rparr>"

function next_bucket :: "'a hash \<Rightarrow> nat \<Rightarrow> 'a list \<Rightarrow> 'a hash_iterator" where
  "next_bucket h b (x # xs) = \<lparr>it_bucket = b, it_elem = Some x, it_rest = xs\<rparr>"
| "next_bucket h b [] =
     (if b + 1 \<ge> bucket_cnt h then \<lparr>it_bucket = b + 1, it_elem = None, it_rest = []\<rparr>
      else next_bucket h (b + 1) (buckets h ! (b + 1)))"
  by pat_completeness auto
termination
  by (relation "measure (\<lambda>(h, b, xs). bucket_cnt h - b)") auto

definition hash_next :: "'a hash \<Rightarrow> 'a hash_iterator \<Rightarrow> 'a hash_iterator" where
  "hash_next h i = next_bucket h (it_bucket i) (it_rest i)"

definition hash_cur :: "'a hash_iterator \<Rightarrow> 'a option" where
  "hash_cur i = it_elem i"

definition FNV_32_PRIME :: u32 where
  "FNV_32_PRIME = 16777619"

definition FNV_32_BASIS :: u32 where
  "FNV_32_BASIS = 2166136261"

definition hash_bytes :: "u8 list \<Rightarrow> size_t \<Rightarrow> u32" where
  "hash_bytes buf sz = fold (\<lambda>b h. (h * FNV_32_PRIME) XOR ucast b) (take sz buf) FNV_32_BASIS"

definition hash_string :: "u8 list \<Rightarrow> u32" where
  "hash_string s = fold (\<lambda>b h. (h * FNV_32_PRIME) XOR ucast b) (takeWhile (\<lambda>b. b \<noteq> 0) s) FNV_32_BASIS"

definition hash_int :: "u32 \<Rightarrow> u32" where
  "hash_int i = hash_bytes (u32_bytes i) 4"

subsection \<open>Powers of two\<close>

lemma turn_off_odd: "turn_off_least_1bit (2 * m + 1) = 2 * m"
  by (simp add: turn_off_least_1bit_def and_nat_rec [of "Suc (2 * m)"])

lemma turn_off_even: "0 < m \<Longrightarrow> turn_off_least_1bit (2 * m) = 2 * turn_off_least_1bit m"
proof -
  assume m: "0 < m"
  then have "(2 * m - 1) div 2 = m - 1" by simp
  with m show ?thesis
    unfolding turn_off_least_1bit_def by (subst and_nat_rec) simp
qed

lemma parity_induct [consumes 1, case_names odd even]:
  assumes n: "0 < n" and odd: "\<And>m::nat. P (2 * m + 1)" and even: "\<And>m. 0 < m \<Longrightarrow> P m \<Longrightarrow> P (2 * m)"
  shows "P n"
  using n
proof (induction n rule: less_induct)
  case (less n)
  show ?case
  proof (cases "even n")
    case True
    then obtain m where "n = 2 * m" by (auto elim: evenE)
    with less even show ?thesis by auto
  next
    case False
    then obtain m where "n = 2 * m + 1" by (auto elim: oddE)
    with odd show ?thesis by auto
  qed
qed

lemma turn_off_less: "0 < n \<Longrightarrow> turn_off_least_1bit n < n"
proof (induction n rule: parity_induct)
  case (odd m)
  show ?case unfolding turn_off_odd by simp
next
  case (even m)
  then show ?case by (simp add: turn_off_even)
qed

lemma turn_off_0_pow2: "0 < n \<Longrightarrow> turn_off_least_1bit n = 0 \<Longrightarrow> \<exists>k. n = 2 ^ k"
proof (induction n rule: parity_induct)
  case (odd m)
  then have "m = 0" unfolding turn_off_odd by simp
  then show ?case by (intro exI [of _ 0]) simp
next
  case (even m)
  then obtain k where "m = 2 ^ k" by (auto simp: turn_off_even)
  then show ?case by (intro exI [of _ "Suc k"]) simp
qed

lemma turn_off_pow2: "turn_off_least_1bit (2 ^ k) = 0"
proof (induction k)
  case 0
  show ?case by (simp add: turn_off_least_1bit_def)
next
  case (Suc k)
  then show ?case by (simp add: turn_off_even)
qed

lemma turn_off_keeps_top:
  "0 < n \<Longrightarrow> 2 ^ k \<le> n \<Longrightarrow> turn_off_least_1bit n \<noteq> 0 \<Longrightarrow> n < 2 ^ Suc k \<Longrightarrow> 2 ^ k \<le> turn_off_least_1bit n"
proof (induction n arbitrary: k rule: parity_induct)
  case (odd m)
  then show ?case unfolding turn_off_odd by (cases k) auto
next
  case (even m)
  show ?case
  proof (cases k)
    case 0
    with even show ?thesis by (simp add: turn_off_even)
  next
    case (Suc k')
    with even have "2 ^ k' \<le> turn_off_least_1bit m" by (simp add: turn_off_even)
    with Suc even(1) show ?thesis by (simp add: turn_off_even)
  qed
qed

lemma is_power_of_2_iff: "is_power_of_2 n \<longleftrightarrow> (\<exists>k. n = 2 ^ k)"
  using turn_off_0_pow2 [of n] by (auto simp: is_power_of_2_def turn_off_pow2)

text \<open>The loop of \<^verbatim>\<open>rehash\<close> ends and finds the largest power of two that is not above its argument.\<close>

lemma round_down_pow2_eq:
  "2 ^ k \<le> n \<Longrightarrow> n < 2 ^ Suc k \<Longrightarrow> round_down_pow2 n = Some (2 ^ k)"
proof (induction n rule: less_induct)
  case (less n)
  have n: "0 < n" using less.prems(1) by (metis gr0I not_le zero_less_numeral zero_less_power)
  show ?case
  proof (cases "is_power_of_2 n")
    case True
    then obtain j where "n = 2 ^ j" by (auto simp: is_power_of_2_iff)
    with less.prems have "k \<le> j" "(2::nat) ^ j < 2 ^ Suc k" by simp_all
    then have "j = k" by (simp only: power_strict_increasing_iff [of 2] one_less_numeral_iff semiring_norm)
    with True \<open>n = 2 ^ j\<close> show ?thesis by (simp add: round_down_pow2.simps)
  next
    case False
    then have "turn_off_least_1bit n \<noteq> 0" using n by (simp add: is_power_of_2_def)
    then have "2 ^ k \<le> turn_off_least_1bit n" "turn_off_least_1bit n < n"
      using turn_off_keeps_top turn_off_less less.prems n by auto
    with less False show ?thesis by (simp add: round_down_pow2.simps [of n])
  qed
qed

lemma round_down_pow2_total:
  assumes "4 \<le> n"
  obtains k where "round_down_pow2 n = Some (2 ^ k)" and "2 \<le> k" and "2 ^ k \<le> n" and "n < 2 ^ Suc k"
proof -
  obtain k where k: "2 ^ k \<le> n" "n < 2 ^ Suc k"
    using ex_power_ivl1 [of 2 n] assms by auto
  moreover have "2 \<le> k"
  proof (rule ccontr)
    assume "\<not> 2 \<le> k"
    then have "Suc k \<le> 2" by simp
    then have "2 ^ Suc k \<le> (2::nat) ^ 2" by (rule power_increasing) simp
    with k(2) assms show False by simp
  qed
  ultimately show thesis using that round_down_pow2_eq by blast
qed

subsection \<open>The invariant of a table\<close>

definition elems :: "'a hash \<Rightarrow> 'a list" where
  "elems h = concat (buckets h)"

definition placed :: "'a hash \<Rightarrow> bool" where
  "placed h \<longleftrightarrow> (\<forall>b < length (buckets h). \<forall>x \<in> set (buckets h ! b). bucket_idx h x = b)"

definition no_equals :: "'a hash \<Rightarrow> bool" where
  "no_equals h \<longleftrightarrow>
     distinct (elems h) \<and> (\<forall>x \<in> set (elems h). \<forall>y \<in> set (elems h). equal_elems h x y \<longrightarrow> x = y)"

definition hash_wf :: "'a hash \<Rightarrow> bool" where
  "hash_wf h \<longleftrightarrow>
     is_power_of_2 (bucket_cnt h) \<and> length (buckets h) = bucket_cnt h
     \<and> elem_cnt_of h = length (elems h) \<and> elem_cnt_of h \<le> SIZE_MAX \<and> placed h \<and> no_equals h"

lemma bucket_idx_less:
  assumes "is_power_of_2 (bucket_cnt h)"
  shows "bucket_idx h e < bucket_cnt h"
proof -
  obtain k where k: "bucket_cnt h = 2 ^ k" using assms by (auto simp: is_power_of_2_iff)
  have "bucket_idx h e = take_bit k (unat (hash_of h e))"
    unfolding bucket_idx_def k by (simp add: take_bit_eq_mask mask_eq_exp_minus_1)
  then show ?thesis by (simp add: k)
qed

lemma mset_concat_cons:
  "b < length bs \<Longrightarrow> mset (concat (bs[b := x # bs ! b])) = add_mset x (mset (concat bs))"
proof (induction bs arbitrary: b)
  case (Cons a bs)
  then show ?case by (cases b) auto
qed simp

lemma mset_concat_remove:
  "distinct (concat bs) \<Longrightarrow> mset (concat (map (remove1 e) bs)) = mset (concat bs) - {#e#}"
proof (induction bs)
  case (Cons b bs)
  show ?case
  proof (cases "e \<in> set b")
    case True
    then have "map (remove1 e) bs = bs"
      using Cons.prems by (intro map_idI remove1_idem) auto
    with True show ?thesis by simp
  next
    case False
    then have "mset b + mset (concat bs) - {#e#} = mset b + (mset (concat bs) - {#e#})"
      by (cases "e \<in># mset (concat bs)")
        (rule diff_union_single_conv, assumption, simp add: diff_single_trivial)
    with Cons False show ?thesis by (simp add: remove1_idem)
  qed
qed simp

lemma find_Some_unique:
  assumes "\<And>y. y \<in> set xs \<Longrightarrow> P y \<longleftrightarrow> y = x" and "x \<in> set xs"
  shows "find P xs = Some x"
  using assms by (induction xs) auto

lemma mset_cong_length: "mset xs = add_mset x (mset ys) \<Longrightarrow> length xs = Suc (length ys)"
  by (metis size_add_mset size_mset)

text \<open>
  \<open>same_elems\<close> relates two tables with the same elements and user functions; the bucket
  structure may differ. It is what \<^verbatim>\<open>rehash\<close> preserves.
\<close>

definition same_elems :: "'a hash \<Rightarrow> 'a hash \<Rightarrow> bool" where
  "same_elems h h' \<longleftrightarrow>
     mset (elems h') = mset (elems h) \<and> elem_cnt_of h' = elem_cnt_of h
     \<and> hash_of h' = hash_of h \<and> less_of h' = less_of h"

lemma same_elems_wf:
  assumes "hash_wf h" and "same_elems h h'"
    and "is_power_of_2 (bucket_cnt h')" and "length (buckets h') = bucket_cnt h'" and "placed h'"
  shows "hash_wf h'"
proof -
  have m: "mset (elems h') = mset (elems h)" and "less_of h' = less_of h" "elem_cnt_of h' = elem_cnt_of h"
    using assms(2) by (simp_all add: same_elems_def)
  moreover have "set (elems h') = set (elems h)" "length (elems h') = length (elems h)"
    "distinct (elems h') = distinct (elems h)"
    using mset_eq_setD [OF m] mset_eq_length [OF m] mset_eq_imp_distinct_iff [OF m] .
  ultimately show ?thesis
    using assms by (simp add: hash_wf_def no_equals_def equal_elems_def)
qed

lemma move_elem_simps [simp]:
  "elem_cnt_of (move_elem e h) = elem_cnt_of h" "bucket_cnt (move_elem e h) = bucket_cnt h"
  "hash_of (move_elem e h) = hash_of h" "less_of (move_elem e h) = less_of h"
  "length (buckets (move_elem e h)) = length (buckets h)"
  by (simp_all add: move_elem_def)

lemma placed_cons:
  assumes "placed h" and "hash_of h' = hash_of h" and "bucket_cnt h' = bucket_cnt h"
    and "buckets h' = (buckets h)[b := e # buckets h ! b]" and "b = bucket_idx h e"
  shows "placed h'"
  unfolding placed_def
proof (intro allI impI ballI)
  fix c x assume "c < length (buckets h')" and "x \<in> set (buckets h' ! c)"
  then have "c < length (buckets h)" "x = e \<and> c = b \<or> x \<in> set (buckets h ! c)"
    unfolding assms(4) by (simp, cases "b = c") auto
  then have "bucket_idx h x = c" using assms(1,5) by (auto simp: placed_def)
  then show "bucket_idx h' x = c" using assms(2,3) by (simp add: bucket_idx_def)
qed

lemma fold_move_elem:
  assumes "is_power_of_2 (bucket_cnt h)" and "length (buckets h) = bucket_cnt h" and "placed h"
  shows "let h' = fold move_elem xs h in
     mset (elems h') = mset xs + mset (elems h) \<and> placed h' \<and> length (buckets h') = bucket_cnt h
     \<and> bucket_cnt h' = bucket_cnt h \<and> elem_cnt_of h' = elem_cnt_of h
     \<and> hash_of h' = hash_of h \<and> less_of h' = less_of h"
  using assms
proof (induction xs arbitrary: h)
  case (Cons x xs)
  have "placed (move_elem x h)"
    by (rule placed_cons [OF Cons.prems(3)]) (simp_all add: move_elem_def)
  moreover have "mset (elems (move_elem x h)) = add_mset x (mset (elems h))"
    using bucket_idx_less [OF Cons.prems(1)] Cons.prems(2)
    by (simp add: elems_def move_elem_def mset_concat_cons)
  ultimately show ?case
    using Cons.IH [of "move_elem x h"] Cons.prems by (simp add: Let_def)
qed (simp add: Let_def)

text \<open>
  \<^verbatim>\<open>rehash\<close> keeps the elements and the invariant, with and without memory; with memory it
  reaches the ideal number of buckets.
\<close>

definition ideal_cnt :: "size_t \<Rightarrow> size_t \<Rightarrow> bool" where
  "ideal_cnt n b \<longleftrightarrow> n < 4 * b \<and> (b = 4 \<or> 2 * b \<le> n)"

lemma rehash_ok:
  assumes wf: "hash_wf h"
  obtains h' where "rehash mem h = Some h'" and "hash_wf h'" and "same_elems h h'"
    and "mem \<Longrightarrow> ideal_cnt (elem_cnt_of h') (bucket_cnt h')"
proof -
  define n where "n = (if elem_cnt_of h div 2 < 4 then 4 else elem_cnt_of h div 2)"
  have "4 \<le> n" by (simp add: n_def)
  then obtain k where k: "round_down_pow2 n = Some (2 ^ k)" "2 \<le> k" "2 ^ k \<le> n" "n < 2 ^ Suc k"
    by (rule round_down_pow2_total)
  have id: "ideal_cnt (elem_cnt_of h) (2 ^ k)"
  proof (cases "elem_cnt_of h div 2 < 4")
    case True
    have "(2::nat) ^ 2 \<le> 2 ^ k" using k(2) by (rule power_increasing) simp
    with True k(3) show ?thesis by (auto simp: n_def ideal_cnt_def)
  next
    case False
    with k(3,4) show ?thesis by (auto simp: n_def ideal_cnt_def)
  qed
  have tk: "take (bucket_cnt h) (buckets h) = buckets h" using wf by (simp add: hash_wf_def)
  define g where "g = h\<lparr>buckets := replicate (2 ^ k) [], bucket_cnt := 2 ^ k\<rparr>"
  define h' where "h' = fold move_elem (elems h) g"
  have "is_power_of_2 (bucket_cnt g)" "length (buckets g) = bucket_cnt g" "placed g" "elems g = []"
    by (auto simp: g_def is_power_of_2_iff placed_def elems_def)
  from fold_move_elem [OF this(1-3), of "elems h"] this(4)
  have h': "mset (elems h') = mset (elems h)" "placed h'" "length (buckets h') = 2 ^ k"
    "bucket_cnt h' = 2 ^ k" "elem_cnt_of h' = elem_cnt_of h" "hash_of h' = hash_of h" "less_of h' = less_of h"
    by (simp_all add: Let_def h'_def [symmetric]) (simp_all add: g_def)
  have "same_elems h h'" using h' by (simp add: same_elems_def)
  moreover have "hash_wf h'"
    using wf calculation by (rule same_elems_wf) (use h' in \<open>auto simp: is_power_of_2_iff\<close>)
  moreover have "same_elems h h" by (simp add: same_elems_def)
  moreover have "rehash mem h = Some (if 2 ^ k = bucket_cnt h \<or> \<not> mem then h else h')"
    using k(1) by (simp add: rehash_def Let_def n_def [symmetric] tk h'_def g_def elems_def)
  ultimately show thesis
    using that [of "if 2 ^ k = bucket_cnt h \<or> \<not> mem then h else h'"] wf id h'(4,5) by (auto split: if_splits)
qed

subsection \<open>Tables as sets\<close>

lemma wrap32_dec: "0 < n \<Longrightarrow> n \<le> SIZE_MAX \<Longrightarrow> wrap32 (n + SIZE_MAX) = n - 1"
  unfolding wrap32_def SIZE_MAX_def by (subst mod_if) simp

text \<open>
  What a table needs of the functions of its user: \<open>lt\<close> is irreflexive, being neither less nor
  greater is transitive, and elements that are equal in this sense have the same hash value.
\<close>

definition eqv :: "('a \<Rightarrow> 'a \<Rightarrow> bool) \<Rightarrow> 'a \<Rightarrow> 'a \<Rightarrow> bool" where
  "eqv lt x y \<longleftrightarrow> \<not> lt x y \<and> \<not> lt y x"

definition table_of :: "('a \<Rightarrow> u32) \<Rightarrow> ('a \<Rightarrow> 'a \<Rightarrow> bool) \<Rightarrow> 'a hash \<Rightarrow> bool" where
  "table_of hsh lt h \<longleftrightarrow> hash_wf h \<and> hash_of h = hsh \<and> less_of h = lt"

locale hash_contract =
  fixes hsh :: "'a \<Rightarrow> u32" and lt :: "'a \<Rightarrow> 'a \<Rightarrow> bool"
  assumes irrefl: "\<not> lt x x"
    and eqv_trans: "eqv lt x y \<Longrightarrow> eqv lt y z \<Longrightarrow> eqv lt x z"
    and hash_eqv: "eqv lt x y \<Longrightarrow> hsh x = hsh y"
begin

lemma eqv_refl: "eqv lt x x"
  by (simp add: eqv_def irrefl)

lemma eqv_sym: "eqv lt x y \<Longrightarrow> eqv lt y x"
  by (simp add: eqv_def)

lemma table_equal_elems: "table_of hsh lt h \<Longrightarrow> equal_elems h = eqv lt"
  by (intro ext) (simp add: table_of_def equal_elems_def eqv_def)

lemma table_bucket:
  assumes "table_of hsh lt h" and "eqv lt x e"
  shows "x \<in> set (buckets h ! bucket_idx h e) \<longleftrightarrow> x \<in> set (elems h)"
proof
  have wf: "hash_wf h" using assms by (simp add: table_of_def)
  then have b: "bucket_idx h e < length (buckets h)"
    by (simp add: hash_wf_def bucket_idx_less)
  then show "x \<in> set (elems h)" if "x \<in> set (buckets h ! bucket_idx h e)"
    using that nth_mem by (fastforce simp: elems_def)
  assume "x \<in> set (elems h)"
  then obtain c where c: "c < length (buckets h)" "x \<in> set (buckets h ! c)"
    by (auto simp: elems_def) (metis in_set_conv_nth)
  then have "bucket_idx h x = c" using wf by (simp add: hash_wf_def placed_def)
  moreover have "bucket_idx h x = bucket_idx h e"
    using assms hash_eqv [OF assms(2)] by (simp add: bucket_idx_def table_of_def)
  ultimately show "x \<in> set (buckets h ! bucket_idx h e)" using c by simp
qed

lemma find_elem_None:
  assumes "table_of hsh lt h"
  shows "find_elem h (bucket_idx h e) e = None \<longleftrightarrow> (\<forall>x \<in> set (elems h). \<not> eqv lt x e)"
  using table_bucket [OF assms] by (auto simp: find_elem_def find_None_iff table_equal_elems [OF assms])

lemma find_elem_Some:
  assumes t: "table_of hsh lt h"
  shows "find_elem h (bucket_idx h e) e = Some x \<longleftrightarrow> x \<in> set (elems h) \<and> eqv lt x e"
proof
  assume "find_elem h (bucket_idx h e) e = Some x"
  then show "x \<in> set (elems h) \<and> eqv lt x e"
    using table_bucket [OF t, of x e]
    by (auto simp: find_elem_def find_Some_iff table_equal_elems [OF t])
next
  assume x: "x \<in> set (elems h) \<and> eqv lt x e"
  show "find_elem h (bucket_idx h e) e = Some x"
    unfolding find_elem_def table_equal_elems [OF t]
  proof (rule find_Some_unique)
    show "x \<in> set (buckets h ! bucket_idx h e)" using table_bucket [OF t] x by blast
    fix y assume y: "y \<in> set (buckets h ! bucket_idx h e)"
    show "eqv lt y e \<longleftrightarrow> y = x"
    proof
      assume ye: "eqv lt y e"
      then have "y \<in> set (elems h)" using table_bucket [OF t] y by blast
      moreover have "eqv lt y x" using ye x eqv_trans eqv_sym by blast
      ultimately show "y = x"
        using t x table_equal_elems [OF t] by (auto simp: table_of_def hash_wf_def no_equals_def)
    qed (use x in simp)
  qed
qed

lemma table_insert_elem:
  assumes t: "table_of hsh lt h" and room: "elem_cnt_of h < SIZE_MAX"
    and new: "\<And>x. x \<in> set (elems h) \<Longrightarrow> \<not> eqv lt x e"
  shows "table_of hsh lt (insert_elem h (bucket_idx h e) e)"
    and "set (elems (insert_elem h (bucket_idx h e) e)) = insert e (set (elems h))"
proof -
  let ?h = "insert_elem h (bucket_idx h e) e"
  have wf: "hash_wf h" using t by (simp add: table_of_def)
  have m: "mset (elems ?h) = add_mset e (mset (elems h))"
    using wf bucket_idx_less [of h e]
    by (simp add: elems_def insert_elem_def mset_concat_cons hash_wf_def)
  then show s: "set (elems ?h) = insert e (set (elems h))"
    by (metis set_mset_add_mset_insert set_mset_mset)
  have "placed h" using wf by (simp add: hash_wf_def)
  then have "placed ?h"
    by (rule placed_cons [where b = "bucket_idx h e"]) (simp_all add: insert_elem_def)
  moreover have "distinct (elems ?h)"
  proof -
    have "e \<notin> set (elems h)" using new eqv_refl by blast
    then have "distinct (e # elems h)" using wf by (simp add: hash_wf_def no_equals_def)
    then show ?thesis using m by (metis mset.simps(2) mset_eq_imp_distinct_iff)
  qed
  moreover have "equal_elems ?h = eqv lt"
    using t by (auto simp: fun_eq_iff table_of_def equal_elems_def eqv_def insert_elem_def)
  moreover have "elem_cnt_of ?h = Suc (elem_cnt_of h)"
    using room by (simp add: insert_elem_def wrap32_def SIZE_MAX_def)
  ultimately show "table_of hsh lt ?h"
    using wf t room new eqv_sym mset_cong_length [OF m] table_equal_elems [OF t]
    by (auto simp: table_of_def hash_wf_def no_equals_def s) (auto simp: insert_elem_def)
qed

lemma table_remove_elem:
  assumes t: "table_of hsh lt h" and x: "x \<in> set (elems h)"
  shows "table_of hsh lt (remove_elem h x)"
    and "set (elems (remove_elem h x)) = set (elems h) - {x}"
    and "Suc (elem_cnt_of (remove_elem h x)) = elem_cnt_of h"
proof -
  let ?h = "remove_elem h x"
  have wf: "hash_wf h" using t by (simp add: table_of_def)
  then have d: "distinct (elems h)" by (simp add: hash_wf_def no_equals_def)
  have m: "mset (elems ?h) = mset (remove1 x (elems h))"
    using d mset_concat_remove [of "buckets h" x] by (simp add: elems_def remove_elem_def)
  then show s: "set (elems ?h) = set (elems h) - {x}"
    using d mset_eq_setD [OF m] by (simp add: set_remove1_eq)
  have d': "distinct (elems ?h)" using d mset_eq_imp_distinct_iff [OF m] by simp
  have l: "Suc (length (elems ?h)) = length (elems h)"
    using mset_eq_length [OF m] x by (simp add: length_remove1) (metis Suc_pred length_pos_if_in_set)
  have "0 < elem_cnt_of h" using wf x by (auto simp: hash_wf_def)
  then show c: "Suc (elem_cnt_of ?h) = elem_cnt_of h"
    using wf by (simp add: remove_elem_def wrap32_dec hash_wf_def)
  have "placed ?h" using wf
    by (auto simp: placed_def hash_wf_def remove_elem_def bucket_idx_def dest: set_remove1_subset [THEN subsetD])
  moreover have "equal_elems ?h = eqv lt"
    using t by (auto simp: fun_eq_iff table_of_def equal_elems_def eqv_def remove_elem_def)
  ultimately show "table_of hsh lt ?h"
    using wf t c l d' table_equal_elems [OF t]
    by (auto simp: table_of_def hash_wf_def no_equals_def s) (auto simp: remove_elem_def)
qed

end

text \<open>
  The contract of a table seen by its user: a collection of elements, at most one of each class
  of equal elements, with look-up, insertion, replacement and deletion. \<open>room\<close> bounds the number
  of elements by what the counter holds.
\<close>

locale elem_table =
  fixes inv :: "'t \<Rightarrow> bool" and room :: "'t \<Rightarrow> bool" and contents :: "'t \<Rightarrow> 'a set"
    and same :: "'a \<Rightarrow> 'a \<Rightarrow> bool"
    and lookup :: "'t \<Rightarrow> 'a \<Rightarrow> 'a option"
    and insrt :: "'t \<Rightarrow> 'a \<Rightarrow> ('a option \<times> 't) option"
    and replace :: "'t \<Rightarrow> 'a \<Rightarrow> ('a option \<times> 't) option"
    and delete :: "'t \<Rightarrow> 'a \<Rightarrow> ('a option \<times> 't) option"
  assumes same_refl: "same x x"
    and same_sym: "same x y \<Longrightarrow> same y x"
    and same_trans: "same x y \<Longrightarrow> same y z \<Longrightarrow> same x z"
    and lookup_Some: "inv t \<Longrightarrow> lookup t e = Some x \<longleftrightarrow> x \<in> contents t \<and> same x e"
    and insrt_law: "inv t \<Longrightarrow> room t \<Longrightarrow>
      \<exists>t'. insrt t e = Some (lookup t e, t') \<and> inv t'
        \<and> contents t' = (if lookup t e = None then insert e (contents t) else contents t)"
    and replace_law: "inv t \<Longrightarrow> room t \<Longrightarrow>
      \<exists>t'. replace t e = Some (lookup t e, t') \<and> inv t'
        \<and> contents t' = insert e {x \<in> contents t. \<not> same x e}"
    and delete_law: "inv t \<Longrightarrow>
      \<exists>t'. delete t e = Some (lookup t e, t') \<and> inv t' \<and> contents t' = {x \<in> contents t. \<not> same x e}"
begin

lemma lookup_None: "inv t \<Longrightarrow> lookup t e = None \<longleftrightarrow> (\<forall>x \<in> contents t. \<not> same x e)"
  using lookup_Some [of t e] by (metis not_None_eq)

lemma lookup_cong:
  assumes "inv t" "inv t'" "\<And>x. same x e \<Longrightarrow> x \<in> contents t \<longleftrightarrow> x \<in> contents t'"
  shows "lookup t e = lookup t' e"
  using lookup_Some [of t e] lookup_Some [of t' e] assms by (metis option.exhaust)

lemma lookup_insert:
  assumes "inv t" "room t"
  obtains t' where "insrt t e = Some (lookup t e, t')" and "inv t'"
    and "\<And>d. lookup t' d = (if same e d \<and> lookup t e = None then Some e else lookup t d)"
proof -
  obtain t' where t': "insrt t e = Some (lookup t e, t')" "inv t'"
      "contents t' = (if lookup t e = None then insert e (contents t) else contents t)"
    using insrt_law [OF assms] by blast
  moreover have "lookup t' d = (if same e d \<and> lookup t e = None then Some e else lookup t d)" for d
  proof (cases "same e d \<and> lookup t e = None")
    case True
    then show ?thesis using t'(2,3) by (simp add: lookup_Some)
  next
    case False
    have "lookup t' d = lookup t d"
      by (rule lookup_cong [OF t'(2) assms(1)]) (use False t'(3) in auto)
    with False show ?thesis by auto
  qed
  ultimately show thesis using that by blast
qed

lemma lookup_replace:
  assumes "inv t" "room t"
  obtains t' where "replace t e = Some (lookup t e, t')" and "inv t'"
    and "\<And>d. lookup t' d = (if same e d then Some e else lookup t d)"
proof -
  obtain t' where t': "replace t e = Some (lookup t e, t')" "inv t'"
      "contents t' = insert e {x \<in> contents t. \<not> same x e}"
    using replace_law [OF assms] by blast
  moreover have "lookup t' d = (if same e d then Some e else lookup t d)" for d
  proof (cases "same e d")
    case True
    then show ?thesis using t'(2,3) by (simp add: lookup_Some)
  next
    case False
    then have "\<not> same x e" if "same x d" for x
      using that same_sym same_trans by blast
    then have "lookup t' d = lookup t d"
      by (intro lookup_cong [OF t'(2) assms(1)]) (use False t'(3) in auto)
    with False show ?thesis by simp
  qed
  ultimately show thesis using that by blast
qed

lemma lookup_delete:
  assumes "inv t"
  obtains t' where "delete t e = Some (lookup t e, t')" and "inv t'"
    and "\<And>d. lookup t' d = (if same e d then None else lookup t d)"
proof -
  obtain t' where t': "delete t e = Some (lookup t e, t')" "inv t'"
      "contents t' = {x \<in> contents t. \<not> same x e}"
    using delete_law [OF assms] by blast
  moreover have "lookup t' d = (if same e d then None else lookup t d)" for d
  proof (cases "same e d")
    case True
    then have "\<not> same x d" if "\<not> same x e" for x
      using that same_sym same_trans by blast
    with True show ?thesis using t'(2,3) by (auto simp: lookup_None)
  next
    case False
    then have "\<not> same x e" if "same x d" for x
      using that same_sym same_trans by blast
    then have "lookup t' d = lookup t d"
      by (intro lookup_cong [OF t'(2) assms(1)]) (use False t'(3) in auto)
    with False show ?thesis by simp
  qed
  ultimately show thesis using that by blast
qed

lemma insert_delete:
  assumes "inv t" "room t" "lookup t e = None"
  obtains t1 t2 where "insrt t e = Some (None, t1)" and "delete t1 e = Some (Some e, t2)"
    and "inv t2" and "contents t2 = contents t"
proof -
  obtain t1 where t1: "insrt t e = Some (None, t1)" "inv t1" "contents t1 = insert e (contents t)"
    using insrt_law [OF assms(1,2), of e] assms(3) by auto
  then have "lookup t1 e = Some e" by (simp add: lookup_Some same_refl)
  then obtain t2 where t2: "delete t1 e = Some (Some e, t2)" "inv t2"
      "contents t2 = {x \<in> contents t1. \<not> same x e}"
    using delete_law [OF t1(2), of e] by auto
  moreover have "contents t2 = contents t"
    using t2(3) t1(3) same_refl assms(3) lookup_None [OF assms(1)] by auto
  ultimately show thesis using that t1(1) by blast
qed

end

context hash_contract
begin

lemma rehash_table:
  assumes "table_of hsh lt h"
  obtains h' where "rehash mem h = Some h'" and "table_of hsh lt h'" and "set (elems h') = set (elems h)"
    and "elem_cnt_of h' = elem_cnt_of h" and "mem \<Longrightarrow> ideal_cnt (elem_cnt_of h) (bucket_cnt h')"
proof -
  have "hash_wf h" using assms by (simp add: table_of_def)
  then obtain h' where h': "rehash mem h = Some h'" "hash_wf h'" "same_elems h h'"
    "mem \<longrightarrow> ideal_cnt (elem_cnt_of h') (bucket_cnt h')" using rehash_ok [of h mem] by metis
  moreover have "set (elems h') = set (elems h)"
    using h'(3) by (auto simp: same_elems_def dest: mset_eq_setD)
  ultimately show thesis
    using that [of h'] assms by (auto simp: table_of_def same_elems_def)
qed

lemma hash_insert_law:
  assumes t: "table_of hsh lt h" and room: "elem_cnt_of h < SIZE_MAX"
  shows "\<exists>h'. hash_insert mem h e = Some (hash_find h e, h') \<and> table_of hsh lt h'
    \<and> set (elems h') = (if hash_find h e = None then insert e (set (elems h)) else set (elems h))"
proof -
  define g where "g = (if hash_find h e = None then insert_elem h (bucket_idx h e) e else h)"
  have "table_of hsh lt g"
    and s: "set (elems g) = (if hash_find h e = None then insert e (set (elems h)) else set (elems h))"
    using table_insert_elem [OF t room, of e] find_elem_None [OF t, of e] t
    by (auto simp: g_def hash_find_def)
  from this(1) obtain h' where "rehash mem g = Some h'" "table_of hsh lt h'" "set (elems h') = set (elems g)"
    by (rule rehash_table [where mem = mem])
  with s show ?thesis
    by (auto simp: hash_insert_def Let_def hash_find_def [symmetric] g_def [symmetric])
qed

lemma hash_delete_law:
  assumes t: "table_of hsh lt h"
  shows "\<exists>h'. hash_delete mem h e = Some (hash_find h e, h') \<and> table_of hsh lt h'
    \<and> set (elems h') = {x \<in> set (elems h). \<not> eqv lt x e}"
proof (cases "hash_find h e")
  case None
  with find_elem_None [OF t, of e] t show ?thesis
    by (auto simp: hash_delete_def hash_find_def)
next
  case (Some x)
  then have x: "x \<in> set (elems h)" "eqv lt x e"
    using find_elem_Some [OF t, of e x] by (auto simp: hash_find_def)
  have u: "y = x" if "y \<in> set (elems h)" "eqv lt y e" for y
    using that Some find_elem_Some [OF t, of e y] by (simp add: hash_find_def)
  obtain h' where h': "rehash mem (remove_elem h x) = Some h'" "table_of hsh lt h'"
    "set (elems h') = set (elems (remove_elem h x))"
    using table_remove_elem(1) [OF t x(1)] by (rule rehash_table [where mem = mem])
  have "hash_delete mem h e = Some (hash_find h e, h')"
    using Some h'(1) by (simp add: hash_delete_def hash_find_def)
  moreover have "set (elems h') = {x \<in> set (elems h). \<not> eqv lt x e}"
    unfolding h'(3) table_remove_elem(2) [OF t x(1)] using x(2) u by blast
  ultimately show ?thesis using h'(2) by blast
qed

lemma hash_replace_law:
  assumes t: "table_of hsh lt h" and room: "elem_cnt_of h < SIZE_MAX"
  shows "\<exists>h'. hash_replace mem h e = Some (hash_find h e, h') \<and> table_of hsh lt h'
    \<and> set (elems h') = insert e {x \<in> set (elems h). \<not> eqv lt x e}"
proof -
  define g where "g = (case hash_find h e of Some x \<Rightarrow> remove_elem h x | None \<Rightarrow> h)"
  have tg: "table_of hsh lt g" and rg: "elem_cnt_of g < SIZE_MAX"
    and sg: "set (elems g) = {x \<in> set (elems h). \<not> eqv lt x e}"
    and b: "bucket_idx g e = bucket_idx h e"
  proof -
    have "table_of hsh lt g \<and> elem_cnt_of g < SIZE_MAX
      \<and> set (elems g) = {x \<in> set (elems h). \<not> eqv lt x e} \<and> bucket_idx g e = bucket_idx h e"
    proof (cases "hash_find h e")
      case None
      with find_elem_None [OF t, of e] t room show ?thesis
        by (auto simp: g_def hash_find_def)
    next
      case (Some x)
      then have x: "x \<in> set (elems h)" "eqv lt x e"
        using find_elem_Some [OF t, of e x] by (auto simp: hash_find_def)
      have u: "y = x" if "y \<in> set (elems h)" "eqv lt y e" for y
        using that Some find_elem_Some [OF t, of e y] by (simp add: hash_find_def)
      have g: "g = remove_elem h x" using Some by (simp add: g_def)
      have "set (elems g) = {x \<in> set (elems h). \<not> eqv lt x e}"
        unfolding g table_remove_elem(2) [OF t x(1)] using x(2) u by blast
      moreover have "bucket_idx g e = bucket_idx h e"
        by (simp add: g remove_elem_def bucket_idx_def)
      moreover have "table_of hsh lt g" "Suc (elem_cnt_of g) = elem_cnt_of h"
        unfolding g by (rule table_remove_elem [OF t x(1)])+
      ultimately show ?thesis using room by simp
    qed
    then show "table_of hsh lt g" "elem_cnt_of g < SIZE_MAX"
      "set (elems g) = {x \<in> set (elems h). \<not> eqv lt x e}" "bucket_idx g e = bucket_idx h e" by auto
  qed
  have new: "\<not> eqv lt x e" if "x \<in> set (elems g)" for x using that sg by simp
  obtain h' where "rehash mem (insert_elem g (bucket_idx g e) e) = Some h'" "table_of hsh lt h'"
    "set (elems h') = set (elems (insert_elem g (bucket_idx g e) e))"
    using table_insert_elem(1) [OF tg rg new] by (rule rehash_table [where mem = mem])
  with table_insert_elem(2) [OF tg rg new] show ?thesis
    by (simp add: hash_replace_def Let_def hash_find_def [symmetric] g_def [symmetric] b sg)
qed

end

text \<open>Under the contract of its user's functions a hash table is such a collection.\<close>

sublocale hash_contract \<subseteq>
  tbl: elem_table "table_of hsh lt" "\<lambda>h. elem_cnt_of h < SIZE_MAX" "\<lambda>h. set (elems h)" "eqv lt"
    hash_find "hash_insert mem" "hash_replace mem" "hash_delete mem" for mem
proof unfold_locales
  show "eqv lt x z" if "eqv lt x y" "eqv lt y z" for x y z
    using that by (rule eqv_trans)
  show "hash_find h e = Some x \<longleftrightarrow> x \<in> set (elems h) \<and> eqv lt x e" if "table_of hsh lt h" for h e x
    using find_elem_Some [OF that] by (simp add: hash_find_def)
qed (assumption | rule eqv_refl eqv_sym hash_insert_law hash_replace_law hash_delete_law)+

text \<open>The functions for integer elements, \<^verbatim>\<open>hash_int\<close> and the order of the type, fulfil the contract.\<close>

interpretation ints: hash_contract hash_int "\<lambda>i j. i <s j"
proof
  have "i = j" if "eqv (\<lambda>i j. i <s j) i j" for i j :: u32
  proof -
    have "sint i = sint j" using that by (auto simp: eqv_def word_sless_alt)
    then show ?thesis by (rule signed_word_eqI)
  qed
  then show "hash_int i = hash_int j" if "eqv (\<lambda>i j. i <s j) i j" for i j
    using that by blast
qed (auto simp: eqv_def word_sless_alt)

subsection \<open>Iteration, initialisation and clearing\<close>

definition it_remaining :: "'a hash \<Rightarrow> 'a hash_iterator \<Rightarrow> 'a list" where
  "it_remaining h i = it_rest i @ concat (drop (Suc (it_bucket i)) (buckets h))"

lemma next_bucket_remaining:
  assumes "length (buckets h) = bucket_cnt h"
  shows "it_elem (next_bucket h b xs) = (case xs @ concat (drop (Suc b) (buckets h)) of [] \<Rightarrow> None | x # _ \<Rightarrow> Some x)
    \<and> it_remaining h (next_bucket h b xs) = tl (xs @ concat (drop (Suc b) (buckets h)))"
  using assms
proof (induction h b xs rule: next_bucket.induct)
  case (1 h b x xs)
  then show ?case by (simp add: it_remaining_def)
next
  case (2 h b)
  show ?case
  proof (cases "bucket_cnt h \<le> Suc b")
    case True
    with 2 show ?thesis by (simp add: it_remaining_def)
  next
    case False
    with 2 have "drop (Suc b) (buckets h) = buckets h ! Suc b # drop (Suc (Suc b)) (buckets h)"
      by (simp add: Cons_nth_drop_Suc)
    with 2 False show ?thesis by simp
  qed
qed

lemma hash_next_iterates:
  assumes "length (buckets h) = bucket_cnt h" and "0 < bucket_cnt h"
  shows "it_remaining h ((hash_next h ^^ n) (hash_first h)) = drop n (elems h)"
proof (induction n)
  case 0
  from assms have "buckets h = buckets h ! 0 # drop 1 (buckets h)"
    by (cases "buckets h") auto
  then show ?case
    unfolding it_remaining_def hash_first_def elems_def by (metis One_nat_def append_Nil comp_id concat.simps(2) drop0 funpow_0 hash_iterator.select_convs(1,3))
next
  case (Suc n)
  let ?i = "(hash_next h ^^ n) (hash_first h)"
  have "it_remaining h (hash_next h ?i) = tl (it_remaining h ?i)"
    using next_bucket_remaining [OF assms(1)] by (simp add: hash_next_def it_remaining_def)
  then show ?case by (simp add: Suc.IH drop_Suc tl_drop)
qed

lemma hash_cur_iterates:
  assumes "length (buckets h) = bucket_cnt h" and "0 < bucket_cnt h"
  shows "hash_cur ((hash_next h ^^ Suc n) (hash_first h)) = (if n < length (elems h) then Some (elems h ! n) else None)"
proof -
  let ?i = "(hash_next h ^^ n) (hash_first h)"
  have "hash_cur (hash_next h ?i) = (case it_remaining h ?i of [] \<Rightarrow> None | x # _ \<Rightarrow> Some x)"
    using next_bucket_remaining [OF assms(1)] by (simp add: hash_next_def it_remaining_def hash_cur_def)
  then show ?thesis
    using assms by (simp add: hash_next_iterates Cons_nth_drop_Suc [symmetric])
qed

lemma empty_table:
  assumes "is_power_of_2 b" "bucket_cnt h = b" "buckets h = replicate b []" "elem_cnt_of h = 0"
  shows "hash_wf h" and "elems h = []"
  using assms by (auto simp: hash_wf_def placed_def no_equals_def elems_def)

lemma hash_clear_ok:
  assumes "hash_wf h"
  shows "hash_wf (fst (hash_clear h d))" and "elems (fst (hash_clear h d)) = []"
    and "snd (hash_clear h d) = (if d then elems h else [])"
  using assms empty_table [of "bucket_cnt h" "fst (hash_clear h d)"]
  by (auto simp: hash_clear_def hash_wf_def elems_def)

lemma hash_init_ok:
  assumes "hash_init mem hsh lt = Some h"
  shows "mem" and "table_of hsh lt h" and "elems h = []" and "bucket_cnt h = 4"
proof -
  have "is_power_of_2 4" by (simp add: is_power_of_2_iff) (metis power2_eq_square numeral_Bit0 mult_2 power2_eq_square one_add_one)
  with assms empty_table [of 4 h]
  show "mem" "table_of hsh lt h" "elems h = []" "bucket_cnt h = 4"
    by (auto simp: hash_init_def hash_clear_def table_of_def split: if_splits)
qed

subsection \<open>Properties\<close>

context hash_contract
begin

lemma find_after_insert:
  assumes "table_of hsh lt h" and "elem_cnt_of h < SIZE_MAX"
  shows "\<exists>h'. hash_insert mem h e = Some (hash_find h e, h') \<and> table_of hsh lt h'
     \<and> (\<forall>d. hash_find h' d = (if eqv lt e d \<and> hash_find h e = None then Some e else hash_find h d))"
  using tbl.lookup_insert [OF assms, of mem e] by metis

lemma find_after_replace:
  assumes "table_of hsh lt h" and "elem_cnt_of h < SIZE_MAX"
  shows "\<exists>h'. hash_replace mem h e = Some (hash_find h e, h') \<and> table_of hsh lt h'
     \<and> (\<forall>d. hash_find h' d = (if eqv lt e d then Some e else hash_find h d))"
  using tbl.lookup_replace [OF assms, of mem e] by metis

lemma find_after_delete:
  assumes "table_of hsh lt h"
  shows "\<exists>h'. hash_delete mem h e = Some (hash_find h e, h') \<and> table_of hsh lt h'
     \<and> (\<forall>d. hash_find h' d = (if eqv lt e d then None else hash_find h d))"
  using tbl.lookup_delete [OF assms, of mem e] by metis

end

text \<open>
  C8. \<^verbatim>\<open>hash_insert\<close>: for any user functions that fulfil the contract of the table, whether or
  not \<^verbatim>\<open>malloc\<close> succeeds in the rehashing, the call returns the equal element that was there, or
  null; afterwards the table is well formed, and a search for an element equal to the new one finds
  the new one if there was none, and every other search gives what it gave before.
\<close>

theorem hash_insert_then_find:
  assumes "hash_contract hsh lt" and "table_of hsh lt h" and "elem_cnt_of h < SIZE_MAX"
  shows "\<exists>h'. hash_insert mem h e = Some (hash_find h e, h') \<and> table_of hsh lt h'
     \<and> (\<forall>d. hash_find h' d = (if eqv lt e d \<and> hash_find h e = None then Some e else hash_find h d))"
  using assms by (rule hash_contract.find_after_insert)

definition empty_ints :: "u32 hash" where
  "empty_ints = the (hash_init True hash_int (\<lambda>i j. i <s j))"

lemma empty_ints_ok:
  "hash_wf empty_ints" "table_of hash_int (\<lambda>i j. i <s j) empty_ints" "elem_cnt_of empty_ints < SIZE_MAX"
  "elems empty_ints = []" "hash_find empty_ints i = None" "elem_cnt_of empty_ints = 0"
proof -
  have "hash_init True hash_int (\<lambda>i j. i <s j) = Some empty_ints"
    by (simp add: empty_ints_def hash_init_def)
  from hash_init_ok(2,3) [OF this]
  show t: "table_of hash_int (\<lambda>i j. i <s j) empty_ints" and e: "elems empty_ints = []" .
  from t e show "elem_cnt_of empty_ints < SIZE_MAX" "hash_wf empty_ints" "elem_cnt_of empty_ints = 0"
    by (simp_all add: table_of_def hash_wf_def SIZE_MAX_def)
  show "hash_find empty_ints i = None" using t e by (simp add: ints.tbl.lookup_None)
qed

text \<open>A table in which all elements collide.\<close>

definition colliding :: "nat hash" where
  "colliding = \<lparr>elem_cnt_of = 2, bucket_cnt = 4, buckets = [[3, 5], [], [], []],
     hash_of = (\<lambda>_. 0), less_of = (<)\<rparr>"

interpretation nats: hash_contract "\<lambda>_. 0" "(<) :: nat \<Rightarrow> nat \<Rightarrow> bool"
  by unfold_locales (auto simp: eqv_def)

lemma colliding_ok:
  "table_of (\<lambda>_. 0) (<) colliding" "hash_wf colliding" "elem_cnt_of colliding < SIZE_MAX"
proof -
  have "placed colliding"
    unfolding placed_def bucket_idx_def by (simp add: colliding_def All_less_Suc eval_nat_numeral)
  moreover have "no_equals colliding"
    by (auto simp: no_equals_def equal_elems_def elems_def colliding_def)
  ultimately show "hash_wf colliding"
    by (simp add: hash_wf_def is_power_of_2_def turn_off_least_1bit_def) (simp add: colliding_def elems_def SIZE_MAX_def)
  then show "table_of (\<lambda>_. 0) (<) colliding" by (simp add: table_of_def colliding_def)
  show "elem_cnt_of colliding < SIZE_MAX" by (simp add: colliding_def SIZE_MAX_def)
qed

theorem hash_insert_then_find_witness:
  "\<exists>h'. hash_insert True empty_ints 5 = Some (None, h') \<and> hash_find h' 5 = Some 5"
  using hash_insert_then_find [OF ints.hash_contract_axioms empty_ints_ok(2,3), of True 5]
  by (auto simp: empty_ints_ok ints.eqv_refl)

text \<open>
  \<^verbatim>\<open>hash_replace\<close>: under the contract, with and without memory for the rehashing, the call
  returns the equal element that was there, or null; afterwards the new element is what every search
  for an element equal to it finds, and every other search gives what it gave before.
\<close>

theorem hash_replace_then_find:
  assumes "hash_contract hsh lt" and "table_of hsh lt h" and "elem_cnt_of h < SIZE_MAX"
  shows "\<exists>h'. hash_replace mem h e = Some (hash_find h e, h') \<and> table_of hsh lt h'
     \<and> (\<forall>d. hash_find h' d = (if eqv lt e d then Some e else hash_find h d))"
  using assms by (rule hash_contract.find_after_replace)

text \<open>
  \<^verbatim>\<open>hash_delete\<close>: under the contract, with and without memory for the rehashing, the call
  returns the equal element that was there, or null; afterwards no element equal to the argument is
  found, and every other search gives what it gave before.
\<close>

theorem hash_delete_then_find:
  assumes "hash_contract hsh lt" and "table_of hsh lt h"
  shows "\<exists>h'. hash_delete mem h e = Some (hash_find h e, h') \<and> table_of hsh lt h'
     \<and> (\<forall>d. hash_find h' d = (if eqv lt e d then None else hash_find h d))"
  using assms by (rule hash_contract.find_after_delete)

text \<open>
  \<^verbatim>\<open>rehash\<close> returns on every well-formed table: its search for a power of two ends, the
  elements are a permutation of the old ones, each in the bucket that its hash value selects, and
  when memory is available there are afterwards fewer than four elements per bucket and, unless the
  table has its minimum of four buckets, at least two.
\<close>

theorem rehash_keeps_table:
  assumes "hash_wf h"
  shows "\<exists>h'. rehash mem h = Some h' \<and> hash_wf h' \<and> mset (elems h') = mset (elems h)
     \<and> (mem \<longrightarrow> elem_cnt_of h < 4 * bucket_cnt h' \<and> (bucket_cnt h' = 4 \<or> 2 * bucket_cnt h' \<le> elem_cnt_of h))"
proof -
  obtain h' where "rehash mem h = Some h'" "hash_wf h'" "same_elems h h'"
    "mem \<longrightarrow> ideal_cnt (elem_cnt_of h') (bucket_cnt h')"
    using rehash_ok [OF assms, of mem] by metis
  then show ?thesis by (auto simp: same_elems_def ideal_cnt_def)
qed

text \<open>
  The iteration idiom of \<^verbatim>\<open>hash_first\<close> and \<^verbatim>\<open>hash_next\<close>: in a well-formed table the calls of
  \<^verbatim>\<open>hash_next\<close> after \<^verbatim>\<open>hash_first\<close> give the elements one after the other, each exactly once, and
  the call after the last element gives null; \<^verbatim>\<open>hash_size\<close> is the number of the calls that gave an
  element.
\<close>

theorem hash_iteration:
  assumes "hash_wf h"
  shows "hash_cur ((hash_next h ^^ Suc n) (hash_first h)) =
      (if n < hash_size h then Some (elems h ! n) else None) \<and> distinct (elems h) \<and> hash_apply h = elems h"
proof -
  have "0 < bucket_cnt h" using assms by (auto simp: hash_wf_def is_power_of_2_def)
  moreover from assms have l: "length (buckets h) = bucket_cnt h" and c: "hash_size h = length (elems h)"
    and "distinct (elems h)"
    by (simp_all add: hash_wf_def hash_size_def no_equals_def)
  moreover have "hash_apply h = elems h" by (simp add: hash_apply_def elems_def l [symmetric])
  ultimately show ?thesis using hash_cur_iterates [of h n] by (simp only: c simp_thms)
qed

end
