(* ===== verification/Palloc.thy ===== *)
theory Palloc
  imports Bitmap
begin

text \<open>
  The page allocator of \<^verbatim>\<open>threads/palloc.c\<close> with the address arithmetic of \<^verbatim>\<open>threads/vaddr.h\<close>.
  Addresses are natural numbers below \<open>2 ^ 32\<close>, the memory is a function from addresses to bytes, and
  the two pools are the fields of one state. The locks of the pools are not part of the state: each
  operation runs alone.

  The lemmas show that the two pools of \<^verbatim>\<open>palloc_init\<close> do not overlap, that an allocation returns
  pages that nobody has, of the pool that was asked for, and that pages given back are free again
  while a second release of the same pages is a panic.
\<close>

definition PGBITS :: nat where
  "PGBITS = 12"

definition PGSIZE :: nat where
  "PGSIZE = 4096"

definition PHYS_BASE :: nat where
  "PHYS_BASE = 3221225472"

definition pg_ofs :: "nat \<Rightarrow> nat" where
  "pg_ofs va = va mod PGSIZE"

definition pg_no :: "nat \<Rightarrow> nat" where
  "pg_no va = va div PGSIZE"

definition pg_round_down :: "nat \<Rightarrow> nat" where
  "pg_round_down va = va - va mod PGSIZE"

definition pg_round_up :: "nat \<Rightarrow> nat" where
  "pg_round_up va = (let x = wrap32 (va + (PGSIZE - 1)) in x - x mod PGSIZE)"

definition is_user_vaddr :: "nat \<Rightarrow> bool" where
  "is_user_vaddr va \<longleftrightarrow> va < PHYS_BASE"

definition is_kernel_vaddr :: "nat \<Rightarrow> bool" where
  "is_kernel_vaddr va \<longleftrightarrow> va \<ge> PHYS_BASE"

definition ptov :: "nat \<Rightarrow> nat option" where
  "ptov paddr = do { ASSERT (paddr < PHYS_BASE); Some (wrap32 (paddr + PHYS_BASE)) }"

definition vtop :: "nat \<Rightarrow> nat option" where
  "vtop va = do { ASSERT (is_kernel_vaddr va); Some (va - PHYS_BASE) }"

definition PAL_ASSERT :: u32 where
  "PAL_ASSERT = 1"

definition PAL_ZERO :: u32 where
  "PAL_ZERO = 2"

definition PAL_USER :: u32 where
  "PAL_USER = 4"

record pool =
  used_map :: bitmap
  base :: nat

record pages_state =
  kernel_pool :: pool
  user_pool :: pool
  ram :: "nat \<Rightarrow> u8"

definition fill :: "nat \<Rightarrow> u8 \<Rightarrow> nat \<Rightarrow> (nat \<Rightarrow> u8) \<Rightarrow> (nat \<Rightarrow> u8)" where
  "fill a v n m = (\<lambda>x. if a \<le> x \<and> x < a + n then v else m x)"

text \<open>The words of the memory from an address on, the buffer that \<^verbatim>\<open>init_pool\<close> gives to its bitmap.\<close>

definition ram_words :: "(nat \<Rightarrow> u8) \<Rightarrow> nat \<Rightarrow> nat \<Rightarrow> u32 list" where
  "ram_words m a n = map (\<lambda>i. bytes_u32 (m (a + 4 * i)) (m (a + 4 * i + 1)) (m (a + 4 * i + 2)) (m (a + 4 * i + 3))) [0..<n]"

definition page_from_pool :: "pool \<Rightarrow> nat \<Rightarrow> bool" where
  "page_from_pool p page =
     (let page_no = pg_no page; start_page = pg_no (base p); end_page = start_page + bitmap_size (used_map p)
      in page_no \<ge> start_page \<and> page_no < end_page)"

definition init_pool :: "(nat \<Rightarrow> u8) \<Rightarrow> nat \<Rightarrow> size_t \<Rightarrow> pool option" where
  "init_pool m bas page_cnt = do {
     let bm_pages = DIV_ROUND_UP (bitmap_buf_size page_cnt) PGSIZE;
     ASSERT (\<not> bm_pages > page_cnt);
     let page_cnt = page_cnt - bm_pages;
     b \<leftarrow> bitmap_create_in_buf page_cnt (ram_words m bas (bm_pages * 1024)) (bm_pages * PGSIZE);
     Some \<lparr>used_map = b, base = bas + bm_pages * PGSIZE\<rparr> }"

definition palloc_init :: "nat \<Rightarrow> (nat \<Rightarrow> u8) \<Rightarrow> size_t \<Rightarrow> pages_state option" where
  "palloc_init init_ram_pages m user_page_limit = do {
     free_start \<leftarrow> ptov (1024 * 1024);
     free_end \<leftarrow> ptov (wrap32 (init_ram_pages * PGSIZE));
     let free_pages = (free_end - free_start) div PGSIZE;
     let user_pages = free_pages div 2;
     let user_pages = (if user_pages > user_page_limit then user_page_limit else user_pages);
     let kernel_pages = free_pages - user_pages;
     k \<leftarrow> init_pool m free_start kernel_pages;
     u \<leftarrow> init_pool m (free_start + kernel_pages * PGSIZE) user_pages;
     Some \<lparr>kernel_pool = k, user_pool = u, ram = m\<rparr> }"

definition the_pool :: "bool \<Rightarrow> pages_state \<Rightarrow> pool" where
  "the_pool user s = (if user then user_pool s else kernel_pool s)"

definition set_map :: "bool \<Rightarrow> bitmap \<Rightarrow> pages_state \<Rightarrow> pages_state" where
  "set_map user b s =
     (if user then s\<lparr>user_pool := (user_pool s)\<lparr>used_map := b\<rparr>\<rparr>
      else s\<lparr>kernel_pool := (kernel_pool s)\<lparr>used_map := b\<rparr>\<rparr>)"

definition palloc_get_multiple :: "u32 \<Rightarrow> size_t \<Rightarrow> pages_state \<Rightarrow> (nat \<times> pages_state) option" where
  "palloc_get_multiple flags page_cnt s =
     (let user = (flags AND PAL_USER \<noteq> 0); p = the_pool user s
      in if page_cnt = 0 then Some (0, s)
      else do {
        (page_idx, b) \<leftarrow> bitmap_scan_and_flip (used_map p) 0 page_cnt False;
        let s = set_map user b s;
        let pages = (if page_idx \<noteq> BITMAP_ERROR then wrap32 (base p + PGSIZE * page_idx) else 0);
        if pages \<noteq> 0
        then Some (pages, if flags AND PAL_ZERO \<noteq> 0 then s\<lparr>ram := fill pages 0 (PGSIZE * page_cnt) (ram s)\<rparr> else s)
        else if flags AND PAL_ASSERT \<noteq> 0 then None else Some (pages, s) })"

definition palloc_get_page :: "u32 \<Rightarrow> pages_state \<Rightarrow> (nat \<times> pages_state) option" where
  "palloc_get_page flags s = palloc_get_multiple flags 1 s"

definition palloc_free_multiple :: "nat \<Rightarrow> size_t \<Rightarrow> pages_state \<Rightarrow> pages_state option" where
  "palloc_free_multiple pages page_cnt s = do {
     ASSERT (pg_ofs pages = 0);
     if pages = 0 \<or> page_cnt = 0 then Some s
     else do {
       user \<leftarrow> (if page_from_pool (kernel_pool s) pages then Some False
                else if page_from_pool (user_pool s) pages then Some True else None);
       let p = the_pool user s;
       let page_idx = pg_no pages - pg_no (base p);
       let s = s\<lparr>ram := fill pages 0xcc (PGSIZE * page_cnt) (ram s)\<rparr>;
       all \<leftarrow> bitmap_all (used_map p) page_idx page_cnt;
       ASSERT all;
       b \<leftarrow> bitmap_set_multiple (used_map p) page_idx page_cnt False;
       Some (set_map user b s) } }"

definition palloc_free_page :: "nat \<Rightarrow> pages_state \<Rightarrow> pages_state option" where
  "palloc_free_page page s = palloc_free_multiple page 1 s"

subsection \<open>The invariant\<close>

definition pool_wf :: "pool \<Rightarrow> bool" where
  "pool_wf p \<longleftrightarrow> bitmap_wf (used_map p) \<and> pg_ofs (base p) = 0 \<and> 0 < base p
     \<and> base p + PGSIZE * bit_cnt (used_map p) < 4294967296"

definition pool_pages :: "pool \<Rightarrow> nat set" where
  "pool_pages p = {pg_no (base p)..<pg_no (base p) + bit_cnt (used_map p)}"

definition pages_wf :: "pages_state \<Rightarrow> bool" where
  "pages_wf s \<longleftrightarrow> pool_wf (kernel_pool s) \<and> pool_wf (user_pool s)
     \<and> pool_pages (kernel_pool s) \<inter> pool_pages (user_pool s) = {}"

definition used_of :: "pool \<Rightarrow> nat set" where
  "used_of p = (\<lambda>i. pg_no (base p) + i) ` used_units (used_map p)"

definition used_pages :: "pages_state \<Rightarrow> nat set" where
  "used_pages s = used_of (kernel_pool s) \<union> used_of (user_pool s)"

lemma the_pool_simps [simp]:
  "the_pool u (set_map u b s) = (the_pool u s)\<lparr>used_map := b\<rparr>"
  "the_pool (\<not> u) (set_map u b s) = the_pool (\<not> u) s"
  "ram (set_map u b s) = ram s"
  "the_pool u (s\<lparr>ram := m\<rparr>) = the_pool u s"
  "set_map u b (s\<lparr>ram := m\<rparr>) = (set_map u b s)\<lparr>ram := m\<rparr>"
  by (simp_all add: the_pool_def set_map_def)

lemma pages_wf_alt:
  "pages_wf s \<longleftrightarrow> pool_wf (the_pool u s) \<and> pool_wf (the_pool (\<not> u) s)
     \<and> pool_pages (the_pool u s) \<inter> pool_pages (the_pool (\<not> u) s) = {}"
  by (cases u) (auto simp: pages_wf_def the_pool_def)

lemma used_pages_alt: "used_pages s = used_of (the_pool u s) \<union> used_of (the_pool (\<not> u) s)"
  by (cases u) (auto simp: used_pages_def the_pool_def)

lemma used_of_pool_pages: "used_of p \<subseteq> pool_pages p"
  by (auto simp: used_of_def pool_pages_def used_units_def)

lemma shift_range: "(\<lambda>i. c + i) ` {i..<i + n} = {c + i..<c + i + (n::nat)}"
  by (auto simp: image_iff)

lemma pg_no_page:
  assumes "pg_ofs b = 0"
  shows "pg_no (b + PGSIZE * i) = pg_no b + i" and "pg_ofs (b + PGSIZE * i) = 0"
  using assms by (simp_all add: pg_no_def pg_ofs_def PGSIZE_def)

text \<open>What an update of one pool's bitmap does to the whole state.\<close>

lemma pool_wf_map: "pool_wf p \<Longrightarrow> bitmap_wf b \<Longrightarrow> bit_cnt b = bit_cnt (used_map p) \<Longrightarrow> pool_wf (p\<lparr>used_map := b\<rparr>)"
  by (simp add: pool_wf_def)

lemma pool_pages_map: "bit_cnt b = bit_cnt (used_map p) \<Longrightarrow> pool_pages (p\<lparr>used_map := b\<rparr>) = pool_pages p"
  by (simp add: pool_pages_def)

lemma pages_wf_map:
  assumes "pages_wf s" and "bitmap_wf b" and "bit_cnt b = bit_cnt (used_map (the_pool u s))"
  shows "pages_wf (set_map u b s)"
  using assms by (simp add: pages_wf_alt [of _ u] pool_wf_map pool_pages_map)

lemma pages_wf_ram [simp]: "pages_wf (s\<lparr>ram := m\<rparr>) \<longleftrightarrow> pages_wf s"
  by (simp add: pages_wf_def)

lemma used_pages_ram [simp]: "used_pages (s\<lparr>ram := m\<rparr>) = used_pages s"
  by (simp add: used_pages_def)

lemma used_pages_map:
  assumes "used_units b = used_units (used_map (the_pool u s)) \<union> {i..<i + n}"
  shows "used_pages (set_map u b s) = used_pages s \<union> {pg_no (base (the_pool u s)) + i..<pg_no (base (the_pool u s)) + i + n}"
  using assms by (auto simp: used_pages_alt [of _ u] used_of_def image_Un shift_range)

lemma unused_in_pool:
  assumes "pages_wf s" and "P \<subseteq> pool_pages (the_pool u s)" and "P \<inter> used_of (the_pool u s) = {}"
  shows "P \<inter> used_pages s = {}"
  using assms used_of_pool_pages [of "the_pool (\<not> u) s"]
  by (auto simp: used_pages_alt [of _ u] pages_wf_alt [of _ u])

lemma palloc_get_cases:
  assumes wf: "pages_wf s" and n: "0 < n" and u_def: "u \<longleftrightarrow> flags AND PAL_USER \<noteq> 0"
  obtains (none) "palloc_get_multiple flags n s = (if flags AND PAL_ASSERT \<noteq> 0 then None else Some (0, s))"
      "\<And>i. i + n \<le> bit_cnt (used_map (the_pool u s)) \<Longrightarrow> {i..<i + n} \<inter> used_units (used_map (the_pool u s)) \<noteq> {}"
    | (pages) i b s' where
      "palloc_get_multiple flags n s = Some (base (the_pool u s) + PGSIZE * i, s')"
      "take_units (used_map (the_pool u s)) n = (Some i, b)"
      "s' = (set_map u b s)\<lparr>ram := if flags AND PAL_ZERO \<noteq> 0 then fill (base (the_pool u s) + PGSIZE * i) 0 (PGSIZE * n) (ram s) else ram s\<rparr>"
proof -
  let ?p = "the_pool u s"
  have p: "pool_wf ?p" using wf by (simp add: pages_wf_alt [of _ u])
  then have b: "bitmap_wf (used_map ?p)" and "0 < base ?p" by (simp_all add: pool_wf_def)
  from b show thesis
  proof (rule bitmap_scan_and_flip_cases [where start = 0 and cnt = n and v = False])
    assume "bitmap_scan_and_flip (used_map ?p) 0 n False = Some (BITMAP_ERROR, used_map ?p)"
      and e: "\<And>i. 0 \<le> i \<Longrightarrow> \<not> group_at (used_map ?p) i n False"
    moreover have "set_map u (used_map ?p) s = s" by (simp add: set_map_def the_pool_def)
    ultimately have "palloc_get_multiple flags n s = (if flags AND PAL_ASSERT \<noteq> 0 then None else Some (0, s))"
      using n by (simp add: palloc_get_multiple_def Let_def u_def [symmetric])
    then show thesis using e none by (auto simp: group_at_free)
  next
    fix i c
    assume f: "bitmap_scan_and_flip (used_map ?p) 0 n False = Some (i, c)" "i \<noteq> BITMAP_ERROR" "group_at (used_map ?p) i n False"
    have "PGSIZE * i \<le> PGSIZE * bit_cnt (used_map ?p)" using f(3) by (simp add: group_at_def)
    with p have "base ?p + PGSIZE * i < 4294967296" unfolding pool_wf_def by linarith
    then have "wrap32 (base ?p + PGSIZE * i) = base ?p + PGSIZE * i" by (rule wrap32_id)
    with f \<open>0 < base ?p\<close> n show thesis
      by (intro pages [of i _ c, OF _ _ refl]) (auto simp: palloc_get_multiple_def Let_def u_def [symmetric] take_units_def)
  qed simp
qed


lemma take_units_pages:
  assumes wf: "pages_wf s" and t: "take_units (used_map (the_pool u s)) n = (Some i, b)"
  shows "pages_wf (set_map u b s)"
    and "{pg_no (base (the_pool u s)) + i..<pg_no (base (the_pool u s)) + i + n} \<subseteq> pool_pages (the_pool u s)"
    and "{pg_no (base (the_pool u s)) + i..<pg_no (base (the_pool u s)) + i + n} \<inter> used_pages s = {}"
    and "used_pages (set_map u b s) = used_pages s \<union> {pg_no (base (the_pool u s)) + i..<pg_no (base (the_pool u s)) + i + n}"
    and "used_units b = used_units (used_map (the_pool u s)) \<union> {i..<i + n}" and "bit_cnt b = bit_cnt (used_map (the_pool u s))"
    and "i + n \<le> bit_cnt (used_map (the_pool u s))" and "{i..<i + n} \<inter> used_units (used_map (the_pool u s)) = {}"
proof -
  let ?p = "the_pool u s"
  have "bitmap_wf (used_map ?p)" using wf by (simp add: pages_wf_alt [of _ u] pool_wf_def)
  note a = units.alloc_Some [OF this t]
  then show "used_units b = used_units (used_map ?p) \<union> {i..<i + n}" "bit_cnt b = bit_cnt (used_map ?p)"
    "i + n \<le> bit_cnt (used_map ?p)" "{i..<i + n} \<inter> used_units (used_map ?p) = {}" by simp_all
  show "pages_wf (set_map u b s)" using wf a by (intro pages_wf_map) simp_all
  show sub: "{pg_no (base ?p) + i..<pg_no (base ?p) + i + n} \<subseteq> pool_pages ?p"
    using a by (auto simp: pool_pages_def)
  have "{i..<i + n} \<inter> used_units (used_map ?p) = {}" using a by simp
  then have "(\<lambda>j. pg_no (base ?p) + j) ` {i..<i + n} \<inter> used_of ?p = {}"
    unfolding used_of_def by (subst image_Int [symmetric]) (auto simp: inj_on_def)
  then show "{pg_no (base ?p) + i..<pg_no (base ?p) + i + n} \<inter> used_pages s = {}"
    using sub unfolding shift_range by (intro unused_in_pool [OF wf])
  show "used_pages (set_map u b s) = used_pages s \<union> {pg_no (base ?p) + i..<pg_no (base ?p) + i + n}"
    using a by (intro used_pages_map) simp
qed

lemma page_from_pool_iff: "page_from_pool p a \<longleftrightarrow> pg_no a \<in> pool_pages p"
  by (simp add: page_from_pool_def pool_pages_def bitmap_size_def Let_def)

lemma free_pool:
  assumes "pages_wf s" and "pg_no a \<in> pool_pages (the_pool u s)"
  shows "(if page_from_pool (kernel_pool s) a then Some False
          else if page_from_pool (user_pool s) a then Some True else None) = Some u"
  using assms by (cases u) (auto simp: pages_wf_def page_from_pool_iff the_pool_def)

lemma palloc_free_eq:
  assumes wf: "pages_wf s" and n: "0 < n" and i: "i + n \<le> bit_cnt (used_map (the_pool u s))"
  shows "palloc_free_multiple (base (the_pool u s) + PGSIZE * i) n s =
    map_option (\<lambda>b. (set_map u b s)\<lparr>ram := fill (base (the_pool u s) + PGSIZE * i) 0xcc (PGSIZE * n) (ram s)\<rparr>)
      (give_units (used_map (the_pool u s)) i n)"
proof -
  let ?p = "the_pool u s"
  have p: "pg_ofs (base ?p) = 0" "0 < base ?p" using wf by (simp_all add: pages_wf_alt [of _ u] pool_wf_def)
  have "pg_no (base ?p + PGSIZE * i) \<in> pool_pages ?p"
    using i n p by (simp add: pg_no_page pool_pages_def)
  from free_pool [OF wf this] p n show ?thesis
    by (simp add: palloc_free_multiple_def pg_no_page give_units_def bind_map_option)
      (auto simp: map_option_case option.case_distrib Let_def split: bind_splits)
qed

lemma init_pool_wf:
  assumes i: "init_pool m a n = Some p" and a: "pg_ofs a = 0" "0 < a" "a + PGSIZE * n < 4294967296"
  shows "pool_wf p \<and> used_of p = {} \<and> pool_pages p \<subseteq> {pg_no a..<pg_no a + n}"
proof -
  define k where "k = DIV_ROUND_UP (bitmap_buf_size n) PGSIZE"
  from i have k: "k \<le> n" and c: "bitmap_create_in_buf (n - k) (ram_words m a (k * 1024)) (k * PGSIZE) = Some (used_map p)"
    and b: "base p = a + k * PGSIZE"
    by (auto simp: init_pool_def Let_def panic_simps k_def [symmetric] bind_eq_Some_conv not_less split: if_splits)
  have n: "n - k + 32 \<le> 4294967296" using a(3) by (simp add: PGSIZE_def)
  have l: "4 * length (ram_words m a (k * 1024)) = k * PGSIZE" by (simp add: ram_words_def PGSIZE_def)
  have "bitmap_buf_size (n - k) \<le> 4 * length (ram_words m a (k * 1024))"
    using c unfolding l by (auto simp: bitmap_create_in_buf_def panic_simps split: if_splits)
  from bitmap_create_in_buf_bits [OF n this] c
  have bm: "bitmap_wf (used_map p)" "bit_cnt (used_map p) = n - k" "bits_of (used_map p) = replicate (n - k) False"
    by (auto simp: l)
  have "pg_no (base p) = pg_no a + k" "pg_ofs (base p) = 0"
    using pg_no_page [OF a(1), of k] b by (simp_all add: mult.commute)
  moreover have "base p + PGSIZE * (n - k) = a + PGSIZE * n"
    using k b by (simp add: PGSIZE_def)
  ultimately show ?thesis
    using bm a k b by (auto simp: pool_wf_def used_of_def used_units_def pool_pages_def)
qed

subsection \<open>Properties\<close>

text \<open>
  \<^verbatim>\<open>palloc_init\<close>: for every amount of memory that fits above \<^verbatim>\<open>PHYS_BASE\<close> and every limit for the
  user pool, if the allocator comes up then its pools are well formed and lie apart from each other
  in the memory above 1 MB, and every page is free.
\<close>

theorem palloc_init_pools:
  assumes "palloc_init ram_pages m limit = Some s" and "256 \<le> ram_pages" and "ram_pages < 262144"
  shows "pages_wf s \<and> used_pages s = {}
    \<and> pool_pages (kernel_pool s) \<union> pool_pages (user_pool s) \<subseteq> {pg_no PHYS_BASE + 256..<pg_no PHYS_BASE + ram_pages}"
proof -
  define f where "f = ram_pages - 256"
  define u where "u = (if f div 2 > limit then limit else f div 2)"
  have u: "u \<le> f" by (auto simp: u_def)
  have f: "(ram_pages * PGSIZE - 1048576) div PGSIZE = f"
    using assms(2) by (simp add: f_def PGSIZE_def)
  have st: "ptov 1048576 = Some (PHYS_BASE + 1048576)" "ptov (wrap32 (ram_pages * PGSIZE)) = Some (PHYS_BASE + ram_pages * PGSIZE)"
    using assms(3) by (simp_all add: ptov_def PHYS_BASE_def PGSIZE_def)
  from assms(1) have k: "init_pool m (PHYS_BASE + 1048576) (f - u) = Some (kernel_pool s)"
    and us: "init_pool m (PHYS_BASE + 1048576 + (f - u) * PGSIZE) u = Some (user_pool s)"
    by (auto simp: palloc_init_def st Let_def f u_def bind_eq_Some_conv)
  have lim: "PHYS_BASE + 1048576 + PGSIZE * f < 4294967296"
    using assms(2,3) by (simp add: f_def PGSIZE_def PHYS_BASE_def)
  have a: "pg_ofs (PHYS_BASE + 1048576) = 0" by (simp add: pg_ofs_def PHYS_BASE_def PGSIZE_def)
  have kl: "PHYS_BASE + 1048576 + PGSIZE * (f - u) < 4294967296"
    and ul: "PHYS_BASE + 1048576 + (f - u) * PGSIZE + PGSIZE * u < 4294967296"
    using lim u by (simp_all add: PGSIZE_def)
  have no: "pg_no (PHYS_BASE + 1048576 + (f - u) * PGSIZE) = pg_no (PHYS_BASE + 1048576) + (f - u)"
    "pg_ofs (PHYS_BASE + 1048576 + (f - u) * PGSIZE) = 0"
    using pg_no_page [OF a, of "f - u"] by (simp_all add: mult.commute)
  have np: "pg_no (PHYS_BASE + 1048576) = pg_no PHYS_BASE + 256" by (simp add: pg_no_def PHYS_BASE_def PGSIZE_def)
  have "0 < PHYS_BASE" by (simp add: PHYS_BASE_def)
  then have kp: "pool_wf (kernel_pool s) \<and> used_of (kernel_pool s) = {}
      \<and> pool_pages (kernel_pool s) \<subseteq> {pg_no PHYS_BASE + 256..<pg_no PHYS_BASE + 256 + (f - u)}"
    using init_pool_wf [OF k a _ kl] by (simp add: np)
  from \<open>0 < PHYS_BASE\<close> have up: "pool_wf (user_pool s) \<and> used_of (user_pool s) = {}
      \<and> pool_pages (user_pool s) \<subseteq> {pg_no PHYS_BASE + 256 + (f - u)..<pg_no PHYS_BASE + 256 + (f - u) + u}"
    using init_pool_wf [OF us no(2) _ ul] by (simp add: no np)
  have "pg_no PHYS_BASE + 256 + (f - u) + u = pg_no PHYS_BASE + ram_pages"
    using u assms(2) by (simp add: f_def)
  moreover from kp up have "pool_pages (kernel_pool s) \<inter> pool_pages (user_pool s) = {}"
    by (fastforce simp: subset_iff)
  ultimately show ?thesis using kp up by (fastforce simp: pages_wf_def used_pages_def subset_iff)
qed

lemma demo_init_pool: "\<exists>p. init_pool m a 384 = Some p"
proof -
  have b: "bitmap_buf_size 384 = 56" "bitmap_buf_size 383 = 56"
    by (simp_all add: bitmap_buf_size_def byte_cnt_def elem_cnt_eq)
  have k: "DIV_ROUND_UP 56 4096 = 1" by (simp add: DIV_ROUND_UP_eq)
  have "bitmap_buf_size 383 \<le> 4 * length (ram_words m a 1024)" by (simp add: b ram_words_def)
  from bitmap_create_in_buf_bits [OF _ this]
  show ?thesis by (auto simp: init_pool_def b k PGSIZE_def ram_words_def)
qed

text \<open>
  \<^verbatim>\<open>palloc_get_multiple\<close>: the call panics only with \<^verbatim>\<open>PAL_ASSERT\<close>, and it panics or returns null
  only if the pool has no free run of that many pages. Otherwise the pages returned are aligned, lie
  in the pool that \<^verbatim>\<open>PAL_USER\<close> selects, were in use by nobody and are in use afterwards, nothing else
  changes its state, and memory changes only if \<^verbatim>\<open>PAL_ZERO\<close> is given, where exactly those pages are
  zeroed.
\<close>

theorem palloc_get_multiple_spec:
  assumes "pages_wf s" and "0 < n" and "u \<longleftrightarrow> flags AND PAL_USER \<noteq> 0"
  shows "(flags AND PAL_ASSERT \<noteq> 0 \<and> palloc_get_multiple flags n s = None
        \<or> flags AND PAL_ASSERT = 0 \<and> palloc_get_multiple flags n s = Some (0, s))
      \<and> (\<forall>i. i + n \<le> bit_cnt (used_map (the_pool u s)) \<longrightarrow> {i..<i + n} \<inter> used_units (used_map (the_pool u s)) \<noteq> {})
    \<or> (\<exists>pages s'. palloc_get_multiple flags n s = Some (pages, s') \<and> pages_wf s' \<and> pages \<noteq> 0 \<and> pg_ofs pages = 0
        \<and> {pg_no pages..<pg_no pages + n} \<subseteq> pool_pages (the_pool u s)
        \<and> {pg_no pages..<pg_no pages + n} \<inter> used_pages s = {}
        \<and> used_pages s' = used_pages s \<union> {pg_no pages..<pg_no pages + n}
        \<and> ram s' = (if flags AND PAL_ZERO \<noteq> 0 then fill pages 0 (PGSIZE * n) (ram s) else ram s))"
proof (rule palloc_get_cases [OF assms])
  assume "palloc_get_multiple flags n s = (if flags AND PAL_ASSERT \<noteq> 0 then None else Some (0, s))"
    and "\<And>i. i + n \<le> bit_cnt (used_map (the_pool u s)) \<Longrightarrow> {i..<i + n} \<inter> used_units (used_map (the_pool u s)) \<noteq> {}"
  then show ?thesis by (intro disjI1) (auto split: if_splits)
next
  fix i s' b
  assume pages: "palloc_get_multiple flags n s = Some (base (the_pool u s) + PGSIZE * i, s')"
    "take_units (used_map (the_pool u s)) n = (Some i, b)"
    "s' = (set_map u b s)\<lparr>ram := if flags AND PAL_ZERO \<noteq> 0 then fill (base (the_pool u s) + PGSIZE * i) 0 (PGSIZE * n) (ram s) else ram s\<rparr>"
  have p: "pg_ofs (base (the_pool u s)) = 0" "0 < base (the_pool u s)"
    using assms(1) by (simp_all add: pages_wf_alt [of _ u] pool_wf_def)
  note t = take_units_pages [OF assms(1) pages(2)]
  show ?thesis
    using pages(1,3) t(1-4) p
    by (intro disjI2 exI [of _ "base (the_pool u s) + PGSIZE * i"] exI [of _ s']) (simp add: pg_no_page)
qed

definition demo_pages :: pages_state where
  "demo_pages = \<lparr>kernel_pool = \<lparr>used_map = two_bits, base = 3222274048\<rparr>,
     user_pool = \<lparr>used_map = two_bits, base = 3223322624\<rparr>, ram = (\<lambda>_. 1)\<rparr>"

lemma demo_pages_wf: "pages_wf demo_pages"
  by (auto simp: pages_wf_def pool_wf_def demo_pages_def pg_ofs_def PGSIZE_def two_bits_def bitmap_wf_def
      elem_cnt_eq pool_pages_def pg_no_def)

lemma two_bits_free: "used_units two_bits = {}"
  by (auto simp: two_bits_def used_units_def bits_of_def nth_bits_of)

text \<open>
  \<^verbatim>\<open>palloc_free_multiple\<close> after \<^verbatim>\<open>palloc_get_multiple\<close>: the pages can be given back, the pages in use
  are then exactly those from before the allocation, and giving them back once more is a panic.
\<close>

theorem palloc_get_free:
  assumes wf: "pages_wf s" and n: "0 < n" and get: "palloc_get_multiple flags n s = Some (pages, s1)" "pages \<noteq> 0"
  shows "\<exists>s2. palloc_free_multiple pages n s1 = Some s2 \<and> pages_wf s2 \<and> used_pages s2 = used_pages s
    \<and> palloc_free_multiple pages n s2 = None"
proof -
  define u where "u \<longleftrightarrow> flags AND PAL_USER \<noteq> 0"
  let ?p = "the_pool u s"
  obtain i b where t: "take_units (used_map ?p) n = (Some i, b)" and pg: "pages = base ?p + PGSIZE * i"
    and s1: "s1 = (set_map u b s)\<lparr>ram := ram s1\<rparr>"
    by (rule palloc_get_cases [OF wf n u_def]) (use get in \<open>auto split: if_splits\<close>)
  note tp = take_units_pages [OF wf t]
  have wb: "bitmap_wf (used_map ?p)" using wf by (simp add: pages_wf_alt [of _ u] pool_wf_def)
  note a = units.alloc_Some [OF wb t]
  then have wfb: "bitmap_wf b" and cb: "i + n \<le> bit_cnt b" and ub: "{i..<i + n} \<subseteq> used_units b" by auto
  obtain c where c: "give_units b i n = Some c" "bitmap_wf c" "bit_cnt c = bit_cnt b" "used_units c = used_units b - {i..<i + n}"
    using units.release_eq [OF wfb cb ub] by blast
  have m1: "the_pool u s1 = ?p\<lparr>used_map := b\<rparr>" by (subst s1) simp
  have w1: "pages_wf s1" using tp(1) by (subst s1) simp
  have u1: "used_pages s1 = used_pages (set_map u b s)" by (subst s1) simp
  define s2 where "s2 = (set_map u c s1)\<lparr>ram := fill pages 0xcc (PGSIZE * n) (ram s1)\<rparr>"
  have f1: "palloc_free_multiple pages n s1 = Some s2"
    using palloc_free_eq [OF w1 n, of i u] m1 cb c(1) by (simp add: pg s2_def)
  have w2: "pages_wf s2" using pages_wf_map [OF w1 c(2), of u] c(3) m1 by (simp add: s2_def)
  have m2: "the_pool u s2 = ?p\<lparr>used_map := c\<rparr>" by (simp add: s2_def m1)
  have "the_pool (\<not> u) s2 = the_pool (\<not> u) s" by (simp add: s2_def) (subst s1, simp)
  then have "used_pages s2 = used_pages s"
    using a c(4) by (auto simp: used_pages_alt [of _ u] m2 used_of_def)
  moreover have "palloc_free_multiple pages n s2 = None"
    using palloc_free_eq [OF w2 n, of i u] m2 cb c(3) units.double_release [OF wfb cb ub n c(1)]
    by (simp add: pg)
  ultimately show ?thesis using f1 w2 by blast
qed

end
