(* ===== verification/Inode.thy ===== *)
theory Inode
  imports Bitmap
begin

text \<open>
  The inode layer of \<^verbatim>\<open>fs_PintOS/filesys\<close>: \<^verbatim>\<open>inode.c\<close> and \<^verbatim>\<open>free-map.c\<close>, which call each other, over the
  sectors of \<^verbatim>\<open>devices/block.c\<close>. The state \<open>fs\<close> holds the disk as a list of sectors of 512 bytes, the
  free map in memory, the inodes in memory (a pointer is an index into \<open>inodes\<close>; \<open>None\<close> is the null
  pointer) and the list of open inodes. \<open>heap_ok\<close> says whether \<^verbatim>\<open>malloc\<close> and \<^verbatim>\<open>calloc\<close> give memory; a
  null pointer that the source does not check is a panic. Values of \<^verbatim>\<open>off_t\<close> are natural numbers: a
  negative size or offset is not modelled. Each operation runs alone.

  \<^verbatim>\<open>inode_write_at\<close> extends a file, \<^verbatim>\<open>extend_file\<close> allocates sectors, and \<^verbatim>\<open>free_map_allocate\<close> writes the
  free map with \<^verbatim>\<open>inode_write_at\<close>. The recursion ends at \<^verbatim>\<open>extend_lock\<close>: a write that must extend a file
  while the lock is held is a panic in \<^verbatim>\<open>lock_acquire\<close>. The functions take what they call as an argument
  where it depends on the lock, and the suffix \<open>_held\<close> is the instance for a caller with the lock.
\<close>

subsection \<open>Sectors\<close>

definition BLOCK_SECTOR_SIZE :: nat where
  "BLOCK_SECTOR_SIZE = 512"

definition INODE_MAGIC :: u32 where
  "INODE_MAGIC = 0x494e4f44"

definition NUM_DIRECT_PTR :: nat where
  "NUM_DIRECT_PTR = 122"

definition NUM_PTR_PER_BLOCK :: nat where
  "NUM_PTR_PER_BLOCK = 128"

definition ERR_VALUE :: nat where
  "ERR_VALUE = 99999999"

definition FREE_MAP_SECTOR :: nat where
  "FREE_MAP_SECTOR = 0"

definition ROOT_DIR_SECTOR :: nat where
  "ROOT_DIR_SECTOR = 1"

record inode_disk =
  dlength :: nat
  magic :: u32
  is_dir_flag :: bool
  parent_dir :: nat
  direct_block_sectors :: "nat list"
  indirect_block_sector :: nat
  doubly_indirect_block_sector :: nat

record inode =
  sector :: nat
  open_cnt :: int
  removed :: bool
  deny_write_cnt :: int
  data :: inode_disk

record file_t =
  file_inode :: nat
  pos :: nat
  deny_write :: bool

record fs =
  disk :: "u8 list list"
  free_map :: bitmap
  free_map_file :: "file_t option"
  inodes :: "inode list"
  open_inodes :: "nat list"
  current_working_dir :: nat
  heap_ok :: bool

text \<open>The layout of the structures in a sector; the padding after \<^verbatim>\<open>is_dir\<close> is zero.\<close>

definition inode_disk_bytes :: "inode_disk \<Rightarrow> u8 list" where
  "inode_disk_bytes d = u32s_bytes (
     [word_of_nat (dlength d), magic d, of_bool (is_dir_flag d), word_of_nat (parent_dir d)]
     @ map word_of_nat (direct_block_sectors d)
     @ [word_of_nat (indirect_block_sector d), word_of_nat (doubly_indirect_block_sector d)])"

definition bytes_inode_disk :: "u8 list \<Rightarrow> inode_disk" where
  "bytes_inode_disk bs =
     (let ws = bytes_u32s bs
      in \<lparr>dlength = unat (ws ! 0), magic = ws ! 1, is_dir_flag = (bs ! 8 \<noteq> 0), parent_dir = unat (ws ! 3),
          direct_block_sectors = map unat (take NUM_DIRECT_PTR (drop 4 ws)),
          indirect_block_sector = unat (ws ! 126), doubly_indirect_block_sector = unat (ws ! 127)\<rparr>)"

definition block_bytes :: "nat list \<Rightarrow> u8 list" where
  "block_bytes ns = u32s_bytes (map word_of_nat ns)"

definition bytes_block :: "u8 list \<Rightarrow> nat list" where
  "bytes_block bs = map unat (bytes_u32s bs)"

definition zeros :: "u8 list" where
  "zeros = replicate BLOCK_SECTOR_SIZE 0"

definition block_read :: "fs \<Rightarrow> nat \<Rightarrow> u8 list option" where
  "block_read s n = do { ASSERT (n < length (disk s)); Some (disk s ! n) }"

definition block_write :: "fs \<Rightarrow> nat \<Rightarrow> u8 list \<Rightarrow> fs option" where
  "block_write s n buf = do { ASSERT (n < length (disk s)); Some (s\<lparr>disk := (disk s)[n := take BLOCK_SECTOR_SIZE buf]\<rparr>) }"

definition bytes_to_sectors :: "nat \<Rightarrow> nat" where
  "bytes_to_sectors sz = (sz + BLOCK_SECTOR_SIZE - 1) div BLOCK_SECTOR_SIZE"

definition inode_length :: "fs \<Rightarrow> nat \<Rightarrow> nat" where
  "inode_length s i = dlength (data (inodes s ! i))"

text \<open>
  \<open>byte_to_sector s d\<close> is the look-up for an inode with the content \<open>d\<close>. An index that is outside of the
  second-level block is an access outside of an array.
\<close>

definition byte_to_sector :: "fs \<Rightarrow> inode_disk \<Rightarrow> nat \<Rightarrow> nat option" where
  "byte_to_sector s d p =
     (let location = p div BLOCK_SECTOR_SIZE
      in if p < dlength d
      then if location < NUM_DIRECT_PTR
        then Some (direct_block_sectors d ! location)
        else if location < NUM_DIRECT_PTR + NUM_PTR_PER_BLOCK
        then do {
          let first_lvl_offset = location - NUM_DIRECT_PTR;
          ASSERT (heap_ok s);
          first_lvl_id \<leftarrow> block_read s (indirect_block_sector d);
          Some (bytes_block first_lvl_id ! first_lvl_offset) }
        else if location < dlength d
        then do {
          let second_lvl_offset = location - NUM_DIRECT_PTR - NUM_PTR_PER_BLOCK;
          let first_lvl_offset = second_lvl_offset mod NUM_PTR_PER_BLOCK;
          let second_lvl_offset = second_lvl_offset div NUM_PTR_PER_BLOCK;
          ASSERT (heap_ok s);
          second_lvl_id \<leftarrow> block_read s (doubly_indirect_block_sector d);
          ASSERT (second_lvl_offset < NUM_PTR_PER_BLOCK);
          let first_lvl_id_sector_num = bytes_block second_lvl_id ! second_lvl_offset;
          first_lvl_id \<leftarrow> block_read s first_lvl_id_sector_num;
          Some (bytes_block first_lvl_id ! first_lvl_offset) }
        else Some ERR_VALUE
      else Some ERR_VALUE)"

subsection \<open>Reading and writing\<close>

text \<open>
  The loops of \<^verbatim>\<open>inode_read_at\<close> and \<^verbatim>\<open>inode_write_at\<close>. Reading gives the bytes that are stored in the
  buffer; writing takes the bytes that are left to write and gives the number written. A bounce
  buffer that cannot be allocated ends the loop.
\<close>

function read_loop :: "fs \<Rightarrow> inode_disk \<Rightarrow> nat \<Rightarrow> nat \<Rightarrow> u8 list option" where
  "read_loop s d sz offset =
     (if sz = 0 then Some []
      else do {
        sector_idx \<leftarrow> byte_to_sector s d offset;
        let sector_ofs = offset mod BLOCK_SECTOR_SIZE;
        let inode_left = dlength d - offset;
        let sector_left = BLOCK_SECTOR_SIZE - sector_ofs;
        let min_left = (if inode_left < sector_left then inode_left else sector_left);
        let chunk_size = (if sz < min_left then sz else min_left);
        if chunk_size = 0 then Some []
        else if sector_ofs = 0 \<and> chunk_size = BLOCK_SECTOR_SIZE
        then do {
          bytes \<leftarrow> block_read s sector_idx;
          rest \<leftarrow> read_loop s d (sz - chunk_size) (offset + chunk_size);
          Some (bytes @ rest) }
        else if \<not> heap_ok s then Some []
        else do {
          bounce \<leftarrow> block_read s sector_idx;
          rest \<leftarrow> read_loop s d (sz - chunk_size) (offset + chunk_size);
          Some (take chunk_size (drop sector_ofs bounce) @ rest) } })"
  by pat_completeness auto
termination
  by (relation "measure (\<lambda>(s, d, sz, offset). sz)") (auto split: if_splits)

declare read_loop.simps [simp del]

definition inode_read_at :: "fs \<Rightarrow> nat \<Rightarrow> nat \<Rightarrow> nat \<Rightarrow> u8 list option" where
  "inode_read_at s i sz offset =
     (if offset > inode_length s i then Some []
      else read_loop s (data (inodes s ! i)) sz offset)"

function write_loop :: "fs \<Rightarrow> inode_disk \<Rightarrow> u8 list \<Rightarrow> nat \<Rightarrow> (nat \<times> fs) option" where
  "write_loop s d buf offset =
     (if buf = [] then Some (0, s)
      else do {
        let sector_ofs = offset mod BLOCK_SECTOR_SIZE;
        sector_idx \<leftarrow> byte_to_sector s d offset;
        let inode_left = dlength d - offset;
        let sector_left = BLOCK_SECTOR_SIZE - sector_ofs;
        let min_left = (if inode_left < sector_left then inode_left else sector_left);
        let chunk_size = (if length buf < min_left then length buf else min_left);
        if chunk_size = 0 then Some (0, s)
        else if sector_ofs = 0 \<and> chunk_size = BLOCK_SECTOR_SIZE
        then do {
          s \<leftarrow> block_write s sector_idx buf;
          (n, s) \<leftarrow> write_loop s d (drop chunk_size buf) (offset + chunk_size);
          Some (n + chunk_size, s) }
        else if \<not> heap_ok s then Some (0, s)
        else do {
          bounce \<leftarrow> (if sector_ofs > 0 \<or> chunk_size < sector_left then block_read s sector_idx else Some zeros);
          let bounce = take sector_ofs bounce @ take chunk_size buf @ drop (sector_ofs + chunk_size) bounce;
          s \<leftarrow> block_write s sector_idx bounce;
          (n, s) \<leftarrow> write_loop s d (drop chunk_size buf) (offset + chunk_size);
          Some (n + chunk_size, s) } })"
  by pat_completeness auto
termination
  by (relation "measure (\<lambda>(s, d, buf, offset). length buf)") (auto split: if_splits)

declare write_loop.simps [simp del]

definition set_data :: "nat \<Rightarrow> inode_disk \<Rightarrow> fs \<Rightarrow> fs" where
  "set_data i d s = s\<lparr>inodes := (inodes s)[i := (inodes s ! i)\<lparr>data := d\<rparr>]\<rparr>"

definition inode_write_at_with ::
  "(fs \<Rightarrow> nat \<Rightarrow> nat \<Rightarrow> nat \<Rightarrow> fs option) \<Rightarrow> fs \<Rightarrow> nat \<Rightarrow> u8 list \<Rightarrow> nat \<Rightarrow> (nat \<times> fs) option" where
  "inode_write_at_with ext s i buf offset =
     (if deny_write_cnt (inodes s ! i) \<noteq> 0 then Some (0, s)
      else do {
        let sz = length buf;
        let len = dlength (data (inodes s ! i));
        let both_zero = ((offset + sz - 1) div BLOCK_SECTOR_SIZE = 0 \<and> len = 0);
        s \<leftarrow> (if (offset + sz - 1) div BLOCK_SECTOR_SIZE > len div BLOCK_SECTOR_SIZE \<or> both_zero
              then ext s i sz offset
              else if offset + sz > inode_length s i
              then do {
                let s = set_data i ((data (inodes s ! i))\<lparr>dlength := offset + sz\<rparr>) s;
                block_write s (sector (inodes s ! i)) (inode_disk_bytes (data (inodes s ! i))) }
              else Some s);
        write_loop s (data (inodes s ! i)) buf offset })"

text \<open>A write while \<^verbatim>\<open>extend_lock\<close> is held: \<^verbatim>\<open>lock_acquire\<close> stops an extension.\<close>

definition inode_write_at_held :: "fs \<Rightarrow> nat \<Rightarrow> u8 list \<Rightarrow> nat \<Rightarrow> (nat \<times> fs) option" where
  "inode_write_at_held = inode_write_at_with (\<lambda>s i sz offset. None)"

subsection \<open>The free map\<close>

text \<open>
  \<^verbatim>\<open>bitmap_write\<close> to the free map file, with \<open>wr\<close> as the \<^verbatim>\<open>inode_write_at\<close> of its \<^verbatim>\<open>file_write_at\<close>; a panic in
  it is the state \<open>None\<close>.
\<close>

type_synonym write_fun = "fs \<Rightarrow> nat \<Rightarrow> u8 list \<Rightarrow> nat \<Rightarrow> (nat \<times> fs) option"

definition write_free_map :: "write_fun \<Rightarrow> file_t \<Rightarrow> fs \<Rightarrow> (bool \<times> fs) option" where
  "write_free_map wr f s =
     (case bitmap_write
        (\<lambda>buf sz ofs. case wr s (file_inode f) (take sz buf) ofs of Some (n, s) \<Rightarrow> (n, Some s) | None \<Rightarrow> (0, None))
        (free_map s) of
        (ok, s) \<Rightarrow> map_option (Pair ok) s)"

definition free_map_init :: "u32 list \<Rightarrow> fs \<Rightarrow> fs option" where
  "free_map_init storage s = do {
     r \<leftarrow> bitmap_create (heap_ok s) (if heap_ok s then Some storage else None) (length (disk s));
     b \<leftarrow> r;
     b \<leftarrow> bitmap_mark b FREE_MAP_SECTOR;
     b \<leftarrow> bitmap_mark b ROOT_DIR_SECTOR;
     Some (s\<lparr>free_map := b\<rparr>) }"

definition free_map_allocate_with :: "write_fun \<Rightarrow> fs \<Rightarrow> nat \<Rightarrow> (nat option \<times> fs) option" where
  "free_map_allocate_with wr s cnt = do {
     (sec, b) \<leftarrow> bitmap_scan_and_flip (free_map s) 0 cnt False;
     let s = s\<lparr>free_map := b\<rparr>;
     if sec = BITMAP_ERROR then Some (None, s)
     else (case free_map_file s of
         None \<Rightarrow> Some (Some sec, s)
       | Some f \<Rightarrow> do {
           (ok, s) \<leftarrow> write_free_map wr f s;
           if ok then Some (Some sec, s)
           else do {
             b \<leftarrow> bitmap_set_multiple (free_map s) sec cnt False;
             Some (None, s\<lparr>free_map := b\<rparr>) } }) }"

definition free_map_release_with :: "write_fun \<Rightarrow> fs \<Rightarrow> nat \<Rightarrow> nat \<Rightarrow> fs option" where
  "free_map_release_with wr s sec cnt = do {
     all \<leftarrow> bitmap_all (free_map s) sec cnt;
     ASSERT all;
     b \<leftarrow> bitmap_set_multiple (free_map s) sec cnt False;
     let s = s\<lparr>free_map := b\<rparr>;
     f \<leftarrow> free_map_file s;
     (ok, s) \<leftarrow> write_free_map wr f s;
     Some s }"

definition free_map_allocate_held :: "fs \<Rightarrow> nat \<Rightarrow> (nat option \<times> fs) option" where
  "free_map_allocate_held = free_map_allocate_with inode_write_at_held"

subsection \<open>Growing a file\<close>

text \<open>
  \<open>alloc_zero s old\<close>: \<^verbatim>\<open>free_map_allocate (1, &x)\<close> for a variable \<open>x\<close> with the value \<open>old\<close>, which the code does
  not check, and the write of zeros to the sector \<open>x\<close>.
\<close>

definition alloc_zero :: "fs \<Rightarrow> nat \<Rightarrow> (nat \<times> fs) option" where
  "alloc_zero s old = do {
     (r, s) \<leftarrow> free_map_allocate_held s 1;
     let x = (case r of Some k \<Rightarrow> k | None \<Rightarrow> old);
     s \<leftarrow> block_write s x zeros;
     Some (x, s) }"

definition set_length :: "nat \<Rightarrow> nat \<Rightarrow> fs \<Rightarrow> fs" where
  "set_length i len s = set_data i ((data (inodes s ! i))\<lparr>dlength := len\<rparr>) s"

text \<open>
  The member \<^verbatim>\<open>direct_block_sectors[k]\<close> of an inode. The code does not check the index: behind the array are the
  pointers to the indirect and the doubly indirect block, and then comes the end of the structure.
\<close>

definition get_direct :: "nat \<Rightarrow> inode_disk \<Rightarrow> nat option" where
  "get_direct k d =
     (if k < NUM_DIRECT_PTR then Some (direct_block_sectors d ! k)
      else if k = NUM_DIRECT_PTR then Some (indirect_block_sector d)
      else if k = NUM_DIRECT_PTR + 1 then Some (doubly_indirect_block_sector d)
      else None)"

definition put_direct :: "nat \<Rightarrow> nat \<Rightarrow> inode_disk \<Rightarrow> inode_disk" where
  "put_direct k x d =
     (if k < NUM_DIRECT_PTR then d\<lparr>direct_block_sectors := (direct_block_sectors d)[k := x]\<rparr>
      else if k = NUM_DIRECT_PTR then d\<lparr>indirect_block_sector := x\<rparr>
      else d\<lparr>doubly_indirect_block_sector := x\<rparr>)"

definition set_direct :: "nat \<Rightarrow> nat \<Rightarrow> nat \<Rightarrow> fs \<Rightarrow> fs" where
  "set_direct i k x s = set_data i (put_direct k x (data (inodes s ! i))) s"

definition set_indirect :: "nat \<Rightarrow> nat \<Rightarrow> fs \<Rightarrow> fs" where
  "set_indirect i x s = set_data i ((data (inodes s ! i))\<lparr>indirect_block_sector := x\<rparr>) s"

text \<open>
  One round of the loop of \<^verbatim>\<open>extend_file\<close>. The index into the indirect block is not checked either: outside of the block, which
  happens when the first round has set the final length, the model stops.
\<close>

definition extend_step :: "nat \<Rightarrow> nat \<Rightarrow> nat \<Rightarrow> nat \<Rightarrow> fs \<Rightarrow> fs option" where
  "extend_step i sz offset next_index s = do {
     let d = data (inodes s ! i);
     s \<leftarrow> (if dlength d < BLOCK_SECTOR_SIZE * NUM_DIRECT_PTR
           then do {
             old \<leftarrow> get_direct next_index d;
             (x, s) \<leftarrow> alloc_zero s old;
             Some (set_direct i next_index x s) }
           else if dlength d < BLOCK_SECTOR_SIZE * (NUM_DIRECT_PTR + NUM_PTR_PER_BLOCK)
           then do {
             ASSERT (heap_ok s);
             (first_lvl_id, s) \<leftarrow> (if indirect_block_sector d = 0
                then do {
                  (x, s) \<leftarrow> alloc_zero s 0;
                  Some (replicate NUM_PTR_PER_BLOCK 0, set_indirect i x s) }
                else do { b \<leftarrow> block_read s (indirect_block_sector d); Some (bytes_block b, s) });
             ASSERT (NUM_DIRECT_PTR \<le> next_index \<and> next_index - NUM_DIRECT_PTR < NUM_PTR_PER_BLOCK);
             (x, s) \<leftarrow> alloc_zero s (first_lvl_id ! (next_index - NUM_DIRECT_PTR));
             block_write s (indirect_block_sector (data (inodes s ! i)))
               (block_bytes (first_lvl_id[next_index - NUM_DIRECT_PTR := x])) }
           else Some s);
     let len = inode_length s i;
     Some (set_length i (if offset > len \<and> offset + sz - len > 511 then len + 512 else sz + offset) s) }"

primrec extend_loop :: "nat \<Rightarrow> nat \<Rightarrow> nat \<Rightarrow> nat \<Rightarrow> nat \<Rightarrow> fs \<Rightarrow> fs option" where
  "extend_loop i sz offset 0 next_index s = Some s"
| "extend_loop i sz offset (Suc sectors_to_add) next_index s = do {
     s \<leftarrow> extend_step i sz offset next_index s;
     extend_loop i sz offset sectors_to_add (next_index + 1) s }"

definition extend_file :: "fs \<Rightarrow> nat \<Rightarrow> nat \<Rightarrow> nat \<Rightarrow> fs option" where
  "extend_file s i sz offset = do {
     let next_index = inode_length s i div BLOCK_SECTOR_SIZE + 1;
     let more = offset + sz - inode_length s i;
     let sectors_to_add = (if more mod BLOCK_SECTOR_SIZE = 0 then more div BLOCK_SECTOR_SIZE else more div BLOCK_SECTOR_SIZE + 1);
     s \<leftarrow> extend_loop i sz offset sectors_to_add next_index s;
     block_write s (sector (inodes s ! i)) (inode_disk_bytes (data (inodes s ! i))) }"

definition inode_write_at :: "fs \<Rightarrow> nat \<Rightarrow> u8 list \<Rightarrow> nat \<Rightarrow> (nat \<times> fs) option" where
  "inode_write_at = inode_write_at_with extend_file"

definition free_map_allocate :: "fs \<Rightarrow> nat \<Rightarrow> (nat option \<times> fs) option" where
  "free_map_allocate = free_map_allocate_with inode_write_at"

definition free_map_release :: "fs \<Rightarrow> nat \<Rightarrow> nat \<Rightarrow> fs option" where
  "free_map_release = free_map_release_with inode_write_at"

subsection \<open>Creating an inode\<close>

primrec alloc_many :: "nat \<Rightarrow> fs \<Rightarrow> (nat list \<times> fs) option" where
  "alloc_many 0 s = Some ([], s)"
| "alloc_many (Suc n) s = do {
     (x, s) \<leftarrow> alloc_zero s 0;
     (xs, s) \<leftarrow> alloc_many n s;
     Some (x # xs, s) }"

definition create_indirect :: "nat \<Rightarrow> fs \<Rightarrow> (nat \<times> nat list \<times> fs) option" where
  "create_indirect remaining_sectors s = do {
     let n = min NUM_PTR_PER_BLOCK remaining_sectors;
     (xs, s) \<leftarrow> alloc_many n s;
     Some (remaining_sectors - n, xs @ replicate (NUM_PTR_PER_BLOCK - n) 0, s) }"

primrec create_doubly :: "nat \<Rightarrow> nat \<Rightarrow> fs \<Rightarrow> (nat list \<times> fs) option" where
  "create_doubly 0 remaining_sectors s = Some ([], s)"
| "create_doubly (Suc index) remaining_sectors s =
     (if remaining_sectors > 0
      then do {
        (x, s) \<leftarrow> alloc_zero s 0;
        (remaining_sectors, first_lvl_id, s) \<leftarrow> create_indirect remaining_sectors s;
        s \<leftarrow> block_write s x (block_bytes first_lvl_id);
        (xs, s) \<leftarrow> create_doubly index remaining_sectors s;
        Some (x # xs, s) }
      else Some ([], s))"

definition inode_create :: "fs \<Rightarrow> nat \<Rightarrow> nat \<Rightarrow> bool \<Rightarrow> (bool \<times> fs) option" where
  "inode_create s sec len isdir =
     (if \<not> heap_ok s then Some (False, s)
      else do {
        let sectors = bytes_to_sectors len;
        let n = min NUM_DIRECT_PTR sectors;
        (xs, s) \<leftarrow> alloc_many n s;
        let remaining_sectors = sectors - n;
        (ind, remaining_sectors, s) \<leftarrow> (if remaining_sectors > 0
           then do {
             (x, s) \<leftarrow> alloc_zero s 0;
             (remaining_sectors, first_lvl_id, s) \<leftarrow> create_indirect remaining_sectors s;
             s \<leftarrow> block_write s x (block_bytes first_lvl_id);
             Some (x, remaining_sectors, s) }
           else Some (0, remaining_sectors, s));
        (dbl, s) \<leftarrow> (if remaining_sectors > 0
           then do {
             (x, s) \<leftarrow> alloc_zero s 0;
             (ys, s) \<leftarrow> create_doubly NUM_PTR_PER_BLOCK remaining_sectors s;
             s \<leftarrow> block_write s x (block_bytes (ys @ replicate (NUM_PTR_PER_BLOCK - length ys) 0));
             Some (x, s) }
           else Some (0, s));
        s \<leftarrow> block_write s sec (inode_disk_bytes
          \<lparr>dlength = len, magic = INODE_MAGIC, is_dir_flag = isdir, parent_dir = current_working_dir s,
           direct_block_sectors = xs @ replicate (NUM_DIRECT_PTR - n) 0,
           indirect_block_sector = ind, doubly_indirect_block_sector = dbl\<rparr>);
        Some (True, s) })"


subsection \<open>Open inodes\<close>

definition inode_init :: "fs \<Rightarrow> fs" where
  "inode_init s = s\<lparr>open_inodes := []\<rparr>"

definition upd_inode :: "nat \<Rightarrow> (inode \<Rightarrow> inode) \<Rightarrow> fs \<Rightarrow> fs" where
  "upd_inode i f s = s\<lparr>inodes := (inodes s)[i := f (inodes s ! i)]\<rparr>"

definition inode_reopen :: "fs \<Rightarrow> nat option \<Rightarrow> nat option \<times> fs" where
  "inode_reopen s p =
     (case p of None \<Rightarrow> (None, s) | Some i \<Rightarrow> (Some i, upd_inode i (\<lambda>n. n\<lparr>open_cnt := open_cnt n + 1\<rparr>) s))"

definition inode_open :: "fs \<Rightarrow> nat \<Rightarrow> (nat option \<times> fs) option" where
  "inode_open s sec =
     (case find (\<lambda>i. sector (inodes s ! i) = sec) (open_inodes s) of
        Some i \<Rightarrow> Some (inode_reopen s (Some i))
      | None \<Rightarrow>
          if \<not> heap_ok s then Some (None, s)
          else do {
            let i = length (inodes s);
            b \<leftarrow> block_read s sec;
            Some (Some i, s\<lparr>open_inodes := i # open_inodes s,
              inodes := inodes s @ [\<lparr>sector = sec, open_cnt = 1, removed = False, deny_write_cnt = 0,
                data = bytes_inode_disk b\<rparr>]\<rparr>) })"

definition inode_get_inumber :: "fs \<Rightarrow> nat \<Rightarrow> nat" where
  "inode_get_inumber s i = sector (inodes s ! i)"

text \<open>
  The loop of \<^verbatim>\<open>free_indirect_block\<close> as it is written: the index and the number of sectors freed both
  grow in each round, and the condition adds them.
\<close>

function free_indirect_loop :: "nat \<Rightarrow> nat \<Rightarrow> nat \<Rightarrow> nat list \<Rightarrow> fs \<Rightarrow> (nat \<times> fs) option" where
  "free_indirect_loop index sectors_freed sectors_to_free blk s =
     (if index + sectors_freed < sectors_to_free \<and> index < NUM_PTR_PER_BLOCK
      then do {
        s \<leftarrow> free_map_release s (blk ! index) 1;
        free_indirect_loop (index + 1) (sectors_freed + 1) sectors_to_free blk s }
      else Some (sectors_freed, s))"
  by pat_completeness auto
termination
  by (relation "measure (\<lambda>(index, _). NUM_PTR_PER_BLOCK - index)") auto

declare free_indirect_loop.simps [simp del]

definition free_indirect_block :: "nat \<Rightarrow> nat \<Rightarrow> nat list \<Rightarrow> fs \<Rightarrow> (nat \<times> fs) option" where
  "free_indirect_block sectors_freed sectors_to_free blk s = free_indirect_loop 0 sectors_freed sectors_to_free blk s"

function free_direct_loop :: "nat \<Rightarrow> nat \<Rightarrow> inode_disk \<Rightarrow> fs \<Rightarrow> (nat \<times> fs) option" where
  "free_direct_loop sectors_freed sectors_to_free d s =
     (if sectors_freed < NUM_DIRECT_PTR \<and> sectors_freed < sectors_to_free \<and> direct_block_sectors d ! sectors_freed \<noteq> 0
      then do {
        s \<leftarrow> free_map_release s (direct_block_sectors d ! sectors_freed) 1;
        free_direct_loop (sectors_freed + 1) sectors_to_free d s }
      else Some (sectors_freed, s))"
  by pat_completeness auto
termination
  by (relation "measure (\<lambda>(sectors_freed, _). NUM_DIRECT_PTR - sectors_freed)") auto

declare free_direct_loop.simps [simp del]

function free_doubly_loop :: "nat \<Rightarrow> nat \<Rightarrow> nat \<Rightarrow> nat list \<Rightarrow> fs \<Rightarrow> (nat \<times> fs) option" where
  "free_doubly_loop second_lvl_offset sectors_freed sectors_to_free blk s =
     (if second_lvl_offset < NUM_PTR_PER_BLOCK \<and> sectors_freed < sectors_to_free
      then do {
        ASSERT (heap_ok s);
        b \<leftarrow> block_read s (blk ! second_lvl_offset);
        (sectors_freed, s) \<leftarrow> free_indirect_block sectors_freed sectors_to_free (bytes_block b) s;
        free_doubly_loop (second_lvl_offset + 1) sectors_freed sectors_to_free blk s }
      else Some (sectors_freed, s))"
  by pat_completeness auto
termination
  by (relation "measure (\<lambda>(k, _). NUM_PTR_PER_BLOCK - k)") auto

declare free_doubly_loop.simps [simp del]

definition free_blocks :: "nat \<Rightarrow> fs \<Rightarrow> fs option" where
  "free_blocks i s = do {
     let d = data (inodes s ! i);
     let sectors_to_free = bytes_to_sectors (dlength d);
     (sectors_freed, s) \<leftarrow> free_direct_loop 0 sectors_to_free d s;
     (sectors_freed, s) \<leftarrow> (if sectors_freed < sectors_to_free \<and> sectors_freed \<ge> NUM_DIRECT_PTR \<and> indirect_block_sector d \<noteq> 0
        then do {
          ASSERT (heap_ok s);
          b \<leftarrow> block_read s (indirect_block_sector d);
          free_indirect_block sectors_freed sectors_to_free (bytes_block b) s }
        else Some (sectors_freed, s));
     (sectors_freed, s) \<leftarrow> (if sectors_freed < sectors_to_free \<and> sectors_freed \<ge> NUM_DIRECT_PTR + NUM_PTR_PER_BLOCK
           \<and> doubly_indirect_block_sector d \<noteq> 0
        then do {
          ASSERT (heap_ok s);
          b \<leftarrow> block_read s (doubly_indirect_block_sector d);
          free_doubly_loop 0 sectors_freed sectors_to_free (bytes_block b) s }
        else Some (sectors_freed, s));
     free_map_release s (sector (inodes s ! i)) 1 }"

definition inode_close :: "fs \<Rightarrow> nat option \<Rightarrow> fs option" where
  "inode_close s p =
     (case p of None \<Rightarrow> Some s
      | Some i \<Rightarrow> do {
          let s = upd_inode i (\<lambda>n. n\<lparr>open_cnt := open_cnt n - 1\<rparr>) s;
          if open_cnt (inodes s ! i) = 0
          then do {
            let s = s\<lparr>open_inodes := remove1 i (open_inodes s)\<rparr>;
            if removed (inodes s ! i) then free_blocks i s else Some s }
          else Some s })"

definition inode_remove :: "fs \<Rightarrow> nat \<Rightarrow> fs" where
  "inode_remove s i = upd_inode i (\<lambda>n. n\<lparr>removed := True\<rparr>) s"

definition inode_deny_write :: "fs \<Rightarrow> nat \<Rightarrow> fs option" where
  "inode_deny_write s i = do {
     let s = upd_inode i (\<lambda>n. n\<lparr>deny_write_cnt := deny_write_cnt n + 1\<rparr>) s;
     ASSERT (deny_write_cnt (inodes s ! i) \<le> open_cnt (inodes s ! i));
     Some s }"

definition inode_allow_write :: "fs \<Rightarrow> nat \<Rightarrow> fs option" where
  "inode_allow_write s i = do {
     ASSERT (deny_write_cnt (inodes s ! i) > 0);
     ASSERT (deny_write_cnt (inodes s ! i) \<le> open_cnt (inodes s ! i));
     Some (upd_inode i (\<lambda>n. n\<lparr>deny_write_cnt := deny_write_cnt n - 1\<rparr>) s) }"

definition get_sector_from_inode :: "fs \<Rightarrow> nat \<Rightarrow> nat" where
  "get_sector_from_inode s i = sector (inodes s ! i)"

definition is_dir :: "fs \<Rightarrow> nat \<Rightarrow> bool" where
  "is_dir s i = is_dir_flag (data (inodes s ! i))"

end
