(* ===== verification/InodeData.thy ===== *)
theory InodeData
  imports Inode
begin

text \<open>
  What the look-up of sectors and the two copying loops of \<^verbatim>\<open>inode.c\<close> do, in terms of the bytes of a file.
  \<open>contents s d\<close> is the content of the file whose inode holds \<open>d\<close>; it is the abstraction under which
  \<^verbatim>\<open>inode_read_at\<close> and \<^verbatim>\<open>inode_write_at\<close> are reading and overwriting of a list.
\<close>

subsection \<open>Overwriting a part of a list\<close>

definition patch :: "'a list \<Rightarrow> nat \<Rightarrow> 'a list \<Rightarrow> 'a list" where
  "patch xs ofs ys = take ofs xs @ ys @ drop (ofs + length ys) xs"

lemma length_patch [simp]: "ofs + length ys \<le> length xs \<Longrightarrow> length (patch xs ofs ys) = length xs"
  by (simp add: patch_def)

lemma nth_patch:
  "ofs + length ys \<le> length xs \<Longrightarrow> p < length xs \<Longrightarrow>
    patch xs ofs ys ! p = (if ofs \<le> p \<and> p < ofs + length ys then ys ! (p - ofs) else xs ! p)"
  by (auto simp: patch_def nth_append min_def)

lemma patch_append:
  assumes "ofs + length ys + length zs \<le> length xs"
  shows "patch (patch xs ofs ys) (ofs + length ys) zs = patch xs ofs (ys @ zs)"
  using assms by (intro nth_equalityI) (auto simp: nth_patch nth_append)

lemma patch_Nil [simp]: "patch xs ofs [] = xs"
  by (simp add: patch_def)

lemma take_drop_patch: "ofs + length ys \<le> length xs \<Longrightarrow> take (length ys) (drop ofs (patch xs ofs ys)) = ys"
  by (simp add: patch_def)

lemma take_drop_split:
  "c \<le> sz \<Longrightarrow> take sz (drop ofs xs) = take c (drop ofs xs) @ take (sz - c) (drop (ofs + c) xs)"
  by (metis add.commute drop_drop le_add_diff_inverse take_add)

subsection \<open>The sectors of a file\<close>

text \<open>
  The layout of a file, which does not refer to the look-up of the code: the blocks 0 to 121 have their sectors in the inode, the next 128 in the sector of the
  indirect block, and the block \<open>250 + 128 * j + r\<close> as the entry \<open>r\<close> of the index block that is the entry \<open>j\<close> of the doubly indirect block.
\<close>

definition data_sector :: "fs \<Rightarrow> inode_disk \<Rightarrow> nat \<Rightarrow> nat" where
  "data_sector s d k =
     (if k < 122 then direct_block_sectors d ! k
      else if k < 250 then bytes_block (disk s ! indirect_block_sector d) ! (k - 122)
      else bytes_block (disk s ! (bytes_block (disk s ! doubly_indirect_block_sector d) ! ((k - 250) div 128))) ! ((k - 250) mod 128))"

definition index_used :: "fs \<Rightarrow> inode_disk \<Rightarrow> nat \<Rightarrow> nat set" where
  "index_used s d k =
     (if k < 122 then {}
      else if k < 250 then {indirect_block_sector d}
      else {doubly_indirect_block_sector d,
            bytes_block (disk s ! doubly_indirect_block_sector d) ! ((k - 250) div 128)})"

lemmas inode_consts = BLOCK_SECTOR_SIZE_def NUM_DIRECT_PTR_def NUM_PTR_PER_BLOCK_def

lemma byte_to_sector_beyond: "dlength d \<le> p \<Longrightarrow> byte_to_sector s d p = Some ERR_VALUE"
  by (simp add: byte_to_sector_def Let_def)

lemma data_sector_cong:
  "(\<And>n. n \<in> index_used s d k \<Longrightarrow> disk s' ! n = disk s ! n) \<Longrightarrow> data_sector s' d k = data_sector s d k"
  by (auto simp: data_sector_def index_used_def)

lemma index_used_cong:
  "(\<And>n. n \<in> index_used s d k \<Longrightarrow> disk s' ! n = disk s ! n) \<Longrightarrow> index_used s' d k = index_used s d k"
  by (auto simp: index_used_def)

definition nsectors :: "inode_disk \<Rightarrow> nat" where
  "nsectors d = bytes_to_sectors (dlength d)"

lemma nsectors_div: "p < dlength d \<Longrightarrow> p div 512 < nsectors d"
proof -
  assume "p < dlength d"
  then have "(p + 512) div 512 \<le> (dlength d + 511) div 512" by (intro div_le_mono) simp
  moreover have "(p + 512) div 512 = Suc (p div 512)" by simp
  ultimately show ?thesis by (simp add: nsectors_def bytes_to_sectors_def inode_consts add.commute)
qed

definition inode_ok :: "fs \<Rightarrow> inode_disk \<Rightarrow> bool" where
  "inode_ok s d \<longleftrightarrow> heap_ok s \<and> (\<forall>b \<in> set (disk s). length b = 512)
     \<and> (\<forall>k < nsectors d. k < 250 + 128 * 128 \<and> index_used s d k \<subseteq> {..<length (disk s)} \<and> data_sector s d k < length (disk s))"

text \<open>No two blocks share a sector, and no block is an index block of the file.\<close>

definition separate :: "fs \<Rightarrow> inode_disk \<Rightarrow> bool" where
  "separate s d \<longleftrightarrow> inj_on (data_sector s d) {..<nsectors d}
     \<and> (\<forall>j < nsectors d. \<forall>k < nsectors d. data_sector s d j \<notin> index_used s d k)"

definition file_byte :: "fs \<Rightarrow> inode_disk \<Rightarrow> nat \<Rightarrow> u8" where
  "file_byte s d p = disk s ! data_sector s d (p div 512) ! (p mod 512)"

definition contents :: "fs \<Rightarrow> inode_disk \<Rightarrow> u8 list" where
  "contents s d = map (file_byte s d) [0..<dlength d]"

lemma length_contents [simp]: "length (contents s d) = dlength d"
  by (simp add: contents_def)

lemma nth_contents [simp]: "p < dlength d \<Longrightarrow> contents s d ! p = file_byte s d p"
  by (simp add: contents_def)

lemma byte_to_sector_data:
  assumes "heap_ok s" and "p < dlength d" and "p div 512 < 250 + 128 * 128" and "index_used s d (p div 512) \<subseteq> {..<length (disk s)}"
  shows "byte_to_sector s d p = Some (data_sector s d (p div 512))"
proof -
  define k where "k = p div 512"
  have l: "k < dlength d" using assms(2) unfolding k_def by (meson div_le_dividend le_less_trans)
  have "(k - 250) div 128 < 128" using assms(3) by (simp add: k_def [symmetric] less_mult_imp_div_less)
  then show ?thesis
    using assms(1,2,4) l by (auto simp: byte_to_sector_def data_sector_def index_used_def inode_consts Let_def block_read_def k_def [symmetric])
qed

lemma inode_ok_sector:
  assumes "inode_ok s d" and "p < dlength d"
  shows "byte_to_sector s d p = Some (data_sector s d (p div 512))"
    and "data_sector s d (p div 512) < length (disk s)"
    and "length (disk s ! data_sector s d (p div 512)) = 512"
proof -
  from nsectors_div [OF assms(2)] assms(1) show "byte_to_sector s d p = Some (data_sector s d (p div 512))" "data_sector s d (p div 512) < length (disk s)"
    using byte_to_sector_data [OF _ assms(2)] unfolding inode_ok_def by blast+
  then show "length (disk s ! data_sector s d (p div 512)) = 512"
    using assms(1) by (simp add: inode_ok_def)
qed

lemma div_mod_chunk:
  fixes ofs :: nat
  assumes "i < c" and "c \<le> 512 - ofs mod 512"
  shows "(ofs + i) div 512 = ofs div 512" and "(ofs + i) mod 512 = ofs mod 512 + i"
proof -
  have l: "ofs mod 512 + i < 512" using assms by linarith
  show "(ofs + i) mod 512 = ofs mod 512 + i" using l by (simp add: mod_less mod_add_left_eq [of ofs 512 i, symmetric])
  then show "(ofs + i) div 512 = ofs div 512"
    using div_mult_mod_eq [of "ofs + i" 512] div_mult_mod_eq [of ofs 512] by linarith
qed

lemma contents_chunk:
  assumes ok: "inode_ok s d" and c: "c \<le> 512 - ofs mod 512" "ofs + c \<le> dlength d" "0 < c"
  shows "take c (drop ofs (contents s d)) = take c (drop (ofs mod 512) (disk s ! data_sector s d (ofs div 512)))"
proof (rule nth_equalityI)
  have "ofs < dlength d" using c by simp
  from inode_ok_sector(3) [OF ok this] c
  show "length (take c (drop ofs (contents s d))) =
      length (take c (drop (ofs mod 512) (disk s ! data_sector s d (ofs div 512))))" by simp
  fix i assume "i < length (take c (drop ofs (contents s d)))"
  then have i: "i < c" by simp
  then show "take c (drop ofs (contents s d)) ! i = take c (drop (ofs mod 512) (disk s ! data_sector s d (ofs div 512))) ! i"
    using c inode_ok_sector(3) [OF ok \<open>ofs < dlength d\<close>] div_mod_chunk [OF i c(1)] by (simp add: file_byte_def)
qed

subsection \<open>Reading\<close>

definition chunk :: "inode_disk \<Rightarrow> nat \<Rightarrow> nat \<Rightarrow> nat" where
  "chunk d sz ofs = min sz (min (dlength d - ofs) (512 - ofs mod 512))"

lemma chunk_eq:
  "(if sz < (if dlength d - ofs < 512 - ofs mod 512 then dlength d - ofs else 512 - ofs mod 512) then sz
    else (if dlength d - ofs < 512 - ofs mod 512 then dlength d - ofs else 512 - ofs mod 512)) = chunk d sz ofs"
  by (auto simp: chunk_def)

lemma chunk_bounds:
  assumes "ofs < dlength d" and "0 < sz"
  shows "0 < chunk d sz ofs" and "chunk d sz ofs \<le> sz" and "chunk d sz ofs \<le> 512 - ofs mod 512"
    and "ofs + chunk d sz ofs \<le> dlength d"
proof -
  have "ofs mod 512 < 512" by simp
  with assms show "0 < chunk d sz ofs" unfolding chunk_def by simp
  show "chunk d sz ofs \<le> sz" "chunk d sz ofs \<le> 512 - ofs mod 512" "ofs + chunk d sz ofs \<le> dlength d"
    using assms by (auto simp: chunk_def)
qed

lemma read_loop_end:
  assumes "dlength d \<le> ofs"
  shows "read_loop s d sz ofs = Some []"
  using assms by (subst read_loop.simps) (simp add: byte_to_sector_beyond Let_def)

lemma read_loop_step:
  assumes ok: "inode_ok s d" and o: "ofs < dlength d" and sz: "0 < sz"
  shows "read_loop s d sz ofs = do {
    rest \<leftarrow> read_loop s d (sz - chunk d sz ofs) (ofs + chunk d sz ofs);
    Some (take (chunk d sz ofs) (drop (ofs mod 512) (disk s ! data_sector s d (ofs div 512))) @ rest) }"
proof -
  have h: "heap_ok s" using ok by (simp add: inode_ok_def)
  define c where "c = chunk d sz ofs"
  have c: "c \<noteq> 0" "sz \<noteq> 0" using chunk_bounds [OF o sz] sz by (simp_all add: c_def)
  note n = inode_ok_sector [OF ok o]
  have r: "read_loop s d sz ofs = (if ofs mod 512 = 0 \<and> c = 512
      then do { bytes \<leftarrow> Some (disk s ! data_sector s d (ofs div 512)); rest \<leftarrow> read_loop s d (sz - c) (ofs + c); Some (bytes @ rest) }
      else do { bounce \<leftarrow> Some (disk s ! data_sector s d (ofs div 512)); rest \<leftarrow> read_loop s d (sz - c) (ofs + c);
        Some (take c (drop (ofs mod 512) bounce) @ rest) })"
    unfolding read_loop.simps [of s d sz ofs] Let_def BLOCK_SECTOR_SIZE_def chunk_eq c_def [symmetric] n(1)
      block_read_def
    using c n(2) h by (simp only: bind.bind_lunit if_False ASSERT_simps simp_thms)
  show ?thesis unfolding r c_def [symmetric] using n(3) by simp
qed

lemma read_loop_contents:
  "inode_ok s d \<Longrightarrow> read_loop s d sz ofs = Some (take sz (drop ofs (contents s d)))"
proof (induction sz arbitrary: ofs rule: less_induct)
  case (less sz)
  show ?case
  proof (cases "ofs < dlength d \<and> 0 < sz")
    case True
    note c = chunk_bounds [OF conjunct1 [OF True] conjunct2 [OF True]]
    have "read_loop s d (sz - chunk d sz ofs) (ofs + chunk d sz ofs) =
        Some (take (sz - chunk d sz ofs) (drop (ofs + chunk d sz ofs) (contents s d)))"
      using less c True by simp
    with True less.prems show ?thesis
      by (simp add: read_loop_step contents_chunk [OF less.prems c(3,4,1), symmetric] take_drop_split [OF c(2)])
  next
    case False
    then show ?thesis
      by (cases "sz = 0") (simp_all add: read_loop_end read_loop.simps [of s d 0])
  qed
qed

lemma inode_read_at_contents:
  assumes "inode_ok s (data (inodes s ! i))"
  shows "inode_read_at s i sz ofs = Some (take sz (drop ofs (contents s (data (inodes s ! i)))))"
  using assms by (simp add: inode_read_at_def read_loop_contents inode_length_def)

subsection \<open>Writing\<close>

text \<open>One round of the loop: a part of one sector is overwritten.\<close>

definition put_chunk :: "fs \<Rightarrow> inode_disk \<Rightarrow> nat \<Rightarrow> u8 list \<Rightarrow> fs" where
  "put_chunk s d ofs ys =
     s\<lparr>disk := (disk s)[data_sector s d (ofs div 512) :=
       patch (disk s ! data_sector s d (ofs div 512)) (ofs mod 512) ys]\<rparr>"

lemma write_loop_step:
  assumes ok: "inode_ok s d" and o: "ofs < dlength d" and b: "buf \<noteq> []" and c_def: "c = chunk d (length buf) ofs"
  shows "write_loop s d buf ofs = do {
    (n, s) \<leftarrow> write_loop (put_chunk s d ofs (take c buf)) d (drop c buf) (ofs + c);
    Some (n + c, s) }"
proof -
  have h: "heap_ok s" using ok by (simp add: inode_ok_def)
  let ?n = "data_sector s d (ofs div 512)"
  have c: "0 < c" "c \<le> length buf" "c \<le> 512 - ofs mod 512" using chunk_bounds [OF o, of "length buf"] b c_def by auto
  note n = inode_ok_sector [OF ok o]
  let ?p = "patch (disk s ! ?n) (ofs mod 512) (take c buf)"
  let ?k = "\<lambda>s. do { (n, s) \<leftarrow> write_loop s d (drop c buf) (ofs + c); Some (n + c, s) }"
  have p: "take 512 ?p = ?p" using c n(3) by simp
  have w: "write_loop s d buf ofs = (if ofs mod 512 = 0 \<and> c = 512
      then ?k (s\<lparr>disk := (disk s)[?n := take 512 buf]\<rparr>)
      else do {
        bounce \<leftarrow> (if ofs mod 512 > 0 \<or> c < 512 - ofs mod 512 then Some (disk s ! ?n) else Some zeros);
        ?k (s\<lparr>disk := (disk s)[?n := take 512 (take (ofs mod 512) bounce @ take c buf @ drop (ofs mod 512 + c) bounce)]\<rparr>) })"
    unfolding write_loop.simps [of s d buf ofs] Let_def BLOCK_SECTOR_SIZE_def chunk_eq c_def [symmetric] n(1)
      block_read_def block_write_def
    using c(1) b n(2) h by (simp only: bind.bind_lunit if_False ASSERT_simps simp_thms neq0_conv less_not_refl3 split: if_split) simp
  show ?thesis
  proof (cases "ofs mod 512 = 0 \<and> c = 512")
    case True
    then have "?p = take 512 buf" using n(3) c(2) by (simp add: patch_def)
    with True show ?thesis unfolding w put_chunk_def by simp
  next
    case False
    then have g: "ofs mod 512 > 0 \<or> c < 512 - ofs mod 512" using c(3) by auto
    have q: "take (ofs mod 512) (disk s ! ?n) @ take c buf @ drop (ofs mod 512 + c) (disk s ! ?n) = ?p"
      using c(2) by (simp add: patch_def)
    show ?thesis
      unfolding w put_chunk_def if_not_P [OF False] if_P [OF g] by (simp only: bind.bind_lunit q p)
  qed
qed

lemma write_loop_Nil [simp]: "write_loop s d [] ofs = Some (0, s)"
  by (simp add: write_loop.simps)

lemma put_chunk_simps [simp]:
  "heap_ok (put_chunk s d ofs ys) = heap_ok s" "length (disk (put_chunk s d ofs ys)) = length (disk s)"
  "inodes (put_chunk s d ofs ys) = inodes s" "free_map (put_chunk s d ofs ys) = free_map s"
  by (simp_all add: put_chunk_def)

lemma nth_put_chunk: "n \<noteq> data_sector s d (ofs div 512) \<Longrightarrow> disk (put_chunk s d ofs ys) ! n = disk s ! n"
  by (simp add: put_chunk_def)

lemma put_chunk_ok:
  assumes ok: "inode_ok s d" and sep: "separate s d" and o: "ofs < dlength d"
    and ys: "ofs mod 512 + length ys \<le> 512" "ofs + length ys \<le> dlength d"
  shows "k < nsectors d \<Longrightarrow> data_sector (put_chunk s d ofs ys) d k = data_sector s d k"
    and "inode_ok (put_chunk s d ofs ys) d" and "separate (put_chunk s d ofs ys) d"
    and "contents (put_chunk s d ofs ys) d = patch (contents s d) ofs ys"
proof -
  let ?s = "put_chunk s d ofs ys" and ?n = "data_sector s d (ofs div 512)"
  note n = inode_ok_sector [OF ok o]
  have k0: "ofs div 512 < nsectors d" using o by (rule nsectors_div)
  have idx: "?n \<notin> index_used s d k" if "k < nsectors d" for k
    using sep k0 that by (simp add: separate_def)
  have same: "disk ?s ! n = disk s ! n" if "k < nsectors d" "n \<in> index_used s d k" for k n
    using idx [OF that(1)] that(2) by (intro nth_put_chunk) auto
  show ds: "data_sector ?s d k = data_sector s d k" if "k < nsectors d" for k
    by (rule data_sector_cong) (rule same [OF that])
  have iu: "index_used ?s d k = index_used s d k" if "k < nsectors d" for k
    by (rule index_used_cong) (rule same [OF that])
  have len: "\<forall>b \<in> set (disk ?s). length b = 512"
    using ok n(3) ys unfolding put_chunk_def inode_ok_def by (auto dest!: set_update_subset_insert [THEN subsetD])
  then show "inode_ok ?s d" using ok ds iu by (simp add: inode_ok_def)
  show "separate ?s d"
    unfolding separate_def using sep ds iu by (auto simp: separate_def inj_on_def)
  show "contents ?s d = patch (contents s d) ofs ys"
  proof (rule nth_equalityI)
    fix p assume "p < length (contents ?s d)"
    then have p: "p < dlength d" by simp
    then have kp: "p div 512 < nsectors d" by (rule nsectors_div)
    have "contents ?s d ! p = disk ?s ! data_sector s d (p div 512) ! (p mod 512)"
      using p ds [OF kp] by (simp add: file_byte_def)
    also have "\<dots> = patch (contents s d) ofs ys ! p"
    proof (cases "p div 512 = ofs div 512")
      case True
      have e: "p = 512 * (ofs div 512) + p mod 512" using True by (metis mult_div_mod_eq)
      have f: "ofs = 512 * (ofs div 512) + ofs mod 512" by simp
      have "ofs \<le> p \<longleftrightarrow> ofs mod 512 \<le> p mod 512" "p < ofs + length ys \<longleftrightarrow> p mod 512 < ofs mod 512 + length ys"
        "p - ofs = p mod 512 - ofs mod 512"
        using e f by linarith+
      with True p n ys show ?thesis
        by (simp add: put_chunk_def nth_patch file_byte_def)
    next
      case False
      then have "data_sector s d (p div 512) \<noteq> ?n"
        using sep kp k0 by (auto simp: separate_def inj_on_def)
      moreover have "\<not> (ofs \<le> p \<and> p < ofs + length ys)"
      proof
        assume "ofs \<le> p \<and> p < ofs + length ys"
        then have "(ofs + (p - ofs)) div 512 = ofs div 512"
          using ys by (intro div_mod_chunk(1) [of _ "length ys"]) auto
        with False \<open>ofs \<le> p \<and> _\<close> show False by simp
      qed
      ultimately show ?thesis
        using p ys by (auto simp: nth_put_chunk nth_patch file_byte_def)
    qed
    finally show "contents ?s d ! p = patch (contents s d) ofs ys ! p" .
  qed (use ys in simp)
qed

text \<open>\<open>disk_only s s' S\<close>: the states differ only in the content of the sectors \<open>S\<close>.\<close>

definition disk_only :: "fs \<Rightarrow> fs \<Rightarrow> nat set \<Rightarrow> bool" where
  "disk_only s s' S \<longleftrightarrow> s' = s\<lparr>disk := disk s'\<rparr> \<and> length (disk s') = length (disk s)
     \<and> (\<forall>n. n \<notin> S \<longrightarrow> disk s' ! n = disk s ! n)"

definition data_sectors :: "fs \<Rightarrow> inode_disk \<Rightarrow> nat set" where
  "data_sectors s d = data_sector s d ` {..<nsectors d}"

lemma disk_only_refl [simp]: "disk_only s s S"
  by (simp add: disk_only_def)

lemma disk_only_trans: "disk_only s s1 S \<Longrightarrow> disk_only s1 s2 S \<Longrightarrow> disk_only s s2 S"
  unfolding disk_only_def by (metis fs.surjective fs.update_convs(1))

lemma disk_only_mono: "disk_only s s' S \<Longrightarrow> S \<subseteq> T \<Longrightarrow> disk_only s s' T"
  by (auto simp: disk_only_def)

lemma put_chunk_disk_only:
  assumes "ofs < dlength d"
  shows "disk_only s (put_chunk s d ofs ys) (data_sectors s d)"
proof -
  have "data_sector s d (ofs div 512) \<in> data_sectors s d"
    using nsectors_div [OF assms] by (simp add: data_sectors_def)
  then have "disk (put_chunk s d ofs ys) ! n = disk s ! n" if "n \<notin> data_sectors s d" for n
    using that by (intro nth_put_chunk) auto
  then show ?thesis by (simp add: disk_only_def) (simp add: put_chunk_def)
qed

lemma write_loop_contents:
  assumes "inode_ok s d" and "separate s d" and "ofs + length buf \<le> dlength d"
  shows "\<exists>s'. write_loop s d buf ofs = Some (length buf, s') \<and> contents s' d = patch (contents s d) ofs buf
    \<and> inode_ok s' d \<and> separate s' d \<and> disk_only s s' (data_sectors s d)"
  using assms
proof (induction buf arbitrary: s ofs rule: length_induct)
  case (1 buf)
  show ?case
  proof (cases "buf = []")
    case True
    with 1 show ?thesis by simp
  next
    case False
    define c where "c = chunk d (length buf) ofs"
    let ?s = "put_chunk s d ofs (take c buf)"
    have o: "ofs < dlength d" using False 1 by (cases buf) auto
    have c: "0 < c" "c \<le> length buf" "c \<le> 512 - ofs mod 512"
      using chunk_bounds [OF o, of "length buf"] False by (simp_all add: c_def)
    then have y: "ofs mod 512 + length (take c buf) \<le> 512" "ofs + length (take c buf) \<le> dlength d"
      using 1(4) mod_less_divisor [of 512 ofs] by auto
    note pc = put_chunk_ok [OF 1(2,3) o y]
    have "length (drop c buf) < length buf" "ofs + c + length (drop c buf) \<le> dlength d"
      using c 1(4) by auto
    with 1(1) pc(2,3) obtain s' where s': "write_loop ?s d (drop c buf) (ofs + c) = Some (length (drop c buf), s')"
      "contents s' d = patch (contents ?s d) (ofs + c) (drop c buf)" "inode_ok s' d" "separate s' d"
      "disk_only ?s s' (data_sectors ?s d)" by blast
    have "data_sectors ?s d = data_sectors s d"
      unfolding data_sectors_def using pc(1) by (intro image_cong) simp_all
    with s'(5) put_chunk_disk_only [OF o] have "disk_only s s' (data_sectors s d)" using disk_only_trans by metis
    moreover have "contents s' d = patch (contents s d) ofs buf"
      using patch_append [of ofs "take c buf" "drop c buf" "contents s d"] c 1(4)
      by (simp add: s'(2) pc(4) min_absorb2)
    ultimately show ?thesis
      using write_loop_step [OF 1(2) o False c_def] s' c by auto
  qed
qed

lemma inode_ok_separate_frame:
  assumes "inode_ok s d" and "disk_only s s' S" and "\<And>b. b \<in> set (disk s') \<Longrightarrow> length b = 512"
    and "S \<inter> data_sectors s d = {}" and "\<And>k. k < nsectors d \<Longrightarrow> S \<inter> index_used s d k = {}"
  shows "inode_ok s' d \<and> contents s' d = contents s d"
proof -
  have s': "heap_ok s' = heap_ok s" "length (disk s') = length (disk s)" "\<And>n. n \<notin> S \<Longrightarrow> disk s' ! n = disk s ! n"
    using assms(2) unfolding disk_only_def by (metis fs.select_convs(7) fs.surjective fs.update_convs(1), auto)
  have same: "disk s' ! n = disk s ! n" if "k < nsectors d" "n \<in> index_used s d k" for k n
    using assms(5) [OF that(1)] that(2) by (intro s'(3)) auto
  have at: "data_sector s' d k = data_sector s d k" "index_used s' d k = index_used s d k" if "k < nsectors d" for k
    using data_sector_cong [OF same [OF that]] index_used_cong [OF same [OF that]] by simp_all
  then have "inode_ok s' d" using assms(1,3) s' by (simp add: inode_ok_def)
  moreover have "contents s' d = contents s d"
  proof (rule nth_equalityI)
    fix p assume "p < length (contents s' d)"
    then have p: "p < dlength d" by simp
    then have k: "p div 512 < nsectors d" by (rule nsectors_div)
    then have "data_sector s d (p div 512) \<notin> S" using assms(4) by (auto simp: data_sectors_def)
    with p at(1) [OF k] s'(3) show "contents s' d ! p = contents s d ! p"
      by (simp add: file_byte_def)
  qed simp
  ultimately show ?thesis ..
qed

subsection \<open>Properties\<close>

text \<open>
  A disk of 4 sectors: sector 2 has the inode of a file of 600 bytes whose data are in the sectors 3
  and 1.
\<close>

definition demo_inode :: inode_disk where
  "demo_inode = \<lparr>dlength = 600, magic = INODE_MAGIC, is_dir_flag = False, parent_dir = 1,
     direct_block_sectors = [3, 1] @ replicate 120 0, indirect_block_sector = 0, doubly_indirect_block_sector = 0\<rparr>"

definition demo_fs :: fs where
  "demo_fs = \<lparr>disk = [zeros, replicate 512 1, zeros, replicate 512 3], free_map = \<lparr>bit_cnt = 4, bits = [15]\<rparr>,
     free_map_file = None, inodes = [\<lparr>sector = 2, open_cnt = 1, removed = False, deny_write_cnt = 0, data = demo_inode\<rparr>],
     open_inodes = [0], current_working_dir = 1, heap_ok = True\<rparr>"

lemma demo_sectors: "nsectors demo_inode = 2" "data_sector demo_fs demo_inode 0 = 3" "data_sector demo_fs demo_inode 1 = 1"
  by (simp_all add: nsectors_def bytes_to_sectors_def data_sector_def inode_consts demo_inode_def)

lemma demo_inode_ok: "inode_ok demo_fs demo_inode" "separate demo_fs demo_inode"
proof -
  have two: "k < 2 \<longleftrightarrow> k = 0 \<or> k = 1" for k :: nat by auto
  show "inode_ok demo_fs demo_inode"
    using demo_sectors by (auto simp: inode_ok_def two index_used_def) (simp_all add: demo_fs_def zeros_def BLOCK_SECTOR_SIZE_def, auto)
  have "{..<2::nat} = {0, 1}" by auto
  then show "separate demo_fs demo_inode"
    using demo_sectors by (auto simp: separate_def two index_used_def inj_on_def)
qed

text \<open>
  C10. \<^verbatim>\<open>inode_read_at\<close>: for a file with direct, indirect or doubly indirect blocks whose sectors are on the
  disk, the chunked reading through the sectors ends without a panic and returns exactly the bytes of
  the file from the offset on, as many as were asked for or as the file has. The bytes of a file are those of its blocks in the order of the
  layout (\<open>data_sector\<close>): first the direct blocks, then those of the indirect block, then those of the index blocks in the doubly indirect one.
\<close>

theorem inode_read_at_bytes:
  assumes "inode_ok s (data (inodes s ! i))"
  shows "inode_read_at s i sz ofs = Some (take sz (drop ofs (contents s (data (inodes s ! i)))))"
  using assms by (rule inode_read_at_contents)

theorem inode_read_at_bytes_witness:
  "inode_read_at demo_fs 0 1 512 = Some [1]"
proof -
  have "data (inodes demo_fs ! 0) = demo_inode" by (simp add: demo_fs_def)
  with inode_read_at_bytes [of demo_fs 0 1 512] demo_inode_ok(1)
  have "inode_read_at demo_fs 0 1 512 = Some (take 1 (drop 512 (contents demo_fs demo_inode)))" by simp
  moreover have "512 < dlength demo_inode" by (simp add: demo_inode_def)
  then have "take 1 (drop 512 (contents demo_fs demo_inode)) = [file_byte demo_fs demo_inode 512]"
    by (simp add: take_Suc hd_drop_conv_nth)
  moreover have "file_byte demo_fs demo_inode 512 = 1"
    using demo_sectors by (simp add: file_byte_def) (simp add: demo_fs_def)
  ultimately show ?thesis by simp
qed

text \<open>
  C3. \<^verbatim>\<open>inode_write_at\<close> inside of a file: the call returns the number of bytes asked for, the content of the
  file is then the old content with these bytes in place of the old ones, nothing in the state has
  changed but the sectors of the file, and reading the same range back gives the bytes written.
\<close>

theorem inode_write_at_overwrites:
  assumes d: "d = data (inodes s ! i)" and ok: "inode_ok s d" "separate s d"
    and w: "deny_write_cnt (inodes s ! i) = 0" and len: "ofs + length buf \<le> dlength d" "0 < dlength d"
  shows "\<exists>s'. inode_write_at s i buf ofs = Some (length buf, s') \<and> contents s' d = patch (contents s d) ofs buf
    \<and> disk_only s s' (data_sectors s d) \<and> inode_read_at s' i (length buf) ofs = Some buf"
proof -
  have "(ofs + length buf - 1) div 512 \<le> dlength d div 512" using len by (intro div_le_mono) simp
  then have "inode_write_at s i buf ofs = write_loop s d buf ofs"
    using w len by (simp add: inode_write_at_def inode_write_at_with_def d [symmetric] inode_length_def BLOCK_SECTOR_SIZE_def)
  moreover obtain s' where s': "write_loop s d buf ofs = Some (length buf, s')" "contents s' d = patch (contents s d) ofs buf"
    "inode_ok s' d" "disk_only s s' (data_sectors s d)"
    using write_loop_contents [OF ok len(1)] by blast
  moreover have "inodes s' = inodes s"
    using s'(4) unfolding disk_only_def by (metis fs.select_convs(4) fs.surjective fs.update_convs(1))
  then have "data (inodes s' ! i) = d" using d by simp
  then have "inode_read_at s' i (length buf) ofs = Some buf"
    using s'(2,3) len(1) inode_read_at_contents [of s' i "length buf" ofs] by (simp add: take_drop_patch)
  ultimately show ?thesis by auto
qed

theorem inode_write_at_overwrites_witness:
  "\<exists>s'. inode_write_at demo_fs 0 [7, 8, 9] 511 = Some (3, s') \<and> inode_read_at s' 0 3 511 = Some [7, 8, 9]"
proof -
  have d: "demo_inode = data (inodes demo_fs ! 0)" "deny_write_cnt (inodes demo_fs ! 0) = 0" by (simp_all add: demo_fs_def)
  have "511 + length [7, 8, 9 :: u8] \<le> dlength demo_inode" "0 < dlength demo_inode" by (simp_all add: demo_inode_def)
  from inode_write_at_overwrites [OF d(1) demo_inode_ok d(2) this] show ?thesis by (auto simp: numeral_3_eq_3)
qed

end
