(* ===== verification/FreeMap.thy ===== *)
theory FreeMap
  imports InodeData
begin

text \<open>
  The free map of \<^verbatim>\<open>filesys/free-map.c\<close> with its file on disk: opening, creating and closing it, and what
  an allocation or a release does to the map in memory and to the map on disk. With an open free map
  file that is as long as the map (\<open>free_map_ready\<close>) the functions fulfil the contract of an allocator
  of units, and after each of them the file holds the map.
\<close>

subsection \<open>Opening and creating\<close>

definition file_open :: "fs \<Rightarrow> nat option \<Rightarrow> (file_t option \<times> fs) option" where
  "file_open s p =
     (case p of
        Some i \<Rightarrow>
          if heap_ok s then Some (Some \<lparr>file_inode = i, pos = 0, deny_write = False\<rparr>, s)
          else do { s \<leftarrow> inode_close s (Some i); Some (None, s) }
      | None \<Rightarrow> Some (None, s))"

definition free_map_open :: "fs \<Rightarrow> fs option" where
  "free_map_open s = do {
     (p, s) \<leftarrow> inode_open s FREE_MAP_SECTOR;
     (f, s) \<leftarrow> file_open s p;
     f \<leftarrow> f;
     let s = s\<lparr>free_map_file := Some f\<rparr>;
     bytes \<leftarrow> inode_read_at s (file_inode f) (bitmap_file_size (free_map s)) 0;
     (ok, b) \<leftarrow> bitmap_read (\<lambda>sz ofs. bytes) (free_map s);
     ASSERT ok;
     Some (s\<lparr>free_map := b\<rparr>) }"

definition free_map_create :: "fs \<Rightarrow> fs option" where
  "free_map_create s = do {
     (ok, s) \<leftarrow> inode_create s FREE_MAP_SECTOR (bitmap_file_size (free_map s)) False;
     ASSERT ok;
     (p, s) \<leftarrow> inode_open s FREE_MAP_SECTOR;
     (f, s) \<leftarrow> file_open s p;
     f \<leftarrow> f;
     let s = s\<lparr>free_map_file := Some f\<rparr>;
     (ok, s) \<leftarrow> write_free_map inode_write_at f s;
     ASSERT ok;
     Some s }"

subsection \<open>The map in memory and on disk\<close>

definition map_data :: "fs \<Rightarrow> inode_disk" where
  "map_data s = data (inodes s ! file_inode (the (free_map_file s)))"

definition free_map_ready :: "fs \<Rightarrow> bool" where
  "free_map_ready s \<longleftrightarrow> free_map_file s \<noteq> None
     \<and> bitmap_wf (free_map s) \<and> length (bits (free_map s)) = elem_cnt (bit_cnt (free_map s)) \<and> 0 < bit_cnt (free_map s)
     \<and> inode_ok s (map_data s) \<and> separate s (map_data s)
     \<and> dlength (map_data s) = bitmap_file_size (free_map s)
     \<and> deny_write_cnt (inodes s ! file_inode (the (free_map_file s))) = 0"

definition free_map_synced :: "fs \<Rightarrow> bool" where
  "free_map_synced s \<longleftrightarrow> contents s (map_data s) = u32s_bytes (bits (free_map s))"

lemma bitmap_set_length: "bitmap_set b i v = Some b' \<Longrightarrow> length (bits b') = length (bits b)"
  by (auto simp: bitmap_set_def bitmap_mark_def bitmap_reset_def update_elem_def panic_simps split: if_splits)

lemma bitmap_set_multiple_length:
  assumes "bitmap_set_multiple b start cnt v = Some b'"
  shows "length (bits b') = length (bits b)"
proof -
  have "foldM (\<lambda>i b. bitmap_set b (wrap32 (start + i)) v) xs b = Some b' \<Longrightarrow> length (bits b') = length (bits b)" for xs
    by (induction xs arbitrary: b) (auto simp: bind_Some_iff dest: bitmap_set_length)
  with assms show ?thesis
    by (auto simp: bitmap_set_multiple_def panic_simps for_range_def split: if_splits)
qed

lemma bitmap_scan_and_flip_length:
  "bitmap_scan_and_flip b start cnt v = Some (i, b') \<Longrightarrow> length (bits b') = length (bits b)"
  by (auto simp: bitmap_scan_and_flip_def bind_Some_iff dest: bitmap_set_multiple_length split: if_splits)

lemma byte_cnt_bits:
  assumes "bitmap_wf b" and "length (bits b) = elem_cnt (bit_cnt b)"
  shows "length (u32s_bytes (bits b)) = byte_cnt (bit_cnt b)"
  using assms by (simp add: bitmap_wf_def byte_cnt_def elem_cnt_eq)

lemma byte_cnt_pos: "0 < n \<Longrightarrow> n + 32 \<le> 4294967296 \<Longrightarrow> 0 < byte_cnt n"
  by (simp add: byte_cnt_def elem_cnt_eq)

text \<open>A write of the map that fits into its file does not extend it.\<close>

lemma write_free_map_eq:
  assumes r: "free_map_ready s" and f: "free_map_file s = Some f"
  shows "\<exists>s'. write_free_map (inode_write_at_with ext) f s = Some (True, s') \<and> free_map_ready s' \<and> free_map_synced s'
    \<and> disk_only s s' (data_sectors s (map_data s))"
proof -
  let ?d = "map_data s" and ?i = "file_inode f" and ?buf = "u32s_bytes (bits (free_map s))"
  have d: "?d = data (inodes s ! ?i)" by (simp add: map_data_def f)
  have ok: "inode_ok s ?d" "separate s ?d" "deny_write_cnt (inodes s ! ?i) = 0" and wf: "bitmap_wf (free_map s)"
    using r f by (simp_all add: free_map_ready_def)
  have buf: "length ?buf = byte_cnt (bit_cnt (free_map s))" and len: "dlength ?d = byte_cnt (bit_cnt (free_map s))"
    using r byte_cnt_bits by (simp_all add: free_map_ready_def bitmap_file_size_def)
  have pos: "0 < dlength ?d" unfolding len using r by (intro byte_cnt_pos) (auto simp: free_map_ready_def bitmap_wf_def)
  obtain s' where s': "write_loop s ?d ?buf 0 = Some (length ?buf, s')" "contents s' ?d = patch (contents s ?d) 0 ?buf"
    "inode_ok s' ?d" "separate s' ?d" "disk_only s s' (data_sectors s ?d)"
    using write_loop_contents [OF ok(1,2), of 0 ?buf] buf len by auto
  have same: "inodes s' = inodes s" "free_map_file s' = free_map_file s" "free_map s' = free_map s"
    using s'(5) unfolding disk_only_def
    by (metis fs.select_convs(4) fs.surjective fs.update_convs(1), metis fs.select_convs(3) fs.surjective fs.update_convs(1),
        metis fs.select_convs(2) fs.surjective fs.update_convs(1))
  have md: "map_data s' = ?d" by (simp add: map_data_def same)
  have "(dlength ?d - 1) div 512 \<le> dlength ?d div 512" by (intro div_le_mono) simp
  then have "inode_write_at_with ext s ?i ?buf 0 = write_loop s ?d ?buf 0"
    using ok(3) buf len pos by (simp add: inode_write_at_with_def d [symmetric] inode_length_def BLOCK_SECTOR_SIZE_def)
  then have "write_free_map (inode_write_at_with ext) f s = Some (True, s')"
    using s'(1) buf by (simp add: write_free_map_def bitmap_write_def Let_def)
  moreover have "free_map_synced s'"
    using s'(2) buf len by (simp add: free_map_synced_def md same patch_def)
  moreover have "free_map_ready s'" using r s'(3,4) by (simp add: free_map_ready_def md same)
  ultimately show ?thesis using s'(5) by blast
qed

subsection \<open>Allocation and release\<close>

lemma disk_only_fields:
  assumes "disk_only s s' S"
  shows "free_map s' = free_map s" "free_map_file s' = free_map_file s" "inodes s' = inodes s"
    "open_inodes s' = open_inodes s" "heap_ok s' = heap_ok s" "map_data s' = map_data s"
    "current_working_dir s' = current_working_dir s" "length (disk s') = length (disk s)"
proof -
  have e: "s' = s\<lparr>disk := disk s'\<rparr>" using assms by (simp add: disk_only_def)
  show "free_map s' = free_map s" "free_map_file s' = free_map_file s" "inodes s' = inodes s"
    "open_inodes s' = open_inodes s" "heap_ok s' = heap_ok s" "map_data s' = map_data s"
    "current_working_dir s' = current_working_dir s"
    unfolding map_data_def by (subst e, simp)+
  show "length (disk s') = length (disk s)" using assms by (simp add: disk_only_def)
qed

lemma with_map_simps [simp]:
  "map_data (s\<lparr>free_map := b\<rparr>) = map_data s" "data_sector (s\<lparr>free_map := b\<rparr>) d k = data_sector s d k"
  "inode_ok (s\<lparr>free_map := b\<rparr>) d = inode_ok s d" "contents (s\<lparr>free_map := b\<rparr>) d = contents s d"
  "separate (s\<lparr>free_map := b\<rparr>) d = separate s d" "data_sectors (s\<lparr>free_map := b\<rparr>) d = data_sectors s d"
proof -
  show at: "data_sector (s\<lparr>free_map := b\<rparr>) d k = data_sector s d k" for k by (rule data_sector_cong) simp
  then have ds: "data_sector (s\<lparr>free_map := b\<rparr>) d = data_sector s d" by (simp add: fun_eq_iff)
  have iu: "index_used (s\<lparr>free_map := b\<rparr>) d k = index_used s d k" for k by (simp add: index_used_def)
  show "map_data (s\<lparr>free_map := b\<rparr>) = map_data s" by (simp add: map_data_def)
  show "inode_ok (s\<lparr>free_map := b\<rparr>) d = inode_ok s d" by (simp add: inode_ok_def ds iu)
  show "contents (s\<lparr>free_map := b\<rparr>) d = contents s d" by (simp add: contents_def file_byte_def ds)
  show "separate (s\<lparr>free_map := b\<rparr>) d = separate s d" by (simp add: separate_def ds iu)
  show "data_sectors (s\<lparr>free_map := b\<rparr>) d = data_sectors s d" by (simp add: data_sectors_def ds)
qed

lemma free_map_ready_with:
  assumes "free_map_ready s" and "bitmap_wf b" and "bit_cnt b = bit_cnt (free_map s)" and "length (bits b) = length (bits (free_map s))"
  shows "free_map_ready (s\<lparr>free_map := b\<rparr>)"
  using assms by (auto simp: free_map_ready_def bitmap_file_size_def)

text \<open>
  An allocation with the map's file open: the first free group, taken in memory and written to the
  file; or nothing, when there is no such group. The file is never extended, so that the function is
  the same with and without \<^verbatim>\<open>extend_lock\<close>.
\<close>

lemma free_map_allocate_cases:
  assumes r: "free_map_ready s"
  obtains (none) "free_map_allocate_with (inode_write_at_with ext) s cnt = Some (None, s)"
      "take_units (free_map s) cnt = (None, free_map s)"
    | (sector) i b s' where "free_map_allocate_with (inode_write_at_with ext) s cnt = Some (Some i, s')"
      "take_units (free_map s) cnt = (Some i, b)" "free_map s' = b" "free_map_ready s'" "free_map_synced s'"
      "disk_only (s\<lparr>free_map := b\<rparr>) s' (data_sectors s (map_data s))"
proof -
  have wf: "bitmap_wf (free_map s)" using r by (simp add: free_map_ready_def)
  obtain f where f: "free_map_file s = Some f" using r by (auto simp: free_map_ready_def)
  from wf show thesis
  proof (rule bitmap_scan_and_flip_cases [where start = 0 and cnt = cnt and v = False])
    assume "bitmap_scan_and_flip (free_map s) 0 cnt False = Some (BITMAP_ERROR, free_map s)"
    then show thesis by (intro none) (simp_all add: free_map_allocate_with_def take_units_def)
  next
    fix i b
    assume b: "bitmap_scan_and_flip (free_map s) 0 cnt False = Some (i, b)" "i \<noteq> BITMAP_ERROR" "bitmap_wf b" "bit_cnt b = bit_cnt (free_map s)"
    have "free_map_ready (s\<lparr>free_map := b\<rparr>)"
      using r b(3,4) bitmap_scan_and_flip_length [OF b(1)] by (rule free_map_ready_with)
    from write_free_map_eq [OF this, of f ext] f
    obtain s' where s': "write_free_map (inode_write_at_with ext) f (s\<lparr>free_map := b\<rparr>) = Some (True, s')" "free_map_ready s'"
      "free_map_synced s'" "disk_only (s\<lparr>free_map := b\<rparr>) s' (data_sectors s (map_data s))"
      by auto
    have "free_map s' = b" using disk_only_fields(1) [OF s'(4)] by simp
    with b s' f show thesis
      by (intro sector [of i s' b]) (simp_all add: free_map_allocate_with_def take_units_def)
  qed simp
qed

lemma free_map_release_eq:
  assumes r: "free_map_ready s"
  shows "case give_units (free_map s) i n of
      None \<Rightarrow> free_map_release_with (inode_write_at_with ext) s i n = None
    | Some b \<Rightarrow> bitmap_wf b \<longrightarrow> bit_cnt b = bit_cnt (free_map s) \<longrightarrow>
        (\<exists>s'. free_map_release_with (inode_write_at_with ext) s i n = Some s' \<and> free_map s' = b \<and> free_map_ready s'
          \<and> free_map_synced s' \<and> disk_only (s\<lparr>free_map := b\<rparr>) s' (data_sectors s (map_data s)))"
proof (cases "give_units (free_map s) i n")
  case None
  then show ?thesis
    by (auto simp: give_units_def free_map_release_with_def panic_simps bind_eq_None_conv split: bind_splits if_splits)
next
  case (Some b)
  obtain f where f: "free_map_file s = Some f" using r by (auto simp: free_map_ready_def)
  have b: "bitmap_all (free_map s) i n = Some True" "bitmap_set_multiple (free_map s) i n False = Some b"
    using Some by (auto simp: give_units_def panic_simps bind_Some_iff split: if_splits)
  have "\<exists>s'. free_map_release_with (inode_write_at_with ext) s i n = Some s' \<and> free_map s' = b \<and> free_map_ready s'
      \<and> free_map_synced s' \<and> disk_only (s\<lparr>free_map := b\<rparr>) s' (data_sectors s (map_data s))"
    if "bitmap_wf b" "bit_cnt b = bit_cnt (free_map s)"
  proof -
    have "free_map_ready (s\<lparr>free_map := b\<rparr>)"
      using r that bitmap_set_multiple_length [OF b(2)] by (rule free_map_ready_with)
    from write_free_map_eq [OF this, of f ext] f
    obtain s' where s': "write_free_map (inode_write_at_with ext) f (s\<lparr>free_map := b\<rparr>) = Some (True, s')" "free_map_ready s'"
      "free_map_synced s'" "disk_only (s\<lparr>free_map := b\<rparr>) s' (data_sectors s (map_data s))"
      by auto
    then show ?thesis
      using b f disk_only_fields(1) [OF s'(4)] by (simp add: free_map_release_with_def)
  qed
  with Some show ?thesis by simp
qed

definition allocate_sectors :: "fs \<Rightarrow> nat \<Rightarrow> nat option \<times> fs" where
  "allocate_sectors s n = the (free_map_allocate s n)"

definition used_sectors :: "fs \<Rightarrow> nat set" where
  "used_sectors s = used_units (free_map s)"

interpretation sectors: region_allocator free_map_ready used_sectors "\<lambda>s. bit_cnt (free_map s)" allocate_sectors free_map_release
proof
  fix s s' i n
  assume r: "free_map_ready s"
  then have wf: "bitmap_wf (free_map s)" by (simp add: free_map_ready_def)
  show "used_sectors s \<subseteq> {..<bit_cnt (free_map s)}" unfolding used_sectors_def by (rule units.used_cap [OF wf])
  show "free_map_ready s' \<and> bit_cnt (free_map s') = bit_cnt (free_map s) \<and> i + n \<le> bit_cnt (free_map s)
      \<and> {i..<i + n} \<inter> used_sectors s = {} \<and> used_sectors s' = used_sectors s \<union> {i..<i + n}"
    if "allocate_sectors s n = (Some i, s')"
    by (rule free_map_allocate_cases [OF r, where ext = extend_file and cnt = n])
      (use that units.alloc_Some [OF wf, of n i "free_map s'"] in
        \<open>auto simp: allocate_sectors_def free_map_allocate_def inode_write_at_def [symmetric] used_sectors_def\<close>)
  show "s' = s \<and> (\<forall>i. i + n \<le> bit_cnt (free_map s) \<longrightarrow> {i..<i + n} \<inter> used_sectors s \<noteq> {})"
    if "allocate_sectors s n = (None, s')"
    by (rule free_map_allocate_cases [OF r, where ext = extend_file and cnt = n])
      (use that units.alloc_None [OF wf, of n "free_map s"] in
        \<open>auto simp: allocate_sectors_def free_map_allocate_def inode_write_at_def [symmetric] used_sectors_def\<close>)
  assume le: "i + n \<le> bit_cnt (free_map s)"
  show "\<exists>s'. free_map_release s i n = Some s' \<and> free_map_ready s' \<and> bit_cnt (free_map s') = bit_cnt (free_map s)
      \<and> used_sectors s' = used_sectors s - {i..<i + n}"
    if "{i..<i + n} \<subseteq> used_sectors s"
    using units.release_eq [OF wf le] that free_map_release_eq [OF r, where i = i and n = n and ext = extend_file]
    by (auto simp: free_map_release_def inode_write_at_def used_sectors_def)
  show "free_map_release s i n = None" if "\<not> {i..<i + n} \<subseteq> used_sectors s"
    using units.release_free [OF wf le] that free_map_release_eq [OF r, where i = i and n = n and ext = extend_file]
    by (auto simp: free_map_release_def inode_write_at_def used_sectors_def)
qed

lemma free_map_synced_read:
  assumes r: "free_map_ready s" and y: "free_map_synced s"
    and c: "bit_cnt c = bit_cnt (free_map s)" "length (bits c) = elem_cnt (bit_cnt (free_map s))"
  shows "\<exists>bytes c'. inode_read_at s (file_inode (the (free_map_file s))) (bitmap_file_size (free_map s)) 0 = Some bytes
    \<and> bitmap_read (\<lambda>sz ofs. bytes) c = Some (True, c') \<and> bits_of c' = bits_of (free_map s)"
proof -
  let ?i = "file_inode (the (free_map_file s))"
  have ok: "inode_ok s (data (inodes s ! ?i))" and wf: "bitmap_wf (free_map s)"
    and l: "length (bits (free_map s)) = elem_cnt (bit_cnt (free_map s))"
    using r by (simp_all add: free_map_ready_def map_data_def)
  have "inode_read_at s ?i (bitmap_file_size (free_map s)) 0 = Some (u32s_bytes (bits (free_map s)))"
    using inode_read_at_contents [OF ok] y byte_cnt_bits [OF wf l]
    by (simp add: free_map_synced_def map_data_def bitmap_file_size_def)
  moreover have "\<exists>c'. bitmap_read (\<lambda>sz ofs. u32s_bytes (bits (free_map s))) c = Some (True, c')
      \<and> bits_of c' = bits_of (free_map s) \<and> bitmap_wf c'"
    using byte_cnt_bits [OF wf l] by (intro bitmap_read_write [OF wf l c]) simp
  ultimately show ?thesis by auto
qed

text \<open>
  How many sectors \<^verbatim>\<open>free_indirect_block\<close> releases: in each round both the index and the number of sectors
  freed grow, so that the loop ends after half of the sectors that are left.
\<close>

definition released_cnt :: "nat \<Rightarrow> nat \<Rightarrow> nat" where
  "released_cnt f t = min 128 ((t - f + 1) div 2)"

lemma free_indirect_loop_releases:
  assumes "free_map_ready s" and "length blk = 128" and "distinct (take (released_cnt f t) blk)"
    and "set (drop j (take (released_cnt f t) blk)) \<subseteq> used_sectors s" and "j \<le> released_cnt f t"
  shows "\<exists>s'. free_indirect_loop j (f + j) t blk s = Some (f + released_cnt f t, s') \<and> free_map_ready s'
    \<and> used_sectors s' = used_sectors s - set (drop j (take (released_cnt f t) blk))"
  using assms
proof (induction "released_cnt f t - j" arbitrary: j s)
  case 0
  then have j: "j = released_cnt f t" by simp
  then have "\<not> (j + (f + j) < t \<and> j < 128)" unfolding released_cnt_def by (simp add: min_def split: if_splits)
  with 0 j show ?case by (subst free_indirect_loop.simps) (auto simp: NUM_PTR_PER_BLOCK_def)
next
  case (Suc n)
  let ?k = "released_cnt f t"
  have jk: "j < ?k" using Suc.hyps by simp
  then have g: "j + (f + j) < t" "j < 128" unfolding released_cnt_def by (simp_all, linarith)
  have jl: "j < length (take ?k blk)" using jk Suc.prems(2) by (simp add: released_cnt_def)
  have dr: "drop j (take ?k blk) = blk ! j # drop (Suc j) (take ?k blk)"
    using Cons_nth_drop_Suc [OF jl] jk by simp
  have u: "blk ! j \<in> used_sectors s" using Suc.prems(4) dr by simp
  then have cap: "blk ! j + 1 \<le> bit_cnt (free_map s)" using sectors.used_cap [OF Suc.prems(1)] by force
  obtain s1 where s1: "free_map_release s (blk ! j) 1 = Some s1" "free_map_ready s1" "used_sectors s1 = used_sectors s - {blk ! j}"
    using sectors.release_eq [OF Suc.prems(1) cap] u by auto
  have "distinct (drop j (take ?k blk))" using Suc.prems(3) by (rule distinct_drop)
  then have nin: "blk ! j \<notin> set (drop (Suc j) (take ?k blk))" using dr by simp
  have "n = ?k - Suc j" using Suc.hyps(2) by simp
  moreover have "set (drop (Suc j) (take ?k blk)) \<subseteq> used_sectors s1" using Suc.prems(4) dr nin s1(3) by auto
  ultimately obtain s' where s': "free_indirect_loop (Suc j) (f + Suc j) t blk s1 = Some (f + ?k, s')" "free_map_ready s'"
    "used_sectors s' = used_sectors s1 - set (drop (Suc j) (take ?k blk))"
    using Suc.hyps(1) [of "Suc j" s1] s1(2) Suc.prems(2,3) jk by auto
  have "free_indirect_loop j (f + j) t blk s = Some (f + ?k, s')"
    by (subst free_indirect_loop.simps) (use g s1(1) s'(1) in \<open>simp add: NUM_PTR_PER_BLOCK_def\<close>)
  then show ?case using s'(2,3) s1(3) dr by auto
qed

subsection \<open>Properties\<close>

text \<open>A disk of 256 sectors of which the first 160 are in use; the map is in sector 2.\<close>

definition demo_map_inode :: inode_disk where
  "demo_map_inode = \<lparr>dlength = 32, magic = INODE_MAGIC, is_dir_flag = False, parent_dir = 1,
     direct_block_sectors = 2 # replicate 121 0, indirect_block_sector = 0, doubly_indirect_block_sector = 0\<rparr>"

definition demo_map_fs :: fs where
  "demo_map_fs = \<lparr>disk = replicate 256 zeros, free_map = \<lparr>bit_cnt = 256, bits = replicate 5 (-1) @ replicate 3 0\<rparr>,
     free_map_file = Some \<lparr>file_inode = 0, pos = 0, deny_write = False\<rparr>,
     inodes = [\<lparr>sector = 0, open_cnt = 1, removed = False, deny_write_cnt = 0, data = demo_map_inode\<rparr>],
     open_inodes = [0], current_working_dir = 1, heap_ok = True\<rparr>"

lemma demo_map_ready: "free_map_ready demo_map_fs"
proof -
  have n: "nsectors demo_map_inode = 1" and a: "data_sector demo_map_fs demo_map_inode 0 = 2"
    by (simp_all add: nsectors_def bytes_to_sectors_def data_sector_def inode_consts demo_map_inode_def)
  have "inode_ok demo_map_fs demo_map_inode"
    using n a by (simp add: inode_ok_def index_used_def) (simp add: demo_map_fs_def zeros_def BLOCK_SECTOR_SIZE_def)
  moreover have "separate demo_map_fs demo_map_inode"
    using n a by (simp add: separate_def inj_on_def index_used_def)
  ultimately show ?thesis
    by (simp add: free_map_ready_def map_data_def)
      (simp add: demo_map_fs_def bitmap_wf_def elem_cnt_eq bitmap_file_size_def byte_cnt_def demo_map_inode_def)
qed

lemma demo_map_used: "used_sectors demo_map_fs = {..<160}"
proof -
  have "bits_of (free_map demo_map_fs) ! i \<longleftrightarrow> i < 160" if "i < 256" for i
    using that by (simp add: nth_bits_of demo_map_fs_def nth_append div_less_iff_less_mult)
  moreover have "bit_cnt (free_map demo_map_fs) = 256" by (simp add: demo_map_fs_def)
  ultimately show ?thesis by (auto simp: used_sectors_def used_units_def)
qed

lemma demo_map_allocate: "\<exists>i s'. free_map_allocate demo_map_fs 3 = Some (Some i, s')"
proof -
  have "fst (allocate_sectors demo_map_fs 3) \<noteq> None"
    unfolding sectors.alloc_fails_iff [OF demo_map_ready] demo_map_used
    by (auto simp: demo_map_fs_def intro!: exI [of _ 200])
  moreover have "free_map_allocate demo_map_fs 3 \<noteq> None"
    by (rule free_map_allocate_cases [OF demo_map_ready, where ext = extend_file and cnt = 3])
      (auto simp: free_map_allocate_def inode_write_at_def)
  ultimately show ?thesis by (auto simp: allocate_sectors_def)
qed

text \<open>
  C7. \<^verbatim>\<open>free_map_allocate\<close> with the map's file open: the sectors returned were free and are in use afterwards,
  no other sector changes its state, and what \<^verbatim>\<open>free_map_open\<close> would read from the disk then gives the map
  that is in memory, so that the allocation survives a restart.
\<close>

theorem free_map_allocate_persists:
  assumes "free_map_ready s" and "free_map_allocate s n = Some (Some i, s')"
  shows "{i..<i + n} \<inter> used_sectors s = {} \<and> used_sectors s' = used_sectors s \<union> {i..<i + n} \<and> i + n \<le> bit_cnt (free_map s)
    \<and> free_map_ready s'
    \<and> (\<exists>bytes c'. inode_read_at s' (file_inode (the (free_map_file s'))) (bitmap_file_size (free_map s')) 0 = Some bytes
        \<and> bitmap_read (\<lambda>sz ofs. bytes) (free_map s) = Some (True, c') \<and> bits_of c' = bits_of (free_map s'))"
proof -
  have a: "allocate_sectors s n = (Some i, s')" using assms(2) by (simp add: allocate_sectors_def)
  note laws = sectors.alloc_Some [OF assms(1) a]
  have "free_map_synced s'"
    by (rule free_map_allocate_cases [OF assms(1), where ext = extend_file and cnt = n])
      (use assms(2) in \<open>auto simp: free_map_allocate_def inode_write_at_def\<close>)
  moreover have "length (bits (free_map s)) = elem_cnt (bit_cnt (free_map s'))"
    using laws assms(1) by (simp add: free_map_ready_def)
  ultimately show ?thesis
    using laws free_map_synced_read [of s' "free_map s"] by simp
qed

theorem free_map_allocate_persists_witness:
  "\<exists>i s'. free_map_allocate demo_map_fs 3 = Some (Some i, s') \<and> {i..<i + 3} \<inter> {..<160} = {}"
  using demo_map_allocate free_map_allocate_persists [OF demo_map_ready, of 3] demo_map_used by metis

text \<open>
  \<^verbatim>\<open>free_map_release\<close> undoes \<^verbatim>\<open>free_map_allocate\<close>: the sectors can be given back, the sectors in use are
  then those from before the allocation, and giving them back once more is a panic.
\<close>

theorem free_map_allocate_release:
  assumes "free_map_ready s" and "free_map_allocate s n = Some (Some i, s1)" and "0 < n"
  shows "\<exists>s2. free_map_release s1 i n = Some s2 \<and> free_map_ready s2 \<and> used_sectors s2 = used_sectors s
    \<and> free_map_release s2 i n = None"
proof -
  have a: "allocate_sectors s n = (Some i, s1)" using assms(2) by (simp add: allocate_sectors_def)
  note laws = sectors.alloc_Some [OF assms(1) a]
  then have l1: "free_map_ready s1" "i + n \<le> bit_cnt (free_map s1)" "{i..<i + n} \<subseteq> used_sectors s1" by auto
  obtain s2 where s2: "free_map_release s1 i n = Some s2" "free_map_ready s2" "used_sectors s2 = used_sectors s"
    using sectors.alloc_release [OF assms(1) a] by blast
  with sectors.double_release [OF l1 assms(3) s2(1)] show ?thesis by blast
qed

text \<open>
  C28. \<^verbatim>\<open>free_indirect_block\<close>, called to release the sectors of an indirect block when \<open>f\<close> of \<open>t\<close> sectors are
  released: it releases exactly the first half (rounded up) of the sectors that are left, at most 128,
  and reports that number; every other sector of the block stays in use, so that with two or more
  sectors left some are never released.
\<close>

theorem free_indirect_block_releases_half:
  assumes "free_map_ready s" and "length blk = 128" and "distinct blk" and "set blk \<subseteq> used_sectors s"
  shows "\<exists>s'. free_indirect_block f t blk s = Some (f + min 128 ((t - f + 1) div 2), s') \<and> free_map_ready s'
    \<and> used_sectors s' = used_sectors s - set (take (min 128 ((t - f + 1) div 2)) blk)
    \<and> (\<forall>k. min 128 ((t - f + 1) div 2) \<le> k \<and> k < 128 \<longrightarrow> blk ! k \<in> used_sectors s')"
proof -
  let ?k = "released_cnt f t"
  have "distinct (take ?k blk)" "set (drop 0 (take ?k blk)) \<subseteq> used_sectors s"
    using assms(3,4) set_take_subset [of ?k blk] by auto
  from free_indirect_loop_releases [OF assms(1,2) this]
  obtain s' where s': "free_indirect_loop 0 f t blk s = Some (f + ?k, s')" "free_map_ready s'"
    "used_sectors s' = used_sectors s - set (take ?k blk)" by auto
  have "blk ! k \<notin> set (take ?k blk)" if "?k \<le> k" "k < 128" for k
    using that assms(2,3) by (auto simp: in_set_conv_nth nth_eq_iff_index_eq)
  with s' assms(2,4) show ?thesis
    unfolding free_indirect_block_def released_cnt_def [symmetric] by (auto simp: subset_iff)
qed

theorem free_indirect_block_releases_half_witness:
  "\<exists>s'. free_indirect_block 122 132 [3..<131] demo_map_fs = Some (127, s') \<and> 10 \<in> used_sectors s'"
proof -
  have "set [3..<131] \<subseteq> used_sectors demo_map_fs" by (auto simp: demo_map_used)
  from free_indirect_block_releases_half [OF demo_map_ready _ _ this, of 122 132]
  obtain s' where s': "free_indirect_block 122 132 [3..<131] demo_map_fs = Some (127, s')"
    "\<forall>k. 5 \<le> k \<and> k < 128 \<longrightarrow> [3..<131] ! k \<in> used_sectors s'" by auto
  from s'(2) have "[3..<131] ! 7 \<in> used_sectors s'" by (rule allE [where x = 7]) simp
  with s'(1) show ?thesis by (auto simp: nth_upt)
qed

end
