(* ===== verification/CString.thy ===== *)
theory CString
  imports Prelude
begin

text \<open>
  The string functions of \<^verbatim>\<open>lib/string.c\<close>, which the kernel and the user programs share. The memory is a
  function from addresses to bytes, a pointer is an address (0 is the null pointer), and the functions
  that store return the new memory. The loops that run to a null byte are partial functions; \<open>cstr m a s\<close>
  says that a null-terminated string with the characters \<open>s\<close> begins at \<open>a\<close>, and under it the loops end and
  compute the functions on lists that the lemmas name.
\<close>

type_synonym mem = "nat \<Rightarrow> u8"

fun copy_up :: "nat \<Rightarrow> nat \<Rightarrow> nat \<Rightarrow> mem \<Rightarrow> mem" where
  "copy_up 0 dst src m = m"
| "copy_up (Suc n) dst src m = copy_up n (dst + 1) (src + 1) (m(dst := m src))"

fun copy_down :: "nat \<Rightarrow> nat \<Rightarrow> nat \<Rightarrow> mem \<Rightarrow> mem" where
  "copy_down 0 dst src m = m"
| "copy_down (Suc n) dst src m = copy_down n (dst - 1) (src - 1) (m(dst - 1 := m (src - 1)))"

definition memcpy :: "mem \<Rightarrow> nat \<Rightarrow> nat \<Rightarrow> size_t \<Rightarrow> (nat \<times> mem) option" where
  "memcpy m dst src sz = do {
     ASSERT (dst \<noteq> 0 \<or> sz = 0);
     ASSERT (src \<noteq> 0 \<or> sz = 0);
     Some (dst, copy_up sz dst src m) }"

text \<open>\<^verbatim>\<open>memmove\<close> returns the pointer that its loop has moved.\<close>

definition memmove :: "mem \<Rightarrow> nat \<Rightarrow> nat \<Rightarrow> size_t \<Rightarrow> (nat \<times> mem) option" where
  "memmove m dst src sz = do {
     ASSERT (dst \<noteq> 0 \<or> sz = 0);
     ASSERT (src \<noteq> 0 \<or> sz = 0);
     if dst < src then Some (dst + sz, copy_up sz dst src m)
     else Some (dst + sz - sz, copy_down sz (dst + sz) (src + sz) m) }"

fun memcmp_loop :: "nat \<Rightarrow> nat \<Rightarrow> nat \<Rightarrow> mem \<Rightarrow> int" where
  "memcmp_loop 0 a b m = 0"
| "memcmp_loop (Suc n) a b m = (if m a \<noteq> m b then (if m a > m b then 1 else -1) else memcmp_loop n (a + 1) (b + 1) m)"

definition memcmp :: "mem \<Rightarrow> nat \<Rightarrow> nat \<Rightarrow> size_t \<Rightarrow> int option" where
  "memcmp m a b sz = do {
     ASSERT (a \<noteq> 0 \<or> sz = 0);
     ASSERT (b \<noteq> 0 \<or> sz = 0);
     Some (memcmp_loop sz a b m) }"

partial_function (option) strcmp_loop :: "mem \<Rightarrow> nat \<Rightarrow> nat \<Rightarrow> int option" where
  "strcmp_loop m a b =
     (if m a \<noteq> 0 \<and> m a = m b then strcmp_loop m (a + 1) (b + 1)
      else Some (if m a < m b then -1 else if m a > m b then 1 else 0))"

definition strcmp :: "mem \<Rightarrow> nat \<Rightarrow> nat \<Rightarrow> int option" where
  "strcmp m a b = do { ASSERT (a \<noteq> 0); ASSERT (b \<noteq> 0); strcmp_loop m a b }"

fun memchr_loop :: "nat \<Rightarrow> nat \<Rightarrow> u8 \<Rightarrow> mem \<Rightarrow> nat" where
  "memchr_loop 0 block ch m = 0"
| "memchr_loop (Suc n) block ch m = (if m block = ch then block else memchr_loop n (block + 1) ch m)"

definition memchr :: "mem \<Rightarrow> nat \<Rightarrow> u8 \<Rightarrow> size_t \<Rightarrow> nat option" where
  "memchr m block ch sz = do { ASSERT (block \<noteq> 0 \<or> sz = 0); Some (memchr_loop sz block ch m) }"

partial_function (option) strchr_loop :: "mem \<Rightarrow> nat \<Rightarrow> u8 \<Rightarrow> nat option" where
  "strchr_loop m str c = (if m str = c then Some str else if m str = 0 then Some 0 else strchr_loop m (str + 1) c)"

definition strchr :: "mem \<Rightarrow> nat \<Rightarrow> u8 \<Rightarrow> nat option" where
  "strchr m str c = do { ASSERT (str \<noteq> 0); strchr_loop m str c }"

partial_function (option) strcspn_loop :: "mem \<Rightarrow> nat \<Rightarrow> nat \<Rightarrow> nat \<Rightarrow> nat option" where
  "strcspn_loop m str stop len =
     (if m (str + len) \<noteq> 0
      then do { p \<leftarrow> strchr m stop (m (str + len)); if p \<noteq> 0 then Some len else strcspn_loop m str stop (len + 1) }
      else Some len)"

definition strcspn :: "mem \<Rightarrow> nat \<Rightarrow> nat \<Rightarrow> nat option" where
  "strcspn m str stop = strcspn_loop m str stop 0"

partial_function (option) strpbrk :: "mem \<Rightarrow> nat \<Rightarrow> nat \<Rightarrow> nat option" where
  "strpbrk m str stop =
     (if m str \<noteq> 0
      then do { p \<leftarrow> strchr m stop (m str); if p \<noteq> 0 then Some str else strpbrk m (str + 1) stop }
      else Some 0)"

partial_function (option) strrchr_loop :: "mem \<Rightarrow> nat \<Rightarrow> u8 \<Rightarrow> nat \<Rightarrow> nat option" where
  "strrchr_loop m str c p = (if m str \<noteq> 0 then strrchr_loop m (str + 1) c (if m str = c then str else p) else Some p)"

definition strrchr :: "mem \<Rightarrow> nat \<Rightarrow> u8 \<Rightarrow> nat option" where
  "strrchr m str c = strrchr_loop m str c 0"

partial_function (option) strspn_loop :: "mem \<Rightarrow> nat \<Rightarrow> nat \<Rightarrow> nat \<Rightarrow> nat option" where
  "strspn_loop m str skip len =
     (if m (str + len) \<noteq> 0
      then do { p \<leftarrow> strchr m skip (m (str + len)); if p = 0 then Some len else strspn_loop m str skip (len + 1) }
      else Some len)"

definition strspn :: "mem \<Rightarrow> nat \<Rightarrow> nat \<Rightarrow> nat option" where
  "strspn m str skip = strspn_loop m str skip 0"

partial_function (option) strlen_loop :: "mem \<Rightarrow> nat \<Rightarrow> nat option" where
  "strlen_loop m p = (if m p \<noteq> 0 then strlen_loop m (p + 1) else Some p)"

definition strlen :: "mem \<Rightarrow> nat \<Rightarrow> nat option" where
  "strlen m str = do { ASSERT (str \<noteq> 0); p \<leftarrow> strlen_loop m str; Some (p - str) }"

definition strstr :: "mem \<Rightarrow> nat \<Rightarrow> nat \<Rightarrow> nat option" where
  "strstr m haystack needle = do {
     haystack_len \<leftarrow> strlen m haystack;
     needle_len \<leftarrow> strlen m needle;
     if haystack_len \<ge> needle_len
     then do {
       r \<leftarrow> findM (\<lambda>i. do { c \<leftarrow> memcmp m (haystack + i) needle needle_len; Some (c = 0) }) [0..<haystack_len - needle_len + 1];
       Some (case r of Some i \<Rightarrow> haystack + i | None \<Rightarrow> 0) }
     else Some 0 }"

partial_function (option) skip_delims :: "mem \<Rightarrow> nat \<Rightarrow> nat \<Rightarrow> (bool \<times> nat) option" where
  "skip_delims m s delimiters = do {
     p \<leftarrow> strchr m delimiters (m s);
     if p \<noteq> 0 then if m s = 0 then Some (False, s) else skip_delims m (s + 1) delimiters
     else Some (True, s) }"

partial_function (option) skip_token :: "mem \<Rightarrow> nat \<Rightarrow> nat \<Rightarrow> nat option" where
  "skip_token m s delimiters = do {
     p \<leftarrow> strchr m delimiters (m s);
     if p = 0 then skip_token m (s + 1) delimiters else Some s }"

text \<open>\<^verbatim>\<open>strtok_r\<close> returns the token, the new value of \<^verbatim>\<open>*save_ptr\<close> and the memory.\<close>

definition strtok_r :: "mem \<Rightarrow> nat \<Rightarrow> nat \<Rightarrow> nat \<Rightarrow> (nat \<times> nat \<times> mem) option" where
  "strtok_r m s delimiters save = do {
     ASSERT (delimiters \<noteq> 0);
     let s = (if s = 0 then save else s);
     ASSERT (s \<noteq> 0);
     (more, s) \<leftarrow> skip_delims m s delimiters;
     if \<not> more then Some (0, s, m)
     else do {
       let token = s;
       s \<leftarrow> skip_token m s delimiters;
       if m s \<noteq> 0 then Some (token, s + 1, m(s := 0)) else Some (token, s, m) } }"

fun set_bytes :: "nat \<Rightarrow> nat \<Rightarrow> u8 \<Rightarrow> mem \<Rightarrow> mem" where
  "set_bytes 0 dst v m = m"
| "set_bytes (Suc n) dst v m = set_bytes n (dst + 1) v (m(dst := v))"

definition memset :: "mem \<Rightarrow> nat \<Rightarrow> u8 \<Rightarrow> size_t \<Rightarrow> (nat \<times> mem) option" where
  "memset m dst v sz = do { ASSERT (dst \<noteq> 0 \<or> sz = 0); Some (dst, set_bytes sz dst v m) }"

function strnlen_loop :: "mem \<Rightarrow> nat \<Rightarrow> nat \<Rightarrow> nat \<Rightarrow> nat" where
  "strnlen_loop m str maxlen len =
     (if m (str + len) \<noteq> 0 \<and> len < maxlen then strnlen_loop m str maxlen (len + 1) else len)"
  by pat_completeness auto
termination
  by (relation "measure (\<lambda>(m, str, maxlen, len). maxlen - len)") auto

declare strnlen_loop.simps [simp del]

definition strnlen :: "mem \<Rightarrow> nat \<Rightarrow> size_t \<Rightarrow> size_t" where
  "strnlen m str maxlen = strnlen_loop m str maxlen 0"

definition strlcpy :: "mem \<Rightarrow> nat \<Rightarrow> nat \<Rightarrow> size_t \<Rightarrow> (size_t \<times> mem) option" where
  "strlcpy m dst src sz = do {
     ASSERT (dst \<noteq> 0);
     ASSERT (src \<noteq> 0);
     src_len \<leftarrow> strlen m src;
     if sz > 0
     then do {
       let dst_len = sz - 1;
       let dst_len = (if src_len < dst_len then src_len else dst_len);
       (_, m) \<leftarrow> memcpy m dst src dst_len;
       Some (src_len, m(dst + dst_len := 0)) }
     else Some (src_len, m) }"

definition strlcat :: "mem \<Rightarrow> nat \<Rightarrow> nat \<Rightarrow> size_t \<Rightarrow> (size_t \<times> mem) option" where
  "strlcat m dst src sz = do {
     ASSERT (dst \<noteq> 0);
     ASSERT (src \<noteq> 0);
     src_len \<leftarrow> strlen m src;
     dst_len \<leftarrow> strlen m dst;
     if sz > 0 \<and> dst_len < sz
     then do {
       let copy_cnt = sz - dst_len - 1;
       let copy_cnt = (if src_len < copy_cnt then src_len else copy_cnt);
       (_, m) \<leftarrow> memcpy m (dst + dst_len) src copy_cnt;
       Some (wrap32 (src_len + dst_len), m(dst + dst_len + copy_cnt := 0)) }
     else Some (wrap32 (src_len + dst_len), m) }"

subsection \<open>Blocks and strings in memory\<close>

definition bytes_at :: "mem \<Rightarrow> nat \<Rightarrow> nat \<Rightarrow> u8 list" where
  "bytes_at m a n = map (\<lambda>i. m (a + i)) [0..<n]"

fun cstr :: "mem \<Rightarrow> nat \<Rightarrow> u8 list \<Rightarrow> bool" where
  "cstr m a [] \<longleftrightarrow> m a = 0"
| "cstr m a (c # s) \<longleftrightarrow> m a = c \<and> c \<noteq> 0 \<and> cstr m (a + 1) s"

lemma length_bytes_at [simp]: "length (bytes_at m a n) = n"
  by (simp add: bytes_at_def)

lemma nth_bytes_at [simp]: "i < n \<Longrightarrow> bytes_at m a n ! i = m (a + i)"
  by (simp add: bytes_at_def)

lemma bytes_at_Suc: "bytes_at m a (Suc n) = m a # bytes_at m (a + 1) n"
  by (rule nth_equalityI) (auto simp: nth_Cons split: nat.split)

lemma cstr_iff: "cstr m a s \<longleftrightarrow> bytes_at m a (length s) = s \<and> 0 \<notin> set s \<and> m (a + length s) = 0"
  by (induction s arbitrary: a) (auto simp: bytes_at_Suc, auto simp: bytes_at_def)

lemma cstr_nth: "cstr m a s \<Longrightarrow> i < length s \<Longrightarrow> m (a + i) = s ! i \<and> s ! i \<noteq> 0"
  unfolding cstr_iff by (metis nth_bytes_at nth_mem)

lemma cstr_unique: "cstr m a s \<Longrightarrow> cstr m a t \<Longrightarrow> s = t"
proof (induction s arbitrary: a t)
  case Nil
  then show ?case by (cases t) auto
next
  case (Cons c s)
  then show ?case by (cases t) auto
qed

lemma cstr_drop: "cstr m a s \<Longrightarrow> n \<le> length s \<Longrightarrow> cstr m (a + n) (drop n s)"
proof (induction n arbitrary: a s)
  case (Suc n)
  then obtain c t where "s = c # t" by (cases s) auto
  with Suc.prems Suc.IH [of "a + 1" t] show ?case by simp
qed simp

lemma cstr_frame: "cstr m a s \<Longrightarrow> (\<And>x. a \<le> x \<Longrightarrow> x \<le> a + length s \<Longrightarrow> m' x = m x) \<Longrightarrow> cstr m' a s"
  by (induction s arbitrary: a) auto

subsection \<open>Blocks\<close>

lemma copy_up_eq:
  "dst \<le> src \<or> src + n \<le> dst \<Longrightarrow> copy_up n dst src m = (\<lambda>x. if dst \<le> x \<and> x < dst + n then m (src + (x - dst)) else m x)"
proof (induction n arbitrary: dst src m)
  case (Suc n)
  then have "copy_up n (dst + 1) (src + 1) (m(dst := m src)) =
      (\<lambda>x. if dst + 1 \<le> x \<and> x < dst + 1 + n then (m(dst := m src)) (src + 1 + (x - (dst + 1))) else (m(dst := m src)) x)"
    by (intro Suc.IH) auto
  also have "\<dots> = (\<lambda>x. if dst \<le> x \<and> x < dst + Suc n then m (src + (x - dst)) else m x)"
    using Suc.prems by (intro ext) (auto simp: Suc_diff_Suc)
  finally show ?case by simp
qed (auto simp: fun_eq_iff)

lemma copy_down_eq:
  "src \<le> dst \<Longrightarrow> copy_down n (dst + n) (src + n) m = (\<lambda>x. if dst \<le> x \<and> x < dst + n then m (src + (x - dst)) else m x)"
proof (induction n arbitrary: m)
  case (Suc n)
  then have "copy_down n (dst + n) (src + n) (m(dst + n := m (src + n))) =
      (\<lambda>x. if dst \<le> x \<and> x < dst + n then (m(dst + n := m (src + n))) (src + (x - dst)) else (m(dst + n := m (src + n))) x)"
    by blast
  also have "\<dots> = (\<lambda>x. if dst \<le> x \<and> x < dst + Suc n then m (src + (x - dst)) else m x)"
    using Suc.prems by (intro ext) auto
  finally show ?case by simp
qed (auto simp: fun_eq_iff)

lemma set_bytes_eq: "set_bytes n dst v m = (\<lambda>x. if dst \<le> x \<and> x < dst + n then v else m x)"
  by (induction n arbitrary: dst m) (auto simp: fun_eq_iff)

lemma memcmp_loop_sign:
  "memcmp_loop n a b m =
    (if bytes_at m a n = bytes_at m b n then 0
     else if (bytes_at m a n, bytes_at m b n) \<in> lexord {(x, y). x < y} then -1 else 1)"
  by (induction n arbitrary: a b) (auto simp: bytes_at_Suc bytes_at_def [of _ _ 0])

lemma memchr_loop_eq:
  "memchr_loop n a c m =
    (if c \<in> set (bytes_at m a n) then a + length (takeWhile (\<lambda>x. x \<noteq> c) (bytes_at m a n)) else 0)"
  by (induction n arbitrary: a) (auto simp: bytes_at_Suc bytes_at_def [of _ _ 0])

subsection \<open>Searching in strings\<close>

lemma strlen_loop_eq: "cstr m a s \<Longrightarrow> strlen_loop m a = Some (a + length s)"
  by (induction s arbitrary: a) (auto simp: strlen_loop.simps)

lemma strlen_eq: "cstr m a s \<Longrightarrow> a \<noteq> 0 \<Longrightarrow> strlen m a = Some (length s)"
  by (simp add: strlen_def strlen_loop_eq)

lemma strchr_loop_eq:
  "cstr m a s \<Longrightarrow> strchr_loop m a c =
    Some (if c \<in> set (s @ [0]) then a + length (takeWhile (\<lambda>x. x \<noteq> c) s) else 0)"
proof (induction s arbitrary: a)
  case Nil
  then show ?case by (simp add: strchr_loop.simps)
next
  case (Cons x s)
  then show ?case by (subst strchr_loop.simps) auto
qed

lemma strchr_eq:
  "cstr m a s \<Longrightarrow> a \<noteq> 0 \<Longrightarrow> strchr m a c =
    Some (if c \<in> set (s @ [0]) then a + length (takeWhile (\<lambda>x. x \<noteq> c) s) else 0)"
  by (simp add: strchr_def strchr_loop_eq)

lemma strcspn_loop_eq:
  "cstr m (a + n) s \<Longrightarrow> cstr m b t \<Longrightarrow> b \<noteq> 0 \<Longrightarrow>
    strcspn_loop m a b n = Some (n + length (takeWhile (\<lambda>c. c \<notin> set t) s))"
proof (induction s arbitrary: n)
  case Nil
  then show ?case by (simp add: strcspn_loop.simps)
next
  case (Cons c s)
  then show ?case using Cons.IH [of "n + 1"] by (subst strcspn_loop.simps) (auto simp: strchr_eq)
qed

lemma strspn_loop_eq:
  "cstr m (a + n) s \<Longrightarrow> cstr m b t \<Longrightarrow> b \<noteq> 0 \<Longrightarrow>
    strspn_loop m a b n = Some (n + length (takeWhile (\<lambda>c. c \<in> set t) s))"
proof (induction s arbitrary: n)
  case Nil
  then show ?case by (simp add: strspn_loop.simps)
next
  case (Cons c s)
  then show ?case using Cons.IH [of "n + 1"] by (subst strspn_loop.simps) (auto simp: strchr_eq)
qed

lemma strcspn_eq: "cstr m a s \<Longrightarrow> cstr m b t \<Longrightarrow> b \<noteq> 0 \<Longrightarrow> strcspn m a b = Some (length (takeWhile (\<lambda>c. c \<notin> set t) s))"
  using strcspn_loop_eq [of m a 0 s b t] by (simp add: strcspn_def)

lemma strspn_eq: "cstr m a s \<Longrightarrow> cstr m b t \<Longrightarrow> b \<noteq> 0 \<Longrightarrow> strspn m a b = Some (length (takeWhile (\<lambda>c. c \<in> set t) s))"
  using strspn_loop_eq [of m a 0 s b t] by (simp add: strspn_def)

lemma strpbrk_eq:
  "cstr m a s \<Longrightarrow> cstr m b t \<Longrightarrow> b \<noteq> 0 \<Longrightarrow>
    strpbrk m a b = Some (if set s \<inter> set t = {} then 0 else a + length (takeWhile (\<lambda>c. c \<notin> set t) s))"
proof (induction s arbitrary: a)
  case Nil
  then show ?case by (simp add: strpbrk.simps)
next
  case (Cons c s)
  then show ?case using Cons.IH [of "a + 1"] by (subst strpbrk.simps) (auto simp: strchr_eq)
qed

lemma strrchr_loop_eq:
  "cstr m a s \<Longrightarrow> strrchr_loop m a c p =
    Some (if c \<in> set s then a + (length s - 1 - length (takeWhile (\<lambda>x. x \<noteq> c) (rev s))) else p)"
proof (induction s arbitrary: a p)
  case Nil
  then show ?case by (simp add: strrchr_loop.simps)
next
  case (Cons x s)
  have l: "length (takeWhile (\<lambda>x. x \<noteq> c) (rev s)) < length s" if "c \<in> set s"
  proof -
    have "takeWhile (\<lambda>x. x \<noteq> c) (rev s) \<noteq> rev s" using that by (auto simp: takeWhile_eq_all_conv)
    then show ?thesis
      by (metis length_rev length_takeWhile_le nat_less_le takeWhile_eq_take take_all_iff)
  qed
  from Cons l show ?case
    by (subst strrchr_loop.simps) (auto simp: takeWhile_append takeWhile_eq_all_conv)
qed

lemma strcmp_loop_eq:
  "cstr m a s \<Longrightarrow> cstr m b t \<Longrightarrow>
    strcmp_loop m a b = Some (if s = t then 0 else if (s, t) \<in> lexord {(x, y). x < y} then -1 else 1)"
proof (induction s arbitrary: a b t)
  case Nil
  then show ?case by (cases t) (auto simp: strcmp_loop.simps word_gt_0)
next
  case (Cons c s)
  show ?case
  proof (cases t)
    case Nil
    with Cons.prems show ?thesis by (subst strcmp_loop.simps) (auto simp: word_gt_0)
  next
    case (Cons d u)
    with Cons.prems Cons.IH [of "a + 1" "b + 1" u] show ?thesis
      by (subst strcmp_loop.simps) auto
  qed
qed


lemma lexord_irrefl_bytes: "(s, s) \<notin> lexord {(x, y). x < (y :: u8)}"
  by (rule lexord_irreflexive) auto

subsection \<open>Tokens\<close>

lemma strchr_nonnull:
  "cstr m b t \<Longrightarrow> b \<noteq> 0 \<Longrightarrow> \<exists>p. strchr m b c = Some p \<and> (p \<noteq> 0 \<longleftrightarrow> c \<in> insert 0 (set t))"
  by (auto simp: strchr_eq)

lemma skip_delims_eq:
  "cstr m a s \<Longrightarrow> cstr m b t \<Longrightarrow> b \<noteq> 0 \<Longrightarrow>
    skip_delims m a b = Some (\<not> set s \<subseteq> set t, a + length (takeWhile (\<lambda>c. c \<in> set t) s))"
proof (induction s arbitrary: a)
  case Nil
  then show ?case by (subst skip_delims.simps) (auto simp: strchr_eq)
next
  case (Cons c s)
  then show ?case using Cons.IH [of "a + 1"] by (subst skip_delims.simps) (auto simp: strchr_eq)
qed

lemma skip_token_eq:
  "cstr m a s \<Longrightarrow> cstr m b t \<Longrightarrow> b \<noteq> 0 \<Longrightarrow>
    skip_token m a b = Some (a + length (takeWhile (\<lambda>c. c \<notin> set t) s))"
proof (induction s arbitrary: a)
  case Nil
  then show ?case by (subst skip_token.simps) (auto simp: strchr_eq)
next
  case (Cons c s)
  then show ?case using Cons.IH [of "a + 1"] by (subst skip_token.simps) (auto simp: strchr_eq)
qed

lemma strnlen_loop_eq:
  "cstr m (a + n) s \<Longrightarrow> n \<le> k \<Longrightarrow> strnlen_loop m a k n = min k (n + length s)"
proof (induction s arbitrary: n)
  case Nil
  then show ?case by (simp add: strnlen_loop.simps)
next
  case (Cons c s)
  show ?case
  proof (cases "n < k")
    case True
    with Cons.prems Cons.IH [of "n + 1"] show ?thesis by (subst strnlen_loop.simps) auto
  next
    case False
    with Cons.prems show ?thesis by (simp add: strnlen_loop.simps)
  qed
qed

text \<open>\<open>tokens D s\<close>: the maximal runs of characters of \<open>s\<close> that are not in \<open>D\<close>.\<close>

function tokens :: "u8 set \<Rightarrow> u8 list \<Rightarrow> u8 list list" where
  "tokens D s =
     (let u = dropWhile (\<lambda>c. c \<in> D) s
      in if u = [] then [] else takeWhile (\<lambda>c. c \<notin> D) u # tokens D (drop 1 (dropWhile (\<lambda>c. c \<notin> D) u)))"
  by pat_completeness auto
termination
proof (relation "measure (\<lambda>(D, s). length s)")
  fix D :: "u8 set" and s u :: "u8 list"
  assume "u = dropWhile (\<lambda>c. c \<in> D) s" "u \<noteq> []"
  then have "length u \<le> length s" "0 < length u" by (simp_all add: length_dropWhile_le)
  moreover have "length (dropWhile (\<lambda>c. c \<notin> D) u) \<le> length u" by (rule length_dropWhile_le)
  ultimately have "length (dropWhile (\<lambda>c. c \<notin> D) u) - 1 < length s" by linarith
  then show "((D, drop 1 (dropWhile (\<lambda>c. c \<notin> D) u)), (D, s)) \<in> measure (\<lambda>(D, s). length s)" by simp
qed simp

declare tokens.simps [simp del]

text \<open>The loop that the comment of \<^verbatim>\<open>strtok_r\<close> shows: the pointers to the tokens and the memory at the end.\<close>

partial_function (option) strtok_loop :: "mem \<Rightarrow> nat \<Rightarrow> nat \<Rightarrow> nat \<Rightarrow> (nat list \<times> mem) option" where
  "strtok_loop m s delimiters save = do {
     (token, save, m) \<leftarrow> strtok_r m s delimiters save;
     if token = 0 then Some ([], m)
     else do {
       (ts, m) \<leftarrow> strtok_loop m 0 delimiters save;
       Some (token # ts, m) } }"

lemma takeWhile_dropWhile_pos: "length (takeWhile P s) + length (dropWhile P s) = length s"
  by (metis length_append takeWhile_dropWhile_id)

lemma cstr_cut:
  assumes "cstr m a (s @ c # t)" and "m' (a + length s) = 0" and "\<And>x. x \<noteq> a + length s \<Longrightarrow> m' x = m x"
  shows "cstr m' a s" and "cstr m' (a + length s + 1) t"
proof -
  have n: "m (a + i) = s ! i \<and> s ! i \<noteq> 0" if "i < length s" for i
    using cstr_nth [OF assms(1), of i] that by (simp add: nth_append)
  have "bytes_at m' a (length s) = s" using n assms(3) by (intro nth_equalityI) auto
  moreover have "0 \<notin> set s" using n by (auto simp: in_set_conv_nth)
  ultimately show "cstr m' a s" using assms(2) by (simp add: cstr_iff)
  have "cstr m (a + (length s + 1)) (drop (length s + 1) (s @ c # t))"
    by (rule cstr_drop [OF assms(1)]) simp
  then have "cstr m (a + length s + 1) t" by (simp add: add.assoc)
  then show "cstr m' (a + length s + 1) t" by (rule cstr_frame) (use assms(3) in auto)
qed

lemma strtok_r_eq:
  assumes s: "cstr m a s" "a \<noteq> 0" and t: "cstr m b t" "b \<noteq> 0" and apart: "{a..a + length s} \<inter> {b..b + length t} = {}"
    and p: "p = a \<or> p = 0 \<and> save = a" and u: "u = dropWhile (\<lambda>c. c \<in> set t) s" and tok: "tok = takeWhile (\<lambda>c. c \<notin> set t) u"
  shows "if u = [] then strtok_r m p b save = Some (0, a + length s, m)
    else \<exists>q sv m'. strtok_r m p b save = Some (q, sv, m') \<and> q \<noteq> 0 \<and> sv \<noteq> 0 \<and> tok \<noteq> []
      \<and> a \<le> q \<and> q + length tok \<le> sv \<and> sv \<le> a + length s
      \<and> cstr m' q tok \<and> cstr m' sv (drop 1 (dropWhile (\<lambda>c. c \<notin> set t) u)) \<and> cstr m' b t
      \<and> sv + length (drop 1 (dropWhile (\<lambda>c. c \<notin> set t) u)) = a + length s
      \<and> (\<forall>x. x \<noteq> q + length tok \<longrightarrow> m' x = m x)"
proof -
  define k where "k = length (takeWhile (\<lambda>c. c \<in> set t) s)"
  have k: "k + length u = length s" using takeWhile_dropWhile_pos [of "\<lambda>c. c \<in> set t" s] by (simp add: k_def u)
  have start: "(if p = 0 then save else p) = a" using p s(2) by auto
  have emp: "u = [] \<longleftrightarrow> set s \<subseteq> set t" by (auto simp: u dropWhile_eq_Nil_conv)
  show ?thesis
  proof (cases "u = []")
    case True
    then have "skip_delims m a b = Some (False, a + length s)"
      using skip_delims_eq [OF s(1) t] emp k by (simp add: k_def [symmetric])
    with True show ?thesis using t(2) s(2) start by (simp add: strtok_r_def Let_def)
  next
    case False
    let ?v = "dropWhile (\<lambda>c. c \<notin> set t) u"
    have sd: "skip_delims m a b = Some (True, a + k)"
      using skip_delims_eq [OF s(1) t] emp False by (simp add: k_def [symmetric])
    have u': "u = drop k s" by (simp add: u k_def dropWhile_eq_drop)
    have cu: "cstr m (a + k) u" using cstr_drop [OF s(1), of k] k by (simp add: u')
    have st: "skip_token m (a + k) b = Some (a + k + length tok)" using skip_token_eq [OF cu t] by (simp add: tok)
    have "hd u \<notin> set t" using hd_dropWhile [of "\<lambda>c. c \<in> set t" s] False by (simp add: u)
    then have ne: "tok \<noteq> []" using False by (cases u) (auto simp: tok)
    have uv: "u = tok @ ?v" by (simp add: tok)
    have mb: "m' (y) = m y" if "\<And>x. x \<noteq> a + k + length tok \<Longrightarrow> m' x = m x" "y \<in> {b..b + length t}" for m' y
      using that apart k uv by (metis (no_types, lifting) IntI add.assoc add_le_cancel_left atLeastAtMost_iff empty_iff le_add1 length_append)
    show ?thesis
    proof (cases ?v)
      case Nil
      then have tu: "tok = u" using uv by (metis append_Nil2)
      then have z: "m (a + k + length tok) = 0" using cu by (simp add: cstr_iff)
      have "strtok_r m p b save = Some (a + k, a + k + length tok, m)"
        using t(2) s(2) start sd st z by (simp add: strtok_r_def Let_def)
      with False ne s(2) cu tu z t(1) k show ?thesis unfolding Nil by auto
    next
      case (Cons c v)
      have cu': "cstr m (a + k) (tok @ c # v)" using cu uv Cons by simp
      have nz: "m (a + k + length tok) \<noteq> 0" using cstr_nth [OF cu', of "length tok"] by simp
      let ?m = "m(a + k + length tok := 0)"
      have "strtok_r m p b save = Some (a + k, a + k + length tok + 1, ?m)"
        using t(2) s(2) start sd st nz by (simp add: strtok_r_def Let_def)
      moreover have "cstr ?m (a + k) tok" "cstr ?m (a + k + length tok + 1) v" by (rule cstr_cut [OF cu']; simp)+
      moreover have "cstr ?m b t" by (rule cstr_frame [OF t(1)], rule mb) auto
      moreover have "length u = length tok + Suc (length v)" using uv Cons by (metis length_append length_Cons)
      ultimately show ?thesis using False ne s(2) Cons k by auto
    qed
  qed
qed


lemma strtok_loop_tokens:
  assumes "cstr m a s" "a \<noteq> 0" "cstr m b t" "b \<noteq> 0" "{a..a + length s} \<inter> {b..b + length t} = {}"
    and "p = a \<or> p = 0 \<and> save = a"
  shows "\<exists>ts m'. strtok_loop m p b save = Some (ts, m') \<and> list_all2 (cstr m') ts (tokens (set t) s)
    \<and> (\<forall>x. x < a \<or> a + length s \<le> x \<longrightarrow> m' x = m x)"
  using assms
proof (induction "length s" arbitrary: m a s p save rule: less_induct)
  case less
  define u where "u = dropWhile (\<lambda>c. c \<in> set t) s"
  define tok where "tok = takeWhile (\<lambda>c. c \<notin> set t) u"
  define r where "r = drop 1 (dropWhile (\<lambda>c. c \<notin> set t) u)"
  note st = strtok_r_eq [OF less.prems u_def tok_def, folded r_def]
  show ?case
  proof (cases "u = []")
    case True
    with st show ?thesis
      by (subst strtok_loop.simps) (auto simp: tokens.simps [of _ s] u_def [symmetric] Let_def)
  next
    case False
    with st obtain q sv m' where q: "strtok_r m p b save = Some (q, sv, m')" "q \<noteq> 0" "sv \<noteq> 0" "tok \<noteq> []"
      "a \<le> q" "q + length tok \<le> sv" "sv \<le> a + length s" "cstr m' q tok" "cstr m' sv r" "cstr m' b t"
      "sv + length r = a + length s" "\<forall>x. x \<noteq> q + length tok \<longrightarrow> m' x = m x" by auto
    have len: "length r < length s" using q(4,5,6,11) by (cases tok) auto
    have "{sv..sv + length r} \<inter> {b..b + length t} = {}"
      using less.prems(5) q(5,6,11) by (auto simp: disjoint_iff)
    from less.hyps [OF len q(9,3,10) less.prems(4) this, of 0 sv] obtain ts m2 where
      ts: "strtok_loop m' 0 b sv = Some (ts, m2)" "list_all2 (cstr m2) ts (tokens (set t) r)"
        "\<forall>x. x < sv \<or> sv + length r \<le> x \<longrightarrow> m2 x = m' x" by auto
    have "m2 x = m' x" if "x \<le> q + length tok" for x
    proof (cases "x < sv")
      case False
      then have x: "x = sv" "sv = q + length tok" using that q(6) by auto
      have "m' sv = 0" using q(8) x by (simp add: cstr_iff)
      then have "r = []" using q(9) by (cases r) auto
      with ts(3) x q(11) show ?thesis by simp
    qed (use ts(3) in simp)
    then have c2: "cstr m2 q tok" by (intro cstr_frame [OF q(8)]) simp
    have out: "m2 x = m x" if "x < a \<or> a + length s \<le> x" for x
    proof (cases "x = q + length tok")
      case True
      with that q(5-7,11) have "x = sv" "length r = 0" "sv = a + length s" by linarith+
      then have "m2 x = 0" using c2 True by (simp add: cstr_iff)
      moreover have "m x = 0" using less.prems(1) \<open>x = sv\<close> \<open>sv = a + length s\<close> by (simp add: cstr_iff)
      ultimately show ?thesis by simp
    next
      case False
      with that q ts(3) show ?thesis by auto
    qed
    have "strtok_loop m p b save = Some (q # ts, m2)"
      by (subst strtok_loop.simps) (use q(1,2) ts(1) in simp)
    moreover have "tokens (set t) s = tok # tokens (set t) r"
      using False by (simp add: tokens.simps [of _ s] u_def [symmetric] tok_def r_def Let_def)
    ultimately show ?thesis using c2 ts(2) out by auto
  qed
qed

subsection \<open>Properties\<close>

text \<open>
  \<^verbatim>\<open>memmove\<close>: for all blocks, overlapping in either direction or not, the destination afterwards holds
  what the source held before, and no other byte has changed. The pointer returned is the destination
  when it is not below the source, but the end of the destination when it is.
\<close>

theorem memmove_moves:
  assumes "dst \<noteq> 0" and "src \<noteq> 0"
  shows "\<exists>m'. memmove m dst src n = Some (if dst < src then dst + n else dst, m')
    \<and> bytes_at m' dst n = bytes_at m src n \<and> (\<forall>x. x < dst \<or> dst + n \<le> x \<longrightarrow> m' x = m x)"
proof (cases "dst < src")
  case True
  with assms show ?thesis by (auto simp: memmove_def copy_up_eq bytes_at_def)
next
  case False
  with assms show ?thesis by (auto simp: memmove_def copy_down_eq bytes_at_def)
qed

definition demo_mem :: mem where
  "demo_mem = (\<lambda>_. 0)(10 := 97, 11 := 47, 12 := 98, 20 := 47)"

lemma demo_strings: "cstr demo_mem 10 [97, 47, 98]" "cstr demo_mem 20 [47]"
  by (simp_all add: demo_mem_def)

text \<open>
  \<^verbatim>\<open>strcmp\<close> on two strings ends and gives 0 exactly if they are equal, and otherwise -1 or 1 as the first
  is below or above the second in the lexicographic order of unsigned characters.
\<close>

theorem strcmp_lexicographic:
  assumes "cstr m a s" and "cstr m b t" and "a \<noteq> 0" and "b \<noteq> 0"
  shows "strcmp m a b = Some (if s = t then 0 else if (s, t) \<in> lexord {(x, y). x < y} then -1 else 1)"
  using assms by (simp add: strcmp_def strcmp_loop_eq)

text \<open>
  \<^verbatim>\<open>strlcpy\<close> into a buffer of \<open>sz > 0\<close> bytes apart from the source: the buffer then holds a terminated
  string, the source cut to \<open>sz - 1\<close> characters; nothing outside of the buffer is written; and the length
  of the source is returned, so that a result of \<open>sz\<close> or more tells that the string was cut.
\<close>

theorem strlcpy_truncates:
  assumes s: "cstr m src s" and p: "src \<noteq> 0" "dst \<noteq> 0" "0 < sz"
    and apart: "{dst..<dst + sz} \<inter> {src..src + length s} = {}"
  shows "\<exists>m'. strlcpy m dst src sz = Some (length s, m') \<and> cstr m' dst (take (sz - 1) s) \<and> cstr m' src s
    \<and> (\<forall>x. x < dst \<or> dst + sz \<le> x \<longrightarrow> m' x = m x)"
proof -
  define n where "n = (if length s < sz - 1 then length s else sz - 1)"
  have n: "n < sz" "n \<le> length s" "take (sz - 1) s = take n s" "length (take n s) = n" using p by (auto simp: n_def)
  define m' where "m' = (copy_up n dst src m)(dst + n := 0)"
  have disj: "dst \<le> src \<or> src + n \<le> dst" using apart n p by (auto simp: disjoint_iff)
  have m': "m' x = (if x = dst + n then 0 else if dst \<le> x \<and> x < dst + n then m (src + (x - dst)) else m x)" for x
    by (simp add: m'_def copy_up_eq [OF disj])
  have "strlcpy m dst src sz = Some (length s, m')"
    using p s unfolding strlcpy_def Let_def strlen_eq [OF s p(1)] bind.bind_lunit n_def [symmetric]
    by (simp add: memcpy_def m'_def)
  moreover have "cstr m' dst (take n s)"
    unfolding cstr_iff using n cstr_nth [OF s] by (auto simp: m' in_set_conv_nth intro!: nth_equalityI)
  moreover have "cstr m' src s"
    by (rule cstr_frame [OF s]) (use apart n in \<open>auto simp: m' disjoint_iff\<close>)
  ultimately show ?thesis using n m' by auto
qed

text \<open>
  C29. \<^verbatim>\<open>strtok_r\<close>, called in the loop that its comment shows, ends, and the pointers that it returned then
  point to exactly the tokens of the string in their order: the maximal runs of characters that are no
  delimiters. No byte outside of the string has changed.
\<close>

theorem strtok_r_tokenizes:
  assumes "cstr m a s" and "a \<noteq> 0" and "cstr m b t" and "b \<noteq> 0" and "{a..a + length s} \<inter> {b..b + length t} = {}"
  shows "\<exists>ts m'. strtok_loop m a b save = Some (ts, m') \<and> list_all2 (cstr m') ts (tokens (set t) s)
    \<and> (\<forall>x. x < a \<or> a + length s \<le> x \<longrightarrow> m' x = m x)"
  using strtok_loop_tokens [OF assms, of a save] by simp

theorem strtok_r_tokenizes_witness:
  "\<exists>ts m'. strtok_loop demo_mem 10 20 0 = Some (ts, m') \<and> list_all2 (cstr m') ts [[97], [98]]"
proof -
  have "tokens (set [47]) [97, 47, 98] = [[97], [98]]" by (simp add: tokens.simps Let_def)
  with strtok_r_tokenizes [OF demo_strings(1) _ demo_strings(2), of 0] show ?thesis by auto
qed

end
