(* ===== verification/File.thy ===== *)
theory File
  imports FreeMap
begin

text \<open>
  Open files, \<^verbatim>\<open>filesys/file.c\<close> (with \<open>file_open\<close> in \<open>FreeMap\<close>): an inode with a position and a flag that says
  whether this file denies writes. The functions that change a file return it.
\<close>

definition file_reopen :: "fs \<Rightarrow> file_t \<Rightarrow> (file_t option \<times> fs) option" where
  "file_reopen s f = (case inode_reopen s (Some (file_inode f)) of (p, s) \<Rightarrow> file_open s p)"

definition file_deny_write :: "fs \<Rightarrow> file_t \<Rightarrow> (file_t \<times> fs) option" where
  "file_deny_write s f =
     (if \<not> deny_write f then do { s \<leftarrow> inode_deny_write s (file_inode f); Some (f\<lparr>deny_write := True\<rparr>, s) }
      else Some (f, s))"

definition file_allow_write :: "fs \<Rightarrow> file_t \<Rightarrow> (file_t \<times> fs) option" where
  "file_allow_write s f =
     (if deny_write f then do { s \<leftarrow> inode_allow_write s (file_inode f); Some (f\<lparr>deny_write := False\<rparr>, s) }
      else Some (f, s))"

definition file_close :: "fs \<Rightarrow> file_t option \<Rightarrow> fs option" where
  "file_close s p =
     (case p of None \<Rightarrow> Some s
      | Some f \<Rightarrow> do {
          (f, s) \<leftarrow> file_allow_write s f;
          inode_close s (Some (file_inode f)) })"

definition free_map_close :: "fs \<Rightarrow> fs option" where
  "free_map_close s = file_close s (free_map_file s)"

definition file_get_inode :: "file_t \<Rightarrow> nat" where
  "file_get_inode f = file_inode f"

definition file_read :: "fs \<Rightarrow> file_t \<Rightarrow> nat \<Rightarrow> (u8 list \<times> file_t) option" where
  "file_read s f sz = do {
     bytes \<leftarrow> inode_read_at s (file_inode f) sz (pos f);
     Some (bytes, f\<lparr>pos := pos f + length bytes\<rparr>) }"

definition file_read_at :: "fs \<Rightarrow> file_t \<Rightarrow> nat \<Rightarrow> nat \<Rightarrow> u8 list option" where
  "file_read_at s f sz file_ofs = inode_read_at s (file_inode f) sz file_ofs"

definition file_write :: "fs \<Rightarrow> file_t \<Rightarrow> u8 list \<Rightarrow> (nat \<times> file_t \<times> fs) option" where
  "file_write s f buf = do {
     (bytes_written, s) \<leftarrow> inode_write_at s (file_inode f) buf (pos f);
     Some (bytes_written, f\<lparr>pos := pos f + bytes_written\<rparr>, s) }"

definition file_write_at :: "fs \<Rightarrow> file_t \<Rightarrow> u8 list \<Rightarrow> nat \<Rightarrow> (nat \<times> fs) option" where
  "file_write_at s f buf file_ofs = inode_write_at s (file_inode f) buf file_ofs"

definition file_length :: "fs \<Rightarrow> file_t \<Rightarrow> nat" where
  "file_length s f = inode_length s (file_inode f)"

definition file_seek :: "file_t \<Rightarrow> nat \<Rightarrow> file_t" where
  "file_seek f new_pos = f\<lparr>pos := new_pos\<rparr>"

definition file_tell :: "file_t \<Rightarrow> nat" where
  "file_tell f = pos f"

definition get_sector_from_file :: "fs \<Rightarrow> file_t \<Rightarrow> nat" where
  "get_sector_from_file s f = get_sector_from_inode s (file_inode f)"

subsection \<open>Reading and writing in sequence\<close>

definition file_ok :: "fs \<Rightarrow> file_t \<Rightarrow> bool" where
  "file_ok s f \<longleftrightarrow> inode_ok s (data (inodes s ! file_inode f)) \<and> separate s (data (inodes s ! file_inode f))"

abbreviation file_contents :: "fs \<Rightarrow> file_t \<Rightarrow> u8 list" where
  "file_contents s f \<equiv> contents s (data (inodes s ! file_inode f))"

lemma file_read_eq:
  "file_ok s f \<Longrightarrow> file_read s f n =
    Some (take n (drop (pos f) (file_contents s f)), f\<lparr>pos := pos f + min n (length (file_contents s f) - pos f)\<rparr>)"
  by (simp add: file_read_def file_ok_def inode_read_at_contents min.commute)

fun read_all :: "fs \<Rightarrow> file_t \<Rightarrow> nat list \<Rightarrow> (u8 list \<times> file_t) option" where
  "read_all s f [] = Some ([], f)"
| "read_all s f (n # ns) = do { (bs, f) \<leftarrow> file_read s f n; (cs, f) \<leftarrow> read_all s f ns; Some (bs @ cs, f) }"

lemma read_all_eq:
  assumes "file_ok s f"
  shows "map_option fst (read_all s f ns) = Some (take (sum_list ns) (drop (pos f) (file_contents s f)))"
  using assms
proof (induction ns arbitrary: f)
  case (Cons n ns)
  let ?c = "file_contents s f"
  let ?g = "f\<lparr>pos := pos f + min n (length ?c - pos f)\<rparr>"
  have ok: "file_ok s ?g" using Cons.prems by (simp add: file_ok_def)
  have "take (sum_list ns) (drop (pos f + min n (length ?c - pos f)) ?c) = take (sum_list ns) (drop (pos f + n) ?c)"
    by (cases "n \<le> length ?c - pos f") (simp_all add: min_def)
  then show ?case
    using Cons.IH [OF ok] take_drop_split [of n "n + sum_list ns" "pos f" ?c]
    by (auto simp: file_read_eq [OF Cons.prems])
qed simp

text \<open>
  The locale of a byte stream with a position, over an abstract content: what users of files rely on.
\<close>

locale byte_stream =
  fixes good :: "'s \<Rightarrow> 'f \<Rightarrow> bool" and cont :: "'s \<Rightarrow> 'f \<Rightarrow> 'b list" and at :: "'f \<Rightarrow> nat" and seek :: "'f \<Rightarrow> nat \<Rightarrow> 'f"
    and rd :: "'s \<Rightarrow> 'f \<Rightarrow> nat \<Rightarrow> ('b list \<times> 'f) option"
    and wr :: "'s \<Rightarrow> 'f \<Rightarrow> 'b list \<Rightarrow> (nat \<times> 'f \<times> 's) option"
  assumes seek_law: "good s f \<Longrightarrow> good s (seek f p) \<and> cont s (seek f p) = cont s f \<and> at (seek f p) = p"
    and rd_law: "good s f \<Longrightarrow> at f \<le> length (cont s f) \<Longrightarrow>
      \<exists>f'. rd s f n = Some (take n (drop (at f) (cont s f)), f') \<and> good s f' \<and> cont s f' = cont s f
        \<and> at f' = at f + min n (length (cont s f) - at f)"
    and wr_law: "good s f \<Longrightarrow> at f + length bs \<le> length (cont s f) \<Longrightarrow> bs \<noteq> [] \<Longrightarrow>
      \<exists>f' s'. wr s f bs = Some (length bs, f', s') \<and> good s' f' \<and> at f' = at f + length bs
        \<and> cont s' f' = take (at f) (cont s f) @ bs @ drop (at f + length bs) (cont s f)"
begin

lemma write_seek_read:
  assumes "good s f" and "at f + length bs \<le> length (cont s f)" and "bs \<noteq> []"
  shows "\<exists>f' s' f''. wr s f bs = Some (length bs, f', s') \<and> rd s' (seek f' (at f)) (length bs) = Some (bs, f'')"
proof -
  obtain f' s' where w: "wr s f bs = Some (length bs, f', s')" "good s' f'"
    "cont s' f' = take (at f) (cont s f) @ bs @ drop (at f + length bs) (cont s f)"
    using wr_law [OF assms] by blast
  have k: "good s' (seek f' (at f))" "cont s' (seek f' (at f)) = cont s' f'" "at (seek f' (at f)) = at f"
    using seek_law [OF w(2)] by blast+
  have "at f \<le> length (cont s' f')" using assms(2) w(3) by simp
  then obtain f'' where "rd s' (seek f' (at f)) (length bs) = Some (take (length bs) (drop (at f) (cont s' f')), f'')"
    using rd_law [OF k(1), of "length bs"] k by auto
  moreover have "take (length bs) (drop (at f) (cont s' f')) = bs" using w(3) assms(2) by simp
  ultimately show ?thesis using w(1) by auto
qed

text \<open>Two writes one after the other are one write of both.\<close>

lemma write_write:
  assumes "good s f" and "at f + length (bs @ cs) \<le> length (cont s f)" and "bs \<noteq> []" and "cs \<noteq> []"
  shows "\<exists>f1 s1 f2 s2. wr s f bs = Some (length bs, f1, s1) \<and> wr s1 f1 cs = Some (length cs, f2, s2)
    \<and> cont s2 f2 = take (at f) (cont s f) @ (bs @ cs) @ drop (at f + length (bs @ cs)) (cont s f)"
proof -
  obtain f1 s1 where w: "wr s f bs = Some (length bs, f1, s1)" "good s1 f1" "at f1 = at f + length bs"
    "cont s1 f1 = take (at f) (cont s f) @ bs @ drop (at f + length bs) (cont s f)"
    using wr_law [of s f bs] assms by auto
  have "length (cont s1 f1) = length (cont s f)" using assms(2) w(4) by simp
  then have "at f1 + length cs \<le> length (cont s1 f1)" using assms(2) w(3) by simp
  from wr_law [OF w(2) this assms(4)] obtain f2 s2 where
    w2: "wr s1 f1 cs = Some (length cs, f2, s2)"
    "cont s2 f2 = take (at f1) (cont s1 f1) @ cs @ drop (at f1 + length cs) (cont s1 f1)" by blast
  have "take (at f1) (cont s1 f1) = take (at f) (cont s f) @ bs"
    "drop (at f1 + length cs) (cont s1 f1) = drop (at f + length (bs @ cs)) (cont s f)"
    using assms(2) w(3,4) by (simp_all add: add.commute add.left_commute)
  with w(1) w2 show ?thesis by (intro exI conjI) auto
qed

end

lemma file_write_eq:
  assumes ok: "file_ok s f" and w: "deny_write_cnt (inodes s ! file_inode f) = 0" and n: "0 < length (file_contents s f)"
    and len: "pos f + length buf \<le> length (file_contents s f)"
  shows "\<exists>s'. file_write s f buf = Some (length buf, f\<lparr>pos := pos f + length buf\<rparr>, s') \<and> file_ok s' f
    \<and> file_contents s' f = patch (file_contents s f) (pos f) buf \<and> disk_only s s' (data_sectors s (data (inodes s ! file_inode f)))"
proof -
  let ?d = "data (inodes s ! file_inode f)"
  have o: "inode_ok s ?d" "separate s ?d" using ok by (simp_all add: file_ok_def)
  have l: "pos f + length buf \<le> dlength ?d" "0 < dlength ?d" using len n by simp_all
  have "(pos f + length buf - 1) div 512 \<le> dlength ?d div 512" using l by (intro div_le_mono) simp
  then have "inode_write_at s (file_inode f) buf (pos f) = write_loop s ?d buf (pos f)"
    using w l by (simp add: inode_write_at_def inode_write_at_with_def inode_length_def BLOCK_SECTOR_SIZE_def)
  moreover obtain s' where s': "write_loop s ?d buf (pos f) = Some (length buf, s')" "contents s' ?d = patch (contents s ?d) (pos f) buf"
    "inode_ok s' ?d" "separate s' ?d" "disk_only s s' (data_sectors s ?d)"
    using write_loop_contents [OF o l(1)] by blast
  ultimately show ?thesis using disk_only_fields(3) [OF s'(5)] by (simp add: file_write_def file_ok_def)
qed

definition writable_file :: "fs \<Rightarrow> file_t \<Rightarrow> bool" where
  "writable_file s f \<longleftrightarrow> file_ok s f \<and> deny_write_cnt (inodes s ! file_inode f) = 0"

interpretation files: byte_stream writable_file file_contents file_tell file_seek file_read file_write
proof
  fix s f assume g: "writable_file s f"
  then have ok: "file_ok s f" by (simp add: writable_file_def)
  show "writable_file s (file_seek f p) \<and> file_contents s (file_seek f p) = file_contents s f \<and> file_tell (file_seek f p) = p" for p
    using g by (simp add: writable_file_def file_ok_def file_seek_def file_tell_def)
  show "\<exists>f'. file_read s f n = Some (take n (drop (file_tell f) (file_contents s f)), f') \<and> writable_file s f'
      \<and> file_contents s f' = file_contents s f \<and> file_tell f' = file_tell f + min n (length (file_contents s f) - file_tell f)" for n
    using g by (simp add: file_read_eq [OF ok] writable_file_def file_ok_def file_tell_def)
  show "\<exists>f' s'. file_write s f bs = Some (length bs, f', s') \<and> writable_file s' f' \<and> file_tell f' = file_tell f + length bs
      \<and> file_contents s' f' = take (file_tell f) (file_contents s f) @ bs @ drop (file_tell f + length bs) (file_contents s f)"
    if "file_tell f + length bs \<le> length (file_contents s f)" "bs \<noteq> []" for bs
  proof -
    have "0 < length (file_contents s f)" using that by (cases bs) auto
    with file_write_eq [OF ok _ this] that g obtain s' where
      s': "file_write s f bs = Some (length bs, f\<lparr>pos := pos f + length bs\<rparr>, s')" "file_ok s' f"
      "file_contents s' f = patch (file_contents s f) (pos f) bs" "disk_only s s' (data_sectors s (data (inodes s ! file_inode f)))"
      by (auto simp: writable_file_def file_tell_def)
    then show ?thesis
      using g disk_only_fields(3) [OF s'(4)] by (simp add: writable_file_def file_ok_def file_tell_def patch_def)
  qed
qed

subsection \<open>Properties\<close>

definition demo_file :: file_t where
  "demo_file = \<lparr>file_inode = 0, pos = 510, deny_write = False\<rparr>"

lemma demo_file_writable: "writable_file demo_fs demo_file" "length (file_contents demo_fs demo_file) = 600"
proof -
  have d: "data (inodes demo_fs ! file_inode demo_file) = demo_inode" "deny_write_cnt (inodes demo_fs ! file_inode demo_file) = 0"
    by (simp_all add: demo_fs_def demo_file_def)
  then show "writable_file demo_fs demo_file" using demo_inode_ok by (simp add: writable_file_def file_ok_def)
  show "length (file_contents demo_fs demo_file) = 600" using d by (simp add: demo_inode_def)
qed

text \<open>
  Sequential writing and reading of a file that is long enough: \<^verbatim>\<open>file_write\<close> writes all bytes at the
  position and advances it; seeking back and reading as many bytes gives the bytes written; and a second
  write continues where the first one ended, so that both together are one write of all bytes.
\<close>

theorem file_write_seek_read:
  assumes "writable_file s f" and "pos f + length (bs @ cs) \<le> length (file_contents s f)" and "bs \<noteq> []" and "cs \<noteq> []"
  shows "(\<exists>f1 s1 f2. file_write s f bs = Some (length bs, f1, s1) \<and> file_read s1 (file_seek f1 (pos f)) (length bs) = Some (bs, f2))
    \<and> (\<exists>f1 s1 f2 s2. file_write s f bs = Some (length bs, f1, s1) \<and> file_write s1 f1 cs = Some (length cs, f2, s2)
        \<and> file_contents s2 f2 = patch (file_contents s f) (pos f) (bs @ cs))"
  using files.write_seek_read [OF assms(1), of bs] files.write_write [OF assms(1), of bs cs] assms(2-4)
  by (simp add: file_tell_def patch_def)

text \<open>
  Reading a file in pieces of any sizes with \<^verbatim>\<open>file_read\<close> gives, put together, the bytes that one read of
  the total size gives: no byte is lost, repeated or read past the end of the file.
\<close>

theorem file_read_pieces:
  assumes "file_ok s f"
  shows "map_option fst (read_all s f ns) = map_option fst (file_read s f (sum_list ns))"
  by (simp add: read_all_eq [OF assms] file_read_eq [OF assms])

text \<open>
  \<^verbatim>\<open>file_deny_write\<close> on an open inode with fewer deniers than openers: every write through any file of that
  inode then writes nothing and changes nothing, and \<^verbatim>\<open>file_allow_write\<close> leads back to exactly the state
  before. A denial more than there are openers, and an allowance without a denial, are panics.
\<close>

theorem file_deny_allow_write:
  assumes "file_inode f < length (inodes s)" and "\<not> deny_write f" and "0 \<le> deny_write_cnt (inodes s ! file_inode f)"
  shows "if deny_write_cnt (inodes s ! file_inode f) < open_cnt (inodes s ! file_inode f)
    then \<exists>f1 s1. file_deny_write s f = Some (f1, s1)
      \<and> (\<forall>g buf. file_inode g = file_inode f \<longrightarrow> file_write s1 g buf = Some (0, g, s1))
      \<and> file_allow_write s1 f1 = Some (f, s)
    else file_deny_write s f = None"
proof -
  let ?i = "file_inode f"
  let ?s = "upd_inode ?i (\<lambda>n. n\<lparr>deny_write_cnt := deny_write_cnt n + 1\<rparr>) s"
  have n: "inodes ?s ! ?i = (inodes s ! ?i)\<lparr>deny_write_cnt := deny_write_cnt (inodes s ! ?i) + 1\<rparr>"
    using assms(1) by (simp add: upd_inode_def)
  show ?thesis
  proof (cases "deny_write_cnt (inodes s ! ?i) < open_cnt (inodes s ! ?i)")
    case True
    let ?f = "f\<lparr>deny_write := True\<rparr>"
    have d: "file_deny_write s f = Some (?f, ?s)"
      using assms(2) True n by (simp add: file_deny_write_def inode_deny_write_def panic_simps)
    have w: "file_write ?s g buf = Some (0, g, ?s)" if "file_inode g = ?i" for g buf
      using assms(3) that n by (simp add: file_write_def inode_write_at_def inode_write_at_with_def)
    have "upd_inode ?i (\<lambda>n. n\<lparr>deny_write_cnt := deny_write_cnt n - 1\<rparr>) ?s = s"
      using assms(1) by (simp add: upd_inode_def)
    then have "file_allow_write ?s ?f = Some (f, s)"
      using assms(2,3) True n by (simp add: file_allow_write_def inode_allow_write_def panic_simps)
    with True d w show ?thesis by auto
  next
    case False
    then show ?thesis
      using assms(2) n by (simp add: file_deny_write_def inode_deny_write_def panic_simps)
  qed
qed

end
