(* ===== verification/Directory.thy ===== *)
theory Directory
  imports File
begin

text \<open>
  Directories, \<^verbatim>\<open>filesys/directory.c\<close>: files whose content is an array of entries of 20 bytes (the sector of an
  inode in 4 bytes, a name in 15 bytes with its null byte, and a byte that says whether the entry is in
  use). File names are lists of characters without the null byte; \<^verbatim>\<open>strcmp\<close> with the name of an entry is
  equality with the characters before its null byte. \<^verbatim>\<open>dir_add\<close> has an entry on its stack that it does
  not initialise; \<open>stack\<close> is what it holds.
\<close>

record dir =
  dir_inode :: nat
  dir_pos :: nat

definition NAME_MAX :: nat where
  "NAME_MAX = 14"

definition entry_sector :: "u8 list \<Rightarrow> nat" where
  "entry_sector e = unat (bytes_u32 (e ! 0) (e ! 1) (e ! 2) (e ! 3))"

definition entry_name :: "u8 list \<Rightarrow> u8 list" where
  "entry_name e = takeWhile (\<lambda>c. c \<noteq> 0) (take 15 (drop 4 e))"

definition entry_in_use :: "u8 list \<Rightarrow> bool" where
  "entry_in_use e \<longleftrightarrow> e ! 19 \<noteq> 0"

text \<open>The assignments of \<^verbatim>\<open>dir_add\<close>: \<^verbatim>\<open>strlcpy\<close> leaves what follows the null byte of the name as it was.\<close>

definition fill_entry :: "u8 list \<Rightarrow> u8 list \<Rightarrow> nat \<Rightarrow> u8 list" where
  "fill_entry e name sec =
     (let n = min NAME_MAX (length name)
      in u32_bytes (word_of_nat sec) @ (take n name @ [0] @ drop (n + 1) (take 15 (drop 4 e))) @ [1])"

partial_function (option) lookup_loop :: "fs \<Rightarrow> nat \<Rightarrow> u8 list \<Rightarrow> nat \<Rightarrow> (u8 list \<times> nat) option option" where
  "lookup_loop s i name ofs = do {
     e \<leftarrow> inode_read_at s i 20 ofs;
     if length e = 20
     then if entry_in_use e \<and> name = entry_name e then Some (Some (e, ofs)) else lookup_loop s i name (ofs + 20)
     else Some None }"

definition lookup :: "fs \<Rightarrow> nat \<Rightarrow> u8 list \<Rightarrow> (u8 list \<times> nat) option option" where
  "lookup s i name = lookup_loop s i name 0"

definition dir_open :: "fs \<Rightarrow> nat option \<Rightarrow> (dir option \<times> fs) option" where
  "dir_open s p =
     (case p of
        Some i \<Rightarrow>
          if heap_ok s then Some (Some \<lparr>dir_inode = i, dir_pos = 0\<rparr>, s)
          else do { s \<leftarrow> inode_close s (Some i); Some (None, s) }
      | None \<Rightarrow> Some (None, s))"

definition dir_open_root :: "fs \<Rightarrow> (dir option \<times> fs) option" where
  "dir_open_root s = do { (p, s) \<leftarrow> inode_open s ROOT_DIR_SECTOR; dir_open s p }"

definition dir_reopen :: "fs \<Rightarrow> dir \<Rightarrow> (dir option \<times> fs) option" where
  "dir_reopen s d = (case inode_reopen s (Some (dir_inode d)) of (p, s) \<Rightarrow> dir_open s p)"

definition dir_close :: "fs \<Rightarrow> dir option \<Rightarrow> fs option" where
  "dir_close s p = (case p of None \<Rightarrow> Some s | Some d \<Rightarrow> inode_close s (Some (dir_inode d)))"

definition dir_get_inode :: "dir \<Rightarrow> nat" where
  "dir_get_inode d = dir_inode d"

definition dir_lookup :: "fs \<Rightarrow> dir \<Rightarrow> u8 list \<Rightarrow> (nat option \<times> fs) option" where
  "dir_lookup s d name = do {
     r \<leftarrow> lookup s (dir_inode d) name;
     case r of Some (e, ofs) \<Rightarrow> inode_open s (entry_sector e) | None \<Rightarrow> Some (None, s) }"

partial_function (option) find_slot :: "fs \<Rightarrow> nat \<Rightarrow> u8 list \<Rightarrow> nat \<Rightarrow> (u8 list \<times> nat) option" where
  "find_slot s i e ofs = do {
     bytes \<leftarrow> inode_read_at s i 20 ofs;
     let e = bytes @ drop (length bytes) e;
     if length bytes = 20 \<and> entry_in_use e then find_slot s i e (ofs + 20) else Some (e, ofs) }"

definition dir_add :: "u8 list \<Rightarrow> fs \<Rightarrow> dir \<Rightarrow> u8 list \<Rightarrow> nat \<Rightarrow> (bool \<times> fs) option" where
  "dir_add stack s d name sec =
     (if name = [] \<or> length name > NAME_MAX then Some (False, s)
      else do {
        r \<leftarrow> lookup s (dir_inode d) name;
        if r \<noteq> None then Some (False, s)
        else do {
          (e, ofs) \<leftarrow> find_slot s (dir_inode d) stack 0;
          (n, s) \<leftarrow> inode_write_at s (dir_inode d) (fill_entry e name sec) ofs;
          Some (n = 20, s) } })"

definition dir_remove :: "fs \<Rightarrow> dir \<Rightarrow> u8 list \<Rightarrow> (bool \<times> fs) option" where
  "dir_remove s d name = do {
     r \<leftarrow> lookup s (dir_inode d) name;
     case r of
       None \<Rightarrow> Some (False, s)
     | Some (e, ofs) \<Rightarrow> do {
         (p, s) \<leftarrow> inode_open s (entry_sector e);
         case p of
           None \<Rightarrow> Some (False, s)
         | Some i \<Rightarrow> do {
             (n, s) \<leftarrow> inode_write_at s (dir_inode d) (e[19 := 0]) ofs;
             let s = (if n \<noteq> 20 then s else inode_remove s i);
             s \<leftarrow> inode_close s (Some i);
             Some (n = 20, s) } } }"

partial_function (option) dir_readdir :: "fs \<Rightarrow> dir \<Rightarrow> (u8 list option \<times> dir) option" where
  "dir_readdir s d = do {
     e \<leftarrow> inode_read_at s (dir_inode d) 20 (dir_pos d);
     if length e = 20
     then do {
       let d = d\<lparr>dir_pos := dir_pos d + 20\<rparr>;
       if entry_in_use e then Some (Some (take NAME_MAX (entry_name e)), d) else dir_readdir s d }
     else Some (None, d) }"

definition self_path :: "u8 list" where
  "self_path = [46]"

definition parent_path :: "u8 list" where
  "parent_path = [46, 46]"

definition dir_create :: "u8 list \<Rightarrow> u8 list \<Rightarrow> fs \<Rightarrow> nat \<Rightarrow> nat \<Rightarrow> nat \<Rightarrow> (bool \<times> fs) option" where
  "dir_create stack1 stack2 s sec entry_cnt parent = do {
     (success, s) \<leftarrow> inode_create s sec (entry_cnt * 20) True;
     ASSERT (heap_ok s);
     (p, s) \<leftarrow> inode_open s sec;
     i \<leftarrow> p;
     let d = \<lparr>dir_inode = i, dir_pos = 0\<rparr>;
     (ok1, s) \<leftarrow> dir_add stack1 s d self_path sec;
     (ok2, s) \<leftarrow> dir_add stack2 s d parent_path parent;
     s \<leftarrow> dir_close s (Some d);
     Some (success \<and> ok1 \<and> ok2, s) }"

subsection \<open>Directories as arrays of entries\<close>

definition slots :: "u8 list \<Rightarrow> u8 list list" where
  "slots cs = map (\<lambda>k. take 20 (drop (20 * k) cs)) [0..<length cs div 20]"

definition holds_name :: "u8 list \<Rightarrow> u8 list \<Rightarrow> bool" where
  "holds_name name e \<longleftrightarrow> entry_in_use e \<and> name = entry_name e"

abbreviation dir_bytes :: "fs \<Rightarrow> nat \<Rightarrow> u8 list" where
  "dir_bytes s i \<equiv> contents s (data (inodes s ! i))"

lemma length_slots [simp]: "length (slots cs) = length cs div 20"
  by (simp add: slots_def)

lemma nth_slots [simp]: "k < length cs div 20 \<Longrightarrow> slots cs ! k = take 20 (drop (20 * k) cs)"
  by (simp add: slots_def)

lemma length_slot: "k < length cs div 20 \<longleftrightarrow> length (take 20 (drop (20 * k) cs)) = 20"
proof -
  have "k < length cs div 20 \<longleftrightarrow> Suc k \<le> length cs div 20" by auto
  also have "\<dots> \<longleftrightarrow> Suc k * 20 \<le> length cs" by (rule less_eq_div_iff_mult_less_eq) simp
  finally show ?thesis by (auto simp: min_def)
qed

lemma find_upt_step: "k < n \<Longrightarrow> find P [k..<n] = (if P k then Some k else find P [Suc k..<n])"
  by (simp add: upt_conv_Cons)

lemma lookup_loop_eq:
  assumes "inode_ok s (data (inodes s ! i))"
  shows "lookup_loop s i name (20 * k) =
    Some (map_option (\<lambda>j. (slots (dir_bytes s i) ! j, 20 * j))
      (find (\<lambda>j. holds_name name (slots (dir_bytes s i) ! j)) [k..<length (slots (dir_bytes s i))]))"
proof (induction "length (slots (dir_bytes s i)) - k" arbitrary: k)
  case 0
  then have k: "\<not> k < length (dir_bytes s i) div 20" by simp
  then have "length (take 20 (drop (20 * k) (dir_bytes s i))) \<noteq> 20" using length_slot by metis
  with k show ?case
    by (subst lookup_loop.simps) (simp add: inode_read_at_contents [OF assms] del: length_contents length_take length_drop)
next
  case (Suc n)
  then have k: "k < length (dir_bytes s i) div 20" by simp
  then have l: "length (take 20 (drop (20 * k) (dir_bytes s i))) = 20" using length_slot by metis
  have "lookup_loop s i name (20 * k + 20) = Some (map_option (\<lambda>j. (slots (dir_bytes s i) ! j, 20 * j))
      (find (\<lambda>j. holds_name name (slots (dir_bytes s i) ! j)) [Suc k..<length (slots (dir_bytes s i))]))"
    using Suc.hyps(1) [of "Suc k"] Suc.hyps(2) by (simp add: add.commute)
  with k l show ?case
    by (subst lookup_loop.simps)
      (simp add: inode_read_at_contents [OF assms] find_upt_step holds_name_def del: length_contents length_take length_drop)
qed

lemma lookup_eq:
  assumes "inode_ok s (data (inodes s ! i))"
  shows "lookup s i name = Some (map_option (\<lambda>j. (slots (dir_bytes s i) ! j, 20 * j))
      (find (\<lambda>j. holds_name name (slots (dir_bytes s i) ! j)) [0..<length (slots (dir_bytes s i))]))"
  using lookup_loop_eq [OF assms, of name 0] by (simp add: lookup_def)

lemma find_slot_eq:
  assumes ok: "inode_ok s (data (inodes s ! i))" and "length e = 20"
    and "find (\<lambda>j. \<not> entry_in_use (slots (dir_bytes s i) ! j)) [k..<length (slots (dir_bytes s i))] = Some j"
  shows "find_slot s i e (20 * k) = Some (slots (dir_bytes s i) ! j, 20 * j)"
  using assms(2,3)
proof (induction "length (slots (dir_bytes s i)) - k" arbitrary: k e)
  case 0
  then show ?case by simp
next
  case (Suc n)
  then have k: "k < length (dir_bytes s i) div 20" by simp
  then have l: "length (take 20 (drop (20 * k) (dir_bytes s i))) = 20" using length_slot by metis
  let ?e = "take 20 (drop (20 * k) (dir_bytes s i))"
  show ?case
  proof (cases "entry_in_use ?e")
    case True
    then have f: "find (\<lambda>j. \<not> entry_in_use (slots (dir_bytes s i) ! j)) [Suc k..<length (slots (dir_bytes s i))] = Some j"
      using Suc.prems(2) k by (simp add: find_upt_step)
    have "find_slot s i ?e (20 * Suc k) = Some (slots (dir_bytes s i) ! j, 20 * j)"
      using Suc.hyps(1) [OF _ l f] Suc.hyps(2) by simp
    with True l Suc.prems(1) show ?thesis
      by (subst find_slot.simps)
        (simp add: inode_read_at_contents [OF ok] add.commute del: length_contents length_take length_drop)
  next
    case False
    then have "j = k" using Suc.prems(2) k by (simp add: find_upt_step)
    with False l k Suc.prems(1) show ?thesis
      by (subst find_slot.simps)
        (simp add: inode_read_at_contents [OF ok] del: length_contents length_take length_drop)
  qed
qed

lemma slots_patch:
  assumes k: "k < length cs div 20" and e: "length e = 20"
  shows "slots (patch cs (20 * k) e) = (slots cs)[k := e]"
proof (rule nth_equalityI)
  have "length (take 20 (drop (20 * k) cs)) = 20" using k length_slot by blast
  then have b: "20 * k + 20 \<le> length cs" by simp
  then show "length (slots (patch cs (20 * k) e)) = length ((slots cs)[k := e])" using e by simp
  fix j assume "j < length (slots (patch cs (20 * k) e))"
  then have j: "j < length cs div 20" using b e by simp
  then have "length (take 20 (drop (20 * j) cs)) = 20" using length_slot by blast
  then have bj: "20 * j + 20 \<le> length cs" by simp
  have "take 20 (drop (20 * j) (patch cs (20 * k) e)) = (if j = k then e else take 20 (drop (20 * j) cs))"
    using b bj e by (intro nth_equalityI) (auto simp: nth_patch)
  then show "slots (patch cs (20 * k) e) ! j = (slots cs)[k := e] ! j"
    using j b e by (simp add: nth_list_update)
qed

lemma length_fill_entry: "length e = 20 \<Longrightarrow> length (fill_entry e name sec) = 20"
  by (simp add: fill_entry_def Let_def NAME_MAX_def min_def)

lemma fill_entry_fields:
  assumes "length e = 20" and "length name \<le> NAME_MAX" and "0 \<notin> set name" and "sec < 4294967296"
  shows "entry_name (fill_entry e name sec) = name" and "entry_in_use (fill_entry e name sec)"
    and "entry_sector (fill_entry e name sec) = sec"
proof -
  define r where "r = drop (length name + 1) (take 15 (drop 4 e))"
  have n: "min 14 (length name) = length name" using assms(2) by (simp add: NAME_MAX_def)
  have f: "fill_entry e name sec = u32_bytes (word_of_nat sec) @ (name @ 0 # r) @ [1]"
    using assms(2) by (simp add: fill_entry_def Let_def n NAME_MAX_def r_def)
  have lr: "length (name @ 0 # r) = 15" using assms(1,2) by (simp add: r_def NAME_MAX_def)
  have "drop 4 (fill_entry e name sec) = (name @ 0 # r) @ [1]" by (simp add: f)
  then have "take 15 (drop 4 (fill_entry e name sec)) = name @ 0 # r"
    using lr by (metis append_eq_conv_conj)
  then show "entry_name (fill_entry e name sec) = name"
    using assms(3) by (simp add: entry_name_def) (metis (mono_tags, lifting) takeWhile_append2 takeWhile.simps(2) append_Nil2)
  have "fill_entry e name sec = (u32_bytes (word_of_nat sec) @ name @ 0 # r) @ [1]"
    and "length (u32_bytes (word_of_nat sec) @ name @ 0 # r) = 19" using lr by (simp_all add: f)
  then have "fill_entry e name sec ! 19 = 1" by (metis nth_append_length)
  then show "entry_in_use (fill_entry e name sec)" by (simp add: entry_in_use_def)
  have "bytes_u32 (fill_entry e name sec ! 0) (fill_entry e name sec ! 1) (fill_entry e name sec ! 2) (fill_entry e name sec ! 3) = word_of_nat sec"
    unfolding f by (simp add: u32_bytes_def) (metis bytes_u32_u32_bytes)
  then show "entry_sector (fill_entry e name sec) = sec"
    using assms(4) by (simp add: entry_sector_def unat_of_nat take_bit_nat_eq_self)
qed

lemma find_cong_except:
  assumes "\<And>k. k \<in> set xs \<Longrightarrow> P k = Q k"
  shows "find P xs = find Q xs"
  using assms by (induction xs) auto

text \<open>\<open>dir_sector s i name\<close>: the inode that the directory gives for a name.\<close>

definition dir_sector :: "fs \<Rightarrow> nat \<Rightarrow> u8 list \<Rightarrow> nat option" where
  "dir_sector s i name = map_option entry_sector (find (holds_name name) (slots (dir_bytes s i)))"

lemma find_nth: "find P xs = map_option (\<lambda>j. xs ! j) (find (\<lambda>j. P (xs ! j)) [0..<length xs])"
proof -
  have "find P (map (\<lambda>j. xs ! j) ys) = map_option (\<lambda>j. xs ! j) (find (\<lambda>j. P (xs ! j)) ys)" for ys
    by (induction ys) auto
  from this [of "[0..<length xs]"] show ?thesis by (simp add: map_nth)
qed

lemma lookup_dir_sector:
  assumes "inode_ok s (data (inodes s ! i))"
  shows "map_option (map_option (entry_sector \<circ> fst)) (lookup s i name) = Some (dir_sector s i name)"
  by (simp add: lookup_eq [OF assms] dir_sector_def find_nth [of _ "slots (dir_bytes s i)"] option.map_comp comp_def)

text \<open>Writing one slot of a directory.\<close>

lemma write_slot:
  assumes ok: "inode_ok s (data (inodes s ! i))" "separate s (data (inodes s ! i))" "deny_write_cnt (inodes s ! i) = 0"
    and j: "j < length (slots (dir_bytes s i))" and e: "length e = 20"
  shows "\<exists>s'. inode_write_at s i e (20 * j) = Some (20, s') \<and> inode_ok s' (data (inodes s' ! i))
    \<and> separate s' (data (inodes s' ! i)) \<and> slots (dir_bytes s' i) = (slots (dir_bytes s i))[j := e]
    \<and> disk_only s s' (data_sectors s (data (inodes s ! i)))"
proof -
  let ?f = "\<lparr>file_inode = i, pos = 20 * j, deny_write = False\<rparr>"
  have "length (take 20 (drop (20 * j) (dir_bytes s i))) = 20" using j length_slot by (metis length_slots)
  then have b: "20 * j + length e \<le> length (dir_bytes s i)" using e by simp
  have "file_ok s ?f" using ok by (simp add: file_ok_def)
  from file_write_eq [OF this, of e] b ok(3) e obtain s' where
    s': "file_write s ?f e = Some (length e, ?f\<lparr>pos := pos ?f + length e\<rparr>, s')" "file_ok s' ?f"
    "contents s' (data (inodes s' ! i)) = patch (dir_bytes s i) (20 * j) e" "disk_only s s' (data_sectors s (data (inodes s ! i)))"
    by auto
  have "inode_write_at s i e (20 * j) = Some (20, s')"
    using s'(1) e by (auto simp: file_write_def bind_Some_iff)
  moreover have "slots (dir_bytes s' i) = (slots (dir_bytes s i))[j := e]"
    using s'(3) j e slots_patch by simp
  ultimately show ?thesis using s'(2,4) by (auto simp: file_ok_def)
qed

subsection \<open>Directories as maps from names to inodes\<close>

lemma find_None_update:
  assumes "find P xs = None" and "j < length xs" and "P y"
  shows "find P (xs[j := y]) = Some y"
  using assms by (induction xs arbitrary: j) (auto split: if_splits nat.splits)

lemma find_same_update:
  assumes "j < length xs" and "\<not> P (xs ! j)" and "\<not> P y"
  shows "find P (xs[j := y]) = find P xs"
  using assms by (induction xs arbitrary: j) (auto split: nat.splits)

lemma find_first:
  assumes "find P xs = Some x"
  shows "\<exists>j < length xs. xs ! j = x \<and> P x \<and> find (\<lambda>j. P (xs ! j)) [0..<length xs] = Some j"
proof -
  from assms find_nth [of P xs] obtain j where j: "find (\<lambda>j. P (xs ! j)) [0..<length xs] = Some j" "xs ! j = x"
    by auto
  then have "j < length xs" "P (xs ! j)" by (auto simp: find_Some_iff)
  with j show ?thesis by auto
qed

text \<open>No two entries in use have the same name.\<close>

definition names_unique :: "u8 list list \<Rightarrow> bool" where
  "names_unique es \<longleftrightarrow> (\<forall>j < length es. \<forall>k < length es. entry_in_use (es ! j) \<longrightarrow> entry_in_use (es ! k)
     \<longrightarrow> entry_name (es ! j) = entry_name (es ! k) \<longrightarrow> j = k)"

lemma names_unique_add:
  assumes "names_unique es" and "find (holds_name (entry_name e)) es = None" and "j < length es"
  shows "names_unique (es[j := e])"
proof -
  have "\<forall>k < length es. entry_in_use (es ! k) \<longrightarrow> entry_name (es ! k) \<noteq> entry_name e"
    using assms(2) unfolding find_None_iff holds_name_def by (metis nth_mem)
  with assms(1,3) show ?thesis unfolding names_unique_def by (auto simp: nth_list_update)
qed

lemma names_unique_erase:
  assumes "names_unique es" and "\<not> entry_in_use e" and "j < length es"
  shows "names_unique (es[j := e])"
  using assms unfolding names_unique_def by (auto simp: nth_list_update)

lemma names_unique_remove:
  assumes "names_unique es" and "j < length es" and "holds_name name (es ! j)" and "\<not> entry_in_use e"
  shows "find (holds_name name) (es[j := e]) = None"
proof -
  have "\<not> holds_name name ((es[j := e]) ! k)" if "k < length es" for k
    using assms that unfolding names_unique_def holds_name_def by (metis nth_list_update_eq nth_list_update_neq)
  then show ?thesis by (auto simp: find_None_iff in_set_conv_nth)
qed

definition valid_name :: "u8 list \<Rightarrow> bool" where
  "valid_name name \<longleftrightarrow> name \<noteq> [] \<and> length name \<le> NAME_MAX \<and> 0 \<notin> set name"

definition dir_ok :: "fs \<Rightarrow> nat \<Rightarrow> bool" where
  "dir_ok s i \<longleftrightarrow> inode_ok s (data (inodes s ! i)) \<and> separate s (data (inodes s ! i))
     \<and> deny_write_cnt (inodes s ! i) = 0 \<and> names_unique (slots (dir_bytes s i))"

lemma lookup_fails:
  assumes "dir_ok s i"
  shows "lookup s i name = Some None \<longleftrightarrow> dir_sector s i name = None"
  using lookup_dir_sector [of s i name] assms by (auto simp: dir_ok_def)

lemma dir_add_eq:
  assumes d: "dir_ok s (dir_inode d)" and name: "valid_name name" "sec < 4294967296" "dir_sector s (dir_inode d) name = None"
    and free: "\<exists>e \<in> set (slots (dir_bytes s (dir_inode d))). \<not> entry_in_use e" and stack: "length stack = 20"
  shows "\<exists>s'. dir_add stack s d name sec = Some (True, s') \<and> dir_ok s' (dir_inode d)
    \<and> dir_sector s' (dir_inode d) = (dir_sector s (dir_inode d))(name \<mapsto> sec)
    \<and> disk_only s s' (data_sectors s (data (inodes s ! dir_inode d)))"
proof -
  let ?i = "dir_inode d"
  let ?es = "slots (dir_bytes s ?i)"
  have ok: "inode_ok s (data (inodes s ! ?i))" "separate s (data (inodes s ! ?i))" "deny_write_cnt (inodes s ! ?i) = 0"
    and u: "names_unique ?es" using d by (simp_all add: dir_ok_def)
  from free obtain x where "find (\<lambda>e. \<not> entry_in_use e) ?es = Some x"
    by (cases "find (\<lambda>e. \<not> entry_in_use e) ?es") (auto simp: find_None_iff)
  from find_first [OF this] obtain j where j: "j < length ?es" "\<not> entry_in_use (?es ! j)"
    "find (\<lambda>j. \<not> entry_in_use (?es ! j)) [0..<length ?es] = Some j" by auto
  let ?e = "fill_entry (?es ! j) name sec"
  have "length (?es ! j) = 20" using j(1) length_slot by auto
  with name have e: "length ?e = 20" "entry_name ?e = name" "entry_in_use ?e" "entry_sector ?e = sec"
    by (simp_all add: length_fill_entry fill_entry_fields valid_name_def)
  from write_slot [OF ok j(1) e(1)] obtain s' where s': "inode_write_at s ?i ?e (20 * j) = Some (20, s')"
    "inode_ok s' (data (inodes s' ! ?i))" "separate s' (data (inodes s' ! ?i))" "slots (dir_bytes s' ?i) = ?es[j := ?e]"
    "disk_only s s' (data_sectors s (data (inodes s ! ?i)))" by blast
  have "dir_add stack s d name sec = Some (True, s')"
    using name lookup_fails [OF d, THEN iffD2, OF name(3)] find_slot_eq [OF ok(1) stack j(3)] s'(1)
    by (simp add: dir_add_def valid_name_def)
  moreover have none: "find (holds_name name) ?es = None" using name(3) by (simp add: dir_sector_def)
  then have "names_unique (slots (dir_bytes s' ?i))" unfolding s'(4) using names_unique_add [OF u _ j(1)] e(2) by simp
  moreover have "dir_sector s' ?i m = ((dir_sector s ?i)(name \<mapsto> sec)) m" for m
  proof (cases "m = name")
    case True
    moreover have "holds_name name ?e" using e by (simp add: holds_name_def)
    ultimately show ?thesis using find_None_update [OF none j(1)] e(4) by (simp add: dir_sector_def s'(4))
  next
    case False
    then show ?thesis
      using find_same_update [OF j(1), of "holds_name m" ?e] j(2) e by (simp add: dir_sector_def s'(4) holds_name_def)
  qed
  moreover have "deny_write_cnt (inodes s' ! ?i) = 0" using disk_only_fields(3) [OF s'(5)] ok(3) by simp
  ultimately show ?thesis using s'(2,3,5) by (auto simp: dir_ok_def)
qed

lemma erase_entry: "length e = 20 \<Longrightarrow> \<not> entry_in_use (e[19 := 0])"
  by (simp add: entry_in_use_def)

lemma inode_ok_upd_inode [simp]:
  "data_sector (upd_inode k f s) d n = data_sector s d n" "inode_ok (upd_inode k f s) d = inode_ok s d"
  "separate (upd_inode k f s) d = separate s d" "contents (upd_inode k f s) d = contents s d"
  "data_sectors (upd_inode k f s) d = data_sectors s d"
proof -
  show at: "data_sector (upd_inode k f s) d n = data_sector s d n" for n
    by (rule data_sector_cong) (simp add: upd_inode_def)
  then have ds: "data_sector (upd_inode k f s) d = data_sector s d" by (simp add: fun_eq_iff)
  have iu: "index_used (upd_inode k f s) d n = index_used s d n" for n by (simp add: index_used_def upd_inode_def)
  have sm: "disk (upd_inode k f s) = disk s" "heap_ok (upd_inode k f s) = heap_ok s" by (simp_all add: upd_inode_def)
  show "inode_ok (upd_inode k f s) d = inode_ok s d" by (simp add: inode_ok_def ds iu sm)
  show "contents (upd_inode k f s) d = contents s d" by (simp add: contents_def file_byte_def ds sm)
  show "separate (upd_inode k f s) d = separate s d" by (simp add: separate_def ds iu)
  show "data_sectors (upd_inode k f s) d = data_sectors s d" by (simp add: data_sectors_def ds)
qed

lemma nth_upd_inode:
  "k < length (inodes s) \<Longrightarrow> inodes (upd_inode k f s) ! i = (if k = i then f (inodes s ! i) else inodes s ! i)"
  by (simp add: upd_inode_def)

text \<open>Removing a file that is open elsewhere: its entry is erased, and its inode waits for the last close.\<close>

lemma dir_remove_open_eq:
  assumes d: "dir_ok s (dir_inode d)" and sec: "dir_sector s (dir_inode d) name = Some sec"
    and k: "find (\<lambda>k. sector (inodes s ! k) = sec) (open_inodes s) = Some k"
    and opn: "k < length (inodes s)" "0 < open_cnt (inodes s ! k)" "k \<noteq> dir_inode d"
  shows "\<exists>s'. dir_remove s d name = Some (True, s') \<and> dir_ok s' (dir_inode d)
    \<and> dir_sector s' (dir_inode d) = (dir_sector s (dir_inode d))(name := None)
    \<and> (\<exists>t. disk_only s t (data_sectors s (data (inodes s ! dir_inode d))) \<and> s' = inode_remove t k)"
proof -
  let ?i = "dir_inode d"
  let ?s = "upd_inode k (\<lambda>n. n\<lparr>open_cnt := open_cnt n + 1\<rparr>) s"
  let ?es = "slots (dir_bytes s ?i)"
  have ok: "inode_ok s (data (inodes s ! ?i))" "separate s (data (inodes s ! ?i))" "deny_write_cnt (inodes s ! ?i) = 0"
    and u: "names_unique ?es" using d by (simp_all add: dir_ok_def)
  from sec obtain e where e: "find (holds_name name) ?es = Some e" "entry_sector e = sec"
    by (auto simp: dir_sector_def)
  from find_first [OF e(1)] obtain j where j: "j < length ?es" "?es ! j = e" "holds_name name e"
    "find (\<lambda>j. holds_name name (?es ! j)) [0..<length ?es] = Some j" by auto
  have l: "length e = 20" using j(1,2) length_slot by auto
  let ?e = "e[19 := 0]"
  have i: "inodes ?s ! ?i = inodes s ! ?i" using opn by (simp add: nth_upd_inode)
  have "\<exists>t. inode_write_at ?s ?i ?e (20 * j) = Some (20, t) \<and> inode_ok t (data (inodes t ! ?i))
    \<and> separate t (data (inodes t ! ?i)) \<and> slots (dir_bytes t ?i) = (slots (dir_bytes ?s ?i))[j := ?e]
    \<and> disk_only ?s t (data_sectors ?s (data (inodes ?s ! ?i)))"
    by (rule write_slot) (use ok j(1) l in \<open>simp_all add: i\<close>)
  then obtain t where t: "inode_write_at ?s ?i ?e (20 * j) = Some (20, t)" "inode_ok t (data (inodes t ! ?i))"
    "separate t (data (inodes t ! ?i))" "slots (dir_bytes t ?i) = ?es[j := ?e]"
    "disk_only ?s t (data_sectors s (data (inodes s ! ?i)))" by (auto simp: i)
  let ?t = "s\<lparr>disk := disk t\<rparr>"
  have "t = ?s\<lparr>disk := disk t\<rparr>" using t(5) by (simp add: disk_only_def)
  also have "\<dots> = upd_inode k (\<lambda>n. n\<lparr>open_cnt := open_cnt n + 1\<rparr>) ?t" by (simp add: upd_inode_def)
  finally have te: "t = upd_inode k (\<lambda>n. n\<lparr>open_cnt := open_cnt n + 1\<rparr>) ?t" .
  have ti: "inodes t ! ?i = inodes s ! ?i" by (subst te) (use opn in \<open>simp add: nth_upd_inode\<close>)
  have tc: "inode_ok t d' = inode_ok ?t d'" "separate t d' = separate ?t d'" "contents t d' = contents ?t d'" for d'
    by (subst te, simp)+
  have "inode_close (inode_remove t k) (Some k) = Some (inode_remove ?t k)"
    using opn by (subst te) (simp add: inode_close_def inode_remove_def upd_inode_def Let_def)
  then have "dir_remove s d name = Some (True, inode_remove ?t k)"
    using t(1) e(2) k j(2,4) by (simp add: dir_remove_def lookup_eq [OF ok(1)] inode_open_def inode_reopen_def)
  moreover have same: "find (holds_name m) (?es[j := ?e]) = find (holds_name m) ?es" if "m \<noteq> name" for m
    by (rule find_same_update) (use that j erase_entry [OF l] in \<open>auto simp: holds_name_def\<close>)
  moreover have "dir_ok (inode_remove ?t k) ?i \<and> dir_sector (inode_remove ?t k) ?i = (dir_sector s ?i)(name := None)"
    using opn t(2-4) ti tc ok(3) names_unique_erase [OF u erase_entry [OF l] j(1)]
      names_unique_remove [OF u j(1) _ erase_entry [OF l], of name] j(2,3)
    by (simp add: dir_ok_def inode_remove_def nth_upd_inode fun_eq_iff dir_sector_def same)
  moreover have "disk_only s ?t (data_sectors s (data (inodes s ! ?i)))"
    using t(5) by (simp add: disk_only_def upd_inode_def)
  ultimately show ?thesis by blast
qed

subsection \<open>Properties\<close>

text \<open>
  A disk of 4 sectors with a directory for 16 entries whose inode is in sector 1 and whose data are in
  sector 3. Its only entry is ``a'', a file with its inode in sector 2 that is open.
\<close>

definition demo_entries :: "u8 list" where
  "demo_entries = fill_entry (replicate 20 0) [97] 2 @ replicate 300 0"

definition demo_dir_inode :: inode_disk where
  "demo_dir_inode = demo_inode\<lparr>dlength := 320, is_dir_flag := True\<rparr>"

definition demo_dir_fs :: fs where
  "demo_dir_fs = demo_fs\<lparr>disk := [zeros, zeros, zeros, demo_entries @ replicate 192 0],
     inodes := [\<lparr>sector = 1, open_cnt = 1, removed = False, deny_write_cnt = 0, data = demo_dir_inode\<rparr>,
       \<lparr>sector = 2, open_cnt = 1, removed = False, deny_write_cnt = 0, data = demo_inode\<lparr>dlength := 0\<rparr>\<rparr>],
     open_inodes := [1, 0]\<rparr>"

lemma demo_dir_sectors: "nsectors demo_dir_inode = 1" "data_sector demo_dir_fs demo_dir_inode 0 = 3"
  by (simp_all add: nsectors_def bytes_to_sectors_def data_sector_def inode_consts demo_inode_def demo_dir_inode_def)

lemma length_demo_entries: "length demo_entries = 320"
  by (simp add: demo_entries_def length_fill_entry)

lemma demo_dir_contents: "contents demo_dir_fs demo_dir_inode = demo_entries"
  by (intro nth_equalityI)
    (use demo_dir_sectors(2) length_demo_entries in
      \<open>simp_all add: demo_dir_inode_def file_byte_def demo_dir_fs_def nth_append\<close>)

lemma demo_slots: "slots demo_entries = fill_entry (replicate 20 0) [97] 2 # replicate 15 (replicate 20 0)"
  by code_simp

lemma demo_entry: "entry_name (fill_entry (replicate 20 0) [97] 2) = [97]" "entry_sector (fill_entry (replicate 20 0) [97] 2) = 2"
    "entry_in_use (fill_entry (replicate 20 0) [97] 2)"
  by (simp_all add: fill_entry_fields NAME_MAX_def)

lemma demo_dir_data [simp]: "data (inodes demo_dir_fs ! 0) = demo_dir_inode"
  by (simp add: demo_dir_fs_def)

lemma demo_dir_ok: "dir_ok demo_dir_fs 0"
proof -
  have "inode_ok demo_dir_fs demo_dir_inode"
    using demo_dir_sectors length_demo_entries
    by (auto simp: inode_ok_def index_used_def) (simp_all add: demo_dir_fs_def demo_fs_def zeros_def BLOCK_SECTOR_SIZE_def, auto)
  moreover have "separate demo_dir_fs demo_dir_inode"
    using demo_dir_sectors by (auto simp: separate_def index_used_def inj_on_def)
  moreover have "deny_write_cnt (inodes demo_dir_fs ! 0) = 0" by (simp add: demo_dir_fs_def)
  moreover have "entry_in_use (slots demo_entries ! j) \<Longrightarrow> j = 0" if "j < 16" for j
    using that by (cases j) (simp_all only: demo_slots nth_Cons_0 nth_Cons_Suc nth_replicate, simp_all add: entry_in_use_def)
  then have "names_unique (slots demo_entries)"
    by (simp add: names_unique_def length_demo_entries del: nth_slots) blast
  ultimately show ?thesis by (simp add: dir_ok_def demo_dir_contents)
qed

lemma demo_dir_sector: "dir_sector demo_dir_fs 0 = [[97] \<mapsto> 2]"
proof
  fix m
  have "find (holds_name m) (replicate 15 (replicate 20 0)) = None"
    by (simp add: find_None_iff holds_name_def entry_in_use_def)
  then show "dir_sector demo_dir_fs 0 m = [[97] \<mapsto> 2] m"
    by (simp add: dir_sector_def demo_dir_contents demo_slots holds_name_def demo_entry)
qed

text \<open>
  C4. A directory is a map from names to inodes, and \<^verbatim>\<open>dir_add\<close> extends it: with a name of 1 to 14
  characters that has no entry, and a slot that is not in use, the call succeeds, \<^verbatim>\<open>lookup\<close> then finds the
  new name with the sector given and every other name as before, no two entries have the same name,
  and nothing has changed but data sectors of the directory.
\<close>

theorem dir_add_extends_map:
  assumes "dir_ok s (dir_inode d)" and "valid_name name" and "sec < 4294967296" and "dir_sector s (dir_inode d) name = None"
    and "\<exists>e \<in> set (slots (dir_bytes s (dir_inode d))). \<not> entry_in_use e" and "length stack = 20"
  shows "\<exists>s'. dir_add stack s d name sec = Some (True, s') \<and> dir_ok s' (dir_inode d)
    \<and> dir_sector s' (dir_inode d) = (dir_sector s (dir_inode d))(name \<mapsto> sec)
    \<and> (\<forall>m. map_option (map_option (entry_sector \<circ> fst)) (lookup s' (dir_inode d) m) = Some (dir_sector s' (dir_inode d) m))
    \<and> disk_only s s' (data_sectors s (data (inodes s ! dir_inode d)))"
proof -
  from dir_add_eq [OF assms] obtain s' where s': "dir_add stack s d name sec = Some (True, s')" "dir_ok s' (dir_inode d)"
    "dir_sector s' (dir_inode d) = (dir_sector s (dir_inode d))(name \<mapsto> sec)"
    "disk_only s s' (data_sectors s (data (inodes s ! dir_inode d)))" by blast
  then show ?thesis using lookup_dir_sector [of s' "dir_inode d"] by (simp add: dir_ok_def)
qed

theorem dir_add_extends_map_witness:
  "\<exists>s'. dir_add (replicate 20 7) demo_dir_fs \<lparr>dir_inode = 0, dir_pos = 0\<rparr> [98, 99] 5 = Some (True, s')
    \<and> dir_sector s' 0 = [[97] \<mapsto> 2, [98, 99] \<mapsto> 5]"
proof -
  have "\<exists>e \<in> set (slots (dir_bytes demo_dir_fs 0)). \<not> entry_in_use e"
    by (simp add: demo_dir_contents demo_slots entry_in_use_def)
  then show ?thesis
    using dir_add_extends_map [of demo_dir_fs "\<lparr>dir_inode = 0, dir_pos = 0\<rparr>" "[98, 99]" 5 "replicate 20 7"] demo_dir_ok
    by (auto simp: demo_dir_sector valid_name_def NAME_MAX_def)
qed

text \<open>
  The errors of \<^verbatim>\<open>dir_add\<close> and \<^verbatim>\<open>dir_remove\<close>: adding a name that is empty, longer than \<^verbatim>\<open>NAME_MAX\<close>
  or has an entry, and removing a name that has none, return false and change nothing.
\<close>

theorem dir_errors:
  assumes "dir_ok s (dir_inode d)"
  shows "(name = [] \<or> length name > NAME_MAX \<or> dir_sector s (dir_inode d) name \<noteq> None
      \<longrightarrow> dir_add stack s d name sec = Some (False, s))
    \<and> (dir_sector s (dir_inode d) name' = None \<longrightarrow> dir_remove s d name' = Some (False, s))"
proof -
  have ok: "inode_ok s (data (inodes s ! dir_inode d))" using assms by (simp add: dir_ok_def)
  obtain r where r: "lookup s (dir_inode d) name = Some r" using lookup_eq [OF ok] by blast
  then have "r = None \<longleftrightarrow> dir_sector s (dir_inode d) name = None" using lookup_fails [OF assms, of name] by auto
  with r have "dir_add stack s d name sec = Some (False, s)"
    if "name = [] \<or> length name > NAME_MAX \<or> dir_sector s (dir_inode d) name \<noteq> None"
    using that by (auto simp: dir_add_def)
  moreover have "dir_remove s d name' = Some (False, s)" if "dir_sector s (dir_inode d) name' = None"
    using that lookup_fails [OF assms, of name'] by (simp add: dir_remove_def)
  ultimately show ?thesis by blast
qed

text \<open>
  C30. \<^verbatim>\<open>dir_remove\<close> of a file that is open: the name is gone from the directory and every other name is as
  before; the inode is marked as removed and is as often open as it was, and its content can be read
  on, provided that its sectors are not those of the directory.
\<close>

theorem dir_remove_open_file:
  assumes d: "dir_ok s (dir_inode d)" and sec: "dir_sector s (dir_inode d) name = Some sec"
    and k: "find (\<lambda>k. sector (inodes s ! k) = sec) (open_inodes s) = Some k"
    and opn: "k < length (inodes s)" "0 < open_cnt (inodes s ! k)" "k \<noteq> dir_inode d"
    and kok: "inode_ok s (data (inodes s ! k))"
    and apart: "data_sectors s (data (inodes s ! dir_inode d)) \<inter> data_sectors s (data (inodes s ! k)) = {}"
      "\<And>n. n < nsectors (data (inodes s ! k)) \<Longrightarrow>
        data_sectors s (data (inodes s ! dir_inode d)) \<inter> index_used s (data (inodes s ! k)) n = {}"
  shows "\<exists>s'. dir_remove s d name = Some (True, s') \<and> dir_ok s' (dir_inode d)
    \<and> dir_sector s' (dir_inode d) = (dir_sector s (dir_inode d))(name := None)
    \<and> inodes s' ! k = (inodes s ! k)\<lparr>removed := True\<rparr>
    \<and> inode_read_at s' k sz ofs = inode_read_at s k sz ofs"
proof -
  let ?S = "data_sectors s (data (inodes s ! dir_inode d))"
  from dir_remove_open_eq [OF d sec k opn] obtain s' t where s': "dir_remove s d name = Some (True, s')"
    "dir_ok s' (dir_inode d)" "dir_sector s' (dir_inode d) = (dir_sector s (dir_inode d))(name := None)"
    "disk_only s t ?S" "s' = inode_remove t k" by blast
  note ti = disk_only_fields(3) [OF s'(4)]
  have ik: "inodes s' ! k = (inodes s ! k)\<lparr>removed := True\<rparr>"
    using opn(1) ti by (simp add: s'(5) inode_remove_def nth_upd_inode)
  have "\<forall>b \<in> set (disk s'). length b = 512" using s'(2) by (simp add: dir_ok_def inode_ok_def)
  then have "\<And>b. b \<in> set (disk t) \<Longrightarrow> length b = 512" by (simp add: s'(5) inode_remove_def upd_inode_def)
  from inode_ok_separate_frame [OF kok s'(4) this apart]
  have "inode_ok s' (data (inodes s ! k))" "contents s' (data (inodes s ! k)) = contents s (data (inodes s ! k))"
    by (simp_all add: s'(5) inode_remove_def)
  then have "inode_read_at s' k sz ofs = inode_read_at s k sz ofs"
    using inode_read_at_contents [OF kok] inode_read_at_contents [of s' k] ik by simp
  with s' ik show ?thesis by blast
qed

theorem dir_remove_open_file_witness:
  "\<exists>s'. dir_remove demo_dir_fs \<lparr>dir_inode = 0, dir_pos = 0\<rparr> [97] = Some (True, s') \<and> dir_sector s' 0 = Map.empty
    \<and> removed (inodes s' ! 1)"
proof -
  let ?d = "\<lparr>dir_inode = 0, dir_pos = 0\<rparr>"
  have k: "inodes demo_dir_fs ! Suc 0 = \<lparr>sector = 2, open_cnt = 1, removed = False, deny_write_cnt = 0, data = demo_inode\<lparr>dlength := 0\<rparr>\<rparr>"
    "Suc 0 < length (inodes demo_dir_fs)" "open_inodes demo_dir_fs = [Suc 0, 0]" by (simp_all add: demo_dir_fs_def)
  have n: "nsectors (demo_inode\<lparr>dlength := 0\<rparr>) = 0" by (simp add: nsectors_def bytes_to_sectors_def inode_consts)
  have "inode_ok demo_dir_fs (demo_inode\<lparr>dlength := 0\<rparr>)" using demo_dir_ok by (simp add: dir_ok_def inode_ok_def n)
  then show ?thesis
    using dir_remove_open_file [of demo_dir_fs ?d "[97]" 2 "Suc 0" 0 0] demo_dir_ok
    by (auto simp: demo_dir_sector k n data_sectors_def)
qed

end
