(* ===== verification/Filesys.thy ===== *)
theory Filesys
  imports Directory CString
begin

text \<open>
  The file system calls of \<^verbatim>\<open>filesys/filesys.c\<close>. All of them work on the root directory: \<^verbatim>\<open>filesys_chdir\<close> is a
  stub and \<^verbatim>\<open>traverse_path\<close> is called from nowhere. A name is the list of the characters of a string, \<^verbatim>\<open>None\<close>
  the null pointer. \<open>storage\<close> is what \<^verbatim>\<open>malloc\<close> returns for the bitmap, the \<open>stack\<close> arguments are the
  uninitialised entries of \<^verbatim>\<open>dir_add\<close>, and \<open>device\<close> says whether \<^verbatim>\<open>block_get_role\<close> finds the device.
\<close>

definition do_format :: "u8 list \<Rightarrow> u8 list \<Rightarrow> fs \<Rightarrow> fs option" where
  "do_format stack1 stack2 s = do {
     s \<leftarrow> free_map_create s;
     (ok, s) \<leftarrow> dir_create stack1 stack2 s ROOT_DIR_SECTOR 16 ROOT_DIR_SECTOR;
     ASSERT ok;
     free_map_close s }"

definition filesys_init :: "bool \<Rightarrow> u32 list \<Rightarrow> u8 list \<Rightarrow> u8 list \<Rightarrow> fs \<Rightarrow> bool \<Rightarrow> fs option" where
  "filesys_init device storage stack1 stack2 s format = do {
     ASSERT device;
     let s = inode_init s;
     s \<leftarrow> free_map_init storage s;
     let s = s\<lparr>current_working_dir := ROOT_DIR_SECTOR\<rparr>;
     s \<leftarrow> (if format then do_format stack1 stack2 s else Some s);
     free_map_open s }"

definition filesys_done :: "fs \<Rightarrow> fs option" where
  "filesys_done s = free_map_close s"

text \<open>
  The three conjuncts of \<^verbatim>\<open>filesys_create\<close> after the root directory is open: whether all of them
  succeeded, and the value of \<^verbatim>\<open>inode_sector\<close>, which is 0 when nothing was allocated.
\<close>

definition create_in :: "u8 list \<Rightarrow> fs \<Rightarrow> dir \<Rightarrow> u8 list \<Rightarrow> nat \<Rightarrow> bool \<Rightarrow> (bool \<times> nat \<times> fs) option" where
  "create_in stack s d name initial_size isdir = do {
     (r, s) \<leftarrow> free_map_allocate s 1;
     case r of
       None \<Rightarrow> Some (False, 0, s)
     | Some inode_sector \<Rightarrow> do {
         (ok, s) \<leftarrow> inode_create s inode_sector initial_size isdir;
         if ok then do {
           (ok, s) \<leftarrow> dir_add stack s d name inode_sector;
           Some (ok, inode_sector, s) }
         else Some (False, inode_sector, s) } }"

definition filesys_create :: "u8 list \<Rightarrow> fs \<Rightarrow> u8 list option \<Rightarrow> nat \<Rightarrow> bool \<Rightarrow> (bool \<times> fs) option" where
  "filesys_create stack s name initial_size isdir =
     (case name of
        None \<Rightarrow> Some (False, s)
      | Some name \<Rightarrow>
          if length name > 0
          then do {
            (dir, s) \<leftarrow> dir_open_root s;
            (success, inode_sector, s) \<leftarrow>
              (case dir of None \<Rightarrow> Some (False, 0, s) | Some d \<Rightarrow> create_in stack s d name initial_size isdir);
            s \<leftarrow> (if \<not> success \<and> inode_sector \<noteq> 0 then free_map_release s inode_sector 1 else Some s);
            s \<leftarrow> dir_close s dir;
            Some (success, s) }
          else Some (False, s))"

definition filesys_open :: "fs \<Rightarrow> u8 list \<Rightarrow> (file_t option \<times> fs) option" where
  "filesys_open s name = do {
     (dir, s) \<leftarrow> dir_open_root s;
     (p, s) \<leftarrow> (case dir of None \<Rightarrow> Some (None, s) | Some d \<Rightarrow> dir_lookup s d name);
     s \<leftarrow> dir_close s dir;
     file_open s p }"

definition filesys_remove :: "fs \<Rightarrow> u8 list \<Rightarrow> (bool \<times> fs) option" where
  "filesys_remove s name = do {
     (dir, s) \<leftarrow> dir_open_root s;
     (success, s) \<leftarrow> (case dir of None \<Rightarrow> Some (False, s) | Some d \<Rightarrow> dir_remove s d name);
     s \<leftarrow> dir_close s dir;
     Some (success, s) }"

definition filesys_mkdir :: "u8 list \<Rightarrow> fs \<Rightarrow> u8 list option \<Rightarrow> (bool \<times> fs) option" where
  "filesys_mkdir stack s path_name = filesys_create stack s path_name 0 True"

definition filesys_chdir :: "u8 list \<Rightarrow> bool" where
  "filesys_chdir path_name = True"

text \<open>
  The loop of \<^verbatim>\<open>traverse_path\<close> over the tokens that \<^verbatim>\<open>strtok_r\<close> yields. The \<^verbatim>\<open>if\<close> before it compares a character
  with the address of a string literal, which is never equal to one.
\<close>

fun traverse_loop :: "fs \<Rightarrow> dir option \<Rightarrow> nat option \<Rightarrow> u8 list list \<Rightarrow> (nat option \<times> fs) option" where
  "traverse_loop s dir inode [] = Some (inode, s)"
| "traverse_loop s None inode (token # ts) = Some (inode, s)"
| "traverse_loop s (Some d) inode (token # ts) = do {
     (p, s) \<leftarrow> dir_lookup s d token;
     case p of
       None \<Rightarrow> Some (None, s)
     | Some i \<Rightarrow>
         if \<not> is_dir s i then do { (f, s) \<leftarrow> file_open s (Some i); Some (Some i, s) }
         else do { (dir, s) \<leftarrow> dir_open s (Some i); traverse_loop s dir (Some i) ts } }"

definition traverse_path :: "fs \<Rightarrow> dir option \<Rightarrow> u8 list \<Rightarrow> (nat option \<times> fs) option" where
  "traverse_path s dir path = traverse_loop s dir None (tokens {47} path)"

end
