(* ===== verification/Pagedir.thy ===== *)
theory Pagedir
  imports Palloc
begin

unbundle bit_operations_syntax

text \<open>
  Page directories: \<^verbatim>\<open>userprog/pagedir.c\<close> with the page table entries of \<^verbatim>\<open>threads/pte.h\<close>. The tables are in the
  memory of the page allocator, as 32-bit words in little-endian order, and new ones come from it. The
  processor has the register \<^verbatim>\<open>CR3\<close> and a translation lookaside buffer, which a write to the register
  empties; what the hardware puts into the buffer is not modelled.

  The lemmas show that \<^verbatim>\<open>pagedir_set_page\<close> changes the address space of a process at one page and the address
  spaces of all other processes nowhere, and that \<^verbatim>\<open>pagedir_destroy\<close> gives back exactly the pages that the
  directory had.
\<close>

definition rd32 :: "(nat \<Rightarrow> u8) \<Rightarrow> nat \<Rightarrow> u32" where
  "rd32 m a = bytes_u32 (m a) (m (a + 1)) (m (a + 2)) (m (a + 3))"

definition wr32 :: "nat \<Rightarrow> u32 \<Rightarrow> (nat \<Rightarrow> u8) \<Rightarrow> (nat \<Rightarrow> u8)" where
  "wr32 a v m = (\<lambda>x. if a \<le> x \<and> x < a + 4 then u32_bytes v ! (x - a) else m x)"

subsection \<open>Entries\<close>

definition PTE_ADDR :: u32 where
  "PTE_ADDR = 0xfffff000"

definition PTE_P :: u32 where
  "PTE_P = 1"

definition PTE_W :: u32 where
  "PTE_W = 2"

definition PTE_U :: u32 where
  "PTE_U = 4"

definition PTE_A :: u32 where
  "PTE_A = 0x20"

definition PTE_D :: u32 where
  "PTE_D = 0x40"

definition pt_no :: "nat \<Rightarrow> nat" where
  "pt_no va = (va div PGSIZE) mod 1024"

definition pd_no :: "nat \<Rightarrow> nat" where
  "pd_no va = va div (1024 * PGSIZE)"

definition pde_create :: "nat \<Rightarrow> u32 option" where
  "pde_create pt = do {
     ASSERT (pg_ofs pt = 0);
     p \<leftarrow> vtop pt;
     Some (of_nat p OR PTE_U OR PTE_P OR PTE_W) }"

definition pde_get_pt :: "u32 \<Rightarrow> nat option" where
  "pde_get_pt pde = do { ASSERT (pde AND PTE_P \<noteq> 0); ptov (unat (pde AND PTE_ADDR)) }"

definition pte_create_kernel :: "nat \<Rightarrow> bool \<Rightarrow> u32 option" where
  "pte_create_kernel page writable = do {
     ASSERT (pg_ofs page = 0);
     p \<leftarrow> vtop page;
     Some (of_nat p OR PTE_P OR (if writable then PTE_W else 0)) }"

definition pte_create_user :: "nat \<Rightarrow> bool \<Rightarrow> u32 option" where
  "pte_create_user page writable = do { e \<leftarrow> pte_create_kernel page writable; Some (e OR PTE_U) }"

definition pte_get_page :: "u32 \<Rightarrow> nat option" where
  "pte_get_page pte = ptov (unat (pte AND PTE_ADDR))"

subsection \<open>Directories\<close>

record mmu =
  pages :: pages_state
  init_page_dir :: nat
  init_ram_pages :: nat
  cr3 :: nat
  tlb :: "nat \<rightharpoonup> u32"

definition put_ram :: "(nat \<Rightarrow> u8) \<Rightarrow> mmu \<Rightarrow> mmu" where
  "put_ram m s = s\<lparr>pages := (pages s)\<lparr>ram := m\<rparr>\<rparr>"

abbreviation mem :: "mmu \<Rightarrow> nat \<Rightarrow> u8" where
  "mem s \<equiv> ram (pages s)"

definition active_pd :: "mmu \<Rightarrow> nat option" where
  "active_pd s = ptov (cr3 s)"

definition pagedir_activate :: "nat \<Rightarrow> mmu \<Rightarrow> mmu option" where
  "pagedir_activate pd s = do {
     let pd = (if pd = 0 then init_page_dir s else pd);
     p \<leftarrow> vtop pd;
     Some (s\<lparr>cr3 := p, tlb := Map.empty\<rparr>) }"

definition invalidate_pagedir :: "nat \<Rightarrow> mmu \<Rightarrow> mmu option" where
  "invalidate_pagedir pd s = do {
     a \<leftarrow> active_pd s;
     if a = pd then pagedir_activate pd s else Some s }"

definition get_page :: "u32 \<Rightarrow> mmu \<Rightarrow> (nat \<times> mmu) option" where
  "get_page flags s = do { (p, ps) \<leftarrow> palloc_get_page flags (pages s); Some (p, s\<lparr>pages := ps\<rparr>) }"

definition free_page :: "nat \<Rightarrow> mmu \<Rightarrow> mmu option" where
  "free_page p s = do { ps \<leftarrow> palloc_free_page p (pages s); Some (s\<lparr>pages := ps\<rparr>) }"

definition pagedir_create :: "mmu \<Rightarrow> (nat \<times> mmu) option" where
  "pagedir_create s = do {
     (pd, s) \<leftarrow> get_page 0 s;
     Some (pd, if pd \<noteq> 0 then put_ram (\<lambda>x. if pd \<le> x \<and> x < pd + PGSIZE then mem s (init_page_dir s + (x - pd)) else mem s x) s else s) }"

text \<open>The entry of an address in the page table that a directory entry points to.\<close>

definition table_entry :: "nat \<Rightarrow> nat \<Rightarrow> mmu \<Rightarrow> nat option" where
  "table_entry pde vaddr s = do { pt \<leftarrow> pde_get_pt (rd32 (mem s) pde); Some (pt + 4 * pt_no vaddr) }"

definition lookup_page :: "nat \<Rightarrow> nat \<Rightarrow> bool \<Rightarrow> mmu \<Rightarrow> (nat \<times> mmu) option" where
  "lookup_page pd vaddr create s = do {
     ASSERT (pd \<noteq> 0);
     ASSERT (\<not> create \<or> is_user_vaddr vaddr);
     let pde = pd + 4 * pd_no vaddr;
     if rd32 (mem s) pde = 0
     then if create
       then do {
         (pt, s) \<leftarrow> get_page PAL_ZERO s;
         if pt = 0 then Some (0, s)
         else do {
           e \<leftarrow> pde_create pt;
           let s = put_ram (wr32 pde e (mem s)) s;
           pte \<leftarrow> table_entry pde vaddr s;
           Some (pte, s) } }
       else Some (0, s)
     else do { pte \<leftarrow> table_entry pde vaddr s; Some (pte, s) } }"

definition pagedir_set_page :: "nat \<Rightarrow> nat \<Rightarrow> nat \<Rightarrow> bool \<Rightarrow> mmu \<Rightarrow> (bool \<times> mmu) option" where
  "pagedir_set_page pd upage kpage writable s = do {
     ASSERT (pg_ofs upage = 0);
     ASSERT (pg_ofs kpage = 0);
     ASSERT (is_user_vaddr upage);
     p \<leftarrow> vtop kpage;
     ASSERT (p div PGSIZE < init_ram_pages s);
     ASSERT (pd \<noteq> init_page_dir s);
     (pte, s) \<leftarrow> lookup_page pd upage True s;
     if pte \<noteq> 0
     then do {
       ASSERT (rd32 (mem s) pte AND PTE_P = 0);
       e \<leftarrow> pte_create_user kpage writable;
       Some (True, put_ram (wr32 pte e (mem s)) s) }
     else Some (False, s) }"

definition pagedir_get_page :: "nat \<Rightarrow> nat \<Rightarrow> mmu \<Rightarrow> nat option" where
  "pagedir_get_page pd uaddr s = do {
     ASSERT (is_user_vaddr uaddr);
     (pte, s) \<leftarrow> lookup_page pd uaddr False s;
     if pte \<noteq> 0 \<and> rd32 (mem s) pte AND PTE_P \<noteq> 0
     then do { p \<leftarrow> pte_get_page (rd32 (mem s) pte); Some (p + pg_ofs uaddr) }
     else Some 0 }"

definition pagedir_clear_page :: "nat \<Rightarrow> nat \<Rightarrow> mmu \<Rightarrow> mmu option" where
  "pagedir_clear_page pd upage s = do {
     ASSERT (pg_ofs upage = 0);
     ASSERT (is_user_vaddr upage);
     (pte, s) \<leftarrow> lookup_page pd upage False s;
     if pte \<noteq> 0 \<and> rd32 (mem s) pte AND PTE_P \<noteq> 0
     then invalidate_pagedir pd (put_ram (wr32 pte (rd32 (mem s) pte AND NOT PTE_P) (mem s)) s)
     else Some s }"

definition pagedir_is_dirty :: "nat \<Rightarrow> nat \<Rightarrow> mmu \<Rightarrow> bool option" where
  "pagedir_is_dirty pd vpage s = do {
     (pte, s) \<leftarrow> lookup_page pd vpage False s;
     Some (pte \<noteq> 0 \<and> rd32 (mem s) pte AND PTE_D \<noteq> 0) }"

definition pagedir_set_dirty :: "nat \<Rightarrow> nat \<Rightarrow> bool \<Rightarrow> mmu \<Rightarrow> mmu option" where
  "pagedir_set_dirty pd vpage dirty s = do {
     (pte, s) \<leftarrow> lookup_page pd vpage False s;
     if pte \<noteq> 0
     then if dirty then Some (put_ram (wr32 pte (rd32 (mem s) pte OR PTE_D) (mem s)) s)
       else invalidate_pagedir pd (put_ram (wr32 pte (rd32 (mem s) pte AND NOT PTE_D) (mem s)) s)
     else Some s }"

definition pagedir_is_accessed :: "nat \<Rightarrow> nat \<Rightarrow> mmu \<Rightarrow> bool option" where
  "pagedir_is_accessed pd vpage s = do {
     (pte, s) \<leftarrow> lookup_page pd vpage False s;
     Some (pte \<noteq> 0 \<and> rd32 (mem s) pte AND PTE_A \<noteq> 0) }"

definition pagedir_set_accessed :: "nat \<Rightarrow> nat \<Rightarrow> bool \<Rightarrow> mmu \<Rightarrow> mmu option" where
  "pagedir_set_accessed pd vpage accessed s = do {
     (pte, s) \<leftarrow> lookup_page pd vpage False s;
     if pte \<noteq> 0
     then if accessed then Some (put_ram (wr32 pte (rd32 (mem s) pte OR PTE_A) (mem s)) s)
       else invalidate_pagedir pd (put_ram (wr32 pte (rd32 (mem s) pte AND NOT PTE_A) (mem s)) s)
     else Some s }"

text \<open>The two loops of \<^verbatim>\<open>pagedir_destroy\<close>: over the entries of a page table and over the directory.\<close>

definition free_entry :: "nat \<Rightarrow> nat \<Rightarrow> mmu \<Rightarrow> mmu option" where
  "free_entry pt j s =
     (if rd32 (mem s) (pt + 4 * j) AND PTE_P \<noteq> 0
      then do { p \<leftarrow> pte_get_page (rd32 (mem s) (pt + 4 * j)); free_page p s }
      else Some s)"

definition free_table :: "nat \<Rightarrow> nat \<Rightarrow> mmu \<Rightarrow> mmu option" where
  "free_table pd i s =
     (if rd32 (mem s) (pd + 4 * i) AND PTE_P \<noteq> 0
      then do {
        pt \<leftarrow> pde_get_pt (rd32 (mem s) (pd + 4 * i));
        s \<leftarrow> for_range 0 (PGSIZE div 4) (free_entry pt) s;
        free_page pt s }
      else Some s)"

definition pagedir_destroy :: "nat \<Rightarrow> mmu \<Rightarrow> mmu option" where
  "pagedir_destroy pd s =
     (if pd = 0 then Some s
      else do {
        ASSERT (pd \<noteq> init_page_dir s);
        s \<leftarrow> for_range 0 (pd_no PHYS_BASE) (free_table pd) s;
        free_page pd s })"
subsection \<open>Words in the memory\<close>

lemma rd32_wr32 [simp]: "rd32 (wr32 a v m) a = v"
  by (simp add: rd32_def wr32_def u32_bytes_def bytes_u32_u32_bytes)

lemma rd32_cong: "(\<And>x. a \<le> x \<Longrightarrow> x < a + 4 \<Longrightarrow> m x = m' x) \<Longrightarrow> rd32 m a = rd32 m' a"
  by (simp add: rd32_def)

lemma rd32_wr32_apart: "a + 4 \<le> b \<or> b + 4 \<le> a \<Longrightarrow> rd32 (wr32 a v m) b = rd32 m b"
  by (rule rd32_cong) (auto simp: wr32_def)

text \<open>Entries of tables: a table is a page, an entry has four bytes.\<close>

lemma aligned_apart: "pg_ofs p = 0 \<Longrightarrow> pg_ofs q = 0 \<Longrightarrow> p < q \<Longrightarrow> p + 4096 \<le> q"
  by (auto simp: pg_ofs_def PGSIZE_def mod_eq_0_iff_dvd elim!: dvdE)

lemma rd32_entry:
  assumes "pg_ofs p = 0" "pg_ofs q = 0" "i < 1024" "j < 1024"
  shows "rd32 (wr32 (p + 4 * i) v m) (q + 4 * j) = (if p = q \<and> i = j then v else rd32 m (q + 4 * j))"
proof (cases "p = q \<and> i = j")
  case False
  then have "p + 4 * i + 4 \<le> q + 4 * j \<or> q + 4 * j + 4 \<le> p + 4 * i"
    using assms(3,4) aligned_apart [OF assms(1,2)] aligned_apart [OF assms(2,1)] by (cases p q rule: linorder_cases) auto
  then show ?thesis using False by (simp only: rd32_wr32_apart if_False)
qed simp

lemma rd32_fill:
  assumes "pg_ofs p = 0" "pg_ofs q = 0" "j < 1024"
  shows "rd32 (fill p v PGSIZE m) (q + 4 * j) = (if p = q then bytes_u32 v v v v else rd32 m (q + 4 * j))"
proof (cases "p = q")
  case True
  then show ?thesis using assms(3) by (simp add: rd32_def fill_def PGSIZE_def)
next
  case False
  then have "p + 4096 \<le> q \<or> q + 4096 \<le> p" using aligned_apart assms(1,2) by (meson nat_neq_iff)
  then have "rd32 (fill p v PGSIZE m) (q + 4 * j) = rd32 m (q + 4 * j)"
    using assms(3) by (intro rd32_cong) (auto simp: fill_def PGSIZE_def)
  then show ?thesis using False by simp
qed

lemma bytes_u32_0: "bytes_u32 0 0 0 0 = 0"
  by (simp add: bytes_u32_def)

lemma indices:
  "pt_no va < 1024"
  "is_user_vaddr va \<Longrightarrow> pd_no va < 768"
  by (simp_all add: pt_no_def pd_no_def is_user_vaddr_def PHYS_BASE_def PGSIZE_def)

lemma page_by_indices: "pg_no va = pg_no vb \<longleftrightarrow> pd_no va = pd_no vb \<and> pt_no va = pt_no vb"
proof -
  have "pg_no va = pg_no vb \<longleftrightarrow> pg_no va div 1024 = pg_no vb div 1024 \<and> pg_no va mod 1024 = pg_no vb mod 1024"
    by (metis div_mult_mod_eq)
  moreover have "pd_no x = pg_no x div 1024" for x by (simp only: pd_no_def pg_no_def mult.commute [of 1024] div_mult2_eq)
  moreover have "pt_no x = pg_no x mod 1024" for x by (simp only: pt_no_def pg_no_def)
  ultimately show ?thesis by (simp only:)
qed

subsection \<open>Addresses in entries\<close>

definition kernel_page :: "nat \<Rightarrow> bool" where
  "kernel_page p \<longleftrightarrow> pg_ofs p = 0 \<and> PHYS_BASE \<le> p \<and> p < 4294967296"

lemma flags_masked:
  fixes w f :: u32
  assumes "4096 dvd unat w" and "f < 4096"
  shows "(w OR f) AND PTE_ADDR = w" and "(w OR f) AND f = f"
proof -
  have "take_bit 12 w = 0"
    using assms(1) by (simp add: take_bit_eq_mod word_unat_eq_iff unat_mod mod_eq_0_iff_dvd)
  then have w: "\<not> bit w n" if "n < 12" for n using that by (metis bit_0_eq bit_take_bit_iff bot_fun_def bot_bool_def)
  have "take_bit 12 f = f" using assms(2) by (simp add: take_bit_eq_mod word_unat_eq_iff unat_mod word_less_nat_alt)
  then have f: "\<not> bit f n" if "12 \<le> n" for n using that by (metis bit_take_bit_iff not_le)
  have a: "PTE_ADDR = NOT (mask 12)" by (simp add: PTE_ADDR_def mask_eq_exp_minus_1)
  show "(w OR f) AND PTE_ADDR = w"
    by (rule bit_word_eqI) (use w f not_less in \<open>auto simp: a bit_simps\<close>)
  show "(w OR f) AND f = f" by (rule bit_word_eqI) (auto simp: bit_simps)
qed

lemma kernel_page_phys:
  assumes "kernel_page p"
  shows "4096 dvd unat (of_nat (p - PHYS_BASE) :: u32)" and "unat (of_nat (p - PHYS_BASE) :: u32) = p - PHYS_BASE"
    and "vtop p = Some (p - PHYS_BASE)" and "ptov (p - PHYS_BASE) = Some p"
proof -
  have a: "p mod 4096 = 0" "3221225472 \<le> p" "p < 4294967296" using assms by (simp_all add: kernel_page_def pg_ofs_def PGSIZE_def PHYS_BASE_def)
  then have "4096 dvd p - 3221225472" by (intro dvd_diff_nat) (auto simp: dvd_eq_mod_eq_0)
  moreover show u: "unat (of_nat (p - PHYS_BASE) :: u32) = p - PHYS_BASE" unfolding unat_of_nat by (rule mod_less) (use a in \<open>simp add: PHYS_BASE_def\<close>)
  ultimately show "4096 dvd unat (of_nat (p - PHYS_BASE) :: u32)" by (simp add: PHYS_BASE_def)
  have "p - 3221225472 < 3221225472" using a by linarith
  then show "vtop p = Some (p - PHYS_BASE)" "ptov (p - PHYS_BASE) = Some p"
    using a by (simp_all add: vtop_def ptov_def is_kernel_vaddr_def PHYS_BASE_def)
qed

lemma pde_create_eq: "kernel_page pt \<Longrightarrow> pde_create pt = Some (of_nat (pt - PHYS_BASE) OR 7)"
  by (simp add: pde_create_def kernel_page_phys(3) PTE_U_def PTE_P_def PTE_W_def or.assoc) (simp add: kernel_page_def)

lemma pde_get_create:
  assumes "kernel_page pt" and "pde_create pt = Some e"
  shows "pde_get_pt e = Some pt" and "e \<noteq> 0" and "e AND PTE_P \<noteq> 0"
proof -
  let ?w = "of_nat (pt - PHYS_BASE) :: u32"
  have e: "e = ?w OR 7" using assms pde_create_eq by simp
  have m: "e AND PTE_ADDR = ?w" "e AND 7 = 7" unfolding e by (rule flags_masked [OF kernel_page_phys(1) [OF assms(1)]], simp)+
  from m(2) show "e \<noteq> 0" by auto
  have "e AND PTE_P = (e AND 7) AND PTE_P" by (simp add: and.assoc PTE_P_def)
  then show p: "e AND PTE_P \<noteq> 0" by (simp add: m(2) PTE_P_def)
  show "pde_get_pt e = Some pt" using p kernel_page_phys(2,4) [OF assms(1)] by (simp add: pde_get_pt_def m(1))
qed

lemma pte_get_create:
  assumes "kernel_page p" and "pte_create_user p w = Some e"
  shows "pte_get_page e = Some p" and "e AND PTE_P \<noteq> 0" and "e AND PTE_W \<noteq> 0 \<longleftrightarrow> w" and "e AND PTE_U \<noteq> 0"
proof -
  let ?w = "of_nat (p - PHYS_BASE) :: u32"
  define f :: u32 where "f = (if w then 7 else 5)"
  have "f = PTE_P OR (if w then PTE_W else 0) OR PTE_U" by (simp add: f_def PTE_P_def PTE_W_def PTE_U_def)
  moreover have "pg_ofs p = 0" using assms(1) by (simp add: kernel_page_def)
  ultimately have e: "e = ?w OR f" using assms(2) by (simp add: pte_create_user_def pte_create_kernel_def kernel_page_phys(3) [OF assms(1)] or.assoc)
  have "f < 4096" by (simp add: f_def)
  note fm = flags_masked [OF kernel_page_phys(1) [OF assms(1)] this]
  show "pte_get_page e = Some p" using kernel_page_phys(2,4) [OF assms(1)] by (simp add: pte_get_page_def e fm(1))
  have low: "e AND b = f AND b" if "b AND PTE_ADDR = 0" for b
  proof -
    have "?w AND b = (?w AND PTE_ADDR) AND b" using fm(1) flags_masked(1) [OF kernel_page_phys(1) [OF assms(1)], of 0] by simp
    also have "\<dots> = 0" using that by (metis and.assoc and.commute and_zero_eq)
    finally show ?thesis by (simp add: e bit.conj_disj_distrib2)
  qed
  have "e AND PTE_P = f AND PTE_P" "e AND PTE_W = f AND PTE_W" "e AND PTE_U = f AND PTE_U"
    by (rule low, simp add: PTE_ADDR_def PTE_P_def PTE_W_def PTE_U_def)+
  then show "e AND PTE_P \<noteq> 0" "e AND PTE_W \<noteq> 0 \<longleftrightarrow> w" "e AND PTE_U \<noteq> 0"
    by (simp_all add: f_def PTE_P_def PTE_W_def PTE_U_def)
qed

subsection \<open>Pages for the tables\<close>

definition mmu_ok :: "mmu \<Rightarrow> bool" where
  "mmu_ok s \<longleftrightarrow> pages_wf (pages s) \<and> PHYS_BASE < base (kernel_pool (pages s)) \<and> PHYS_BASE < base (user_pool (pages s))"

definition in_use :: "mmu \<Rightarrow> nat \<Rightarrow> bool" where
  "in_use s p \<longleftrightarrow> kernel_page p \<and> pg_no p \<in> used_pages (pages s)"

lemma put_ram_simps [simp]:
  "mem (put_ram m s) = m" "mmu_ok (put_ram m s) = mmu_ok s" "in_use (put_ram m s) = in_use s"
  "used_pages (pages (put_ram m s)) = used_pages (pages s)"
  "init_page_dir (put_ram m s) = init_page_dir s" "init_ram_pages (put_ram m s) = init_ram_pages s"
  "cr3 (put_ram m s) = cr3 s" "tlb (put_ram m s) = tlb s"
  by (simp_all add: put_ram_def mmu_ok_def in_use_def fun_eq_iff the_pool_def)

lemma pg_no_eq: "pg_ofs p = 0 \<Longrightarrow> pg_ofs q = 0 \<Longrightarrow> pg_no p = pg_no q \<longleftrightarrow> p = q"
  unfolding pg_ofs_def pg_no_def by (metis add_0_right div_mult_mod_eq)

lemma pool_kernel_page:
  assumes "mmu_ok s" and "i < bit_cnt (used_map (the_pool u (pages s)))"
  shows "kernel_page (base (the_pool u (pages s)) + PGSIZE * i)"
proof -
  have "pool_wf (the_pool u (pages s))" "PHYS_BASE \<le> base (the_pool u (pages s))" using assms(1) by (auto simp: mmu_ok_def pages_wf_def the_pool_def)
  moreover from this assms(2) have "base (the_pool u (pages s)) + PGSIZE * i < 4294967296" unfolding pool_wf_def PGSIZE_def by linarith
  ultimately show ?thesis by (simp add: kernel_page_def pool_wf_def pg_no_page)
qed

lemma mmu_ok_map:
  "mmu_ok s \<Longrightarrow> pages_wf (set_map u b (pages s)) \<Longrightarrow> pages s' = (set_map u b (pages s))\<lparr>ram := m\<rparr> \<Longrightarrow> mmu_ok s'"
  by (auto simp: mmu_ok_def the_pool_def set_map_def)

lemma get_page_cases:
  assumes "mmu_ok s" and "flags AND PAL_ASSERT = 0"
  obtains (none) "get_page flags s = Some (0, s)"
      "\<And>i. i < bit_cnt (used_map (the_pool (flags AND PAL_USER \<noteq> 0) (pages s))) \<Longrightarrow> i \<in> used_units (used_map (the_pool (flags AND PAL_USER \<noteq> 0) (pages s)))"
    | (page) p ps where "get_page flags s = Some (p, s\<lparr>pages := ps\<rparr>)" "kernel_page p" "p \<noteq> 0" "pg_no p \<notin> used_pages (pages s)"
      "used_pages ps = insert (pg_no p) (used_pages (pages s))" "mmu_ok (s\<lparr>pages := ps\<rparr>)"
      "ram ps = (if flags AND PAL_ZERO \<noteq> 0 then fill p 0 PGSIZE (mem s) else mem s)"
      "pg_no p \<in> pool_pages (the_pool (flags AND PAL_USER \<noteq> 0) (pages s))"
      "\<And>v. pool_pages (the_pool v ps) = pool_pages (the_pool v (pages s))"
proof -
  define u where "u \<longleftrightarrow> flags AND PAL_USER \<noteq> 0"
  have wf: "pages_wf (pages s)" using assms(1) by (simp add: mmu_ok_def)
  show thesis
  proof (rule palloc_get_cases [OF wf _ u_def, of 1])
    assume "palloc_get_multiple flags 1 (pages s) = (if flags AND PAL_ASSERT \<noteq> 0 then None else Some (0, pages s))"
      and "\<And>i. i + 1 \<le> bit_cnt (used_map (the_pool u (pages s))) \<Longrightarrow> {i..<i + 1} \<inter> used_units (used_map (the_pool u (pages s))) \<noteq> {}"
    then show thesis using assms(2) none by (auto simp: get_page_def palloc_get_page_def u_def [symmetric])
  next
    fix i b s'
    assume pg: "palloc_get_multiple flags 1 (pages s) = Some (base (the_pool u (pages s)) + PGSIZE * i, s')"
      and t: "take_units (used_map (the_pool u (pages s))) 1 = (Some i, b)"
      and s': "s' = (set_map u b (pages s))\<lparr>ram := if flags AND PAL_ZERO \<noteq> 0 then fill (base (the_pool u (pages s)) + PGSIZE * i) 0 (PGSIZE * 1) (mem s) else mem s\<rparr>"
    note tp = take_units_pages [OF wf t]
    have k: "kernel_page (base (the_pool u (pages s)) + PGSIZE * i)" using tp(7) by (intro pool_kernel_page [OF assms(1)]) simp
    have "pg_ofs (base (the_pool u (pages s))) = 0" using wf by (simp add: pages_wf_alt [of _ u] pool_wf_def)
    note no = pg_no_page(1) [OF this]
    show thesis
    proof (rule page [of "base (the_pool u (pages s)) + PGSIZE * i" s'])
      show "mmu_ok (s\<lparr>pages := s'\<rparr>)" using mmu_ok_map [OF assms(1) tp(1)] s' by simp
      show "pg_no (base (the_pool u (pages s)) + PGSIZE * i) \<in> pool_pages (the_pool (flags AND PAL_USER \<noteq> 0) (pages s))"
        using tp(2) no [of i] by (auto simp: u_def)
      show "pool_pages (the_pool v s') = pool_pages (the_pool v (pages s))" for v
        using tp(6) by (cases "v = u") (auto simp: s' pool_pages_map the_pool_def set_map_def)
      show "base (the_pool u (pages s)) + PGSIZE * i \<noteq> 0" using k unfolding kernel_page_def PHYS_BASE_def by linarith
    qed (use pg s' tp k no in \<open>auto simp: get_page_def palloc_get_page_def\<close>)
  qed simp
qed

lemma free_page_eq:
  assumes "mmu_ok s" and "in_use s p"
  obtains ps where "free_page p s = Some (s\<lparr>pages := ps\<rparr>)" "mmu_ok (s\<lparr>pages := ps\<rparr>)"
    "used_pages ps = used_pages (pages s) - {pg_no p}" "ram ps = fill p 0xcc PGSIZE (mem s)"
    "\<And>v. pool_pages (the_pool v ps) = pool_pages (the_pool v (pages s))"
proof -
  have wf: "pages_wf (pages s)" using assms(1) by (simp add: mmu_ok_def)
  have "pg_no p \<in> used_of (the_pool False (pages s)) \<union> used_of (the_pool True (pages s))"
    using assms(2) by (auto simp: in_use_def used_pages_def the_pool_def)
  then obtain u i where i: "pg_no p = pg_no (base (the_pool u (pages s))) + i" "i \<in> used_units (used_map (the_pool u (pages s)))"
    by (auto simp: used_of_def)
  let ?p = "the_pool u (pages s)"
  have w: "bitmap_wf (used_map ?p)" "pg_ofs (base ?p) = 0" using wf by (simp_all add: pages_wf_alt [of _ u] pool_wf_def)
  have p: "p = base ?p + PGSIZE * i" using i(1) assms(2) pg_no_page [OF w(2), of i] by (subst pg_no_eq [symmetric]) (simp_all add: in_use_def kernel_page_def)
  have n: "i + 1 \<le> bit_cnt (used_map ?p)" using i(2) by (auto simp: used_units_def)
  obtain c where c: "give_units (used_map ?p) i 1 = Some c" "bitmap_wf c" "bit_cnt c = bit_cnt (used_map ?p)" "used_units c = used_units (used_map ?p) - {i..<i + 1}"
    using units.release_eq [OF w(1) n] i(2) by auto
  define ps where "ps = (set_map u c (pages s))\<lparr>ram := fill p 0xcc PGSIZE (mem s)\<rparr>"
  have wf': "pages_wf (set_map u c (pages s))" using wf c by (intro pages_wf_map) simp_all
  have no: "used_of (?p\<lparr>used_map := c\<rparr>) = used_of ?p - {pg_no p}" by (simp add: used_of_def c(4) i(1) image_set_diff)
  have "pg_no p \<in> pool_pages ?p" using i(1) n by (simp add: pool_pages_def)
  then have "pg_no p \<notin> used_of (the_pool (\<not> u) (pages s))" using wf used_of_pool_pages [of "the_pool (\<not> u) (pages s)"] by (auto simp: pages_wf_alt [of _ u])
  then have "used_pages ps = used_pages (pages s) - {pg_no p}"
    by (auto simp: ps_def used_pages_alt [of _ u] no)
  moreover have "free_page p s = Some (s\<lparr>pages := ps\<rparr>)"
    using palloc_free_eq [OF wf _ n] c(1) by (simp add: free_page_def palloc_free_page_def p ps_def)
  moreover have "pool_pages (the_pool v ps) = pool_pages (the_pool v (pages s))" for v
    using c(3) by (cases "v = u") (auto simp: ps_def pool_pages_map the_pool_def set_map_def)
  ultimately show thesis using that [of ps] mmu_ok_map [OF assms(1) wf'] by (simp add: ps_def)
qed

subsection \<open>Well-formed directories\<close>

abbreviation ent :: "mmu \<Rightarrow> nat \<Rightarrow> nat \<Rightarrow> u32" where
  "ent s p i \<equiv> rd32 (mem s) (p + 4 * i)"

text \<open>
  The 768 entries for user addresses are empty or point to page tables, each to one of its own. The
  page table of a part of the address space, the pages that hold the directory, and the entry of
  an address:
\<close>

definition dir_ok :: "mmu \<Rightarrow> nat \<Rightarrow> bool" where
  "dir_ok s pd \<longleftrightarrow> in_use s pd
     \<and> (\<forall>i<768. ent s pd i = 0 \<or> (\<exists>pt. pde_create pt = Some (ent s pd i) \<and> in_use s pt \<and> pt \<noteq> pd))
     \<and> (\<forall>i<768. \<forall>j<768. i \<noteq> j \<and> ent s pd i \<noteq> 0 \<longrightarrow> ent s pd i \<noteq> ent s pd j)"

definition table :: "mmu \<Rightarrow> nat \<Rightarrow> nat \<Rightarrow> nat option" where
  "table s pd i = (if ent s pd i = 0 then None else pde_get_pt (ent s pd i))"

definition own :: "mmu \<Rightarrow> nat \<Rightarrow> nat set" where
  "own s pd = insert pd {pt. \<exists>i<768. table s pd i = Some pt}"

definition pte :: "mmu \<Rightarrow> nat \<Rightarrow> nat \<Rightarrow> u32" where
  "pte s pd va = (case table s pd (pd_no va) of None \<Rightarrow> 0 | Some pt \<Rightarrow> ent s pt (pt_no va))"

lemma in_useD:
  assumes "in_use s p"
  shows "kernel_page p" "pg_ofs p = 0" "p \<noteq> 0" "pg_no p \<in> used_pages (pages s)"
  using assms by (auto simp: in_use_def kernel_page_def PHYS_BASE_def)

lemma table_Some:
  assumes "dir_ok s pd" and "i < 768"
  shows "table s pd i = Some pt \<longleftrightarrow> ent s pd i \<noteq> 0 \<and> pde_create pt = Some (ent s pd i) \<and> in_use s pt \<and> pt \<noteq> pd"
proof (cases "ent s pd i = 0")
  case False
  with assms obtain qt where q: "pde_create qt = Some (ent s pd i)" "in_use s qt" "qt \<noteq> pd" by (auto simp: dir_ok_def)
  then show ?thesis using False pde_get_create(1) [of qt] pde_get_create(1) [of pt] in_useD(1) by (auto simp: table_def)
qed (simp add: table_def)

lemma table_None: "dir_ok s pd \<Longrightarrow> i < 768 \<Longrightarrow> table s pd i = None \<longleftrightarrow> ent s pd i = 0"
  using table_Some [of s pd i] by (auto simp: table_def dir_ok_def)

lemma table_inj:
  assumes "dir_ok s pd" and "i < 768" "j < 768" and "table s pd i = Some pt" "table s pd j = Some pt"
  shows "i = j"
proof (rule ccontr)
  assume "i \<noteq> j"
  moreover have "ent s pd i = ent s pd j" "ent s pd i \<noteq> 0" using assms by (auto simp: table_Some)
  ultimately show False using assms(1-3) unfolding dir_ok_def by metis
qed

lemma own_in_use: "dir_ok s pd \<Longrightarrow> p \<in> own s pd \<Longrightarrow> in_use s p"
  by (auto simp: own_def table_Some) (auto simp: dir_ok_def)

lemma lookup_plain:
  assumes "dir_ok s pd" and "is_user_vaddr va"
  shows "lookup_page pd va False s = Some (case table s pd (pd_no va) of None \<Rightarrow> 0 | Some pt \<Rightarrow> pt + 4 * pt_no va, s)"
proof -
  have "in_use s pd" using assms(1) by (simp add: dir_ok_def)
  note pd = in_useD(3) [OF this]
  show ?thesis
  proof (cases "table s pd (pd_no va)")
    case None
    then show ?thesis using pd assms table_None [OF assms(1) indices(2) [OF assms(2)]] by (simp add: lookup_page_def)
  next
    case (Some pt)
    then have "ent s pd (pd_no va) \<noteq> 0" by (auto simp: table_def)
    then show ?thesis using pd Some by (auto simp: lookup_page_def table_entry_def table_def Let_def)
  qed
qed

lemma pagedir_get_page_pte:
  assumes "dir_ok s pd" and "is_user_vaddr va"
  shows "pagedir_get_page pd va s = (if pte s pd va AND PTE_P = 0 then Some 0 else map_option (\<lambda>p. p + pg_ofs va) (pte_get_page (pte s pd va)))"
proof (cases "table s pd (pd_no va)")
  case (Some pt)
  then have "in_use s pt" using assms by (simp add: table_Some indices)
  then show ?thesis using Some assms in_useD(3) by (simp add: pagedir_get_page_def lookup_plain pte_def map_option_case split: option.split)
qed (use assms in \<open>simp add: pagedir_get_page_def lookup_plain pte_def\<close>)

text \<open>What a change of the memory outside of a directory's pages leaves as it is.\<close>

lemma dir_frame:
  assumes ok: "dir_ok s pd" and us: "\<And>p. p \<in> own s pd \<Longrightarrow> in_use s' p"
    and same: "\<And>p i. p \<in> own s pd \<Longrightarrow> i < 1024 \<Longrightarrow> ent s' p i = ent s p i"
  shows "dir_ok s' pd" "own s' pd = own s pd" "is_user_vaddr va \<Longrightarrow> pte s' pd va = pte s pd va"
proof -
  have e: "ent s' pd i = ent s pd i" if "i < 768" for i using same [of pd i] that by (simp add: own_def)
  have u: "\<exists>pt. pde_create pt = Some (ent s pd i) \<and> in_use s' pt \<and> pt \<noteq> pd" if i: "i < 768" "ent s pd i \<noteq> 0" for i
  proof -
    from i ok obtain pt where "pde_create pt = Some (ent s pd i) \<and> in_use s pt \<and> pt \<noteq> pd" unfolding dir_ok_def by blast
    then have "table s pd i = Some pt" using i by (simp add: table_Some [OF ok])
    with i us [of pt] \<open>pde_create pt = _ \<and> _\<close> show ?thesis by (auto simp: own_def)
  qed
  have "in_use s' pd" using us [of pd] by (simp add: own_def)
  then show "dir_ok s' pd" using ok u by (simp add: dir_ok_def e) blast
  have t: "table s' pd i = table s pd i" if "i < 768" for i using e [OF that] by (simp add: table_def)
  then show "own s' pd = own s pd" by (auto simp: own_def)
  show "pte s' pd va = pte s pd va" if "is_user_vaddr va"
    using t [OF indices(2) [OF that]] same indices [of va] that by (auto simp: pte_def own_def split: option.split)
qed

lemma ent_wr32:
  "pg_ofs p = 0 \<Longrightarrow> pg_ofs q = 0 \<Longrightarrow> i < 1024 \<Longrightarrow> j < 1024 \<Longrightarrow>
     ent (put_ram (wr32 (p + 4 * i) v (mem s)) s) q j = (if p = q \<and> i = j then v else ent s q j)"
  by (simp add: rd32_entry)

text \<open>A new page table, all of whose entries are 0, in an empty entry of a directory.\<close>

lemma new_table:
  assumes ok: "dir_ok s pd" "mmu_ok s" and i: "i < 768" "ent s pd i = 0"
    and pt: "kernel_page pt" "pg_no pt \<notin> used_pages (pages s)" "pde_create pt = Some e"
    and s': "used_pages (pages s') = insert (pg_no pt) (used_pages (pages s))"
      "mem s' = wr32 (pd + 4 * i) e (fill pt 0 PGSIZE (mem s))"
  shows "dir_ok s' pd" and "table s' pd i = Some pt" and "own s' pd = insert pt (own s pd)"
    and "\<And>va. is_user_vaddr va \<Longrightarrow> pte s' pd va = pte s pd va"
    and "\<And>q j. in_use s q \<Longrightarrow> q \<noteq> pd \<Longrightarrow> j < 1024 \<Longrightarrow> ent s' q j = ent s q j"
proof -
  have pd: "in_use s pd" using ok(1) by (simp add: dir_ok_def)
  have ofs: "pg_ofs pd = 0" "pg_ofs pt = 0" using pd pt(1) by (auto simp: in_use_def kernel_page_def)
  have ne: "in_use s q \<Longrightarrow> pt \<noteq> q" for q using pt(2) in_useD(4) by blast
  have en: "ent s' q j = (if q = pd \<and> j = i then e else if q = pt then 0 else ent s q j)" if "pg_ofs q = 0" "j < 1024" for q j
    using that ofs i(1) by (simp add: s'(2) rd32_entry rd32_fill bytes_u32_0)
  then show keep: "ent s' q j = ent s q j" if "in_use s q" "q \<noteq> pd" "j < 1024" for q j using that ne in_useD(2) by auto
  have ed: "ent s' pd j = (if j = i then e else ent s pd j)" if "j < 768" for j using en [of pd j] ofs that ne [OF pd] by auto
  have u: "in_use s q \<Longrightarrow> in_use s' q" for q by (auto simp: in_use_def s'(1))
  have upt: "in_use s' pt" using pt(1) by (simp add: in_use_def s'(1))
  have e: "pde_get_pt e = Some pt" "e \<noteq> 0" using pde_get_create [OF pt(1,3)] by simp_all
  have fresh: "ent s pd j \<noteq> e" if "j < 768" for j
    using table_Some [OF ok(1) that, of pt] ne pde_get_create(1) e by (auto simp: table_def)
  show ok': "dir_ok s' pd"
    unfolding dir_ok_def
  proof (intro conjI allI impI)
    show "ent s' pd j = 0 \<or> (\<exists>qt. pde_create qt = Some (ent s' pd j) \<and> in_use s' qt \<and> qt \<noteq> pd)" if "j < 768" for j
      using ok(1) u upt pt(3) ne [OF pd] that by (auto simp: ed dir_ok_def)
    show "ent s' pd j \<noteq> ent s' pd k" if "j < 768" "k < 768" "j \<noteq> k \<and> ent s' pd j \<noteq> 0" for j k
      using that ok(1) fresh [of k] fresh [of j] by (auto simp: ed dir_ok_def split: if_splits)
  qed (use u pd in simp)
  have t: "table s' pd j = (if j = i then Some pt else table s pd j)" if "j < 768" for j
    using e by (simp add: table_def ed [OF that]) (simp add: ed [OF i(1)])
  then show "table s' pd i = Some pt" using i(1) by simp
  have "table s pd i = None" using i(2) by (simp add: table_def)
  then show "own s' pd = insert pt (own s pd)" using t i(1) by (auto simp: own_def split: if_splits) (metis option.distinct(1))
  show "pte s' pd va = pte s pd va" if "is_user_vaddr va" for va
  proof (cases "pd_no va = i")
    case True
    then show ?thesis using t i \<open>table s pd i = None\<close> en [of pt "pt_no va"] ofs ne [OF pd] indices(1) by (auto simp: pte_def)
  next
    case False
    then have "table s' pd (pd_no va) = table s pd (pd_no va)" using t indices(2) [OF that] by simp
    then show ?thesis using table_Some [OF ok(1) indices(2) [OF that]] keep indices(1) by (cases "table s pd (pd_no va)") (auto simp: pte_def)
  qed
qed

text \<open>What no operation changes: the pages of the pools, the amount of memory and the initial directory.\<close>

definition same_machine :: "mmu \<Rightarrow> mmu \<Rightarrow> bool" where
  "same_machine s s' \<longleftrightarrow> init_page_dir s' = init_page_dir s \<and> init_ram_pages s' = init_ram_pages s
     \<and> (\<forall>v. pool_pages (the_pool v (pages s')) = pool_pages (the_pool v (pages s)))"

lemma same_machine_simps [simp]: "same_machine s s" "same_machine s (put_ram m t) \<longleftrightarrow> same_machine s t" "same_machine (put_ram m s) t \<longleftrightarrow> same_machine s t"
  by (auto simp: same_machine_def put_ram_def the_pool_def)

lemma same_machine_trans: "same_machine s t \<Longrightarrow> same_machine t u \<Longrightarrow> same_machine s u"
  by (simp add: same_machine_def)

lemma dir_ok_in_use: "dir_ok s pd \<Longrightarrow> in_use s pd" "dir_ok s pd \<Longrightarrow> pd \<noteq> 0"
  using in_useD(3) unfolding dir_ok_def by blast+

lemma lookup_create:
  assumes ok: "mmu_ok s" "dir_ok s pd" and va: "is_user_vaddr va"
  obtains (none) "lookup_page pd va True s = Some (0, s)" "table s pd (pd_no va) = None"
      "\<And>i. i < bit_cnt (used_map (kernel_pool (pages s))) \<Longrightarrow> i \<in> used_units (used_map (kernel_pool (pages s)))"
    | (entry) pt s' where "lookup_page pd va True s = Some (pt + 4 * pt_no va, s')" "pt \<noteq> 0" "mmu_ok s'" "dir_ok s' pd"
      "table s' pd (pd_no va) = Some pt" "\<And>vb. is_user_vaddr vb \<Longrightarrow> pte s' pd vb = pte s pd vb"
      "\<And>q j. in_use s q \<Longrightarrow> q \<noteq> pd \<Longrightarrow> j < 1024 \<Longrightarrow> ent s' q j = ent s q j"
      "own s' pd \<subseteq> own s pd \<union> {p. \<not> in_use s p}" "used_pages (pages s) \<subseteq> used_pages (pages s')"
      "init_page_dir s' = init_page_dir s" "cr3 s' = cr3 s" "tlb s' = tlb s" "same_machine s s'"
proof (cases "table s pd (pd_no va)")
  case (Some pt)
  have pd: "pd \<noteq> 0" using ok(2) by (rule dir_ok_in_use)
  have pt: "in_use s pt" "ent s pd (pd_no va) \<noteq> 0" using Some table_Some [OF ok(2) indices(2) [OF va]] by auto
  then have "lookup_page pd va True s = Some (pt + 4 * pt_no va, s)"
    using pd va Some by (simp add: lookup_page_def table_entry_def table_def Let_def)
  then show thesis using ok Some pt in_useD(3) by (intro entry [of pt s]) auto
next
  case None
  have pd: "pd \<noteq> 0" "in_use s pd" using dir_ok_in_use [OF ok(2)] by simp_all
  have e0: "ent s pd (pd_no va) = 0" using None table_None [OF ok(2) indices(2) [OF va]] by simp
  have z: "PAL_ZERO AND PAL_ASSERT = 0" "PAL_ZERO AND PAL_USER = 0" "PAL_ZERO AND PAL_ZERO \<noteq> 0"
    by (simp_all add: PAL_ZERO_def PAL_ASSERT_def PAL_USER_def)
  show thesis
  proof (rule get_page_cases [OF ok(1) z(1)])
    assume g: "get_page PAL_ZERO s = Some (0, s)"
      and full: "\<And>i. i < bit_cnt (used_map (the_pool (PAL_ZERO AND PAL_USER \<noteq> 0) (pages s))) \<Longrightarrow> i \<in> used_units (used_map (the_pool (PAL_ZERO AND PAL_USER \<noteq> 0) (pages s)))"
    have "lookup_page pd va True s = Some (0, s)" using pd(1) va e0 g by (simp add: lookup_page_def)
    then show thesis using none None full z(2) by (simp add: the_pool_def)
  next
    fix pt ps
    assume g: "get_page PAL_ZERO s = Some (pt, s\<lparr>pages := ps\<rparr>)" "kernel_page pt" "pt \<noteq> 0" "pg_no pt \<notin> used_pages (pages s)"
      "used_pages ps = insert (pg_no pt) (used_pages (pages s))" "mmu_ok (s\<lparr>pages := ps\<rparr>)"
      "ram ps = (if PAL_ZERO AND PAL_ZERO \<noteq> 0 then fill pt 0 PGSIZE (mem s) else mem s)"
      "\<And>v. pool_pages (the_pool v ps) = pool_pages (the_pool v (pages s))"
    obtain e where e: "pde_create pt = Some e" using pde_create_eq [OF g(2)] by blast
    define s' where "s' = put_ram (wr32 (pd + 4 * pd_no va) e (ram ps)) (s\<lparr>pages := ps\<rparr>)"
    have "used_pages (pages s') = insert (pg_no pt) (used_pages (pages s))" "mem s' = wr32 (pd + 4 * pd_no va) e (fill pt 0 PGSIZE (mem s))"
      using z(3) by (simp_all add: s'_def g(5,7))
    note nt = new_table [OF ok(2,1) indices(2) [OF va] e0 g(2,4) e this]
    have "lookup_page pd va True s = Some (pt + 4 * pt_no va, s')"
      using pd(1) va e0 g(1,3) e pde_get_create(1) [OF g(2) e] by (simp add: lookup_page_def table_entry_def Let_def s'_def)
    moreover have "mmu_ok s'" using g(6) by (simp add: s'_def)
    moreover have "\<not> in_use s pt" using g(4) by (auto simp: in_use_def)
    moreover have "same_machine s s'" unfolding s'_def same_machine_simps by (simp add: same_machine_def g(8))
    ultimately show thesis using nt g(3,5) by (intro entry [of pt s']) (auto simp: s'_def)
  qed
qed

text \<open>Writing an entry of a page table changes what the directory says about one page.\<close>

lemma write_pte:
  assumes ok: "dir_ok s pd" and va: "is_user_vaddr va" and t: "table s pd (pd_no va) = Some pt"
    and s': "s' = put_ram (wr32 (pt + 4 * pt_no va) e (mem s)) s"
  shows "dir_ok s' pd" and "own s' pd = own s pd"
    and "is_user_vaddr vb \<Longrightarrow> pte s' pd vb = (if pg_no vb = pg_no va then e else pte s pd vb)"
    and "in_use s q \<Longrightarrow> q \<noteq> pt \<Longrightarrow> j < 1024 \<Longrightarrow> ent s' q j = ent s q j"
proof -
  have pt: "in_use s pt" "pt \<noteq> pd" using table_Some [OF ok indices(2) [OF va]] t by auto
  have en: "ent s' q j = (if pt = q \<and> pt_no va = j then e else ent s q j)" if "in_use s q" "j < 1024" for q j
    unfolding s' using that in_useD(2) pt(1) indices(1) by (intro ent_wr32) auto
  then show "in_use s q \<Longrightarrow> q \<noteq> pt \<Longrightarrow> j < 1024 \<Longrightarrow> ent s' q j = ent s q j" by auto
  have pd: "in_use s pd" using ok by (simp add: dir_ok_def)
  have ed: "ent s' pd i = ent s pd i" if "i < 768" for i using en [OF pd, of i] pt(2) that by auto
  have u: "in_use s' = in_use s" by (simp add: s')
  show "dir_ok s' pd" using ok by (simp add: dir_ok_def u ed)
  have tb: "table s' pd i = table s pd i" if "i < 768" for i using ed [OF that] by (simp add: table_def)
  then show "own s' pd = own s pd" by (auto simp: own_def)
  show "pte s' pd vb = (if pg_no vb = pg_no va then e else pte s pd vb)" if vb: "is_user_vaddr vb"
  proof (cases "table s pd (pd_no vb)")
    case None
    then show ?thesis using tb [OF indices(2) [OF vb]] t by (auto simp: pte_def page_by_indices)
  next
    case (Some qt)
    have "in_use s qt" using Some table_Some [OF ok indices(2) [OF vb]] by simp
    moreover have "pt = qt \<longleftrightarrow> pd_no va = pd_no vb" using Some t table_inj [OF ok indices(2) [OF va] indices(2) [OF vb]] by auto
    ultimately show ?thesis using en [of qt "pt_no vb"] indices(1) Some tb [OF indices(2) [OF vb]]
      by (auto simp: pte_def page_by_indices)
  qed
qed

lemma set_page_cases:
  assumes ok: "mmu_ok s" "dir_ok s pd" and pd: "pd \<noteq> init_page_dir s" and up: "pg_ofs upage = 0" "is_user_vaddr upage"
    and kp: "kernel_page kpage" "(kpage - PHYS_BASE) div PGSIZE < init_ram_pages s" and free: "pte s pd upage AND PTE_P = 0"
  obtains (none) "pagedir_set_page pd upage kpage w s = Some (False, s)"
      "\<And>i. i < bit_cnt (used_map (kernel_pool (pages s))) \<Longrightarrow> i \<in> used_units (used_map (kernel_pool (pages s)))"
    | (mapped) s' e where "pagedir_set_page pd upage kpage w s = Some (True, s')" "pte_create_user kpage w = Some e"
      "mmu_ok s'" "dir_ok s' pd" "\<And>va. is_user_vaddr va \<Longrightarrow> pte s' pd va = (if pg_no va = pg_no upage then e else pte s pd va)"
      "\<And>q j. in_use s q \<Longrightarrow> q \<notin> own s pd \<Longrightarrow> j < 1024 \<Longrightarrow> ent s' q j = ent s q j"
      "own s' pd \<subseteq> own s pd \<union> {p. \<not> in_use s p}" "used_pages (pages s) \<subseteq> used_pages (pages s')" "init_page_dir s' = init_page_dir s"
      "same_machine s s'"
proof -
  have "pg_ofs kpage = 0" using kp(1) by (simp add: kernel_page_def)
  note unfolded = pagedir_set_page_def up this kernel_page_phys(3) [OF kp(1)] kp(2) pd
  obtain e where e: "pte_create_user kpage w = Some e" using \<open>pg_ofs kpage = 0\<close> by (simp add: pte_create_user_def pte_create_kernel_def kernel_page_phys(3) [OF kp(1)])
  show thesis
  proof (rule lookup_create [OF ok up(2)])
    assume "lookup_page pd upage True s = Some (0, s)"
      and "\<And>i. i < bit_cnt (used_map (kernel_pool (pages s))) \<Longrightarrow> i \<in> used_units (used_map (kernel_pool (pages s)))"
    then show thesis using none by (simp add: unfolded)
  next
    fix pt t
    assume l: "lookup_page pd upage True s = Some (pt + 4 * pt_no upage, t)" "pt \<noteq> 0" "mmu_ok t" "dir_ok t pd"
      "table t pd (pd_no upage) = Some pt" "\<And>vb. is_user_vaddr vb \<Longrightarrow> pte t pd vb = pte s pd vb"
      "\<And>q j. in_use s q \<Longrightarrow> q \<noteq> pd \<Longrightarrow> j < 1024 \<Longrightarrow> ent t q j = ent s q j"
      "own t pd \<subseteq> own s pd \<union> {p. \<not> in_use s p}" "used_pages (pages s) \<subseteq> used_pages (pages t)" "init_page_dir t = init_page_dir s"
      "same_machine s t"
    define s' where "s' = put_ram (wr32 (pt + 4 * pt_no upage) e (mem t)) t"
    note w = write_pte [OF l(4) up(2) l(5) s'_def]
    have pt: "pt \<in> own t pd" using l(5) indices(2) [OF up(2)] by (auto simp: own_def)
    have "ent t pt (pt_no upage) = pte t pd upage" by (simp add: pte_def l(5))
    then have "ent t pt (pt_no upage) AND PTE_P = 0" using free l(6) [OF up(2)] by simp
    then have r: "pagedir_set_page pd upage kpage w s = Some (True, s')" using l(1,2) e by (simp add: unfolded s'_def)
    have "in_use s q \<Longrightarrow> in_use t q" for q using l(9) by (auto simp: in_use_def)
    moreover have "q \<noteq> pt \<and> q \<noteq> pd" if "in_use s q" "q \<notin> own s pd" for q using that pt l(8) by (auto simp: own_def)
    ultimately have "ent s' q j = ent s q j" if "in_use s q" "q \<notin> own s pd" "j < 1024" for q j using that w(4) l(7) by metis
    then show thesis using mapped [OF r e] w(1-3) l(3,6,8,9,10,11) by (auto simp: s'_def)
  qed
qed

definition demo_mmu :: mmu where
  "demo_mmu = \<lparr>pages = \<lparr>kernel_pool = \<lparr>used_map = \<lparr>bit_cnt = 4, bits = [3]\<rparr>, base = 3222274048\<rparr>,
       user_pool = \<lparr>used_map = \<lparr>bit_cnt = 2, bits = [1]\<rparr>, base = 3223322624\<rparr>, ram = (\<lambda>_. 0)\<rparr>,
     init_page_dir = 3223318528, init_ram_pages = 1024, cr3 = 1048576, tlb = Map.empty\<rparr>"

lemma demo_mmu_ok: "mmu_ok demo_mmu"
  by (auto simp: demo_mmu_def mmu_ok_def pages_wf_def pool_wf_def bitmap_wf_def elem_cnt_eq pool_pages_def pg_ofs_def pg_no_def PGSIZE_def PHYS_BASE_def)

lemma used_0: "0 \<in> used_units \<lparr>bit_cnt = n, bits = [b]\<rparr> \<longleftrightarrow> 0 < n \<and> bit b 0"
  and used_1: "1 \<in> used_units \<lparr>bit_cnt = n, bits = [b]\<rparr> \<longleftrightarrow> 1 < n \<and> bit b 1"
  and used_2: "2 \<in> used_units \<lparr>bit_cnt = n, bits = [b]\<rparr> \<longleftrightarrow> 2 < n \<and> bit b 2"
  by (auto simp: used_units_def nth_bits_of)

lemma demo_mmu_in_use: "in_use demo_mmu 3222274048" "in_use demo_mmu 3222278144" "in_use demo_mmu 3223322624"
  using used_0 [of 4 3] used_1 [of 4 3] used_0 [of 2 1]
  by (auto simp: in_use_def kernel_page_def pg_ofs_def PGSIZE_def PHYS_BASE_def demo_mmu_def used_pages_def used_of_def pg_no_def image_iff)

lemma demo_mmu_entries: "ent demo_mmu p i = 0"
  by (simp add: demo_mmu_def rd32_def bytes_u32_0)

lemma demo_mmu_dirs: "dir_ok demo_mmu 3222274048" "dir_ok demo_mmu 3222278144"
  using demo_mmu_in_use by (simp_all add: dir_ok_def demo_mmu_entries)

lemma demo_mmu_pte: "pte demo_mmu pd va = 0" "own demo_mmu pd = {pd}"
  by (simp_all add: pte_def table_def own_def demo_mmu_entries)

text \<open>
  C11. \<^verbatim>\<open>pagedir_set_page\<close> and \<^verbatim>\<open>pagedir_get_page\<close>: mapping a user page that is not mapped never panics. It fails
  and changes nothing if the kernel pool has no page for a new page table; otherwise the directory is
  still well formed, every address of the page is translated to the same offset of \<^verbatim>\<open>kpage\<close>, and every
  other address to what it was translated to before. The same holds for the addresses of every other
  directory that shares no table with this one: address spaces are isolated.
\<close>

theorem pagedir_set_page_maps:
  assumes ok: "mmu_ok s" "dir_ok s pd" and pd: "pd \<noteq> init_page_dir s" and up: "pg_ofs upage = 0" "is_user_vaddr upage"
    and kp: "kernel_page kpage" "(kpage - PHYS_BASE) div PGSIZE < init_ram_pages s" and free: "pte s pd upage AND PTE_P = 0"
    and other: "dir_ok s pd'" "own s pd \<inter> own s pd' = {}"
  shows "\<exists>b s'. pagedir_set_page pd upage kpage w s = Some (b, s') \<and> mmu_ok s' \<and> dir_ok s' pd
    \<and> (\<forall>va. is_user_vaddr va \<longrightarrow> pagedir_get_page pd va s' = (if b \<and> pg_no va = pg_no upage then Some (kpage + pg_ofs va) else pagedir_get_page pd va s))
    \<and> (b \<or> s' = s \<and> used_of (kernel_pool (pages s)) = pool_pages (kernel_pool (pages s)))
    \<and> dir_ok s' pd' \<and> own s' pd \<inter> own s' pd' = {} \<and> (\<forall>va. is_user_vaddr va \<longrightarrow> pagedir_get_page pd' va s' = pagedir_get_page pd' va s)"
proof -
  note cases = set_page_cases [OF ok pd up kp free, of w]
  show ?thesis
  proof (rule cases)
    assume "pagedir_set_page pd upage kpage w s = Some (False, s)"
      and full: "\<And>i. i < bit_cnt (used_map (kernel_pool (pages s))) \<Longrightarrow> i \<in> used_units (used_map (kernel_pool (pages s)))"
    moreover have "pool_pages (kernel_pool (pages s)) \<subseteq> used_of (kernel_pool (pages s))"
      unfolding pool_pages_def used_of_def using full by (auto simp: image_iff) (metis add_diff_inverse_nat less_diff_conv2 not_less nat_add_left_cancel_less)
    ultimately show ?thesis using ok other used_of_pool_pages [of "kernel_pool (pages s)"] by auto
  next
    fix s' e
    assume m: "pagedir_set_page pd upage kpage w s = Some (True, s')" "pte_create_user kpage w = Some e"
      "mmu_ok s'" "dir_ok s' pd" "\<And>va. is_user_vaddr va \<Longrightarrow> pte s' pd va = (if pg_no va = pg_no upage then e else pte s pd va)"
      "\<And>q j. in_use s q \<Longrightarrow> q \<notin> own s pd \<Longrightarrow> j < 1024 \<Longrightarrow> ent s' q j = ent s q j"
      "own s' pd \<subseteq> own s pd \<union> {p. \<not> in_use s p}" "used_pages (pages s) \<subseteq> used_pages (pages s')"
    have fr: "ent s' q j = ent s q j" if "q \<in> own s pd'" "j < 1024" for q j using that m(6) other own_in_use by blast
    have us: "in_use s' q" if "q \<in> own s pd'" for q using own_in_use [OF other(1) that] m(8) by (auto simp: in_use_def)
    have o: "dir_ok s' pd'" "own s' pd' = own s pd'" "is_user_vaddr va \<Longrightarrow> pte s' pd' va = pte s pd' va" for va
      by (rule dir_frame [OF other(1) us], assumption, erule (1) fr, assumption?)+
    have "own s' pd \<inter> own s' pd' = {}" using m(7) other own_in_use o(2) by blast
    moreover have "pagedir_get_page pd va s' = (if pg_no va = pg_no upage then Some (kpage + pg_ofs va) else pagedir_get_page pd va s)" if "is_user_vaddr va" for va
      using pagedir_get_page_pte [OF m(4) that] pagedir_get_page_pte [OF ok(2) that] m(5) [OF that] pte_get_create [OF kp(1) m(2)] by simp
    moreover have "pagedir_get_page pd' va s' = pagedir_get_page pd' va s" if "is_user_vaddr va" for va
      using pagedir_get_page_pte [OF o(1) that] pagedir_get_page_pte [OF other(1) that] o(3) [OF that] by simp
    ultimately show ?thesis using m(1,3,4) o(1) by auto
  qed
qed

theorem pagedir_set_page_maps_witness:
  "\<exists>s'. pagedir_set_page 3222274048 4096 3223322624 True demo_mmu = Some (True, s')
     \<and> pagedir_get_page 3222274048 4100 s' = Some 3223322628 \<and> pagedir_get_page 3222278144 4100 s' = Some 0"
proof -
  have hyp: "3222274048 \<noteq> init_page_dir demo_mmu" "pg_ofs 4096 = 0" "is_user_vaddr 4096" "is_user_vaddr 4100" "kernel_page 3223322624"
    "(3223322624 - PHYS_BASE) div PGSIZE < init_ram_pages demo_mmu" "own demo_mmu 3222274048 \<inter> own demo_mmu 3222278144 = {}"
    using demo_mmu_in_use(3) by (simp_all add: demo_mmu_pte in_use_def) (simp_all add: demo_mmu_def pg_ofs_def PGSIZE_def is_user_vaddr_def PHYS_BASE_def)
  have free: "pte demo_mmu 3222274048 4096 AND PTE_P = 0" by (simp add: demo_mmu_pte)
  have get: "pagedir_get_page pd va demo_mmu = Some 0" if "dir_ok demo_mmu pd" "is_user_vaddr va" for pd va
    using pagedir_get_page_pte [OF that] by (simp add: demo_mmu_pte)
  have "used_of (kernel_pool (pages demo_mmu)) \<noteq> pool_pages (kernel_pool (pages demo_mmu))"
  proof
    assume "used_of (kernel_pool (pages demo_mmu)) = pool_pages (kernel_pool (pages demo_mmu))"
    moreover have "786690 \<in> pool_pages (kernel_pool (pages demo_mmu))" by (simp add: pool_pages_def demo_mmu_def pg_no_def PGSIZE_def)
    ultimately have "786690 \<in> used_of (kernel_pool (pages demo_mmu))" by simp
    then have "2 \<in> used_units \<lparr>bit_cnt = 4, bits = [3]\<rparr>" by (auto simp: used_of_def demo_mmu_def pg_no_def PGSIZE_def)
    then show False unfolding used_2 by (simp add: bit_iff_odd)
  qed
  moreover have "pg_no 4100 = pg_no 4096" "pg_ofs 4100 = 4" by (simp_all add: pg_no_def pg_ofs_def PGSIZE_def)
  ultimately show ?thesis
    using pagedir_set_page_maps [OF demo_mmu_ok demo_mmu_dirs(1) hyp(1-3,5,6) free demo_mmu_dirs(2) hyp(7), of True]
      hyp(4) get [OF demo_mmu_dirs(2) hyp(4)] by fastforce
qed

text \<open>
  \<^verbatim>\<open>pagedir_clear_page\<close>: afterwards no address of the page is translated and all others as before, the other
  bits of the entry are kept, and if the directory is the active one then the processor has no
  translation left in its buffer, so that the next access to the page faults.
\<close>

theorem pagedir_clear_page_unmaps:
  assumes ok: "dir_ok s pd" and up: "pg_ofs upage = 0" "is_user_vaddr upage" and cr: "cr3 s < PHYS_BASE"
  shows "\<exists>s'. pagedir_clear_page pd upage s = Some s' \<and> dir_ok s' pd \<and> pte s' pd upage = pte s pd upage AND NOT PTE_P
    \<and> (\<forall>va. is_user_vaddr va \<longrightarrow> pagedir_get_page pd va s' = (if pg_no va = pg_no upage then Some 0 else pagedir_get_page pd va s))
    \<and> (pte s pd upage AND PTE_P \<noteq> 0 \<and> active_pd s = Some pd \<longrightarrow> tlb s' = Map.empty)"
proof (cases "pte s pd upage AND PTE_P = 0")
  case True
  then have "pagedir_clear_page pd upage s = Some s"
    using ok up by (cases "table s pd (pd_no upage)") (simp_all add: pagedir_clear_page_def lookup_plain pte_def)
  moreover have "pagedir_get_page pd va s = Some 0" if "is_user_vaddr va" "pg_no va = pg_no upage" for va
  proof -
    have "pte s pd va = pte s pd upage" using that(2) unfolding page_by_indices pte_def by (auto split: option.split)
    then show ?thesis using pagedir_get_page_pte [OF ok that(1)] True by simp
  qed
  moreover have "pte s pd upage AND NOT PTE_P = pte s pd upage"
    using True by (metis bit.conj_disj_distrib bit.conj_one_right bit.disj_cancel_right or.left_neutral)
  ultimately show ?thesis using ok True by (intro exI [of _ s]) simp
next
  case False
  then obtain pt where t: "table s pd (pd_no upage) = Some pt" by (cases "table s pd (pd_no upage)") (auto simp: pte_def)
  have pt: "in_use s pt" using table_Some [OF ok indices(2) [OF up(2)], of pt] t by simp
  define e where "e = pte s pd upage AND NOT PTE_P"
  have e: "e AND PTE_P = 0" "ent s pt (pt_no upage) = pte s pd upage" by (simp_all add: e_def and.assoc pte_def t)
  define t' where "t' = put_ram (wr32 (pt + 4 * pt_no upage) e (mem s)) s"
  note w = write_pte [OF ok up(2) t t'_def]
  have pd: "kernel_page pd" using dir_ok_in_use(1) [OF ok] by (simp add: in_use_def)
  define s' where "s' = (if active_pd s = Some pd then t'\<lparr>cr3 := pd - PHYS_BASE, tlb := Map.empty\<rparr> else t')"
  have "pagedir_clear_page pd upage s = invalidate_pagedir pd t'"
    using False up in_useD(3) [OF pt] e(2) by (simp add: pagedir_clear_page_def lookup_plain [OF ok up(2)] t t'_def e_def)
  also have "\<dots> = Some s'"
    using cr kernel_page_phys(3) [OF pd] dir_ok_in_use(2) [OF ok]
    by (auto simp: invalidate_pagedir_def active_pd_def t'_def s'_def ptov_def pagedir_activate_def)
  finally have r: "pagedir_clear_page pd upage s = Some s'" .
  have same: "dir_ok s' pd = dir_ok t' pd" "pte s' pd va = pte t' pd va" for va
    by (simp_all add: s'_def dir_ok_def in_use_def pte_def table_def split: option.split)
  have p: "pte s' pd va = (if pg_no va = pg_no upage then e else pte s pd va)" if "is_user_vaddr va" for va using same w(3) [OF that] by simp
  have "pagedir_get_page pd va s' = (if pg_no va = pg_no upage then Some 0 else pagedir_get_page pd va s)" if "is_user_vaddr va" for va
    using pagedir_get_page_pte [OF _ that] same(1) w(1) ok p [OF that] e(1) by simp
  then show ?thesis using r same(1) w(1) p up(2) e_def by (auto simp: s'_def)
qed

subsection \<open>Destroying a directory\<close>

definition frames :: "mmu \<Rightarrow> nat \<Rightarrow> nat set" where
  "frames s pd = {p. \<exists>va. is_user_vaddr va \<and> pte s pd va AND PTE_P \<noteq> 0 \<and> pte_get_page (pte s pd va) = Some p}"

text \<open>The pages that a directory maps are in use, each for one user page only, and none is a table of it.\<close>

definition dir_full :: "mmu \<Rightarrow> nat \<Rightarrow> bool" where
  "dir_full s pd \<longleftrightarrow> dir_ok s pd
     \<and> (\<forall>va. is_user_vaddr va \<and> pte s pd va AND PTE_P \<noteq> 0 \<longrightarrow> (\<exists>p. pte_get_page (pte s pd va) = Some p \<and> in_use s p \<and> p \<notin> own s pd))
     \<and> (\<forall>va vb. is_user_vaddr va \<and> is_user_vaddr vb \<and> pte s pd va AND PTE_P \<noteq> 0 \<and> pte s pd vb AND PTE_P \<noteq> 0
          \<and> pte_get_page (pte s pd va) = pte_get_page (pte s pd vb) \<longrightarrow> pg_no va = pg_no vb)"

fun opt_list :: "'a option \<Rightarrow> 'a list" where
  "opt_list None = []"
| "opt_list (Some x) = [x]"

definition entry_page :: "mmu \<Rightarrow> nat \<Rightarrow> nat \<Rightarrow> nat list" where
  "entry_page s pt j = (if ent s pt j AND PTE_P \<noteq> 0 then opt_list (pte_get_page (ent s pt j)) else [])"

definition table_pages :: "mmu \<Rightarrow> nat \<Rightarrow> nat \<Rightarrow> nat list" where
  "table_pages s pd i = (case table s pd i of None \<Rightarrow> [] | Some pt \<Rightarrow> concat (map (entry_page s pt) [0..<1024]) @ [pt])"

definition dir_pages :: "mmu \<Rightarrow> nat \<Rightarrow> nat list" where
  "dir_pages s pd = concat (map (table_pages s pd) [0..<768]) @ [pd]"

lemma free_list:
  assumes "mmu_ok s" and "distinct ps" and "\<And>p. p \<in> set ps \<Longrightarrow> in_use s p"
  shows "\<exists>t. foldM free_page ps s = Some t \<and> mmu_ok t \<and> used_pages (pages t) = used_pages (pages s) - pg_no ` set ps
    \<and> (\<forall>q j. pg_ofs q = 0 \<longrightarrow> q \<notin> set ps \<longrightarrow> j < 1024 \<longrightarrow> ent t q j = ent s q j) \<and> init_page_dir t = init_page_dir s"
  using assms
proof (induction ps arbitrary: s)
  case (Cons p ps)
  have p: "in_use s p" using Cons.prems(3) by simp
  obtain qs where q: "free_page p s = Some (s\<lparr>pages := qs\<rparr>)" "mmu_ok (s\<lparr>pages := qs\<rparr>)"
    "used_pages qs = used_pages (pages s) - {pg_no p}" "ram qs = fill p 0xcc PGSIZE (mem s)" by (rule free_page_eq [OF Cons.prems(1) p])
  have u: "in_use (s\<lparr>pages := qs\<rparr>) x" if "x \<in> set ps" for x
  proof -
    have "in_use s x" "x \<noteq> p" using that Cons.prems(2,3) by auto
    then show ?thesis using pg_no_eq [OF in_useD(2) in_useD(2) [OF p], of s x] by (simp add: in_use_def q(3))
  qed
  have "distinct ps" using Cons.prems(2) by simp
  with Cons.IH [OF q(2)] u obtain t where t: "foldM free_page ps (s\<lparr>pages := qs\<rparr>) = Some t" "mmu_ok t"
    "used_pages (pages t) = used_pages qs - pg_no ` set ps"
    "\<And>r j. pg_ofs r = 0 \<Longrightarrow> r \<notin> set ps \<Longrightarrow> j < 1024 \<Longrightarrow> ent t r j = rd32 (ram qs) (r + 4 * j)" "init_page_dir t = init_page_dir s" by force
  have "ent t r j = ent s r j" if "pg_ofs r = 0" "r \<notin> set (p # ps)" "j < 1024" for r j
    using that t(4) rd32_fill [OF in_useD(2) [OF p] that(1,3)] by (simp add: q(4))
  then show ?case using t q(1,3) by (intro exI [of _ t]) auto
qed simp

lemma distinct_concat_upt:
  assumes "\<And>i. i < n \<Longrightarrow> distinct (f i)" and "\<And>i j. i < j \<Longrightarrow> j < n \<Longrightarrow> set (f i) \<inter> set (f j) = {}"
  shows "distinct (concat (map f [0..<n]))"
  using assms by (induction n) fastforce+

text \<open>Both loops release the pages of a list.\<close>

lemma free_entries:
  assumes "mmu_ok s" and pt: "pg_ofs pt = 0" "pt \<notin> set (concat (map (entry_page s pt) [0..<n]))"
    and ps: "distinct (concat (map (entry_page s pt) [0..<n]))" "\<And>p. p \<in> set (concat (map (entry_page s pt) [0..<n])) \<Longrightarrow> in_use s p"
    and ok: "\<And>j. j < n \<Longrightarrow> ent s pt j AND PTE_P \<noteq> 0 \<Longrightarrow> \<exists>p. pte_get_page (ent s pt j) = Some p" and "n \<le> 1024"
  shows "for_range 0 n (free_entry pt) s = foldM free_page (concat (map (entry_page s pt) [0..<n])) s"
  using assms(2-7)
proof (induction n)
  case (Suc n)
  let ?ps = "concat (map (entry_page s pt) [0..<n])"
  have IH: "for_range 0 n (free_entry pt) s = foldM free_page ?ps s" using Suc by (intro Suc.IH) auto
  obtain t where t: "foldM free_page ?ps s = Some t" "ent t pt n = ent s pt n"
    using free_list [OF assms(1), of ?ps] Suc.prems by fastforce
  have "free_entry pt n t = foldM free_page (entry_page s pt n) t"
  proof (cases "ent s pt n AND PTE_P = 0")
    case False
    then obtain p where "pte_get_page (ent s pt n) = Some p" using Suc.prems(5) [of n] by auto
    then show ?thesis using False by (simp add: free_entry_def entry_page_def t(2) foldM_Nil_bind)
  qed (simp add: free_entry_def entry_page_def t(2))
  then show ?case by (simp add: for_range_Suc IH t(1) foldM_append)
qed simp

definition entries_ok :: "mmu \<Rightarrow> nat \<Rightarrow> nat \<Rightarrow> bool" where
  "entries_ok s pd i \<longleftrightarrow> (\<forall>pt j. table s pd i = Some pt \<and> j < 1024 \<and> ent s pt j AND PTE_P \<noteq> 0 \<longrightarrow> (\<exists>p. pte_get_page (ent s pt j) = Some p))"

lemma free_table_list:
  assumes "mmu_ok t" and "i < 768" and "ent t pd i = 0 \<or> (\<exists>pt. pde_create pt = Some (ent t pd i) \<and> kernel_page pt)"
    and ps: "distinct (table_pages t pd i)" "\<And>p. p \<in> set (table_pages t pd i) \<Longrightarrow> in_use t p" and ok: "entries_ok t pd i"
  shows "free_table pd i t = foldM free_page (table_pages t pd i) t"
proof (cases "ent t pd i = 0")
  case False
  with assms(3) obtain pt where pt: "pde_create pt = Some (ent t pd i)" "kernel_page pt" by blast
  note e = pde_get_create [OF pt(2,1)]
  have t: "table t pd i = Some pt" using e by (simp add: table_def)
  have "for_range 0 1024 (free_entry pt) t = foldM free_page (concat (map (entry_page t pt) [0..<1024])) t"
  proof (rule free_entries [OF assms(1)])
    show "pg_ofs pt = 0" using pt(2) by (simp add: kernel_page_def)
    show "\<exists>p. pte_get_page (ent t pt j) = Some p" if "j < 1024" "ent t pt j AND PTE_P \<noteq> 0" for j using that ok t by (auto simp: entries_ok_def)
  qed (use ps in \<open>auto simp: table_pages_def t\<close>)
  then show ?thesis using e by (simp add: free_table_def table_pages_def t foldM_append PGSIZE_def foldM_Nil_bind)
qed (simp add: free_table_def table_pages_def table_def)

lemma free_tables:
  assumes mm: "mmu_ok s" and ok: "dir_ok s pd" and en: "\<And>i. i < 768 \<Longrightarrow> entries_ok s pd i" and ps: "distinct (dir_pages s pd)" "\<And>p. p \<in> set (dir_pages s pd) \<Longrightarrow> in_use s p"
    and n: "n \<le> 768"
  shows "for_range 0 n (free_table pd) s = foldM free_page (concat (map (table_pages s pd) [0..<n])) s"
  using n
proof (induction n)
  case (Suc n)
  let ?ps = "concat (map (table_pages s pd) [0..<n])"
  have "[0..<768] = [0..<n] @ n # [Suc n..<768]" using Suc.prems upt_split_at [of 0 n 768] by simp
  then have d: "dir_pages s pd = ?ps @ table_pages s pd n @ concat (map (table_pages s pd) [Suc n..<768]) @ [pd]" by (simp add: dir_pages_def)
  have IH: "for_range 0 n (free_table pd) s = foldM free_page ?ps s" using Suc by simp
  obtain t where t: "foldM free_page ?ps s = Some t" "mmu_ok t" "used_pages (pages t) = used_pages (pages s) - pg_no ` set ?ps"
    "\<And>q j. pg_ofs q = 0 \<Longrightarrow> q \<notin> set ?ps \<Longrightarrow> j < 1024 \<Longrightarrow> ent t q j = ent s q j"
    using free_list [OF mm, of ?ps] ps unfolding d by force
  have pd: "pg_ofs pd = 0" "pd \<notin> set ?ps" using dir_ok_in_use(1) [OF ok] in_useD(2) ps(1) unfolding d by auto
  have e: "ent t pd n = ent s pd n" using t(4) [OF pd] Suc.prems by simp
  have tb: "table t pd n = table s pd n" by (simp add: table_def e)
  have apart: "set ?ps \<inter> set (table_pages s pd n) = {}" using ps(1) unfolding d by (simp only: distinct_append set_append) blast
  have k: "kernel_page pt \<and> pt \<notin> set ?ps" if "table s pd n = Some pt" for pt
  proof -
    have "pt \<in> set (table_pages s pd n)" using that by (simp add: table_pages_def)
    moreover have "n < 768" using Suc.prems by simp
    ultimately show ?thesis using apart that table_Some [OF ok, of n pt] in_useD(1) by blast
  qed
  have same: "ent t pt j = ent s pt j" if "table s pd n = Some pt" "j < 1024" for pt j using k [OF that(1)] t(4) that(2) by (auto simp: kernel_page_def)
  have tp: "table_pages t pd n = table_pages s pd n"
  proof (cases "table s pd n")
    case (Some pt)
    then have "map (entry_page t pt) [0..<1024] = map (entry_page s pt) [0..<1024]" using same by (intro map_cong refl) (simp add: entry_page_def)
    then show ?thesis unfolding table_pages_def tb Some by (simp only: option.case)
  qed (simp add: table_pages_def tb)
  have "free_table pd n t = foldM free_page (table_pages t pd n) t"
  proof (rule free_table_list [OF t(2)])
    show "ent t pd n = 0 \<or> (\<exists>pt. pde_create pt = Some (ent t pd n) \<and> kernel_page pt)"
      using ok Suc.prems in_useD(1) unfolding e dir_ok_def by (meson Suc_le_lessD)
    show "distinct (table_pages t pd n)" using ps(1) unfolding d tp by simp
    show "in_use t p" if "p \<in> set (table_pages t pd n)" for p
    proof -
      have "in_use s p" "p \<notin> set ?ps" using that ps unfolding d tp by auto
      moreover have "pg_no p \<noteq> pg_no q" if "q \<in> set ?ps" for q
      proof -
        have "in_use s q" using that by (intro ps(2)) (simp only: d set_append Un_iff simp_thms)
        then show ?thesis using pg_no_eq [OF in_useD(2) in_useD(2)] calculation that by metis
      qed
      ultimately show ?thesis unfolding in_use_def t(3) by blast
    qed
    show "entries_ok t pd n" using en [of n] same Suc.prems by (auto simp: entries_ok_def tb)
  qed (use Suc.prems in simp)
  then show ?case by (simp add: for_range_Suc IH t(1) tp foldM_append)
qed simp

lemma vaddr_indices:
  assumes "i < 768" and "j < 1024"
  shows "is_user_vaddr (4194304 * i + 4096 * j)" "pd_no (4194304 * i + 4096 * j) = i" "pt_no (4194304 * i + 4096 * j) = j"
proof -
  show "is_user_vaddr (4194304 * i + 4096 * j)" using assms by (simp add: is_user_vaddr_def PHYS_BASE_def)
  show "pd_no (4194304 * i + 4096 * j) = i" using assms(2) by (simp add: pd_no_def PGSIZE_def)
  have "(4194304 * i + 4096 * j) div 4096 = 1024 * i + j" by simp
  then show "pt_no (4194304 * i + 4096 * j) = j" using assms(2) by (simp add: pt_no_def PGSIZE_def)
qed

lemma entry_of_pte:
  assumes "table s pd i = Some pt" "i < 768" "j < 1024"
  shows "ent s pt j = pte s pd (4194304 * i + 4096 * j)"
  using assms by (simp add: pte_def vaddr_indices)

text \<open>The list of the pages of a well-formed directory: its tables and the pages it maps, each of them once.\<close>

lemma set_entry_page:
  assumes "table s pd i = Some pt" "i < 768" "j < 1024"
  shows "p \<in> set (entry_page s pt j) \<longleftrightarrow>
    pte s pd (4194304 * i + 4096 * j) AND PTE_P \<noteq> 0 \<and> pte_get_page (pte s pd (4194304 * i + 4096 * j)) = Some p"
  unfolding entry_page_def entry_of_pte [OF assms] by (cases "pte_get_page (pte s pd (4194304 * i + 4096 * j))") auto

lemma set_table_pages:
  assumes "i < 768"
  shows "p \<in> set (table_pages s pd i) \<longleftrightarrow> table s pd i = Some p
    \<or> (\<exists>j<1024. pte s pd (4194304 * i + 4096 * j) AND PTE_P \<noteq> 0 \<and> pte_get_page (pte s pd (4194304 * i + 4096 * j)) = Some p)"
proof (cases "table s pd i")
  case None
  then show ?thesis using assms by (auto simp: table_pages_def pte_def vaddr_indices)
next
  case (Some pt)
  then show ?thesis using set_entry_page [OF Some assms] by (auto simp: table_pages_def)
qed

lemma set_dir_pages: "set (dir_pages s pd) = own s pd \<union> frames s pd"
proof -
  have fr: "p \<in> frames s pd \<longleftrightarrow> (\<exists>i<768. \<exists>j<1024. pte s pd (4194304 * i + 4096 * j) AND PTE_P \<noteq> 0 \<and> pte_get_page (pte s pd (4194304 * i + 4096 * j)) = Some p)" for p
  proof
    assume "p \<in> frames s pd"
    then obtain va where va: "is_user_vaddr va" "pte s pd va AND PTE_P \<noteq> 0" "pte_get_page (pte s pd va) = Some p" by (auto simp: frames_def)
    have "pte s pd (4194304 * pd_no va + 4096 * pt_no va) = pte s pd va" using indices [of va] va(1) by (auto simp: pte_def vaddr_indices split: option.split)
    then show "\<exists>i<768. \<exists>j<1024. pte s pd (4194304 * i + 4096 * j) AND PTE_P \<noteq> 0 \<and> pte_get_page (pte s pd (4194304 * i + 4096 * j)) = Some p"
      using va indices by metis
  qed (use vaddr_indices(1) in \<open>auto simp: frames_def\<close>)
  have "p \<in> set (dir_pages s pd) \<longleftrightarrow> p = pd \<or> (\<exists>i<768. p \<in> set (table_pages s pd i))" for p by (auto simp: dir_pages_def)
  also have "\<dots> p \<longleftrightarrow> p \<in> own s pd \<union> frames s pd" for p
    unfolding fr own_def Un_iff insert_iff mem_Collect_eq using set_table_pages [of _ p s pd] by blast
  finally show ?thesis by (simp only: set_eq_iff) blast
qed

lemma dir_full_frame:
  assumes "dir_full s pd" and "i < 768" "j < 1024" "pte s pd (4194304 * i + 4096 * j) AND PTE_P \<noteq> 0"
  shows "\<exists>p. pte_get_page (pte s pd (4194304 * i + 4096 * j)) = Some p \<and> in_use s p \<and> p \<notin> own s pd"
  using assms vaddr_indices(1) unfolding dir_full_def by blast

lemma dir_full_inj:
  assumes "dir_full s pd" and "i < 768" "j < 1024" "pte s pd (4194304 * i + 4096 * j) AND PTE_P \<noteq> 0"
    and "k < 768" "l < 1024" "pte s pd (4194304 * k + 4096 * l) AND PTE_P \<noteq> 0"
    and "pte_get_page (pte s pd (4194304 * i + 4096 * j)) = pte_get_page (pte s pd (4194304 * k + 4096 * l))"
  shows "i = k \<and> j = l"
proof -
  have "pg_no (4194304 * i + 4096 * j) = pg_no (4194304 * k + 4096 * l)"
    using assms vaddr_indices(1) unfolding dir_full_def by blast
  then show ?thesis using assms(2,3,5,6) unfolding page_by_indices by (simp add: vaddr_indices)
qed

lemma distinct_table_pages:
  assumes full: "dir_full s pd" and i: "i < 768"
  shows "distinct (table_pages s pd i)"
proof (cases "table s pd i")
  case (Some pt)
  have "distinct (concat (map (entry_page s pt) [0..<1024]))"
  proof (rule distinct_concat_upt)
    show "set (entry_page s pt j) \<inter> set (entry_page s pt k) = {}" if "j < k" "k < 1024" for j k
      using dir_full_inj [OF full i _ _ i, of j k] that by (auto simp: set_entry_page [OF Some i])
    show "distinct (entry_page s pt j)" for j by (cases "pte_get_page (ent s pt j)") (simp_all add: entry_page_def)
  qed
  moreover have "pt \<notin> set (entry_page s pt j)" if "j < 1024" for j
    using dir_full_frame [OF full i that] Some i by (auto simp: set_entry_page [OF Some i that] own_def)
  ultimately show ?thesis by (auto simp: table_pages_def Some)
qed (simp add: table_pages_def)

lemma distinct_dir_pages:
  assumes full: "dir_full s pd"
  shows "distinct (dir_pages s pd)"
proof -
  have ok: "dir_ok s pd" using full by (simp add: dir_full_def)
  have "distinct (concat (map (table_pages s pd) [0..<768]))"
  proof (rule distinct_concat_upt)
    fix i k :: nat
    assume ik: "i < k" "k < 768"
    have "p \<notin> set (table_pages s pd k)" if p: "p \<in> set (table_pages s pd i)" for p
    proof
      assume q: "p \<in> set (table_pages s pd k)"
      have i: "i < 768" using ik by simp
      have own: "table s pd j = Some p \<Longrightarrow> j < 768 \<Longrightarrow> p \<in> own s pd" for j by (auto simp: own_def)
      have frame: "p \<notin> own s pd" if "j < 768" "l < 1024" "pte s pd (4194304 * j + 4096 * l) AND PTE_P \<noteq> 0"
        "pte_get_page (pte s pd (4194304 * j + 4096 * l)) = Some p" for j l using dir_full_frame [OF full that(1-3)] that(4) by auto
      from p [unfolded set_table_pages [OF i]] show False
      proof (elim disjE exE conjE)
        assume t: "table s pd i = Some p"
        then show False
          using q [unfolded set_table_pages [OF ik(2)]] table_inj [OF ok i ik(2) t] ik(1) own [OF t i] frame [OF ik(2)] by (elim disjE exE conjE) auto
      next
        fix j
        assume j: "j < 1024" "pte s pd (4194304 * i + 4096 * j) AND PTE_P \<noteq> 0" "pte_get_page (pte s pd (4194304 * i + 4096 * j)) = Some p"
        then show False
          using q [unfolded set_table_pages [OF ik(2)]] own [of k] ik frame [OF i j] dir_full_inj [OF full i j(1,2) ik(2)] j(3)
          by (elim disjE exE conjE) (blast, metis less_irrefl)
      qed
    qed
    then show "set (table_pages s pd i) \<inter> set (table_pages s pd k) = {}" by blast
  qed (use distinct_table_pages [OF full] in simp)
  moreover have "pd \<notin> set (table_pages s pd i)" if i: "i < 768" for i
  proof
    assume "pd \<in> set (table_pages s pd i)"
    then obtain j where "j < 1024" "pte s pd (4194304 * i + 4096 * j) AND PTE_P \<noteq> 0" "pte_get_page (pte s pd (4194304 * i + 4096 * j)) = Some pd"
      using table_Some [OF ok i, of pd] by (auto simp: set_table_pages [OF i])
    then show False using dir_full_frame [OF full i, of j] by (auto simp: own_def)
  qed
  ultimately show ?thesis by (auto simp: dir_pages_def)
qed

text \<open>Mapping a page that nobody has keeps the directory in this form.\<close>

lemma dir_full_set_page:
  assumes full: "dir_full s pd" and mm: "mmu_ok s" and pd: "pd \<noteq> init_page_dir s" and up: "pg_ofs upage = 0" "is_user_vaddr upage"
    and kp: "in_use s kpage" "kpage \<notin> own s pd" "kpage \<notin> frames s pd" "(kpage - PHYS_BASE) div PGSIZE < init_ram_pages s"
    and free: "pte s pd upage AND PTE_P = 0" and set: "pagedir_set_page pd upage kpage w s = Some (True, s')"
  shows "dir_full s' pd" and "mmu_ok s'" and "frames s' pd = insert kpage (frames s pd)"
proof -
  have ok: "dir_ok s pd" using full by (simp add: dir_full_def)
  obtain e where e: "pte_create_user kpage w = Some e" and m: "mmu_ok s'" "dir_ok s' pd"
    "\<And>va. is_user_vaddr va \<Longrightarrow> pte s' pd va = (if pg_no va = pg_no upage then e else pte s pd va)"
    "own s' pd \<subseteq> own s pd \<union> {p. \<not> in_use s p}" "used_pages (pages s) \<subseteq> used_pages (pages s')"
    by (rule set_page_cases [OF mm ok pd up in_useD(1) [OF kp(1)] kp(4) free, of w]) (use set in auto)
  note c = pte_get_create [OF in_useD(1) [OF kp(1)] e]
  have u: "in_use s q \<Longrightarrow> in_use s' q" for q using m(5) by (auto simp: in_use_def)
  have fr: "pte_get_page (pte s pd va) = Some p \<Longrightarrow> p \<in> frames s pd" if "is_user_vaddr va" "pte s pd va AND PTE_P \<noteq> 0" for va p
    using that by (auto simp: frames_def)
  have page: "\<exists>p. pte_get_page (pte s pd va) = Some p \<and> in_use s p \<and> p \<notin> own s pd" if "is_user_vaddr va" "pte s pd va AND PTE_P \<noteq> 0" for va
    using that full by (auto simp: dir_full_def)
  have one: "pg_no va = pg_no vb" if "is_user_vaddr va" "is_user_vaddr vb" "pte s pd va AND PTE_P \<noteq> 0" "pte s pd vb AND PTE_P \<noteq> 0"
    "pte_get_page (pte s pd va) = pte_get_page (pte s pd vb)" for va vb
    using that full unfolding dir_full_def by blast
  show "dir_full s' pd"
    unfolding dir_full_def
  proof (intro conjI allI impI; (elim conjE)?)
    fix va
    assume va: "is_user_vaddr va" "pte s' pd va AND PTE_P \<noteq> 0"
    show "\<exists>p. pte_get_page (pte s' pd va) = Some p \<and> in_use s' p \<and> p \<notin> own s' pd"
    proof (cases "pg_no va = pg_no upage")
      case True
      then show ?thesis using m(3) [OF va(1)] c(1) kp(1,2) u m(4) by auto
    next
      case False
      then show ?thesis using m(3) [OF va(1)] page [OF va(1)] va(2) u m(4) by auto
    qed
  next
    fix va vb
    assume v: "is_user_vaddr va" "is_user_vaddr vb" "pte s' pd va AND PTE_P \<noteq> 0" "pte s' pd vb AND PTE_P \<noteq> 0"
      "pte_get_page (pte s' pd va) = pte_get_page (pte s' pd vb)"
    show "pg_no va = pg_no vb"
      using v(3-5) m(3) [OF v(1)] m(3) [OF v(2)] c(1) kp(3) fr [OF v(1), of kpage] fr [OF v(2), of kpage] one [OF v(1,2)]
      by (cases "pg_no va = pg_no upage"; cases "pg_no vb = pg_no upage") auto
  qed (rule m(2))
  show "mmu_ok s'" by (rule m(1))
  have "pte s pd va AND PTE_P = 0" if "pg_no va = pg_no upage" for va
    using that free unfolding page_by_indices pte_def by (auto split: option.split)
  then have "p \<in> frames s' pd \<longleftrightarrow> p = kpage \<or> p \<in> frames s pd" for p
    using m(3) c(1,2) up(2) unfolding frames_def mem_Collect_eq by (metis option.inject)
  then show "frames s' pd = insert kpage (frames s pd)" by blast
qed

text \<open>
  C15. \<^verbatim>\<open>pagedir_destroy\<close>: the call never panics and afterwards exactly the pages of the directory are free again,
  that is, its own page, its page tables and every page that it maps, with no page lost and no
  page released twice. Directories that share no page with it are as before.
\<close>

theorem pagedir_destroy_frees:
  assumes mm: "mmu_ok s" and full: "dir_full s pd" and pd: "pd \<noteq> init_page_dir s"
    and other: "dir_ok s pd'" "own s pd' \<inter> (own s pd \<union> frames s pd) = {}"
  shows "\<exists>s'. pagedir_destroy pd s = Some s' \<and> mmu_ok s'
    \<and> used_pages (pages s') = used_pages (pages s) - pg_no ` (own s pd \<union> frames s pd)
    \<and> dir_ok s' pd' \<and> (\<forall>va. is_user_vaddr va \<longrightarrow> pagedir_get_page pd' va s' = pagedir_get_page pd' va s)"
proof -
  have ok: "dir_ok s pd" using full by (simp add: dir_full_def)
  have use: "in_use s p" if "p \<in> own s pd \<union> frames s pd" for p
    using that own_in_use [OF ok] full by (auto simp: frames_def dir_full_def)
  have en: "entries_ok s pd i" if "i < 768" for i
    using dir_full_frame [OF full that] entry_of_pte [OF _ that] by (auto simp: entries_ok_def) (metis option.distinct(1))
  note d = distinct_dir_pages [OF full]
  obtain t where t: "foldM free_page (dir_pages s pd) s = Some t" "mmu_ok t"
    "used_pages (pages t) = used_pages (pages s) - pg_no ` (own s pd \<union> frames s pd)"
    "\<And>q j. pg_ofs q = 0 \<Longrightarrow> q \<notin> own s pd \<union> frames s pd \<Longrightarrow> j < 1024 \<Longrightarrow> ent t q j = ent s q j"
    using free_list [OF mm d] use set_dir_pages [of s pd] by auto
  have "pd_no PHYS_BASE = 768" by (simp add: pd_no_def PHYS_BASE_def PGSIZE_def)
  moreover have "for_range 0 768 (free_table pd) s = foldM free_page (concat (map (table_pages s pd) [0..<768])) s"
    by (rule free_tables [OF mm ok en d]) (use use set_dir_pages [of s pd] in auto)
  ultimately have "pagedir_destroy pd s = foldM free_page (dir_pages s pd) s"
    using dir_ok_in_use(2) [OF ok] pd
    by (simp add: pagedir_destroy_def dir_pages_def foldM_append foldM_Nil_bind)
  then have r: "pagedir_destroy pd s = Some t" using t(1) by simp
  have ne: "pg_no q \<notin> pg_no ` (own s pd \<union> frames s pd)" if "q \<in> own s pd'" for q
    using that other use own_in_use [OF other(1)] pg_no_eq in_useD(2) by fastforce
  have us: "in_use t q" if "q \<in> own s pd'" for q using own_in_use [OF other(1) that] ne [OF that] by (simp add: in_use_def t(3))
  have same: "ent t q j = ent s q j" if "q \<in> own s pd'" "j < 1024" for q j
    using that other(2) in_useD(2) [OF own_in_use [OF other(1) that(1)]] by (intro t(4)) auto
  have o: "dir_ok t pd'" "is_user_vaddr va \<Longrightarrow> pte t pd' va = pte s pd' va" for va
    by (rule dir_frame [OF other(1) us], assumption, erule (1) same, assumption?)+
  then show ?thesis using r t(2,3) other(1) by (intro exI [of _ t]) (simp add: pagedir_get_page_pte)
qed

lemma demo_not_full:
  "2 < bit_cnt (used_map (kernel_pool (pages demo_mmu)))" "2 \<notin> used_units (used_map (kernel_pool (pages demo_mmu)))"
  using used_2 [of 4 3] by (simp_all add: demo_mmu_def bit_iff_odd)

theorem pagedir_destroy_frees_witness:
  "\<exists>s s'. pagedir_set_page 3222274048 4096 3223322624 True demo_mmu = Some (True, s) \<and> pagedir_destroy 3222274048 s = Some s'
     \<and> pg_no 3222274048 \<notin> used_pages (pages s') \<and> pg_no 3223322624 \<notin> used_pages (pages s')"
proof -
  have hyp: "3222274048 \<noteq> init_page_dir demo_mmu" "pg_ofs 4096 = 0" "is_user_vaddr 4096" "(3223322624 - PHYS_BASE) div PGSIZE < init_ram_pages demo_mmu"
    by (simp_all add: demo_mmu_def pg_ofs_def PGSIZE_def is_user_vaddr_def PHYS_BASE_def)
  have none: "frames demo_mmu pd = {}" for pd by (simp add: frames_def demo_mmu_pte)
  have full: "dir_full demo_mmu 3222274048" using demo_mmu_dirs by (simp add: dir_full_def demo_mmu_pte)
  have free: "pte demo_mmu 3222274048 4096 AND PTE_P = 0" by (simp add: demo_mmu_pte)
  note k = in_useD(1) [OF demo_mmu_in_use(3)]
  obtain s where s: "pagedir_set_page 3222274048 4096 3223322624 True demo_mmu = Some (True, s)" "dir_ok s 3222274048"
    "own s 3222274048 \<subseteq> {3222274048} \<union> {p. \<not> in_use demo_mmu p}" "used_pages (pages demo_mmu) \<subseteq> used_pages (pages s)"
    "\<And>q j. in_use demo_mmu q \<Longrightarrow> q \<noteq> 3222274048 \<Longrightarrow> j < 1024 \<Longrightarrow> ent s q j = 0" "init_page_dir s = init_page_dir demo_mmu"
    by (rule set_page_cases [OF demo_mmu_ok demo_mmu_dirs(1) hyp(1-3) k hyp(4) free, of True])
      (use demo_not_full in \<open>auto simp: demo_mmu_pte demo_mmu_entries\<close>)
  have n: "3223322624 \<notin> own demo_mmu 3222274048" "3223322624 \<notin> frames demo_mmu 3222274048" by (simp_all add: none demo_mmu_pte)
  note f = dir_full_set_page [OF full demo_mmu_ok hyp(1-3) demo_mmu_in_use(3) n hyp(4) free s(1)]
  have "in_use s 3222278144" using demo_mmu_in_use(2) s(4) by (auto simp: in_use_def)
  then have o: "dir_ok s 3222278144" "own s 3222278144 = {3222278144}" using s(5) [OF demo_mmu_in_use(2)] by (auto simp: dir_ok_def own_def table_def)
  then have "own s 3222278144 \<inter> (own s 3222274048 \<union> frames s 3222274048) = {}" using s(3) demo_mmu_in_use(2) by (auto simp: f(3) none)
  from pagedir_destroy_frees [OF f(2,1) _ o(1) this] hyp(1) s(1,6) show ?thesis by (auto simp: own_def f(3))
qed

end
