(* ===== verification/Syscall.thy ===== *)
theory Syscall
  imports Filesys
begin

text \<open>
  The system calls of \<^verbatim>\<open>fs_PintOS/userprog/syscall.c\<close> with \<^verbatim>\<open>process_wait\<close>, \<^verbatim>\<open>process_execute\<close> and \<^verbatim>\<open>process_exit\<close> of
  \<^verbatim>\<open>process.c\<close>, as one process makes them. The state is the process, the file system and what the
  process sees of the memory: \<open>vmem\<close> is undefined at addresses that are not mapped, and an access to
  one of them by the kernel is a panic (\<^verbatim>\<open>page_fault\<close> and \<^verbatim>\<open>kill\<close> of \<^verbatim>\<open>exception.c\<close>). The open files are
  objects in a store, as \<^verbatim>\<open>open_files\<close> and \<^verbatim>\<open>exec_file\<close> point to them. \<open>filesys_lock\<close> says whether this
  process holds the lock; waiting for another process to release it is not visible.

  A call returns, or ends in one of four ways: the process has exited, the machine is off, the kernel
  has panicked, or the process waits in \<^verbatim>\<open>sema_down\<close>. A call that does none of them has the value \<open>None\<close>.
\<close>

datatype event = Exit_line int | Output "u8 list"

record child_info =
  ctid :: int
  cstatus :: int
  sema_dead :: nat

record proc =
  fsys :: fs
  files :: "nat \<rightharpoonup> file_t"
  open_files :: "nat list"
  exec_file :: nat
  filesys_lock :: bool
  console :: "event list"
  vmem :: "nat \<rightharpoonup> u8"
  writable :: "nat \<Rightarrow> bool"
  keys :: "u8 list"
  esp :: nat
  eax :: u32
  children_list :: "child_info list"
  my_info :: child_info

datatype ending = Exited proc | Off proc | Panic | Waiting proc

type_synonym 'a outcome = "(ending + 'a \<times> proc) option"

definition ret :: "'a \<Rightarrow> proc \<Rightarrow> 'a outcome" where
  "ret x s = Some (Inr (x, s))"

definition ends :: "ending \<Rightarrow> 'a outcome" where
  "ends e = Some (Inl e)"

definition andThen :: "(proc \<Rightarrow> 'a outcome) \<Rightarrow> ('a \<Rightarrow> proc \<Rightarrow> 'b outcome) \<Rightarrow> proc \<Rightarrow> 'b outcome" where
  "andThen m f s = (case m s of None \<Rightarrow> None | Some (Inl e) \<Rightarrow> Some (Inl e) | Some (Inr (x, t)) \<Rightarrow> f x t)"

definition opt :: "('a \<times> proc) option \<Rightarrow> 'a outcome" where
  "opt r = (case r of None \<Rightarrow> ends Panic | Some (x, s) \<Rightarrow> ret x s)"

text \<open>A call into the file system.\<close>

definition in_fs :: "(fs \<Rightarrow> ('a \<times> fs) option) \<Rightarrow> proc \<Rightarrow> 'a outcome" where
  "in_fs f s = opt (map_option (\<lambda>(x, t). (x, s\<lparr>fsys := t\<rparr>)) (f (fsys s)))"

definition set_eax :: "u32 \<Rightarrow> proc \<Rightarrow> unit outcome" where
  "set_eax v s = ret () (s\<lparr>eax := v\<rparr>)"

definition acquire :: "proc \<Rightarrow> unit outcome" where
  "acquire s = (if filesys_lock s then ends Panic else ret () (s\<lparr>filesys_lock := True\<rparr>))"

definition release :: "proc \<Rightarrow> unit outcome" where
  "release s = (if filesys_lock s then ret () (s\<lparr>filesys_lock := False\<rparr>) else ends Panic)"

subsection \<open>User memory\<close>

definition load32 :: "(nat \<rightharpoonup> u8) \<Rightarrow> nat \<Rightarrow> u32 option" where
  "load32 m a = do {
     b0 \<leftarrow> m a; b1 \<leftarrow> m (a + 1); b2 \<leftarrow> m (a + 2); b3 \<leftarrow> m (a + 3);
     Some (bytes_u32 b0 b1 b2 b3) }"

definition arg :: "nat \<Rightarrow> proc \<Rightarrow> u32 outcome" where
  "arg k s = opt (map_option (\<lambda>w. (w, s)) (load32 (vmem s) (esp s + k)))"

text \<open>
  The string at an address. When it runs into memory that is not mapped the value is \<open>None\<close>; the callers
  below take this as a page fault, wherever the string is read.
\<close>

partial_function (option) user_string :: "(nat \<rightharpoonup> u8) \<Rightarrow> nat \<Rightarrow> u8 list option" where
  "user_string m p = do {
     b \<leftarrow> m p;
     if b = 0 then Some [] else do { bs \<leftarrow> user_string m (p + 1); Some (b # bs) } }"

definition string_at :: "nat \<Rightarrow> proc \<Rightarrow> u8 list outcome" where
  "string_at p s = opt (map_option (\<lambda>b. (b, s)) (user_string (vmem s) p))"

definition store :: "nat \<Rightarrow> u8 list \<Rightarrow> proc \<Rightarrow> unit outcome" where
  "store a bs s =
     (if (\<forall>i \<in> set [0..<length bs]. vmem s (a + i) \<noteq> None \<and> writable s (a + i))
      then ret () (s\<lparr>vmem := (\<lambda>x. if a \<le> x \<and> x < a + length bs then Some (bs ! (x - a)) else vmem s x)\<rparr>)
      else ends Panic)"

definition invalid_ptr :: "nat \<Rightarrow> proc \<Rightarrow> bool" where
  "invalid_ptr p s \<longleftrightarrow> p = 0 \<or> \<not> p < 3221225472 \<or> vmem s p = None"

subsection \<open>Leaving a process\<close>

text \<open>
  \<^verbatim>\<open>process_exit\<close> up to the page directory, and the part of \<^verbatim>\<open>my_close\<close> after \<^verbatim>\<open>get_file\<close>. The file is freed with the
  store's entry.
\<close>

definition close_file :: "nat \<Rightarrow> proc \<Rightarrow> proc option" where
  "close_file p s =
     (if p = 0 then Some s
      else do { f \<leftarrow> files s p; t \<leftarrow> file_close (fsys s) (Some f); Some (s\<lparr>fsys := t, files := (files s)(p := None)\<rparr>) })"

definition process_exit :: "proc \<Rightarrow> ending" where
  "process_exit s =
     (let s = s\<lparr>my_info := (my_info s)\<lparr>sema_dead := sema_dead (my_info s) + 1\<rparr>\<rparr>
      in case close_file (exec_file s) s of None \<Rightarrow> Panic | Some s \<Rightarrow> Exited s)"

definition bad_fd :: "int \<Rightarrow> proc \<Rightarrow> bool" where
  "bad_fd fd s \<longleftrightarrow> fd < 2 \<or> fd > 129 \<or> open_files s ! nat (fd - 2) = 0"

definition close_fd :: "int \<Rightarrow> proc \<Rightarrow> proc option" where
  "close_fd fd s = do {
     let cur_file = open_files s ! nat (fd - 2);
     let s = s\<lparr>open_files := (open_files s)[nat (fd - 2) := 0]\<rparr>;
     ASSERT (\<not> filesys_lock s);
     close_file cur_file s }"

text \<open>
  \<^verbatim>\<open>exit_status\<close> closes the open files with \<^verbatim>\<open>my_close\<close>, which calls \<^verbatim>\<open>get_file\<close>, which calls \<^verbatim>\<open>exit_status\<close> for a
  descriptor that is not open. \<open>exit_loop e n\<close> is the loop of a call with the status \<open>e\<close> from the index \<open>n\<close> on.
\<close>

definition exit_line :: "int \<Rightarrow> proc \<Rightarrow> proc" where
  "exit_line e s = s\<lparr>console := console s @ [Exit_line e]\<rparr>"

partial_function (option) exit_loop :: "int \<Rightarrow> nat \<Rightarrow> proc \<Rightarrow> ending option" where
  "exit_loop e n s =
     (if n < 129
      then if open_files s ! n \<noteq> 0
        then if bad_fd (int n) s then exit_loop (- 1) 2 (exit_line (- 1) s)
          else (case close_fd (int n) s of None \<Rightarrow> Some Panic | Some t \<Rightarrow> exit_loop e (Suc n) t)
        else exit_loop e (Suc n) s
      else Some (process_exit (s\<lparr>my_info := (my_info s)\<lparr>cstatus := e\<rparr>\<rparr>)))"

definition exit_status :: "int \<Rightarrow> proc \<Rightarrow> 'a outcome" where
  "exit_status e s = do { r \<leftarrow> exit_loop e 2 (exit_line e s); ends r }"

definition get_file :: "int \<Rightarrow> proc \<Rightarrow> nat outcome" where
  "get_file fd s = (if bad_fd fd s then exit_status (- 1) s else ret (open_files s ! nat (fd - 2)) s)"

definition my_close :: "int \<Rightarrow> proc \<Rightarrow> unit outcome" where
  "my_close fd = andThen (get_file fd) (\<lambda>_ s. opt (map_option (Pair ()) (close_fd fd s)))"

definition my_halt :: "proc \<Rightarrow> unit outcome" where
  "my_halt s = (case filesys_done (fsys s) of None \<Rightarrow> ends Panic | Some t \<Rightarrow> ends (Off (s\<lparr>fsys := t\<rparr>)))"

definition my_exit :: "proc \<Rightarrow> unit outcome" where
  "my_exit = andThen (arg 4) (\<lambda>w s.
     let e_status = sint w
     in if e_status < - 1 then exit_status (- 1) s
        else andThen (exit_status e_status :: proc \<Rightarrow> unit outcome) (\<lambda>_. set_eax w) s)"

subsection \<open>Processes\<close>

text \<open>
  \<open>start\<close> is the run of the new thread up to its \<^verbatim>\<open>sema_up\<close> on \<^verbatim>\<open>exec_sema\<close>, or to its end when the load fails: given the
  command line, its identifier if \<^verbatim>\<open>thread_create\<close> makes one, whether the load succeeded, and the file system
  afterwards. The pages for the copies of the command line are there if \<open>page1\<close> and \<open>page2\<close> hold.
\<close>

definition process_execute :: "(u8 list \<Rightarrow> fs \<Rightarrow> (int option \<times> bool \<times> fs) option) \<Rightarrow> bool \<Rightarrow> bool \<Rightarrow> u8 list \<Rightarrow> fs \<Rightarrow> ((int option \<times> bool) \<times> fs) option" where
  "process_execute start page1 page2 file_name t =
     (if \<not> page1 \<or> \<not> page2 then Some ((None, False), t)
      else case tokens {32} (take 4095 file_name) of
        [] \<Rightarrow> None
      | token # _ \<Rightarrow> do {
          (f, t) \<leftarrow> filesys_open t token;
          case f of None \<Rightarrow> Some ((None, False), t)
          | Some _ \<Rightarrow> do { (tid, loaded, t) \<leftarrow> start (take 4095 file_name) t; Some ((tid, loaded), t) } })"

definition my_exec :: "(u8 list \<Rightarrow> fs \<Rightarrow> (int option \<times> bool \<times> fs) option) \<Rightarrow> bool \<Rightarrow> bool \<Rightarrow> proc \<Rightarrow> unit outcome" where
  "my_exec start page1 page2 = andThen (arg 4) (\<lambda>filename s.
     if invalid_ptr (unat filename) s then exit_status (- 1) s
     else andThen acquire (\<lambda>_.
       andThen (string_at (unat filename)) (\<lambda>name.
       andThen (in_fs (process_execute start page1 page2 name)) (\<lambda>(tid, loaded) s.
         case tid of
           None \<Rightarrow> andThen release (\<lambda>_. set_eax (- 1)) s
         | Some pid \<Rightarrow>
             let s = s\<lparr>children_list := children_list s @ [\<lparr>ctid = pid, cstatus = - 1, sema_dead = if loaded then 0 else 1\<rparr>]\<rparr>
             in if loaded then andThen release (\<lambda>_. set_eax (word_of_int pid)) s else ends (Waiting s)))) s)"

definition process_wait :: "int \<Rightarrow> proc \<Rightarrow> int outcome" where
  "process_wait child_tid s =
     (case find (\<lambda>c. ctid c = child_tid) (children_list s) of
        None \<Rightarrow> ret (- 1) s
      | Some c \<Rightarrow>
          let s = s\<lparr>children_list := remove1 c (children_list s)\<rparr>
          in if sema_dead c = 0 then ends (Waiting s) else ret (cstatus c) s)"

definition my_wait :: "proc \<Rightarrow> unit outcome" where
  "my_wait = andThen (arg 4) (\<lambda>pid. andThen (process_wait (sint pid)) (\<lambda>r. set_eax (word_of_int r)))"

subsection \<open>Files\<close>

definition my_create :: "u8 list \<Rightarrow> proc \<Rightarrow> unit outcome" where
  "my_create stack = andThen (arg 4) (\<lambda>filename. andThen (arg 8) (\<lambda>initial_size s.
     if invalid_ptr (unat filename) s \<or> vmem s (unat filename) = Some 0 then exit_status (- 1) s
     else andThen (string_at (unat filename)) (\<lambda>name.
       andThen acquire (\<lambda>_.
       andThen (in_fs (\<lambda>t. filesys_create stack t (Some name) (unat initial_size) False)) (\<lambda>r.
       andThen (set_eax (of_bool r)) (\<lambda>_. release)))) s))"

definition my_remove :: "proc \<Rightarrow> unit outcome" where
  "my_remove = andThen (arg 4) (\<lambda>filename s.
     if invalid_ptr (unat filename) s then exit_status (- 1) s
     else andThen acquire (\<lambda>_.
       andThen (string_at (unat filename)) (\<lambda>name.
       andThen (in_fs (\<lambda>t. filesys_remove t name)) (\<lambda>r.
       andThen (set_eax (of_bool r)) (\<lambda>_. release)))) s)"

text \<open>
  The search of \<^verbatim>\<open>next_fd\<close> goes on past the 128 elements of the array, and so does the list \<open>open_files\<close>, which holds the
  words of the page from the array on; the end of the list stands for the end of the page.
\<close>

definition next_fd :: "proc \<Rightarrow> int option" where
  "next_fd s = map_option (\<lambda>i. int i + 2) (find (\<lambda>i. open_files s ! i = 0) [0..<length (open_files s)])"

text \<open>\<open>addr\<close> is what \<^verbatim>\<open>calloc\<close> returns for the new \<^verbatim>\<open>struct file\<close>.\<close>

definition my_open :: "nat \<Rightarrow> proc \<Rightarrow> unit outcome" where
  "my_open addr = andThen (arg 4) (\<lambda>filename s.
     if invalid_ptr (unat filename) s then exit_status (- 1) s
     else andThen acquire (\<lambda>_.
       andThen (string_at (unat filename)) (\<lambda>name.
       andThen (in_fs (\<lambda>t. filesys_open t name)) (\<lambda>cur_file.
       andThen release (\<lambda>_ s.
         case cur_file of
           None \<Rightarrow> set_eax (- 1) s
         | Some f \<Rightarrow>
             case next_fd s of
               None \<Rightarrow> ends Panic
             | Some fd \<Rightarrow> set_eax (word_of_int fd) (s\<lparr>files := (files s)(addr \<mapsto> f), open_files := (open_files s)[nat (fd - 2) := addr]\<rparr>))))) s)"

text \<open>The object that a pointer from the table points to, and a change of it.\<close>

definition deref :: "nat \<Rightarrow> proc \<Rightarrow> file_t outcome" where
  "deref p s = opt (map_option (\<lambda>f. (f, s)) (files s p))"

definition set_file :: "nat \<Rightarrow> file_t \<Rightarrow> proc \<Rightarrow> unit outcome" where
  "set_file p f s = ret () (s\<lparr>files := (files s)(p \<mapsto> f)\<rparr>)"

definition my_filesize :: "proc \<Rightarrow> unit outcome" where
  "my_filesize = andThen (arg 4) (\<lambda>fd.
     andThen (get_file (sint fd)) (\<lambda>cur_file.
     andThen acquire (\<lambda>_.
     andThen (deref cur_file) (\<lambda>f s.
     andThen release (\<lambda>_. set_eax (of_nat (file_length (fsys s) f))) s))))"

text \<open>
  The branch of \<^verbatim>\<open>my_read\<close> for the keyboard declares a second variable \<^verbatim>\<open>buffer\<close> that is initialised with itself, so
  that the characters go to the address \<open>junk\<close>. \<open>keys\<close> are the keys pressed; without one the call waits.
\<close>

fun read_keys :: "nat \<Rightarrow> nat \<Rightarrow> proc \<Rightarrow> unit outcome" where
  "read_keys junk 0 s = ret () s"
| "read_keys junk (Suc n) s =
     (case keys s of [] \<Rightarrow> ends (Waiting s)
      | k # ks \<Rightarrow> andThen (store junk [k]) (\<lambda>_. read_keys (junk + 1) n) (s\<lparr>keys := ks\<rparr>))"

definition my_read :: "nat \<Rightarrow> proc \<Rightarrow> unit outcome" where
  "my_read junk = andThen (arg 4) (\<lambda>fd. andThen (arg 8) (\<lambda>buffer. andThen (arg 12) (\<lambda>length s.
     if invalid_ptr (unat buffer) s then exit_status (- 1) s
     else if sint fd = 0
     then andThen acquire (\<lambda>_.
       andThen (read_keys junk (nat (sint length))) (\<lambda>_.
       andThen release (\<lambda>_. set_eax length))) s
     else andThen (get_file (sint fd)) (\<lambda>cur_file s.
       if bad_fd (sint fd) s then set_eax (- 1) s
       else andThen acquire (\<lambda>_.
         andThen (deref cur_file) (\<lambda>f s.
           case file_read (fsys s) f (nat (sint length)) of
             None \<Rightarrow> ends Panic
           | Some (bytes, f') \<Rightarrow>
               andThen (store (unat buffer) bytes) (\<lambda>_.
               andThen (set_file cur_file f') (\<lambda>_.
               andThen (set_eax (of_nat (List.length bytes))) (\<lambda>_. release))) s)) s) s)))"

text \<open>
  Writing reads only the bytes that are written from the user's buffer. Their number does not depend on the
  bytes, so that a byte that is not mapped counts as 0 for it and is a page fault if it is among them.
\<close>

definition user_bytes :: "nat \<Rightarrow> nat \<Rightarrow> proc \<Rightarrow> u8 list" where
  "user_bytes a n s = map (\<lambda>i. case vmem s (a + i) of None \<Rightarrow> 0 | Some b \<Rightarrow> b) [0..<n]"

definition mapped :: "nat \<Rightarrow> nat \<Rightarrow> proc \<Rightarrow> bool" where
  "mapped a n s \<longleftrightarrow> (\<forall>i \<in> set [0..<n]. vmem s (a + i) \<noteq> None)"

definition my_write :: "proc \<Rightarrow> unit outcome" where
  "my_write = andThen (arg 4) (\<lambda>fd. andThen (arg 8) (\<lambda>buffer. andThen (arg 12) (\<lambda>length s.
     if invalid_ptr (unat buffer) s then exit_status (- 1) s
     else if sint fd = 1
     then andThen acquire (\<lambda>_ s.
       if mapped (unat buffer) (unat length) s
       then andThen release (\<lambda>_. set_eax length) (s\<lparr>console := console s @ [Output (user_bytes (unat buffer) (unat length) s)]\<rparr>)
       else ends Panic) s
     else if bad_fd (sint fd) s then andThen (exit_status (- 1) :: proc \<Rightarrow> unit outcome) (\<lambda>_. set_eax (- 1)) s
     else andThen acquire (\<lambda>_.
       andThen (get_file (sint fd)) (\<lambda>cur_file s.
         if exec_file s \<noteq> cur_file
         then andThen (deref cur_file) (\<lambda>f s.
           case file_write (fsys s) f (user_bytes (unat buffer) (nat (sint length)) s) of
             None \<Rightarrow> ends Panic
           | Some (n, f', t) \<Rightarrow>
               if mapped (unat buffer) n s
               then andThen (set_file cur_file f') (\<lambda>_. andThen (set_eax (of_nat n)) (\<lambda>_. release)) (s\<lparr>fsys := t\<rparr>)
               else ends Panic) s
         else release s)) s)))"

definition my_seek :: "proc \<Rightarrow> unit outcome" where
  "my_seek = andThen (arg 4) (\<lambda>fd. andThen (arg 8) (\<lambda>position.
     andThen acquire (\<lambda>_.
     andThen (get_file (sint fd)) (\<lambda>cur_file.
     andThen (deref cur_file) (\<lambda>f s.
       if sint position < 0 then ret () s
       else andThen (set_file cur_file (file_seek f (nat (sint position)))) (\<lambda>_. release) s)))))"

definition my_tell :: "proc \<Rightarrow> unit outcome" where
  "my_tell = andThen (arg 4) (\<lambda>fd s.
     if bad_fd (sint fd) s then set_eax (- 1) s
     else andThen (get_file (sint fd)) (\<lambda>cur_file.
       andThen acquire (\<lambda>_.
       andThen (deref cur_file) (\<lambda>f.
       andThen (set_eax (of_nat (file_tell f))) (\<lambda>_. release)))) s)"

subsection \<open>Directories\<close>

text \<open>\<^verbatim>\<open>my_chdir\<close> takes its argument from the place of the second one; \<^verbatim>\<open>filesys_chdir\<close> does not look at it.\<close>

definition my_chdir :: "proc \<Rightarrow> unit outcome" where
  "my_chdir = andThen (arg 8) (\<lambda>dir_name.
     andThen acquire (\<lambda>_. andThen (set_eax (of_bool (filesys_chdir []))) (\<lambda>_. release)))"

definition my_mkdir :: "u8 list \<Rightarrow> proc \<Rightarrow> unit outcome" where
  "my_mkdir stack = andThen (arg 4) (\<lambda>dir_name s.
     if invalid_ptr (unat dir_name) s then exit_status (- 1) s
     else andThen acquire (\<lambda>_.
       andThen (string_at (unat dir_name)) (\<lambda>name.
       andThen (in_fs (\<lambda>t. filesys_mkdir stack t (Some name))) (\<lambda>r.
       andThen (set_eax (of_bool r)) (\<lambda>_. release)))) s)"

text \<open>
  \<^verbatim>\<open>my_readdir\<close> reads a directory from memory that \<^verbatim>\<open>malloc\<close> returned and nobody initialised: the argument \<open>junk\<close>.
\<close>

definition my_readdir :: "dir \<Rightarrow> proc \<Rightarrow> unit outcome" where
  "my_readdir junk = andThen (arg 4) (\<lambda>fd. andThen (arg 8) (\<lambda>dir_name s.
     if invalid_ptr (unat dir_name) s then exit_status (- 1) s
     else andThen (get_file (sint fd)) (\<lambda>cur_file.
       andThen acquire (\<lambda>_ s.
         if \<not> heap_ok (fsys s) \<or> \<not> dir_inode junk < length (inodes (fsys s)) then ends Panic
         else case dir_readdir (fsys s) junk of
           None \<Rightarrow> ends Panic
         | Some (None, _) \<Rightarrow> andThen (set_eax 0) (\<lambda>_. release) s
         | Some (Some name, _) \<Rightarrow> andThen (store (unat dir_name) (name @ [0])) (\<lambda>_. andThen (set_eax 1) (\<lambda>_. release)) s)) s))"

definition my_isdir :: "proc \<Rightarrow> unit outcome" where
  "my_isdir = andThen (arg 4) (\<lambda>fd. andThen (get_file (sint fd)) (\<lambda>_. set_eax 1))"

definition my_inumber :: "proc \<Rightarrow> unit outcome" where
  "my_inumber = andThen (arg 4) (\<lambda>fd.
     andThen (get_file (sint fd)) (\<lambda>cur_file.
     andThen acquire (\<lambda>_.
     andThen (deref cur_file) (\<lambda>f s.
     andThen (set_eax (of_nat (get_sector_from_file (fsys s) f))) (\<lambda>_. release) s))))"

subsection \<open>The handler\<close>

text \<open>What the calls find in places that nobody initialised, and what the allocators and the new thread do.\<close>

record env =
  start :: "u8 list \<Rightarrow> fs \<Rightarrow> (int option \<times> bool \<times> fs) option"
  page1 :: bool
  page2 :: bool
  entry_stack :: "u8 list"
  file_addr :: nat
  buffer_junk :: nat
  dir_junk :: dir

definition syscall_handler :: "env \<Rightarrow> proc \<Rightarrow> unit outcome" where
  "syscall_handler v s =
     (if invalid_ptr (esp s) s then exit_status (- 1) s
      else andThen (arg 0) (\<lambda>w.
        let syscall_num = sint w
        in if syscall_num = 0 then my_halt
        else if syscall_num = 1 then my_exit
        else if syscall_num = 2 then my_exec (start v) (page1 v) (page2 v)
        else if syscall_num = 3 then my_wait
        else if syscall_num = 4 then my_create (entry_stack v)
        else if syscall_num = 5 then my_remove
        else if syscall_num = 6 then my_open (file_addr v)
        else if syscall_num = 7 then my_filesize
        else if syscall_num = 8 then my_read (buffer_junk v)
        else if syscall_num = 9 then my_write
        else if syscall_num = 10 then my_seek
        else if syscall_num = 11 then my_tell
        else if syscall_num = 12 then andThen (arg 4) (\<lambda>fd. my_close (sint fd))
        else if syscall_num = 15 then my_chdir
        else if syscall_num = 16 then my_mkdir (entry_stack v)
        else if syscall_num = 17 then my_readdir (dir_junk v)
        else if syscall_num = 18 then my_isdir
        else if syscall_num = 19 then my_inumber
        else exit_status (- 1)) s)"

subsection \<open>Leaving a process: lemmas\<close>

lemmas flow = andThen_def ret_def ends_def opt_def

definition has_gap :: "proc \<Rightarrow> bool" where
  "has_gap s \<longleftrightarrow> (\<exists>n. 2 \<le> n \<and> n < 129 \<and> open_files s ! n \<noteq> 0 \<and> open_files s ! (n - 2) = 0)"

lemma exit_line_simps [simp]:
  "open_files (exit_line e s) = open_files s" "filesys_lock (exit_line e s) = filesys_lock s"
  "fsys (exit_line e s) = fsys s" "files (exit_line e s) = files s" "exec_file (exit_line e s) = exec_file s"
  by (simp_all add: exit_line_def)

lemma close_file_fields:
  assumes "close_file p s = Some t"
  shows "open_files t = open_files s" "filesys_lock t = filesys_lock s"
  using assms by (auto simp: close_file_def bind_eq_Some_conv split: if_splits)

lemma close_fd_open_files:
  assumes "close_fd fd s = Some t"
  shows "open_files t = (open_files s)[nat (fd - 2) := 0]" and "\<not> filesys_lock s"
  using assms close_file_fields by (auto simp: close_fd_def Let_def panic_simps split: if_splits)

lemma exit_loop_gap:
  assumes "exit_loop e n s = Some r" and "2 \<le> n" and "\<exists>k\<ge>n. k < 129 \<and> open_files s ! k \<noteq> 0 \<and> open_files s ! (k - 2) = 0"
  shows "r = Panic"
proof -
  let ?P = "\<lambda>e n s r. 2 \<le> n \<longrightarrow> (\<exists>k\<ge>n. k < 129 \<and> open_files s ! k \<noteq> 0 \<and> open_files s ! (k - 2) = 0) \<longrightarrow> r = Panic"
  have "?P e n s r"
  proof (rule exit_loop.raw_induct [OF _ assms(1), of ?P], intro impI)
    fix loop e n s r
    assume IH: "\<And>e n s r. loop e n s = Some r \<Longrightarrow> ?P e n s r"
      and body: "(if n < 129
        then if open_files s ! n \<noteq> 0
          then if bad_fd (int n) s then loop (- 1) 2 (exit_line (- 1) s)
            else (case close_fd (int n) s of None \<Rightarrow> Some Panic | Some t \<Rightarrow> loop e (Suc n) t)
          else loop e (Suc n) s
        else Some (process_exit (s\<lparr>my_info := (my_info s)\<lparr>cstatus := e\<rparr>\<rparr>))) = Some r"
      and n2: "2 \<le> n" and gap: "\<exists>k\<ge>n. k < 129 \<and> open_files s ! k \<noteq> 0 \<and> open_files s ! (k - 2) = 0"
    from gap obtain k where k: "n \<le> k" "k < 129" "open_files s ! k \<noteq> 0" "open_files s ! (k - 2) = 0" by blast
    then have n: "n < 129" "2 \<le> k" using n2 by auto
    show "r = Panic"
    proof (cases "open_files s ! n = 0")
      case True
      with k(1,3) have "Suc n \<le> k" by (cases "n = k") auto
      then show ?thesis using IH [of e "Suc n" s r] body True n k n2 by auto
    next
      case False
      show ?thesis
      proof (cases "bad_fd (int n) s")
        case True
        then show ?thesis using IH [of "- 1" 2 "exit_line (- 1) s" r] body False n k by auto
      next
        case ok: False
        then have nk: "n \<noteq> k" using k n2 by (auto simp: bad_fd_def nat_diff_distrib)
        show ?thesis
        proof (cases "close_fd (int n) s")
          case None
          then show ?thesis using body False ok n by simp
        next
          case (Some t)
          then have "open_files t = (open_files s)[n - 2 := 0]" using close_fd_open_files(1) [OF Some] n2 by (simp add: nat_diff_distrib)
          moreover have "n - 2 \<noteq> k" "n - 2 \<noteq> k - 2" and sk: "Suc n \<le> k" using nk k n2 by auto
          ultimately have "\<exists>k\<ge>Suc n. k < 129 \<and> open_files t ! k \<noteq> 0 \<and> open_files t ! (k - 2) = 0" using k by (intro exI [of _ k]) simp
          then show ?thesis using IH [of e "Suc n" t r] body False ok Some n n2 by auto
        qed
      qed
    qed
  qed
  then show ?thesis using assms(2,3) by blast
qed

text \<open>Without a gap the loop closes one file for every entry from the third on, namely the file two places before it.\<close>

definition closed_by_exit :: "nat \<Rightarrow> nat list \<Rightarrow> nat list" where
  "closed_by_exit n os = map (\<lambda>i. os ! (i - 2)) (filter (\<lambda>i. os ! i \<noteq> 0) [n..<129])"

lemma closed_by_exit_step:
  assumes "n < 129"
  shows "closed_by_exit n os = (if os ! n \<noteq> 0 then [os ! (n - 2)] else []) @ closed_by_exit (Suc n) os"
  using assms by (simp add: closed_by_exit_def upt_conv_Cons)

lemma closed_by_exit_update:
  assumes "2 \<le> n" and "n - 2 < length os"
  shows "closed_by_exit (Suc n) (os[n - 2 := 0]) = closed_by_exit (Suc n) os"
  unfolding closed_by_exit_def using assms by (intro map_cong filter_cong) (auto simp: nth_list_update)

definition cleared_by_exit :: "nat \<Rightarrow> nat list \<Rightarrow> nat list" where
  "cleared_by_exit n os = fold (\<lambda>i os. if os ! i \<noteq> 0 then os[i - 2 := 0] else os) [n..<129] os"

lemma cleared_by_exit_step:
  assumes "n < 129"
  shows "cleared_by_exit n os = cleared_by_exit (Suc n) (if os ! n \<noteq> 0 then os[n - 2 := 0] else os)"
  using assms by (simp add: cleared_by_exit_def upt_conv_Cons)

lemma close_file_table:
  "close_file p (s\<lparr>open_files := os\<rparr>) = map_option (\<lambda>t. t\<lparr>open_files := os\<rparr>) (close_file p s)"
  by (auto simp: close_file_def map_option_bind comp_def intro!: bind_option_cong)

lemma close_files_table:
  "foldM close_file ps (s\<lparr>open_files := os\<rparr>) = map_option (\<lambda>t. t\<lparr>open_files := os\<rparr>) (foldM close_file ps s)"
proof (induction ps arbitrary: s)
  case (Cons p ps)
  show ?case by (cases "close_file p s") (simp_all add: close_file_table Cons)
qed simp

lemma exit_loop_closes:
  assumes "2 \<le> n" and "n \<le> 129" and "\<not> filesys_lock s" and "129 \<le> length (open_files s)"
    and "\<And>k. n \<le> k \<Longrightarrow> k < 129 \<Longrightarrow> open_files s ! k \<noteq> 0 \<Longrightarrow> open_files s ! (k - 2) \<noteq> 0"
  shows "exit_loop e n s = Some (case foldM close_file (closed_by_exit n (open_files s)) s of
      None \<Rightarrow> Panic
    | Some t \<Rightarrow> process_exit (t\<lparr>open_files := cleared_by_exit n (open_files s), my_info := (my_info t)\<lparr>cstatus := e\<rparr>\<rparr>))"
  using assms
proof (induction "129 - n" arbitrary: n s)
  case 0
  then have "n = 129" by simp
  then show ?case by (subst exit_loop.simps) (simp add: closed_by_exit_def cleared_by_exit_def)
next
  case (Suc d)
  then have n: "n < 129" "2 \<le> n" by simp_all
  let ?os = "open_files s"
  show ?case
  proof (cases "?os ! n = 0")
    case True
    then show ?thesis using n Suc.hyps(1) [of "Suc n" s] Suc.hyps(2) Suc.prems
      by (subst exit_loop.simps) (simp add: closed_by_exit_step cleared_by_exit_step split: option.split)
  next
    case False
    then have o: "?os ! (n - 2) \<noteq> 0" using Suc.prems(5) [of n] n by simp
    then have ok: "\<not> bad_fd (int n) s" using n by (auto simp: bad_fd_def nat_diff_distrib)
    define t0 where "t0 = s\<lparr>open_files := ?os[n - 2 := 0]\<rparr>"
    have c: "close_fd (int n) s = map_option (\<lambda>t. t\<lparr>open_files := ?os[n - 2 := 0]\<rparr>) (close_file (?os ! (n - 2)) s)"
      using Suc.prems(3) n by (simp add: close_fd_def nat_diff_distrib close_file_table)
    show ?thesis
    proof (cases "close_file (?os ! (n - 2)) s")
      case None
      then show ?thesis using n False ok c by (subst exit_loop.simps) (simp add: closed_by_exit_step)
    next
      case (Some t)
      let ?t = "t\<lparr>open_files := ?os[n - 2 := 0]\<rparr>"
      have "exit_loop e (Suc n) ?t = Some (case foldM close_file (closed_by_exit (Suc n) (open_files ?t)) ?t of
          None \<Rightarrow> Panic
        | Some u \<Rightarrow> process_exit (u\<lparr>open_files := cleared_by_exit (Suc n) (open_files ?t), my_info := (my_info u)\<lparr>cstatus := e\<rparr>\<rparr>))"
        using Suc.prems Suc.hyps(2) n close_file_fields(2) [OF Some] by (intro Suc.hyps(1)) (auto simp: nth_list_update)
      moreover have "closed_by_exit (Suc n) (?os[n - 2 := 0]) = closed_by_exit (Suc n) ?os" using n Suc.prems(4) by (intro closed_by_exit_update) simp_all
      ultimately show ?thesis using n False ok c Some
        by (subst exit_loop.simps) (simp add: closed_by_exit_step cleared_by_exit_step close_files_table map_option_case split: option.split)
    qed
  qed
qed

subsection \<open>Properties\<close>

lemma filter_less_upt:
  assumes "k \<le> n"
  shows "filter (\<lambda>i. i < k) [m..<n] = [m..<k]"
proof (cases "m \<le> k")
  case True
  then have "[m..<n] = [m..<k] @ [k..<n]" using assms upt_add_eq_append [of m k "n - k"] by simp
  then show ?thesis by simp
qed simp

lemma closed_by_exit_prefix:
  assumes "os = ps @ replicate m 0" and "0 \<notin> set ps" and "length ps \<le> 128" and "129 \<le> length os"
  shows "closed_by_exit 2 os = take (length ps - 2) ps"
proof -
  have nz: "os ! i \<noteq> 0 \<longleftrightarrow> i < length ps" if "i < 129" for i
  proof (cases "i < length ps")
    case True
    then have "os ! i \<in> set ps" by (simp add: assms(1) nth_append)
    then show ?thesis using True assms(2) by metis
  qed (use that assms in \<open>simp add: nth_append\<close>)
  have "filter (\<lambda>i. os ! i \<noteq> 0) [2..<129] = filter (\<lambda>i. i < length ps) [2..<129]" using nz by (intro filter_cong) auto
  also have "\<dots> = [2..<length ps]" using assms(3) by (intro filter_less_upt) simp
  finally show ?thesis
    unfolding closed_by_exit_def by (intro nth_equalityI) (auto simp: assms(1) nth_append)
qed

text \<open>
  C14. What \<^verbatim>\<open>exit_status\<close> closes: for a process that has opened files and closed none, it closes the first of them in
  order and leaves the last two open; with one or two open files it closes none at all. The loop looks at
  the entry of \<^verbatim>\<open>open_files\<close> with the number of the descriptor, and \<^verbatim>\<open>my_close\<close> closes the entry two places before it.
\<close>

theorem exit_leaves_two_open:
  assumes "open_files s = ps @ replicate m 0" and "0 \<notin> set ps" and "length ps \<le> 128" and "129 \<le> length (open_files s)" and "\<not> filesys_lock s"
  shows "\<exists>os. exit_status e s = ends (case foldM close_file (take (length ps - 2) ps) (exit_line e s) of
      None \<Rightarrow> Panic
    | Some t \<Rightarrow> process_exit (t\<lparr>open_files := os, my_info := (my_info t)\<lparr>cstatus := e\<rparr>\<rparr>))"
proof -
  have "open_files s ! (k - 2) \<noteq> 0" if "2 \<le> k" "k < 129" "open_files s ! k \<noteq> 0" for k
  proof -
    have "k < length ps" using that assms(1,4) by (cases "k < length ps") (auto simp: nth_append)
    then have k: "ps ! (k - 2) \<in> set ps" "k - 2 < length ps" by auto
    then have "ps ! (k - 2) \<noteq> 0" using assms(2) by metis
    then show ?thesis using assms(1) k(2) by (simp add: nth_append)
  qed
  with exit_loop_closes [of 2 "exit_line e s" e] assms(4,5) closed_by_exit_prefix [OF assms(1-4)]
  show ?thesis by (auto simp: exit_status_def)
qed

definition demo_proc :: proc where
  "demo_proc = \<lparr>fsys = demo_fs, files = [400 \<mapsto> demo_file], open_files = [400] @ replicate 199 0, exec_file = 0, filesys_lock = False,
     console = [], vmem = (\<lambda>a. if 4096 \<le> a \<and> a < 8192 then Some (of_nat a) else None), writable = (\<lambda>_. True), keys = [], esp = 8000, eax = 0,
     children_list = [], my_info = \<lparr>ctid = 3, cstatus = - 1, sema_dead = 0\<rparr>\<rparr>"

theorem exit_leaves_two_open_witness:
  "\<exists>t. exit_status 0 demo_proc = (ends (Exited t) :: unit outcome) \<and> files t 400 = Some demo_file \<and> fsys t = demo_fs"
proof -
  have "open_files demo_proc = [400] @ replicate 199 0" "\<not> filesys_lock demo_proc" by (simp_all add: demo_proc_def)
  from exit_leaves_two_open [OF this(1) _ _ _ this(2), of 0] show ?thesis
    by (auto simp: demo_proc_def process_exit_def close_file_def exit_line_def)
qed

text \<open>
  C31. A process that has an open file whose descriptor is two above a descriptor that is not open never exits: \<^verbatim>\<open>my_close\<close>
  in the loop of \<^verbatim>\<open>exit_status\<close> calls \<^verbatim>\<open>exit_status\<close> again, which comes to the same place, without end. A process
  that opens three files, closes the first one and exits is an example.
\<close>

theorem exit_with_gap_never_exits:
  assumes "2 \<le> n" and "n < 129" and "open_files s ! n \<noteq> 0" and "open_files s ! (n - 2) = 0"
  shows "exit_status e s = None \<or> exit_status e s = ends Panic"
proof (cases "exit_loop e 2 (exit_line e s)")
  case (Some r)
  then have "r = Panic" using assms by (rule_tac exit_loop_gap [OF Some]) auto
  then show ?thesis using Some by (simp add: exit_status_def)
qed (simp add: exit_status_def)

theorem exit_with_gap_never_exits_witness:
  "exit_status 0 (demo_proc\<lparr>open_files := [0, 400, 404] @ replicate 197 0\<rparr>) = (None :: unit outcome)
     \<or> exit_status 0 (demo_proc\<lparr>open_files := [0, 400, 404] @ replicate 197 0\<rparr>) = (ends Panic :: unit outcome)"
  by (rule exit_with_gap_never_exits [of 2]) simp_all

subsection \<open>Calls from user programs\<close>

text \<open>
  The macros of \<^verbatim>\<open>lib/user/syscall.c\<close> push the arguments and the number, make the interrupt and take \<^verbatim>\<open>eax\<close> as
  the result. A page fault of the user program itself ends the process.
\<close>

definition room :: "nat \<Rightarrow> nat \<Rightarrow> proc \<Rightarrow> bool" where
  "room a n s \<longleftrightarrow> (\<forall>i \<in> set [0..<n]. a + i < 3221225472 \<and> vmem s (a + i) \<noteq> None \<and> writable s (a + i))"

definition user_syscall :: "env \<Rightarrow> u32 list \<Rightarrow> proc \<Rightarrow> u32 outcome" where
  "user_syscall v ws s =
     (let a = esp s - 4 * length ws
      in if room a (4 * length ws) s
         then andThen (store a (u32s_bytes ws)) (\<lambda>_ t.
           andThen (syscall_handler v) (\<lambda>_ u. ret (eax u) (u\<lparr>esp := esp s\<rparr>)) (t\<lparr>esp := a\<rparr>)) s
         else exit_status (- 1) s)"

lemma u32s_bytes_nth: "i < length ws \<Longrightarrow> j < 4 \<Longrightarrow> u32s_bytes ws ! (4 * i + j) = u32_bytes (ws ! i) ! j"
proof (induction ws arbitrary: i)
  case (Cons w ws)
  then show ?case by (cases i) (auto simp: nth_append)
qed simp

definition pushed :: "u32 list \<Rightarrow> proc \<Rightarrow> proc" where
  "pushed ws s = s\<lparr>vmem := (\<lambda>x. if esp s - 4 * length ws \<le> x \<and> x < esp s - 4 * length ws + 4 * length ws then Some (u32s_bytes ws ! (x - (esp s - 4 * length ws))) else vmem s x),
     esp := esp s - 4 * length ws\<rparr>"

lemma arg_pushed:
  assumes "i < length ws"
  shows "arg (4 * i) (pushed ws s) = ret (ws ! i) (pushed ws s)"
proof -
  have "u32s_bytes ws ! (4 * i + j) = u32_bytes (ws ! i) ! j" if "j < 4" for j using u32s_bytes_nth [OF assms that] .
  from this [of 0] this [of 1] this [of 2] this [of 3]
  have "load32 (vmem (pushed ws s)) (esp (pushed ws s) + 4 * i) = Some (ws ! i)"
    using assms by (simp add: load32_def pushed_def u32_bytes_def bytes_u32_u32_bytes)
  then show ?thesis by (simp add: arg_def opt_def)
qed

lemmas args_pushed = arg_pushed [of 0, simplified] arg_pushed [of 1, simplified] arg_pushed [of 2, simplified] arg_pushed [of 3, simplified]

lemma user_syscall_pushed:
  assumes "room (esp s - 4 * length ws) (4 * length ws) s"
  shows "user_syscall v ws s = andThen (syscall_handler v) (\<lambda>_ u. ret (eax u) (u\<lparr>esp := esp s\<rparr>)) (pushed ws s)"
  using assms by (simp add: user_syscall_def room_def store_def Let_def andThen_def [of "store _ _"] ret_def pushed_def)

lemma handler_dispatch:
  assumes "\<not> invalid_ptr (esp s) s" and "arg 0 s = ret w s"
  shows "w = 7 \<Longrightarrow> syscall_handler v s = my_filesize s" "w = 8 \<Longrightarrow> syscall_handler v s = my_read (buffer_junk v) s"
    "w = 9 \<Longrightarrow> syscall_handler v s = my_write s" "w = 10 \<Longrightarrow> syscall_handler v s = my_seek s"
  using assms by (simp_all add: syscall_handler_def andThen_def ret_def)

lemma write_call:
  assumes "arg 4 s = ret fd s" "arg 8 s = ret buf s" "arg 12 s = ret n s" and "\<not> invalid_ptr (unat buf) s" "sint fd \<noteq> 1" "\<not> bad_fd (sint fd) s"
    and "\<not> filesys_lock s" and "p = open_files s ! nat (sint fd - 2)" "files s p = Some f" "exec_file s \<noteq> p"
    and "file_write (fsys s) f (user_bytes (unat buf) (nat (sint n)) s) = Some (k, f', t)" "mapped (unat buf) k s"
  shows "my_write s = ret () (s\<lparr>fsys := t, files := (files s)(p \<mapsto> f'), eax := of_nat k\<rparr>)"
  using assms by (simp add: my_write_def flow acquire_def release_def get_file_def bad_fd_def deref_def set_file_def set_eax_def user_bytes_def mapped_def)

lemma seek_call:
  assumes "arg 4 s = ret fd s" "arg 8 s = ret ps s" and "\<not> bad_fd (sint fd) s" and "\<not> filesys_lock s"
    and "p = open_files s ! nat (sint fd - 2)" "files s p = Some f"
  shows "my_seek s = ret () (if sint ps < 0 then s\<lparr>filesys_lock := True\<rparr> else s\<lparr>files := (files s)(p \<mapsto> file_seek f (nat (sint ps)))\<rparr>)"
  using assms by (simp add: my_seek_def flow acquire_def release_def get_file_def bad_fd_def deref_def set_file_def)

lemma read_call:
  assumes "arg 4 s = ret fd s" "arg 8 s = ret buf s" "arg 12 s = ret n s" and "\<not> invalid_ptr (unat buf) s" "sint fd \<noteq> 0" "\<not> bad_fd (sint fd) s"
    and "\<not> filesys_lock s" and "p = open_files s ! nat (sint fd - 2)" "files s p = Some f"
    and "file_read (fsys s) f (nat (sint n)) = Some (bs, f')" "room (unat buf) (length bs) s"
  shows "\<exists>t. my_read junk s = ret () t \<and> eax t = of_nat (length bs) \<and> user_bytes (unat buf) (length bs) t = bs \<and> \<not> filesys_lock t"
  using assms by (simp add: my_read_def flow acquire_def release_def get_file_def bad_fd_def deref_def set_file_def set_eax_def store_def room_def)
    (auto simp: user_bytes_def intro: nth_equalityI)

lemma pushed_fields [simp]:
  "fsys (pushed ws s) = fsys s" "files (pushed ws s) = files s" "open_files (pushed ws s) = open_files s" "exec_file (pushed ws s) = exec_file s"
  "filesys_lock (pushed ws s) = filesys_lock s" "bad_fd fd (pushed ws s) = bad_fd fd s" "writable (pushed ws s) = writable s"
  by (simp_all add: pushed_def bad_fd_def)

text \<open>Memory away from the stack, and the stack itself, after a push.\<close>

lemma pushed_mem:
  assumes "4 * length ws \<le> esp s"
  shows "x < esp s - 4 * length ws \<or> esp s \<le> x \<Longrightarrow> vmem (pushed ws s) x = vmem s x"
    and "vmem s x \<noteq> None \<Longrightarrow> vmem (pushed ws s) x \<noteq> None"
  using assms by (auto simp: pushed_def)

lemma pushed_esp_valid:
  assumes "room (esp s - 4 * length ws) (4 * length ws) s" and "ws \<noteq> []" and "4 * length ws < esp s"
  shows "\<not> invalid_ptr (esp (pushed ws s)) (pushed ws s)"
proof -
  have "0 \<in> set [0..<4 * length ws]" using assms(2) by simp
  with assms(1) have "esp s - 4 * length ws < 3221225472" unfolding room_def by (metis add_0_right)
  then show ?thesis using assms(2,3) by (simp add: invalid_ptr_def pushed_def)
qed

lemma ret_inject [simp]: "ret x s = ret y t \<longleftrightarrow> x = y \<and> s = t"
  by (simp add: ret_def)

lemma room_part: "room a n s \<Longrightarrow> a \<le> b \<Longrightarrow> b + m \<le> a + n \<Longrightarrow> room b m s"
proof -
  assume r: "room a n s" and ab: "a \<le> b" "b + m \<le> a + n"
  have "b + i < 3221225472 \<and> vmem s (b + i) \<noteq> None \<and> writable s (b + i)" if "i < m" for i
  proof -
    have "b - a + i \<in> set [0..<n]" "a + (b - a + i) = b + i" using that ab by auto
    then show ?thesis using r unfolding room_def by metis
  qed
  then show "room b m s" by (simp add: room_def)
qed

lemma room_cong: "(\<And>x. vmem s x \<noteq> None \<Longrightarrow> vmem t x \<noteq> None) \<Longrightarrow> writable t = writable s \<Longrightarrow> room a n s \<Longrightarrow> room a n t"
  unfolding room_def by metis

lemma user_bytes_cong: "(\<And>i. i < n \<Longrightarrow> vmem t (a + i) = vmem s (a + i)) \<Longrightarrow> user_bytes a n t = user_bytes a n s"
  by (simp add: user_bytes_def)

lemma word_of_nat_sint: "0 \<le> sint (n :: u32) \<Longrightarrow> (of_nat (nat (sint n)) :: u32) = n"
  by (simp add: of_nat_nat)

lemma room_valid:
  assumes "room (unat b) n s" "0 < n" "b \<noteq> 0"
  shows "\<not> invalid_ptr (unat (b :: u32)) s"
proof -
  have "0 \<in> set [0..<n]" using assms(2) by simp
  with assms(1) have "unat b + 0 < 3221225472 \<and> vmem s (unat b + 0) \<noteq> None" unfolding room_def by blast
  then show ?thesis using assms(3) by (simp add: invalid_ptr_def unat_eq_0)
qed

text \<open>What a call leaves as it is, and the three calls as the program makes them.\<close>

definition kept :: "proc \<Rightarrow> proc \<Rightarrow> bool" where
  "kept s t \<longleftrightarrow> esp t = esp s \<and> open_files t = open_files s \<and> exec_file t = exec_file s \<and> filesys_lock t = filesys_lock s \<and> writable t = writable s
     \<and> (\<forall>x. vmem s x \<noteq> None \<longrightarrow> vmem t x \<noteq> None)"

lemma kept_room: "kept s t \<Longrightarrow> room a n s \<Longrightarrow> room a n t"
  by (rule room_cong) (auto simp: kept_def)

lemma kept_bad_fd: "kept s t \<Longrightarrow> bad_fd fd t = bad_fd fd s"
  by (simp add: kept_def bad_fd_def)

lemma pushed_room: "4 * length ws \<le> esp s \<Longrightarrow> room a n s \<Longrightarrow> room a n (pushed ws s)"
  by (rule room_cong [of s]) (simp_all add: pushed_mem)

lemma call_returns:
  assumes st: "room (esp s - 16) 16 s" "16 < esp s" and ws: "ws \<noteq> []" "length ws \<le> 4"
    and h: "syscall_handler v (pushed ws s) = ret () u"
  shows "user_syscall v ws s = ret (eax u) (u\<lparr>esp := esp s\<rparr>)" 
proof -
  have "room (esp s - 4 * length ws) (4 * length ws) s" using st(2) ws(2) by (intro room_part [OF st(1)]) auto
  then show ?thesis using h by (simp add: user_syscall_pushed flow)
qed

lemma pushed_valid:
  assumes st: "room (esp s - 16) 16 s" "16 < esp s" and ws: "ws \<noteq> []" "length ws \<le> 4"
  shows "\<not> invalid_ptr (esp (pushed ws s)) (pushed ws s)"
proof (rule pushed_esp_valid)
  show "room (esp s - 4 * length ws) (4 * length ws) s" using st(2) ws(2) by (intro room_part [OF st(1)]) auto
qed (use st ws in auto)

lemma user_write:
  fixes fd buf n :: u32
  assumes st: "room (esp s - 16) 16 s" "16 < esp s" "\<not> filesys_lock s"
    and fd: "2 \<le> sint fd" "\<not> bad_fd (sint fd) s" "p = open_files s ! nat (sint fd - 2)" "files s p = Some f" "exec_file s \<noteq> p"
    and b: "0 < sint n" "buf \<noteq> 0" "room (unat buf) (nat (sint n)) s" "unat buf + nat (sint n) \<le> esp s - 16 \<or> esp s \<le> unat buf"
    and w: "file_write (fsys s) f (user_bytes (unat buf) (nat (sint n)) s) = Some (nat (sint n), f', t)"
  shows "\<exists>s'. user_syscall v [9, fd, buf, n] s = ret n s' \<and> fsys s' = t \<and> files s' = (files s)(p \<mapsto> f') \<and> kept s s'"
proof -
  define q where "q = pushed [9, fd, buf, n] s"
  have n: "0 < nat (sint n)" "(of_nat (nat (sint n)) :: u32) = n" using b(1) word_of_nat_sint [of n] by simp_all
  have rq: "room (unat buf) (nat (sint n)) q" using st(2) b(3) by (simp add: q_def pushed_room)
  then have m: "mapped (unat buf) (nat (sint n)) q" by (simp add: mapped_def room_def)
  have ub: "user_bytes (unat buf) (nat (sint n)) q = user_bytes (unat buf) (nat (sint n)) s"
    using b(4) st(2) pushed_mem(1) [of "[9, fd, buf, n]" s] by (intro user_bytes_cong) (auto simp: q_def)
  have "my_write q = ret () (q\<lparr>fsys := t, files := (files q)(p \<mapsto> f'), eax := of_nat (nat (sint n))\<rparr>)"
    using w ub m fd st(3) room_valid [OF rq n(1) b(2)] args_pushed [of "[9, fd, buf, n]" s]
    by (intro write_call [of q fd buf n p f]) (simp_all add: q_def)
  moreover have "syscall_handler v q = my_write q"
    using pushed_valid [OF st(1,2), of "[9, fd, buf, n]"] args_pushed [of "[9, fd, buf, n]" s] by (intro handler_dispatch(3) [of _ 9]) (simp_all add: q_def)
  ultimately show ?thesis
    using call_returns [OF st(1,2), of "[9, fd, buf, n]"] n(2) st(2) pushed_mem(2) [of "[9, fd, buf, n]" s]
    by (auto simp: q_def kept_def)
qed

lemma user_seek:
  fixes fd ps :: u32
  assumes st: "room (esp s - 16) 16 s" "16 < esp s" "\<not> filesys_lock s"
    and fd: "\<not> bad_fd (sint fd) s" "p = open_files s ! nat (sint fd - 2)" "files s p = Some f" and ps: "sint ps = int k"
  shows "\<exists>r s'. user_syscall v [10, fd, ps] s = ret r s' \<and> fsys s' = fsys s \<and> files s' = (files s)(p \<mapsto> file_seek f k) \<and> kept s s'"
proof -
  define q where "q = pushed [10, fd, ps] s"
  have "my_seek q = ret () (q\<lparr>files := (files q)(p \<mapsto> file_seek f k)\<rparr>)"
    using fd st(3) ps args_pushed [of "[10, fd, ps]" s] by (subst seek_call [of q fd ps p f]) (simp_all add: q_def)
  moreover have "syscall_handler v q = my_seek q"
    using pushed_valid [OF st(1,2), of "[10, fd, ps]"] args_pushed [of "[10, fd, ps]" s] by (intro handler_dispatch(4) [of _ 10]) (simp_all add: q_def)
  ultimately show ?thesis
    using call_returns [OF st(1,2), of "[10, fd, ps]"] st(2) pushed_mem(2) [of "[10, fd, ps]" s]
    by (auto simp: q_def kept_def)
qed

lemma user_read:
  fixes fd buf n :: u32
  assumes st: "room (esp s - 16) 16 s" "16 < esp s" "\<not> filesys_lock s"
    and fd: "2 \<le> sint fd" "\<not> bad_fd (sint fd) s" "p = open_files s ! nat (sint fd - 2)" "files s p = Some f"
    and b: "0 < sint n" "buf \<noteq> 0" "room (unat buf) (nat (sint n)) s" and r: "file_read (fsys s) f (nat (sint n)) = Some (bs, f')" "length bs = nat (sint n)"
  shows "\<exists>s'. user_syscall v [8, fd, buf, n] s = ret n s' \<and> user_bytes (unat buf) (nat (sint n)) s' = bs"
proof -
  define q where "q = pushed [8, fd, buf, n] s"
  have n: "0 < nat (sint n)" "(of_nat (nat (sint n)) :: u32) = n" using b(1) word_of_nat_sint [of n] by simp_all
  have rq: "room (unat buf) (nat (sint n)) q" using st(2) b(3) by (simp add: q_def pushed_room)
  have "\<exists>u. my_read (buffer_junk v) q = ret () u \<and> eax u = of_nat (length bs) \<and> user_bytes (unat buf) (length bs) u = bs \<and> \<not> filesys_lock u"
    using fd st(3) r rq room_valid [OF rq n(1) b(2)] args_pushed [of "[8, fd, buf, n]" s]
    by (intro read_call [of q fd buf n p f bs f']) (simp_all add: q_def)
  then obtain u where u: "my_read (buffer_junk v) q = ret () u" "eax u = n" "user_bytes (unat buf) (nat (sint n)) u = bs" using r(2) n(2) by auto
  moreover have "syscall_handler v q = my_read (buffer_junk v) q"
    using pushed_valid [OF st(1,2), of "[8, fd, buf, n]"] args_pushed [of "[8, fd, buf, n]" s] by (intro handler_dispatch(2) [of _ 8]) (simp_all add: q_def)
  moreover have "user_bytes (unat buf) (nat (sint n)) (u\<lparr>esp := e\<rparr>) = user_bytes (unat buf) (nat (sint n)) u" for e by (simp add: user_bytes_def)
  ultimately show ?thesis using call_returns [OF st(1,2), of "[8, fd, buf, n]"] by (auto simp: q_def)
qed

text \<open>
  C12. Files through system calls: a program that writes bytes from a buffer to an open file, seeks back to the position
  where it wrote and reads as many bytes into another buffer has the same bytes in both buffers. All three
  calls return, and \<^verbatim>\<open>write\<close> and \<^verbatim>\<open>read\<close> return the number of bytes. The buffers are away from the part of the stack
  that the arguments take.
\<close>

theorem write_seek_read_calls:
  fixes fd buf buf2 n ps :: u32
  assumes st: "room (esp s - 16) 16 s" "16 < esp s" "\<not> filesys_lock s"
    and fd: "2 \<le> sint fd" "\<not> bad_fd (sint fd) s" "p = open_files s ! nat (sint fd - 2)" "files s p = Some f" "exec_file s \<noteq> p"
    and f: "writable_file (fsys s) f" "0 < sint n" "file_tell f + nat (sint n) \<le> length (file_contents (fsys s) f)" "sint ps = int (file_tell f)"
    and b1: "buf \<noteq> 0" "room (unat buf) (nat (sint n)) s" "unat buf + nat (sint n) \<le> esp s - 16 \<or> esp s \<le> unat buf"
    and b2: "buf2 \<noteq> 0" "room (unat buf2) (nat (sint n)) s"
  shows "\<exists>s1 r s2 s3. user_syscall v [9, fd, buf, n] s = ret n s1 \<and> user_syscall v [10, fd, ps] s1 = ret r s2
    \<and> user_syscall v [8, fd, buf2, n] s2 = ret n s3 \<and> user_bytes (unat buf2) (nat (sint n)) s3 = user_bytes (unat buf) (nat (sint n)) s"
proof -
  let ?bs = "user_bytes (unat buf) (nat (sint n)) s"
  have lb: "length ?bs = nat (sint n)" by (simp add: user_bytes_def)
  then have "?bs \<noteq> []" using f(2) by auto
  with files.write_seek_read [OF f(1)] f(3) lb obtain f' t f'' where
    w: "file_write (fsys s) f ?bs = Some (nat (sint n), f', t)" and r: "file_read t (file_seek f' (file_tell f)) (nat (sint n)) = Some (?bs, f'')" by metis
  from user_write [OF st fd f(2) b1 w] obtain s1 where
    s1: "user_syscall v [9, fd, buf, n] s = ret n s1" "fsys s1 = t" "files s1 p = Some f'" "kept s s1" by fastforce
  then have st1: "room (esp s1 - 16) 16 s1" "16 < esp s1" "\<not> filesys_lock s1" "p = open_files s1 ! nat (sint fd - 2)"
    using st fd(3) kept_room [OF s1(4), of "esp s - 16" 16] by (simp_all add: kept_def)
  from user_seek [OF st1(1-3) _ st1(4) s1(3) f(4), where v = v] fd(2) kept_bad_fd [OF s1(4)] obtain x s2 where
    s2: "user_syscall v [10, fd, ps] s1 = ret x s2" "fsys s2 = t" "files s2 p = Some (file_seek f' (file_tell f))" "kept s1 s2" using s1(2) by fastforce
  then have st2: "room (esp s2 - 16) 16 s2" "16 < esp s2" "\<not> filesys_lock s2" "p = open_files s2 ! nat (sint fd - 2)" "\<not> bad_fd (sint fd) s2"
    using st1 kept_room [OF s2(4), of "esp s1 - 16" 16] fd(2) kept_bad_fd [OF s1(4)] kept_bad_fd [OF s2(4)] by (simp_all add: kept_def)
  have "room (unat buf2) (nat (sint n)) s2" using b2(2) kept_room s1(4) s2(4) by blast
  with user_read [OF st2(1-3) fd(1) st2(5,4) s2(3) f(2) b2(1), where v = v] r lb s2(2) obtain s3 where
    "user_syscall v [8, fd, buf2, n] s2 = ret n s3" "user_bytes (unat buf2) (nat (sint n)) s3 = ?bs" by fastforce
  with s1(1) s2(1) show ?thesis by blast
qed

definition demo_env :: env where
  "demo_env = \<lparr>start = (\<lambda>name t. Some (None, False, t)), page1 = True, page2 = True, entry_stack = replicate 20 0, file_addr = 500,
     buffer_junk = 0, dir_junk = \<lparr>dir_inode = 0, dir_pos = 0\<rparr>\<rparr>"

lemma demo_proc_room: "4096 \<le> a \<Longrightarrow> a + n \<le> 8192 \<Longrightarrow> room a n demo_proc"
  by (auto simp: room_def demo_proc_def)

lemma demo_proc_fields:
  "esp demo_proc = 8000" "\<not> filesys_lock demo_proc" "\<not> bad_fd 2 demo_proc" "open_files demo_proc ! 0 = 400" "files demo_proc 400 = Some demo_file"
  "exec_file demo_proc = 0" "fsys demo_proc = demo_fs"
  by (simp_all add: demo_proc_def bad_fd_def)

theorem write_seek_read_calls_witness:
  "\<exists>s1 r s2 s3. user_syscall demo_env [9, 2, 5000, 20] demo_proc = ret 20 s1 \<and> user_syscall demo_env [10, 2, 510] s1 = ret r s2
    \<and> user_syscall demo_env [8, 2, 6000, 20] s2 = ret 20 s3 \<and> user_bytes 6000 20 s3 = user_bytes 5000 20 demo_proc"
proof -
  have "file_tell demo_file = 510" by (simp add: demo_file_def file_tell_def)
  then show ?thesis
    using write_seek_read_calls [of demo_proc 2 400 demo_file 20 510 5000 6000 demo_env] demo_proc_room [of 7984 16] demo_proc_room [of 5000 20] demo_proc_room [of 6000 20]
      demo_proc_fields demo_file_writable by simp
qed

text \<open>
  \<^verbatim>\<open>my_seek\<close> with a negative position returns without releasing \<^verbatim>\<open>filesys_lock\<close>: the next call of the process that
  takes the lock, here \<^verbatim>\<open>filesize\<close>, stops the kernel by the assertion of \<^verbatim>\<open>lock_acquire\<close>.
\<close>

theorem negative_seek_keeps_lock:
  fixes fd ps :: u32
  assumes st: "room (esp s - 16) 16 s" "16 < esp s" "\<not> filesys_lock s"
    and fd: "\<not> bad_fd (sint fd) s" "p = open_files s ! nat (sint fd - 2)" "files s p = Some f" and ps: "sint ps < 0"
  shows "\<exists>r s'. user_syscall v [10, fd, ps] s = ret r s' \<and> filesys_lock s' \<and> user_syscall v [7, fd] s' = ends Panic"
proof -
  define q where "q = pushed [10, fd, ps] s"
  have "my_seek q = ret () (q\<lparr>filesys_lock := True\<rparr>)"
    using fd st(3) ps args_pushed [of "[10, fd, ps]" s] by (subst seek_call [of q fd ps p f]) (simp_all add: q_def)
  moreover have "syscall_handler v q = my_seek q"
    using pushed_valid [OF st(1,2), of "[10, fd, ps]"] args_pushed [of "[10, fd, ps]" s] by (intro handler_dispatch(4) [of _ 10]) (simp_all add: q_def)
  ultimately obtain r s' where s': "user_syscall v [10, fd, ps] s = ret r s'" "filesys_lock s'" "open_files s' = open_files s" "esp s' = esp s" "room (esp s - 16) 16 s'"
    using call_returns [OF st(1,2), of "[10, fd, ps]" v] st pushed_room [of "[10, fd, ps]" s] by (fastforce simp: q_def room_def)
  have r8: "room (esp s' - 8) 8 s'" using st(2) s'(4) by (intro room_part [OF s'(5)]) auto
  have "syscall_handler v (pushed [7, fd] s') = my_filesize (pushed [7, fd] s')"
    using pushed_valid [of s' "[7, fd]"] s'(4,5) st(2) args_pushed [of "[7, fd]" s'] by (intro handler_dispatch(1) [of _ 7]) simp_all
  moreover have "my_filesize (pushed [7, fd] s') = ends Panic"
    using args_pushed [of "[7, fd]" s'] s'(2,3) fd(1) by (simp add: my_filesize_def flow get_file_def bad_fd_def acquire_def)
  ultimately have "user_syscall v [7, fd] s' = ends Panic" using r8 by (simp add: user_syscall_pushed flow)
  then show ?thesis using s' by blast
qed

lemma exit_status_few_files:
  assumes "open_files s = ps @ replicate m 0" and "0 \<notin> set ps" and "length ps \<le> 2" and "129 \<le> length (open_files s)" and "\<not> filesys_lock s"
    and u: "close_file (exec_file s) s = Some u"
  shows "\<exists>t. exit_status e s = ends (Exited t) \<and> my_info t = (my_info s)\<lparr>cstatus := e, sema_dead := sema_dead (my_info s) + 1\<rparr>
    \<and> console t = console s @ [Exit_line e] \<and> fsys t = fsys u \<and> files t = files u \<and> vmem t = vmem s \<and> children_list t = children_list s"
proof -
  have "exit_loop e 2 (exit_line e s) = Some (process_exit ((exit_line e s)
      \<lparr>open_files := cleared_by_exit 2 (open_files s), my_info := (my_info (exit_line e s))\<lparr>cstatus := e\<rparr>\<rparr>))"
    using exit_loop_closes [of 2 "exit_line e s" e] closed_by_exit_prefix [OF assms(1,2) _ assms(4)] assms(1,3-5) by (simp add: nth_append)
  then show ?thesis
    using u by (auto simp: exit_status_def process_exit_def close_file_def exit_line_def bind_Some_iff split: if_splits)
qed

text \<open>
  C16. Invalid pointers: if the stack pointer is null, in kernel memory or not mapped, or if the arguments can be read and
  the file name or buffer among them is such a pointer, then the call is \<^verbatim>\<open>exit_status (-1)\<close> and nothing else, whatever the state of the process is. What
  \<^verbatim>\<open>exit_status\<close> does then depends on the open files: for a process that has at most two files open, has closed none and does not hold \<^verbatim>\<open>filesys_lock\<close>, and whose executable
  can be closed, the process ends with the status -1 and its line on the console, its parent is woken, and the file system is as it
  was but for the closing of the executable.
\<close>

theorem invalid_pointers_exit:
  assumes bad: "invalid_ptr (esp s) s
    \<or> arg 0 s = ret w s \<and> arg 4 s = ret x s \<and> arg 8 s = ret y s \<and> arg 12 s = ret z s
      \<and> (w \<in> {2, 4, 5, 6, 16} \<and> invalid_ptr (unat x) s \<or> w \<in> {8, 9, 17} \<and> invalid_ptr (unat y) s)"
  shows "syscall_handler v s = exit_status (- 1) s
    \<and> (open_files s = ps @ replicate m 0 \<and> 0 \<notin> set ps \<and> length ps \<le> 2 \<and> 129 \<le> length (open_files s) \<and> \<not> filesys_lock s
        \<and> close_file (exec_file s) s = Some u \<longrightarrow>
      (\<exists>t. syscall_handler v s = ends (Exited t) \<and> my_info t = (my_info s)\<lparr>cstatus := - 1, sema_dead := sema_dead (my_info s) + 1\<rparr>
        \<and> console t = console s @ [Exit_line (- 1)] \<and> fsys t = fsys u \<and> files t = files u \<and> vmem t = vmem s \<and> children_list t = children_list s))"
proof -
  have "syscall_handler v s = exit_status (- 1) s"
  proof (cases "invalid_ptr (esp s) s")
    case False
    with bad have a: "arg 0 s = ret w s" "arg 4 s = ret x s" "arg 8 s = ret y s" "arg 12 s = ret z s"
      and c: "w \<in> {2, 4, 5, 6, 16} \<and> invalid_ptr (unat x) s \<or> w \<in> {8, 9, 17} \<and> invalid_ptr (unat y) s" by auto
    from c show ?thesis
      using a False
      by (elim disjE conjE insertE emptyE) (simp_all add: syscall_handler_def flow my_exec_def my_create_def my_remove_def my_open_def my_mkdir_def my_read_def my_write_def my_readdir_def)
  qed (simp add: syscall_handler_def)
  then show ?thesis using exit_status_few_files [of s ps m u "- 1"] by auto
qed

theorem invalid_pointers_exit_witness:
  "\<exists>t. syscall_handler demo_env (demo_proc\<lparr>esp := 3221225472\<rparr>) = ends (Exited t) \<and> cstatus (my_info t) = - 1"
proof -
  let ?s = "demo_proc\<lparr>esp := 3221225472\<rparr>"
  have "invalid_ptr (esp ?s) ?s" by (simp add: invalid_ptr_def)
  moreover have "open_files ?s = [400] @ replicate 199 0" "\<not> filesys_lock ?s" "close_file (exec_file ?s) ?s = Some ?s"
    by (simp_all add: demo_proc_def close_file_def)
  ultimately obtain t where "syscall_handler demo_env ?s = ends (Exited t)" "cstatus (my_info t) = - 1"
    using conjunct2 [OF invalid_pointers_exit [of ?s 0 0 0 0 demo_env "[400]" 199 ?s]] by auto
  then show ?thesis by blast
qed

text \<open>
  Only the stack pointer itself is checked and not the words above it: when the number of the call can be read
  and its first argument lies in memory that is not mapped, reading the argument is a page fault in the
  kernel, which stops the machine and not the process.
\<close>

theorem unmapped_argument_panics:
  assumes "\<not> invalid_ptr (esp s) s" and "arg 0 s = ret w s" and "w \<in> {1, 2, 3, 4, 5, 6, 7, 8, 9, 10, 11, 12, 16, 17, 18, 19}"
    and "vmem s (esp s + 4) = None"
  shows "syscall_handler v s = ends Panic"
proof -
  have a: "arg 4 s = ends Panic" using assms(4) by (simp add: arg_def load32_def opt_def)
  from assms(3) show ?thesis
    using assms(1,2) a
    by (elim insertE emptyE) (simp_all add: syscall_handler_def flow my_exit_def my_exec_def my_wait_def my_create_def my_remove_def my_open_def my_filesize_def
        my_read_def my_write_def my_seek_def my_tell_def my_mkdir_def my_readdir_def my_isdir_def my_inumber_def)
qed

text \<open>
  \<^verbatim>\<open>process_wait\<close>: for the identifier of no child the result is -1 at once and nothing changes. For a child that has
  died the result is its status, and a second call for the same child returns -1; the other children stay.
\<close>

theorem process_wait_once:
  assumes "distinct (map ctid (children_list s))"
  shows "if child_tid \<in> ctid ` set (children_list s)
    then \<exists>c s'. c \<in> set (children_list s) \<and> ctid c = child_tid \<and> set (children_list s') = set (children_list s) - {c}
      \<and> process_wait child_tid s = (if sema_dead c = 0 then ends (Waiting s') else ret (cstatus c) s') \<and> process_wait child_tid s' = ret (- 1) s'
    else process_wait child_tid s = ret (- 1) s"
proof (cases "find (\<lambda>c. ctid c = child_tid) (children_list s)")
  case None
  then have "child_tid \<notin> ctid ` set (children_list s)" by (auto simp: find_None_iff)
  then show ?thesis using None by (simp add: process_wait_def)
next
  case (Some c)
  then have c: "c \<in> set (children_list s)" "ctid c = child_tid" by (auto simp: find_Some_iff)
  let ?s = "s\<lparr>children_list := remove1 c (children_list s)\<rparr>"
  have d: "distinct (children_list s)" using assms by (simp add: distinct_map)
  then have set: "set (children_list ?s) = set (children_list s) - {c}" by simp
  have "inj_on ctid (set (children_list s))" using assms by (simp add: distinct_map)
  then have "\<forall>x \<in> set (children_list ?s). ctid x \<noteq> child_tid" unfolding set using c by (auto simp: inj_on_def)
  then have "find (\<lambda>c. ctid c = child_tid) (children_list ?s) = None" by (simp add: find_None_iff)
  then have "process_wait child_tid ?s = ret (- 1) ?s" by (simp add: process_wait_def)
  moreover have "process_wait child_tid s = (if sema_dead c = 0 then ends (Waiting ?s) else ret (cstatus c) ?s)" using Some by (simp add: process_wait_def)
  moreover have "child_tid \<in> ctid ` set (children_list s)" using c by auto
  ultimately show ?thesis unfolding if_P [OF \<open>child_tid \<in> ctid ` set (children_list s)\<close>] using c set
    by (intro exI [of _ c] exI [of _ ?s]) blast
qed

end
