(* ===== verification/Process.thy ===== *)
theory Process
  imports Filesys Pagedir
begin

unbundle bit_operations_syntax

text \<open>
  The loader of \<^verbatim>\<open>fs_PintOS/userprog/process.c\<close>: ELF headers, the check of a segment, the loading of its pages, the
  stack with the arguments of the program, and \<^verbatim>\<open>load\<close>, which puts them together. The state is the memory
  with the page directory of the process (\<open>Pagedir\<close>) and the file system. File contents are read from
  the disk of \<open>Inode\<close>, pages come from the pools of \<open>Palloc\<close>. An access of the kernel to a user address goes
  through the page directory, which \<^verbatim>\<open>process_activate\<close> has made the active one, and is a panic where
  nothing is mapped.

  The lemmas here are about the stack, which has the layout that a program's \<^verbatim>\<open>main\<close> expects; those about the segments are
  in \<open>Segment\<close>.
\<close>

record loader =
  mm :: mmu
  fsy :: fs

subsection \<open>ELF headers\<close>

record Elf32_Ehdr =
  e_ident :: "u8 list"
  e_type :: nat
  e_machine :: nat
  e_version :: u32
  e_entry :: u32
  e_phoff :: u32
  e_phentsize :: nat
  e_phnum :: nat

record Elf32_Phdr =
  p_type :: u32
  p_offset :: u32
  p_vaddr :: u32
  p_filesz :: u32
  p_memsz :: u32
  p_flags :: u32

definition half_at :: "u8 list \<Rightarrow> nat \<Rightarrow> nat" where
  "half_at bs i = unat (bs ! i) + 256 * unat (bs ! (i + 1))"

definition word_at :: "u8 list \<Rightarrow> nat \<Rightarrow> u32" where
  "word_at bs i = bytes_u32 (bs ! i) (bs ! (i + 1)) (bs ! (i + 2)) (bs ! (i + 3))"

definition ehdr_of :: "u8 list \<Rightarrow> Elf32_Ehdr" where
  "ehdr_of bs = \<lparr>e_ident = take 16 bs, e_type = half_at bs 16, e_machine = half_at bs 18, e_version = word_at bs 20, e_entry = word_at bs 24,
     e_phoff = word_at bs 28, e_phentsize = half_at bs 42, e_phnum = half_at bs 44\<rparr>"

definition phdr_of :: "u8 list \<Rightarrow> Elf32_Phdr" where
  "phdr_of bs = \<lparr>p_type = word_at bs 0, p_offset = word_at bs 4, p_vaddr = word_at bs 8, p_filesz = word_at bs 16, p_memsz = word_at bs 20,
     p_flags = word_at bs 24\<rparr>"

definition PGMASK :: u32 where
  "PGMASK = 4095"

definition ehdr_ok :: "Elf32_Ehdr \<Rightarrow> bool" where
  "ehdr_ok h \<longleftrightarrow> take 7 (e_ident h) = [127, 69, 76, 70, 1, 1, 1] \<and> e_type h = 2 \<and> e_machine h = 3 \<and> e_version h = 1
     \<and> e_phentsize h = 32 \<and> e_phnum h \<le> 1024"

definition validate_segment :: "Elf32_Phdr \<Rightarrow> nat \<Rightarrow> bool" where
  "validate_segment phdr file_len =
     (if p_offset phdr AND PGMASK \<noteq> p_vaddr phdr AND PGMASK then False
      else if p_offset phdr > of_nat file_len then False
      else if p_memsz phdr < p_filesz phdr then False
      else if p_memsz phdr = 0 then False
      else if \<not> is_user_vaddr (unat (p_vaddr phdr)) then False
      else if \<not> is_user_vaddr (unat (p_vaddr phdr + p_memsz phdr)) then False
      else if p_vaddr phdr + p_memsz phdr < p_vaddr phdr then False
      else if unat (p_vaddr phdr) < PGSIZE then False
      else True)"

subsection \<open>Segments\<close>

definition install_page :: "nat \<Rightarrow> nat \<Rightarrow> nat \<Rightarrow> bool \<Rightarrow> mmu \<Rightarrow> (bool \<times> mmu) option" where
  "install_page pd upage kpage writable m = do {
     p \<leftarrow> pagedir_get_page pd upage m;
     if p = 0 then pagedir_set_page pd upage kpage writable m else Some (False, m) }"

definition copy_in :: "nat \<Rightarrow> u8 list \<Rightarrow> (nat \<Rightarrow> u8) \<Rightarrow> (nat \<Rightarrow> u8)" where
  "copy_in a bs m = (\<lambda>x. if a \<le> x \<and> x < a + length bs then bs ! (x - a) else m x)"

text \<open>One round of the loop of \<^verbatim>\<open>load_segment\<close>: whether it succeeded, and the file and the state after it.\<close>

definition load_page :: "nat \<Rightarrow> file_t \<Rightarrow> nat \<Rightarrow> nat \<Rightarrow> bool \<Rightarrow> loader \<Rightarrow> (bool \<times> file_t \<times> loader) option" where
  "load_page pd f upage page_read_bytes writable s = do {
     (kpage, m) \<leftarrow> get_page PAL_USER (mm s);
     if kpage = 0 then Some (False, f, s\<lparr>mm := m\<rparr>)
     else do {
       (bytes, f) \<leftarrow> file_read (fsy s) f page_read_bytes;
       let m = put_ram (copy_in kpage bytes (mem m)) m;
       if length bytes \<noteq> page_read_bytes
       then do { m \<leftarrow> free_page kpage m; Some (False, f, s\<lparr>mm := m\<rparr>) }
       else do {
         let m = put_ram (fill (kpage + page_read_bytes) 0 (PGSIZE - page_read_bytes) (mem m)) m;
         (ok, m) \<leftarrow> install_page pd upage kpage writable m;
         if ok then Some (True, f, s\<lparr>mm := m\<rparr>)
         else do { m \<leftarrow> free_page kpage m; Some (False, f, s\<lparr>mm := m\<rparr>) } } } }"

function load_loop :: "nat \<Rightarrow> file_t \<Rightarrow> nat \<Rightarrow> nat \<Rightarrow> nat \<Rightarrow> bool \<Rightarrow> loader \<Rightarrow> (bool \<times> file_t \<times> loader) option" where
  "load_loop pd f upage read_bytes zero_bytes writable s =
     (if read_bytes > 0 \<or> zero_bytes > 0
      then do {
        let page_read_bytes = (if read_bytes < PGSIZE then read_bytes else PGSIZE);
        let page_zero_bytes = PGSIZE - page_read_bytes;
        (ok, f, s) \<leftarrow> load_page pd f upage page_read_bytes writable s;
        if ok then load_loop pd f (upage + PGSIZE) (read_bytes - page_read_bytes) (zero_bytes - page_zero_bytes) writable s
        else Some (False, f, s) }
      else Some (True, f, s))"
  by pat_completeness auto
termination
  by (relation "measure (\<lambda>(pd, f, upage, r, z, w, s). r + z)") (auto simp: PGSIZE_def)

declare load_loop.simps [simp del]

definition load_segment :: "nat \<Rightarrow> file_t \<Rightarrow> nat \<Rightarrow> nat \<Rightarrow> nat \<Rightarrow> nat \<Rightarrow> bool \<Rightarrow> loader \<Rightarrow> (bool \<times> file_t \<times> loader) option" where
  "load_segment pd f ofs upage read_bytes zero_bytes writable s = do {
     ASSERT (wrap32 (read_bytes + zero_bytes) mod PGSIZE = 0);
     ASSERT (pg_ofs upage = 0);
     ASSERT (ofs mod PGSIZE = 0);
     load_loop pd (file_seek f ofs) upage read_bytes zero_bytes writable s }"

text \<open>The case \<^verbatim>\<open>PT_LOAD\<close> of \<^verbatim>\<open>load\<close>.\<close>

definition load_phdr :: "nat \<Rightarrow> file_t \<Rightarrow> Elf32_Phdr \<Rightarrow> loader \<Rightarrow> (bool \<times> file_t \<times> loader) option" where
  "load_phdr pd f phdr s =
     (if validate_segment phdr (file_length (fsy s) f)
      then do {
        let writable = (p_flags phdr AND 2 \<noteq> 0);
        let file_page = unat (p_offset phdr AND NOT PGMASK);
        let mem_page = unat (p_vaddr phdr AND NOT PGMASK);
        let page_offset = unat (p_vaddr phdr AND PGMASK);
        let (read_bytes, zero_bytes) =
          (if p_filesz phdr > 0
           then (let read_bytes = wrap32 (page_offset + unat (p_filesz phdr))
                 in (read_bytes, wrap32 (ROUND_UP (wrap32 (page_offset + unat (p_memsz phdr))) PGSIZE + 4294967296 - read_bytes)))
           else (0, ROUND_UP (wrap32 (page_offset + unat (p_memsz phdr))) PGSIZE));
        load_segment pd f file_page mem_page read_bytes zero_bytes writable s }
      else Some (False, f, s))"

subsection \<open>The stack\<close>

text \<open>
  \<^verbatim>\<open>setup_stack\<close> writes to the stack with \<^verbatim>\<open>memcpy\<close> at \<^verbatim>\<open>myEsp\<close> and moves \<^verbatim>\<open>myEsp\<close> down. A pen is the value of \<^verbatim>\<open>myEsp\<close> and
  the writes so far. What is written does not depend on the memory, so that the writes can be listed first.
\<close>

type_synonym pen = "nat \<times> (nat \<times> u8) list"

definition put1 :: "u8 \<Rightarrow> pen \<Rightarrow> pen" where
  "put1 b p = (fst p, snd p @ [(fst p, b)])"

definition put4 :: "nat \<Rightarrow> pen \<Rightarrow> pen" where
  "put4 w p = (fst p, snd p @ zip [fst p..<fst p + 4] (u32_bytes (of_nat w)))"

definition down :: "nat \<Rightarrow> pen \<Rightarrow> pen" where
  "down k p = (fst p - k, snd p)"

primrec push_chars :: "u8 list \<Rightarrow> nat \<Rightarrow> pen \<Rightarrow> pen" where
  "push_chars s 0 p = p"
| "push_chars s (Suc i) p = push_chars s i (down 1 (put1 (s ! i) p))"

primrec push_strings :: "u8 list list \<Rightarrow> nat \<Rightarrow> pen \<Rightarrow> pen" where
  "push_strings args 0 p = p"
| "push_strings args (Suc i) p = push_strings args i (push_chars (args ! i) (length (args ! i)) (down 1 (put1 0 p)))"

primrec push_pad :: "nat \<Rightarrow> pen \<Rightarrow> pen" where
  "push_pad 0 p = p"
| "push_pad (Suc n) p = push_pad n (down 1 (put1 0 p))"

primrec push_ptrs :: "u8 list list \<Rightarrow> nat \<Rightarrow> nat \<Rightarrow> pen \<Rightarrow> pen" where
  "push_ptrs args 0 ptr_to_args p = p"
| "push_ptrs args (Suc i) ptr_to_args p =
     (let ptr_to_args = ptr_to_args - (length (args ! i) + 1) in push_ptrs args i ptr_to_args (down 4 (put4 ptr_to_args p)))"

definition push_args :: "u8 list list \<Rightarrow> pen" where
  "push_args args =
     (let p = down 1 (put1 0 (PHYS_BASE, []));
          p = push_strings args (length args) p;
          totalBytes = sum_list (map (\<lambda>a. length a + 1) args);
          padding = 4 - totalBytes mod 4;
          p = push_pad padding p;
          p = down (if padding = 0 then 4 else 3) p;
          p = down 4 (put1 0 p);
          p = push_ptrs args (length args) PHYS_BASE p;
          p = down 4 (put4 (fst p + 4) p)
      in down 4 (put1 (of_nat (length args)) p))"

text \<open>A write of the kernel to a virtual address.\<close>

definition vput :: "nat \<Rightarrow> nat \<times> u8 \<Rightarrow> mmu \<Rightarrow> mmu option" where
  "vput pd w m =
     (if is_user_vaddr (fst w)
      then do { k \<leftarrow> pagedir_get_page pd (fst w) m; ASSERT (k \<noteq> 0); Some (put_ram ((mem m)(k := snd w)) m) }
      else Some (put_ram ((mem m)(fst w := snd w)) m))"

text \<open>
  The result is whether \<^verbatim>\<open>setup_stack\<close> returned true, and the new \<^verbatim>\<open>esp\<close> if it was set. With more than 100 arguments it
  returns \<^verbatim>\<open>TID_ERROR\<close>, which is -1 and true as a \<^verbatim>\<open>bool\<close>. The page for \<^verbatim>\<open>args\<close> is not checked, so that storing the first
  token is a page fault when there is none.
\<close>

definition setup_stack :: "nat \<Rightarrow> u8 list \<Rightarrow> mmu \<Rightarrow> (bool \<times> nat option \<times> mmu) option" where
  "setup_stack pd cmd_line m = do {
     (args_page, m) \<leftarrow> get_page 0 m;
     let args = tokens {32} cmd_line;
     ASSERT (args_page \<noteq> 0 \<or> args = []);
     if length args > 100 then Some (True, None, m)
     else do {
       (kpage, m) \<leftarrow> get_page (PAL_USER OR PAL_ZERO) m;
       if kpage = 0 then Some (False, None, m)
       else do {
         (success, m) \<leftarrow> install_page pd (PHYS_BASE - PGSIZE) kpage True m;
         if success
         then do { m \<leftarrow> foldM (vput pd) (snd (push_args args)) m; Some (True, Some (fst (push_args args)), m) }
         else do { m \<leftarrow> free_page kpage m; Some (False, None, m) } } } }"

subsection \<open>Loading a program\<close>

text \<open>The loop over the program headers; \<open>n\<close> of them are left.\<close>

primrec phdr_loop :: "nat \<Rightarrow> nat \<Rightarrow> file_t \<Rightarrow> int \<Rightarrow> loader \<Rightarrow> (bool \<times> file_t \<times> loader) option" where
  "phdr_loop 0 pd f file_ofs s = Some (True, f, s)"
| "phdr_loop (Suc n) pd f file_ofs s =
     (if file_ofs < 0 \<or> file_ofs > int (file_length (fsy s) f) then Some (False, f, s)
      else do {
        (bytes, f) \<leftarrow> file_read (fsy s) (file_seek f (nat file_ofs)) 32;
        if length bytes \<noteq> 32 then Some (False, f, s)
        else do {
          let phdr = phdr_of bytes;
          let t = p_type phdr;
          if t = 1
          then do {
            (ok, f, s) \<leftarrow> load_phdr pd f phdr s;
            if ok then phdr_loop n pd f (file_ofs + 32) s else Some (False, f, s) }
          else if t = 2 \<or> t = 3 \<or> t = 5 then Some (False, f, s)
          else phdr_loop n pd f (file_ofs + 32) s } })"

text \<open>
  \<^verbatim>\<open>load\<close> from the check of the header to its end, for an open file: the file, the entry point and the stack
  pointer if they were set. The interrupt frame starts with zeros.
\<close>

definition load_image :: "nat \<Rightarrow> file_t \<Rightarrow> u8 list \<Rightarrow> loader \<Rightarrow> (bool \<times> u32 \<times> nat \<times> file_t \<times> loader) option" where
  "load_image pd f file_name s = do {
     (bytes, f) \<leftarrow> file_read (fsy s) f 52;
     let ehdr = ehdr_of bytes;
     if length bytes \<noteq> 52 \<or> \<not> ehdr_ok ehdr then Some (False, 0, 0, f, s)
     else do {
       (ok, f, s) \<leftarrow> phdr_loop (e_phnum ehdr) pd f (sint (e_phoff ehdr)) s;
       if \<not> ok then Some (False, 0, 0, f, s)
       else do {
         (cmdline_copy, m) \<leftarrow> get_page 0 (mm s);
         ASSERT (cmdline_copy \<noteq> 0);
         (ok, sp, m) \<leftarrow> setup_stack pd (take 4095 file_name) m;
         let sp = (case sp of None \<Rightarrow> 0 | Some a \<Rightarrow> a);
         if ok then Some (True, e_entry ehdr, sp, f, s\<lparr>mm := m\<rparr>) else Some (False, 0, sp, f, s\<lparr>mm := m\<rparr>) } } }"

definition process_activate :: "nat \<Rightarrow> mmu \<Rightarrow> mmu option" where
  "process_activate pd m = pagedir_activate pd m"

definition load :: "u8 list \<Rightarrow> loader \<Rightarrow> (bool \<times> nat \<times> u32 \<times> nat \<times> file_t option \<times> loader) option" where
  "load file_name s = do {
     (pd, m) \<leftarrow> pagedir_create (mm s);
     if pd = 0 then Some (False, 0, 0, 0, None, s\<lparr>mm := m\<rparr>)
     else do {
       m \<leftarrow> process_activate pd m;
       (fn_copy, m) \<leftarrow> get_page 0 m;
       ASSERT (fn_copy \<noteq> 0);
       let toks = tokens {32} (take 4095 file_name);
       ASSERT (toks \<noteq> []);
       (p, t) \<leftarrow> filesys_open (fsy s) (hd toks);
       let s = \<lparr>mm = m, fsy = t\<rparr>;
       case p of
         None \<Rightarrow> Some (False, pd, 0, 0, None, s)
       | Some f \<Rightarrow> do {
           (success, eip, sp, f, s) \<leftarrow> load_image pd f file_name s;
           (f, t) \<leftarrow> file_deny_write (fsy s) f;
           Some (success, pd, eip, sp, Some f, s\<lparr>fsy := t\<rparr>) } } }"

text \<open>
  The rest of \<^verbatim>\<open>start_process\<close> after \<^verbatim>\<open>load\<close>: the page with the command line is released. On success the caller of \<^verbatim>\<open>exec\<close> is
  woken and the program runs at the entry point with the stack pointer; otherwise the thread ends.
\<close>

definition start_process :: "nat \<Rightarrow> u8 list \<Rightarrow> loader \<Rightarrow> (bool \<times> nat \<times> u32 \<times> nat \<times> file_t option \<times> loader) option" where
  "start_process file_name_page file_name s = do {
     (success, pd, eip, sp, f, s) \<leftarrow> load file_name s;
     m \<leftarrow> free_page file_name_page (mm s);
     Some (success, pd, eip, sp, f, s\<lparr>mm := m\<rparr>) }"

text \<open>What \<^verbatim>\<open>process_exit\<close> does with the address space.\<close>

definition process_exit_pagedir :: "nat \<Rightarrow> mmu \<Rightarrow> mmu option" where
  "process_exit_pagedir pd m =
     (if pd \<noteq> 0 then do { m \<leftarrow> pagedir_activate 0 m; pagedir_destroy pd m } else Some m)"

subsection \<open>The stack of a new program\<close>

text \<open>What a program finds on its stack: no return address, \<^verbatim>\<open>argc\<close>, \<^verbatim>\<open>argv\<close>, the pointers with a null at the end, padding, strings.\<close>

definition arg_ptr :: "u8 list list \<Rightarrow> nat \<Rightarrow> nat" where
  "arg_ptr args i = PHYS_BASE - sum_list (map (\<lambda>a. length a + 1) (drop i args))"

definition arg_bytes :: "u8 list list \<Rightarrow> u8 list" where
  "arg_bytes args = concat (map (\<lambda>a. a @ [0]) args)"

definition pad_bytes :: "u8 list list \<Rightarrow> u8 list" where
  "pad_bytes args = replicate (4 - length (arg_bytes args) mod 4) 0"

definition stack_size :: "u8 list list \<Rightarrow> nat" where
  "stack_size args = 16 + 4 * length args + length (pad_bytes args) + length (arg_bytes args)"

definition stack_image :: "u8 list list \<Rightarrow> u8 list" where
  "stack_image args = u32_bytes 0 @ u32_bytes (of_nat (length args)) @ u32_bytes (of_nat (PHYS_BASE - stack_size args + 12))
     @ concat (map (\<lambda>i. u32_bytes (of_nat (arg_ptr args i))) [0..<length args]) @ u32_bytes 0 @ pad_bytes args @ arg_bytes args"

definition pen_mem :: "pen \<Rightarrow> nat \<Rightarrow> u8" where
  "pen_mem p = fold (\<lambda>(a, b) m. m(a := b)) (snd p) (\<lambda>_. 0)"

lemma fst_pens [simp]: "fst (put1 b p) = fst p" "fst (put4 w p) = fst p" "fst (down k p) = fst p - k"
  by (simp_all add: put1_def put4_def down_def)

lemma pen_mem_put1 [simp]: "pen_mem (put1 b p) = (pen_mem p)(fst p := b)"
  and pen_mem_down [simp]: "pen_mem (down k p) = pen_mem p"
  by (simp_all add: pen_mem_def put1_def down_def)

lemma pen_mem_put4:
  "pen_mem (put4 w p) x = (if fst p \<le> x \<and> x < fst p + 4 then u32_bytes (of_nat w) ! (x - fst p) else pen_mem p x)"
proof -
  have z: "[fst p..<fst p + 4] = [fst p, fst p + 1, fst p + 2, fst p + 3]"
    by (simp add: upt_rec numeral_eq_Suc)
  show ?thesis
  proof (cases "fst p \<le> x \<and> x < fst p + 4")
    case True
    then have "x = fst p \<or> x = fst p + 1 \<or> x = fst p + 2 \<or> x = fst p + 3" by auto
    then show ?thesis by (elim disjE) (simp_all add: pen_mem_def put4_def z u32_bytes_def)
  qed (auto simp: pen_mem_def put4_def z u32_bytes_def)
qed

text \<open>\<open>drawn k p bs\<close>: the bytes from \<open>k\<close> above the pen up to \<^verbatim>\<open>PHYS_BASE\<close> are \<open>bs\<close>, and below them all is zero.\<close>

definition drawn :: "nat \<Rightarrow> pen \<Rightarrow> u8 list \<Rightarrow> bool" where
  "drawn k p bs \<longleftrightarrow> fst p + k + length bs = PHYS_BASE \<and> (\<forall>i<length bs. pen_mem p (fst p + k + i) = bs ! i) \<and> (\<forall>x<fst p + k. pen_mem p x = 0)"

lemma drawn_push1:
  assumes "drawn 1 p bs" and "0 < fst p"
  shows "drawn 1 (down 1 (put1 b p)) (b # bs)"
proof -
  have "pen_mem (down 1 (put1 b p)) (fst (down 1 (put1 b p)) + 1 + i) = (b # bs) ! i" if "i < length (b # bs)" for i
    using assms that by (cases i) (auto simp: drawn_def)
  then show ?thesis using assms by (auto simp: drawn_def)
qed

lemma drawn_push4:
  assumes "drawn 4 p bs" and "4 \<le> fst p"
  shows "drawn 4 (down 4 (put4 w p)) (u32_bytes (of_nat w) @ bs)"
proof -
  have "pen_mem (put4 w p) (fst p + i) = (u32_bytes (of_nat w) @ bs) ! i" if "i < 4 + length bs" for i
  proof (cases "i < 4")
    case False
    then have "fst p + i = fst p + 4 + (i - 4)" "i - 4 < length bs" using that by auto
    then show ?thesis using assms(1) False by (auto simp: drawn_def pen_mem_put4 nth_append)
  qed (simp add: pen_mem_put4 nth_append)
  then show ?thesis using assms by (auto simp: drawn_def pen_mem_put4)
qed

lemma drawn_chars:
  assumes "drawn 1 p bs" and "n \<le> length s" and "n \<le> fst p"
  shows "drawn 1 (push_chars s n p) (take n s @ bs)"
  using assms
proof (induction n arbitrary: p bs)
  case (Suc n)
  have "drawn 1 (down 1 (put1 (s ! n) p)) (s ! n # bs)" using Suc.prems by (intro drawn_push1) auto
  from Suc.IH [OF this] Suc.prems show ?case by (simp add: take_Suc_conv_app_nth)
qed simp

lemma fst_push_chars: "fst (push_chars s n p) = fst p - n"
  by (induction n arbitrary: p) auto

lemma drawn_strings:
  assumes "drawn 1 p bs" and "n \<le> length args" and "length (arg_bytes (take n args)) \<le> fst p"
  shows "drawn 1 (push_strings args n p) (arg_bytes (take n args) @ bs)"
  using assms
proof (induction n arbitrary: p bs)
  case (Suc n)
  let ?s = "args ! n"
  have t: "arg_bytes (take (Suc n) args) = arg_bytes (take n args) @ ?s @ [0]"
    using Suc.prems(2) by (simp add: take_Suc_conv_app_nth arg_bytes_def)
  have "drawn 1 (down 1 (put1 0 p)) (0 # bs)" using Suc.prems t by (intro drawn_push1) auto
  then have d: "drawn 1 (push_chars ?s (length ?s) (down 1 (put1 0 p))) (take (length ?s) ?s @ 0 # bs)"
    using Suc.prems t by (intro drawn_chars) auto
  have "length (arg_bytes (take n args)) \<le> fst (push_chars ?s (length ?s) (down 1 (put1 0 p)))"
    using Suc.prems(3) t by (simp add: fst_push_chars)
  from Suc.IH [OF d _ this] Suc.prems t show ?case by simp
qed (simp add: arg_bytes_def)

lemma drawn_pad:
  assumes "drawn 1 p bs" and "n \<le> fst p"
  shows "drawn 1 (push_pad n p) (replicate n 0 @ bs)"
  using assms
proof (induction n arbitrary: p bs)
  case (Suc n)
  have "drawn 1 (down 1 (put1 0 p)) (0 # bs)" using Suc.prems by (intro drawn_push1) auto
  from Suc.IH [OF this] Suc.prems show ?case by (simp add: replicate_app_Cons_same)
qed simp

lemma drawn_null:
  assumes "drawn 1 p bs" and "7 \<le> fst p"
  shows "drawn 4 (down 4 (put1 0 (down 3 p))) (u32_bytes 0 @ bs)"
proof -
  have "pen_mem p (fst p - 3 + i) = (u32_bytes 0 @ bs) ! i" if "i < 4 + length bs" for i
  proof (cases "i < 4")
    case True
    then have "i = 0 \<or> i = 1 \<or> i = 2 \<or> i = 3" by auto
    then have "u32_bytes 0 ! i = 0" by (elim disjE) (simp_all add: u32_bytes_def)
    then show ?thesis using assms True by (auto simp: drawn_def nth_append)
  next
    case False
    then have "fst p - 3 + i = fst p + 1 + (i - 4)" "i - 4 < length bs" using that assms(2) by auto
    then show ?thesis using assms(1) False by (auto simp: drawn_def nth_append)
  qed
  moreover have "(pen_mem p)(fst p - 3 := 0) = pen_mem p" using assms by (intro fun_upd_idem) (auto simp: drawn_def)
  ultimately show ?thesis using assms by (simp add: drawn_def)
qed

lemma drawn_ptrs:
  assumes "drawn 4 p bs" and "n \<le> length args" and "4 * n \<le> fst p"
  shows "drawn 4 (push_ptrs args n (arg_ptr args n) p) (concat (map (\<lambda>i. u32_bytes (of_nat (arg_ptr args i))) [0..<n]) @ bs)"
  using assms
proof (induction n arbitrary: p bs)
  case (Suc n)
  have "drop n args = args ! n # drop (Suc n) args" using Suc.prems(2) by (simp add: Cons_nth_drop_Suc)
  then have a: "arg_ptr args (Suc n) - (length (args ! n) + 1) = arg_ptr args n" by (simp add: arg_ptr_def)
  have "drawn 4 (down 4 (put4 (arg_ptr args n) p)) (u32_bytes (of_nat (arg_ptr args n)) @ bs)" using Suc.prems by (intro drawn_push4) auto
  from Suc.IH [OF this] Suc.prems show ?case by (simp add: Let_def a del: One_nat_def)
qed simp

lemma length_stack_image: "length (stack_image args) = stack_size args"
  by (simp add: stack_image_def stack_size_def length_concat comp_def sum_list_triv)

lemma length_arg_bytes: "length (arg_bytes args) = sum_list (map (\<lambda>a. length a + 1) args)"
  by (simp add: arg_bytes_def length_concat comp_def)

lemma u32_bytes_small: "n < 256 \<Longrightarrow> u32_bytes (of_nat n) = [of_nat n, 0, 0, 0]"
proof -
  assume n: "n < 256"
  have "drop_bit k (of_nat n :: u32) = 0" if "8 \<le> k" for k
  proof -
    have "n < 2 ^ k" using n that power_increasing [of 8 k "2 :: nat"] by simp
    then show ?thesis using n unfolding word_unat_eq_iff unat_drop_bit_eq by (simp add: drop_bit_eq_div unat_of_nat)
  qed
  moreover have "ucast (of_nat n :: u32) = (of_nat n :: u8)" using n by (simp add: unsigned_of_nat take_bit_nat_eq_self)
  ultimately show ?thesis by (simp add: u32_bytes_def)
qed

lemma nth_after_words: "length xs = 4 \<Longrightarrow> length ys = 4 \<Longrightarrow> 8 \<le> i \<Longrightarrow> (xs @ ys @ bs) ! i = bs ! (i - 8)"
  by (auto simp: nth_append)

lemma push_args_image:
  assumes fits: "stack_size args \<le> PHYS_BASE" and few: "length args < 256"
  shows "fst (push_args args) = PHYS_BASE - stack_size args"
    and "i < stack_size args \<Longrightarrow> pen_mem (push_args args) (PHYS_BASE - stack_size args + i) = stack_image args ! i"
proof -
  let ?n = "length args" and ?S = "stack_size args"
  define p0 where "p0 = down 1 (put1 0 (PHYS_BASE, []))"
  define p1 where "p1 = push_strings args ?n p0"
  define p2 where "p2 = push_pad (4 - length (arg_bytes args) mod 4) p1"
  define p3 where "p3 = down 4 (put1 0 (down 3 p2))"
  define p4 where "p4 = push_ptrs args ?n PHYS_BASE p3"
  define p5 where "p5 = down 4 (put4 (fst p4 + 4) p4)"
  have S: "?S = 16 + 4 * ?n + length (pad_bytes args) + length (arg_bytes args)" by (simp add: stack_size_def)
  have "0 < PHYS_BASE" by (simp add: PHYS_BASE_def)
  have "drawn 1 p0 []" using \<open>0 < PHYS_BASE\<close> by (simp add: p0_def drawn_def) (simp add: pen_mem_def)
  then have d1: "drawn 1 p1 (arg_bytes args)" using drawn_strings [of p0 "[]" ?n args] S fits by (simp add: p1_def p0_def)
  then have "length (pad_bytes args) \<le> fst p1" using S fits by (simp add: drawn_def)
  then have d2: "drawn 1 p2 (pad_bytes args @ arg_bytes args)" using drawn_pad [OF d1, of "length (pad_bytes args)"] by (simp add: p2_def pad_bytes_def)
  then have "7 \<le> fst p2" using S fits by (simp add: drawn_def)
  then have d3: "drawn 4 p3 (u32_bytes 0 @ pad_bytes args @ arg_bytes args)" using drawn_null [OF d2] by (simp add: p3_def)
  then have "4 * ?n \<le> fst p3" using S fits by (simp add: drawn_def)
  moreover have "arg_ptr args ?n = PHYS_BASE" by (simp add: arg_ptr_def)
  ultimately have d4: "drawn 4 p4 (concat (map (\<lambda>i. u32_bytes (of_nat (arg_ptr args i))) [0..<?n]) @ u32_bytes 0 @ pad_bytes args @ arg_bytes args)"
    using drawn_ptrs [OF d3, of ?n args] by (simp add: p4_def)
  then have "8 + fst p4 + 4 * ?n + length (pad_bytes args) + length (arg_bytes args) = PHYS_BASE"
    by (simp add: drawn_def length_concat comp_def sum_list_triv)
  then have f4: "fst p4 = PHYS_BASE - ?S + 8" using S fits by linarith
  let ?bs = "u32_bytes (of_nat (PHYS_BASE - ?S + 12)) @ concat (map (\<lambda>i. u32_bytes (of_nat (arg_ptr args i))) [0..<?n]) @ u32_bytes 0 @ pad_bytes args @ arg_bytes args"
  have "fst p4 + 4 = PHYS_BASE - ?S + 12" using f4 by simp
  then have d5: "drawn 4 p5 ?bs" using drawn_push4 [OF d4, of "fst p4 + 4"] f4 unfolding p5_def by (simp only: append_assoc)
  have f5: "fst p5 = PHYS_BASE - ?S + 4" using f4 by (simp add: p5_def)
  have total: "sum_list (map (\<lambda>a. length a + 1) args) = length (arg_bytes args)" by (simp add: length_arg_bytes)
  have "4 - length (arg_bytes args) mod 4 \<noteq> 0" by simp
  then have r: "push_args args = down 4 (put1 (of_nat ?n) p5)"
    unfolding push_args_def Let_def total p5_def p4_def p3_def p2_def p1_def p0_def by simp
  then show "fst (push_args args) = PHYS_BASE - ?S" using f5 by simp
  show "pen_mem (push_args args) (PHYS_BASE - ?S + i) = stack_image args ! i" if "i < ?S"
  proof -
    have m: "pen_mem (push_args args) = (pen_mem p5)(PHYS_BASE - ?S + 4 := of_nat ?n)" using r f5 by simp
    have im: "stack_image args = [0, 0, 0, 0] @ [of_nat ?n, 0, 0, 0] @ ?bs"
      using u32_bytes_small [OF few] u32_bytes_small [of 0] by (simp add: stack_image_def)
    have z: "x < PHYS_BASE - ?S + 8 \<Longrightarrow> pen_mem p5 x = 0" for x using d5 f5 by (simp add: drawn_def)
    consider "i < 4" | "i = 4" | "4 < i" "i < 8" | "8 \<le> i" by linarith
    then show ?thesis
    proof cases
      case 1
      then show ?thesis using z [of "PHYS_BASE - ?S + i"] by (simp add: m im less_Suc_eq numeral_eq_Suc) (auto simp: nth_append)
    next
      case 3
      then have "i = 5 \<or> i = 6 \<or> i = 7" by auto
      then show ?thesis using z [of "PHYS_BASE - ?S + i"] by (elim disjE) (simp_all add: m im)
    next
      case 4
      have "length ?bs = ?S - 8" using length_stack_image [of args] unfolding im by simp
      then have "i - 8 < length ?bs" using that 4 by linarith
      then have "pen_mem p5 (fst p5 + 4 + (i - 8)) = ?bs ! (i - 8)" using d5 unfolding drawn_def by blast
      moreover have "fst p5 + 4 + (i - 8) = PHYS_BASE - ?S + i" using f5 4 by linarith
      moreover have "([0, 0, 0, 0] @ [of_nat ?n, 0, 0, 0] @ ?bs) ! i = ?bs ! (i - 8)" using 4 by (intro nth_after_words) simp_all
      moreover have "PHYS_BASE - ?S + i \<noteq> PHYS_BASE - ?S + 4" using 4 by simp
      ultimately show ?thesis unfolding m im by simp
    qed (simp add: m im)
  qed
qed

text \<open>Every write is between the final stack pointer and \<^verbatim>\<open>PHYS_BASE\<close>, which it includes.\<close>

definition pen_ok :: "pen \<Rightarrow> bool" where
  "pen_ok p \<longleftrightarrow> fst p \<le> PHYS_BASE \<and> (\<forall>w \<in> set (snd p). fst p \<le> fst w \<and> fst w \<le> PHYS_BASE)"

lemma pen_ok_put1: "pen_ok p \<Longrightarrow> pen_ok (put1 b p)"
  by (auto simp: pen_ok_def put1_def)

lemma pen_ok_down: "pen_ok p \<Longrightarrow> pen_ok (down k p)"
  by (force simp: pen_ok_def down_def)

lemma pen_ok_put4: "pen_ok p \<Longrightarrow> fst p + 4 \<le> PHYS_BASE \<Longrightarrow> pen_ok (put4 w p)"
  by (auto simp: pen_ok_def put4_def dest!: set_zip_leftD)

lemma pen_ok_push1: "pen_ok p \<Longrightarrow> pen_ok (down 1 (put1 b p))"
  by (intro pen_ok_down pen_ok_put1)

lemma pen_ok_chars: "pen_ok p \<Longrightarrow> pen_ok (push_chars s n p)"
  by (induction n arbitrary: p) (simp_all add: pen_ok_push1 del: One_nat_def)

lemma pen_ok_strings: "pen_ok p \<Longrightarrow> pen_ok (push_strings args n p)"
  by (induction n arbitrary: p) (simp_all add: pen_ok_push1 pen_ok_chars del: One_nat_def)

lemma pen_ok_pad: "pen_ok p \<Longrightarrow> pen_ok (push_pad n p)"
  by (induction n arbitrary: p) (simp_all add: pen_ok_push1 del: One_nat_def)

lemma pen_ok_ptrs: "pen_ok p \<Longrightarrow> fst p + 4 \<le> PHYS_BASE \<Longrightarrow> pen_ok (push_ptrs args n ptr p) \<and> fst (push_ptrs args n ptr p) + 4 \<le> PHYS_BASE"
  by (induction n arbitrary: p ptr) (simp_all add: Let_def pen_ok_down pen_ok_put4)

lemma fst_push_pad: "fst (push_pad n p) = fst p - n"
  by (induction n arbitrary: p) auto

lemma pen_ok_push_args: "pen_ok (push_args args)"
proof -
  define p0 where "p0 = push_pad (4 - sum_list (map (\<lambda>a. length a + 1) args) mod 4) (push_strings args (length args) (down 1 (put1 0 (PHYS_BASE, []))))"
  define p1 where "p1 = down 4 (put1 0 (down 3 p0))"
  define p2 where "p2 = push_ptrs args (length args) PHYS_BASE p1"
  have "pen_ok (PHYS_BASE, [])" by (simp add: pen_ok_def)
  then have p0: "pen_ok p0" unfolding p0_def by (intro pen_ok_pad pen_ok_strings pen_ok_push1)
  then have "fst p0 \<le> PHYS_BASE" by (simp add: pen_ok_def)
  moreover have "4 \<le> PHYS_BASE" by (simp add: PHYS_BASE_def)
  ultimately have "fst p1 + 4 \<le> PHYS_BASE" by (simp add: p1_def)
  moreover have "pen_ok p1" unfolding p1_def using p0 by (intro pen_ok_down pen_ok_put1)
  ultimately have p2: "pen_ok p2" "fst p2 + 4 \<le> PHYS_BASE" using pen_ok_ptrs by (auto simp: p2_def)
  have "4 - sum_list (map (\<lambda>a. length a + 1) args) mod 4 \<noteq> 0" by simp
  then have "push_args args = down 4 (put1 (of_nat (length args)) (down 4 (put4 (fst p2 + 4) p2)))"
    unfolding push_args_def Let_def p2_def p1_def p0_def by simp
  then show ?thesis using p2 by (simp add: pen_ok_down pen_ok_put1 pen_ok_put4)
qed

text \<open>The first write of \<^verbatim>\<open>setup_stack\<close> goes to \<^verbatim>\<open>PHYS_BASE\<close>, the first byte of the kernel's addresses, and the other ones below it.\<close>

definition low :: "pen \<Rightarrow> bool" where
  "low p \<longleftrightarrow> fst p < PHYS_BASE \<and> (\<exists>ws. snd p = (PHYS_BASE, 0) # ws \<and> (\<forall>w \<in> set ws. fst w < PHYS_BASE))"

lemma low_put1: "low p \<Longrightarrow> low (put1 b p)"
  by (auto simp: low_def put1_def)

lemma low_down: "low p \<Longrightarrow> low (down k p)"
  by (auto simp: low_def down_def)

lemma low_put4: "low p \<Longrightarrow> fst p + 4 \<le> PHYS_BASE \<Longrightarrow> low (put4 w p)"
  by (auto simp: low_def put4_def dest!: set_zip_leftD)

lemma low_chars: "low p \<Longrightarrow> low (push_chars s n p)"
  by (induction n arbitrary: p) (simp_all add: low_down low_put1)

lemma low_strings: "low p \<Longrightarrow> low (push_strings args n p)"
  by (induction n arbitrary: p) (simp_all add: low_down low_put1 low_chars)

lemma low_pad: "low p \<Longrightarrow> low (push_pad n p)"
  by (induction n arbitrary: p) (simp_all add: low_down low_put1)

lemma low_ptrs: "low p \<Longrightarrow> fst p + 4 \<le> PHYS_BASE \<Longrightarrow> low (push_ptrs args n ptr p) \<and> fst (push_ptrs args n ptr p) + 4 \<le> PHYS_BASE"
  by (induction n arbitrary: p ptr) (simp_all add: Let_def low_down low_put4)

lemma low_push_args: "low (push_args args)"
proof -
  define p0 where "p0 = push_pad (4 - sum_list (map (\<lambda>a. length a + 1) args) mod 4) (push_strings args (length args) (down 1 (put1 0 (PHYS_BASE, []))))"
  define p1 where "p1 = down 4 (put1 0 (down 3 p0))"
  define p2 where "p2 = push_ptrs args (length args) PHYS_BASE p1"
  have "low (down 1 (put1 0 (PHYS_BASE, [])))" by (simp add: low_def down_def put1_def PHYS_BASE_def)
  then have p0: "low p0" unfolding p0_def by (intro low_pad low_strings)
  then have "fst p0 \<le> PHYS_BASE" by (simp add: low_def)
  moreover have "4 \<le> PHYS_BASE" by (simp add: PHYS_BASE_def)
  ultimately have "fst p1 + 4 \<le> PHYS_BASE" by (simp add: p1_def)
  moreover have "low p1" unfolding p1_def using p0 by (intro low_down low_put1)
  ultimately have p2: "low p2" "fst p2 + 4 \<le> PHYS_BASE" using low_ptrs by (auto simp: p2_def)
  have "4 - sum_list (map (\<lambda>a. length a + 1) args) mod 4 \<noteq> 0" by simp
  then have "push_args args = down 4 (put1 (of_nat (length args)) (down 4 (put4 (fst p2 + 4) p2)))"
    unfolding push_args_def Let_def p2_def p1_def p0_def by simp
  then show ?thesis using p2 by (simp add: low_down low_put1 low_put4)
qed

lemma fold_writes_apart: "(\<And>w. w \<in> set ws \<Longrightarrow> fst w \<noteq> x) \<Longrightarrow> fold (\<lambda>(a, b) m. m(a := b)) ws g x = g x"
  by (induction ws arbitrary: g) (auto simp: split_beta)

lemma fold_push_args_base: "fold (\<lambda>(a, b) m. m(a := b)) (snd (push_args args)) g PHYS_BASE = 0"
proof -
  obtain ws where "snd (push_args args) = (PHYS_BASE, 0) # ws" "\<forall>w \<in> set ws. fst w < PHYS_BASE" using low_push_args [of args] by (auto simp: low_def)
  then show ?thesis using fold_writes_apart [of ws PHYS_BASE "g(PHYS_BASE := 0)"] by fastforce
qed

subsection \<open>Bytes of pages\<close>

lemma byte_of_word: "n < 8 \<Longrightarrow> bit (ucast (drop_bit k (w :: u32)) :: u8) n \<longleftrightarrow> bit w (k + n)"
  by (simp add: bit_simps)

lemma u32_bytes_bytes_u32: "u32_bytes (bytes_u32 a b c d) = [a, b, c, d]"
proof -
  have b: "bit (bytes_u32 a b c d) (0 + n) \<longleftrightarrow> bit a n" "bit (bytes_u32 a b c d) (8 + n) \<longleftrightarrow> bit b n"
    "bit (bytes_u32 a b c d) (16 + n) \<longleftrightarrow> bit c n" "bit (bytes_u32 a b c d) (24 + n) \<longleftrightarrow> bit d n" if "n < 8" for n
    using that bit_imp_le_length [of a] bit_imp_le_length [of b] bit_imp_le_length [of c] bit_imp_le_length [of d]
    by (auto simp: bytes_u32_def bit_simps dest: bit_imp_le_length)
  have "ucast (drop_bit 0 (bytes_u32 a b c d)) = a" "ucast (drop_bit 8 (bytes_u32 a b c d)) = b"
    "ucast (drop_bit 16 (bytes_u32 a b c d)) = c" "ucast (drop_bit 24 (bytes_u32 a b c d)) = d"
    by (rule bit_word_eqI; simp only: len_bit0 len_num1 mult_1_right byte_of_word b)+
  then show ?thesis by (simp add: u32_bytes_def)
qed

lemma entries_bytes:
  assumes "\<And>j. j < 1024 \<Longrightarrow> ent s q j = ent t q j" and "q \<le> x" "x < q + PGSIZE"
  shows "mem s x = mem t x"
proof -
  define j where "j = (x - q) div 4"
  have x: "x = q + 4 * j + (x - q) mod 4" "j < 1024" using assms(2,3) by (simp_all add: j_def PGSIZE_def)
  have "[mem s (q + 4 * j), mem s (q + 4 * j + 1), mem s (q + 4 * j + 2), mem s (q + 4 * j + 3)]
      = [mem t (q + 4 * j), mem t (q + 4 * j + 1), mem t (q + 4 * j + 2), mem t (q + 4 * j + 3)]"
    using arg_cong [OF assms(1) [OF x(2)], of u32_bytes] unfolding rd32_def u32_bytes_bytes_u32 .
  moreover obtain r where "x = q + 4 * j + r" "r < 4" using x(1) by (metis mod_less_divisor zero_less_numeral)
  ultimately show ?thesis by (auto simp: less_Suc_eq numeral_eq_Suc)
qed

lemma in_use_above: "mmu_ok s \<Longrightarrow> in_use s p \<Longrightarrow> PHYS_BASE + PGSIZE \<le> p"
proof -
  assume ok: "mmu_ok s" and p: "in_use s p"
  have b: "pg_no (base (the_pool u (pages s))) > pg_no PHYS_BASE" for u
  proof -
    have "pg_ofs (base (the_pool u (pages s))) = 0" "PHYS_BASE < base (the_pool u (pages s))" using ok by (auto simp: mmu_ok_def pages_wf_def pool_wf_def the_pool_def)
    then have "PHYS_BASE + 4096 \<le> base (the_pool u (pages s))" by (intro aligned_apart) (simp_all add: pg_ofs_def PHYS_BASE_def PGSIZE_def)
    then have "(PHYS_BASE + 4096) div 4096 \<le> base (the_pool u (pages s)) div 4096" by (rule div_le_mono)
    then show ?thesis by (simp add: pg_no_def PGSIZE_def)
  qed
  have "pg_no p \<in> used_of (the_pool False (pages s)) \<union> used_of (the_pool True (pages s))" using p by (auto simp: in_use_def used_pages_def the_pool_def)
  then have "pg_no PHYS_BASE < pg_no p" using b [of False] b [of True] by (auto simp: used_of_def)
  then have "PHYS_BASE < p" unfolding pg_no_def using div_le_mono [of p PHYS_BASE PGSIZE] by linarith
  then have "PHYS_BASE + 4096 \<le> p" using in_useD(2) [OF p] by (intro aligned_apart) (simp_all add: pg_ofs_def PHYS_BASE_def PGSIZE_def)
  then show "PHYS_BASE + PGSIZE \<le> p" by (simp add: PGSIZE_def)
qed

subsection \<open>Free pages\<close>

definition free_pages :: "bool \<Rightarrow> mmu \<Rightarrow> nat set" where
  "free_pages u m = pool_pages (the_pool u (pages m)) - used_pages (pages m)"

text \<open>The memory has all pages that the user pool hands out.\<close>

definition pool_in_ram :: "mmu \<Rightarrow> bool" where
  "pool_in_ram m \<longleftrightarrow> pool_pages (the_pool True (pages m)) \<subseteq> {pg_no PHYS_BASE..<pg_no PHYS_BASE + init_ram_pages m}"

lemma pool_in_ram_same: "pool_in_ram m \<Longrightarrow> same_machine m m' \<Longrightarrow> pool_in_ram m'"
  by (simp add: pool_in_ram_def same_machine_def)

lemma free_units:
  assumes "mmu_ok m"
  shows "free_pages u m = {} \<longleftrightarrow> (\<forall>i < bit_cnt (used_map (the_pool u (pages m))). i \<in> used_units (used_map (the_pool u (pages m))))"
proof -
  let ?p = "the_pool u (pages m)" and ?q = "the_pool (\<not> u) (pages m)"
  have d: "pool_pages ?p \<inter> pool_pages ?q = {}" using assms by (simp add: mmu_ok_def pages_wf_alt [of _ u])
  have "pool_pages ?p \<inter> used_pages (pages m) = used_of ?p"
    using d used_of_pool_pages [of ?p] used_of_pool_pages [of ?q] by (auto simp: used_pages_alt [of _ u])
  then have "free_pages u m = {} \<longleftrightarrow> pool_pages ?p \<subseteq> used_of ?p" by (auto simp: free_pages_def)
  also have "\<dots> \<longleftrightarrow> (\<forall>i < bit_cnt (used_map ?p). pg_no (base ?p) + i \<in> used_of ?p)"
  proof
    assume a: "\<forall>i < bit_cnt (used_map ?p). pg_no (base ?p) + i \<in> used_of ?p"
    show "pool_pages ?p \<subseteq> used_of ?p"
    proof
      fix x assume "x \<in> pool_pages ?p"
      then have "x - pg_no (base ?p) < bit_cnt (used_map ?p)" "pg_no (base ?p) + (x - pg_no (base ?p)) = x" by (auto simp: pool_pages_def)
      with a show "x \<in> used_of ?p" by metis
    qed
  qed (auto simp: pool_pages_def)
  finally show ?thesis by (auto simp: used_of_def)
qed

lemma get_page_free:
  assumes "mmu_ok m" and "flags AND PAL_ASSERT = 0" and u: "u \<longleftrightarrow> flags AND PAL_USER \<noteq> 0"
  obtains (none) "get_page flags m = Some (0, m)" "free_pages u m = {}"
    | (page) p m' where "get_page flags m = Some (p, m')" "p \<noteq> 0" "kernel_page p" "pg_no p \<in> free_pages u m" "mmu_ok m'" "same_machine m m'"
      "used_pages (pages m') = insert (pg_no p) (used_pages (pages m))" "mem m' = (if flags AND PAL_ZERO \<noteq> 0 then fill p 0 PGSIZE (mem m) else mem m)"
proof (rule get_page_cases [OF assms(1,2)])
  assume "get_page flags m = Some (0, m)"
    and "\<And>i. i < bit_cnt (used_map (the_pool (flags AND PAL_USER \<noteq> 0) (pages m))) \<Longrightarrow> i \<in> used_units (used_map (the_pool (flags AND PAL_USER \<noteq> 0) (pages m)))"
  then show thesis using none free_units [OF assms(1)] u by blast
next
  fix p ps
  assume "get_page flags m = Some (p, m\<lparr>pages := ps\<rparr>)" "kernel_page p" "p \<noteq> 0" "pg_no p \<notin> used_pages (pages m)"
      "used_pages ps = insert (pg_no p) (used_pages (pages m))" "mmu_ok (m\<lparr>pages := ps\<rparr>)"
      "ram ps = (if flags AND PAL_ZERO \<noteq> 0 then fill p 0 PGSIZE (mem m) else mem m)"
      "pg_no p \<in> pool_pages (the_pool (flags AND PAL_USER \<noteq> 0) (pages m))"
      "\<And>v. pool_pages (the_pool v ps) = pool_pages (the_pool v (pages m))"
  then show thesis by (intro page [of p "m\<lparr>pages := ps\<rparr>"]) (simp_all add: u free_pages_def same_machine_def)
qed

lemma free_pages_after:
  "same_machine m m' \<Longrightarrow> used_pages (pages m') = insert n (used_pages (pages m)) \<Longrightarrow> free_pages v m' = free_pages v m - {n}"
  by (auto simp: free_pages_def same_machine_def)

lemma free_pages_disjoint: "mmu_ok m \<Longrightarrow> free_pages u m \<inter> free_pages (\<not> u) m = {}"
  by (auto simp: free_pages_def mmu_ok_def pages_wf_alt [of _ u])

subsection \<open>Mapping a page\<close>

lemma page_of_pool_in_ram:
  assumes "mmu_ok m" "pool_in_ram m" "kernel_page k" "pg_no k \<in> pool_pages (the_pool True (pages m))"
  shows "(k - PHYS_BASE) div PGSIZE < init_ram_pages m"
proof -
  have "pg_no k < pg_no PHYS_BASE + init_ram_pages m" using assms(2,4) by (auto simp: pool_in_ram_def)
  moreover have "(k - PHYS_BASE) div PGSIZE = pg_no k - pg_no PHYS_BASE"
    using div_mult_self3 [of PGSIZE 786432 "k - PHYS_BASE"] assms(3)
    by (simp add: pg_no_def kernel_page_def PHYS_BASE_def PGSIZE_def)
  moreover have "pg_no PHYS_BASE \<le> pg_no k" using assms(3) unfolding pg_no_def kernel_page_def by (auto intro: div_le_mono)
  ultimately show ?thesis by linarith
qed

text \<open>
  \<^verbatim>\<open>install_page\<close> of a page that was just allocated: it is mapped, its contents and those of all other mapped pages
  are kept. The states are \<open>m\<close> with the page and \<open>m0\<close> before the allocation.
\<close>

lemma install_cases:
  assumes ok: "mmu_ok m" "dir_full m pd" "pool_in_ram m" and pd: "pd \<noteq> init_page_dir m" and up: "pg_ofs upage = 0" "is_user_vaddr upage"
    and kp: "in_use m kpage" "kpage \<notin> own m pd" "kpage \<notin> frames m pd" "pg_no kpage \<in> pool_pages (the_pool True (pages m))"
  obtains (taken) "install_page pd upage kpage w m = Some (False, m)" "pte m pd upage AND PTE_P \<noteq> 0"
    | (full) "install_page pd upage kpage w m = Some (False, m)" "free_pages False m = {}"
    | (mapped) m' e where "install_page pd upage kpage w m = Some (True, m')" "pte_create_user kpage w = Some e" "mmu_ok m'" "dir_full m' pd"
      "same_machine m m'" "\<And>va. is_user_vaddr va \<Longrightarrow> pte m' pd va = (if pg_no va = pg_no upage then e else pte m pd va)"
      "\<And>q x. in_use m q \<Longrightarrow> q \<notin> own m pd \<Longrightarrow> q \<le> x \<Longrightarrow> x < q + PGSIZE \<Longrightarrow> mem m' x = mem m x"
      "own m' pd \<subseteq> own m pd \<union> {p. \<not> in_use m p}" "used_pages (pages m) \<subseteq> used_pages (pages m')" "pte m pd upage AND PTE_P = 0"
      "frames m' pd = insert kpage (frames m pd)"
proof (cases "pte m pd upage AND PTE_P = 0")
  case False
  have dir: "dir_ok m pd" using ok(2) by (simp add: dir_full_def)
  obtain p where "pte_get_page (pte m pd upage) = Some p" "in_use m p" using ok(2) up(2) False unfolding dir_full_def by blast
  then show thesis using taken False pagedir_get_page_pte [OF dir up(2)] in_useD(3) by (auto simp: install_page_def)
next
  case True
  have dir: "dir_ok m pd" using ok(2) by (simp add: dir_full_def)
  have k: "kernel_page kpage" "(kpage - PHYS_BASE) div PGSIZE < init_ram_pages m"
    using in_useD(1) [OF kp(1)] page_of_pool_in_ram [OF ok(1,3) _ kp(4)] by blast+
  have i: "install_page pd upage kpage w m = pagedir_set_page pd upage kpage w m"
    using pagedir_get_page_pte [OF dir up(2)] True by (simp add: install_page_def)
  show thesis
  proof (rule set_page_cases [OF ok(1) dir pd up k True, of w])
    assume "pagedir_set_page pd upage kpage w m = Some (False, m)"
      and "\<And>i. i < bit_cnt (used_map (kernel_pool (pages m))) \<Longrightarrow> i \<in> used_units (used_map (kernel_pool (pages m)))"
    then show thesis using full i free_units [OF ok(1), of False] by (auto simp: the_pool_def)
  next
    fix m' e
    assume r: "pagedir_set_page pd upage kpage w m = Some (True, m')" and "pte_create_user kpage w = Some e"
      "mmu_ok m'" "dir_ok m' pd" "\<And>va. is_user_vaddr va \<Longrightarrow> pte m' pd va = (if pg_no va = pg_no upage then e else pte m pd va)"
      "own m' pd \<subseteq> own m pd \<union> {p. \<not> in_use m p}" "used_pages (pages m) \<subseteq> used_pages (pages m')" "same_machine m m'"
      and en: "\<And>q j. in_use m q \<Longrightarrow> q \<notin> own m pd \<Longrightarrow> j < 1024 \<Longrightarrow> ent m' q j = ent m q j"
    moreover have "mem m' x = mem m x" if "in_use m q" "q \<notin> own m pd" "q \<le> x" "x < q + PGSIZE" for q x
      using entries_bytes [of m' q m, OF en] that by blast
    ultimately show thesis using True i dir_full_set_page [OF ok(2,1) pd up kp(1-3) k(2) True r] by (intro mapped [of m' e]) auto
  qed
qed

subsection \<open>Writing to the stack page\<close>

text \<open>\<open>stack_at pd k m\<close>: the page below \<^verbatim>\<open>PHYS_BASE\<close> is mapped to \<open>k\<close>, which is none of the pages of the directory.\<close>

definition stack_at :: "nat \<Rightarrow> nat \<Rightarrow> mmu \<Rightarrow> bool" where
  "stack_at pd k m \<longleftrightarrow> mmu_ok m \<and> dir_full m pd \<and> in_use m k \<and> k \<notin> own m pd \<and> pte m pd (PHYS_BASE - PGSIZE) AND PTE_P \<noteq> 0
     \<and> pte_get_page (pte m pd (PHYS_BASE - PGSIZE)) = Some k"

lemma stack_page:
  assumes "PHYS_BASE - PGSIZE \<le> a" "a < PHYS_BASE"
  shows "is_user_vaddr a" "pg_no a = pg_no (PHYS_BASE - PGSIZE)" "pg_ofs a = a - (PHYS_BASE - PGSIZE)" "pte m pd a = pte m pd (PHYS_BASE - PGSIZE)"
proof -
  have a: "a = 4096 * 786431 + (a - 3221221376)" "a - 3221221376 < 4096" using assms by (simp_all add: PHYS_BASE_def PGSIZE_def)
  show "is_user_vaddr a" using assms by (simp add: is_user_vaddr_def)
  show n: "pg_no a = pg_no (PHYS_BASE - PGSIZE)" unfolding pg_no_def PGSIZE_def PHYS_BASE_def by (subst a(1)) (use a(2) in simp)
  have "a mod 4096 = a - 3221221376" by (subst (1) a(1)) (simp only: mod_mult_self4 mod_less [OF a(2)])
  then show "pg_ofs a = a - (PHYS_BASE - PGSIZE)" by (simp add: pg_ofs_def PGSIZE_def PHYS_BASE_def)
  show "pte m pd a = pte m pd (PHYS_BASE - PGSIZE)" using n unfolding page_by_indices pte_def by (auto split: option.split)
qed

text \<open>A change of the memory and of the used pages that keeps the pages of a directory leaves it as it is.\<close>

lemma dir_full_ok: "dir_full m pd \<Longrightarrow> dir_ok m pd"
  by (simp add: dir_full_def)

lemma full_frame:
  assumes full: "dir_full m pd" and us: "used_pages (pages m) \<subseteq> used_pages (pages m')"
    and same: "\<forall>q x. q \<in> own m pd \<and> q \<le> x \<and> x < q + PGSIZE \<longrightarrow> mem m' x = mem m x"
  shows "dir_full m' pd" "own m' pd = own m pd" "is_user_vaddr va \<Longrightarrow> pte m' pd va = pte m pd va" "frames m' pd = frames m pd"
proof -
  have ok: "dir_ok m pd" using full by (simp add: dir_full_def)
  have u: "in_use m q \<Longrightarrow> in_use m' q" for q using us by (auto simp: in_use_def)
  have us': "in_use m' q" if "q \<in> own m pd" for q using u own_in_use [OF ok that] .
  have en: "ent m' q i = ent m q i" if "q \<in> own m pd" "i < 1024" for q i
    using that by (intro rd32_cong same [rule_format, of q]) (auto simp: PGSIZE_def)
  have o: "dir_ok m' pd" "own m' pd = own m pd" "is_user_vaddr va \<Longrightarrow> pte m' pd va = pte m pd va" for va
    by (rule dir_frame [OF ok us'], assumption, erule (1) en, assumption?)+
  then show "own m' pd = own m pd" "is_user_vaddr va \<Longrightarrow> pte m' pd va = pte m pd va" by blast+
  show "frames m' pd = frames m pd" using o(3) by (auto simp: frames_def)
  show "dir_full m' pd" using full o(1) o(3) u unfolding dir_full_def o(2) by (metis (no_types, lifting))
qed

lemma write_byte_frame:
  assumes "dir_full m pd" and "\<forall>q \<in> own m pd. x < q \<or> q + PGSIZE \<le> x" and m': "m' = put_ram ((mem m)(x := b)) m"
  shows "dir_full m' pd" "own m' pd = own m pd" "\<And>va. is_user_vaddr va \<Longrightarrow> pte m' pd va = pte m pd va"
proof -
  have s: "\<forall>q y. q \<in> own m pd \<and> q \<le> y \<and> y < q + PGSIZE \<longrightarrow> mem m' y = mem m y" using assms(2) by (auto simp: m')
  have u: "used_pages (pages m) \<subseteq> used_pages (pages m')" by (simp add: m')
  show "dir_full m' pd" "own m' pd = own m pd" "\<And>va. is_user_vaddr va \<Longrightarrow> pte m' pd va = pte m pd va"
    using full_frame [OF assms(1) u s] by blast+
qed

lemma pages_apart: "pg_ofs p = 0 \<Longrightarrow> pg_ofs q = 0 \<Longrightarrow> p \<noteq> q \<Longrightarrow> p + PGSIZE \<le> q \<or> q + PGSIZE \<le> p"
  using aligned_apart [of p q] aligned_apart [of q p] by (metis PGSIZE_def nat_neq_iff)

text \<open>A page that has just been allocated.\<close>

lemma alloc_frame:
  assumes full: "dir_full m pd" and p: "kernel_page p" "pg_no p \<notin> used_pages (pages m)"
    and us: "used_pages (pages m') = insert (pg_no p) (used_pages (pages m))" and same: "\<forall>x. x < p \<or> p + PGSIZE \<le> x \<longrightarrow> mem m' x = mem m x"
  shows "dir_full m' pd" "own m' pd = own m pd" "\<And>va. is_user_vaddr va \<Longrightarrow> pte m' pd va = pte m pd va" "frames m' pd = frames m pd"
    and "in_use m' p" "p \<notin> own m' pd" "p \<notin> frames m' pd"
proof -
  have ok: "dir_ok m pd" using full by (simp add: dir_full_def)
  have nu: "\<not> in_use m p" using p(2) by (simp add: in_use_def)
  then have no: "p \<notin> own m pd" using own_in_use [OF ok] by blast
  have "mem m' x = mem m x" if "q \<in> own m pd" "q \<le> x" "x < q + PGSIZE" for q x
  proof -
    have "p + PGSIZE \<le> q \<or> q + PGSIZE \<le> p" using no that(1) p(1) in_useD(2) [OF own_in_use [OF ok that(1)]] by (intro pages_apart) (auto simp: kernel_page_def)
    then show ?thesis using that by (intro same [rule_format]) linarith
  qed
  then have s: "\<forall>q x. q \<in> own m pd \<and> q \<le> x \<and> x < q + PGSIZE \<longrightarrow> mem m' x = mem m x" by blast
  have u: "used_pages (pages m) \<subseteq> used_pages (pages m')" using us by blast
  note f = full_frame [OF full u s]
  then show "dir_full m' pd" "own m' pd = own m pd" "\<And>va. is_user_vaddr va \<Longrightarrow> pte m' pd va = pte m pd va" "frames m' pd = frames m pd" by blast+
  show "in_use m' p" using p(1) us by (simp add: in_use_def)
  show "p \<notin> own m' pd" "p \<notin> frames m' pd" using f(2,4) no nu full by (auto simp: frames_def dir_full_def)
qed

lemma vput_stack:
  assumes st: "stack_at pd k m" and a: "PHYS_BASE - PGSIZE \<le> a" "a \<le> PHYS_BASE"
  defines "x \<equiv> if a = PHYS_BASE then a else k + (a - (PHYS_BASE - PGSIZE))"
  shows "vput pd (a, b) m = Some (put_ram ((mem m)(x := b)) m)" and "stack_at pd k (put_ram ((mem m)(x := b)) m)"
    and "is_user_vaddr va \<Longrightarrow> pte (put_ram ((mem m)(x := b)) m) pd va = pte m pd va"
proof -
  have ok: "mmu_ok m" "dir_full m pd" "dir_ok m pd" "in_use m k" "k \<notin> own m pd" using st by (auto simp: stack_at_def dir_full_def)
  have "x < q \<or> q + PGSIZE \<le> x" if "q \<in> own m pd" for q
  proof (cases "a = PHYS_BASE")
    case True
    then show ?thesis using in_use_above [OF ok(1) own_in_use [OF ok(3) that]] by (simp add: x_def PGSIZE_def)
  next
    case False
    then have "k \<le> x" "x < k + PGSIZE" using a by (auto simp: x_def PGSIZE_def PHYS_BASE_def)
    moreover have "k + 4096 \<le> q \<or> q + 4096 \<le> k"
      using aligned_apart [of k q] aligned_apart [of q k] in_useD(2) ok(4,5) own_in_use [OF ok(3) that] that by (metis nat_neq_iff)
    ultimately show ?thesis by (auto simp: PGSIZE_def)
  qed
  then have "\<forall>q \<in> own m pd. x < q \<or> q + PGSIZE \<le> x" by blast
  note w = write_byte_frame [OF ok(2) this refl, where b = b]
  then show "is_user_vaddr va \<Longrightarrow> pte (put_ram ((mem m)(x := b)) m) pd va = pte m pd va" by blast
  have "is_user_vaddr (PHYS_BASE - PGSIZE)" by (simp add: is_user_vaddr_def PHYS_BASE_def PGSIZE_def)
  then show "stack_at pd k (put_ram ((mem m)(x := b)) m)" using st w by (simp add: stack_at_def)
  show "vput pd (a, b) m = Some (put_ram ((mem m)(x := b)) m)"
  proof (cases "a = PHYS_BASE")
    case False
    then have "a < PHYS_BASE" using a by simp
    note p = stack_page [OF a(1) this]
    have "pagedir_get_page pd a m = Some x" using st p False by (simp add: pagedir_get_page_pte [OF ok(3) p(1)] stack_at_def x_def)
    moreover have "x \<noteq> 0" using in_useD(3) [OF ok(4)] False by (simp add: x_def)
    ultimately show ?thesis using p(1) by (simp add: vput_def)
  qed (simp add: vput_def x_def is_user_vaddr_def)
qed

lemma fold_writes_at: "g x = h x \<Longrightarrow> fold (\<lambda>(a, b) m. m(a := b)) ws g x = fold (\<lambda>(a, b) m. m(a := b)) ws h x"
proof (induction ws arbitrary: g h)
  case (Cons w ws)
  obtain a b where w: "w = (a, b)" by (cases w)
  have "(g(a := b)) x = (h(a := b)) x" using Cons.prems by simp
  from Cons.IH [of "g(a := b)" "h(a := b)", OF this] show ?case by (simp only: w fold_simps prod.case)
qed simp

lemma vput_all:
  assumes "stack_at pd k m" and "\<And>w. w \<in> set ws \<Longrightarrow> PHYS_BASE - PGSIZE \<le> fst w \<and> fst w \<le> PHYS_BASE"
  shows "\<exists>m'. foldM (vput pd) ws m = Some m' \<and> stack_at pd k m' \<and> (\<forall>va. is_user_vaddr va \<longrightarrow> pte m' pd va = pte m pd va)
    \<and> (\<forall>a. PHYS_BASE - PGSIZE \<le> a \<and> a < PHYS_BASE \<longrightarrow> mem m' (k + (a - (PHYS_BASE - PGSIZE)))
        = fold (\<lambda>(a, b) m. m(a := b)) ws (\<lambda>a. mem m (k + (a - (PHYS_BASE - PGSIZE)))) a)
    \<and> (\<forall>y. y \<noteq> PHYS_BASE \<and> (y < k \<or> k + PGSIZE \<le> y) \<longrightarrow> mem m' y = mem m y)
    \<and> mem m' PHYS_BASE = fold (\<lambda>(a, b) m. m(a := b)) ws (mem m) PHYS_BASE"
  using assms
proof (induction ws arbitrary: m)
  case (Cons w ws)
  obtain a b where w: "w = (a, b)" by (cases w)
  have a: "PHYS_BASE - PGSIZE \<le> a" "a \<le> PHYS_BASE" using Cons.prems(2) [of w] w by auto
  define x where "x = (if a = PHYS_BASE then a else k + (a - (PHYS_BASE - PGSIZE)))"
  define m1 where "m1 = put_ram ((mem m)(x := b)) m"
  note v = vput_stack [OF Cons.prems(1) a, where b = b, folded x_def, folded m1_def]
  have ws: "PHYS_BASE - PGSIZE \<le> fst u \<and> fst u \<le> PHYS_BASE" if "u \<in> set ws" for u using Cons.prems(2) that by simp
  obtain m' where m': "foldM (vput pd) ws m1 = Some m'" "stack_at pd k m'" "\<And>va. is_user_vaddr va \<Longrightarrow> pte m' pd va = pte m1 pd va"
    "\<And>c. PHYS_BASE - PGSIZE \<le> c \<Longrightarrow> c < PHYS_BASE \<Longrightarrow> mem m' (k + (c - (PHYS_BASE - PGSIZE)))
        = fold (\<lambda>(a, b) m. m(a := b)) ws (\<lambda>a. mem m1 (k + (a - (PHYS_BASE - PGSIZE)))) c"
    "\<And>y. y \<noteq> PHYS_BASE \<and> (y < k \<or> k + PGSIZE \<le> y) \<Longrightarrow> mem m' y = mem m1 y"
    "mem m' PHYS_BASE = fold (\<lambda>(a, b) m. m(a := b)) ws (mem m1) PHYS_BASE"
    using Cons.IH [OF v(2) ws] by blast
  have k: "k \<ge> PHYS_BASE + PGSIZE" using Cons.prems(1) by (intro in_use_above [of m]) (auto simp: stack_at_def)
  have x: "x = PHYS_BASE \<or> k \<le> x \<and> x < k + PGSIZE" using a by (auto simp: x_def PHYS_BASE_def PGSIZE_def)
  have out: "mem m' y = mem m y" if "y \<noteq> PHYS_BASE" "y < k \<or> k + PGSIZE \<le> y" for y
    using m'(5) [of y] x that by (auto simp: m1_def)
  have "mem m1 PHYS_BASE = ((mem m)(a := b)) PHYS_BASE" using k by (auto simp: m1_def x_def PGSIZE_def)
  then have base: "mem m' PHYS_BASE = fold (\<lambda>(a, b) m. m(a := b)) (w # ws) (mem m) PHYS_BASE"
    unfolding m'(6) w fold_simps prod.case by (rule fold_writes_at)
  from k have eq: "mem m1 (k + (c - (PHYS_BASE - PGSIZE))) = ((\<lambda>a. mem m (k + (a - (PHYS_BASE - PGSIZE))))(a := b)) c"
    if "PHYS_BASE - PGSIZE \<le> c" "c < PHYS_BASE" for c
    using that a by (auto simp: m1_def x_def PHYS_BASE_def PGSIZE_def)
  have fo: "fold (\<lambda>(a, b) m. m(a := b)) ws (\<lambda>a. mem m1 (k + (a - (PHYS_BASE - PGSIZE)))) c
      = fold (\<lambda>(a, b) m. m(a := b)) (w # ws) (\<lambda>a. mem m (k + (a - (PHYS_BASE - PGSIZE)))) c"
    if "PHYS_BASE - PGSIZE \<le> c" "c < PHYS_BASE" for c
    unfolding w fold_simps prod.case using eq [OF that] by (rule fold_writes_at)
  have f: "foldM (vput pd) (w # ws) m = Some m'" using v(1) m'(1) w by simp
  show ?case
    by (rule exI [of _ m'], intro conjI allI impI; (elim conjE)?) (use f m'(2,3) v(3) m'(4) fo out base in \<open>simp_all only:\<close>)
qed simp


lemma stack_page_mapped:
  assumes ok: "mmu_ok m" "dir_full m pd" "pool_in_ram m" and pd: "pd \<noteq> init_page_dir m"
    and new: "pte m pd (PHYS_BASE - PGSIZE) AND PTE_P = 0"
    and mem_free: "free_pages True m \<noteq> {}" "p \<in> free_pages False m" "q \<in> free_pages False m" "p \<noteq> q"
  obtains ap m1 k m2 m3 where "get_page 0 m = Some (ap, m1)" "ap \<noteq> 0" "get_page (PAL_USER OR PAL_ZERO) m1 = Some (k, m2)" "k \<noteq> 0"
    "install_page pd (PHYS_BASE - PGSIZE) k True m2 = Some (True, m3)" "stack_at pd k m3" "\<And>x. k \<le> x \<Longrightarrow> x < k + PGSIZE \<Longrightarrow> mem m3 x = 0"
    "\<And>va. is_user_vaddr va \<Longrightarrow> pg_no va \<noteq> pg_no (PHYS_BASE - PGSIZE) \<Longrightarrow> pte m3 pd va = pte m pd va"
    "\<And>q x. in_use m q \<Longrightarrow> q \<notin> own m pd \<Longrightarrow> q \<le> x \<Longrightarrow> x < q + PGSIZE \<Longrightarrow> mem m3 x = mem m x \<and> (x < k \<or> k + PGSIZE \<le> x)"
proof -
  let ?up = "PHYS_BASE - PGSIZE"
  have flags: "0 AND PAL_ASSERT = 0" "False \<longleftrightarrow> 0 AND PAL_USER \<noteq> (0 :: u32)" "(PAL_USER OR PAL_ZERO) AND PAL_ASSERT = 0" "True \<longleftrightarrow> (PAL_USER OR PAL_ZERO) AND PAL_USER \<noteq> 0"
    "(PAL_USER OR PAL_ZERO) AND PAL_ZERO \<noteq> 0" by (simp_all add: PAL_ASSERT_def PAL_USER_def PAL_ZERO_def)
  have up: "pg_ofs ?up = 0" "is_user_vaddr ?up" by (simp_all add: pg_ofs_def is_user_vaddr_def PHYS_BASE_def PGSIZE_def)
  obtain ap m1 where g1: "get_page 0 m = Some (ap, m1)" "ap \<noteq> 0" "kernel_page ap" "pg_no ap \<in> free_pages False m" "mmu_ok m1" "same_machine m m1"
    "used_pages (pages m1) = insert (pg_no ap) (used_pages (pages m))" "mem m1 = mem m"
    by (rule get_page_free [OF ok(1) flags(1,2)]) (use mem_free(2) in auto)
  have f1: "free_pages True m1 = free_pages True m" "free_pages False m1 \<noteq> {}"
    using free_pages_after [OF g1(6,7)] free_pages_disjoint [OF ok(1), of True] g1(4) mem_free by auto
  have n1: "pg_no ap \<notin> used_pages (pages m)" "\<forall>x. x < ap \<or> ap + PGSIZE \<le> x \<longrightarrow> mem m1 x = mem m x" using g1(4,8) by (simp_all add: free_pages_def)
  note d1 = alloc_frame [OF ok(2) g1(3) n1(1) g1(7) n1(2)]
  obtain k m2 where g2: "get_page (PAL_USER OR PAL_ZERO) m1 = Some (k, m2)" "k \<noteq> 0" "kernel_page k" "pg_no k \<in> free_pages True m1" "mmu_ok m2" "same_machine m1 m2"
    "used_pages (pages m2) = insert (pg_no k) (used_pages (pages m1))" "mem m2 = fill k 0 PGSIZE (mem m1)"
    by (rule get_page_free [OF g1(5) flags(3,4)]) (use mem_free(1) f1 flags(5) in auto)
  have n2: "pg_no k \<notin> used_pages (pages m1)" using g2(4) by (simp add: free_pages_def)
  have s2: "\<forall>x. x < k \<or> k + PGSIZE \<le> x \<longrightarrow> mem m2 x = mem m1 x" by (auto simp: g2(8) fill_def)
  note d2 = alloc_frame [OF d1(1) g2(3) n2 g2(7) s2]
  have f2: "free_pages False m2 \<noteq> {}" using free_pages_after [OF g2(6,7)] free_pages_disjoint [OF g1(5), of True] g2(4) f1 by auto
  have sm: "same_machine m m2" using same_machine_trans [OF g1(6) g2(6)] .
  have kp: "pg_no k \<in> pool_pages (the_pool True (pages m2))" using g2(4,6) by (auto simp: free_pages_def same_machine_def)
  have new2: "pte m2 pd ?up AND PTE_P = 0" using new d1(3) [OF up(2)] d2(3) [OF up(2)] by simp
  have pd2: "pd \<noteq> init_page_dir m2" using pd sm by (simp add: same_machine_def)
  obtain m3 e where i: "install_page pd ?up k True m2 = Some (True, m3)" "pte_create_user k True = Some e" "mmu_ok m3" "dir_full m3 pd"
      "\<And>va. is_user_vaddr va \<Longrightarrow> pte m3 pd va = (if pg_no va = pg_no ?up then e else pte m2 pd va)"
      "\<And>q x. in_use m2 q \<Longrightarrow> q \<notin> own m2 pd \<Longrightarrow> q \<le> x \<Longrightarrow> x < q + PGSIZE \<Longrightarrow> mem m3 x = mem m2 x"
      "own m3 pd \<subseteq> own m2 pd \<union> {p. \<not> in_use m2 p}" "used_pages (pages m2) \<subseteq> used_pages (pages m3)"
    by (rule install_cases [OF g2(5) d2(1) pool_in_ram_same [OF ok(3) sm] pd2 up d2(5-7) kp, of True])
      (use new2 f2 in auto)
  note c = pte_get_create [OF g2(3) i(2)]
  have st: "stack_at pd k m3" using i c d2(5,6) up(2) by (auto simp: stack_at_def in_use_def)
  have "mem m3 x = 0" if "k \<le> x" "x < k + PGSIZE" for x using i(6) [OF d2(5,6)] that by (simp add: g2(8) fill_def)
  moreover have "pte m3 pd va = pte m pd va" if "is_user_vaddr va" "pg_no va \<noteq> pg_no ?up" for va
    using i(5) [OF that(1)] d1(3) [OF that(1)] d2(3) [OF that(1)] that(2) by simp
  moreover have "mem m3 x = mem m x \<and> (x < k \<or> k + PGSIZE \<le> x)" if q: "in_use m q" "q \<notin> own m pd" "q \<le> x" "x < q + PGSIZE" for q x
  proof -
    have u: "in_use m1 q" "in_use m2 q" "q \<notin> own m2 pd" using q(1,2) g1(7) g2(7) d1(2) d2(2) by (auto simp: in_use_def)
    have "q \<noteq> k" using u(1) n2 by (auto simp: in_use_def)
    then have "k + PGSIZE \<le> q \<or> q + PGSIZE \<le> k" using in_useD(2) [OF u(1)] g2(3) by (intro pages_apart) (auto simp: kernel_page_def)
    then have out: "x < k \<or> k + PGSIZE \<le> x" using q(3,4) by linarith
    then show ?thesis using i(6) [OF u(2,3) q(3,4)] s2 g1(8) by simp
  qed
  ultimately show thesis using that g1(1,2) g2(1,2) i(1) st by blast
qed

subsection \<open>Properties\<close>

lemma stack_at_image:
  assumes st: "stack_at pd k m" and k: "k \<noteq> 0" and sz: "stack_size args \<le> PGSIZE" and few: "length args < 256"
    and pens: "\<And>a. PHYS_BASE - PGSIZE \<le> a \<Longrightarrow> a < PHYS_BASE \<Longrightarrow> mem m (k + (a - (PHYS_BASE - PGSIZE))) = pen_mem (push_args args) a"
    and j: "j < stack_size args"
  shows "\<exists>x. pagedir_get_page pd (PHYS_BASE - stack_size args + j) m = Some x \<and> x \<noteq> 0 \<and> mem m x = stack_image args ! j"
proof -
  let ?up = "PHYS_BASE - PGSIZE" and ?a = "PHYS_BASE - stack_size args + j"
  have big: "PGSIZE \<le> PHYS_BASE" by (simp add: PHYS_BASE_def PGSIZE_def)
  have fits: "stack_size args \<le> PHYS_BASE" using sz big by linarith
  have a: "?up \<le> ?a" "?a < PHYS_BASE" using j sz fits by linarith+
  note p = stack_page [OF a]
  have "dir_ok m pd" using st by (auto simp: stack_at_def dir_full_def)
  then have "pagedir_get_page pd ?a m = Some (k + (?a - ?up))" using st p by (simp add: pagedir_get_page_pte [OF _ p(1)] stack_at_def)
  then show ?thesis using pens [OF a] push_args_image(2) [OF fits few j] k by simp
qed


lemma demo_pools: "pool_in_ram demo_mmu" "free_pages True demo_mmu \<noteq> {}" "786690 \<in> free_pages False demo_mmu" "786691 \<in> free_pages False demo_mmu"
proof -
  have k: "\<not> bit (3 :: u32) 2" "\<not> bit (3 :: u32) 3" "\<not> bit (1 :: u32) 1" by (simp_all add: bit_iff_odd)
  have n: "pg_no 3222274048 = 786688" "pg_no 3223322624 = 786944" by (simp_all add: pg_no_def PGSIZE_def)
  have p: "pool_pages (the_pool True (pages demo_mmu)) = {786944..<786946}" "pool_pages (the_pool False (pages demo_mmu)) = {786688..<786692}"
    by (simp_all add: pool_pages_def the_pool_def demo_mmu_def n)
  then show "pool_in_ram demo_mmu" by (auto simp: pool_in_ram_def demo_mmu_def pg_no_def PHYS_BASE_def PGSIZE_def)
  have u: "x \<in> used_pages (pages demo_mmu) \<longleftrightarrow> (\<exists>i < 4. x = 786688 + i \<and> bit (3 :: u32) i) \<or> (\<exists>i < 2. x = 786944 + i \<and> bit (1 :: u32) i)" for x
    by (auto simp: used_pages_def used_of_def demo_mmu_def n used_units_def nth_bits_of)
  show "786690 \<in> free_pages False demo_mmu" "786691 \<in> free_pages False demo_mmu" using k by (auto simp: free_pages_def p u)
  have "786945 \<in> free_pages True demo_mmu" using k by (auto simp: free_pages_def p u)
  then show "free_pages True demo_mmu \<noteq> {}" by blast
qed


subsection \<open>Too many words\<close>

text \<open>With more than 100 words \<^verbatim>\<open>setup_stack\<close> says that it succeeded, but there is no stack and \<^verbatim>\<open>esp\<close> is not set.\<close>

lemma many_words_no_stack:
  "100 < length (tokens {32} cmd_line) \<Longrightarrow> get_page 0 m = Some (p, m1) \<Longrightarrow> p \<noteq> 0 \<Longrightarrow> setup_stack pd cmd_line m = Some (True, None, m1)"
  by (simp add: setup_stack_def)

end
