(* ===== verification/Segment.thy ===== *)
theory Segment
  imports Process
begin

unbundle bit_operations_syntax

text \<open>
  The segments of an executable: which headers \<^verbatim>\<open>validate_segment\<close> of \<^verbatim>\<open>userprog/process.c\<close> accepts, that \<^verbatim>\<open>load\<close> and \<^verbatim>\<open>load_segment\<close> put a
  segment into the address space byte for byte and fill it up with zeros, and that no file, whatever
  its contents, makes the loop over the headers panic.
\<close>

subsection \<open>The check of a segment\<close>

lemma u32_less: "unat (w :: u32) < 2 ^ 32"
  using unsigned_less [of w] by simp

lemma and_PGMASK: "unat (w AND PGMASK) = unat w mod 4096"
proof -
  have "w AND PGMASK = take_bit 12 w" by (simp add: PGMASK_def take_bit_eq_mask mask_eq_exp_minus_1)
  then show ?thesis by (simp add: unsigned_take_bit_eq take_bit_eq_mod unat_mod)
qed

lemma and_not_PGMASK: "unat (w AND NOT PGMASK) = unat w - unat w mod 4096"
proof -
  have "(w AND NOT PGMASK) AND (w AND PGMASK) = 0" by (simp add: bit_eq_iff bit_simps)
  then have "(w AND NOT PGMASK) + (w AND PGMASK) = (w AND NOT PGMASK) OR (w AND PGMASK)" by (rule disjunctive_add_eq_or)
  also have "\<dots> = w" by (auto simp: bit_eq_iff bit_simps)
  finally have "w AND NOT PGMASK = w - (w AND PGMASK)" by (simp add: eq_diff_eq)
  moreover have "w AND PGMASK \<le> w" using mod_less_eq_dividend [of "unat w" 4096] by (simp add: word_le_nat_alt and_PGMASK)
  ultimately show ?thesis by (simp add: unat_sub_if' and_PGMASK word_le_nat_alt)
qed

lemma validate_segment_eq:
  assumes "file_len < 2 ^ 32"
  shows "validate_segment phdr file_len \<longleftrightarrow>
    0 < unat (p_memsz phdr) \<and> unat (p_filesz phdr) \<le> unat (p_memsz phdr)
    \<and> unat (p_offset phdr) \<le> file_len \<and> unat (p_offset phdr) mod PGSIZE = unat (p_vaddr phdr) mod PGSIZE
    \<and> PGSIZE \<le> unat (p_vaddr phdr) \<and> unat (p_vaddr phdr) + unat (p_memsz phdr) < PHYS_BASE"
proof -
  let ?a = "p_vaddr phdr" and ?n = "p_memsz phdr"
  have len: "p_offset phdr > of_nat file_len \<longleftrightarrow> \<not> unat (p_offset phdr) \<le> file_len"
    using assms by (auto simp: word_less_nat_alt unat_of_nat)
  have mask: "p_offset phdr AND PGMASK = ?a AND PGMASK \<longleftrightarrow> unat (p_offset phdr) mod PGSIZE = unat ?a mod PGSIZE"
    by (simp add: word_unat_eq_iff and_PGMASK PGSIZE_def)
  have wrap: "\<not> (?a + ?n < ?a) \<and> unat (?a + ?n) < PHYS_BASE \<and> unat ?a < PHYS_BASE \<longleftrightarrow> unat ?a + unat ?n < PHYS_BASE"
  proof (cases "unat ?a + unat ?n < 2 ^ 32")
    case True
    then have "unat (?a + ?n) = unat ?a + unat ?n" by (simp add: unat_word_ariths)
    then show ?thesis by (auto simp: word_less_nat_alt)
  next
    case False
    then have "unat (?a + ?n) = unat ?a + unat ?n - 2 ^ 32"
      using u32_less [of ?a] u32_less [of ?n] by (simp add: unat_word_ariths le_mod_geq)
    then have "?a + ?n < ?a" using False u32_less [of ?n] by (simp add: word_less_nat_alt)
    then show ?thesis using False by (simp add: PHYS_BASE_def)
  qed
  have "validate_segment phdr file_len \<longleftrightarrow> p_offset phdr AND PGMASK = ?a AND PGMASK \<and> \<not> p_offset phdr > of_nat file_len
    \<and> \<not> ?n < p_filesz phdr \<and> ?n \<noteq> 0 \<and> PGSIZE \<le> unat ?a \<and> (\<not> (?a + ?n < ?a) \<and> unat (?a + ?n) < PHYS_BASE \<and> unat ?a < PHYS_BASE)"
    by (auto simp: validate_segment_def is_user_vaddr_def)
  then show ?thesis unfolding len mask wrap by (auto simp: word_less_nat_alt not_less unat_eq_0 unat_gt_0)
qed

text \<open>
  \<^verbatim>\<open>validate_segment\<close> accepts a program header exactly if the segment is not empty, its bytes in the file are not more
  than its bytes in memory, its start in the file is within the file and at the same offset of a page as its
  address, and its addresses are above the first page and below \<^verbatim>\<open>PHYS_BASE\<close>; the sum of the address and the size
  wraps around at 32 bits, but nothing that wraps around is accepted.
\<close>

theorem validate_segment_iff:
  assumes "file_len < 2 ^ 32"
  shows "validate_segment phdr file_len \<longleftrightarrow>
    0 < unat (p_memsz phdr) \<and> unat (p_filesz phdr) \<le> unat (p_memsz phdr)
    \<and> unat (p_offset phdr) \<le> file_len \<and> unat (p_offset phdr) mod PGSIZE = unat (p_vaddr phdr) mod PGSIZE
    \<and> PGSIZE \<le> unat (p_vaddr phdr) \<and> unat (p_vaddr phdr) + unat (p_memsz phdr) < PHYS_BASE"
  using assms by (rule validate_segment_eq)

subsection \<open>Loading a segment\<close>

text \<open>The address space as a program sees it: the byte at an address, if the page is mapped.\<close>

definition ubyte :: "mmu \<Rightarrow> nat \<Rightarrow> nat \<Rightarrow> u8 option" where
  "ubyte m pd va = (if pte m pd va AND PTE_P = 0 then None else map_option (\<lambda>p. mem m (p + pg_ofs va)) (pte_get_page (pte m pd va)))"

text \<open>The bytes \<open>bs\<close> are mapped at \<open>a\<close>, writable or not, and the rest of the address space is as before.\<close>

definition region :: "nat \<Rightarrow> nat \<Rightarrow> u8 list \<Rightarrow> bool \<Rightarrow> mmu \<Rightarrow> mmu \<Rightarrow> bool" where
  "region pd a bs w m m' \<longleftrightarrow> (\<forall>va. is_user_vaddr va \<longrightarrow>
     (if a \<le> va \<and> va < a + length bs then ubyte m' pd va = Some (bs ! (va - a)) \<and> (pte m' pd va AND PTE_W \<noteq> 0 \<longleftrightarrow> w)
      else ubyte m' pd va = ubyte m pd va \<and> pte m' pd va = pte m pd va))"

text \<open>What the loader needs of the memory and the directory of the new process.\<close>

definition loader_ok :: "mmu \<Rightarrow> nat \<Rightarrow> bool" where
  "loader_ok m pd \<longleftrightarrow> mmu_ok m \<and> dir_full m pd \<and> pool_in_ram m \<and> pd \<noteq> init_page_dir m"

lemma frame_of:
  assumes "dir_full m pd" "is_user_vaddr va" "pte m pd va AND PTE_P \<noteq> 0"
  obtains p where "pte_get_page (pte m pd va) = Some p" "in_use m p" "p \<notin> own m pd" "p \<in> frames m pd"
  using assms unfolding dir_full_def frames_def by blast

text \<open>A change outside of the pages in use.\<close>

lemma outside:
  assumes ok: "loader_ok m pd" and m': "mmu_ok m'" "same_machine m m'" "used_pages (pages m) \<subseteq> used_pages (pages m')"
    and k: "kernel_page k" "pg_no k \<notin> used_pages (pages m)" and same: "\<forall>x. x < k \<or> k + PGSIZE \<le> x \<longrightarrow> mem m' x = mem m x"
  shows "loader_ok m' pd" "own m' pd = own m pd" "frames m' pd = frames m pd" "\<forall>va. is_user_vaddr va \<longrightarrow> pte m' pd va = pte m pd va \<and> ubyte m' pd va = ubyte m pd va"
proof -
  have full: "dir_full m pd" and dir: "dir_ok m pd" using ok by (auto simp: loader_ok_def dir_full_def)
  have s: "mem m' x = mem m x" if q: "in_use m q" "q \<le> x" "x < q + PGSIZE" for q x
  proof -
    have "q \<noteq> k" using q(1) k(2) in_useD(4) by blast
    then have "k + PGSIZE \<le> q \<or> q + PGSIZE \<le> k" using k(1) in_useD(2) [OF q(1)] by (intro pages_apart) (auto simp: kernel_page_def)
    then show ?thesis using q(2,3) by (intro same [rule_format]) linarith
  qed
  then have o: "\<forall>q x. q \<in> own m pd \<and> q \<le> x \<and> x < q + PGSIZE \<longrightarrow> mem m' x = mem m x" using own_in_use [OF dir] by blast
  note f = full_frame [OF full m'(3) o]
  then show "own m' pd = own m pd" "frames m' pd = frames m pd" by blast+
  show "loader_ok m' pd" using ok f(1) m' pool_in_ram_same [OF _ m'(2)] by (auto simp: loader_ok_def same_machine_def)
  show "\<forall>va. is_user_vaddr va \<longrightarrow> pte m' pd va = pte m pd va \<and> ubyte m' pd va = ubyte m pd va"
  proof (intro allI impI conjI)
    fix va assume va: "is_user_vaddr va"
    show p: "pte m' pd va = pte m pd va" using f(3) va by blast
    show "ubyte m' pd va = ubyte m pd va"
    proof (cases "pte m pd va AND PTE_P = 0")
      case False
      then obtain q where q: "pte_get_page (pte m pd va) = Some q" "in_use m q" using frame_of [OF full va] by blast
      moreover have "pg_ofs va < PGSIZE" by (simp add: pg_ofs_def PGSIZE_def)
      ultimately have "mem m' (q + pg_ofs va) = mem m (q + pg_ofs va)" by (intro s [of q]) auto
      then show ?thesis using q(1) by (simp add: ubyte_def p)
    qed (simp add: ubyte_def p)
  qed
qed

lemma released:
  assumes m: "mmu_ok m1" "same_machine m m1" "used_pages (pages m1) = insert (pg_no k) (used_pages (pages m))" "in_use m1 k"
    "\<forall>x. x < k \<or> k + PGSIZE \<le> x \<longrightarrow> mem m1 x = mem m x" and k: "pg_no k \<notin> used_pages (pages m)"
  obtains m2 where "free_page k m1 = Some m2" "mmu_ok m2" "same_machine m m2" "used_pages (pages m2) = used_pages (pages m)"
    "\<forall>x. x < k \<or> k + PGSIZE \<le> x \<longrightarrow> mem m2 x = mem m x"
proof (rule free_page_eq [OF m(1,4)])
  fix ps
  assume "free_page k m1 = Some (m1\<lparr>pages := ps\<rparr>)" "mmu_ok (m1\<lparr>pages := ps\<rparr>)" "used_pages ps = used_pages (pages m1) - {pg_no k}"
    "ram ps = fill k 0xcc PGSIZE (mem m1)" "\<And>v. pool_pages (the_pool v ps) = pool_pages (the_pool v (pages m1))"
  then show thesis using m k by (intro that [of "m1\<lparr>pages := ps\<rparr>"]) (auto simp: same_machine_def fill_def)
qed

text \<open>The address space after the mapping of a page.\<close>

lemma in_page:
  assumes "pg_ofs p = 0"
  shows "pg_no va = pg_no p \<longleftrightarrow> p \<le> va \<and> va < p + PGSIZE" and "pg_no va = pg_no p \<Longrightarrow> pg_ofs va = va - p"
proof -
  have p: "p = PGSIZE * pg_no p" using assms div_mult_mod_eq [of p PGSIZE] by (simp add: pg_ofs_def pg_no_def mult.commute)
  have va: "va = PGSIZE * pg_no va + pg_ofs va" "pg_ofs va < PGSIZE" by (simp_all add: pg_ofs_def pg_no_def) (simp add: PGSIZE_def)
  show o: "pg_no va = pg_no p \<Longrightarrow> pg_ofs va = va - p" using p va by simp
  show "pg_no va = pg_no p \<longleftrightarrow> p \<le> va \<and> va < p + PGSIZE"
  proof
    assume "p \<le> va \<and> va < p + PGSIZE"
    then have "pg_no p * PGSIZE \<le> va" "va < (pg_no p + 1) * PGSIZE" using p by (simp_all add: algebra_simps)
    then show "pg_no va = pg_no p" unfolding pg_no_def by (intro div_nat_eqI) (simp_all add: mult.commute)
  qed (use p va o in auto)
qed

lemma new_page_seen:
  assumes ok: "mmu_ok m" "dir_full m pd" and up: "pg_ofs upage = 0" and k: "k \<notin> own m pd" "in_use m k" "kernel_page k" and e: "pte_create_user k w = Some e"
    and p: "\<forall>va. is_user_vaddr va \<longrightarrow> pte m' pd va = (if pg_no va = pg_no upage then e else pte m pd va)"
    and keep: "\<forall>q x. in_use m q \<and> q \<notin> own m pd \<and> q \<le> x \<and> x < q + PGSIZE \<longrightarrow> mem m' x = mem m x"
    and bs: "length bs = PGSIZE" "\<And>j. j < PGSIZE \<Longrightarrow> mem m (k + j) = bs ! j"
  shows "region pd upage bs w m m'"
  unfolding region_def bs(1) in_page(1) [OF up, symmetric]
proof (intro allI impI)
  fix va assume va: "is_user_vaddr va"
  note c = pte_get_create [OF k(3) e]
  have ofs: "pg_ofs va < PGSIZE" by (simp add: pg_ofs_def PGSIZE_def)
  note pva = p [rule_format, OF va]
  show "if pg_no va = pg_no upage then ubyte m' pd va = Some (bs ! (va - upage)) \<and> (pte m' pd va AND PTE_W \<noteq> 0 \<longleftrightarrow> w)
      else ubyte m' pd va = ubyte m pd va \<and> pte m' pd va = pte m pd va"
  proof (cases "pg_no va = pg_no upage \<or> pte m pd va AND PTE_P = 0")
    case True
    have "mem m' (k + pg_ofs va) = bs ! pg_ofs va" using keep [rule_format, of k "k + pg_ofs va"] k(1,2) ofs bs(2) by auto
    then show ?thesis using True pva c in_page(2) [OF up, of va] by (auto simp: ubyte_def)
  next
    case False
    then obtain q where "pte_get_page (pte m pd va) = Some q" "in_use m q" "q \<notin> own m pd" using frame_of [OF ok(2) va] by blast
    then show ?thesis using False pva keep [rule_format, of q "q + pg_ofs va"] ofs by (simp add: ubyte_def)
  qed
qed

lemma region_trans:
  assumes "region pd a bs w m m1" and "region pd (a + length bs) cs w m1 m2"
  shows "region pd a (bs @ cs) w m m2"
  unfolding region_def
proof (intro allI impI)
  fix va assume va: "is_user_vaddr va"
  note 1 = assms(1) [unfolded region_def, rule_format, OF va] and 2 = assms(2) [unfolded region_def, rule_format, OF va]
  consider "va < a \<or> a + length bs + length cs \<le> va" | "a \<le> va" "va < a + length bs" | "a + length bs \<le> va" "va < a + length bs + length cs" by linarith
  then show "if a \<le> va \<and> va < a + length (bs @ cs) then ubyte m2 pd va = Some ((bs @ cs) ! (va - a)) \<and> (pte m2 pd va AND PTE_W \<noteq> 0 \<longleftrightarrow> w)
      else ubyte m2 pd va = ubyte m pd va \<and> pte m2 pd va = pte m pd va"
  proof cases
    case 3
    then have "va - a = length bs + (va - (a + length bs))" "\<not> va < a + length bs" by linarith+
    then have "(bs @ cs) ! (va - a) = cs ! (va - (a + length bs))" by (simp only: nth_append_length_plus)
    then show ?thesis using 2 3 by simp
  qed (use 1 2 in \<open>auto simp: nth_append split: if_splits\<close>)
qed

text \<open>The bytes of a segment: \<open>r\<close> from the file, then \<open>z\<close> zeros.\<close>

definition seg_bytes :: "u8 list \<Rightarrow> nat \<Rightarrow> nat \<Rightarrow> nat \<Rightarrow> u8 list" where
  "seg_bytes c ofs r z = take r (drop ofs c) @ replicate z 0"

lemma seg_bytes_page:
  assumes "n = (if r < PGSIZE then r else PGSIZE)" "PGSIZE \<le> r + z" "r = 0 \<or> ofs + r \<le> length c"
  shows "seg_bytes c ofs r z = seg_bytes c ofs n (PGSIZE - n) @ seg_bytes c (ofs + n) (r - n) (z - (PGSIZE - n))"
proof (cases "r < PGSIZE")
  case True
  then have "z = (PGSIZE - n) + (z - (PGSIZE - n))" using assms by simp
  then have "replicate z (0 :: u8) = replicate (PGSIZE - n) 0 @ replicate (z - (PGSIZE - n)) 0" by (metis replicate_add)
  then show ?thesis using True assms(1) by (simp add: seg_bytes_def)
next
  case False
  have "take r (drop ofs c) = take PGSIZE (drop ofs c) @ take (r - PGSIZE) (drop (ofs + PGSIZE) c)"
    using take_add [of PGSIZE "r - PGSIZE" "drop ofs c"] False by (simp add: add.commute)
  then show ?thesis using False assms(1) by (simp add: seg_bytes_def)
qed

text \<open>One page: it is loaded, or the memory is exhausted, the file is too short, or the page is mapped already.\<close>

lemma load_page_cases:
  assumes ok: "loader_ok (mm s) pd" "file_ok (fsy s) f" and up: "pg_ofs upage = 0" "is_user_vaddr upage" and n: "n \<le> PGSIZE"
  obtains (fail) f' s' where "load_page pd f upage n w s = Some (False, f', s')" "loader_ok (mm s') pd" "fsy s' = fsy s"
      "free_pages True (mm s') = {} \<or> free_pages False (mm s') = {} \<or> length (file_contents (fsy s) f) < pos f + n \<or> pte (mm s) pd upage AND PTE_P \<noteq> 0"
    | (loaded) s' where "load_page pd f upage n w s = Some (True, f\<lparr>pos := pos f + n\<rparr>, s')" "loader_ok (mm s') pd" "fsy s' = fsy s"
      "n = 0 \<or> pos f + n \<le> length (file_contents (fsy s) f)"
      "region pd upage (seg_bytes (file_contents (fsy s) f) (pos f) n (PGSIZE - n)) w (mm s) (mm s')"
proof -
  let ?m = "mm s" and ?c = "file_contents (fsy s) f"
  have flags: "PAL_USER AND PAL_ASSERT = 0" "True \<longleftrightarrow> PAL_USER AND PAL_USER \<noteq> 0" "PAL_USER AND PAL_ZERO = 0"
    by (simp_all add: PAL_ASSERT_def PAL_USER_def PAL_ZERO_def)
  have mok: "mmu_ok ?m" using ok(1) by (simp add: loader_ok_def)
  show thesis
  proof (rule get_page_free [OF mok flags(1,2)])
    assume "get_page PAL_USER ?m = Some (0, ?m)" "free_pages True ?m = {}"
    then show thesis using ok(1) by (intro fail [of f s]) (simp_all add: load_page_def)
  next
    fix k m1
    assume g: "get_page PAL_USER ?m = Some (k, m1)" "k \<noteq> 0" "kernel_page k" "pg_no k \<in> free_pages True ?m" "mmu_ok m1" "same_machine ?m m1"
      "used_pages (pages m1) = insert (pg_no k) (used_pages (pages ?m))" "mem m1 = (if PAL_USER AND PAL_ZERO \<noteq> 0 then fill k 0 PGSIZE (mem ?m) else mem ?m)"
    have nk: "pg_no k \<notin> used_pages (pages ?m)" using g(4) by (simp add: free_pages_def)
    define bs where "bs = take n (drop (pos f) ?c)"
    have rd: "file_read (fsy s) f n = Some (bs, f\<lparr>pos := pos f + length bs\<rparr>)" using file_read_eq [OF ok(2)] by (simp add: bs_def min.commute)
    have lb: "length bs \<le> n" by (simp add: bs_def)
    define m2 where "m2 = put_ram (copy_in k bs (mem m1)) m1"
    have m2: "mmu_ok m2" "same_machine ?m m2" "used_pages (pages m2) = insert (pg_no k) (used_pages (pages ?m))" "in_use m2 k"
      "\<forall>x. x < k \<or> k + PGSIZE \<le> x \<longrightarrow> mem m2 x = mem ?m x"
      using g lb n flags(3) by (auto simp: m2_def in_use_def copy_in_def)
    show thesis
    proof (cases "length bs = n")
      case False
      obtain m3 where m3: "free_page k m2 = Some m3" "mmu_ok m3" "same_machine ?m m3" "used_pages (pages m3) = used_pages (pages ?m)"
        "\<forall>x. x < k \<or> k + PGSIZE \<le> x \<longrightarrow> mem m3 x = mem ?m x"
        by (rule released [OF m2 nk])
      have "length ?c < pos f + n" using False by (auto simp: bs_def)
      moreover have "load_page pd f upage n w s = Some (False, f\<lparr>pos := pos f + length bs\<rparr>, s\<lparr>mm := m3\<rparr>)"
        using g(1,2) rd False m3(1) by (simp add: load_page_def Let_def m2_def)
      ultimately show thesis using outside(1) [OF ok(1) m3(2,3) _ g(3) nk m3(5)] m3(4) by (intro fail [of _ "s\<lparr>mm := m3\<rparr>"]) simp_all
    next
      case True
      define m3 where "m3 = put_ram (fill (k + n) 0 (PGSIZE - n) (mem m2)) m2"
      have m3: "mmu_ok m3" "same_machine ?m m3" "used_pages (pages m3) = insert (pg_no k) (used_pages (pages ?m))" "in_use m3 k"
        "\<forall>x. x < k \<or> k + PGSIZE \<le> x \<longrightarrow> mem m3 x = mem ?m x"
        using m2 n by (auto simp: m3_def fill_def)
      have u3: "used_pages (pages ?m) \<subseteq> used_pages (pages m3)" using m3(3) by blast
      note o = outside [OF ok(1) m3(1,2) u3 g(3) nk m3(5)]
      have al: "k \<notin> own m3 pd" "k \<notin> frames m3 pd" using alloc_frame(6,7) [OF _ g(3) nk m3(3,5)] ok(1) by (auto simp: loader_ok_def)
      have kp: "pg_no k \<in> pool_pages (the_pool True (pages m3))" using g(4) m3(2) by (auto simp: free_pages_def same_machine_def)
      have lo: "mmu_ok m3" "dir_full m3 pd" "pool_in_ram m3" "pd \<noteq> init_page_dir m3" using o(1) by (simp_all add: loader_ok_def)
      have unfolded: "load_page pd f upage n w s = do { (ok, m) \<leftarrow> install_page pd upage k w m3;
          if ok then Some (True, f\<lparr>pos := pos f + n\<rparr>, s\<lparr>mm := m\<rparr>) else do { m \<leftarrow> free_page k m; Some (False, f\<lparr>pos := pos f + n\<rparr>, s\<lparr>mm := m\<rparr>) } }"
        using g(1,2) rd True by (simp add: load_page_def Let_def m2_def m3_def)
      obtain m4 where m4: "free_page k m3 = Some m4" "mmu_ok m4" "same_machine ?m m4" "used_pages (pages m4) = used_pages (pages ?m)"
        "\<forall>x. x < k \<or> k + PGSIZE \<le> x \<longrightarrow> mem m4 x = mem ?m x"
        by (rule released [OF m3 nk])
      have l4: "loader_ok m4 pd" using outside(1) [OF ok(1) m4(2,3) _ g(3) nk m4(5)] m4(4) by simp
      show thesis
      proof (rule install_cases [OF lo up m3(4) al kp, of w])
        assume "install_page pd upage k w m3 = Some (False, m3)" "pte m3 pd upage AND PTE_P \<noteq> 0"
        then show thesis using unfolded m4(1) l4 o(4) up(2) by (intro fail [of _ "s\<lparr>mm := m4\<rparr>"]) simp_all
      next
        assume "install_page pd upage k w m3 = Some (False, m3)" "free_pages False m3 = {}"
        moreover from this have "free_pages False m4 = {}"
          using kp m3(2,3) m4(3,4) lo(1) by (auto simp: free_pages_def same_machine_def mmu_ok_def pages_wf_alt [of _ True])
        ultimately show thesis using unfolded m4(1) l4 by (intro fail [of _ "s\<lparr>mm := m4\<rparr>"]) simp_all
      next
        fix m5 e
        assume i: "install_page pd upage k w m3 = Some (True, m5)" "pte_create_user k w = Some e" "mmu_ok m5" "dir_full m5 pd"
          "same_machine m3 m5" "\<And>va. is_user_vaddr va \<Longrightarrow> pte m5 pd va = (if pg_no va = pg_no upage then e else pte m3 pd va)"
          "\<And>q x. in_use m3 q \<Longrightarrow> q \<notin> own m3 pd \<Longrightarrow> q \<le> x \<Longrightarrow> x < q + PGSIZE \<Longrightarrow> mem m5 x = mem m3 x"
        have "length (seg_bytes ?c (pos f) n (PGSIZE - n)) = PGSIZE" using True n by (simp add: seg_bytes_def bs_def)
        moreover have "mem m3 (k + j) = seg_bytes ?c (pos f) n (PGSIZE - n) ! j" if "j < PGSIZE" for j
          using that True n by (auto simp: m3_def m2_def fill_def copy_in_def seg_bytes_def bs_def [symmetric] nth_append)
        ultimately have "region pd upage (seg_bytes ?c (pos f) n (PGSIZE - n)) w m3 m5"
          using i(6,7) by (intro new_page_seen [OF lo(1,2) up(1) al(1) m3(4) g(3) i(2)]) blast+
        then have "region pd upage (seg_bytes ?c (pos f) n (PGSIZE - n)) w ?m m5" using o(4) by (auto simp: region_def)
        moreover have "loader_ok m5 pd" using i(3-5) lo(3,4) pool_in_ram_same by (auto simp: loader_ok_def same_machine_def)
        moreover have "n = 0 \<or> pos f + n \<le> length ?c" using True by (auto simp: bs_def)
        ultimately show thesis using loaded [of "s\<lparr>mm := m5\<rparr>"] unfolded i(1) by simp
      qed
    qed
  qed
qed


text \<open>
  The outcome of loading \<open>r\<close> bytes of the file and \<open>z\<close> zeros: the bytes are there and nothing else is changed, or there
  is a reason that they are not.
\<close>

definition load_outcome :: "u8 list \<Rightarrow> nat \<Rightarrow> nat \<Rightarrow> nat \<Rightarrow> nat \<Rightarrow> nat \<Rightarrow> bool \<Rightarrow> mmu \<Rightarrow> bool \<Rightarrow> mmu \<Rightarrow> bool" where
  "load_outcome c ofs pd upage r z w m b m' \<longleftrightarrow>
     (if b then (r = 0 \<or> ofs + r \<le> length c) \<and> region pd upage (seg_bytes c ofs r z) w m m'
      else free_pages True m' = {} \<or> free_pages False m' = {} \<or> length c < ofs + r
        \<or> (\<exists>va. upage \<le> va \<and> va < upage + (r + z) \<and> pte m pd va AND PTE_P \<noteq> 0))"

lemma load_loop_loads:
  assumes "loader_ok (mm s) pd" "file_ok (fsy s) f" and "pg_ofs upage = 0" "upage + (r + z) \<le> PHYS_BASE" "(r + z) mod PGSIZE = 0"
  shows "\<exists>b f' s'. load_loop pd f upage r z w s = Some (b, f', s') \<and> loader_ok (mm s') pd \<and> fsy s' = fsy s
    \<and> load_outcome (file_contents (fsy s) f) (pos f) pd upage r z w (mm s) b (mm s')"
  using assms
proof (induction "(r + z) div PGSIZE" arbitrary: f s upage r z)
  case 0
  then have "r + z = 0" using div_mult_mod_eq [of "r + z" PGSIZE] by simp
  then have "r = 0" "z = 0" "load_loop pd f upage r z w s = Some (True, f, s)" by (simp_all add: load_loop.simps [of _ _ _ 0])
  then show ?case using 0(2) by (intro exI [of _ True] exI [of _ f] exI [of _ s]) (auto simp: region_def seg_bytes_def load_outcome_def)
next
  case (Suc x)
  define n where "n = (if r < PGSIZE then r else PGSIZE)"
  have "PGSIZE \<noteq> 0" by (simp add: PGSIZE_def)
  then have big: "PGSIZE \<le> r + z" using Suc.hyps(2) by (metis div_less nat.distinct(1) not_less)
  have n: "n \<le> PGSIZE" "n \<le> r" "PGSIZE - n \<le> z" using big by (auto simp: n_def)
  have user: "is_user_vaddr upage" using big Suc.prems(4) \<open>PGSIZE \<noteq> 0\<close> by (simp add: is_user_vaddr_def)
  have eq: "load_loop pd f upage r z w s = do { (ok, f, s) \<leftarrow> load_page pd f upage n w s;
      if ok then load_loop pd f (upage + PGSIZE) (r - n) (z - (PGSIZE - n)) w s else Some (False, f, s) }"
  proof -
    have "r > 0 \<or> z > 0" using big \<open>PGSIZE \<noteq> 0\<close> by linarith
    then show ?thesis by (subst load_loop.simps) (simp only: Let_def n_def [symmetric] if_True)
  qed
  let ?c = "file_contents (fsy s) f"
  show ?case
  proof (rule load_page_cases [OF Suc.prems(1,2,3) user n(1), of w])
    fix f' s'
    assume l: "load_page pd f upage n w s = Some (False, f', s')" "loader_ok (mm s') pd" "fsy s' = fsy s"
      "free_pages True (mm s') = {} \<or> free_pages False (mm s') = {} \<or> length ?c < pos f + n \<or> pte (mm s) pd upage AND PTE_P \<noteq> 0"
    from l(4) have "free_pages True (mm s') = {} \<or> free_pages False (mm s') = {} \<or> length ?c < pos f + r \<or> (\<exists>va. upage \<le> va \<and> va < upage + (r + z) \<and> pte (mm s) pd va AND PTE_P \<noteq> 0)"
    proof (elim disjE)
      assume "pte (mm s) pd upage AND PTE_P \<noteq> 0"
      then have "\<exists>va. upage \<le> va \<and> va < upage + (r + z) \<and> pte (mm s) pd va AND PTE_P \<noteq> 0" using big \<open>PGSIZE \<noteq> 0\<close> by (intro exI [of _ upage]) linarith
      then show ?thesis by blast
    qed (use n(2) in auto)
    then show ?case using l eq by (intro exI [of _ False] exI [of _ f'] exI [of _ s']) (simp add: load_outcome_def)
  next
    fix s1
    assume l: "load_page pd f upage n w s = Some (True, f\<lparr>pos := pos f + n\<rparr>, s1)" "loader_ok (mm s1) pd" "fsy s1 = fsy s"
      "n = 0 \<or> pos f + n \<le> length ?c" "region pd upage (seg_bytes ?c (pos f) n (PGSIZE - n)) w (mm s) (mm s1)"
    let ?f = "f\<lparr>pos := pos f + n\<rparr>" and ?r = "r - n" and ?z = "z - (PGSIZE - n)"
    have rz: "?r + ?z = r + z - PGSIZE" using n big by linarith
    have len: "length (seg_bytes ?c (pos f) n (PGSIZE - n)) = PGSIZE" using l(4) n(1) by (auto simp: seg_bytes_def)
    have hyp: "x = (?r + ?z) div PGSIZE" "file_ok (fsy s1) ?f" "pg_ofs (upage + PGSIZE) = 0" "upage + PGSIZE + (?r + ?z) \<le> PHYS_BASE" "(?r + ?z) mod PGSIZE = 0"
      using Suc.hyps(2) Suc.prems(2-5) big \<open>PGSIZE \<noteq> 0\<close> l(3) by (simp_all add: rz file_ok_def pg_ofs_def le_div_geq le_mod_geq)
    have out: "pte (mm s1) pd va = pte (mm s) pd va" if "upage + PGSIZE \<le> va" "va < upage + (r + z)" for va
      using l(5) that Suc.prems(4) by (auto simp: region_def len is_user_vaddr_def split: if_splits)
    obtain b f' s' where ih: "load_loop pd ?f (upage + PGSIZE) ?r ?z w s1 = Some (b, f', s')" "loader_ok (mm s') pd" "fsy s' = fsy s"
      "load_outcome ?c (pos f + n) pd (upage + PGSIZE) ?r ?z w (mm s1) b (mm s')"
      using Suc.hyps(1) [OF hyp(1) l(2) hyp(2-5)] l(3) by auto
    have "load_outcome ?c (pos f) pd upage r z w (mm s) b (mm s')"
    proof (cases b)
      case True
      then have r: "r = 0 \<or> pos f + r \<le> length ?c" using ih(4) l(4) n(2) by (auto simp: load_outcome_def)
      have "region pd upage (seg_bytes ?c (pos f) n (PGSIZE - n) @ seg_bytes ?c (pos f + n) ?r ?z) w (mm s) (mm s')"
        using region_trans [OF l(5)] ih(4) True by (simp add: len load_outcome_def)
      then show ?thesis using True r seg_bytes_page [OF n_def big r] by (simp add: load_outcome_def)
    next
      case False
      have "upage + PGSIZE + (?r + ?z) = upage + (r + z)" "pos f + n + ?r = pos f + r" using n rz big by linarith+
      then show ?thesis using ih(4) False out add_leD1 unfolding load_outcome_def by (simp only: if_False) metis
    qed
    then show ?case using ih(1-3) l(1) eq by (intro exI [of _ b] exI [of _ f'] exI [of _ s']) simp
  qed
qed

lemma ROUND_UP_page: "x + 4096 \<le> 4294967296 \<Longrightarrow> ROUND_UP x PGSIZE = (x + 4095) div 4096 * 4096"
  using DIV_ROUND_UP_eq [of x PGSIZE] by (simp add: ROUND_UP_def DIV_ROUND_UP_def PGSIZE_def)

text \<open>The pages of \<open>n\<close> bytes at the address \<open>a\<close>.\<close>

lemma seg_range:
  fixes a n va :: nat
  assumes "0 < n"
  shows "a - a mod 4096 \<le> va \<and> va < a - a mod 4096 + (a mod 4096 + n + 4095) div 4096 * 4096 \<longleftrightarrow> a div 4096 \<le> va div 4096 \<and> va div 4096 \<le> (a + n - 1) div 4096"
proof -
  define k po where "k = a div 4096" and "po = a mod 4096"
  define q where "q = (po + n - 1) div 4096"
  have a: "a = 4096 * k + po" "a - a mod 4096 = 4096 * k" by (simp_all add: k_def po_def minus_mod_eq_mult_div)
  have "po + n + 4095 = po + n - 1 + 4096" using assms by simp
  then have r: "(a mod 4096 + n + 4095) div 4096 = q + 1" by (simp add: q_def po_def)
  have "a + n - 1 = 4096 * k + (po + n - 1)" using assms a(1) by simp
  then have e: "(a + n - 1) div 4096 = k + q" by (simp only: q_def div_mult_self4)
  have "4096 * k \<le> va \<longleftrightarrow> k \<le> va div 4096" by (simp add: less_eq_div_iff_mult_less_eq mult.commute)
  moreover have "va < 4096 * (k + q + 1) \<longleftrightarrow> va div 4096 < k + q + 1" by (simp add: div_less_iff_less_mult mult.commute)
  ultimately show ?thesis unfolding a(2) r e k_def [symmetric] by (auto simp: algebra_simps)
qed

text \<open>The arguments that \<^verbatim>\<open>load\<close> gives to \<^verbatim>\<open>load_segment\<close> for a header that is accepted.\<close>

lemma load_phdr_eq:
  assumes v: "validate_segment phdr len" "len < 2 ^ 32" "file_length (fsy s) f = len"
  defines "a \<equiv> unat (p_vaddr phdr)" and "n \<equiv> unat (p_memsz phdr)"
  obtains r z where "load_phdr pd f phdr s = load_loop pd (file_seek f (unat (p_offset phdr) - a mod 4096)) (a - a mod 4096) r z (p_flags phdr AND 2 \<noteq> 0) s"
    "r + z = (a mod 4096 + n + 4095) div 4096 * 4096" "r = (if unat (p_filesz phdr) = 0 then 0 else a mod 4096 + unat (p_filesz phdr))"
proof -
  let ?po = "a mod 4096" and ?fs = "unat (p_filesz phdr)"
  have b: "0 < n" "?fs \<le> n" "unat (p_offset phdr) mod 4096 = ?po" "a + n < PHYS_BASE"
    using v(1) validate_segment_eq [OF v(2)] by (simp_all add: a_def n_def PGSIZE_def)
  have small: "?po + n + 4096 \<le> 4294967296" using b(4) mod_less_eq_dividend [of a 4096] unfolding PHYS_BASE_def by linarith
  define t where "t = (?po + n + 4095) div 4096 * 4096"
  have t: "?po + n \<le> t" "t < 4294967296" "t mod 4096 = 0" using small by (simp_all add: t_def)
  have ru: "ROUND_UP (wrap32 (?po + n)) PGSIZE = t" using small by (simp add: ROUND_UP_page t_def)
  define r where "r = (if ?fs = 0 then 0 else ?po + ?fs)"
  have r: "r \<le> t" "r < 4294967296" using t(1,2) b(2) by (simp_all add: r_def)
  have z: "wrap32 (t + 4294967296 - r) = t - r" using r t(2) by (simp add: wrap32_def) (metis add_diff_assoc2 mod_add_self2 mod_less less_imp_diff_less)
  have w: "p_filesz phdr > 0 \<longleftrightarrow> ?fs \<noteq> 0" by (simp add: word_gt_0 unat_eq_0)
  have fz: "wrap32 (?po + ?fs) = r" if "p_filesz phdr > 0" using that r(2) w by (simp add: r_def)
  have "r = 0" if "\<not> p_filesz phdr > 0" using that w by (simp add: r_def)
  moreover have "pg_ofs (a - ?po) = 0" by (simp add: pg_ofs_def PGSIZE_def minus_mod_eq_mult_div)
  moreover have "(unat (p_offset phdr) - ?po) mod PGSIZE = 0" unfolding b(3) [symmetric] by (simp add: PGSIZE_def minus_mod_eq_mult_div)
  moreover have "wrap32 (r + (t - r)) mod PGSIZE = 0" using r t by (simp add: PGSIZE_def)
  ultimately have "load_phdr pd f phdr s = load_loop pd (file_seek f (unat (p_offset phdr) - ?po)) (a - ?po) r (t - r) (p_flags phdr AND 2 \<noteq> 0) s"
    using v b(3) fz z ru t(2) unfolding load_phdr_def Let_def load_segment_def and_PGMASK and_not_PGMASK a_def [symmetric] n_def [symmetric]
    by (cases "p_filesz phdr > 0") simp_all
  then show thesis using that r(1) by (simp add: r_def t_def)
qed

lemma segment_seen:
  assumes reg: "region pd (a - a mod 4096) (seg_bytes c (ofs - a mod 4096) r z) w m m'" and lr: "r = 0 \<or> ofs - a mod 4096 + r \<le> length c"
    and rz: "r + z = (a mod 4096 + n + 4095) div 4096 * 4096" "r = (if k = 0 then 0 else a mod 4096 + k)"
    and v: "0 < n" "k \<le> n" "ofs mod 4096 = a mod 4096" "a + n < PHYS_BASE" and i: "i < n"
  shows "ubyte m' pd (a + i) = Some (if i < k then c ! (ofs + i) else 0) \<and> (pte m' pd (a + i) AND PTE_W \<noteq> 0 \<longleftrightarrow> w)"
proof -
  have po: "a mod 4096 \<le> a" "a mod 4096 \<le> ofs" using mod_less_eq_dividend [of a 4096] mod_less_eq_dividend [of ofs 4096] v(3) by simp_all
  have lb: "length (take r (drop (ofs - a mod 4096) c)) = r" using lr by auto
  have "(a + i) div 4096 \<le> (a + n - 1) div 4096" "a div 4096 \<le> (a + i) div 4096" using i by (auto intro: div_le_mono)
  then have in_r: "a - a mod 4096 \<le> a + i \<and> a + i < a - a mod 4096 + (r + z)" using seg_range [OF v(1), of a, folded rz(1)] by blast
  have x: "a + i - (a - a mod 4096) = a mod 4096 + i" using po by simp
  have "seg_bytes c (ofs - a mod 4096) r z ! (a mod 4096 + i) = (if i < k then c ! (ofs + i) else 0)"
    using in_r x rz(2) lb po lr by (auto simp: seg_bytes_def nth_append add.assoc)
  then show ?thesis
    using reg [unfolded region_def, rule_format, of "a + i"] in_r x lb i v(4) by (simp add: is_user_vaddr_def seg_bytes_def add.commute [of i])
qed

lemma load_phdr_outcome:
  assumes ok: "loader_ok (mm s) pd" "file_ok (fsy s) f" and len: "length (file_contents (fsy s) f) < 2 ^ 32"
    and a: "a = unat (p_vaddr phdr)" and n: "n = unat (p_memsz phdr)" and o: "ofs = unat (p_offset phdr)" and k: "k = unat (p_filesz phdr)"
  shows "\<exists>b f' s'. load_phdr pd f phdr s = Some (b, f', s') \<and> loader_ok (mm s') pd \<and> fsy s' = fsy s
    \<and> (if b then validate_segment phdr (length (file_contents (fsy s) f)) \<and> (k = 0 \<or> ofs + k \<le> length (file_contents (fsy s) f))
          \<and> (\<forall>i<n. ubyte (mm s') pd (a + i) = Some (if i < k then file_contents (fsy s) f ! (ofs + i) else 0)
                \<and> (pte (mm s') pd (a + i) AND PTE_W \<noteq> 0 \<longleftrightarrow> p_flags phdr AND 2 \<noteq> 0))
          \<and> (\<forall>va. is_user_vaddr va \<and> (pg_no va < pg_no a \<or> pg_no (a + n - 1) < pg_no va) \<longrightarrow> ubyte (mm s') pd va = ubyte (mm s) pd va)
        else \<not> validate_segment phdr (length (file_contents (fsy s) f)) \<or> length (file_contents (fsy s) f) < ofs + k
          \<or> free_pages True (mm s') = {} \<or> free_pages False (mm s') = {}
          \<or> (\<exists>va. pg_no a \<le> pg_no va \<and> pg_no va \<le> pg_no (a + n - 1) \<and> pte (mm s) pd va AND PTE_P \<noteq> 0))"
proof -
  let ?c = "file_contents (fsy s) f"
  have fl: "file_length (fsy s) f = length ?c" by (simp add: file_length_def inode_length_def)
  show ?thesis
  proof (cases "validate_segment phdr (length ?c)")
    case False
    then show ?thesis using ok(1) fl by (intro exI [of _ False] exI [of _ f] exI [of _ s]) (simp add: load_phdr_def)
  next
    case True
    have v: "0 < n" "k \<le> n" "ofs mod 4096 = a mod 4096" "a + n < PHYS_BASE"
      using True validate_segment_eq [OF len] by (simp_all add: a n o k PGSIZE_def)
    obtain r z where l: "load_phdr pd f phdr s = load_loop pd (file_seek f (ofs - a mod 4096)) (a - a mod 4096) r z (p_flags phdr AND 2 \<noteq> 0) s"
      "r + z = (a mod 4096 + n + 4095) div 4096 * 4096" "r = (if k = 0 then 0 else a mod 4096 + k)"
      using load_phdr_eq [OF True len fl] unfolding a n o k by blast
    note range = seg_range [OF v(1), of a, folded l(2)]
    have p: "pg_ofs (a - a mod 4096) = 0" "(r + z) mod PGSIZE = 0" "a - a mod 4096 + (r + z) \<le> PHYS_BASE"
    proof -
      have "(a + n - 1) div 4096 < PHYS_BASE div 4096" using v(1,4) by (simp add: PHYS_BASE_def div_less_iff_less_mult)
      then have "\<not> PHYS_BASE < a - a mod 4096 + (r + z)" using range [of PHYS_BASE] v(4) by linarith
      then show "a - a mod 4096 + (r + z) \<le> PHYS_BASE" by simp
    qed (simp_all add: pg_ofs_def PGSIZE_def minus_mod_eq_mult_div l(2))
    have fo: "file_ok (fsy s) (file_seek f (ofs - a mod 4096))" "file_contents (fsy s) (file_seek f (ofs - a mod 4096)) = ?c" "pos (file_seek f (ofs - a mod 4096)) = ofs - a mod 4096"
      using ok(2) by (simp_all add: file_ok_def file_seek_def)
    obtain b f' s' where r: "load_phdr pd f phdr s = Some (b, f', s')" "loader_ok (mm s') pd" "fsy s' = fsy s"
      "load_outcome ?c (ofs - a mod 4096) pd (a - a mod 4096) r z (p_flags phdr AND 2 \<noteq> 0) (mm s) b (mm s')"
      using load_loop_loads [OF ok(1) fo(1) p(1,3,2)] unfolding fo(2,3) l(1) by blast
    have "a mod 4096 \<le> ofs" using mod_less_eq_dividend [of ofs 4096] v(3) by simp
    then have short: "length ?c < ofs - a mod 4096 + r \<Longrightarrow> length ?c < ofs + k" and enough: "r = 0 \<or> ofs - a mod 4096 + r \<le> length ?c \<Longrightarrow> k = 0 \<or> ofs + k \<le> length ?c"
      using l(3) by (auto split: if_splits)
    show ?thesis
    proof (cases b)
      case b: True
      then have reg: "region pd (a - a mod 4096) (seg_bytes ?c (ofs - a mod 4096) r z) (p_flags phdr AND 2 \<noteq> 0) (mm s) (mm s')"
        and lr: "r = 0 \<or> ofs - a mod 4096 + r \<le> length ?c" using r(4) by (simp_all add: load_outcome_def)
      have "length (seg_bytes ?c (ofs - a mod 4096) r z) = r + z" using lr by (auto simp: seg_bytes_def)
      then have "ubyte (mm s') pd va = ubyte (mm s) pd va" if "is_user_vaddr va" "pg_no va < pg_no a \<or> pg_no (a + n - 1) < pg_no va" for va
        using reg [unfolded region_def, rule_format, OF that(1)] range [of va] that(2) unfolding pg_no_def PGSIZE_def by (auto split: if_splits)
      then show ?thesis using r(1-3) b True enough [OF lr] segment_seen [OF reg lr l(2,3) v]
        by (intro exI [of _ b] exI [of _ f'] exI [of _ s']) simp
    next
      case False
      then have "free_pages True (mm s') = {} \<or> free_pages False (mm s') = {} \<or> length ?c < ofs + k
          \<or> (\<exists>va. pg_no a \<le> pg_no va \<and> pg_no va \<le> pg_no (a + n - 1) \<and> pte (mm s) pd va AND PTE_P \<noteq> 0)"
        using r(4) short range unfolding load_outcome_def pg_no_def PGSIZE_def by (simp only: if_False) metis
      then show ?thesis using r(1-3) False by (intro exI [of _ b] exI [of _ f'] exI [of _ s']) (simp only: if_False, blast)
    qed
  qed
qed

text \<open>
  C17. Loading a segment of an executable (the case \<^verbatim>\<open>PT_LOAD\<close> of \<^verbatim>\<open>load\<close> with \<^verbatim>\<open>load_segment\<close>): the kernel never panics. On success
  the header is valid, the file is long enough, and the process sees at the address of the segment the bytes of the
  file followed by zeros up to the size in memory, writable exactly if the header says so, and every page outside of the
  segment as before. On failure the header is not valid, the file is too short, no page is free in one of the pools,
  or a page of the segment was mapped already.
\<close>

theorem load_phdr_loads:
  assumes ok: "loader_ok (mm s) pd" "file_ok (fsy s) f" and len: "length (file_contents (fsy s) f) < 2 ^ 32"
    and a: "a = unat (p_vaddr phdr)" and n: "n = unat (p_memsz phdr)" and o: "ofs = unat (p_offset phdr)" and k: "k = unat (p_filesz phdr)"
  shows "\<exists>b f' s'. load_phdr pd f phdr s = Some (b, f', s') \<and> loader_ok (mm s') pd \<and> fsy s' = fsy s
    \<and> (if b then validate_segment phdr (length (file_contents (fsy s) f)) \<and> (k = 0 \<or> ofs + k \<le> length (file_contents (fsy s) f))
          \<and> (\<forall>i<n. ubyte (mm s') pd (a + i) = Some (if i < k then file_contents (fsy s) f ! (ofs + i) else 0)
                \<and> (pte (mm s') pd (a + i) AND PTE_W \<noteq> 0 \<longleftrightarrow> p_flags phdr AND 2 \<noteq> 0))
          \<and> (\<forall>va. is_user_vaddr va \<and> (pg_no va < pg_no a \<or> pg_no (a + n - 1) < pg_no va) \<longrightarrow> ubyte (mm s') pd va = ubyte (mm s) pd va)
        else \<not> validate_segment phdr (length (file_contents (fsy s) f)) \<or> length (file_contents (fsy s) f) < ofs + k
          \<or> free_pages True (mm s') = {} \<or> free_pages False (mm s') = {}
          \<or> (\<exists>va. pg_no a \<le> pg_no va \<and> pg_no va \<le> pg_no (a + n - 1) \<and> pte (mm s) pd va AND PTE_P \<noteq> 0))"
  using assms by (rule load_phdr_outcome)

definition demo_phdr :: Elf32_Phdr where
  "demo_phdr = \<lparr>p_type = 1, p_offset = 0, p_vaddr = 4096, p_filesz = 5, p_memsz = 10, p_flags = 6\<rparr>"

theorem load_phdr_loads_witness:
  "\<exists>b f' s'. load_phdr 3222274048 demo_file demo_phdr \<lparr>mm = demo_mmu, fsy = demo_fs\<rparr> = Some (b, f', s') \<and> loader_ok (mm s') 3222274048
     \<and> (ubyte (mm s') 3222274048 4097 = Some (file_contents demo_fs demo_file ! 1) \<and> ubyte (mm s') 3222274048 4105 = Some 0
        \<or> free_pages True (mm s') = {} \<or> free_pages False (mm s') = {})"
proof -
  let ?s = "\<lparr>mm = demo_mmu, fsy = demo_fs\<rparr>" and ?p = demo_phdr
  have ok: "loader_ok (mm ?s) 3222274048" using demo_mmu_ok demo_pools(1) demo_mmu_dirs by (simp add: loader_ok_def dir_full_def demo_mmu_pte) (simp add: demo_mmu_def)
  have f: "file_ok (fsy ?s) demo_file" "length (file_contents (fsy ?s) demo_file) < 2 ^ 32" using demo_file_writable by (simp_all add: writable_file_def)
  have h: "4096 = unat (p_vaddr ?p)" "10 = unat (p_memsz ?p)" "0 = unat (p_offset ?p)" "5 = unat (p_filesz ?p)" by (simp_all add: demo_phdr_def)
  have v: "validate_segment ?p (length (file_contents demo_fs demo_file))"
    using validate_segment_eq [of 600 ?p] demo_file_writable(2) by (simp add: demo_phdr_def PGSIZE_def PHYS_BASE_def)
  have n: "\<not> length (file_contents demo_fs demo_file) < 0 + 5" "\<not> pte demo_mmu 3222274048 va AND PTE_P \<noteq> 0" for va
    using demo_file_writable(2) by (simp_all add: demo_mmu_pte)
  let ?c = "file_contents (fsy ?s) demo_file"
  obtain b f' s' where r: "load_phdr 3222274048 demo_file ?p ?s = Some (b, f', s')" "loader_ok (mm s') 3222274048"
    and yes: "b \<Longrightarrow> \<forall>i<10. ubyte (mm s') 3222274048 (4096 + i) = Some (if i < 5 then ?c ! (0 + i) else 0)"
    and no: "\<not> b \<Longrightarrow> \<not> validate_segment ?p (length ?c) \<or> length ?c < 0 + 5 \<or> free_pages True (mm s') = {} \<or> free_pages False (mm s') = {}
      \<or> (\<exists>va. pte (mm ?s) 3222274048 va AND PTE_P \<noteq> 0)"
    using load_phdr_loads [OF ok f h] by (metis (no_types, lifting))
  show ?thesis
  proof (cases b)
    case True
    from yes [OF this, rule_format, of 1] yes [OF this, rule_format, of 9]
    have "ubyte (mm s') 3222274048 4097 = Some (?c ! 1)" "ubyte (mm s') 3222274048 4105 = Some 0" by simp_all
    then show ?thesis using r by (intro exI [of _ b] exI [of _ f'] exI [of _ s']) simp
  next
    case False
    then show ?thesis using r no v n by (intro exI [of _ b] exI [of _ f'] exI [of _ s']) simp
  qed
qed

text \<open>The header number \<open>i\<close> of a table at \<open>ofs\<close>: it is in the file, and of a kind that can be loaded or ignored.\<close>

definition phdr_fine :: "u8 list \<Rightarrow> int \<Rightarrow> nat \<Rightarrow> bool" where
  "phdr_fine c ofs i \<longleftrightarrow> 0 \<le> ofs \<and> nat ofs + 32 * i + 32 \<le> length c
     \<and> (let h = phdr_of (take 32 (drop (nat ofs + 32 * i) c))
        in p_type h \<noteq> 2 \<and> p_type h \<noteq> 3 \<and> p_type h \<noteq> 5 \<and> (p_type h = 1 \<longrightarrow> validate_segment h (length c)))"

lemma phdr_fine_Suc: "0 \<le> ofs \<Longrightarrow> phdr_fine c (ofs + 32) i \<longleftrightarrow> phdr_fine c ofs (Suc i)"
  by (simp add: phdr_fine_def nat_add_distrib algebra_simps)

lemma load_page_file: "load_page pd f upage n w s = Some (b, f', s') \<Longrightarrow> file_inode f' = file_inode f"
  by (auto simp: load_page_def file_read_def bind_Some_iff Let_def split: if_splits prod.splits)

lemma load_loop_file: "load_loop pd f upage r z w s = Some (b, f', s') \<Longrightarrow> file_inode f' = file_inode f"
proof (induction pd f upage r z w s rule: load_loop.induct)
  case (1 pd f upage r z w s)
  show ?case
  proof (cases "r > 0 \<or> z > 0")
    case True
    define n where "n = (if r < PGSIZE then r else PGSIZE)"
    obtain ok g t where l: "load_page pd f upage n w s = Some (ok, g, t)"
      "(if ok then load_loop pd g (upage + PGSIZE) (r - n) (z - (PGSIZE - n)) w t else Some (False, g, t)) = Some (b, f', s')"
      using 1(2) True by (subst (asm) load_loop.simps) (auto simp: Let_def n_def [symmetric] bind_Some_iff)
    have "file_inode f' = file_inode g" using l(2) 1(1) [OF True n_def refl l(1) refl refl] by (cases ok) auto
    then show ?thesis using load_page_file [OF l(1)] by simp
  next
    case False
    then show ?thesis using 1(2) by (subst (asm) load_loop.simps) simp
  qed
qed

lemma load_phdr_total:
  assumes "loader_ok (mm s) pd" "file_ok (fsy s) f" and "length (file_contents (fsy s) f) < 2 ^ 32"
  shows "\<exists>b f' s'. load_phdr pd f h s = Some (b, f', s') \<and> loader_ok (mm s') pd \<and> fsy s' = fsy s \<and> file_inode f' = file_inode f
    \<and> (b \<longrightarrow> validate_segment h (length (file_contents (fsy s) f)))"
proof -
  have i: "file_inode f' = file_inode f" if "load_phdr pd f h s = Some (b, f', s')" for b f' s'
    using that load_loop_file by (auto simp: load_phdr_def Let_def load_segment_def file_seek_def bind_Some_iff split: if_splits)
  show ?thesis using load_phdr_outcome [OF assms refl refl refl refl, of h] i by metis
qed

lemma phdr_loop_outcome:
  assumes "loader_ok (mm s) pd" "file_ok (fsy s) f" and "length (file_contents (fsy s) f) < 2 ^ 32"
  shows "\<exists>b f' s'. phdr_loop n pd f ofs s = Some (b, f', s') \<and> loader_ok (mm s') pd \<and> fsy s' = fsy s \<and> file_inode f' = file_inode f
    \<and> (b \<longrightarrow> (\<forall>i<n. phdr_fine (file_contents (fsy s) f) ofs i))"
  using assms
proof (induction n arbitrary: f ofs s)
  case (Suc n)
  let ?c = "file_contents (fsy s) f"
  have fl: "file_length (fsy s) f = length ?c" by (simp add: file_length_def inode_length_def)
  let ?g = "file_seek f (nat ofs)"
  define bs where "bs = take 32 (drop (nat ofs) ?c)"
  define f1 where "f1 = ?g\<lparr>pos := nat ofs + length bs\<rparr>"
  have ino: "file_inode f1 = file_inode f" by (simp add: f1_def file_seek_def)
  have "file_ok (fsy s) ?g" using Suc.prems(2) by (simp add: file_ok_def file_seek_def)
  from file_read_eq [OF this] have rd: "file_read (fsy s) ?g 32 = Some (bs, f1)"
    by (simp add: bs_def f1_def file_seek_def min.commute)
  let ?h = "phdr_of bs"
  consider "ofs < 0 \<or> ofs > int (length ?c) \<or> length bs \<noteq> 32 \<or> p_type ?h = 2 \<or> p_type ?h = 3 \<or> p_type ?h = 5"
    | "0 \<le> ofs" "ofs \<le> int (length ?c)" "length bs = 32" "p_type ?h \<noteq> 2" "p_type ?h \<noteq> 3" "p_type ?h \<noteq> 5" by linarith
  then show ?case
  proof cases
    case 1
    then have "\<exists>f'. phdr_loop (Suc n) pd f ofs s = Some (False, f', s) \<and> file_inode f' = file_inode f" using rd fl ino by (auto simp: Let_def)
    then show ?thesis using Suc.prems(1) by blast
  next
    case 2
    have fits: "nat ofs + 32 \<le> length ?c" using 2(3) by (simp add: bs_def)
    have f1ok: "file_ok (fsy s) f1" "file_contents (fsy s) f1 = ?c" using Suc.prems(2) ino by (simp_all add: file_ok_def)
    obtain b f' s' where l: "(if p_type ?h = 1 then load_phdr pd f1 ?h s else Some (True, f1, s)) = Some (b, f', s')" "loader_ok (mm s') pd" "fsy s' = fsy s"
      "file_inode f' = file_inode f" "b \<and> p_type ?h = 1 \<longrightarrow> validate_segment ?h (length ?c)"
    proof (cases "p_type ?h = 1")
      case True
      then show ?thesis using that load_phdr_total [OF Suc.prems(1) f1ok(1), of ?h] Suc.prems(3) unfolding f1ok(2) ino
        by (simp only: if_True simp_thms) blast
    next
      case False
      then show ?thesis using that [of True f1 s] Suc.prems(1) ino by simp
    qed
    have eq: "phdr_loop (Suc n) pd f ofs s = (if b then phdr_loop n pd f' (ofs + 32) s' else Some (False, f', s'))"
      using l(1) 2 rd fl by (auto simp: Let_def split: if_splits)
    have c': "file_contents (fsy s') f' = ?c" "file_ok (fsy s') f'" using l(3,4) Suc.prems(2) by (simp_all add: file_ok_def)
    show ?thesis
    proof (cases b)
      case True
      have "phdr_fine ?c ofs 0" using 2 fits l(5) True by (simp add: phdr_fine_def bs_def Let_def)
      then have "(\<forall>i<n. phdr_fine ?c (ofs + 32) i) \<Longrightarrow> (\<forall>i<Suc n. phdr_fine ?c ofs i)"
        using phdr_fine_Suc [OF 2(1)] by (metis less_Suc_eq_0_disj)
      then show ?thesis using Suc.IH [OF l(2) c'(2)] Suc.prems(3) l(3,4) eq True c'(1) by fastforce
    qed (use eq l in auto)
  qed
qed auto

text \<open>
  C32. Whatever a file contains, the part of \<^verbatim>\<open>load\<close> that reads the program headers ends without a panic and leaves the
  memory and the directory well formed; it succeeds only if each of the headers is in the file, none is for
  dynamic linking, an interpreter or a shared library, and each that is to be loaded passes \<^verbatim>\<open>validate_segment\<close>.
\<close>

theorem headers_never_panic:
  assumes "loader_ok (mm s) pd" "file_ok (fsy s) f" and "length (file_contents (fsy s) f) < 2 ^ 32"
  shows "\<exists>b f' s'. phdr_loop n pd f ofs s = Some (b, f', s') \<and> loader_ok (mm s') pd \<and> fsy s' = fsy s
    \<and> (b \<longrightarrow> (\<forall>i<n. phdr_fine (file_contents (fsy s) f) ofs i))"
  using phdr_loop_outcome [OF assms, of n ofs] by blast

lemma demo_loader_ok: "loader_ok demo_mmu 3222274048"
  using demo_mmu_ok demo_pools(1) demo_mmu_dirs by (simp add: loader_ok_def dir_full_def demo_mmu_pte) (simp add: demo_mmu_def)

theorem headers_never_panic_witness:
  "\<exists>f' s'. phdr_loop 2 3222274048 demo_file 590 \<lparr>mm = demo_mmu, fsy = demo_fs\<rparr> = Some (False, f', s') \<and> loader_ok (mm s') 3222274048"
proof -
  let ?s = "\<lparr>mm = demo_mmu, fsy = demo_fs\<rparr>"
  have ok: "loader_ok (mm ?s) 3222274048" "file_ok (fsy ?s) demo_file" "length (file_contents (fsy ?s) demo_file) < 2 ^ 32"
    using demo_loader_ok demo_file_writable by (simp_all add: writable_file_def)
  have "\<not> phdr_fine (file_contents (fsy ?s) demo_file) 590 0" using demo_file_writable(2) by (simp add: phdr_fine_def)
  with headers_never_panic [OF ok, of 2 590] show ?thesis by auto
qed

end
