(* ===== verification/Thread.thy ===== *)
theory Thread
  imports Klist
begin

text \<open>
  The threads of \<^verbatim>\<open>Project1/thread.c\<close>: the scheduler with priorities. The state of the kernel is a record
  with the thread structures by their address and the lists of the code, which \<^verbatim>\<open>list_insert_ordered\<close>
  changes by \<open>ins_ord\<close> (see \<open>Klist\<close>); \<^verbatim>\<open>None\<close> is a kernel panic.

  A call that gives up the processor goes on much later, in its own thread. What is left of the calls in
  progress is kept in the \<open>frames\<close> of the thread, the next one first: an operation pushes what follows a
  call that may switch (a frame with the name of a function is a call of it), and \<^verbatim>\<open>schedule\<close> only changes the running thread. Each frame runs without an
  interruption by another thread; the timer interrupt comes between frames while interrupts are on.
\<close>

datatype thread_status = THREAD_RUNNING | THREAD_READY | THREAD_BLOCKED | THREAD_DYING

text \<open>
  The semaphores: those of the kernel's code, those in a lock, the member \<^verbatim>\<open>sema_sleep\<close> of a thread, and
  the one of the \<^verbatim>\<open>semaphore_elem\<close> that \<^verbatim>\<open>cond_wait\<close> has on the stack of a thread.
\<close>

datatype sema_id = Sema nat | LockSema nat | SleepSema nat | WaiterSema nat

datatype frame =
    SetLevel bool | IntrEnable
  | SemaDown sema_id | SemaLoop sema_id | SemaUp sema_id
  | LockAcquire nat | SetHolder nat | LockRelease nat
  | CondBroadcast nat nat
  | TakeTid nat | StartThread nat "frame list"
  | TimerLoop | IntrReturn
  | IdleStart sema_id | IdleLoop | IdleWait
  | User | ThreadExit
  | SemaTryDown nat | LockTryAcquire nat | CondWait "nat \<Rightarrow> nat \<Rightarrow> bool" nat nat | CondSignal nat nat
  | ThreadYield | SetPriority int int | SetPriorityHead int | SetPriorityTest int "nat option" | ThreadCreate "nat option" string int | TimerSleep int

record thread =
  tid :: int
  status :: thread_status
  tname :: string
  priority :: int
  base_priority :: int
  wakeupTime :: int
  frames :: "frame list"

record semaphore =
  sema_value :: u32
  waiters :: "nat list"

record kernel =
  threads :: "nat \<Rightarrow> thread option"
  running :: nat
  ready_list :: "nat list"
  all_list :: "nat list"
  idle_thread :: "nat option"
  initial_thread :: nat
  semas :: "sema_id \<Rightarrow> semaphore"
  holder :: "nat \<Rightarrow> nat option"
  cond_waiters :: "nat \<Rightarrow> nat list"
  wait_list :: "nat list"
  ticks :: int
  thread_ticks :: u32
  idle_ticks :: int
  kernel_ticks :: int
  next_tid :: int
  intr_off :: bool
  in_external_intr :: bool
  yield_on_return :: bool

definition PRI_MIN :: int where
  "PRI_MIN = 0"

definition PRI_DEFAULT :: int where
  "PRI_DEFAULT = 31"

definition PRI_MAX :: int where
  "PRI_MAX = 63"

definition TIME_SLICE :: u32 where
  "TIME_SLICE = 4"

text \<open>The number of the lock \<^verbatim>\<open>tid_lock\<close>.\<close>

definition tid_lock :: nat where
  "tid_lock = 0"

definition upd_thread :: "nat \<Rightarrow> (thread \<Rightarrow> thread) \<Rightarrow> kernel \<Rightarrow> kernel" where
  "upd_thread x f s = s\<lparr>threads := (threads s)(x := map_option f (threads s x))\<rparr>"

definition push :: "frame list \<Rightarrow> kernel \<Rightarrow> kernel" where
  "push fs s = upd_thread (running s) (\<lambda>t. t\<lparr>frames := fs @ frames t\<rparr>) s"

definition prio :: "kernel \<Rightarrow> nat \<Rightarrow> int" where
  "prio s x = (case threads s x of Some t \<Rightarrow> priority t | None \<Rightarrow> 0)"

subsection \<open>Interrupts\<close>

definition intr_disable :: "kernel \<Rightarrow> kernel" where
  "intr_disable s = s\<lparr>intr_off := True\<rparr>"

definition intr_enable :: "kernel \<Rightarrow> kernel option" where
  "intr_enable s = do { ASSERT (\<not> in_external_intr s); Some (s\<lparr>intr_off := False\<rparr>) }"

definition intr_set_level :: "bool \<Rightarrow> kernel \<Rightarrow> kernel option" where
  "intr_set_level off s = (if off then Some (intr_disable s) else intr_enable s)"

definition intr_yield_on_return :: "kernel \<Rightarrow> kernel option" where
  "intr_yield_on_return s = do { ASSERT (in_external_intr s); Some (s\<lparr>yield_on_return := True\<rparr>) }"

subsection \<open>Switching threads\<close>

definition value_less :: "kernel \<Rightarrow> nat \<Rightarrow> nat \<Rightarrow> bool" where
  "value_less s a b \<longleftrightarrow> prio s a > prio s b"

definition is_thread :: "kernel \<Rightarrow> nat \<Rightarrow> bool" where
  "is_thread s x \<longleftrightarrow> threads s x \<noteq> None"

definition thread_current :: "kernel \<Rightarrow> nat option" where
  "thread_current s = do {
     t \<leftarrow> threads s (running s);
     ASSERT (status t = THREAD_RUNNING);
     Some (running s) }"

definition next_thread_to_run :: "kernel \<Rightarrow> nat option \<times> kernel" where
  "next_thread_to_run s =
     (case ready_list s of
        [] \<Rightarrow> (idle_thread s, s)
      | x # xs \<Rightarrow> (Some x, s\<lparr>ready_list := xs\<rparr>))"

definition thread_schedule_tail :: "nat option \<Rightarrow> kernel \<Rightarrow> kernel option" where
  "thread_schedule_tail prev s = do {
     let cur = running s;
     ASSERT (intr_off s);
     let s = (upd_thread cur (\<lambda>t. t\<lparr>status := THREAD_RUNNING\<rparr>) s)\<lparr>thread_ticks := 0\<rparr>;
     case prev of
       None \<Rightarrow> Some s
     | Some p \<Rightarrow> do {
         t \<leftarrow> threads s p;
         if status t = THREAD_DYING \<and> p \<noteq> initial_thread s
         then do { ASSERT (p \<noteq> cur); Some (s\<lparr>threads := (threads s)(p := None)\<rparr>) }
         else Some s } }"

definition schedule :: "kernel \<Rightarrow> kernel option" where
  "schedule s = do {
     let cur = running s;
     let (nxt, s) = next_thread_to_run s;
     ASSERT (intr_off s);
     t \<leftarrow> threads s cur;
     ASSERT (status t \<noteq> THREAD_RUNNING);
     nxt \<leftarrow> nxt;
     ASSERT (is_thread s nxt);
     if cur \<noteq> nxt then thread_schedule_tail (Some cur) (s\<lparr>running := nxt\<rparr>)
     else thread_schedule_tail None s }"

definition thread_block :: "kernel \<Rightarrow> kernel option" where
  "thread_block s = do {
     ASSERT (\<not> in_external_intr s);
     ASSERT (intr_off s);
     cur \<leftarrow> thread_current s;
     schedule (upd_thread cur (\<lambda>t. t\<lparr>status := THREAD_BLOCKED\<rparr>) s) }"

definition thread_yield :: "kernel \<Rightarrow> kernel option" where
  "thread_yield s = do {
     cur \<leftarrow> thread_current s;
     ASSERT (\<not> in_external_intr s);
     let s = intr_disable (push [SetLevel (intr_off s)] s);
     let s = (if Some cur \<noteq> idle_thread s then s\<lparr>ready_list := ins_ord (value_less s) cur (ready_list s)\<rparr> else s);
     schedule (upd_thread cur (\<lambda>t. t\<lparr>status := THREAD_READY\<rparr>) s) }"

definition thread_unblock :: "nat \<Rightarrow> kernel \<Rightarrow> kernel option" where
  "thread_unblock x s = do {
     ASSERT (is_thread s x);
     let s = intr_disable (push [SetLevel (intr_off s)] s);
     t \<leftarrow> threads s x;
     ASSERT (status t = THREAD_BLOCKED);
     let s = s\<lparr>ready_list := ins_ord (value_less s) x (ready_list s)\<rparr>;
     let s = upd_thread x (\<lambda>t. t\<lparr>status := THREAD_READY\<rparr>) s;
     case ready_list s of
       [] \<Rightarrow> Some s
     | ready_head # _ \<Rightarrow> do {
         cur \<leftarrow> thread_current s;
         if prio s cur < prio s ready_head \<and> Some cur \<noteq> idle_thread s then thread_yield s else Some s } }"

definition thread_exit :: "kernel \<Rightarrow> kernel option" where
  "thread_exit s = do {
     ASSERT (\<not> in_external_intr s);
     let s = intr_disable s;
     cur \<leftarrow> thread_current s;
     let s = s\<lparr>all_list := remove1 cur (all_list s)\<rparr>;
     schedule (upd_thread cur (\<lambda>t. t\<lparr>status := THREAD_DYING\<rparr>) s) }"

subsection \<open>Priorities, ticks and creation\<close>

text \<open>
  \<^verbatim>\<open>thread_set_priority\<close> runs with interrupts on, so that a tick may come after each of its accesses to shared memory: the store of the new priority,
  the load of the first element of the ready list, and the comparison of the priorities, after which \<^verbatim>\<open>thread_yield\<close> is called; each is a frame of its own. The code does not ask whether the
  list has an element: on an empty list it reads the memory around the list's tail, and if the thread that it found has died in the meantime it reads
  a page that has been freed; \<open>junk\<close> is what it finds there.
\<close>

definition thread_set_priority :: "int \<Rightarrow> int \<Rightarrow> kernel \<Rightarrow> kernel option" where
  "thread_set_priority junk new_priority s = do {
     ASSERT (new_priority \<le> PRI_MAX);
     ASSERT (new_priority \<ge> PRI_MIN);
     cur \<leftarrow> thread_current s;
     Some (push [SetPriorityHead junk] (upd_thread cur (\<lambda>t. t\<lparr>priority := new_priority\<rparr>) s)) }"

definition set_priority_head :: "int \<Rightarrow> kernel \<Rightarrow> kernel" where
  "set_priority_head junk s =
     push [SetPriorityTest junk (case ready_list s of [] \<Rightarrow> None | ready_head # _ \<Rightarrow> Some ready_head)] s"

definition set_priority_test :: "int \<Rightarrow> nat option \<Rightarrow> kernel \<Rightarrow> kernel" where
  "set_priority_test junk ready_head s =
     (let head_priority = (case ready_head of None \<Rightarrow> junk | Some x \<Rightarrow> if is_thread s x then prio s x else junk)
      in if head_priority > prio s (running s) then push [ThreadYield] s else s)"

definition thread_get_priority :: "kernel \<Rightarrow> int option" where
  "thread_get_priority s = do { cur \<leftarrow> thread_current s; Some (prio s cur) }"

definition thread_tick :: "kernel \<Rightarrow> kernel option" where
  "thread_tick s = do {
     cur \<leftarrow> thread_current s;
     let s = (if Some cur = idle_thread s then s\<lparr>idle_ticks := idle_ticks s + 1\<rparr>
              else s\<lparr>kernel_ticks := kernel_ticks s + 1\<rparr>);
     let s = s\<lparr>thread_ticks := thread_ticks s + 1\<rparr>;
     if thread_ticks s \<ge> TIME_SLICE then intr_yield_on_return s else Some s }"

definition sema_init :: "sema_id \<Rightarrow> u32 \<Rightarrow> kernel \<Rightarrow> kernel" where
  "sema_init i v s = s\<lparr>semas := (semas s)(i := \<lparr>sema_value = v, waiters = []\<rparr>)\<rparr>"

definition init_thread :: "nat \<Rightarrow> string \<Rightarrow> int \<Rightarrow> kernel \<Rightarrow> kernel option" where
  "init_thread x nm pri s = do {
     ASSERT (PRI_MIN \<le> pri \<and> pri \<le> PRI_MAX);
     let s = s\<lparr>threads := (threads s)(x \<mapsto> \<lparr>tid = 0, status = THREAD_BLOCKED, tname = take 15 nm, priority = pri,
       base_priority = pri, wakeupTime = 0, frames = []\<rparr>)\<rparr>;
     let s = s\<lparr>all_list := all_list s @ [x]\<rparr>;
     Some (sema_init (SleepSema x) 0 s) }"

text \<open>The frames of \<^verbatim>\<open>allocate_tid\<close> for the thread \<open>x\<close>; \<open>take_tid\<close> is its middle.\<close>

definition allocate_tid :: "nat \<Rightarrow> frame list" where
  "allocate_tid x = [LockAcquire tid_lock, TakeTid x, LockRelease tid_lock]"

definition take_tid :: "nat \<Rightarrow> kernel \<Rightarrow> kernel" where
  "take_tid x s = upd_thread x (\<lambda>t. t\<lparr>tid := next_tid s\<rparr>) (s\<lparr>next_tid := next_tid s + 1\<rparr>)"

text \<open>The frames of \<^verbatim>\<open>kernel_thread\<close> for a function that runs the frames \<open>body\<close>.\<close>

definition kernel_thread :: "frame list \<Rightarrow> frame list" where
  "kernel_thread body = IntrEnable # body @ [ThreadExit]"

text \<open>
  \<^verbatim>\<open>thread_create\<close>: \<open>page\<close> is what \<^verbatim>\<open>palloc_get_page\<close> returns. The stack that the code prepares makes the new
  thread begin with \<^verbatim>\<open>kernel_thread\<close>. The part after \<^verbatim>\<open>allocate_tid\<close> is \<open>start_thread\<close>.
\<close>

definition thread_create :: "nat option \<Rightarrow> string \<Rightarrow> int \<Rightarrow> frame list \<Rightarrow> kernel \<Rightarrow> kernel option" where
  "thread_create page nm pri body s =
     (case page of
        None \<Rightarrow> Some s
      | Some x \<Rightarrow> do {
          s \<leftarrow> init_thread x nm pri s;
          Some (push (allocate_tid x @ [StartThread x body]) s) })"

definition start_thread :: "nat \<Rightarrow> frame list \<Rightarrow> kernel \<Rightarrow> kernel option" where
  "start_thread x body s = thread_unblock x (upd_thread x (\<lambda>t. t\<lparr>frames := kernel_thread body\<rparr>) s)"

subsection \<open>Starting the system and the idle thread\<close>

definition lock_init :: "nat \<Rightarrow> kernel \<Rightarrow> kernel" where
  "lock_init l s = sema_init (LockSema l) 1 (s\<lparr>holder := (holder s)(l := None)\<rparr>)"

definition thread_init :: "kernel \<Rightarrow> kernel option" where
  "thread_init s = do {
     ASSERT (intr_off s);
     let s = lock_init tid_lock s;
     let s = s\<lparr>ready_list := [], all_list := [], initial_thread := running s\<rparr>;
     s \<leftarrow> init_thread (initial_thread s) ''main'' PRI_DEFAULT s;
     let s = upd_thread (initial_thread s) (\<lambda>t. t\<lparr>status := THREAD_RUNNING, frames := [User, ThreadExit]\<rparr>) s;
     Some (push (allocate_tid (initial_thread s)) s) }"

definition thread_start :: "nat option \<Rightarrow> nat \<Rightarrow> kernel \<Rightarrow> kernel option" where
  "thread_start page idle_started s =
     thread_create page ''idle'' PRI_MIN [IdleStart (Sema idle_started), IdleLoop]
       (push [IntrEnable, SemaDown (Sema idle_started)] (sema_init (Sema idle_started) 0 s))"

definition idle_start :: "sema_id \<Rightarrow> kernel \<Rightarrow> kernel option" where
  "idle_start i s = do {
     cur \<leftarrow> thread_current s;
     Some (push [SemaUp i] (s\<lparr>idle_thread := Some cur\<rparr>)) }"

definition idle_loop :: "kernel \<Rightarrow> kernel option" where
  "idle_loop s = thread_block (push [IdleWait] (intr_disable s))"

text \<open>\<^verbatim>\<open>sti; hlt\<close>. That the processor halts until the next interrupt is left out.\<close>

definition idle_wait :: "kernel \<Rightarrow> kernel option" where
  "idle_wait s = Some (push [IdleLoop] (s\<lparr>intr_off := False\<rparr>))"

end
