(* ===== verification/Synch.thy ===== *)
theory Synch
  imports Thread
begin

text \<open>
  Semaphores, locks and condition variables of \<^verbatim>\<open>Project1/synch.c\<close>, and the timer of \<^verbatim>\<open>Project1/timer.c\<close> with
  the part of \<^verbatim>\<open>intr_handler\<close> that an external interrupt takes. The functions that may sleep push the rest
  of their work as frames. (\<^verbatim>\<open>sema_init\<close> and \<^verbatim>\<open>lock_init\<close> are in \<open>Thread\<close>.)
\<close>

subsection \<open>Semaphores\<close>

definition sema_down :: "sema_id \<Rightarrow> kernel \<Rightarrow> kernel option" where
  "sema_down i s = do {
     ASSERT (\<not> in_external_intr s);
     Some (intr_disable (push [SemaLoop i, SetLevel (intr_off s)] s)) }"

text \<open>The loop of \<^verbatim>\<open>sema_down\<close>: one test of the value, with what follows it.\<close>

definition sema_loop :: "sema_id \<Rightarrow> kernel \<Rightarrow> kernel option" where
  "sema_loop i s =
     (if sema_value (semas s i) = 0
      then do {
        cur \<leftarrow> thread_current s;
        let q = (semas s i)\<lparr>waiters := ins_ord (value_less s) cur (waiters (semas s i))\<rparr>;
        thread_block (push [SemaLoop i] (s\<lparr>semas := (semas s)(i := q)\<rparr>)) }
      else Some (s\<lparr>semas := (semas s)(i := (semas s i)\<lparr>sema_value := sema_value (semas s i) - 1\<rparr>)\<rparr>))"

definition sema_try_down :: "sema_id \<Rightarrow> kernel \<Rightarrow> bool \<times> kernel" where
  "sema_try_down i s =
     (if sema_value (semas s i) > 0
      then (True, s\<lparr>semas := (semas s)(i := (semas s i)\<lparr>sema_value := sema_value (semas s i) - 1\<rparr>)\<rparr>)
      else (False, s))"

definition sema_up :: "sema_id \<Rightarrow> kernel \<Rightarrow> kernel option" where
  "sema_up i s = do {
     let s = intr_disable (push [SetLevel (intr_off s)] s);
     let q = (semas s i)\<lparr>sema_value := sema_value (semas s i) + 1\<rparr>;
     let s = s\<lparr>semas := (semas s)(i := q)\<rparr>;
     case waiters q of
       [] \<Rightarrow> Some s
     | x # xs \<Rightarrow> thread_unblock x (s\<lparr>semas := (semas s)(i := q\<lparr>waiters := xs\<rparr>)\<rparr>) }"

subsection \<open>Locks\<close>

definition lock_held_by_current_thread :: "nat \<Rightarrow> kernel \<Rightarrow> bool option" where
  "lock_held_by_current_thread l s = do { cur \<leftarrow> thread_current s; Some (holder s l = Some cur) }"

text \<open>\<^verbatim>\<open>lock_acquire\<close>: the body of the \<^verbatim>\<open>if\<close> on the priority of the holder is commented out in the source.\<close>

definition lock_acquire :: "nat \<Rightarrow> kernel \<Rightarrow> kernel option" where
  "lock_acquire l s = do {
     ASSERT (\<not> in_external_intr s);
     held \<leftarrow> lock_held_by_current_thread l s;
     ASSERT (\<not> held);
     Some (push [SemaDown (LockSema l), SetHolder l] s) }"

definition set_holder :: "nat \<Rightarrow> kernel \<Rightarrow> kernel option" where
  "set_holder l s = do { cur \<leftarrow> thread_current s; Some (s\<lparr>holder := (holder s)(l := Some cur)\<rparr>) }"

definition lock_try_acquire :: "nat \<Rightarrow> kernel \<Rightarrow> (bool \<times> kernel) option" where
  "lock_try_acquire l s = do {
     held \<leftarrow> lock_held_by_current_thread l s;
     ASSERT (\<not> held);
     let (success, s) = sema_try_down (LockSema l) s;
     Some (success, if success then push [SetHolder l] s else s) }"

definition lock_release :: "nat \<Rightarrow> kernel \<Rightarrow> kernel option" where
  "lock_release l s = do {
     held \<leftarrow> lock_held_by_current_thread l s;
     ASSERT held;
     Some (push [SemaUp (LockSema l)] (s\<lparr>holder := (holder s)(l := None)\<rparr>)) }"

subsection \<open>Condition variables\<close>

definition cond_init :: "nat \<Rightarrow> kernel \<Rightarrow> kernel" where
  "cond_init c s = s\<lparr>cond_waiters := (cond_waiters s)(c := [])\<rparr>"

text \<open>
  \<^verbatim>\<open>cond_wait\<close> orders its list with the comparison for threads, although the elements of the list are
  not in threads: what it compares is memory at some distance of the waiters on the stacks of their
  threads, the argument \<open>junk\<close>.
\<close>

definition cond_wait :: "(nat \<Rightarrow> nat \<Rightarrow> bool) \<Rightarrow> nat \<Rightarrow> nat \<Rightarrow> kernel \<Rightarrow> kernel option" where
  "cond_wait junk c l s = do {
     ASSERT (\<not> in_external_intr s);
     held \<leftarrow> lock_held_by_current_thread l s;
     ASSERT held;
     cur \<leftarrow> thread_current s;
     let s = sema_init (WaiterSema cur) 0 s;
     let s = s\<lparr>cond_waiters := (cond_waiters s)(c := ins_ord junk cur (cond_waiters s c))\<rparr>;
     Some (push [LockRelease l, SemaDown (WaiterSema cur), LockAcquire l] s) }"

definition cond_signal :: "nat \<Rightarrow> nat \<Rightarrow> kernel \<Rightarrow> kernel option" where
  "cond_signal c l s = do {
     ASSERT (\<not> in_external_intr s);
     held \<leftarrow> lock_held_by_current_thread l s;
     ASSERT held;
     case cond_waiters s c of
       [] \<Rightarrow> Some s
     | x # xs \<Rightarrow> Some (push [SemaUp (WaiterSema x)] (s\<lparr>cond_waiters := (cond_waiters s)(c := xs)\<rparr>)) }"

definition cond_broadcast :: "nat \<Rightarrow> nat \<Rightarrow> kernel \<Rightarrow> kernel option" where
  "cond_broadcast c l s =
     (if cond_waiters s c \<noteq> [] then cond_signal c l (push [CondBroadcast c l] s) else Some s)"

subsection \<open>The timer\<close>

definition wakeup :: "kernel \<Rightarrow> nat \<Rightarrow> int" where
  "wakeup s x = (case threads s x of Some t \<Rightarrow> wakeupTime t | None \<Rightarrow> 0)"

definition value_less_wakeup :: "kernel \<Rightarrow> nat \<Rightarrow> nat \<Rightarrow> bool" where
  "value_less_wakeup s a b \<longleftrightarrow> wakeup s a < wakeup s b"

definition timer_sleep :: "int \<Rightarrow> kernel \<Rightarrow> kernel option" where
  "timer_sleep sleep_ticks s = do {
     ASSERT (\<not> intr_off s);
     if sleep_ticks < 0 then Some s
     else if sleep_ticks > 0
     then do {
       let stop = ticks s + sleep_ticks;
       cur \<leftarrow> thread_current s;
       let s = upd_thread cur (\<lambda>t. t\<lparr>wakeupTime := stop\<rparr>) s;
       let s = s\<lparr>wait_list := ins_ord (value_less_wakeup s) cur (wait_list s)\<rparr>;
       Some (push [SemaDown (SleepSema cur)] s) }
     else Some s }"

text \<open>
  The loop of \<^verbatim>\<open>timer_interrupt\<close>: a thread that is due leaves the list before the next one is looked at, so
  that each turn looks at the first one of the list; the first that is not due ends the loop.
\<close>

definition timer_loop :: "kernel \<Rightarrow> kernel" where
  "timer_loop s =
     (case wait_list s of
        [] \<Rightarrow> s
      | x # xs \<Rightarrow> if wakeup s x \<le> ticks s then push [SemaUp (SleepSema x), TimerLoop] (s\<lparr>wait_list := xs\<rparr>) else s)"

definition timer_interrupt :: "kernel \<Rightarrow> kernel option" where
  "timer_interrupt s = do {
     s \<leftarrow> thread_tick (s\<lparr>ticks := ticks s + 1\<rparr>);
     Some (push [TimerLoop] s) }"

text \<open>
  \<^verbatim>\<open>intr_handler\<close> for the timer: the processor turns interrupts off before it and back on when the
  handler returns. The part after the call of the handler is \<open>intr_return\<close>.
\<close>

definition intr_handler :: "kernel \<Rightarrow> kernel option" where
  "intr_handler s = do {
     let s = s\<lparr>intr_off := True\<rparr>;
     ASSERT (\<not> in_external_intr s);
     let s = s\<lparr>in_external_intr := True, yield_on_return := False\<rparr>;
     timer_interrupt (push [IntrReturn] s) }"

definition intr_return :: "kernel \<Rightarrow> kernel option" where
  "intr_return s = do {
     ASSERT (intr_off s);
     ASSERT (in_external_intr s);
     let s = push [SetLevel False] (s\<lparr>in_external_intr := False\<rparr>);
     if yield_on_return s then thread_yield s else Some s }"

end
