(* ===== verification/Sched.thy ===== *)
theory Sched
  imports Synch
begin

text \<open>
  The kernel as a machine that runs frames, and the invariants of all its reachable states. A step runs
  the next frame of the running thread, makes a call from the code of a thread, returns from that code,
  or is the timer interrupt.
\<close>

subsection \<open>Steps\<close>

fun exec :: "frame \<Rightarrow> kernel \<Rightarrow> kernel option" where
  "exec (SetLevel off) s = intr_set_level off s"
| "exec IntrEnable s = intr_enable s"
| "exec (SemaDown i) s = sema_down i s"
| "exec (SemaLoop i) s = sema_loop i s"
| "exec (SemaUp i) s = sema_up i s"
| "exec (LockAcquire l) s = lock_acquire l s"
| "exec (SetHolder l) s = set_holder l s"
| "exec (LockRelease l) s = lock_release l s"
| "exec (CondBroadcast c l) s = cond_broadcast c l s"
| "exec (TakeTid x) s = Some (take_tid x s)"
| "exec (StartThread x body) s = start_thread x body s"
| "exec TimerLoop s = Some (timer_loop s)"
| "exec IntrReturn s = intr_return s"
| "exec (IdleStart i) s = idle_start i s"
| "exec IdleLoop s = idle_loop s"
| "exec IdleWait s = idle_wait s"
| "exec User s = Some s"
| "exec ThreadExit s = thread_exit s"
| "exec (SemaTryDown n) s = Some (snd (sema_try_down (Sema n) s))"
| "exec (LockTryAcquire l) s = map_option snd (lock_try_acquire l s)"
| "exec (CondWait junk c l) s = cond_wait junk c l s"
| "exec (CondSignal c l) s = cond_signal c l s"
| "exec ThreadYield s = thread_yield s"
| "exec (SetPriority junk p) s = thread_set_priority junk p s"
| "exec (SetPriorityHead junk) s = Some (set_priority_head junk s)"
| "exec (SetPriorityTest junk x) s = Some (set_priority_test junk x s)"
| "exec (ThreadCreate page nm pri) s = thread_create page nm pri [User] s"
| "exec (TimerSleep n) s = timer_sleep n s"

definition pop :: "kernel \<Rightarrow> kernel" where
  "pop s = upd_thread (running s) (\<lambda>t. t\<lparr>frames := tl (frames t)\<rparr>) s"

text \<open>The view of the threads that the invariants need: status and frames of an address.\<close>

definition st :: "kernel \<Rightarrow> nat \<Rightarrow> thread_status option" where
  "st s x = map_option status (threads s x)"

definition fr :: "kernel \<Rightarrow> nat \<Rightarrow> frame list" where
  "fr s x = (case threads s x of Some t \<Rightarrow> frames t | None \<Rightarrow> [])"

text \<open>
  The calls that the code of a thread makes: the values that the model leaves open, the page that
  \<^verbatim>\<open>palloc_get_page\<close> returns and what is read beyond a list, are among their arguments.
\<close>

fun callable :: "frame \<Rightarrow> bool" where
  "callable (SemaDown i) \<longleftrightarrow> (\<exists>n. i = Sema n)"
| "callable (SemaUp i) \<longleftrightarrow> (\<exists>n. i = Sema n)"
| "callable (SemaTryDown n) = True" | "callable (LockAcquire l) = True" | "callable (LockTryAcquire l) = True"
| "callable (LockRelease l) = True" | "callable (CondWait junk c l) = True" | "callable (CondSignal c l) = True"
| "callable (CondBroadcast c l) = True" | "callable ThreadYield = True" | "callable (SetPriority junk p) = True"
| "callable (ThreadCreate page nm pri) = True" | "callable (TimerSleep n) = True" | "callable ThreadExit = True"
| "callable _ = False"

text \<open>\<^verbatim>\<open>palloc_get_page\<close> returns a page that is not in use.\<close>

fun fresh_page :: "frame \<Rightarrow> kernel \<Rightarrow> bool" where
  "fresh_page (ThreadCreate (Some x) nm pri) s \<longleftrightarrow> threads s x = None"
| "fresh_page _ s \<longleftrightarrow> True"

inductive step :: "kernel \<Rightarrow> kernel \<Rightarrow> bool" where
  step_exec: "fr s (running s) = f # fs \<Longrightarrow> f \<noteq> User \<Longrightarrow> fresh_page f s \<Longrightarrow> exec f (pop s) = Some s' \<Longrightarrow> step s s'"
| step_call: "fr s (running s) = User # fs \<Longrightarrow> \<not> intr_off s \<Longrightarrow> callable f \<Longrightarrow> step s (push [f] s)"
| step_return: "fr s (running s) = User # fs \<Longrightarrow> step s (pop s)"
| step_tick: "\<not> intr_off s \<Longrightarrow> intr_handler s = Some s' \<Longrightarrow> step s s'"

text \<open>The state after \<^verbatim>\<open>thread_start\<close>: the initial thread runs and the idle thread has blocked itself.\<close>

definition booted :: kernel where
  "booted = \<lparr>threads = [1 \<mapsto> \<lparr>tid = 1, status = THREAD_RUNNING, tname = ''main'', priority = PRI_DEFAULT,
      base_priority = PRI_DEFAULT, wakeupTime = 0, frames = [User, ThreadExit]\<rparr>,
      2 \<mapsto> \<lparr>tid = 2, status = THREAD_BLOCKED, tname = ''idle'', priority = PRI_MIN,
      base_priority = PRI_MIN, wakeupTime = 0, frames = [IdleWait, ThreadExit]\<rparr>],
    running = 1, ready_list = [], all_list = [1, 2], idle_thread = Some 2, initial_thread = 1,
    semas = (\<lambda>i. case i of LockSema l \<Rightarrow> \<lparr>sema_value = 1, waiters = []\<rparr> | _ \<Rightarrow> \<lparr>sema_value = 0, waiters = []\<rparr>),
    holder = Map.empty, cond_waiters = (\<lambda>c. []), wait_list = [], ticks = 0, thread_ticks = 0, idle_ticks = 0,
    kernel_ticks = 0, next_tid = 3, intr_off = False, in_external_intr = False, yield_on_return = False\<rparr>"

definition reachable :: "kernel \<Rightarrow> bool" where
  "reachable s \<longleftrightarrow> step\<^sup>*\<^sup>* booted s"

subsection \<open>The view of a state\<close>

lemma view_fields [simp]:
  "st (s\<lparr>running := v0\<rparr>) = st s" "prio (s\<lparr>running := v0\<rparr>) = prio s" "fr (s\<lparr>running := v0\<rparr>) = fr s"
  "st (s\<lparr>ready_list := v1\<rparr>) = st s" "prio (s\<lparr>ready_list := v1\<rparr>) = prio s" "fr (s\<lparr>ready_list := v1\<rparr>) = fr s"
  "st (s\<lparr>all_list := v2\<rparr>) = st s" "prio (s\<lparr>all_list := v2\<rparr>) = prio s" "fr (s\<lparr>all_list := v2\<rparr>) = fr s"
  "st (s\<lparr>idle_thread := v3\<rparr>) = st s" "prio (s\<lparr>idle_thread := v3\<rparr>) = prio s" "fr (s\<lparr>idle_thread := v3\<rparr>) = fr s"
  "st (s\<lparr>initial_thread := v4\<rparr>) = st s" "prio (s\<lparr>initial_thread := v4\<rparr>) = prio s" "fr (s\<lparr>initial_thread := v4\<rparr>) = fr s"
  "st (s\<lparr>semas := v5\<rparr>) = st s" "prio (s\<lparr>semas := v5\<rparr>) = prio s" "fr (s\<lparr>semas := v5\<rparr>) = fr s"
  "st (s\<lparr>holder := v6\<rparr>) = st s" "prio (s\<lparr>holder := v6\<rparr>) = prio s" "fr (s\<lparr>holder := v6\<rparr>) = fr s"
  "st (s\<lparr>cond_waiters := v7\<rparr>) = st s" "prio (s\<lparr>cond_waiters := v7\<rparr>) = prio s" "fr (s\<lparr>cond_waiters := v7\<rparr>) = fr s"
  "st (s\<lparr>wait_list := v8\<rparr>) = st s" "prio (s\<lparr>wait_list := v8\<rparr>) = prio s" "fr (s\<lparr>wait_list := v8\<rparr>) = fr s"
  "st (s\<lparr>ticks := v9\<rparr>) = st s" "prio (s\<lparr>ticks := v9\<rparr>) = prio s" "fr (s\<lparr>ticks := v9\<rparr>) = fr s"
  "st (s\<lparr>thread_ticks := v10\<rparr>) = st s" "prio (s\<lparr>thread_ticks := v10\<rparr>) = prio s" "fr (s\<lparr>thread_ticks := v10\<rparr>) = fr s"
  "st (s\<lparr>idle_ticks := v11\<rparr>) = st s" "prio (s\<lparr>idle_ticks := v11\<rparr>) = prio s" "fr (s\<lparr>idle_ticks := v11\<rparr>) = fr s"
  "st (s\<lparr>kernel_ticks := v12\<rparr>) = st s" "prio (s\<lparr>kernel_ticks := v12\<rparr>) = prio s" "fr (s\<lparr>kernel_ticks := v12\<rparr>) = fr s"
  "st (s\<lparr>next_tid := v13\<rparr>) = st s" "prio (s\<lparr>next_tid := v13\<rparr>) = prio s" "fr (s\<lparr>next_tid := v13\<rparr>) = fr s"
  "st (s\<lparr>intr_off := v14\<rparr>) = st s" "prio (s\<lparr>intr_off := v14\<rparr>) = prio s" "fr (s\<lparr>intr_off := v14\<rparr>) = fr s"
  "st (s\<lparr>in_external_intr := v15\<rparr>) = st s" "prio (s\<lparr>in_external_intr := v15\<rparr>) = prio s" "fr (s\<lparr>in_external_intr := v15\<rparr>) = fr s"
  "st (s\<lparr>yield_on_return := v16\<rparr>) = st s" "prio (s\<lparr>yield_on_return := v16\<rparr>) = prio s" "fr (s\<lparr>yield_on_return := v16\<rparr>) = fr s"
  by (simp_all add: st_def prio_def fr_def fun_eq_iff)

lemma upd_fields [simp]:
  "running (upd_thread x f s) = running s" "running (push fs s) = running s"
  "ready_list (upd_thread x f s) = ready_list s" "ready_list (push fs s) = ready_list s"
  "all_list (upd_thread x f s) = all_list s" "all_list (push fs s) = all_list s"
  "idle_thread (upd_thread x f s) = idle_thread s" "idle_thread (push fs s) = idle_thread s"
  "initial_thread (upd_thread x f s) = initial_thread s" "initial_thread (push fs s) = initial_thread s"
  "semas (upd_thread x f s) = semas s" "semas (push fs s) = semas s"
  "holder (upd_thread x f s) = holder s" "holder (push fs s) = holder s"
  "cond_waiters (upd_thread x f s) = cond_waiters s" "cond_waiters (push fs s) = cond_waiters s"
  "wait_list (upd_thread x f s) = wait_list s" "wait_list (push fs s) = wait_list s"
  "ticks (upd_thread x f s) = ticks s" "ticks (push fs s) = ticks s"
  "thread_ticks (upd_thread x f s) = thread_ticks s" "thread_ticks (push fs s) = thread_ticks s"
  "idle_ticks (upd_thread x f s) = idle_ticks s" "idle_ticks (push fs s) = idle_ticks s"
  "kernel_ticks (upd_thread x f s) = kernel_ticks s" "kernel_ticks (push fs s) = kernel_ticks s"
  "next_tid (upd_thread x f s) = next_tid s" "next_tid (push fs s) = next_tid s"
  "intr_off (upd_thread x f s) = intr_off s" "intr_off (push fs s) = intr_off s"
  "in_external_intr (upd_thread x f s) = in_external_intr s" "in_external_intr (push fs s) = in_external_intr s"
  "yield_on_return (upd_thread x f s) = yield_on_return s" "yield_on_return (push fs s) = yield_on_return s"
  by (simp_all add: upd_thread_def push_def)

lemma view_status [simp]:
  "st (upd_thread x (\<lambda>t. t\<lparr>status := v\<rparr>) s) = (st s)(x := map_option (\<lambda>_. v) (st s x))"
  "prio (upd_thread x (\<lambda>t. t\<lparr>status := v\<rparr>) s) = prio s" "fr (upd_thread x (\<lambda>t. t\<lparr>status := v\<rparr>) s) = fr s"
  by (auto simp: st_def prio_def fr_def upd_thread_def fun_eq_iff option.map_comp comp_def split: option.split)

lemma view_frames [simp]:
  "st (upd_thread x (\<lambda>t. t\<lparr>frames := g (frames t)\<rparr>) s) = st s" "prio (upd_thread x (\<lambda>t. t\<lparr>frames := g (frames t)\<rparr>) s) = prio s"
  by (auto simp: st_def prio_def upd_thread_def fun_eq_iff option.map_comp comp_def split: option.split)

lemma fr_upd_frames:
  "st s x \<noteq> None \<Longrightarrow> fr (upd_thread x (\<lambda>t. t\<lparr>frames := g (frames t)\<rparr>) s) = (fr s)(x := g (fr s x))"
  by (auto simp: st_def fr_def upd_thread_def fun_eq_iff)

lemma view_push [simp]:
  "st (push fs s) = st s" "prio (push fs s) = prio s"
  unfolding push_def by (rule view_frames)+

lemma fr_push [simp]: "st s (running s) \<noteq> None \<Longrightarrow> fr (push fs s) = (fr s)(running s := fs @ fr s (running s))"
  unfolding push_def by (rule fr_upd_frames)

lemma view_pop [simp]:
  "st (pop s) = st s" "prio (pop s) = prio s" "st s (running s) \<noteq> None \<Longrightarrow> fr (pop s) = (fr s)(running s := tl (fr s (running s)))"
  unfolding pop_def by (rule view_frames fr_upd_frames)+

lemma threads_st: "threads s x = Some t \<Longrightarrow> st s x = Some (status t)" "threads s x = None \<longleftrightarrow> st s x = None"
  by (auto simp: st_def)

lemma thread_current_eq: "thread_current s = (if st s (running s) = Some THREAD_RUNNING then Some (running s) else None)"
  by (cases "threads s (running s)") (auto simp: thread_current_def st_def panic_simps)

lemma view_disable [simp]: "st (intr_disable s) = st s" "prio (intr_disable s) = prio s" "fr (intr_disable s) = fr s"
  by (simp_all add: intr_disable_def)

subsection \<open>Every thread is in one place\<close>

text \<open>
  The places where a thread can be: the ready list, the waiters of a semaphore, the rest of a
  \<^verbatim>\<open>thread_create\<close> of some thread, the processor; the idle thread has a place of its own.
\<close>

datatype place = Ready | Waiting sema_id | Starting nat | Here | Idle

definition starts :: "frame list \<Rightarrow> nat list" where
  "starts fs = concat (map (\<lambda>f. case f of StartThread x body \<Rightarrow> [x] | _ \<Rightarrow> []) fs)"

definition in_place :: "kernel \<Rightarrow> place \<Rightarrow> nat list" where
  "in_place s p =
     (case p of
        Ready \<Rightarrow> ready_list s
      | Waiting i \<Rightarrow> waiters (semas s i)
      | Starting y \<Rightarrow> starts (fr s y)
      | Here \<Rightarrow> if idle_thread s = Some (running s) then [] else [running s]
      | Idle \<Rightarrow> (case idle_thread s of None \<Rightarrow> [] | Some i \<Rightarrow> [i]))"

definition apart :: "('p \<Rightarrow> 'a list) \<Rightarrow> bool" where
  "apart f \<longleftrightarrow> (\<forall>p. distinct (f p)) \<and> (\<forall>p q x. x \<in> set (f p) \<longrightarrow> x \<in> set (f q) \<longrightarrow> p = q)"

definition by_priority :: "kernel \<Rightarrow> nat list \<Rightarrow> bool" where
  "by_priority s xs \<longleftrightarrow> sorted_wrt (\<lambda>a b. prio s a \<ge> prio s b) xs"

definition statuses :: "kernel \<Rightarrow> bool" where
  "statuses s \<longleftrightarrow> (\<forall>x \<in> set (ready_list s). st s x = Some THREAD_READY)
     \<and> (\<forall>i. \<forall>x \<in> set (waiters (semas s i)). st s x = Some THREAD_BLOCKED)
     \<and> (\<forall>y. \<forall>x \<in> set (starts (fr s y)). st s x = Some THREAD_BLOCKED)"

definition ordered :: "kernel \<Rightarrow> bool" where
  "ordered s \<longleftrightarrow> by_priority s (ready_list s) \<and> (\<forall>i. by_priority s (waiters (semas s i)))"

text \<open>The frames that the idle thread has on top of its loop: what an interrupt leaves there, none of which sleeps.\<close>

fun quiet :: "frame \<Rightarrow> bool" where
  "quiet (SetLevel _) = True" | "quiet (SemaUp _) = True" | "quiet TimerLoop = True" | "quiet IntrReturn = True"
| "quiet _ = False"

definition idle_ok :: "kernel \<Rightarrow> bool" where
  "idle_ok s \<longleftrightarrow> (\<exists>i. idle_thread s = Some i \<and> st s i \<noteq> None \<and> st s i \<noteq> Some THREAD_DYING
     \<and> (\<exists>fs f. fr s i = fs @ [f, ThreadExit] \<and> (f = IdleLoop \<or> f = IdleWait) \<and> list_all quiet fs))"

definition leaving :: "kernel \<Rightarrow> bool" where
  "leaving s \<longleftrightarrow> apart ((in_place s)(Here := [])) \<and> statuses s \<and> ordered s \<and> idle_ok s
     \<and> (\<forall>x. st s x \<noteq> Some THREAD_RUNNING) \<and> st s (running s) \<noteq> None \<and> intr_off s"

definition settled :: "kernel \<Rightarrow> bool" where
  "settled s \<longleftrightarrow> apart (in_place s) \<and> statuses s \<and> ordered s
     \<and> (\<forall>x. st s x = Some THREAD_RUNNING \<longleftrightarrow> x = running s)"

definition top_priority :: "kernel \<Rightarrow> bool" where
  "top_priority s \<longleftrightarrow> idle_thread s = Some (running s) \<or> (\<forall>x \<in> set (ready_list s). prio s x \<le> prio s (running s))"

definition kernel_ok :: "kernel \<Rightarrow> bool" where
  "kernel_ok s \<longleftrightarrow> settled s \<and> idle_ok s"

definition kernel_wf :: "kernel \<Rightarrow> bool" where
  "kernel_wf s \<longleftrightarrow> settled s \<and> idle_ok s \<and> top_priority s"

text \<open>
  The frames that make the running thread give way: those of \<^verbatim>\<open>thread_set_priority\<close> from the store of the new priority to
  the call of \<^verbatim>\<open>thread_yield\<close>, if the thread that it has found is still ready and above the running one, and that call.
\<close>

fun gives_way :: "kernel \<Rightarrow> frame \<Rightarrow> bool" where
  "gives_way s (SetPriorityHead junk) = True"
| "gives_way s (SetPriorityTest junk (Some x)) \<longleftrightarrow> x \<in> set (ready_list s) \<and> prio s x > prio s (running s)"
| "gives_way s ThreadYield = True"
| "gives_way s _ = False"

definition fair :: "kernel \<Rightarrow> bool" where
  "fair s \<longleftrightarrow> top_priority s \<or> (\<exists>f \<in> set (fr s (running s)). gives_way s f)"

definition next_running :: "kernel \<Rightarrow> nat" where
  "next_running s = (case ready_list s of [] \<Rightarrow> the (idle_thread s) | x # xs \<Rightarrow> x)"

definition dies :: "kernel \<Rightarrow> bool" where
  "dies s \<longleftrightarrow> st s (running s) = Some THREAD_DYING \<and> running s \<noteq> initial_thread s \<and> running s \<noteq> next_running s"

lemma starts_simps [simp]:
  "starts [] = []" "starts (f # fs) = (case f of StartThread x body \<Rightarrow> [x] | _ \<Rightarrow> []) @ starts fs"
  "starts (fs @ gs) = starts fs @ starts gs"
  by (simp_all add: starts_def)

lemma in_place_simps [simp]:
  "in_place s Ready = ready_list s" "in_place s (Waiting i) = waiters (semas s i)" "in_place s (Starting y) = starts (fr s y)"
  "in_place s Here = (if idle_thread s = Some (running s) then [] else [running s])"
  "in_place s Idle = (case idle_thread s of None \<Rightarrow> [] | Some i \<Rightarrow> [i])"
  by (simp_all add: in_place_def)

lemma apart_less: "apart f \<Longrightarrow> (\<And>p. set (g p) \<subseteq> set (f p)) \<Longrightarrow> (\<And>p. distinct (g p)) \<Longrightarrow> apart g"
  unfolding apart_def by blast

lemma apart_move:
  assumes "apart f" and "\<And>p. distinct (g p)" and "\<And>p. p \<noteq> q \<Longrightarrow> set (g p) \<subseteq> set (f p) - {x}" and "set (g q) \<subseteq> insert x (set (f q))"
  shows "apart g"
  using assms unfolding apart_def by (metis Diff_iff insert_iff subsetD)

lemma apartD: "apart f \<Longrightarrow> x \<in> set (f p) \<Longrightarrow> x \<in> set (f q) \<Longrightarrow> p = q"
  unfolding apart_def by blast

lemma apart_distinct: "apart f \<Longrightarrow> distinct (f p)"
  unfolding apart_def by blast

lemma schedule_view:
  assumes "leaving s"
  shows "\<exists>s'. schedule s = Some s' \<and> running s' = next_running s \<and> ready_list s' = tl (ready_list s) \<and> semas s' = semas s
    \<and> idle_thread s' = idle_thread s \<and> holder s' = holder s \<and> intr_off s' = intr_off s
    \<and> in_external_intr s' = in_external_intr s
    \<and> st s' = (if dies s then (st s)(running s := None) else st s)(next_running s := Some THREAD_RUNNING)
    \<and> fr s' = (if dies s then (fr s)(running s := []) else fr s)
    \<and> (\<forall>x. st s' x \<noteq> None \<longrightarrow> prio s' x = prio s x) \<and> st s (next_running s) \<noteq> None"
proof -
  let ?n = "next_running s"
  have cur: "st s (running s) \<noteq> None" "intr_off s" "st s (running s) \<noteq> Some THREAD_RUNNING"
    using assms by (auto simp: leaving_def)
  then obtain t where t: "threads s (running s) = Some t" "status t \<noteq> THREAD_RUNNING" by (auto simp: st_def)
  have n: "st s ?n \<noteq> None" using assms by (auto simp: leaving_def next_running_def idle_ok_def statuses_def split: list.split)
  then obtain u where u: "threads s ?n = Some u" by (auto simp: st_def)
  define s1 where "s1 = s\<lparr>ready_list := tl (ready_list s), running := ?n\<rparr>"
  define s2 where "s2 = (upd_thread ?n (\<lambda>t. t\<lparr>status := THREAD_RUNNING\<rparr>) s1)\<lparr>thread_ticks := 0\<rparr>"
  define s3 where "s3 = (if dies s then s2\<lparr>threads := (threads s2)(running s := None)\<rparr> else s2)"
  have "next_thread_to_run s = (Some ?n, s\<lparr>ready_list := tl (ready_list s)\<rparr>)"
    using assms by (cases "ready_list s") (auto simp: next_thread_to_run_def next_running_def leaving_def idle_ok_def)
  moreover have "s\<lparr>ready_list := tl (ready_list s)\<rparr> = s1" if "running s = ?n"
    using that unfolding s1_def by (cases s) simp
  ultimately have "schedule s = (if running s \<noteq> ?n then thread_schedule_tail (Some (running s)) s1 else thread_schedule_tail None s1)"
    using t u cur(2) by (simp add: schedule_def is_thread_def Let_def) (simp add: s1_def)
  also have "\<dots> = Some s3"
  proof (cases "running s = ?n")
    case True
    then show ?thesis using cur(2) by (simp add: thread_schedule_tail_def Let_def s3_def dies_def) (simp add: s2_def s1_def)
  next
    case False
    moreover have "threads s2 (running s) = Some t" using False t by (simp add: s2_def s1_def upd_thread_def)
    ultimately show ?thesis
      using cur(2) t by (simp add: thread_schedule_tail_def Let_def s3_def dies_def s2_def [symmetric] st_def)
        (simp add: s2_def s1_def Let_def)
  qed
  finally have "schedule s = Some s3" .
  moreover have "st s3 = (if dies s then (st s)(running s := None) else st s)(?n := Some THREAD_RUNNING)"
    using u by (auto simp: s3_def s2_def s1_def st_def upd_thread_def dies_def fun_eq_iff)
  moreover have "fr s3 = (if dies s then (fr s)(running s := []) else fr s)"
    using u by (auto simp: s3_def s2_def s1_def fr_def upd_thread_def dies_def fun_eq_iff)
  moreover have "prio s3 x = prio s x" if "st s3 x \<noteq> None" for x
    using u that by (auto simp: s3_def s2_def s1_def prio_def st_def upd_thread_def dies_def)
  ultimately show ?thesis using n by (intro exI [of _ s3]) (simp add: s3_def s2_def s1_def)
qed

lemma by_priority_cong: "by_priority s xs \<Longrightarrow> (\<And>x. x \<in> set xs \<Longrightarrow> prio s' x = prio s x) \<Longrightarrow> by_priority s' xs"
  unfolding by_priority_def by (rule sorted_wrt_mono_rel [rotated]) auto

lemma by_priority_tl: "by_priority s xs \<Longrightarrow> by_priority s (tl xs)"
  by (cases xs) (simp_all add: by_priority_def)

text \<open>After \<^verbatim>\<open>schedule\<close> the thread of the highest priority runs.\<close>

lemma schedule_wf:
  assumes l: "leaving s" and sch: "schedule s = Some s'"
  shows "kernel_wf s'"
proof -
  let ?n = "next_running s"
  from schedule_view [OF l] sch have v: "running s' = ?n" "ready_list s' = tl (ready_list s)" "semas s' = semas s"
    "idle_thread s' = idle_thread s" "st s' = (if dies s then (st s)(running s := None) else st s)(?n := Some THREAD_RUNNING)"
    "fr s' = (if dies s then (fr s)(running s := []) else fr s)" "\<And>x. st s' x \<noteq> None \<Longrightarrow> prio s' x = prio s x" by auto
  have ap: "apart ((in_place s)(Here := []))" and sts: "statuses s" and o: "ordered s" and i: "idle_ok s"
    and nr: "\<And>x. st s x \<noteq> Some THREAD_RUNNING" using l by (auto simp: leaving_def)
  obtain p where p: "p = Ready \<or> p = Idle" "?n \<in> set (((in_place s)(Here := [])) p)"
    using i by (cases "ready_list s") (force simp: next_running_def idle_ok_def)+
  have tl: "?n \<notin> set (tl (ready_list s))"
    using apart_distinct [OF ap, of Ready] by (cases "ready_list s") (auto simp: next_running_def)
  have wt: "?n \<notin> set (waiters (semas s j))" for j using apartD [OF ap p(2), of "Waiting j"] p(1) by auto
  have sr: "?n \<notin> set (starts (fr s y))" for y using apartD [OF ap p(2), of "Starting y"] p(1) by auto
  have keep: "st s' x = st s x" if "st s x = Some THREAD_READY \<or> st s x = Some THREAD_BLOCKED" "x \<noteq> ?n" for x
    using that by (auto simp: v(5) dies_def)
  have sub: "set (starts (fr s' y)) \<subseteq> set (starts (fr s y))" "distinct (starts (fr s' y))" for y
    using apart_distinct [OF ap, of "Starting y"] by (auto simp: v(6))
  have same: "x \<in> set (tl (ready_list s)) \<Longrightarrow> st s' x = st s x" "x \<in> set (waiters (semas s j)) \<Longrightarrow> st s' x = st s x" for x j
    using keep [of x] sts tl wt by (auto simp: statuses_def dest: in_set_tlD)
  have new: "st s' x = Some THREAD_BLOCKED" if "x \<in> set (starts (fr s' y))" for x y
  proof -
    have x: "x \<in> set (starts (fr s y))" using that sub(1) by blast
    then have "st s x = Some THREAD_BLOCKED" using sts by (auto simp: statuses_def)
    moreover have "x \<noteq> ?n" using x sr by blast
    ultimately show ?thesis using keep by simp
  qed
  have "statuses s'"
    using sts new by (auto simp: statuses_def v(2,3) same dest: in_set_tlD)
  moreover have "ordered s'"
  proof -
    have "prio s' x = prio s x" if "x \<in> set (tl (ready_list s)) \<or> x \<in> set (waiters (semas s j))" for x j
    proof -
      have "st s' x = st s x" using that same by blast
      moreover have "st s x \<noteq> None" using that sts by (auto simp: statuses_def dest!: in_set_tlD)
      ultimately show ?thesis using v(7) by simp
    qed
    then show ?thesis
      using o by (auto simp: ordered_def v(2,3) intro: by_priority_cong [OF by_priority_tl] by_priority_cong)
  qed
  moreover have "idle_ok s'"
  proof -
    obtain k where k: "idle_thread s = Some k" using i by (auto simp: idle_ok_def)
    have "\<not> (dies s \<and> running s = k)" using i by (auto simp: idle_ok_def k dies_def)
    then show ?thesis using i by (auto simp: idle_ok_def k v(4-6))
  qed
  moreover have "apart (in_place s')"
  proof (cases "ready_list s")
    case Nil
    then have "idle_thread s = Some ?n" using i by (auto simp: next_running_def idle_ok_def)
    then have "set (in_place s' q) \<subseteq> set (((in_place s)(Here := [])) q)" "distinct (in_place s' q)" for q
      using sub apart_distinct [OF ap, of q] by (cases q; auto simp: v(1-4) Nil)+
    then show ?thesis using apart_less [OF ap] by blast
  next
    case (Cons x xs)
    then have x: "?n = x" "idle_thread s \<noteq> Some ?n"
      using apartD [OF ap, of x Ready Idle] by (auto simp: next_running_def)
    have "distinct (in_place s' q)" for q using sub apart_distinct [OF ap, of q] by (cases q; auto simp: v(1-4) Cons)
    moreover have "set (in_place s' q) \<subseteq> set (((in_place s)(Here := [])) q) - {?n}" if "q \<noteq> Here" for q
      using that sub(1) tl wt sr x by (cases q) (auto simp: v(1-4) Cons split: option.split)
    moreover have "set (in_place s' Here) \<subseteq> insert ?n (set (((in_place s)(Here := [])) Here))" by (simp add: v(1))
    ultimately show ?thesis using apart_move [OF ap] by blast
  qed
  moreover have "(st s' x = Some THREAD_RUNNING) = (x = running s')" for x
    using nr [of x] by (auto simp: v(1,5))
  moreover have "top_priority s'"
  proof (cases "ready_list s")
    case Nil
    then show ?thesis by (simp add: top_priority_def v(2))
  next
    case (Cons x xs)
    moreover have "prio s' y = prio s y" if "y \<in> set (x # xs)" for y
      using that sts keep [of y] v(5) v(7) [of y] Cons by (cases "y = ?n") (auto simp: statuses_def)
    ultimately show ?thesis
      using o by (simp add: top_priority_def v(1,2) next_running_def ordered_def by_priority_def)
  qed
  ultimately show ?thesis by (simp add: kernel_wf_def settled_def)
qed

lemma set_ins_ord [simp]: "set (ins_ord lt x xs) = insert x (set xs)"
  unfolding ins_ord_def by (metis insert_is_Un list.simps(15) set_append sup.left_commute takeWhile_dropWhile_id)

lemma distinct_ins_ord: "distinct xs \<Longrightarrow> x \<notin> set xs \<Longrightarrow> distinct (ins_ord lt x xs)"
  unfolding ins_ord_def by (metis distinct_append distinct.simps(2) disjoint_insert(1) list.simps(15) set_append takeWhile_dropWhile_id Un_iff)

lemma value_less_prio: "value_less s = (\<lambda>a b. prio s a > prio s b)"
  by (simp add: value_less_def fun_eq_iff)

lemma by_priority_ins_ord:
  assumes "by_priority s xs"
  shows "by_priority s (ins_ord (value_less s) x xs)"
proof -
  have le: "prio s x \<ge> prio s y" if "y \<in> set (dropWhile (\<lambda>y. \<not> value_less s x y) xs)" for y
    using assms that by (induction xs) (auto simp: by_priority_def value_less_def split: if_splits)
  have ge: "prio s y \<ge> prio s x" if "y \<in> set (takeWhile (\<lambda>y. \<not> value_less s x y) xs)" for y
    using set_takeWhileD [OF that] by (simp add: value_less_def)
  have "sorted_wrt (\<lambda>a b. prio s a \<ge> prio s b) (takeWhile (\<lambda>y. \<not> value_less s x y) xs @ dropWhile (\<lambda>y. \<not> value_less s x y) xs)"
    using assms by (simp add: by_priority_def)
  then show ?thesis
    using le ge by (auto simp: by_priority_def ins_ord_def sorted_wrt_append intro: order_trans)
qed

text \<open>
  The running thread leaves the processor for a queue, or for no place at all when it dies or is the
  idle thread.
\<close>

lemma leaving_move:
  assumes s: "settled s" and same: "running s' = running s" "idle_thread s' = idle_thread s" "prio s' = prio s" "intr_off s'"
    and st': "st s' = (st s)(running s := Some new)" and new: "new \<noteq> THREAD_RUNNING"
    and fr': "\<And>y. starts (fr s' y) = starts (fr s y)" and idle: "idle_ok s'"
    and pl: "\<And>p. p \<noteq> Here \<Longrightarrow> in_place s' p = (if q = Some p then ins_ord (value_less s) (running s) (in_place s p) else in_place s p)"
    and q: "q = None \<or> (q = Some Ready \<and> new = THREAD_READY \<or> (\<exists>i. q = Some (Waiting i)) \<and> new = THREAD_BLOCKED)
      \<and> idle_thread s \<noteq> Some (running s)"
  shows "leaving s'"
proof -
  let ?c = "running s"
  have ap: "apart (in_place s)" and sts: "statuses s" and o: "ordered s"
    and r: "\<And>x. st s x = Some THREAD_RUNNING \<longleftrightarrow> x = running s" using s by (auto simp: settled_def)
  have c: "?c \<notin> set (ready_list s)" "?c \<notin> set (waiters (semas s i))" "?c \<notin> set (starts (fr s y))" for i y
    using sts r [of ?c] by (auto simp: statuses_def)
  have rd: "ready_list s' = (if q = Some Ready then ins_ord (value_less s) ?c (ready_list s) else ready_list s)"
    using pl [of Ready] by simp
  have wt: "waiters (semas s' i) = (if q = Some (Waiting i) then ins_ord (value_less s) ?c (waiters (semas s i)) else waiters (semas s i))" for i
    using pl [of "Waiting i"] by simp
  have "statuses s'"
    using sts c q by (auto simp: statuses_def rd wt fr' st')
  moreover have "ordered s'"
    using o by (auto simp: ordered_def rd wt same(3) by_priority_def [of s'] by_priority_def [of s, symmetric] by_priority_ins_ord)
  moreover have "st s' x \<noteq> Some THREAD_RUNNING" for x using r [of x] new by (simp add: st')
  moreover have "apart ((in_place s')(Here := []))"
  proof (cases q)
    case None
    show ?thesis by (rule apart_less [OF ap]) (use pl None apart_distinct [OF ap] in auto)
  next
    case (Some p)
    then have p: "p \<noteq> Here" "?c \<notin> set (in_place s p)" "idle_thread s \<noteq> Some ?c" using q c by auto
    have "?c \<notin> set (in_place s p')" if "p' \<noteq> Here" for p'
      using apartD [OF ap, of ?c Here p'] that p(3) by auto
    moreover have "distinct (((in_place s')(Here := [])) p')" for p'
      using pl [of p'] apart_distinct [OF ap, of p'] p Some by (auto intro: distinct_ins_ord)
    ultimately show ?thesis
      by (intro apart_move [OF ap, of _ p ?c]) (use pl p Some in \<open>auto split: if_splits\<close>)
  qed
  ultimately show ?thesis using idle same(4) by (simp add: leaving_def st' same(1))
qed

lemma idle_ok_mono:
  assumes "idle_ok s" and "idle_thread s' = idle_thread s"
    and "\<And>i. idle_thread s = Some i \<Longrightarrow> st s i \<noteq> None \<Longrightarrow> st s i \<noteq> Some THREAD_DYING \<Longrightarrow>
      st s' i \<noteq> None \<and> st s' i \<noteq> Some THREAD_DYING \<and> (\<exists>pre. list_all quiet pre \<and> fr s' i = pre @ fr s i)"
  shows "idle_ok s'"
proof -
  from assms(1) obtain i fs f where i: "idle_thread s = Some i" "st s i \<noteq> None" "st s i \<noteq> Some THREAD_DYING"
    "fr s i = fs @ [f, ThreadExit]" "f = IdleLoop \<or> f = IdleWait" "list_all quiet fs" by (auto simp: idle_ok_def)
  with assms(3) obtain pre where "st s' i \<noteq> None" "st s' i \<noteq> Some THREAD_DYING" "list_all quiet pre" "fr s' i = pre @ fs @ [f, ThreadExit]"
    by metis
  with i assms(2) show ?thesis
    unfolding idle_ok_def by (intro exI [of _ i] conjI exI [of _ "pre @ fs"] exI [of _ f]) auto
qed

lemma thread_yield_view:
  assumes s: "settled s" and i: "idle_ok s" and e: "\<not> in_external_intr s"
  shows "\<exists>s'. thread_yield s = Some s' \<and> kernel_wf s' \<and> semas s' = semas s \<and> holder s' = holder s
    \<and> fr s' = (fr s)(running s := SetLevel (intr_off s) # fr s (running s)) \<and> (\<forall>x. st s' x = None \<longleftrightarrow> st s x = None)
    \<and> prio s' = prio s \<and> idle_thread s' = idle_thread s \<and> in_external_intr s' = in_external_intr s
    \<and> (idle_thread s \<noteq> Some (running s) \<longrightarrow> running s' # ready_list s' = ins_ord (value_less s) (running s) (ready_list s))"
proof -
  let ?c = "running s"
  have r: "st s ?c = Some THREAD_RUNNING" using s by (auto simp: settled_def)
  define s1 where "s1 = intr_disable (push [SetLevel (intr_off s)] s)"
  define s2 where "s2 = (if Some ?c \<noteq> idle_thread s then s1\<lparr>ready_list := ins_ord (value_less s1) ?c (ready_list s1)\<rparr> else s1)"
  define s3 where "s3 = upd_thread ?c (\<lambda>t. t\<lparr>status := THREAD_READY\<rparr>) s2"
  have y: "thread_yield s = schedule s3"
    using r e by (simp add: thread_yield_def thread_current_eq s3_def s2_def s1_def Let_def intr_disable_def)
  have v: "running s3 = ?c" "idle_thread s3 = idle_thread s" "prio s3 = prio s" "intr_off s3" "semas s3 = semas s" "holder s3 = holder s"
    "st s3 = (st s)(?c := Some THREAD_READY)" "fr s3 = (fr s)(?c := SetLevel (intr_off s) # fr s ?c)"
    "ready_list s3 = (if Some ?c \<noteq> idle_thread s then ins_ord (value_less s) ?c (ready_list s) else ready_list s)"
    using r by (auto simp: s3_def s2_def s1_def intr_disable_def value_less_prio fun_eq_iff)
  have pl: "in_place s3 p = (if (if Some ?c \<noteq> idle_thread s then Some Ready else None) = Some p
      then ins_ord (value_less s) ?c (in_place s p) else in_place s p)" if "p \<noteq> Here" for p
    using that by (cases p) (auto simp: v)
  have "idle_ok s3" by (rule idle_ok_mono [OF i]) (auto simp: v intro: exI [of _ "[SetLevel (intr_off s)]"])
  then have l: "leaving s3"
    by (intro leaving_move [OF s v(1-4) v(7) _ _ _ pl]) (auto simp: v)
  obtain s' where s': "schedule s3 = Some s'" "semas s' = semas s3" "holder s' = holder s3" "fr s' = (if dies s3 then (fr s3)(running s3 := []) else fr s3)"
    "st s' = (if dies s3 then (st s3)(running s3 := None) else st s3)(next_running s3 := Some THREAD_RUNNING)"
    "st s3 (next_running s3) \<noteq> None" "running s' = next_running s3" "ready_list s' = tl (ready_list s3)" "idle_thread s' = idle_thread s3"
    "in_external_intr s' = in_external_intr s3" "\<forall>x. st s' x \<noteq> None \<longrightarrow> prio s' x = prio s3 x" using schedule_view [OF l] by blast
  have nd: "\<not> dies s3" by (simp add: dies_def v)
  have "prio s' x = prio s x" for x
  proof (cases "st s' x = None")
    case True
    then have "st s x = None" using nd s'(5) r by (auto simp: v split: if_splits)
    with True show ?thesis by (simp add: prio_def st_def)
  qed (use s'(11) in \<open>simp add: v\<close>)
  moreover have "running s' # ready_list s' = ins_ord (value_less s) ?c (ready_list s)" if "idle_thread s \<noteq> Some ?c"
    using that by (cases "ready_list s3") (auto simp: s'(7,8) next_running_def v ins_ord_def)
  moreover have "in_external_intr s3 = in_external_intr s" by (simp add: s3_def s2_def s1_def intr_disable_def)
  ultimately show ?thesis using s' y schedule_wf [OF l s'(1)] nd r by (intro exI [of _ s']) (auto simp: v)
qed

lemma thread_yield_wf:
  assumes "settled s" and "idle_ok s" and "\<not> in_external_intr s"
  shows "\<exists>s'. thread_yield s = Some s' \<and> kernel_wf s' \<and> semas s' = semas s \<and> holder s' = holder s
    \<and> fr s' = (fr s)(running s := SetLevel (intr_off s) # fr s (running s)) \<and> (\<forall>x. st s' x = None \<longleftrightarrow> st s x = None)"
  using thread_yield_view [OF assms] by blast


text \<open>
  What scheduling leaves alone: holders, values of semaphores, which threads exist, and the frames of
  threads but for those that the running thread has got on top of its own.
\<close>

definition keeps :: "kernel \<Rightarrow> kernel \<Rightarrow> frame list \<Rightarrow> bool" where
  "keeps s s' fs \<longleftrightarrow> holder s' = holder s \<and> (\<forall>i. sema_value (semas s' i) = sema_value (semas s i))
     \<and> (\<forall>x. st s' x = None \<longleftrightarrow> st s x = None) \<and> fr s' = (fr s)(running s := fs @ fr s (running s))"

lemma block_wf:
  assumes s: "settled s" and i: "idle_ok s1" and blk: "thread_block s1 = Some s'"
    and v: "running s1 = running s" "idle_thread s1 = idle_thread s" "prio s1 = prio s" "st s1 = st s" "holder s1 = holder s"
      "fr s1 = (fr s)(running s := fs @ fr s (running s))" "starts fs = []" "\<And>i. sema_value (semas s1 i) = sema_value (semas s i)"
    and pl: "\<And>p. p \<noteq> Here \<Longrightarrow> in_place s1 p = (if q = Some p then ins_ord (value_less s) (running s) (in_place s p) else in_place s p)"
    and q: "q = None \<or> (\<exists>i. q = Some (Waiting i)) \<and> idle_thread s \<noteq> Some (running s)"
  shows "kernel_wf s' \<and> keeps s s' fs"
proof -
  let ?c = "running s"
  have r: "st s ?c = Some THREAD_RUNNING" using s by (auto simp: settled_def)
  define s2 where "s2 = upd_thread ?c (\<lambda>t. t\<lparr>status := THREAD_BLOCKED\<rparr>) s1"
  have b: "schedule s2 = Some s'" "intr_off s1"
    using blk r by (auto simp: thread_block_def thread_current_eq v s2_def bind_Some_iff split: if_splits)
  have w: "running s2 = ?c" "idle_thread s2 = idle_thread s" "prio s2 = prio s" "intr_off s2" "st s2 = (st s)(?c := Some THREAD_BLOCKED)"
    "fr s2 = fr s1" "semas s2 = semas s1" "holder s2 = holder s1" "ready_list s2 = ready_list s1"
    using r b(2) by (auto simp: s2_def v fun_eq_iff)
  have "in_place s2 p = in_place s1 p" for p by (cases p) (simp_all add: w v)
  note pl2 = pl [folded this]
  have "idle_ok s2" by (rule idle_ok_mono [OF i]) (auto simp: w v intro: exI [of _ "[]"])
  then have l: "leaving s2"
    by (intro leaving_move [OF s w(1-5) _ _ _ pl2]) (use q v(7) in \<open>auto simp: w v\<close>)
  obtain t where t: "schedule s2 = Some t" "semas t = semas s2" "holder t = holder s2" "fr t = (if dies s2 then (fr s2)(running s2 := []) else fr s2)"
    "st t = (if dies s2 then (st s2)(running s2 := None) else st s2)(next_running s2 := Some THREAD_RUNNING)"
    "st s2 (next_running s2) \<noteq> None" using schedule_view [OF l] by blast
  have "\<not> dies s2" by (simp add: dies_def w)
  with t b schedule_wf [OF l b(1)] r show ?thesis by (auto simp: w v keeps_def)
qed

lemma sema_loop_blocks:
  assumes s: "settled s" "idle_ok s" and i: "idle_thread s \<noteq> Some (running s)" and z: "sema_value (semas s i) = 0" and ex: "sema_loop i s = Some s'"
  shows "kernel_wf s' \<and> keeps s s' [SemaLoop i]"
proof -
  let ?c = "running s"
  have r: "st s ?c = Some THREAD_RUNNING" using s(1) by (auto simp: settled_def)
  let ?q = "(semas s i)\<lparr>waiters := ins_ord (value_less s) ?c (waiters (semas s i))\<rparr>"
  let ?s = "push [SemaLoop i] (s\<lparr>semas := (semas s)(i := ?q)\<rparr>)"
  have b: "thread_block ?s = Some s'" using ex z r by (simp add: sema_loop_def thread_current_eq Let_def)
  have pl: "in_place ?s p = (if Some (Waiting i) = Some p then ins_ord (value_less s) ?c (in_place s p) else in_place s p)" if "p \<noteq> Here" for p
    using that r by (cases p) auto
  have "idle_ok ?s" by (rule idle_ok_mono [OF s(2)]) (use r i in \<open>auto intro: exI [of _ "[]"]\<close>)
  then show ?thesis by (rule block_wf [OF s(1) _ b, where q = "Some (Waiting i)"]) (use r i pl in auto)
qed

lemma idle_loop_wf:
  assumes s: "settled s" "idle_ok (push [IdleWait] (intr_disable s))" and ex: "idle_loop s = Some s'"
  shows "kernel_wf s' \<and> keeps s s' [IdleWait]"
proof -
  let ?c = "running s"
  have r: "st s ?c = Some THREAD_RUNNING" using s(1) by (auto simp: settled_def)
  let ?s = "push [IdleWait] (intr_disable s)"
  have b: "thread_block ?s = Some s'" using ex by (simp add: idle_loop_def)
  have pl: "in_place ?s p = in_place s p" if "p \<noteq> Here" for p
    using that r by (cases p) (auto simp: intr_disable_def)
  show ?thesis by (rule block_wf [OF s(1) s(2) b, where q = None]) (use r pl in \<open>auto simp: intr_disable_def\<close>)
qed

definition levels :: "frame list \<Rightarrow> bool" where
  "levels fs \<longleftrightarrow> (\<forall>f \<in> set fs. \<exists>off. f = SetLevel off)"

lemma levels_simps [simp]: "levels []" "levels (f # fs) \<longleftrightarrow> (\<exists>off. f = SetLevel off) \<and> levels fs"
  by (simp_all add: levels_def)

lemma levels_starts: "levels fs \<Longrightarrow> starts fs = []"
  by (induction fs) auto

lemma thread_unblock_ready:
  assumes s: "settled s" and i: "idle_ok s" and x: "st s x = Some THREAD_BLOCKED" "\<And>p. x \<notin> set (in_place s p)"
  shows "\<exists>t. settled t \<and> idle_ok t \<and> keeps s t [SetLevel (intr_off s)] \<and> running t = running s \<and> idle_thread t = idle_thread s
    \<and> prio t = prio s \<and> semas t = semas s \<and> in_external_intr t = in_external_intr s
    \<and> ready_list t = ins_ord (value_less s) x (ready_list s)
    \<and> thread_unblock x s = (if prio s (running s) < prio s (hd (ready_list t)) \<and> idle_thread s \<noteq> Some (running s) then thread_yield t else Some t)"
proof -
  let ?c = "running s"
  have ap: "apart (in_place s)" and sts: "statuses s" and o: "ordered s"
    and r: "\<And>y. st s y = Some THREAD_RUNNING \<longleftrightarrow> y = running s" using s by (auto simp: settled_def)
  have rc: "st s ?c = Some THREAD_RUNNING" using r by blast
  define s1 where "s1 = intr_disable (push [SetLevel (intr_off s)] s)"
  define t where "t = upd_thread x (\<lambda>t. t\<lparr>status := THREAD_READY\<rparr>) (s1\<lparr>ready_list := ins_ord (value_less s1) x (ready_list s1)\<rparr>)"
  have v: "running t = ?c" "idle_thread t = idle_thread s" "prio t = prio s" "semas t = semas s" "holder t = holder s"
    "st t = (st s)(x := Some THREAD_READY)" "fr t = (fr s)(?c := SetLevel (intr_off s) # fr s ?c)"
    "ready_list t = ins_ord (value_less s) x (ready_list s)" "in_external_intr t = in_external_intr s"
    using rc x(1) by (auto simp: t_def s1_def intr_disable_def value_less_prio fun_eq_iff)
  have nx: "x \<noteq> ?c" "x \<notin> set (ready_list s)" "\<And>j. x \<notin> set (waiters (semas s j))" "\<And>y. x \<notin> set (starts (fr s y))"
    using rc x(1) x(2) [of Ready] x(2) [of "Waiting _"] x(2) [of "Starting _"] by auto
  have st1: "starts (fr t y) = starts (fr s y)" for y by (simp add: v)
  have "in_place t p = (if p = Ready then ins_ord (value_less s) x (ready_list s) else in_place s p)" for p
    by (cases p) (simp_all add: v)
  then have "apart (in_place t)"
    by (intro apart_move [OF ap, of _ Ready x]) (use x(2) nx apart_distinct [OF ap] apart_distinct [OF ap, of Ready] in \<open>auto simp: distinct_ins_ord v(8)\<close>)
  moreover have "statuses t" using sts nx by (auto simp: statuses_def v(4,6,8) st1)
  moreover have "ordered t"
    using o by (auto simp: ordered_def v by_priority_def [of t] by_priority_def [of s, symmetric] by_priority_ins_ord)
  ultimately have "settled t" using r nx(1) rc by (auto simp: settled_def v)
  moreover have "idle_ok t" by (rule idle_ok_mono [OF i]) (auto simp: v intro: exI [of _ "[SetLevel (intr_off s)]"])
  moreover have "keeps s t [SetLevel (intr_off s)]" using x(1) by (auto simp: keeps_def v)
  moreover have "thread_unblock x s = (if prio s ?c < prio s (hd (ready_list t)) \<and> idle_thread s \<noteq> Some ?c then thread_yield t else Some t)"
  proof -
    obtain h hs where h: "ready_list t = h # hs" by (cases "ready_list t") (auto simp: v ins_ord_def)
    have "threads s1 x \<noteq> None" "st s1 x = Some THREAD_BLOCKED" "is_thread s x" using x(1) threads_st(2) [of s x] threads_st(2) [of s1 x]
      by (auto simp: s1_def is_thread_def)
    then obtain u where "threads s1 x = Some u" "status u = THREAD_BLOCKED" "is_thread s x" by (auto simp: st_def)
    then show ?thesis
      using h rc nx(1) unfolding thread_unblock_def Let_def s1_def [symmetric] t_def [symmetric] by (auto simp: thread_current_eq v)
  qed
  ultimately show ?thesis using v by (intro exI [of _ t]) simp
qed

lemma thread_unblock_wf:
  assumes s: "settled s" and i: "idle_ok s" and x: "st s x = Some THREAD_BLOCKED" "\<And>p. x \<notin> set (in_place s p)" and ex: "thread_unblock x s = Some s'"
  shows "kernel_wf s' \<and> (\<exists>fs. levels fs \<and> keeps s s' fs)"
proof -
  let ?c = "running s"
  from thread_unblock_ready [OF s i x] obtain t where t: "settled t" "idle_ok t" "keeps s t [SetLevel (intr_off s)]" "running t = ?c"
    "idle_thread t = idle_thread s" "prio t = prio s" "ready_list t = ins_ord (value_less s) x (ready_list s)"
    "thread_unblock x s = (if prio s ?c < prio s (hd (ready_list t)) \<and> idle_thread s \<noteq> Some ?c then thread_yield t else Some t)" by blast
  show ?thesis
  proof (cases "prio s ?c < prio s (hd (ready_list t)) \<and> idle_thread s \<noteq> Some ?c")
    case True
    with t(8) ex have y: "thread_yield t = Some s'" by simp
    then have "\<not> in_external_intr t" by (auto simp: thread_yield_def bind_Some_iff)
    from thread_yield_wf [OF t(1,2) this] y have "kernel_wf s'" "keeps t s' [SetLevel (intr_off t)]"
      by (auto simp: keeps_def)
    moreover from this(2) t(3,4) have "keeps s s' [SetLevel (intr_off t), SetLevel (intr_off s)]" by (auto simp: keeps_def)
    ultimately show ?thesis by (intro conjI exI [of _ "[SetLevel (intr_off t), SetLevel (intr_off s)]"]) auto
  next
    case False
    with t(8) ex have "s' = t" by simp
    moreover have "by_priority t (ready_list t)" using t(1) by (auto simp: settled_def ordered_def)
    with False have "top_priority t" by (cases "ready_list t") (auto simp: top_priority_def t(4-6) by_priority_def)
    ultimately show ?thesis using t(1-3) by (intro conjI exI [of _ "[SetLevel (intr_off s)]"]) (auto simp: kernel_wf_def)
  qed
qed

lemma thread_exit_wf:
  assumes s: "settled s" and io: "idle_ok s" and i: "idle_thread s \<noteq> Some (running s)" and ex: "thread_exit s = Some s'"
  shows "kernel_wf s' \<and> holder s' = holder s \<and> semas s' = semas s
    \<and> (fr s' = (fr s)(running s := []) \<and> (\<forall>x. st s' x = None \<longleftrightarrow> x = running s \<or> st s x = None)
       \<or> fr s' = fr s \<and> (\<forall>x. st s' x = None \<longleftrightarrow> st s x = None))"
proof -
  let ?c = "running s"
  have r: "st s ?c = Some THREAD_RUNNING" using s by (auto simp: settled_def)
  define s2 where "s2 = upd_thread ?c (\<lambda>t. t\<lparr>status := THREAD_DYING\<rparr>) ((intr_disable s)\<lparr>all_list := remove1 ?c (all_list s)\<rparr>)"
  have b: "schedule s2 = Some s'"
    using ex r by (auto simp: thread_exit_def thread_current_eq s2_def bind_Some_iff Let_def intr_disable_def split: if_splits)
  have w: "running s2 = ?c" "idle_thread s2 = idle_thread s" "prio s2 = prio s" "intr_off s2" "st s2 = (st s)(?c := Some THREAD_DYING)"
    "fr s2 = fr s" "semas s2 = semas s" "holder s2 = holder s" "ready_list s2 = ready_list s"
    using r by (auto simp: s2_def fun_eq_iff intr_disable_def)
  have pl: "in_place s2 p = (if None = Some p then ins_ord (value_less s) ?c (in_place s p) else in_place s p)" for p
    by (cases p) (simp_all add: w)
  have "idle_ok s2" by (rule idle_ok_mono [OF io]) (use i in \<open>auto simp: w intro: exI [of _ "[]"]\<close>)
  then have l: "leaving s2" by (intro leaving_move [OF s w(1-5) _ _ _ pl]) (auto simp: w)
  from schedule_view [OF l] b have t: "semas s' = semas s2" "holder s' = holder s2" "fr s' = (if dies s2 then (fr s2)(running s2 := []) else fr s2)"
    "st s' = (if dies s2 then (st s2)(running s2 := None) else st s2)(next_running s2 := Some THREAD_RUNNING)"
    "st s2 (next_running s2) \<noteq> None" by auto
  with schedule_wf [OF l b] r show ?thesis by (auto simp: w dies_def)
qed

end
