(* ===== verification/SchedInv.thy ===== *)
theory SchedInv
  imports Sched
begin

text \<open>
  The invariants of the scheduler: every step keeps \<open>kernel_ok\<close>, that is, every thread is in one place and the
  queues are ordered by priority; and \<open>fair\<close>: no ready thread has a higher priority than the one that runs, or the one that
  runs has set its priority and is on its way to \<^verbatim>\<open>thread_yield\<close>. The theory also says what each step does to locks.
\<close>

subsection \<open>Operations that leave the queues alone\<close>

definition neutral :: "kernel \<Rightarrow> kernel \<Rightarrow> frame list \<Rightarrow> bool" where
  "neutral s s' gs \<longleftrightarrow> running s' = running s \<and> idle_thread s' = idle_thread s \<and> ready_list s' = ready_list s
     \<and> st s' = st s \<and> prio s' = prio s \<and> (\<forall>i. waiters (semas s' i) = waiters (semas s i) \<or> waiters (semas s' i) = [])
     \<and> fr s' = (fr s)(running s := gs @ fr s (running s)) \<and> starts gs = []"

lemma settled_less:
  assumes s: "settled s" and v: "running s' = running s" "idle_thread s' = idle_thread s" "ready_list s' = ready_list s" "st s' = st s" "prio s' = prio s"
    and w: "\<And>i. waiters (semas s' i) = waiters (semas s i) \<or> waiters (semas s' i) = tl (waiters (semas s i)) \<or> waiters (semas s' i) = []"
    and f: "\<And>y. starts (fr s' y) = starts (fr s y) \<or> starts (fr s' y) = tl (starts (fr s y)) \<or> starts (fr s' y) = []"
  shows "settled s'"
proof -
  have ap: "apart (in_place s)" and sts: "statuses s" and o: "ordered s"
    and r: "\<And>y. st s y = Some THREAD_RUNNING \<longleftrightarrow> y = running s" using s by (auto simp: settled_def)
  have ws: "set (waiters (semas s' i)) \<subseteq> set (waiters (semas s i))" for i using w [of i] by (auto dest: in_set_tlD)
  have fs: "set (starts (fr s' y)) \<subseteq> set (starts (fr s y))" for y using f [of y] by (auto dest: in_set_tlD)
  have "statuses s'" using sts ws fs unfolding statuses_def v by blast
  moreover have "by_priority s' (waiters (semas s' i))" for i
    using o w [of i] by (auto simp: ordered_def by_priority_def v dest!: spec [of _ i]) (metis by_priority_def by_priority_tl)
  then have "ordered s'" using o by (simp add: ordered_def by_priority_def v)
  moreover have "apart (in_place s')"
  proof (rule apart_less [OF ap])
    fix p
    show "set (in_place s' p) \<subseteq> set (in_place s p)" using ws fs by (cases p) (auto simp: v)
    show "distinct (in_place s' p)"
      using apart_distinct [OF ap, of p] w f by (cases p) (auto simp: v dest: distinct_tl, (metis distinct.simps(1) distinct_tl)+)
  qed
  ultimately show ?thesis using r by (simp add: settled_def v)
qed

lemma neutral_wf:
  assumes s: "kernel_ok s" and n: "neutral s s' gs" and q: "idle_thread s = Some (running s) \<Longrightarrow> list_all quiet gs"
  shows "kernel_ok s'"
proof -
  have "settled s'" by (rule settled_less [of s]) (use s n in \<open>auto simp: kernel_ok_def neutral_def\<close>)
  moreover have "idle_ok s'"
    by (rule idle_ok_mono [of s]) (use s n q in \<open>auto simp: kernel_ok_def neutral_def intro: exI [of _ "[]"]\<close>)
  ultimately show ?thesis by (simp add: kernel_ok_def)
qed

lemma settled_running [simp]: "settled s \<Longrightarrow> st s (running s) = Some THREAD_RUNNING"
  by (simp add: settled_def)

lemma kernel_wf_ok: "kernel_wf s \<longleftrightarrow> kernel_ok s \<and> top_priority s"
  by (auto simp: kernel_wf_def kernel_ok_def)

lemma kernel_ok_running [simp]: "kernel_ok s \<Longrightarrow> st s (running s) = Some THREAD_RUNNING"
  by (simp add: kernel_ok_def)

lemma view_wakeup [simp]:
  "st (upd_thread x (\<lambda>t. t\<lparr>wakeupTime := v\<rparr>) s) = st s" "prio (upd_thread x (\<lambda>t. t\<lparr>wakeupTime := v\<rparr>) s) = prio s"
  "fr (upd_thread x (\<lambda>t. t\<lparr>wakeupTime := v\<rparr>) s) = fr s"
  by (auto simp: st_def prio_def fr_def upd_thread_def fun_eq_iff option.map_comp comp_def split: option.split)

lemmas quiet_ops = neutral_def keeps_def thread_current_eq bind_Some_iff Let_def

lemma intr_set_level_neutral: "kernel_ok s \<Longrightarrow> intr_set_level off s = Some s' \<Longrightarrow> neutral s s' [] \<and> keeps s s' []"
  by (auto simp: quiet_ops intr_set_level_def intr_disable_def intr_enable_def split: if_splits)

lemma intr_enable_neutral: "kernel_ok s \<Longrightarrow> intr_enable s = Some s' \<Longrightarrow> neutral s s' [] \<and> keeps s s' []"
  by (auto simp: quiet_ops intr_enable_def)

lemma sema_down_neutral:
  "kernel_ok s \<Longrightarrow> sema_down i s = Some s' \<Longrightarrow> neutral s s' [SemaLoop i, SetLevel (intr_off s)] \<and> keeps s s' [SemaLoop i, SetLevel (intr_off s)]"
  by (auto simp: quiet_ops sema_down_def intr_disable_def)

lemma lock_acquire_neutral:
  "kernel_ok s \<Longrightarrow> lock_acquire l s = Some s' \<Longrightarrow>
    neutral s s' [SemaDown (LockSema l), SetHolder l] \<and> keeps s s' [SemaDown (LockSema l), SetHolder l]"
  by (auto simp: quiet_ops lock_acquire_def)

lemma set_holder_neutral:
  "kernel_ok s \<Longrightarrow> set_holder l s = Some s' \<Longrightarrow> neutral s s' [] \<and> s' = s\<lparr>holder := (holder s)(l := Some (running s))\<rparr>"
  by (auto simp: quiet_ops set_holder_def)

lemma lock_release_neutral:
  "kernel_ok s \<Longrightarrow> lock_release l s = Some s' \<Longrightarrow> neutral s s' [SemaUp (LockSema l)] \<and> holder s l = Some (running s)
    \<and> s' = push [SemaUp (LockSema l)] (s\<lparr>holder := (holder s)(l := None)\<rparr>)"
  by (auto simp: quiet_ops lock_release_def lock_held_by_current_thread_def)

lemma cond_signal_neutral:
  assumes "kernel_ok s" and "cond_signal c l s = Some s'"
  shows "\<exists>gs. (gs = [] \<or> (\<exists>x. gs = [SemaUp (WaiterSema x)])) \<and> neutral s s' gs \<and> keeps s s' gs"
proof (cases "cond_waiters s c")
  case Nil
  then have "s' = s" using assms by (auto simp: cond_signal_def bind_Some_iff)
  then show ?thesis using assms(1) by (intro exI [of _ "[]"]) (simp add: quiet_ops)
next
  case (Cons x xs)
  then show ?thesis
    using assms by (intro exI [of _ "[SemaUp (WaiterSema x)]"]) (auto simp: quiet_ops cond_signal_def)
qed

lemma neutral_trans: "neutral s s1 gs \<Longrightarrow> neutral s1 s2 hs \<Longrightarrow> neutral s s2 (hs @ gs)"
  unfolding neutral_def by (simp, metis)

lemma keeps_trans: "keeps s s1 gs \<Longrightarrow> keeps s1 s2 hs \<Longrightarrow> running s1 = running s \<Longrightarrow> keeps s s2 (hs @ gs)"
  by (auto simp: keeps_def)

lemma push_nil: "push [] s = s"
proof -
  have "(threads s)(running s := map_option (\<lambda>t. t\<lparr>frames := [] @ frames t\<rparr>) (threads s (running s))) = threads s"
    by (cases "threads s (running s)") auto
  then show ?thesis by (simp add: push_def upd_thread_def)
qed

lemma push_neutral: "st s (running s) \<noteq> None \<Longrightarrow> starts gs = [] \<Longrightarrow> neutral s (push gs s) gs \<and> keeps s (push gs s) gs"
  by (auto simp: quiet_ops)

lemma cond_broadcast_neutral:
  assumes "kernel_ok s" and "idle_thread s \<noteq> Some (running s)" and "cond_broadcast c l s = Some s'"
  shows "\<exists>gs. (gs = [] \<or> gs = [CondBroadcast c l] \<or> (\<exists>x. gs = [SemaUp (WaiterSema x), CondBroadcast c l])) \<and> neutral s s' gs \<and> keeps s s' gs"
proof (cases "cond_waiters s c = []")
  case True
  then show ?thesis using assms by (intro exI [of _ "[]"]) (simp add: quiet_ops cond_broadcast_def)
next
  case False
  let ?s = "push [CondBroadcast c l] s"
  have p: "neutral s ?s [CondBroadcast c l]" "keeps s ?s [CondBroadcast c l]" using assms(1) push_neutral [of s "[CondBroadcast c l]"] by auto
  have "kernel_ok ?s" using neutral_wf [OF assms(1) p(1)] assms(2) by blast
  moreover have "cond_signal c l ?s = Some s'" using assms(3) False by (simp add: cond_broadcast_def)
  ultimately obtain gs where gs: "gs = [] \<or> (\<exists>x. gs = [SemaUp (WaiterSema x)])" "neutral ?s s' gs" "keeps ?s s' gs"
    using cond_signal_neutral by blast
  have "neutral s s' (gs @ [CondBroadcast c l])" "keeps s s' (gs @ [CondBroadcast c l])"
    using neutral_trans [OF p(1) gs(2)] keeps_trans [OF p(2) gs(3)] p(1) by (auto simp: neutral_def)
  then show ?thesis using gs(1) by (intro exI [of _ "gs @ [CondBroadcast c l]"]) auto
qed

lemma take_tid_neutral: "kernel_ok s \<Longrightarrow> neutral s (take_tid x s) [] \<and> keeps s (take_tid x s) []"
  by (auto simp: quiet_ops take_tid_def st_def prio_def fr_def upd_thread_def fun_eq_iff split: option.split)

lemma timer_loop_neutral:
  assumes "kernel_ok s"
  shows "\<exists>gs. (gs = [] \<or> (\<exists>x. gs = [SemaUp (SleepSema x), TimerLoop])) \<and> neutral s (timer_loop s) gs \<and> keeps s (timer_loop s) gs"
proof (cases "\<exists>x xs. wait_list s = x # xs \<and> wakeup s x \<le> ticks s")
  case True
  then obtain x xs where "wait_list s = x # xs" "wakeup s x \<le> ticks s" by blast
  then show ?thesis
    using assms by (intro exI [of _ "[SemaUp (SleepSema x), TimerLoop]"]) (auto simp: quiet_ops timer_loop_def)
next
  case False
  then have "timer_loop s = s" by (auto simp: timer_loop_def split: list.split)
  then show ?thesis using assms by (intro exI [of _ "[]"]) (simp add: quiet_ops)
qed

lemma intr_handler_neutral:
  "kernel_ok s \<Longrightarrow> intr_handler s = Some s' \<Longrightarrow> neutral s s' [TimerLoop, IntrReturn] \<and> keeps s s' [TimerLoop, IntrReturn]"
  by (auto simp: quiet_ops intr_handler_def timer_interrupt_def thread_tick_def intr_yield_on_return_def split: if_splits)

lemma idle_wait_neutral: "kernel_ok s \<Longrightarrow> idle_wait s = Some s' \<Longrightarrow> neutral s s' [IdleLoop] \<and> keeps s s' [IdleLoop]"
  by (auto simp: quiet_ops idle_wait_def)

lemma cond_wait_neutral:
  "kernel_ok s \<Longrightarrow> cond_wait junk c l s = Some s' \<Longrightarrow>
    neutral s s' [LockRelease l, SemaDown (WaiterSema (running s)), LockAcquire l]
    \<and> holder s' = holder s \<and> (\<forall>m. semas s' (LockSema m) = semas s (LockSema m))"
  by (auto simp: quiet_ops cond_wait_def sema_init_def lock_held_by_current_thread_def)

lemma timer_sleep_neutral:
  assumes "kernel_ok s" and "timer_sleep n s = Some s'"
  shows "\<exists>gs. (gs = [] \<or> gs = [SemaDown (SleepSema (running s))]) \<and> neutral s s' gs \<and> keeps s s' gs"
proof (cases "n > 0")
  case True
  then show ?thesis
    using assms by (intro exI [of _ "[SemaDown (SleepSema (running s))]"]) (auto simp: quiet_ops timer_sleep_def)
next
  case False
  then have "s' = s" using assms by (auto simp: timer_sleep_def bind_Some_iff split: if_splits)
  then show ?thesis using assms(1) by (intro exI [of _ "[]"]) (simp add: quiet_ops)
qed

subsection \<open>Operations that move threads\<close>

lemma sema_loop_passes:
  "kernel_ok s \<Longrightarrow> sema_loop i s = Some s' \<Longrightarrow> sema_value (semas s i) \<noteq> 0 \<Longrightarrow> neutral s s' [] \<and> holder s' = holder s
    \<and> semas s' = (semas s)(i := (semas s i)\<lparr>sema_value := sema_value (semas s i) - 1\<rparr>)"
  by (auto simp: quiet_ops sema_loop_def)

lemma sema_try_down_neutral:
  "kernel_ok s \<Longrightarrow> sema_try_down i s = (b, s') \<Longrightarrow> neutral s s' [] \<and> holder s' = holder s
    \<and> (if b then sema_value (semas s i) \<noteq> 0 \<and> semas s' = (semas s)(i := (semas s i)\<lparr>sema_value := sema_value (semas s i) - 1\<rparr>) else s' = s)"
  by (auto simp: quiet_ops sema_try_down_def word_neq_0_conv split: if_splits)

lemma lock_try_acquire_neutral:
  assumes "kernel_ok s" and "lock_try_acquire l s = Some (b, s')"
  shows "if b then neutral s s' [SetHolder l] \<and> holder s' = holder s \<and> sema_value (semas s (LockSema l)) \<noteq> 0
      \<and> semas s' = (semas s)(LockSema l := (semas s (LockSema l))\<lparr>sema_value := sema_value (semas s (LockSema l)) - 1\<rparr>)
    else s' = s"
proof -
  obtain s1 where s1: "sema_try_down (LockSema l) s = (b, s1)" "s' = (if b then push [SetHolder l] s1 else s1)"
    using assms(2) by (auto simp: lock_try_acquire_def bind_Some_iff Let_def split: prod.splits)
  from sema_try_down_neutral [OF assms(1) s1(1)] show ?thesis
    using s1(2) assms(1) by (auto simp: neutral_def)
qed

lemma semaphore_set: "(q :: semaphore)\<lparr>sema_value := v, waiters := xs\<rparr> = \<lparr>sema_value = v, waiters = xs\<rparr>"
  by (cases q) simp

lemma sema_up_unblocks:
  assumes s: "kernel_ok s" and x: "waiters (semas s i) = x # xs"
  shows "\<exists>t. sema_up i s = thread_unblock x t \<and> settled t \<and> idle_ok t \<and> st t x = Some THREAD_BLOCKED \<and> (\<forall>p. x \<notin> set (in_place t p))
    \<and> running t = running s \<and> idle_thread t = idle_thread s \<and> prio t = prio s \<and> ready_list t = ready_list s \<and> holder t = holder s
    \<and> in_external_intr t = in_external_intr s \<and> st t = st s \<and> fr t = (fr s)(running s := SetLevel (intr_off s) # fr s (running s))
    \<and> semas t = (semas s)(i := \<lparr>sema_value = sema_value (semas s i) + 1, waiters = xs\<rparr>)"
proof -
  have set: "settled s" "idle_ok s" "apart (in_place s)" "statuses s" using s by (auto simp: kernel_ok_def settled_def)
  define t where "t = (intr_disable (push [SetLevel (intr_off s)] s))\<lparr>semas := (semas s)(i := \<lparr>sema_value = sema_value (semas s i) + 1, waiters = xs\<rparr>)\<rparr>"
  have u: "sema_up i s = thread_unblock x t" using x by (simp add: sema_up_def t_def intr_disable_def Let_def semaphore_set)
  have v: "running t = running s" "idle_thread t = idle_thread s" "prio t = prio s" "ready_list t = ready_list s" "holder t = holder s"
    "in_external_intr t = in_external_intr s" "st t = st s" "fr t = (fr s)(running s := SetLevel (intr_off s) # fr s (running s))"
    "semas t = (semas s)(i := \<lparr>sema_value = sema_value (semas s i) + 1, waiters = xs\<rparr>)"
    using s by (simp_all add: t_def intr_disable_def)
  have "settled t" by (rule settled_less [OF set(1)]) (auto simp: v x)
  moreover have "idle_ok t" by (rule idle_ok_mono [OF set(2)]) (auto simp: v intro: exI [of _ "[]"])
  moreover have "st t x = Some THREAD_BLOCKED" using set(4) x by (simp add: v statuses_def) (metis list.set_intros(1))
  moreover have "x \<notin> set (in_place t p)" for p
  proof -
    have "x \<notin> set (in_place s p)" if "p \<noteq> Waiting i" using apartD [OF set(3), of x "Waiting i" p] that x by auto
    moreover have "x \<notin> set xs" using apart_distinct [OF set(3), of "Waiting i"] x by simp
    ultimately show ?thesis by (cases p) (auto simp: v)
  qed
  ultimately show ?thesis using u v by (intro exI [of _ t]) simp
qed

lemma sema_up_wf:
  assumes s: "kernel_ok s" and ex: "sema_up i s = Some s'"
  shows "kernel_ok s' \<and> (top_priority s' \<or> neutral s s' [SetLevel (intr_off s)]) \<and> (\<exists>fs. levels fs \<and> holder s' = holder s \<and> (\<forall>x. st s' x = None \<longleftrightarrow> st s x = None)
    \<and> fr s' = (fr s)(running s := fs @ fr s (running s))
    \<and> (\<forall>j. sema_value (semas s' j) = (if j = i then sema_value (semas s i) + 1 else sema_value (semas s j))))"
proof (cases "waiters (semas s i)")
  case Nil
  then have n: "neutral s s' [SetLevel (intr_off s)]"
    "semas s' = (semas s)(i := (semas s i)\<lparr>sema_value := sema_value (semas s i) + 1\<rparr>)" "holder s' = holder s"
    using s ex by (auto simp: sema_up_def quiet_ops intr_disable_def)
  then have "kernel_ok s'" using neutral_wf [OF s n(1)] by simp
  then show ?thesis using n by (intro conjI exI [of _ "[SetLevel (intr_off s)]"]) (auto simp: neutral_def)
next
  case (Cons x xs)
  from sema_up_unblocks [OF s Cons] obtain t where t: "sema_up i s = thread_unblock x t" "settled t" "idle_ok t" "st t x = Some THREAD_BLOCKED"
    "\<And>p. x \<notin> set (in_place t p)" "running t = running s" "holder t = holder s" "st t = st s"
    "fr t = (fr s)(running s := SetLevel (intr_off s) # fr s (running s))"
    "semas t = (semas s)(i := \<lparr>sema_value = sema_value (semas s i) + 1, waiters = xs\<rparr>)" by auto
  have "thread_unblock x t = Some s'" using t(1) ex by simp
  from thread_unblock_wf [OF t(2-5) this] obtain fs where fs: "kernel_ok s'" "top_priority s'" "levels fs" "keeps t s' fs" by (auto simp: kernel_wf_ok)
  then show ?thesis using t(6-) by (intro conjI exI [of _ "fs @ [SetLevel (intr_off s)]"]) (auto simp: keeps_def levels_def)
qed

lemma intr_return_wf:
  assumes s: "kernel_ok s" and ex: "intr_return s = Some s'"
  shows "kernel_ok s' \<and> (top_priority s' \<or> neutral s s' [SetLevel False]) \<and> (\<exists>fs. levels fs \<and> keeps s s' fs)"
proof -
  define s1 where "s1 = push [SetLevel False] (s\<lparr>in_external_intr := False\<rparr>)"
  have n1: "neutral s s1 [SetLevel False]" "keeps s s1 [SetLevel False]" using s by (auto simp: quiet_ops s1_def)
  then have w1: "kernel_ok s1" using neutral_wf [OF s n1(1)] by simp
  have e: "(if yield_on_return s1 then thread_yield s1 else Some s1) = Some s'" "\<not> in_external_intr s1"
    using ex [unfolded intr_return_def Let_def, folded s1_def] by (auto simp: bind_Some_iff s1_def)
  show ?thesis
  proof (cases "yield_on_return s1")
    case True
    then have "kernel_wf s'" "keeps s1 s' [SetLevel (intr_off s1)]"
      using thread_yield_wf [of s1] w1 e by (auto simp: kernel_ok_def keeps_def)
    moreover from keeps_trans [OF n1(2) this(2)] n1(1) have "keeps s s' [SetLevel (intr_off s1), SetLevel False]"
      by (simp add: neutral_def)
    ultimately show ?thesis by (intro conjI exI [of _ "[SetLevel (intr_off s1), SetLevel False]"]) (auto simp: kernel_wf_ok)
  next
    case False
    then show ?thesis using e w1 n1 by (intro conjI exI [of _ "[SetLevel False]"]) auto
  qed
qed

lemma thread_yield_step:
  assumes "kernel_ok s" and "thread_yield s = Some s'"
  shows "kernel_wf s' \<and> keeps s s' [SetLevel (intr_off s)]"
proof -
  have "\<not> in_external_intr s" using assms(2) by (auto simp: thread_yield_def bind_Some_iff)
  then show ?thesis using thread_yield_wf [of s] assms by (auto simp: kernel_ok_def keeps_def)
qed

lemma start_thread_wf:
  assumes s: "settled s" "idle_ok s" and x: "st s x = Some THREAD_BLOCKED" "\<And>p. x \<notin> set (in_place s p)"
    and ex: "start_thread x body s = Some s'" and b: "starts body = []"
  shows "kernel_wf s' \<and> (\<exists>s1 fs. levels fs \<and> keeps s1 s' fs \<and> running s1 = running s \<and> fr s1 = (fr s)(x := kernel_thread body)
    \<and> semas s1 = semas s \<and> holder s1 = holder s \<and> st s1 = st s)"
proof -
  define s1 where "s1 = upd_thread x (\<lambda>t. t\<lparr>frames := kernel_thread body\<rparr>) s"
  have v: "running s1 = running s" "idle_thread s1 = idle_thread s" "ready_list s1 = ready_list s" "st s1 = st s" "prio s1 = prio s"
    "semas s1 = semas s" "holder s1 = holder s" using view_frames [of x "\<lambda>_. kernel_thread body" s] by (simp_all add: s1_def)
  have f: "fr s1 = (fr s)(x := kernel_thread body)"
    using fr_upd_frames [of s x "\<lambda>_. kernel_thread body"] x(1) by (simp add: s1_def)
  have k: "starts (kernel_thread body) = []" using b by (simp add: kernel_thread_def)
  have "settled s1" by (rule settled_less [OF s(1)]) (auto simp: v f k)
  moreover have "idle_ok s1" by (rule idle_ok_mono [OF s(2)]) (use x(2) [of Idle] in \<open>auto simp: v f intro: exI [of _ "[]"]\<close>)
  moreover have "x \<notin> set (in_place s1 p)" for p using x(2) [of p] k by (cases p) (auto simp: v f)
  moreover have "thread_unblock x s1 = Some s'" using ex by (simp add: start_thread_def s1_def)
  ultimately obtain fs where "kernel_wf s'" "levels fs" "keeps s1 s' fs"
    using thread_unblock_wf [of s1 x s'] x(1) by (auto simp: v)
  then show ?thesis using v f by (intro conjI exI [of _ s1] exI [of _ fs]) auto
qed

lemma view_priority [simp]:
  "st (upd_thread x (\<lambda>t. t\<lparr>priority := v\<rparr>) s) = st s" "fr (upd_thread x (\<lambda>t. t\<lparr>priority := v\<rparr>) s) = fr s"
  by (auto simp: st_def fr_def upd_thread_def fun_eq_iff option.map_comp comp_def split: option.split)

lemma prio_priority: "st s x \<noteq> None \<Longrightarrow> prio (upd_thread x (\<lambda>t. t\<lparr>priority := v\<rparr>) s) = (prio s)(x := v)"
  by (auto simp: st_def prio_def upd_thread_def fun_eq_iff)

lemma settled_priority:
  assumes s: "settled s" and v: "running s' = running s" "idle_thread s' = idle_thread s" "ready_list s' = ready_list s" "st s' = st s"
      "fr s' = fr s" "semas s' = semas s" "\<And>x. x \<noteq> running s \<Longrightarrow> prio s' x = prio s x"
  shows "settled s'"
proof -
  have sts: "statuses s" and o: "ordered s" using s by (auto simp: settled_def)
  have "running s \<notin> set (ready_list s)" "running s \<notin> set (waiters (semas s i))" for i
    using sts settled_running [OF s] by (auto simp: statuses_def)
  then have "by_priority s' (ready_list s)" "by_priority s' (waiters (semas s i))" for i
    using o v(7) by (auto simp: ordered_def intro!: by_priority_cong [of s _ s']) metis+
  moreover have "in_place s' = in_place s" unfolding in_place_def v(1-6) by simp
  ultimately show ?thesis using s by (simp add: settled_def ordered_def statuses_def v(1-6))
qed

lemma thread_set_priority_ok:
  assumes s: "kernel_ok s" "idle_thread s \<noteq> Some (running s)" and ex: "thread_set_priority junk n s = Some s'"
  shows "kernel_ok s' \<and> running s' = running s \<and> keeps s s' [SetPriorityHead junk]"
proof -
  let ?c = "running s"
  define s1 where "s1 = upd_thread ?c (\<lambda>t. t\<lparr>priority := n\<rparr>) s"
  have v: "running s1 = ?c" "idle_thread s1 = idle_thread s" "ready_list s1 = ready_list s" "st s1 = st s" "fr s1 = fr s" "semas s1 = semas s"
    "holder s1 = holder s" "prio s1 = (prio s)(?c := n)" using s by (simp_all add: s1_def prio_priority)
  have "idle_ok s1" by (rule idle_ok_mono [of s]) (use s in \<open>auto simp: kernel_ok_def v intro: exI [of _ "[]"]\<close>)
  moreover have "settled s1" by (rule settled_priority [of s]) (use s in \<open>auto simp: kernel_ok_def v\<close>)
  ultimately have ok: "kernel_ok s1" by (simp add: kernel_ok_def)
  have e: "s' = push [SetPriorityHead junk] s1"
    using ex s unfolding s1_def by (auto simp: thread_set_priority_def thread_current_eq bind_Some_iff)
  then have n: "neutral s1 s' [SetPriorityHead junk]" "keeps s1 s' [SetPriorityHead junk]" using push_neutral [of s1 "[SetPriorityHead junk]"] ok by auto
  then show ?thesis using neutral_wf [OF ok n(1)] s(2) by (auto simp: v keeps_def neutral_def)
qed

lemma places_exist: "settled s \<Longrightarrow> idle_ok s \<Longrightarrow> x \<in> set (in_place s p) \<Longrightarrow> st s x \<noteq> None"
  by (cases p) (auto simp: settled_def statuses_def idle_ok_def split: if_splits)

lemma view_new:
  "st (s\<lparr>threads := (threads s)(x \<mapsto> t)\<rparr>) = (st s)(x \<mapsto> status t)" "prio (s\<lparr>threads := (threads s)(x \<mapsto> t)\<rparr>) = (prio s)(x := priority t)"
  "fr (s\<lparr>threads := (threads s)(x \<mapsto> t)\<rparr>) = (fr s)(x := frames t)"
  by (auto simp: st_def prio_def fr_def fun_eq_iff)

lemma thread_create_wf:
  assumes s: "kernel_ok s" and i: "idle_thread s \<noteq> Some (running s)" and x: "threads s x = None"
    and ex: "thread_create (Some x) nm pri body s = Some s'"
  shows "kernel_ok s' \<and> running s' = running s \<and> idle_thread s' = idle_thread s \<and> ready_list s' = ready_list s
    \<and> (\<forall>y \<in> insert (running s) (set (ready_list s)). prio s' y = prio s y)
    \<and> holder s' = holder s \<and> (\<forall>j. j \<noteq> SleepSema x \<longrightarrow> semas s' j = semas s j)
    \<and> fr s' = (fr s)(running s := allocate_tid x @ StartThread x body # fr s (running s), x := [])
    \<and> st s' = (st s)(x := Some THREAD_BLOCKED)"
proof -
  let ?c = "running s"
  have x': "st s x = None" "fr s x = []" using x by (simp_all add: st_def fr_def)
  have set: "settled s" "idle_ok s" using s by (auto simp: kernel_ok_def)
  have ap: "apart (in_place s)" and sts: "statuses s" and o: "ordered s"
    and r: "\<And>y. st s y = Some THREAD_RUNNING \<longleftrightarrow> y = running s" using set(1) by (auto simp: settled_def)
  have nx: "x \<notin> set (in_place s p)" for p using places_exist [OF set(1,2), of x p] x'(1) by blast
  have xc: "x \<noteq> ?c" using x'(1) s by auto
  have v: "running s' = ?c" "idle_thread s' = idle_thread s" "ready_list s' = ready_list s" "holder s' = holder s"
    "semas s' = (semas s)(SleepSema x := \<lparr>sema_value = 0, waiters = []\<rparr>)" "st s' = (st s)(x := Some THREAD_BLOCKED)"
    "fr s' = (fr s)(?c := allocate_tid x @ StartThread x body # fr s ?c, x := [])" "prio s' = (prio s)(x := pri)"
    using ex s xc by (auto simp: thread_create_def init_thread_def bind_Some_iff Let_def sema_init_def view_new fun_upd_twist)
  have f: "starts (fr s' y) = (if y = ?c then x # starts (fr s ?c) else if y = x then [] else starts (fr s y))" for y
    using xc by (simp add: v(7) allocate_tid_def)
  have w: "waiters (semas s' j) = waiters (semas s j) \<or> waiters (semas s' j) = []" for j by (simp add: v(5))
  have nw: "x \<notin> set (ready_list s)" "x \<notin> set (waiters (semas s j))" "x \<notin> set (starts (fr s y))" for j y
    using nx [of Ready] nx [of "Waiting j"] nx [of "Starting y"] by auto
  have "statuses s'" using sts nw xc by (auto simp: statuses_def v(3,5,6) f)
  moreover have "by_priority s' (waiters (semas s' j))" "by_priority s' (ready_list s')" for j
  proof -
    have "by_priority s' (waiters (semas s j))" by (rule by_priority_cong [of s]) (use o nw in \<open>auto simp: ordered_def v(8)\<close>)
    then show "by_priority s' (waiters (semas s' j))" using w [of j] by (auto simp: by_priority_def)
    show "by_priority s' (ready_list s')" unfolding v(3) by (rule by_priority_cong [of s]) (use o nw in \<open>auto simp: ordered_def v(8)\<close>)
  qed
  moreover have "apart (in_place s')"
  proof (rule apart_move [OF ap, of _ "Starting ?c" x])
    show "distinct (in_place s' p)" for p
      using apart_distinct [OF ap, of p] nw xc by (cases p) (auto simp: v(1-3,5) f)
    show "set (in_place s' p) \<subseteq> set (in_place s p) - {x}" if "p \<noteq> Starting ?c" for p
      using nx [of p] that by (cases p) (auto simp: v(1-3,5) f)
  qed (simp add: f)
  moreover have "idle_ok s'" by (rule idle_ok_mono [OF set(2)]) (use i x' nx [of Idle] in \<open>auto simp: v intro: exI [of _ "[]"]\<close>)
  ultimately have "kernel_ok s'" using r xc x'(1) by (auto simp: kernel_ok_def settled_def ordered_def v(1,6))
  then show ?thesis using v nw(1) xc by simp
qed

subsection \<open>Steps\<close>

text \<open>No thread but the idle thread begins as one, and a thread that has not started has no frames.\<close>

fun plain :: "frame \<Rightarrow> bool" where
  "plain (IdleStart i) = False" | "plain (StartThread x body) = (body = [User])" | "plain _ = True"

text \<open>A thread's own code is followed by its exit only.\<close>

fun own_code_last :: "frame list \<Rightarrow> bool" where
  "own_code_last [] = True"
| "own_code_last (f # fs) = (if f = User then fs = [ThreadExit] else own_code_last fs)"

lemma own_code_last_append: "User \<notin> set gs \<Longrightarrow> own_code_last (gs @ fs) = own_code_last fs"
  by (induction gs) auto

definition programs :: "kernel \<Rightarrow> bool" where
  "programs s \<longleftrightarrow> (\<forall>x. list_all plain (fr s x) \<and> own_code_last (fr s x)) \<and> (\<forall>y. \<forall>x \<in> set (starts (fr s y)). fr s x = [])"

text \<open>What a step does to the frames of the running thread, to holders and to the values of semaphores.\<close>

definition pushes :: "kernel \<Rightarrow> kernel \<Rightarrow> frame list \<Rightarrow> bool" where
  "pushes s s' fs \<longleftrightarrow> (\<forall>x. st s' x = None \<longleftrightarrow> st s x = None) \<and> fr s' = (fr s)(running s := fs)"

definition lock_value :: "kernel \<Rightarrow> nat \<Rightarrow> u32" where
  "lock_value s l = sema_value (semas s (LockSema l))"

definition same_locks :: "kernel \<Rightarrow> kernel \<Rightarrow> bool" where
  "same_locks s s' \<longleftrightarrow> holder s' = holder s \<and> lock_value s' = lock_value s"

text \<open>What a frame may be replaced by without an effect on locks.\<close>

inductive unfolds :: "frame \<Rightarrow> frame list \<Rightarrow> bool" where
  "levels gs \<Longrightarrow> \<forall>l. f \<noteq> SemaDown (LockSema l) \<and> f \<noteq> SemaLoop (LockSema l) \<and> f \<noteq> SetHolder l \<and> f \<noteq> SemaUp (LockSema l) \<Longrightarrow> unfolds f gs"
| "unfolds (SemaDown i) [SemaLoop i, SetLevel off]"
| "unfolds (SemaLoop i) [SemaLoop i]"
| "unfolds (LockAcquire l) [SemaDown (LockSema l), SetHolder l]"
| "unfolds (CondBroadcast c l) [CondBroadcast c l]"
| "unfolds (CondBroadcast c l) [SemaUp (WaiterSema x), CondBroadcast c l]"
| "unfolds TimerLoop [SemaUp (SleepSema x), TimerLoop]"
| "unfolds IdleLoop [IdleWait]"
| "unfolds IdleWait [IdleLoop]"
| "unfolds (CondWait junk c l) [LockRelease l, SemaDown (WaiterSema x), LockAcquire l]"
| "unfolds (CondSignal c l) [SemaUp (WaiterSema x)]"
| "unfolds (TimerSleep n) [SemaDown (SleepSema x)]"
| "unfolds (SetPriority junk p) [SetPriorityHead junk]"
| "unfolds (SetPriorityHead junk) [SetPriorityTest junk x]"
| "unfolds (SetPriorityTest junk x) [ThreadYield]"

text \<open>The steps of a frame \<open>f\<close> with the frames \<open>fs\<close> below it.\<close>

inductive effect :: "kernel \<Rightarrow> kernel \<Rightarrow> frame \<Rightarrow> frame list \<Rightarrow> bool" where
  unfold: "unfolds f gs \<Longrightarrow> pushes s s' (gs @ fs) \<Longrightarrow> same_locks s s' \<Longrightarrow> effect s s' f fs"
| pass: "sema_value (semas s i) \<noteq> 0 \<Longrightarrow> pushes s s' fs \<Longrightarrow> holder s' = holder s \<Longrightarrow>
    \<forall>j. sema_value (semas s' j) = (if j = i then sema_value (semas s i) - 1 else sema_value (semas s j)) \<Longrightarrow> effect s s' (SemaLoop i) fs"
| raise: "levels gs \<Longrightarrow> pushes s s' (gs @ fs) \<Longrightarrow> holder s' = holder s \<Longrightarrow>
    \<forall>j. sema_value (semas s' j) = (if j = i then sema_value (semas s i) + 1 else sema_value (semas s j)) \<Longrightarrow> effect s s' (SemaUp i) fs"
| take: "pushes s s' fs \<Longrightarrow> holder s' = (holder s)(l := Some (running s)) \<Longrightarrow> lock_value s' = lock_value s \<Longrightarrow> effect s s' (SetHolder l) fs"
| drop: "holder s l = Some (running s) \<Longrightarrow> pushes s s' (SemaUp (LockSema l) # fs) \<Longrightarrow> holder s' = (holder s)(l := None) \<Longrightarrow>
    lock_value s' = lock_value s \<Longrightarrow> effect s s' (LockRelease l) fs"
| tries: "lock_value s l \<noteq> 0 \<Longrightarrow> pushes s s' (SetHolder l # fs) \<Longrightarrow> holder s' = holder s \<Longrightarrow>
    lock_value s' = (lock_value s)(l := lock_value s l - 1) \<Longrightarrow> effect s s' (LockTryAcquire l) fs"
| creates: "st s x = None \<Longrightarrow> same_locks s s' \<Longrightarrow> st s' = (st s)(x := Some THREAD_BLOCKED) \<Longrightarrow>
    fr s' = (fr s)(running s := allocate_tid x @ StartThread x [User] # fs, x := []) \<Longrightarrow> effect s s' (ThreadCreate (Some x) nm pri) fs"
| begins: "x \<noteq> running s \<Longrightarrow> st s x \<noteq> None \<Longrightarrow> levels gs \<Longrightarrow> same_locks s s' \<Longrightarrow> \<forall>y. st s' y = None \<longleftrightarrow> st s y = None \<Longrightarrow>
    fr s' = (fr s)(x := kernel_thread [User], running s := gs @ fs) \<Longrightarrow> effect s s' (StartThread x [User]) fs"
| ends: "same_locks s s' \<Longrightarrow> fr s' = (fr s)(running s := []) \<and> (\<forall>x. st s' x = None \<longleftrightarrow> x = running s \<or> st s x = None)
    \<or> pushes s s' fs \<Longrightarrow> effect s s' ThreadExit fs"

lemma pop_wf:
  assumes s: "kernel_ok s" and f: "fr s (running s) = f # fs"
  shows "settled (pop s)" and "idle_thread s \<noteq> Some (running s) \<or> quiet f \<Longrightarrow> idle_ok (pop s)"
    and "fr (pop s) = (fr s)(running s := fs)"
proof -
  show fp: "fr (pop s) = (fr s)(running s := fs)" using s f by simp
  have v: "running (pop s) = running s" "idle_thread (pop s) = idle_thread s" "ready_list (pop s) = ready_list s" "semas (pop s) = semas s"
    by (simp_all add: pop_def)
  show "settled (pop s)"
    by (rule settled_less [of s]) (use s f in \<open>auto simp: kernel_ok_def v fp split: frame.splits\<close>)
  assume q: "idle_thread s \<noteq> Some (running s) \<or> quiet f"
  from s obtain i gs g where i: "idle_thread s = Some i" "st s i \<noteq> None" "st s i \<noteq> Some THREAD_DYING"
    "fr s i = gs @ [g, ThreadExit]" "g = IdleLoop \<or> g = IdleWait" "list_all quiet gs" by (auto simp: kernel_ok_def idle_ok_def)
  show "idle_ok (pop s)"
  proof (cases "i = running s")
    case True
    then obtain hs where "gs = f # hs" "fs = hs @ [g, ThreadExit]" using i(1,4,5) q f by (cases gs) auto
    then show ?thesis unfolding idle_ok_def using i True by (intro exI [of _ i] conjI exI [of _ hs] exI [of _ g]) (auto simp: v fp)
  next
    case False
    then show ?thesis using s i by (auto simp: kernel_ok_def idle_ok_def v fp)
  qed
qed

lemma pop_fields [simp]: "running (pop s) = running s" "idle_thread (pop s) = idle_thread s" "ready_list (pop s) = ready_list s"
    "semas (pop s) = semas s" "holder (pop s) = holder s"
  by (simp_all add: pop_def)

text \<open>
  What a frame does to the order of the threads: the state after it is \<open>fair\<close>, or it is not one of the frames that give way and leaves alone
  what \<open>fair\<close> depends on.
\<close>

definition turn :: "kernel \<Rightarrow> kernel \<Rightarrow> frame \<Rightarrow> frame list \<Rightarrow> bool" where
  "turn s s' f fs \<longleftrightarrow> fair s' \<or> \<not> gives_way s f \<and> running s' = running s \<and> idle_thread s' = idle_thread s \<and> ready_list s' = ready_list s
     \<and> (\<forall>x \<in> insert (running s) (set (ready_list s)). prio s' x = prio s x) \<and> set fs \<subseteq> set (fr s' (running s))"

lemma turn_fair:
  assumes "fair s" and "fr s (running s) = f # fs" and "turn s s' f fs"
  shows "fair s'"
proof (cases "fair s'")
  case False
  with assms(3) have t: "\<not> gives_way s f" "running s' = running s" "idle_thread s' = idle_thread s" "ready_list s' = ready_list s"
    "\<And>x. x \<in> insert (running s) (set (ready_list s)) \<Longrightarrow> prio s' x = prio s x" "set fs \<subseteq> set (fr s' (running s))" by (auto simp: turn_def)
  have g: "gives_way s' g = gives_way s g" for g using t(2,4) t(5) by (cases "(s, g)" rule: gives_way.cases) auto
  have "top_priority s' = top_priority s" using t(2-5) by (simp add: top_priority_def)
  then show ?thesis using assms(1,2) t(1,2,6) g unfolding fair_def by auto
qed

lemma turns:
  "kernel_wf s' \<Longrightarrow> kernel_ok s' \<and> turn s s' f fs" "top_priority s' \<Longrightarrow> turn s s' f fs"
  by (auto simp: turn_def fair_def kernel_wf_ok)

lemma neutral_turn:
  assumes "kernel_ok s" and "fr s (running s) = f # fs" and "neutral (pop s) s' gs" and "\<not> gives_way s f \<or> (\<exists>g \<in> set gs. gives_way s' g)"
  shows "turn s s' f fs"
  using assms pop_wf(3) [OF assms(1,2)] by (auto simp: turn_def fair_def neutral_def)

lemma keeps_pop:
  assumes "kernel_ok s" and "fr s (running s) = f # fs" and "keeps (pop s) s' gs"
  shows "pushes s s' (gs @ fs) \<and> same_locks s s'"
  using assms pop_wf(3) [OF assms(1,2)] by (auto simp: keeps_def pushes_def same_locks_def lock_value_def fun_eq_iff)

lemma effect_unfold:
  assumes "kernel_ok s" and "fr s (running s) = f # fs" and "keeps (pop s) s' gs" and "unfolds f gs"
  shows "effect s s' f fs"
  using keeps_pop [OF assms(1-3)] assms(4) by (auto intro: effect.unfold)

lemma idle_frames:
  assumes "kernel_ok s" and "fr s (running s) = f # fs" and "\<not> quiet f" and "f \<noteq> IdleLoop" and "f \<noteq> IdleWait"
  shows "idle_thread s \<noteq> Some (running s)"
proof
  assume i: "idle_thread s = Some (running s)"
  have "idle_ok s" using assms(1) by (simp add: kernel_ok_def)
  with i obtain gs g where "fr s (running s) = gs @ [g, ThreadExit]" "g = IdleLoop \<or> g = IdleWait" "list_all quiet gs"
    unfolding idle_ok_def by auto
  with assms show False by (cases gs) auto
qed

lemma idle_loop_step:
  assumes s: "kernel_ok s" and f: "fr s (running s) = f # fs" "f = IdleLoop \<or> f = IdleWait" and g: "g = IdleLoop \<or> g = IdleWait"
    and v: "running s1 = running s" "st s1 = st s" "idle_thread s1 = idle_thread s" "fr s1 = (fr s)(running s := fs)"
  shows "idle_ok (push [g] s1)"
proof -
  from s obtain i gs h where i: "idle_thread s = Some i" "st s i \<noteq> None" "st s i \<noteq> Some THREAD_DYING"
    "fr s i = gs @ [h, ThreadExit]" "h = IdleLoop \<or> h = IdleWait" "list_all quiet gs" by (auto simp: kernel_ok_def idle_ok_def)
  have fp: "fr (push [g] s1) = (fr s)(running s := g # fs)" using s by (simp add: v)
  show ?thesis
  proof (cases "i = running s")
    case True
    then have "gs = []" "fs = [ThreadExit]" using i f by (cases gs, auto)+
    then show ?thesis unfolding idle_ok_def using i True g by (intro exI [of _ i] conjI exI [of _ "[]"] exI [of _ g]) (auto simp: v fp)
  next
    case False
    then show ?thesis unfolding idle_ok_def using i by (intro exI [of _ i] conjI exI [of _ gs] exI [of _ h]) (auto simp: v fp)
  qed
qed

lemma start_thread_step:
  assumes s: "kernel_ok s" and f: "fr s (running s) = StartThread x [User] # fs" and ex: "start_thread x [User] (pop s) = Some s'"
  shows "kernel_ok s' \<and> turn s s' (StartThread x [User]) fs \<and> effect s s' (StartThread x [User]) fs"
proof -
  note p = pop_wf [OF s f]
  have i: "idle_ok (pop s)" using p(2) idle_frames [OF s f] by simp
  have ap: "apart (in_place s)" and sts: "statuses s" using s by (auto simp: kernel_ok_def settled_def)
  have xs: "starts (fr s (running s)) = x # starts fs" by (simp add: f)
  then have "x \<in> set (starts (fr s (running s)))" by simp
  then have x: "st s x = Some THREAD_BLOCKED" using sts unfolding statuses_def by blast
  have "x \<notin> set (in_place (pop s) q)" for q
  proof -
    have "x \<notin> set (in_place s q)" if "q \<noteq> Starting (running s)" using apartD [OF ap, of x "Starting (running s)" q] that xs by auto
    moreover have "x \<notin> set (starts fs)" using apart_distinct [OF ap, of "Starting (running s)"] xs by simp
    ultimately show ?thesis by (cases q) (auto simp: p(3))
  qed
  from start_thread_wf [OF p(1) i _ this ex] x obtain s1 gs where g: "kernel_wf s'" "levels gs" "keeps s1 s' gs" "running s1 = running s"
    "fr s1 = (fr (pop s))(x := kernel_thread [User])" "semas s1 = semas s" "holder s1 = holder s" "st s1 = st s" by auto
  have "x \<noteq> running s" using x s by auto
  with g p(3) x have "effect s s' (StartThread x [User]) fs"
    by (intro effect.begins [of x s gs]) (auto simp: keeps_def same_locks_def lock_value_def fun_eq_iff)
  with turns(1) [OF g(1)] show ?thesis by blast
qed

lemma levels_unfolds:
  "levels gs \<Longrightarrow> (\<And>l. f \<noteq> SemaDown (LockSema l) \<and> f \<noteq> SemaLoop (LockSema l) \<and> f \<noteq> SetHolder l \<and> f \<noteq> SemaUp (LockSema l)) \<Longrightarrow> unfolds f gs"
  by (rule unfolds.intros(1)) auto

lemma pop_kernel_ok:
  assumes s: "kernel_ok s" and f: "fr s (running s) = f # fs" and n: "f \<noteq> IdleLoop" "f \<noteq> IdleWait"
  shows "kernel_ok (pop s)" and "\<not> quiet f \<Longrightarrow> idle_thread s \<noteq> Some (running s)"
  using pop_wf [OF s f] idle_frames [OF s f _ n] by (auto simp: kernel_ok_def)

lemma neutral_step:
  assumes "kernel_ok s" and "fr s (running s) = f # fs" and "f \<noteq> IdleLoop" "f \<noteq> IdleWait"
    and "neutral (pop s) s' gs" and "keeps (pop s) s' gs" and "unfolds f gs" and "quiet f \<Longrightarrow> list_all quiet gs"
    and "\<not> gives_way s f \<or> (\<exists>g \<in> set gs. gives_way s' g)"
  shows "kernel_ok s' \<and> turn s s' f fs \<and> effect s s' f fs"
  using neutral_wf [OF _ assms(5)] pop_kernel_ok [OF assms(1-4)] effect_unfold [OF assms(1,2,6,7)] neutral_turn [OF assms(1,2,5,9)] assms(8) by auto

lemma sema_loop_step:
  assumes s: "kernel_ok s" and f: "fr s (running s) = SemaLoop i # fs" and ex: "sema_loop i (pop s) = Some s'"
  shows "kernel_ok s' \<and> turn s s' (SemaLoop i) fs \<and> effect s s' (SemaLoop i) fs"
proof -
  note w = pop_kernel_ok [OF s f, simplified]
  show ?thesis
  proof (cases "sema_value (semas s i) = 0")
    case True
    then have "kernel_wf s' \<and> keeps (pop s) s' [SemaLoop i]"
      using sema_loop_blocks [of "pop s" i s'] w ex by (auto simp: kernel_ok_def)
    then show ?thesis using effect_unfold [OF s f] turns(1) by (auto intro: unfolds.intros)
  next
    case False
    then have n: "neutral (pop s) s' []" "holder s' = holder s"
      "semas s' = (semas s)(i := (semas s i)\<lparr>sema_value := sema_value (semas s i) - 1\<rparr>)"
      using sema_loop_passes [OF w(1), of i s'] ex by auto
    then have "effect s s' (SemaLoop i) fs"
      using False pop_wf(3) [OF s f] by (intro effect.pass) (auto simp: pushes_def neutral_def)
    then show ?thesis using neutral_wf [OF w(1) n(1)] neutral_turn [OF s f n(1)] by simp
  qed
qed

lemma sema_up_step:
  assumes s: "kernel_ok s" and f: "fr s (running s) = SemaUp i # fs" and ex: "sema_up i (pop s) = Some s'"
  shows "kernel_ok s' \<and> turn s s' (SemaUp i) fs \<and> effect s s' (SemaUp i) fs"
proof -
  from sema_up_wf [OF pop_kernel_ok(1) [OF s f] ex] obtain gs where g: "kernel_ok s'" "top_priority s' \<or> neutral (pop s) s' [SetLevel (intr_off (pop s))]" "levels gs" "holder s' = holder s" "\<forall>x. st s' x = None \<longleftrightarrow> st s x = None"
    "fr s' = (fr (pop s))(running s := gs @ fr (pop s) (running s))"
    "\<forall>j. sema_value (semas s' j) = (if j = i then sema_value (semas s i) + 1 else sema_value (semas s j))" by auto
  have "turn s s' (SemaUp i) fs" using g(2) neutral_turn [OF s f] turns(2) by auto
  with g show ?thesis using pop_wf(3) [OF s f] by (intro conjI effect.raise [of gs]) (auto simp: pushes_def)
qed

lemma set_holder_step:
  assumes s: "kernel_ok s" and f: "fr s (running s) = SetHolder l # fs" and ex: "set_holder l (pop s) = Some s'"
  shows "kernel_ok s' \<and> turn s s' (SetHolder l) fs \<and> effect s s' (SetHolder l) fs"
proof -
  note w = pop_kernel_ok(1) [OF s f, simplified]
  from set_holder_neutral [OF w ex]
  have n: "neutral (pop s) s' []" "s' = (pop s)\<lparr>holder := (holder s)(l := Some (running s))\<rparr>" by auto
  have "effect s s' (SetHolder l) fs"
    by (rule effect.take) (use n(2) pop_wf(3) [OF s f] in \<open>simp_all add: pushes_def lock_value_def fun_eq_iff\<close>)
  then show ?thesis using neutral_wf [OF w n(1)] neutral_turn [OF s f n(1)] by simp
qed

lemma lock_release_step:
  assumes s: "kernel_ok s" and f: "fr s (running s) = LockRelease l # fs" and ex: "lock_release l (pop s) = Some s'"
  shows "kernel_ok s' \<and> turn s s' (LockRelease l) fs \<and> effect s s' (LockRelease l) fs"
proof -
  note w = pop_kernel_ok [OF s f, simplified]
  from lock_release_neutral [OF w(1) ex]
  have n: "neutral (pop s) s' [SemaUp (LockSema l)]" "holder s l = Some (running s)"
    "s' = push [SemaUp (LockSema l)] ((pop s)\<lparr>holder := (holder s)(l := None)\<rparr>)" by auto
  have "effect s s' (LockRelease l) fs"
    by (rule effect.drop [OF n(2)]) (use n(1,3) s f in \<open>auto simp: pushes_def lock_value_def fun_eq_iff neutral_def\<close>)
  then show ?thesis using neutral_wf [OF w(1) n(1)] w(2) neutral_turn [OF s f n(1)] by simp
qed

lemma lock_try_step:
  assumes s: "kernel_ok s" and f: "fr s (running s) = LockTryAcquire l # fs" and ex: "lock_try_acquire l (pop s) = Some (b, s')"
  shows "kernel_ok s' \<and> turn s s' (LockTryAcquire l) fs \<and> effect s s' (LockTryAcquire l) fs"
proof -
  note w = pop_kernel_ok [OF s f, simplified]
  note n = lock_try_acquire_neutral [OF w(1) ex]
  show ?thesis
  proof (cases b)
    case True
    with n have n': "neutral (pop s) s' [SetHolder l]" "holder s' = holder s" "sema_value (semas s (LockSema l)) \<noteq> 0"
      "semas s' = (semas s)(LockSema l := (semas s (LockSema l))\<lparr>sema_value := sema_value (semas s (LockSema l)) - 1\<rparr>)" by auto
    then have "effect s s' (LockTryAcquire l) fs"
      using pop_wf(3) [OF s f] by (intro effect.tries) (auto simp: pushes_def neutral_def lock_value_def fun_eq_iff)
    then show ?thesis using neutral_wf [OF w(1) n'(1)] w(2) neutral_turn [OF s f n'(1)] by simp
  next
    case False
    with n have "s' = pop s" by simp
    moreover have "unfolds (LockTryAcquire l) []" by (rule levels_unfolds) auto
    ultimately have "effect s s' (LockTryAcquire l) fs" by (intro effect_unfold [OF s f, of _ "[]"]) (simp add: keeps_def)
    moreover have "neutral (pop s) s' []" using \<open>s' = pop s\<close> by (simp add: neutral_def)
    ultimately show ?thesis using w(1) \<open>s' = pop s\<close> neutral_turn [OF s f] by simp
  qed
qed

lemma exit_step:
  assumes s: "kernel_ok s" and f: "fr s (running s) = ThreadExit # fs" and ex: "thread_exit (pop s) = Some s'"
  shows "kernel_ok s' \<and> turn s s' ThreadExit fs \<and> effect s s' ThreadExit fs"
  using thread_exit_wf [OF _ _ _ ex] pop_kernel_ok [OF s f] pop_wf(3) [OF s f]
  by (auto simp: kernel_ok_def kernel_wf_def same_locks_def lock_value_def pushes_def fun_eq_iff intro!: effect.ends turns)

lemma create_step:
  assumes s: "kernel_ok s" and f: "fr s (running s) = ThreadCreate page nm pri # fs" and new: "fresh_page (ThreadCreate page nm pri) s"
    and ex: "thread_create page nm pri [User] (pop s) = Some s'"
  shows "kernel_ok s' \<and> turn s s' (ThreadCreate page nm pri) fs \<and> effect s s' (ThreadCreate page nm pri) fs"
proof (cases page)
  case None
  then have "s' = pop s" using ex by (simp add: thread_create_def)
  moreover from this have "turn s s' (ThreadCreate page nm pri) fs" by (intro neutral_turn [OF s f, of _ "[]"]) (simp_all add: neutral_def)
  ultimately show ?thesis
    using pop_kernel_ok(1) [OF s f] by (auto intro!: effect_unfold [OF s f, of _ "[]"] levels_unfolds simp: keeps_def)
next
  case (Some x)
  have x: "threads (pop s) x = None" "st s x = None" using new by (auto simp: Some pop_def upd_thread_def st_def)
  from thread_create_wf [OF _ _ x(1)] pop_kernel_ok [OF s f] ex Some
  have "kernel_ok s' \<and> running s' = running s \<and> idle_thread s' = idle_thread s \<and> ready_list s' = ready_list s
    \<and> (\<forall>y \<in> insert (running s) (set (ready_list s)). prio s' y = prio s y)
    \<and> holder s' = holder s \<and> (\<forall>j. j \<noteq> SleepSema x \<longrightarrow> semas s' j = semas s j)
    \<and> fr s' = (fr (pop s))(running s := allocate_tid x @ StartThread x [User] # fr (pop s) (running s), x := [])
    \<and> st s' = (st s)(x := Some THREAD_BLOCKED)" by auto
  moreover have "x \<noteq> running s" using x(2) s by auto
  ultimately show ?thesis using x pop_wf(3) [OF s f] unfolding Some
    by (intro conjI effect.creates) (auto simp: same_locks_def lock_value_def fun_eq_iff turn_def)
qed

lemma idle_step:
  assumes s: "kernel_ok s" and f: "fr s (running s) = f # fs" "f = IdleLoop \<or> f = IdleWait" and ex: "exec f (pop s) = Some s'"
  shows "kernel_ok s' \<and> turn s s' f fs \<and> effect s s' f fs"
proof (cases "f = IdleLoop")
  case True
  have "idle_ok (push [IdleWait] (intr_disable (pop s)))"
    by (rule idle_loop_step [OF s f]) (use pop_wf(3) [OF s f(1)] in \<open>auto simp: intr_disable_def\<close>)
  then have "kernel_wf s' \<and> keeps (pop s) s' [IdleWait]" using idle_loop_wf pop_wf(1) [OF s f(1)] ex True by simp
  then show ?thesis using effect_unfold [OF s f(1)] True turns(1) by (auto intro: unfolds.intros)
next
  case False
  note p = pop_wf [OF s f(1)]
  have i: "idle_ok (push [IdleLoop] ((pop s)\<lparr>intr_off := False\<rparr>))" by (rule idle_loop_step [OF s f]) (use p(3) in auto)
  have n: "neutral (pop s) s' [IdleLoop]" "keeps (pop s) s' [IdleLoop]" "s' = push [IdleLoop] ((pop s)\<lparr>intr_off := False\<rparr>)"
    using ex False f(2) s by (auto simp: idle_wait_def quiet_ops)
  have "settled s'" by (rule settled_less [OF p(1)]) (use n(1) in \<open>auto simp: neutral_def\<close>)
  moreover have "turn s s' f fs" by (rule neutral_turn [OF s f(1) n(1)]) (use f(2) in auto)
  ultimately show ?thesis
    using i n(2,3) effect_unfold [OF s f(1)] False f(2) by (auto simp: kernel_ok_def intro: unfolds.intros)
qed

lemma cond_wait_step:
  assumes s: "kernel_ok s" and f: "fr s (running s) = CondWait junk c l # fs" and ex: "cond_wait junk c l (pop s) = Some s'"
  shows "kernel_ok s' \<and> turn s s' (CondWait junk c l) fs \<and> effect s s' (CondWait junk c l) fs"
proof -
  note w = pop_kernel_ok [OF s f, simplified]
  from cond_wait_neutral [OF w(1) ex] have n: "neutral (pop s) s' [LockRelease l, SemaDown (WaiterSema (running s)), LockAcquire l]"
    "holder s' = holder s" "\<forall>m. semas s' (LockSema m) = semas s (LockSema m)" by auto
  then have "pushes s s' ([LockRelease l, SemaDown (WaiterSema (running s)), LockAcquire l] @ fs)" "same_locks s s'"
    using pop_wf(3) [OF s f] by (auto simp: pushes_def neutral_def same_locks_def lock_value_def fun_eq_iff)
  then have "effect s s' (CondWait junk c l) fs" by (intro effect.unfold) (auto intro: unfolds.intros)
  then show ?thesis using neutral_wf [OF w(1) n(1)] w(2) neutral_turn [OF s f n(1)] by simp
qed

lemma sema_try_down_step:
  assumes s: "kernel_ok s" and f: "fr s (running s) = SemaTryDown n # fs" and ex: "sema_try_down (Sema n) (pop s) = (b, s')"
  shows "kernel_ok s' \<and> turn s s' (SemaTryDown n) fs \<and> effect s s' (SemaTryDown n) fs"
proof -
  note w = pop_kernel_ok(1) [OF s f, simplified]
  note n = sema_try_down_neutral [OF w ex]
  then have "pushes s s' ([] @ fs)" "same_locks s s'"
    using pop_wf(3) [OF s f] by (auto simp: pushes_def neutral_def same_locks_def lock_value_def fun_eq_iff split: if_splits)
  then have "effect s s' (SemaTryDown n) fs" by (intro effect.unfold [of _ "[]"]) (auto intro: levels_unfolds)
  moreover have "turn s s' (SemaTryDown n) fs" using n neutral_turn [OF s f] by (auto split: if_splits)
  ultimately show ?thesis using neutral_wf [OF w] n by auto
qed

lemma intr_return_step:
  assumes s: "kernel_ok s" and f: "fr s (running s) = IntrReturn # fs" and ex: "intr_return (pop s) = Some s'"
  shows "kernel_ok s' \<and> turn s s' IntrReturn fs \<and> effect s s' IntrReturn fs"
proof -
  from intr_return_wf [OF pop_kernel_ok(1) [OF s f] ex] obtain gs where g: "kernel_ok s'" "top_priority s' \<or> neutral (pop s) s' [SetLevel False]"
    "levels gs" "keeps (pop s) s' gs" by auto
  have "turn s s' IntrReturn fs" using g(2) neutral_turn [OF s f] turns(2) by auto
  moreover have "unfolds IntrReturn gs" using g(3) by (intro levels_unfolds) auto
  ultimately show ?thesis using effect_unfold [OF s f] g(1,4) by blast
qed

lemma yield_step:
  assumes s: "kernel_ok s" and f: "fr s (running s) = ThreadYield # fs" and ex: "thread_yield (pop s) = Some s'"
  shows "kernel_ok s' \<and> turn s s' ThreadYield fs \<and> effect s s' ThreadYield fs"
proof -
  from thread_yield_step [OF pop_kernel_ok(1) [OF s f] ex] have y: "kernel_wf s'" "keeps (pop s) s' [SetLevel (intr_off (pop s))]" by auto
  moreover have "unfolds ThreadYield [SetLevel (intr_off (pop s))]" by (rule levels_unfolds) auto
  ultimately show ?thesis using effect_unfold [OF s f] turns(1) by blast
qed

text \<open>The three parts of \<^verbatim>\<open>thread_set_priority\<close>.\<close>

lemma set_priority_step:
  assumes s: "kernel_ok s" and f: "fr s (running s) = SetPriority junk p # fs" and ex: "thread_set_priority junk p (pop s) = Some s'"
  shows "kernel_ok s' \<and> turn s s' (SetPriority junk p) fs \<and> effect s s' (SetPriority junk p) fs"
proof -
  from thread_set_priority_ok [OF _ _ ex] pop_kernel_ok [OF s f]
  have k: "kernel_ok s'" "running s' = running s" "keeps (pop s) s' [SetPriorityHead junk]" by auto
  have "fair s'" using k(2,3) by (auto simp: fair_def keeps_def)
  then show ?thesis using k effect_unfold [OF s f k(3)] by (auto simp: turn_def intro: unfolds.intros)
qed

lemma set_priority_head_step:
  assumes s: "kernel_ok s" and f: "fr s (running s) = SetPriorityHead junk # fs" and ex: "set_priority_head junk (pop s) = s'"
  shows "kernel_ok s' \<and> turn s s' (SetPriorityHead junk) fs \<and> effect s s' (SetPriorityHead junk) fs"
proof -
  note w = pop_kernel_ok [OF s f, simplified]
  define h where "h = (case ready_list s of [] \<Rightarrow> None | x # _ \<Rightarrow> Some x)"
  have e: "s' = push [SetPriorityTest junk h] (pop s)" using ex by (simp add: set_priority_head_def h_def)
  have n: "neutral (pop s) s' [SetPriorityTest junk h]" "keeps (pop s) s' [SetPriorityTest junk h]"
    using push_neutral [of "pop s" "[SetPriorityTest junk h]"] s unfolding e by auto
  have p: "by_priority s (ready_list s)" using s by (simp add: kernel_ok_def settled_def ordered_def)
  have "top_priority s' \<or> gives_way s' (SetPriorityTest junk h)"
    using n(1) p by (cases "ready_list s") (auto simp: top_priority_def neutral_def h_def by_priority_def)
  then have "fair s'" using n(1) by (auto simp: fair_def neutral_def)
  then show ?thesis using neutral_wf [OF w(1) n(1)] w(2) effect_unfold [OF s f n(2)] by (auto simp: turn_def intro: unfolds.intros)
qed

lemma set_priority_test_step:
  assumes s: "kernel_ok s" and f: "fr s (running s) = SetPriorityTest junk h # fs" and ex: "set_priority_test junk h (pop s) = s'"
  shows "kernel_ok s' \<and> turn s s' (SetPriorityTest junk h) fs \<and> effect s s' (SetPriorityTest junk h) fs"
proof -
  note w = pop_kernel_ok [OF s f, simplified]
  obtain gs where gs: "s' = push gs (pop s)" "gs = [] \<or> gs = [ThreadYield]" "gives_way s (SetPriorityTest junk h) \<longrightarrow> gs = [ThreadYield]"
  proof (cases "s' = push [ThreadYield] (pop s)")
    case False
    have e: "push [] (pop s) = pop s" by (simp add: push_nil)
    have "is_thread (pop s) x" if "x \<in> set (ready_list s)" for x
      using that w(1) by (auto simp: kernel_ok_def settled_def statuses_def is_thread_def threads_st(2))
    then have "\<not> gives_way s (SetPriorityTest junk h)" using False ex by (cases h) (auto simp: set_priority_test_def Let_def)
    moreover have "s' = pop s" using False ex by (auto simp: set_priority_test_def Let_def split: if_splits)
    ultimately show ?thesis using that [of "[]"] e by simp
  qed (use that in blast)
  have n: "neutral (pop s) s' gs" "keeps (pop s) s' gs" using push_neutral [of "pop s" gs] s gs by auto
  have "unfolds (SetPriorityTest junk h) gs" using gs(2) by (auto intro: unfolds.intros levels_unfolds)
  then show ?thesis using neutral_step [OF s f _ _ n] gs(3) by auto
qed

lemma level_step:
  assumes s: "kernel_ok s" and f: "fr s (running s) = f # fs" and ex: "exec f (pop s) = Some s'"
    and k: "(\<exists>off. f = SetLevel off) \<or> f = IntrEnable \<or> (\<exists>x. f = TakeTid x)"
  shows "kernel_ok s' \<and> turn s s' f fs \<and> effect s s' f fs"
proof -
  have w: "kernel_ok (pop s)" using pop_kernel_ok [OF s f] k by auto
  have "unfolds f []" using k by (intro levels_unfolds) auto
  moreover have "neutral (pop s) s' [] \<and> keeps (pop s) s' []"
    using k ex intr_set_level_neutral [OF w] intr_enable_neutral [OF w] take_tid_neutral [OF w] by auto
  ultimately show ?thesis using neutral_step [OF s f] k by auto
qed

lemma exec_effect:
  assumes s: "kernel_ok s" and pr: "programs s" and f: "fr s (running s) = f # fs" and u: "f \<noteq> User" and new: "fresh_page f s"
    and ex: "exec f (pop s) = Some s'"
  shows "kernel_ok s' \<and> turn s s' f fs \<and> effect s s' f fs"
proof -
  have pl: "plain f" using pr f unfolding programs_def by (metis list.pred_inject(2))
  have w: "kernel_ok (pop s)" if "f \<noteq> IdleLoop" "f \<noteq> IdleWait" using pop_kernel_ok(1) [OF s f that] .
  note n = neutral_step [OF s f]
  show ?thesis
  proof (cases f)
    case (SemaDown i)
    from sema_down_neutral [OF w, of i s'] SemaDown ex show ?thesis
      by (intro n [of _ "[SemaLoop i, SetLevel (intr_off (pop s))]"]) (auto intro: unfolds.intros)
  next
    case (LockAcquire l)
    from lock_acquire_neutral [OF w, of l s'] LockAcquire ex show ?thesis
      by (intro n [of _ "[SemaDown (LockSema l), SetHolder l]"]) (auto intro: unfolds.intros)
  next
    case TimerLoop
    from timer_loop_neutral [OF w] TimerLoop ex obtain gs where
      "gs = [] \<or> (\<exists>x. gs = [SemaUp (SleepSema x), TimerLoop])" "neutral (pop s) s' gs" "keeps (pop s) s' gs" by auto
    with TimerLoop show ?thesis by (intro n [of _ gs]) (auto intro: unfolds.intros levels_unfolds)
  next
    case (CondBroadcast c l)
    from cond_broadcast_neutral [OF w, of c l s'] CondBroadcast ex idle_frames [OF s f] obtain gs where
      "gs = [] \<or> gs = [CondBroadcast c l] \<or> (\<exists>x. gs = [SemaUp (WaiterSema x), CondBroadcast c l])"
      "neutral (pop s) s' gs" "keeps (pop s) s' gs" by auto
    with CondBroadcast show ?thesis by (intro n [of _ gs]) (auto intro: unfolds.intros levels_unfolds)
  next
    case (CondSignal c l)
    from cond_signal_neutral [OF w, of c l s'] CondSignal ex obtain gs where
      "gs = [] \<or> (\<exists>x. gs = [SemaUp (WaiterSema x)])" "neutral (pop s) s' gs" "keeps (pop s) s' gs" by auto
    with CondSignal show ?thesis by (intro n [of _ gs]) (auto intro: unfolds.intros levels_unfolds)
  next
    case (TimerSleep k)
    from timer_sleep_neutral [OF w, of k s'] TimerSleep ex obtain gs where
      "gs = [] \<or> gs = [SemaDown (SleepSema (running (pop s)))]" "neutral (pop s) s' gs" "keeps (pop s) s' gs" by auto
    with TimerSleep show ?thesis by (intro n [of _ gs]) (auto intro: unfolds.intros levels_unfolds)
  next
    case (StartThread x body)
    with pl f ex show ?thesis by (auto intro!: start_thread_step [OF s])
  next
    case (LockTryAcquire l)
    with f ex show ?thesis using lock_try_step [OF s] by fastforce
  next
    case (SemaTryDown k)
    with f ex show ?thesis using sema_try_down_step [OF s, of k fs "fst (sema_try_down (Sema k) (pop s))"] by (metis exec.simps option.inject prod.collapse)
  qed (use f ex new u pl sema_loop_step [OF s] sema_up_step [OF s] set_holder_step [OF s] lock_release_step [OF s] exit_step [OF s]
      create_step [OF s] cond_wait_step [OF s] intr_return_step [OF s] yield_step [OF s] set_priority_step [OF s] set_priority_head_step [OF s]
      set_priority_test_step [OF s] level_step [OF s f] idle_step [OF s f] in \<open>simp_all\<close>)
qed

lemma levels_plain: "levels gs \<Longrightarrow> list_all plain gs \<and> User \<notin> set gs"
  by (auto simp: levels_def list_all_iff)

lemma unfolds_plain: "unfolds f gs \<Longrightarrow> list_all plain gs \<and> User \<notin> set gs \<and> starts gs = []"
  by (induction rule: unfolds.induct) (auto simp: levels_starts levels_plain)

lemma starting_blocked:
  assumes "kernel_ok s" and "x \<in> set (starts (fr s y))"
  shows "st s x = Some THREAD_BLOCKED" and "x \<noteq> running s"
proof -
  show b: "st s x = Some THREAD_BLOCKED" using assms by (auto simp: kernel_ok_def settled_def statuses_def)
  then show "x \<noteq> running s" using assms(1) by auto
qed

lemma pushes_programs:
  assumes s: "kernel_ok s" "programs s" and f: "fr s (running s) = f # fs" and p: "pushes s s' (gs @ fs)"
    and g: "list_all plain gs" "starts gs = []" "User \<notin> set gs"
  shows "programs s'"
proof -
  have fr': "fr s' = (fr s)(running s := gs @ fs)" using p by (simp add: pushes_def)
  have sub: "x \<in> set (starts (fr s y))" if "x \<in> set (starts (fr s' y))" for x y
    using that g(2) f by (auto simp: fr' split: if_splits)
  have "fr s' x = []" if "x \<in> set (starts (fr s' y))" for x y
  proof -
    have "fr s x = []" "x \<noteq> running s" using sub [OF that] s starting_blocked [OF s(1)] by (auto simp: programs_def)
    then show ?thesis by (simp add: fr')
  qed
  moreover have "list_all plain (f # fs)" "own_code_last (f # fs)" using s(2) f unfolding programs_def by metis+
  then have "own_code_last fs" by (auto split: if_splits)
  ultimately show ?thesis using s(2) g(1) own_code_last_append [OF g(3)] \<open>list_all plain (f # fs)\<close> by (auto simp: programs_def fr')
qed

lemma own_tail: "programs s \<Longrightarrow> fr s x = f # fs \<Longrightarrow> list_all plain fs \<and> own_code_last fs"
  unfolding programs_def by (auto dest!: spec [of _ x] split: if_splits)

lemma effect_programs:
  assumes s: "kernel_ok s" "programs s" and f: "fr s (running s) = f # fs" and e: "effect s s' f fs"
  shows "programs s'"
  using e
proof cases
  case (unfold gs)
  then show ?thesis using pushes_programs [OF s f] unfolds_plain by blast
next
  case (raise gs i)
  then show ?thesis using pushes_programs [OF s f] levels_plain levels_starts by blast
next
  case (creates x nm pri)
  have fsp: "list_all plain fs" "own_code_last fs" "starts fs = starts (fr s (running s))"
    using own_tail [OF s(2) f] f creates by auto
  have x: "x \<notin> set (starts (fr s y))" for y using creates starting_blocked(1) [OF s(1)] by fastforce
  then show ?thesis
    using s(2) fsp creates starting_blocked(2) [OF s(1)] unfolding programs_def by (auto simp: allocate_tid_def)
next
  case (begins x gs)
  have ap: "apart (in_place s)" using s by (auto simp: kernel_ok_def settled_def)
  have xs: "starts (fr s (running s)) = x # starts fs" using f begins by simp
  have nx: "x \<notin> set (starts fs)" using apart_distinct [OF ap, of "Starting (running s)"] xs by simp
  have no: "x \<notin> set (starts (fr s y))" if "y \<noteq> running s" for y
    using apartD [OF ap, of x "Starting (running s)" "Starting y"] that xs by auto
  have sub: "z \<in> set (starts (fr s y)) \<and> z \<noteq> x" if "z \<in> set (starts (fr s' y))" for y z
    using that begins nx no xs by (auto simp: levels_starts kernel_thread_def split: if_splits)
  have "fr s' z = []" if "z \<in> set (starts (fr s' y))" for y z
    using sub [OF that] s(2) starting_blocked(2) [OF s(1)] begins by (auto simp: programs_def)
  moreover have "list_all plain fs" "own_code_last fs" using own_tail [OF s(2) f] by auto
  ultimately show ?thesis using s(2) begins levels_plain [OF begins(4)] own_code_last_append [of gs fs] by (auto simp: programs_def kernel_thread_def)
next
  case ends
  then show ?thesis
  proof (elim disjE conjE)
    assume "fr s' = (fr s)(running s := [])"
    then show ?thesis using s(2) starting_blocked(2) [OF s(1)] by (auto simp: programs_def)
  next
    assume "pushes s s' fs"
    then show ?thesis using pushes_programs [OF s f, of s' "[]"] by simp
  qed
qed (use pushes_programs [OF s f, of s' "[]"] pushes_programs [OF s f, of s' "[_]"] in \<open>auto\<close>)

definition kernel_inv :: "kernel \<Rightarrow> bool" where
  "kernel_inv s \<longleftrightarrow> kernel_ok s \<and> fair s \<and> programs s"

lemma callable_plain: "callable f \<Longrightarrow> plain f \<and> starts [f] = [] \<and> f \<noteq> User"
  by (cases f) auto

lemma neutral_fair:
  assumes "neutral s s' gs" and "fair s"
  shows "fair s'"
proof -
  have g: "gives_way s' g = gives_way s g" for g using assms(1) by (cases "(s, g)" rule: gives_way.cases) (auto simp: neutral_def)
  have "top_priority s' = top_priority s" "fr s' (running s') = gs @ fr s (running s)" using assms(1) by (simp_all add: top_priority_def neutral_def)
  then show ?thesis using assms(2) g by (auto simp: fair_def)
qed

text \<open>Every step is the effect of a frame, a call, a return or an interrupt.\<close>

lemma step_effect:
  assumes s: "kernel_inv s" and t: "step s s'"
  shows "kernel_ok s' \<and> (fair s \<longrightarrow> fair s') \<and> ((\<exists>f fs. fr s (running s) = f # fs \<and> effect s s' f fs)
    \<or> (\<exists>gs. pushes s s' (gs @ fr s (running s)) \<and> same_locks s s' \<and> ((\<exists>f fs. gs = [f] \<and> callable f \<and> fr s (running s) = User # fs) \<or> gs = [TimerLoop, IntrReturn]))
    \<or> (\<exists>fs. fr s (running s) = User # fs \<and> pushes s s' fs \<and> same_locks s s'))"
  using t
proof cases
  case (step_exec f fs)
  then show ?thesis using exec_effect [of s f fs s'] s turn_fair [of s f fs s'] by (auto simp: kernel_inv_def)
next
  case (step_call fs f)
  have w: "kernel_ok s" using s by (simp add: kernel_inv_def)
  have n: "neutral s s' [f]" "keeps s s' [f]" using push_neutral [of s "[f]"] w callable_plain [OF step_call(4)] step_call(1) by auto
  have "idle_thread s \<noteq> Some (running s)" using idle_frames [OF w step_call(2)] by simp
  then have "kernel_ok s'" using neutral_wf [OF w n(1)] by blast
  moreover have "fair s \<longrightarrow> fair s'" using neutral_fair [OF n(1)] by simp
  ultimately show ?thesis using n(2) step_call(2,4) by (auto simp: keeps_def pushes_def same_locks_def lock_value_def fun_eq_iff)
next
  case (step_return fs)
  have w: "kernel_ok s" using s by (simp add: kernel_inv_def)
  have "kernel_ok s'" using pop_kernel_ok(1) [OF w step_return(2)] step_return(1) by simp
  moreover have "turn s s' User fs" by (rule neutral_turn [OF w step_return(2), of _ "[]"]) (simp_all add: step_return(1) neutral_def)
  then have "fair s \<longrightarrow> fair s'" using turn_fair step_return(2) by blast
  ultimately show ?thesis
    using step_return w by (auto simp: pushes_def same_locks_def lock_value_def fun_eq_iff)
next
  case step_tick
  have w: "kernel_ok s" using s by (simp add: kernel_inv_def)
  note n = intr_handler_neutral [OF w step_tick(2)]
  then have "kernel_ok s'" "fair s \<longrightarrow> fair s'" using neutral_wf [OF w] neutral_fair by auto
  then show ?thesis using n by (auto simp: keeps_def pushes_def same_locks_def lock_value_def fun_eq_iff)
qed

lemma pushes_programs_top:
  assumes s: "kernel_ok s" "programs s" and p: "pushes s s' (gs @ fr s (running s))"
    and g: "list_all plain gs" "starts gs = []" "User \<notin> set gs"
  shows "programs s'"
proof -
  have fr': "fr s' = (fr s)(running s := gs @ fr s (running s))" using p by (simp add: pushes_def)
  have "fr s' x = []" if "x \<in> set (starts (fr s' y))" for x y
  proof -
    have "x \<in> set (starts (fr s y))" using that g(2) by (auto simp: fr' split: if_splits)
    then show ?thesis using s starting_blocked(2) [OF s(1)] by (auto simp: programs_def fr')
  qed
  then show ?thesis using s(2) g(1) own_code_last_append [OF g(3)] by (auto simp: programs_def fr')
qed

lemma step_inv:
  assumes s: "kernel_inv s" and t: "step s s'"
  shows "kernel_inv s'"
proof -
  have w: "kernel_ok s" "programs s" "fair s" using s by (simp_all add: kernel_inv_def)
  have "programs s'"
    using step_effect [OF s t]
  proof (elim conjE disjE exE)
    fix f fs assume "fr s (running s) = f # fs" "effect s s' f fs"
    then show ?thesis by (rule effect_programs [OF w(1,2)])
  next
    fix gs f assume "pushes s s' (gs @ fr s (running s))" "gs = [f]" "callable f"
    then show ?thesis using pushes_programs_top [OF w(1,2), of s' gs] callable_plain [of f] by auto
  next
    fix gs assume "pushes s s' (gs @ fr s (running s))" "gs = [TimerLoop, IntrReturn]"
    then show ?thesis using pushes_programs_top [OF w(1,2), of s' gs] by simp
  next
    fix fs assume "fr s (running s) = User # fs" "pushes s s' fs"
    then show ?thesis using pushes_programs [OF w(1,2), of User fs s' "[]"] by simp
  qed
  with step_effect [OF s t] w(3) show ?thesis by (simp add: kernel_inv_def)
qed

lemma booted_inv: "kernel_inv booted"
proof -
  have v: "running booted = 1" "ready_list booted = []" "idle_thread booted = Some 2" "waiters (semas booted i) = []"
    "fr booted = (\<lambda>x. if x = 1 then [User, ThreadExit] else if x = 2 then [IdleWait, ThreadExit] else [])"
    "st booted = [1 \<mapsto> THREAD_RUNNING, 2 \<mapsto> THREAD_BLOCKED]" for i
    by (auto simp: booted_def fr_def st_def fun_eq_iff split: sema_id.split)
  have f: "starts (fr booted y) = []" for y by (simp add: v)
  have ip: "in_place booted p = (case p of Here \<Rightarrow> [1] | Idle \<Rightarrow> [2] | _ \<Rightarrow> [])" for p by (cases p) (simp_all add: v(1-4) f)
  have "apart (in_place booted)" unfolding apart_def by (auto simp: ip split: place.splits)
  moreover have "idle_ok booted" unfolding idle_ok_def by (rule exI [of _ 2], intro conjI exI [of _ "[]"] exI [of _ IdleWait]) (simp_all add: v)
  ultimately show ?thesis
    by (auto simp: kernel_inv_def kernel_ok_def settled_def statuses_def ordered_def by_priority_def fair_def top_priority_def programs_def f v(1-4) v(5,6))
qed

lemma reachable_inv: "reachable s \<Longrightarrow> kernel_inv s"
  unfolding reachable_def by (induction rule: rtranclp_induct) (auto intro: booted_inv step_inv)

end
