(* ===== verification/Locks.thy ===== *)
theory Locks
  imports SchedInv
begin

text \<open>
  Mutual exclusion by locks. A lock has one token. It is in the value of the lock's semaphore, with the
  holder, or with a thread on its way: one that has passed \<^verbatim>\<open>sema_down\<close> and has not yet written itself
  into \<^verbatim>\<open>holder\<close>, or one that has cleared \<^verbatim>\<open>holder\<close> and has not yet called \<^verbatim>\<open>sema_up\<close>. Interrupts are on in both
  of these places, so that other threads run in between. \<open>weight\<close> counts the tokens that a frame
  of a thread is about to put down, less those that it is about to take.
\<close>

fun weight :: "nat \<Rightarrow> frame \<Rightarrow> int" where
  "weight l (SemaDown i) = (if i = LockSema l then -1 else 0)"
| "weight l (SemaLoop i) = (if i = LockSema l then -1 else 0)"
| "weight l (SemaUp i) = (if i = LockSema l then 1 else 0)"
| "weight l (SetHolder m) = (if m = l then 1 else 0)"
| "weight l _ = 0"

definition weights :: "nat \<Rightarrow> frame list \<Rightarrow> int" where
  "weights l fs = sum_list (map (weight l) fs)"

text \<open>A thread never takes more than it has, and has nothing when its own code runs or it exits.\<close>

fun balanced :: "nat \<Rightarrow> frame list \<Rightarrow> bool" where
  "balanced l [] \<longleftrightarrow> True"
| "balanced l (f # fs) \<longleftrightarrow> balanced l fs \<and> 0 \<le> weights l (f # fs) \<and> (f = User \<or> f = ThreadExit \<longrightarrow> weights l fs = 0)"

definition held :: "nat \<Rightarrow> kernel \<Rightarrow> int" where
  "held l s = (if holder s l = None then 0 else 1)"

definition under_way :: "nat \<Rightarrow> kernel \<Rightarrow> int" where
  "under_way l s = (\<Sum>x | st s x \<noteq> None. weights l (fr s x))"

definition tokens_of :: "nat \<Rightarrow> kernel \<Rightarrow> int" where
  "tokens_of l s = uint (lock_value s l) + held l s + under_way l s"

definition locks_inv :: "kernel \<Rightarrow> bool" where
  "locks_inv s \<longleftrightarrow> finite {x. st s x \<noteq> None} \<and> (\<forall>l. tokens_of l s = 1 \<and> (\<forall>x. balanced l (fr s x)))"

lemma weights_simps [simp]:
  "weights l [] = 0" "weights l (f # fs) = weight l f + weights l fs" "weights l (fs @ gs) = weights l fs + weights l gs"
  by (simp_all add: weights_def)

lemma balanced_nonneg: "balanced l fs \<Longrightarrow> 0 \<le> weights l fs"
  by (cases fs) auto

lemma levels_weights: "levels gs \<Longrightarrow> weights l gs = 0 \<and> (balanced l fs \<longrightarrow> balanced l (gs @ fs))"
  by (induction gs) (auto dest: balanced_nonneg)

lemma unfolds_balanced:
  assumes "unfolds f gs" and "balanced l (f # fs)"
  shows "balanced l (gs @ fs) \<and> weights l gs = weight l f"
  using assms
proof cases
  case 1
  then have "weight l f = 0" by (cases f) auto
  with 1 levels_weights [of gs] assms(2) show ?thesis by auto
qed (use assms(2) balanced_nonneg [of l fs] in \<open>auto split: if_splits\<close>)

lemma under_way_upd:
  assumes "finite {x. st s x \<noteq> None}" and "\<And>x. st s' x = None \<longleftrightarrow> st s x = None" and "st s c \<noteq> None" and "fr s' = (fr s)(c := fs)"
  shows "under_way l s' = under_way l s - weights l (fr s c) + weights l fs"
proof -
  let ?D = "{x. st s x \<noteq> None}"
  have D: "{x. st s' x \<noteq> None} = ?D" using assms(2) by auto
  have c: "c \<in> ?D" using assms(3) by simp
  have "under_way l s' = (\<Sum>x \<in> ?D. weights l (((fr s)(c := fs)) x))" unfolding under_way_def D assms(4) ..
  also have "\<dots> = weights l fs + (\<Sum>x \<in> ?D - {c}. weights l (fr s x))"
    using sum.remove [OF assms(1) c, of "\<lambda>x. weights l (((fr s)(c := fs)) x)"] by simp
  also have "(\<Sum>x \<in> ?D - {c}. weights l (fr s x)) = under_way l s - weights l (fr s c)"
    unfolding under_way_def using sum.remove [OF assms(1) c, of "\<lambda>x. weights l (fr s x)"] by simp
  finally show ?thesis by simp
qed

lemma under_way_ge:
  assumes "locks_inv s" and "st s c \<noteq> None"
  shows "weights l (fr s c) \<le> under_way l s"
proof -
  have "finite {x. st s x \<noteq> None}" "\<And>x. 0 \<le> weights l (fr s x)" using assms(1) balanced_nonneg by (auto simp: locks_inv_def)
  then show ?thesis unfolding under_way_def using assms(2) member_le_sum [of c "{x. st s x \<noteq> None}" "\<lambda>x. weights l (fr s x)"] by simp
qed

text \<open>A step that only changes frames of the running thread, and what locks it touches.\<close>

lemma locks_pushes:
  assumes inv: "locks_inv s" and c: "st s (running s) \<noteq> None" and p: "pushes s s' gs"
    and b: "\<And>l. balanced l gs"
    and t: "\<And>l. uint (lock_value s' l) + held l s' + weights l gs = uint (lock_value s l) + held l s + weights l (fr s (running s))"
  shows "locks_inv s'"
proof -
  have fin: "finite {x. st s x \<noteq> None}" using inv by (simp add: locks_inv_def)
  have d: "\<And>x. st s' x = None \<longleftrightarrow> st s x = None" and f: "fr s' = (fr s)(running s := gs)" using p by (auto simp: pushes_def)
  have "under_way l s' = under_way l s - weights l (fr s (running s)) + weights l gs" for l
    by (rule under_way_upd [OF fin d c f])
  then have "tokens_of l s' = tokens_of l s" for l using t [of l] by (simp add: tokens_of_def)
  moreover have "{x. st s' x \<noteq> None} = {x. st s x \<noteq> None}" using d by auto
  ultimately show ?thesis using inv b by (auto simp: locks_inv_def f)
qed

lemma token_taken:
  assumes inv: "locks_inv s" and c: "st s c \<noteq> None" and w: "1 \<le> weights l (fr s c)"
  shows "lock_value s l = 0 \<and> holder s l = None"
proof -
  have "0 \<le> uint (lock_value s l)" "0 \<le> held l s" "tokens_of l s = 1" using inv by (simp_all add: locks_inv_def held_def)
  then have "uint (lock_value s l) = 0 \<and> held l s = 0"
    using under_way_ge [OF inv c, of l] w unfolding tokens_of_def by linarith
  then show ?thesis by (auto simp: held_def uint_0_iff split: if_splits)
qed

lemma uint_pred:
  assumes "v \<noteq> (0 :: u32)"
  shows "uint (v - 1) = uint v - 1"
proof -
  have "unat (v - 1) = unat v - 1" "0 < unat v" using assms by (simp_all add: unat_minus_one unat_gt_0)
  then have "int (unat (v - 1)) = int (unat v) - 1" by (simp add: of_nat_diff)
  then show ?thesis by simp
qed

lemma no_frames: "st s x = None \<Longrightarrow> fr s x = []"
  by (auto simp: st_def fr_def)

lemma under_way_superset: "finite E \<Longrightarrow> {x. st s x \<noteq> None} \<subseteq> E \<Longrightarrow> under_way l s = (\<Sum>x \<in> E. weights l (fr s x))"
  unfolding under_way_def by (rule sum.mono_neutral_left) (auto simp: no_frames)

text \<open>Threads come and go without tokens.\<close>

lemma locks_same:
  assumes inv: "locks_inv s" and l: "same_locks s s'" and fin: "finite {x. st s' x \<noteq> None}"
    and w: "\<And>l x. weights l (fr s' x) = weights l (fr s x)" and b: "\<And>l x. balanced l (fr s' x)"
  shows "locks_inv s'"
proof -
  let ?E = "{x. st s x \<noteq> None} \<union> {x. st s' x \<noteq> None}"
  have "finite ?E" using inv fin by (simp add: locks_inv_def)
  then have "under_way l s' = under_way l s" for l
    using under_way_superset [of ?E s l] under_way_superset [of ?E s' l] w by simp
  then show ?thesis using inv l fin b by (auto simp: locks_inv_def tokens_of_def held_def same_locks_def)
qed

lemma effect_locks:
  assumes k: "kernel_inv s" and inv: "locks_inv s" and f: "fr s (running s) = f # fs" and e: "effect s s' f fs"
  shows "locks_inv s'"
proof -
  let ?c = "running s"
  have c: "st s ?c \<noteq> None" using k by (simp add: kernel_inv_def)
  have fin: "finite {x. st s x \<noteq> None}" using inv by (simp add: locks_inv_def)
  have b: "balanced l (f # fs)" for l using inv f unfolding locks_inv_def by metis
  then have bf: "balanced l fs" "0 \<le> weights l fs" for l using balanced_nonneg by auto
  note taken = token_taken [OF inv c, unfolded f]
  note lp = locks_pushes [OF inv c]
  show ?thesis using e
  proof cases
    case (unfold gs)
    then show ?thesis using unfolds_balanced [OF _ b] f by (intro lp) (auto simp: same_locks_def held_def)
  next
    case (pass i)
    then have "lock_value s' l = (if i = LockSema l then lock_value s l - 1 else lock_value s l)" for l by (auto simp: lock_value_def)
    moreover have "i = LockSema l \<longrightarrow> lock_value s l \<noteq> 0" for l using pass by (auto simp: lock_value_def)
    ultimately show ?thesis using pass f bf by (intro lp [of _ fs]) (auto simp: held_def uint_pred)
  next
    case (raise gs i)
    then have "lock_value s' l = (if i = LockSema l then lock_value s l + 1 else lock_value s l)" for l by (auto simp: lock_value_def)
    moreover have "i = LockSema l \<longrightarrow> lock_value s l = 0" for l using taken [of l] raise bf(2) [of l] by auto
    ultimately show ?thesis using raise f bf levels_weights [of gs] by (intro lp [of _ "gs @ fs"]) (auto simp: held_def)
  next
    case (take l)
    have "holder s l = None" using taken [of l] take bf(2) [of l] by auto
    then show ?thesis using take f bf by (intro lp [of _ fs]) (auto simp: held_def)
  next
    case (drop l)
    then show ?thesis using f bf b by (intro lp [of _ "SemaUp (LockSema l) # fs"]) (auto simp: held_def)
  next
    case (tries l)
    then show ?thesis using f bf b by (intro lp [of _ "SetHolder l # fs"]) (auto simp: held_def uint_pred)
  next
    case (creates x nm pri)
    have "x \<noteq> ?c" "fr s x = []" using creates c no_frames by auto
    moreover have "{y. st s' y \<noteq> None} = insert x {y. st s y \<noteq> None}" using creates by auto
    ultimately show ?thesis
      using creates fin bf b f inv by (intro locks_same [OF inv]) (auto simp: allocate_tid_def locks_inv_def)
  next
    case (begins x gs)
    have "x \<in> set (starts (fr s ?c))" using begins f by simp
    then have x: "fr s x = []" using k unfolding kernel_inv_def programs_def by blast
    have "{y. st s' y \<noteq> None} = {y. st s y \<noteq> None}" using begins by auto
    then show ?thesis
      using begins fin bf f inv x levels_weights [of gs] by (intro locks_same [OF inv]) (auto simp: kernel_thread_def locks_inv_def)
  next
    case ends
    have w: "weights l fs = 0" for l using b [of l] ends by simp
    have "st s y = None \<Longrightarrow> st s' y = None" for y using ends by (auto simp: pushes_def)
    then have "{y. st s' y \<noteq> None} \<subseteq> {y. st s y \<noteq> None}" by (intro Collect_mono impI notI) simp
    then have "finite {y. st s' y \<noteq> None}" using fin finite_subset by blast
    then show ?thesis using ends w f bf inv by (intro locks_same [OF inv]) (auto simp: locks_inv_def pushes_def)
  qed
qed

lemma callable_weight: "callable f \<Longrightarrow> weight l f = 0"
  by (cases f) auto

lemma step_locks:
  assumes k: "kernel_inv s" and inv: "locks_inv s" and t: "step s s'"
  shows "locks_inv s'"
proof -
  have c: "st s (running s) \<noteq> None" using k by (simp add: kernel_inv_def)
  have b: "balanced l (fr s (running s))" for l using inv by (simp add: locks_inv_def)
  note lp = locks_pushes [OF inv c]
  from step_effect [OF k t] show ?thesis
  proof (elim conjE disjE exE)
    fix f fs assume "fr s (running s) = f # fs" "effect s s' f fs"
    then show ?thesis by (rule effect_locks [OF k inv])
  next
    fix gs f fs assume g: "pushes s s' (gs @ fr s (running s))" "same_locks s s'" "gs = [f]" "callable f" "fr s (running s) = User # fs"
    then have "balanced l (gs @ fr s (running s))" "weights l gs = 0" for l using b [of l] callable_weight [of f l] by auto
    then show ?thesis using g(2) by (intro lp [OF g(1)]) (auto simp: same_locks_def held_def)
  next
    fix gs assume g: "pushes s s' (gs @ fr s (running s))" "same_locks s s'" "gs = [TimerLoop, IntrReturn]"
    then show ?thesis using b balanced_nonneg [OF b] by (intro lp [OF g(1)]) (auto simp: same_locks_def held_def)
  next
    fix fs assume g: "fr s (running s) = User # fs" "pushes s s' fs" "same_locks s s'"
    then show ?thesis using b by (intro lp [OF g(2)]) (force simp: same_locks_def held_def)+
  qed
qed

lemma booted_locks: "locks_inv booted"
proof -
  have f: "fr booted = (\<lambda>x. if x = 1 then [User, ThreadExit] else if x = 2 then [IdleWait, ThreadExit] else [])"
    by (auto simp: booted_def fr_def fun_eq_iff)
  have D: "{x. st booted x \<noteq> None} = {1, 2}" by (auto simp: booted_def st_def)
  have "lock_value booted l = 1" "holder booted l = None" for l by (simp_all add: booted_def lock_value_def)
  then show ?thesis unfolding locks_inv_def tokens_of_def under_way_def D by (simp add: f held_def)
qed

lemma reachable_locks: "reachable s \<Longrightarrow> kernel_inv s \<and> locks_inv s"
  unfolding reachable_def
  by (induction rule: rtranclp_induct) (auto intro: booted_inv booted_locks step_inv step_locks)

end
