(* ===== verification/KernelProps.thy ===== *)
theory KernelProps
  imports Locks
begin

text \<open>
  What the scheduler, the semaphores, the locks and the timer promise, in every state that the kernel
  reaches from its start.
\<close>

subsection \<open>Runs\<close>

text \<open>\<open>run n\<close> runs \<open>n\<close> frames of the running thread.\<close>

primrec run :: "nat \<Rightarrow> kernel \<Rightarrow> kernel option" where
  "run 0 s = Some s"
| "run (Suc n) s =
     (case fr s (running s) of
        [] \<Rightarrow> None
      | f # fs \<Rightarrow> if f = User \<or> \<not> fresh_page f s then None else exec f (pop s) \<bind> run n)"

lemma run_steps: "run n s = Some s' \<Longrightarrow> step\<^sup>*\<^sup>* s s'"
proof (induction n arbitrary: s)
  case (Suc n)
  then obtain f fs t where t: "fr s (running s) = f # fs" "f \<noteq> User" "fresh_page f s" "exec f (pop s) = Some t" "run n t = Some s'"
    by (auto split: list.splits if_splits simp: bind_Some_iff)
  then have "step s t" by (auto intro: step_exec)
  then show ?case using Suc.IH [OF t(5)] by (rule converse_rtranclp_into_rtranclp)
qed simp

lemma call_runs:
  assumes "reachable s" and "fr s (running s) = User # fs" and "\<not> intr_off s" and "callable f" and "run n (push [f] s) = Some s'"
  shows "reachable s'"
  using assms step_call [of s fs f] run_steps [of n "push [f] s" s'] unfolding reachable_def
  by (meson converse_rtranclp_into_rtranclp rtranclp.rtrancl_into_rtrancl rtranclp_trans)

lemma reachable_booted: "reachable booted"
  by (simp add: reachable_def)

lemma run_numeral: "run (numeral k) s =
     (case fr s (running s) of
        [] \<Rightarrow> None
      | f # fs \<Rightarrow> if f = User \<or> \<not> fresh_page f s then None else exec f (pop s) \<bind> run (pred_numeral k))"
  by (simp add: numeral_eq_Suc)

lemmas kernel_ops = push_def upd_thread_def pop_def fr_def prio_def thread_current_def is_thread_def
  intr_set_level_def intr_enable_def intr_disable_def next_thread_to_run_def thread_schedule_tail_def schedule_def thread_block_def
  thread_yield_def thread_unblock_def thread_exit_def init_thread_def allocate_tid_def take_tid_def kernel_thread_def thread_create_def
  start_thread_def sema_init_def sema_down_def sema_loop_def sema_up_def lock_held_by_current_thread_def lock_acquire_def set_holder_def
  lock_release_def ins_ord_def value_less_def PRI_MIN_def PRI_MAX_def PRI_DEFAULT_def tid_lock_def Let_def

text \<open>
  The initial thread has created a thread of a higher priority, which runs at once; then this thread
  has called \<^verbatim>\<open>sema_down\<close> and the initial thread runs again.
\<close>

definition created :: kernel where
  "created = booted\<lparr>threads := (threads booted)(
      1 \<mapsto> \<lparr>tid = 1, status = THREAD_READY, tname = ''main'', priority = PRI_DEFAULT, base_priority = PRI_DEFAULT, wakeupTime = 0,
        frames = [SetLevel True, SetLevel False, User, ThreadExit]\<rparr>,
      3 \<mapsto> \<lparr>tid = 3, status = THREAD_RUNNING, tname = ''t'', priority = 40, base_priority = 40, wakeupTime = 0,
        frames = [User, ThreadExit]\<rparr>),
    running := 3, ready_list := [1], all_list := [1, 2, 3], next_tid := 4\<rparr>"

definition waiting :: kernel where
  "waiting = booted\<lparr>threads := (threads booted)(
      3 \<mapsto> \<lparr>tid = 3, status = THREAD_BLOCKED, tname = ''t'', priority = 40, base_priority = 40, wakeupTime = 0,
        frames = [SemaLoop (Sema 7), SetLevel False, User, ThreadExit]\<rparr>),
    all_list := [1, 2, 3], next_tid := 4, semas := (semas booted)(Sema 7 := \<lparr>sema_value = 0, waiters = [3]\<rparr>)\<rparr>"

lemma created_reachable: "reachable created"
proof (rule call_runs [OF reachable_booted])
  show "fr booted (running booted) = User # [ThreadExit]" "\<not> intr_off booted" by (simp_all add: booted_def fr_def)
  show "run 12 (push [ThreadCreate (Some 3) ''t'' 40] booted) = Some created"
    by (simp add: run_numeral created_def booted_def kernel_ops fun_eq_iff)
qed simp

lemma waiting_reachable: "reachable waiting"
proof (rule call_runs [OF created_reachable])
  show "fr created (running created) = User # [ThreadExit]" "\<not> intr_off created" by (simp_all add: created_def booted_def fr_def)
  show "run 4 (push [SemaDown (Sema 7)] created) = Some waiting"
    by (simp add: run_numeral created_def waiting_def booted_def kernel_ops fun_eq_iff)
qed simp

text \<open>The initial thread has taken the lock 5.\<close>

definition locked :: kernel where
  "locked = booted\<lparr>holder := [5 \<mapsto> 1], semas := (semas booted)(LockSema 5 := \<lparr>sema_value = 0, waiters = []\<rparr>)\<rparr>"

lemma locked_reachable: "reachable locked"
proof (rule call_runs [OF reachable_booted])
  show "fr booted (running booted) = User # [ThreadExit]" "\<not> intr_off booted" by (simp_all add: booted_def fr_def)
  show "run 5 (push [LockAcquire 5] booted) = Some locked"
    by (simp add: run_numeral locked_def booted_def kernel_ops fun_eq_iff)
qed simp

subsection \<open>Locks\<close>

definition inside :: "nat \<Rightarrow> kernel \<Rightarrow> nat \<Rightarrow> bool" where
  "inside l s x \<longleftrightarrow> holder s l = Some x \<or> 1 \<le> weights l (fr s x)"

lemma weights_exist: "1 \<le> weights l (fr s z) \<Longrightarrow> st s z \<noteq> None"
  using no_frames [of s z] by (cases "st s z") auto

lemma two_under_way:
  assumes inv: "locks_inv s" and xy: "x \<noteq> y" "1 \<le> weights l (fr s x)" "1 \<le> weights l (fr s y)"
  shows False
proof -
  let ?D = "{x. st s x \<noteq> None}"
  have D: "finite ?D" "x \<in> ?D" "y \<in> ?D - {x}" using inv xy weights_exist [of l s x] weights_exist [of l s y] by (auto simp: locks_inv_def)
  have nn: "0 \<le> weights l (fr s z)" for z using inv balanced_nonneg by (auto simp: locks_inv_def)
  have "under_way l s = weights l (fr s x) + (\<Sum>z \<in> ?D - {x}. weights l (fr s z))"
    unfolding under_way_def using D by (intro sum.remove) auto
  moreover have "weights l (fr s y) \<le> (\<Sum>z \<in> ?D - {x}. weights l (fr s z))"
    using D nn by (intro member_le_sum) auto
  ultimately have "2 \<le> under_way l s" using xy by linarith
  moreover have "0 \<le> uint (lock_value s l)" "0 \<le> held l s" "tokens_of l s = 1" using inv by (simp_all add: locks_inv_def held_def)
  ultimately show False unfolding tokens_of_def by linarith
qed

lemma held_value:
  assumes "locks_inv s" and "holder s l = Some x"
  shows "lock_value s l = 0"
proof -
  have "0 \<le> weights l (fr s z)" for z using assms(1) balanced_nonneg by (auto simp: locks_inv_def)
  then have "0 \<le> under_way l s" unfolding under_way_def by (intro sum_nonneg) simp
  moreover have "0 \<le> uint (lock_value s l)" "held l s = 1" "tokens_of l s = 1" using assms by (simp_all add: locks_inv_def held_def)
  ultimately have "uint (lock_value s l) = 0" unfolding tokens_of_def by linarith
  then show ?thesis by (simp add: uint_0_iff)
qed

subsection \<open>Properties\<close>

text \<open>
  C2. The queues of the kernel, in every reachable state and whatever the threads call: exactly one thread
  is running; the threads in the ready list are ready, the waiters of a semaphore are blocked, no
  thread is twice in a queue or in the queues of two semaphores, and every queue is ordered by
  priority.
\<close>

theorem queues_well_formed:
  assumes "reachable s"
  shows "(\<forall>x. st s x = Some THREAD_RUNNING \<longleftrightarrow> x = running s)
    \<and> distinct (ready_list s) \<and> (\<forall>x \<in> set (ready_list s). st s x = Some THREAD_READY)
    \<and> sorted_wrt (\<lambda>a b. prio s a \<ge> prio s b) (ready_list s)
    \<and> (\<forall>i. distinct (waiters (semas s i)) \<and> (\<forall>x \<in> set (waiters (semas s i)). st s x = Some THREAD_BLOCKED)
        \<and> sorted_wrt (\<lambda>a b. prio s a \<ge> prio s b) (waiters (semas s i)))
    \<and> (\<forall>i j. i \<noteq> j \<longrightarrow> set (waiters (semas s i)) \<inter> set (waiters (semas s j)) = {})"
proof -
  have w: "kernel_ok s" using reachable_inv [OF assms] by (simp add: kernel_inv_def)
  then have ap: "apart (in_place s)" by (simp add: kernel_ok_def settled_def)
  have "set (waiters (semas s i)) \<inter> set (waiters (semas s j)) = {}" if "i \<noteq> j" for i j
    using apartD [OF ap, of _ "Waiting i" "Waiting j"] that by auto
  then show ?thesis
    using w apart_distinct [OF ap, of Ready] apart_distinct [OF ap, of "Waiting _"]
    by (simp add: kernel_ok_def settled_def statuses_def ordered_def by_priority_def)
qed

theorem queues_well_formed_witness: "\<forall>x. st locked x = Some THREAD_RUNNING \<longleftrightarrow> x = 1"
proof -
  have "running locked = 1" by (simp add: locked_def booted_def)
  with queues_well_formed [OF locked_reachable] show ?thesis by simp
qed

lemma reachable_wf:
  assumes "reachable s" and "\<not> (\<exists>f \<in> set (fr s (running s)). gives_way s f)"
  shows "kernel_wf s"
  using reachable_inv [OF assms(1)] assms(2) by (simp add: kernel_inv_def fair_def kernel_wf_ok)

lemma own_code_wf:
  assumes "reachable s" and "fr s (running s) = User # fs"
  shows "kernel_wf s"
proof (rule reachable_wf [OF assms(1)])
  have "own_code_last (fr s (running s))" using reachable_inv [OF assms(1)] by (simp add: kernel_inv_def programs_def)
  then show "\<not> (\<exists>f \<in> set (fr s (running s)). gives_way s f)" using assms(2) by simp
qed

text \<open>
  C6. Strict priorities: in every reachable state no thread in the ready list has a higher priority than
  the running thread, unless the running thread is the idle thread, which gives way by itself, or is inside \<^verbatim>\<open>thread_set_priority\<close> or a call of \<^verbatim>\<open>thread_yield\<close>
  and gives way before it returns: the frame of the call is still to run, and the ready thread that it has found is still ready and above the running
  one. A thread that runs its own code is never below a ready thread.
\<close>

theorem highest_priority_runs:
  assumes "reachable s" and "x \<in> set (ready_list s)"
  shows "(idle_thread s = Some (running s) \<or> prio s x \<le> prio s (running s) \<or> (\<exists>f \<in> set (fr s (running s)). gives_way s f))
    \<and> (\<forall>fs. fr s (running s) = User # fs \<longrightarrow> prio s x \<le> prio s (running s))"
proof (intro conjI allI impI)
  show "idle_thread s = Some (running s) \<or> prio s x \<le> prio s (running s) \<or> (\<exists>f \<in> set (fr s (running s)). gives_way s f)"
    using reachable_wf [OF assms(1)] assms(2) by (auto simp: kernel_wf_def top_priority_def)
  fix fs assume u: "fr s (running s) = User # fs"
  have w: "kernel_wf s" by (rule own_code_wf [OF assms(1) u])
  moreover have "idle_thread s \<noteq> Some (running s)" using idle_frames [OF _ u] w by (simp add: kernel_wf_ok)
  ultimately show "prio s x \<le> prio s (running s)" using assms(2) by (auto simp: kernel_wf_def top_priority_def)
qed

text \<open>
  The exception is a real one: the thread of the higher priority lowers it below that of the ready thread, and the timer can interrupt it there.
\<close>

lemma set_priority_window:
  "\<exists>s. reachable s \<and> \<not> intr_off s \<and> 1 \<in> set (ready_list s) \<and> prio s 1 > prio s (running s) \<and> idle_thread s \<noteq> Some (running s)"
proof -
  define s where "s = push [SetPriorityHead 0] (upd_thread 3 (\<lambda>t. t\<lparr>priority := 10\<rparr>) created)"
  have "reachable s"
  proof (rule call_runs [OF created_reachable])
    show "fr created (running created) = User # [ThreadExit]" "\<not> intr_off created" by (simp_all add: created_def booted_def fr_def)
    show "run 1 (push [SetPriority 0 10] created) = Some s"
      by (simp add: s_def created_def booted_def kernel_ops thread_set_priority_def fun_eq_iff)
  qed simp
  then show ?thesis by (intro exI [of _ s]) (simp add: s_def created_def booted_def kernel_ops)
qed

text \<open>
  C1. Mutual exclusion: \<open>inside l s x\<close> says that the thread \<open>x\<close> is the holder of the lock \<open>l\<close>, or has decremented
  the lock's semaphore and will become its holder, or has ceased to be the holder and will increment
  the semaphore. In every reachable state at most one thread is inside of a lock, and while one is
  inside the value of the semaphore is 0, so that no other thread gets past \<^verbatim>\<open>sema_down\<close>.
\<close>

theorem lock_mutual_exclusion:
  assumes "reachable s" and "inside l s x"
  shows "lock_value s l = 0 \<and> (\<forall>y. inside l s y \<longrightarrow> y = x)"
proof -
  have inv: "locks_inv s" using reachable_locks [OF assms(1)] by simp
  have t: "lock_value s l = 0 \<and> holder s l = None" if "1 \<le> weights l (fr s z)" for z
    using token_taken [OF inv weights_exist [OF that] that] .
  have "lock_value s l = 0" using assms(2) t held_value [OF inv] by (auto simp: inside_def)
  moreover have "y = x" if "inside l s y" for y
    using assms(2) that t [of x] t [of y] two_under_way [OF inv, of x y l] unfolding inside_def by (metis option.inject option.distinct(1))
  ultimately show ?thesis by blast
qed

theorem lock_mutual_exclusion_witness: "lock_value locked 5 = 0 \<and> inside 5 locked 1 \<and> \<not> inside 5 locked 2"
proof -
  have i: "inside 5 locked 1" by (simp add: inside_def locked_def)
  from lock_mutual_exclusion [OF locked_reachable i] have "lock_value locked 5 = 0" and "inside 5 locked 2 \<longrightarrow> 2 = (1 :: nat)" by blast+
  with i show ?thesis by simp
qed

lemma ins_ord_front: "(\<And>y. y \<in> set xs \<Longrightarrow> lt x y) \<Longrightarrow> ins_ord lt x xs = x # xs"
  by (cases xs) (auto simp: ins_ord_def)

lemma ins_ord_after: "\<not> lt x y \<Longrightarrow> ins_ord lt x (y # ys) = y # ins_ord lt x ys"
  by (simp add: ins_ord_def)

lemma unblock_preempts:
  assumes s: "settled t" "idle_ok t" and x: "st t x = Some THREAD_BLOCKED" "\<And>p. x \<notin> set (in_place t p)"
    and top: "top_priority t" and ni: "idle_thread t \<noteq> Some (running t)" and hi: "prio t x > prio t (running t)"
  shows "\<exists>u. thread_unblock x t = thread_yield u \<and> settled u \<and> idle_ok u \<and> running u = running t \<and> idle_thread u = idle_thread t
    \<and> semas u = semas t \<and> in_external_intr u = in_external_intr t
    \<and> ins_ord (value_less u) (running t) (ready_list u) = x # ins_ord (value_less t) (running t) (ready_list t)"
proof -
  let ?c = "running t"
  from thread_unblock_ready [OF s x] obtain u where u: "settled u" "idle_ok u" "running u = ?c" "idle_thread u = idle_thread t" "prio u = prio t"
    "semas u = semas t" "in_external_intr u = in_external_intr t" "ready_list u = ins_ord (value_less t) x (ready_list t)"
    "thread_unblock x t = (if prio t ?c < prio t (hd (ready_list u)) \<and> idle_thread t \<noteq> Some ?c then thread_yield u else Some u)" by blast
  have "prio t y \<le> prio t ?c" if "y \<in> set (ready_list t)" for y using top ni that by (auto simp: top_priority_def)
  then have r: "ready_list u = x # ready_list t" unfolding u(8) using hi by (intro ins_ord_front) (force simp: value_less_def)
  then have y: "thread_unblock x t = thread_yield u" using u(9) hi ni by simp
  have "ins_ord (value_less u) ?c (ready_list u) = x # ins_ord (value_less t) ?c (ready_list t)"
    unfolding r using hi by (simp add: ins_ord_after value_less_prio u(5))
  with y u(1-4,6,7) show ?thesis by blast
qed

text \<open>
  C13. \<^verbatim>\<open>sema_up\<close> with waiters: the value is incremented and the first waiter, which has the highest priority
  of all of them, leaves the queue. When its priority is higher than that of the caller, it runs as
  soon as \<^verbatim>\<open>sema_up\<close> has unblocked it and the caller is ready again; otherwise it is ready and the caller goes on.
\<close>

theorem sema_up_wakes_highest:
  assumes s: "kernel_wf s" and w: "waiters (semas s i) = x # xs" and ni: "idle_thread s \<noteq> Some (running s)" and ext: "\<not> in_external_intr s"
  shows "\<exists>s'. sema_up i s = Some s' \<and> waiters (semas s' i) = xs \<and> sema_value (semas s' i) = sema_value (semas s i) + 1
    \<and> (\<forall>y \<in> set xs. prio s y \<le> prio s x)
    \<and> (if prio s x > prio s (running s) then running s' = x \<and> running s \<in> set (ready_list s')
       else running s' = running s \<and> x \<in> set (ready_list s'))"
proof -
  let ?c = "running s"
  have "by_priority s (waiters (semas s i))" using s by (simp add: kernel_wf_def settled_def ordered_def)
  then have hi: "\<forall>y \<in> set xs. prio s y \<le> prio s x" by (simp add: w by_priority_def)
  have top: "top_priority s" using s by (simp add: kernel_wf_def)
  from sema_up_unblocks [OF _ w] s obtain t where t: "sema_up i s = thread_unblock x t" "settled t" "idle_ok t" "st t x = Some THREAD_BLOCKED"
    "\<And>p. x \<notin> set (in_place t p)" "running t = ?c" "idle_thread t = idle_thread s" "prio t = prio s" "ready_list t = ready_list s"
    "in_external_intr t = in_external_intr s" "semas t = (semas s)(i := \<lparr>sema_value = sema_value (semas s i) + 1, waiters = xs\<rparr>)" by (auto simp: kernel_wf_ok)
  show ?thesis
  proof (cases "prio s x > prio s ?c")
    case True
    have "top_priority t" "idle_thread t \<noteq> Some (running t)" "prio t x > prio t (running t)" using True top ni by (auto simp: t(6-9) top_priority_def)
    from unblock_preempts [OF t(2-5) this] obtain u where u: "thread_unblock x t = thread_yield u" "settled u" "idle_ok u" "running u = ?c"
      "idle_thread u = idle_thread s" "semas u = semas t" "in_external_intr u = in_external_intr s"
      "ins_ord (value_less u) ?c (ready_list u) = x # ins_ord (value_less t) ?c (ready_list s)" by (auto simp: t(6-10))
    have "\<not> in_external_intr u" using u(7) ext by simp
    from thread_yield_view [OF u(2,3) this] obtain s' where "thread_yield u = Some s'" "semas s' = semas u"
      "running s' # ready_list s' = ins_ord (value_less u) ?c (ready_list u)" using ni u(4,5) by auto
    then show ?thesis using True hi by (intro exI [of _ s']) (simp add: t(1,11) u(1,6,8))
  next
    case False
    from thread_unblock_ready [OF t(2-5)] obtain u where u: "running u = ?c" "semas u = semas t" "ready_list u = ins_ord (value_less t) x (ready_list s)"
      "thread_unblock x t = (if prio s ?c < prio s (hd (ready_list u)) \<and> idle_thread s \<noteq> Some ?c then thread_yield u else Some u)"
      by (auto simp: t(6-10))
    have "hd (ready_list u) \<in> insert x (set (ready_list s))"
      using hd_in_set [of "ready_list u"] set_ins_ord [of "value_less t" x "ready_list s"] unfolding u(3) by fastforce
    then have "\<not> prio s ?c < prio s (hd (ready_list u))" using False top ni by (force simp: top_priority_def)
    then show ?thesis using False hi by (intro exI [of _ u]) (simp add: t(1,11) u)
  qed
qed

text \<open>
  The same call in an interrupt handler stops the kernel: when \<^verbatim>\<open>timer_interrupt\<close> wakes a thread with a
  higher priority than the interrupted one, \<^verbatim>\<open>thread_unblock\<close> calls \<^verbatim>\<open>thread_yield\<close>, whose assertion that it is not in an
  interrupt fails. A thread that sleeps for one tick is enough to get there.
\<close>

theorem sema_up_in_interrupt_panics:
  assumes s: "kernel_wf s" and w: "waiters (semas s i) = x # xs" and ni: "idle_thread s \<noteq> Some (running s)" and ext: "in_external_intr s"
    and hi: "prio s x > prio s (running s)"
  shows "sema_up i s = None"
proof -
  let ?c = "running s"
  from sema_up_unblocks [OF _ w] s obtain t where t: "sema_up i s = thread_unblock x t" "settled t" "idle_ok t" "st t x = Some THREAD_BLOCKED"
    "\<And>p. x \<notin> set (in_place t p)" "running t = ?c" "idle_thread t = idle_thread s" "prio t = prio s" "ready_list t = ready_list s"
    "in_external_intr t = in_external_intr s" by (auto simp: kernel_wf_ok)
  have "top_priority t" "idle_thread t \<noteq> Some (running t)" "prio t x > prio t (running t)" using s hi ni by (auto simp: t(6-9) top_priority_def kernel_wf_def)
  from unblock_preempts [OF t(2-5) this] obtain u where u: "thread_unblock x t = thread_yield u" "in_external_intr u = in_external_intr s"
    by (auto simp: t(10))
  then show ?thesis using ext t(1) by (simp add: thread_yield_def thread_current_eq)
qed

theorem highest_priority_runs_witness: "prio created 1 \<le> prio created (running created)"
  using highest_priority_runs [OF created_reachable, of 1] by (simp add: created_def booted_def fr_def)

theorem sema_up_wakes_highest_witness:
  "\<exists>s'. sema_up (Sema 7) waiting = Some s' \<and> running s' = 3 \<and> 1 \<in> set (ready_list s')"
proof -
  have w: "kernel_wf waiting" by (rule own_code_wf [OF waiting_reachable, of "[ThreadExit]"]) (simp add: waiting_def booted_def fr_def)
  have "waiters (semas waiting (Sema 7)) = 3 # []" "idle_thread waiting \<noteq> Some (running waiting)" "\<not> in_external_intr waiting"
    "prio waiting 3 > prio waiting (running waiting)" "running waiting = 1"
    by (simp_all add: waiting_def booted_def prio_def PRI_DEFAULT_def)
  with sema_up_wakes_highest [OF w] show ?thesis by fastforce
qed

text \<open>The thread of the higher priority sleeps for one tick, and the tick comes.\<close>

definition ringing :: kernel where
  "ringing = booted\<lparr>threads := (threads booted)(
      1 \<mapsto> \<lparr>tid = 1, status = THREAD_RUNNING, tname = ''main'', priority = PRI_DEFAULT, base_priority = PRI_DEFAULT, wakeupTime = 0,
        frames = [SemaUp (SleepSema 3), TimerLoop, IntrReturn, User, ThreadExit]\<rparr>,
      3 \<mapsto> \<lparr>tid = 3, status = THREAD_BLOCKED, tname = ''t'', priority = 40, base_priority = 40, wakeupTime = 1,
        frames = [SemaLoop (SleepSema 3), SetLevel False, User, ThreadExit]\<rparr>),
    all_list := [1, 2, 3], next_tid := 4, semas := (semas booted)(SleepSema 3 := \<lparr>sema_value = 0, waiters = [3]\<rparr>),
    ticks := 1, thread_ticks := 1, kernel_ticks := 1, intr_off := True, in_external_intr := True\<rparr>"

definition sleeping :: kernel where
  "sleeping = booted\<lparr>threads := (threads booted)(
      3 \<mapsto> \<lparr>tid = 3, status = THREAD_BLOCKED, tname = ''t'', priority = 40, base_priority = 40, wakeupTime = 1,
        frames = [SemaLoop (SleepSema 3), SetLevel False, User, ThreadExit]\<rparr>),
    all_list := [1, 2, 3], next_tid := 4, semas := (semas booted)(SleepSema 3 := \<lparr>sema_value = 0, waiters = [3]\<rparr>), wait_list := [3]\<rparr>"

lemma ringing_reachable: "reachable ringing"
proof -
  have s: "reachable sleeping"
  proof (rule call_runs [OF created_reachable])
    show "fr created (running created) = User # [ThreadExit]" "\<not> intr_off created" by (simp_all add: created_def booted_def fr_def)
    show "run 5 (push [TimerSleep 1] created) = Some sleeping"
      by (simp add: run_numeral created_def sleeping_def booted_def kernel_ops timer_sleep_def fun_eq_iff)
  qed simp
  have "\<not> (4 :: u32) \<le> 1" by (simp add: word_le_nat_alt)
  then have "intr_handler sleeping \<bind> run 1 = Some ringing"
    by (simp add: sleeping_def ringing_def booted_def kernel_ops intr_handler_def timer_interrupt_def thread_tick_def TIME_SLICE_def
      timer_loop_def wakeup_def fun_eq_iff)
  then obtain t where t: "intr_handler sleeping = Some t" "run 1 t = Some ringing" by (auto simp: bind_Some_iff simp del: One_nat_def)
  have "step sleeping t" using t(1) by (intro step_tick) (simp_all add: sleeping_def booted_def)
  then show ?thesis using s run_steps [OF t(2)] unfolding reachable_def by (meson rtranclp.rtrancl_into_rtrancl rtranclp_trans)
qed

subsection \<open>Taking turns\<close>

text \<open>\<open>yields n\<close>: the thread that runs calls \<^verbatim>\<open>thread_yield\<close>, \<open>n\<close> times.\<close>

primrec yields :: "nat \<Rightarrow> kernel \<Rightarrow> kernel option" where
  "yields 0 s = Some s"
| "yields (Suc n) s = thread_yield s \<bind> yields n"

definition cycle :: "kernel \<Rightarrow> nat list" where
  "cycle s = running s # ready_list s"

lemma ins_ord_last: "(\<And>y. y \<in> set xs \<Longrightarrow> \<not> lt x y) \<Longrightarrow> ins_ord lt x xs = xs @ [x]"
  by (induction xs) (auto simp: ins_ord_def)

lemma yields_rotate:
  assumes "kernel_wf s" and "\<not> in_external_intr s" and "idle_thread s \<noteq> Some (running s)" and "\<And>x. x \<in> set (ready_list s) \<Longrightarrow> prio s x = prio s (running s)"
  shows "\<exists>s'. yields n s = Some s' \<and> cycle s' = rotate n (cycle s)"
  using assms
proof (induction n arbitrary: s)
  case (Suc n)
  have set: "settled s" "idle_ok s" using Suc.prems(1) by (auto simp: kernel_wf_def)
  from thread_yield_view [OF set Suc.prems(2)] Suc.prems(3) obtain t where t: "thread_yield s = Some t" "kernel_wf t" "prio t = prio s"
    "idle_thread t = idle_thread s" "in_external_intr t = in_external_intr s"
    "running t # ready_list t = ins_ord (value_less s) (running s) (ready_list s)" by blast
  note t(6)
  also have "ins_ord (value_less s) (running s) (ready_list s) = ready_list s @ [running s]" using Suc.prems(4) by (intro ins_ord_last) (simp add: value_less_def)
  finally have c: "cycle t = rotate1 (cycle s)" by (simp add: cycle_def)
  then have "set (cycle t) = set (cycle s)" by simp
  moreover have "prio s x = prio s (running s)" if "x \<in> set (cycle s)" for x using that Suc.prems(4) by (auto simp: cycle_def)
  ultimately have eq: "prio t x = prio s (running s)" if "x \<in> set (cycle t)" for x using that t(3) by simp
  have "apart (in_place s)" using set(1) by (simp add: settled_def)
  then have "x \<notin> set (ready_list s)" if "idle_thread s = Some x" for x using apartD [of "in_place s" x Ready Idle] that by auto
  then have "idle_thread t \<noteq> Some (running t)" using c Suc.prems(3) t(4) by (cases "ready_list s") (auto simp: cycle_def)
  moreover have "prio t x = prio t (running t)" if "x \<in> set (ready_list t)" for x using that eq by (simp add: cycle_def)
  ultimately obtain s' where "yields n t = Some s'" "cycle s' = rotate n (cycle t)"
    using Suc.IH [OF t(2)] t(5) Suc.prems(2) by auto
  then show ?case using t(1) c by (simp add: rotate1_rotate_swap)
qed simp

text \<open>Two threads of the same priority.\<close>

definition paired :: kernel where
  "paired = booted\<lparr>threads := (threads booted)(
      3 \<mapsto> \<lparr>tid = 3, status = THREAD_READY, tname = ''t'', priority = 31, base_priority = 31, wakeupTime = 0,
        frames = [IntrEnable, User, ThreadExit]\<rparr>),
    ready_list := [3], all_list := [1, 2, 3], next_tid := 4\<rparr>"

lemma paired_reachable: "reachable paired"
proof (rule call_runs [OF reachable_booted])
  show "fr booted (running booted) = User # [ThreadExit]" "\<not> intr_off booted" by (simp_all add: booted_def fr_def)
  show "run 12 (push [ThreadCreate (Some 3) ''t'' 31] booted) = Some paired"
    by (simp add: run_numeral paired_def booted_def kernel_ops fun_eq_iff)
qed simp

text \<open>
  C40. Round robin among threads of one priority: when the running thread and the ready threads have the same
  priority and each thread that runs yields, the ready list and the running thread rotate, without a
  panic, and every ready thread runs after at most as many calls as there are ready threads.
\<close>

theorem round_robin:
  assumes "kernel_wf s" and "\<not> in_external_intr s" and "idle_thread s \<noteq> Some (running s)" and "\<And>x. x \<in> set (ready_list s) \<Longrightarrow> prio s x = prio s (running s)"
    and "x \<in> set (ready_list s)"
  shows "\<exists>n s'. n \<le> length (ready_list s) \<and> yields n s = Some s' \<and> running s' = x"
proof -
  from assms(5) obtain k where k: "k < length (ready_list s)" "ready_list s ! k = x" by (auto simp: in_set_conv_nth)
  obtain s' where s': "yields (Suc k) s = Some s'" "cycle s' = rotate (Suc k) (cycle s)" using yields_rotate [OF assms(1-4)] by blast
  have "running s' = hd (cycle s')" by (simp add: cycle_def)
  also have "\<dots> = cycle s ! Suc k" unfolding s'(2) using k by (subst hd_rotate_conv_nth) (simp_all add: cycle_def)
  also have "\<dots> = x" using k by (simp add: cycle_def)
  finally show ?thesis using s'(1) k(1) by (intro exI [of _ "Suc k"] exI [of _ s']) simp
qed

theorem round_robin_witness: "\<exists>n s'. n \<le> 1 \<and> yields n paired = Some s' \<and> running s' = 3"
proof -
  have w: "kernel_wf paired" by (rule own_code_wf [OF paired_reachable, of "[ThreadExit]"]) (simp add: paired_def booted_def fr_def)
  have "ready_list paired = [3]" "running paired = 1" "\<not> in_external_intr paired" "idle_thread paired \<noteq> Some (running paired)" "prio paired 3 = prio paired 1"
    by (simp_all add: paired_def booted_def prio_def PRI_DEFAULT_def)
  with round_robin [OF w, of 3] show ?thesis by simp
qed

text \<open>
  Misuse of locks: acquiring a lock that the thread has, by \<^verbatim>\<open>lock_acquire\<close> or \<^verbatim>\<open>lock_try_acquire\<close>, releasing a lock
  that it has not, and \<^verbatim>\<open>cond_wait\<close> or \<^verbatim>\<open>cond_signal\<close> without the lock are stopped by an assertion; \<^verbatim>\<open>lock_try_acquire\<close> of a lock
  that another thread has returns false and changes nothing.
\<close>

theorem lock_misuse:
  assumes "reachable s"
  shows "(holder s l = Some (running s) \<longrightarrow> lock_acquire l s = None \<and> lock_try_acquire l s = None)
    \<and> (holder s l \<noteq> Some (running s) \<longrightarrow> lock_release l s = None \<and> cond_wait junk c l s = None \<and> cond_signal c l s = None)
    \<and> (\<forall>x. holder s l = Some x \<and> x \<noteq> running s \<longrightarrow> lock_try_acquire l s = Some (False, s))"
proof -
  have "kernel_ok s" "locks_inv s" using reachable_locks [OF assms] by (auto simp: kernel_inv_def)
  then have h: "lock_held_by_current_thread l s = Some (holder s l = Some (running s))"
    and v: "\<forall>x. holder s l = Some x \<longrightarrow> sema_value (semas s (LockSema l)) = 0"
    using held_value by (auto simp: lock_held_by_current_thread_def thread_current_eq lock_value_def)
  then show ?thesis
    by (auto simp: lock_acquire_def lock_try_acquire_def lock_release_def cond_wait_def cond_signal_def sema_try_down_def)
qed

end
