(* ===== verification/Arith64.thy ===== *)
theory Arith64
  imports Prelude "HOL-Library.Signed_Division"
begin

text \<open>
  The 64-bit division of \<^verbatim>\<open>lib/arithmetic.c\<close>, which the compiler calls for \<^verbatim>\<open>/\<close> and \<^verbatim>\<open>%\<close> on \<^verbatim>\<open>long long\<close>. The values are machine words; the
  instruction \<^verbatim>\<open>divl\<close> divides 64 bits by 32 bits and traps (\<^const>\<open>None\<close>) if the quotient does not fit into 32 bits or the divisor
  is zero. The lemmas show that the instruction never traps for a divisor other than zero, that the quotients are the
  true ones, and what the remainders are, which the code cuts to 32 bits.
\<close>

unbundle bit_operations_syntax

type_synonym u64 = "64 word"

definition divl :: "u64 \<Rightarrow> u32 \<Rightarrow> u32 option" where
  "divl n d = (if d = 0 \<or> unat n div unat d \<ge> 2 ^ 32 then None else Some (of_nat (unat n div unat d)))"

definition nlz :: "u32 \<Rightarrow> nat" where
  "nlz x =
     (let n = 0;
          (n, x) = (if x \<le> 0x0000FFFF then (n + 16, push_bit 16 x) else (n, x));
          (n, x) = (if x \<le> 0x00FFFFFF then (n + 8, push_bit 8 x) else (n, x));
          (n, x) = (if x \<le> 0x0FFFFFFF then (n + 4, push_bit 4 x) else (n, x));
          (n, x) = (if x \<le> 0x3FFFFFFF then (n + 2, push_bit 2 x) else (n, x))
      in if x \<le> 0x7FFFFFFF then n + 1 else n)"

definition udiv64 :: "u64 \<Rightarrow> u64 \<Rightarrow> u64 option" where
  "udiv64 n d =
     (if drop_bit 32 d = 0
      then do {
        let b = (push_bit 32 1 :: u64);
        let n1 = (ucast (drop_bit 32 n) :: u32);
        let n0 = (ucast n :: u32);
        let d0 = (ucast d :: u32);
        ASSERT (d0 \<noteq> 0);
        q \<leftarrow> divl (b * ucast (n1 mod d0) + ucast n0) d0;
        Some (ucast q + b * ucast (n1 div d0)) }
      else if n < d then Some 0
      else do {
        let d1 = (ucast (drop_bit 32 d) :: u32);
        let s = nlz d1;
        q \<leftarrow> divl (drop_bit 1 n) (ucast (drop_bit 32 (push_bit s d)));
        let q = (ucast (drop_bit (31 - s) q) :: u64);
        Some (if n - (q - 1) * d < d then q - 1 else q) })"

definition umod64 :: "u64 \<Rightarrow> u64 \<Rightarrow> u32 option" where
  "umod64 n d = do { q \<leftarrow> udiv64 n d; Some (ucast (n - d * q)) }"

definition abs64 :: "u64 \<Rightarrow> u64" where
  "abs64 n = (if sint n \<ge> 0 then n else - n)"

definition sdiv64 :: "u64 \<Rightarrow> u64 \<Rightarrow> u64 option" where
  "sdiv64 n d = do {
     q_abs \<leftarrow> udiv64 (abs64 n) (abs64 d);
     Some (if (sint n < 0) = (sint d < 0) then q_abs else - q_abs) }"

definition smod64 :: "u64 \<Rightarrow> u64 \<Rightarrow> u32 option" where
  "smod64 n d = do { q \<leftarrow> sdiv64 n d; Some (ucast (n - d * q)) }"

definition divdi3 :: "u64 \<Rightarrow> u64 \<Rightarrow> u64 option" where
  "divdi3 n d = sdiv64 n d"

definition moddi3 :: "u64 \<Rightarrow> u64 \<Rightarrow> u64 option" where
  "moddi3 n d = do { r \<leftarrow> smod64 n d; Some (scast r) }"

definition udivdi3 :: "u64 \<Rightarrow> u64 \<Rightarrow> u64 option" where
  "udivdi3 n d = udiv64 n d"

definition umoddi3 :: "u64 \<Rightarrow> u64 \<Rightarrow> u64 option" where
  "umoddi3 n d = do { r \<leftarrow> umod64 n d; Some (ucast r) }"

subsection \<open>Normalisation\<close>

lemma u64_less: "unat (n :: u64) < 2 ^ 64"
  using unsigned_less [of n] by simp

lemma unat_push32: "unat x * 2 ^ k < 2 ^ 32 \<Longrightarrow> unat (push_bit k (x :: u32)) = unat x * 2 ^ k"
  unfolding unsigned_push_bit_eq by (simp add: push_bit_eq_mult take_bit_eq_mod)

lemma unat_push64: "unat x * 2 ^ k < 2 ^ 64 \<Longrightarrow> unat (push_bit k (x :: u64)) = unat x * 2 ^ k"
  unfolding unsigned_push_bit_eq by (simp add: push_bit_eq_mult take_bit_eq_mod)

text \<open>\<^verbatim>\<open>nlz\<close> is the shift that moves the highest bit to the top.\<close>

definition norm_step :: "nat \<Rightarrow> nat \<times> u32 \<Rightarrow> nat \<times> u32" where
  "norm_step k p = (if unat (snd p) < 2 ^ (32 - k) then (fst p + k, push_bit k (snd p)) else p)"

lemma norm_step:
  assumes "unat (snd p) = unat x * 2 ^ fst p" "2 ^ (32 - 2 * k) \<le> unat (snd p)" "k \<le> 16"
  shows "unat (snd (norm_step k p)) = unat x * 2 ^ fst (norm_step k p)" "2 ^ (32 - k) \<le> unat (snd (norm_step k p))"
proof -
  have e: "(2 :: nat) ^ (32 - k) * 2 ^ k = 2 ^ 32" "(2 :: nat) ^ (32 - 2 * k) * 2 ^ k = 2 ^ (32 - k)" using assms(3) by (simp_all flip: power_add)
  have u: "unat (push_bit k (snd p)) = unat (snd p) * 2 ^ k" if "unat (snd p) < 2 ^ (32 - k)"
    using that e(1) by (intro unat_push32) (metis mult_less_mono1 zero_less_numeral zero_less_power)
  then show "unat (snd (norm_step k p)) = unat x * 2 ^ fst (norm_step k p)" using assms(1) by (simp add: norm_step_def power_add)
  have "2 ^ (32 - 2 * k) * 2 ^ k \<le> unat (snd p) * 2 ^ k" using assms(2) by (rule mult_right_mono) simp
  then show "2 ^ (32 - k) \<le> unat (snd (norm_step k p))" using u e(2) by (auto simp: norm_step_def)
qed

lemma nlz_steps: "nlz x = fst (norm_step 1 (norm_step 2 (norm_step 4 (norm_step 8 (norm_step 16 (0, x))))))"
proof -
  have "x \<le> 0x0000FFFF \<longleftrightarrow> unat x < 2 ^ 16" "x \<le> 0x00FFFFFF \<longleftrightarrow> unat x < 2 ^ 24" "x \<le> 0x0FFFFFFF \<longleftrightarrow> unat x < 2 ^ 28"
    "x \<le> 0x3FFFFFFF \<longleftrightarrow> unat x < 2 ^ 30" "x \<le> 0x7FFFFFFF \<longleftrightarrow> unat x < 2 ^ 31" for x :: u32
    by (auto simp: word_le_nat_alt)
  then show ?thesis unfolding nlz_def norm_step_def Let_def by (auto split: prod.split)
qed

lemma nlz_normalises:
  assumes "x \<noteq> 0"
  shows "2 ^ 31 \<le> unat x * 2 ^ nlz x" "unat x * 2 ^ nlz x < 2 ^ 32" "nlz x \<le> 31"
proof -
  let ?p1 = "norm_step 16 (0, x)" let ?p2 = "norm_step 8 ?p1" let ?p3 = "norm_step 4 ?p2" let ?p4 = "norm_step 2 ?p3" let ?p5 = "norm_step 1 ?p4"
  have "1 \<le> unat x" using assms by (simp add: unat_gt_0 Suc_le_eq)
  then have 1: "unat (snd ?p1) = unat x * 2 ^ fst ?p1" "2 ^ 16 \<le> unat (snd ?p1)" using norm_step [of "(0, x)" x 16] by simp_all
  have 2: "unat (snd ?p2) = unat x * 2 ^ fst ?p2" "2 ^ 24 \<le> unat (snd ?p2)" using norm_step [OF 1(1), of 8] 1(2) by simp_all
  have 3: "unat (snd ?p3) = unat x * 2 ^ fst ?p3" "2 ^ 28 \<le> unat (snd ?p3)" using norm_step [OF 2(1), of 4] 2(2) by simp_all
  have 4: "unat (snd ?p4) = unat x * 2 ^ fst ?p4" "2 ^ 30 \<le> unat (snd ?p4)" using norm_step [OF 3(1), of 2] 3(2) by simp_all
  have 5: "unat (snd ?p5) = unat x * 2 ^ fst ?p5" "2 ^ 31 \<le> unat (snd ?p5)" using norm_step [OF 4(1), of 1] 4(2) by simp_all
  have "unat (snd ?p5) < 2 ^ 32" using unsigned_less [of "snd ?p5"] by simp
  then show "2 ^ 31 \<le> unat x * 2 ^ nlz x" and l: "unat x * 2 ^ nlz x < 2 ^ 32" using 5 by (simp_all add: nlz_steps)
  have "2 ^ nlz x \<le> unat x * 2 ^ nlz x" using \<open>1 \<le> unat x\<close> by simp
  then have "(2 :: nat) ^ nlz x < 2 ^ 32" using l by linarith
  then have "nlz x < 32" by (rule power_less_imp_less_exp [rotated]) simp
  then show "nlz x \<le> 31" by simp
qed

subsection \<open>Division\<close>

text \<open>The arithmetic of the second branch: the quotient by the leading 32 bits of the divisor is right or one too great.\<close>

lemma quotient_estimate:
  fixes n d v s :: nat
  assumes n: "n < 2 ^ 64" and s: "s \<le> 31" and d: "2 ^ 63 \<le> d * 2 ^ s" "d * 2 ^ s < 2 ^ 64" and v: "v = d * 2 ^ s div 2 ^ 32"
  shows "n div 2 div v div 2 ^ (31 - s) = n div d \<or> n div 2 div v div 2 ^ (31 - s) = n div d + 1" and "2 ^ 31 \<le> v" "v < 2 ^ 32" "n div 2 div v < 2 ^ 32"
proof -
  define t where "t = 32 - s"
  have st: "s = 32 - t" "1 \<le> t" "t \<le> 32" using s by (simp_all add: t_def)
  show v1: "2 ^ 31 \<le> v" using div_le_mono [OF d(1), of "2 ^ 32"] by (simp add: v)
  show "v < 2 ^ 32" using d(2) by (simp add: v div_less_iff_less_mult)
  have "n div 2 < 2 ^ 63" using n by simp
  then have "n div 2 < 2 ^ 32 * v" using v1 by simp
  then show "n div 2 div v < 2 ^ 32" using v1 by (simp add: div_less_iff_less_mult)
  define e where "e = v * 2 ^ t"
  have pw: "(2 :: nat) ^ s * 2 ^ t = 2 ^ 32" "(2 :: nat) * 2 ^ (31 - s) = 2 ^ t" using s by (simp_all add: t_def flip: power_add power_Suc)
  define q where "q = n div 2 div v div 2 ^ (31 - s)"
  have "q = n div (2 * v * 2 ^ (31 - s))" by (simp add: q_def div_mult2_eq)
  also have "2 * v * 2 ^ (31 - s) = e" using pw(2) by (simp add: e_def)
  finally have q: "q = n div e" .
  have e_d: "e \<le> d" "d < e + 2 ^ t"
  proof -
    have "v * 2 ^ 32 \<le> d * 2 ^ s" "d * 2 ^ s < (v + 1) * 2 ^ 32" unfolding v by (simp_all add: dividend_less_times_div)
    then have "e * 2 ^ s \<le> d * 2 ^ s" "d * 2 ^ s < (e + 2 ^ t) * 2 ^ s" using pw(1) by (simp_all add: e_def algebra_simps)
    then show "e \<le> d" "d < e + 2 ^ t" by simp_all
  qed
  have e1: "2 ^ (31 + t) \<le> e" using v1 by (simp add: e_def power_add)
  show "n div 2 div v div 2 ^ (31 - s) = n div d \<or> n div 2 div v div 2 ^ (31 - s) = n div d + 1"
    unfolding q_def [symmetric]
  proof -
    have "0 < e" using e1 by (metis order_less_le_trans zero_less_numeral zero_less_power)
    then have low: "n div d \<le> q" unfolding q using e_d(1) by (rule div_le_mono2)
    have d63: "2 ^ (31 + t) \<le> d" using e1 e_d(1) by simp
    then have d0: "0 < d" by (metis order_less_le_trans zero_less_numeral zero_less_power)
    have "n div d * 2 ^ (31 + t) \<le> n div d * d" using d63 by simp
    also have "\<dots> \<le> n" by simp
    finally have "n div d * 2 ^ (31 + t) < 2 ^ (33 - t) * 2 ^ (31 + t)" using n st by (simp flip: power_add)
    then have Q: "n div d + 1 \<le> 2 ^ (33 - t)" by simp
    have "\<not> n div d + 2 \<le> q"
    proof
      assume "n div d + 2 \<le> q"
      then have "(n div d + 2) * e \<le> q * e" by (rule mult_right_mono) simp
      also have "\<dots> \<le> n" by (simp add: q)
      also have "n < (n div d + 1) * d" using d0 by (simp add: dividend_less_times_div mult.commute)
      finally have "(n div d + 1) * e + e < (n div d + 1) * e + (n div d + 1) * (d - e)" using e_d(1) by (simp add: algebra_simps)
      then have "e < (n div d + 1) * (d - e)" by simp
      also have "\<dots> \<le> 2 ^ (33 - t) * (2 ^ t - 1)" using Q e_d by (intro mult_mono) auto
      also have "\<dots> = 2 ^ 33 - 2 ^ (33 - t)" using st by (simp add: diff_mult_distrib2 flip: power_add)
      finally have e2: "e < 2 ^ 33 - 2 ^ (33 - t)" .
      show False
      proof (cases "t = 1")
        case False
        then have "(2 :: nat) ^ 33 \<le> 2 ^ (31 + t)" using st(2) by (intro power_increasing) auto
        then show False using e1 e2 by linarith
      qed (use e1 e2 in simp)
    qed
    then show "q = n div d \<or> q = n div d + 1" using low by linarith
  qed
qed

lemma unat_drop32: "unat (drop_bit k w) = unat w div 2 ^ k" for w :: "'a::len word"
  unfolding unat_drop_bit_eq by (simp add: drop_bit_eq_div)

lemma unat_ucast_small: "unat w < 2 ^ LENGTH('b) \<Longrightarrow> unat (ucast w :: 'b::len word) = unat w" for w :: "'a::len word"
  by (simp add: unsigned_ucast_eq take_bit_nat_eq_self)

lemma ucast_nat: "ucast w = (of_nat (unat w) :: 'b::len word)" for w :: "'a::len word"
  by simp

lemma word_div_nat: "n div d = of_nat (unat n div unat d)" for n d :: "'a::len word"
  by (simp add: word_arith_nat_div)

lemma udiv64_small:
  assumes d: "d \<noteq> 0" and small: "drop_bit 32 d = 0"
  shows "udiv64 n d = Some (n div d)"
proof -
  define N D where "N = unat n" and "D = unat d"
  have "D div 2 ^ 32 = 0" using small unat_drop32 [of 32 d] by (simp add: D_def)
  then have D: "0 < D" "D < 2 ^ 32" using d by (simp_all add: D_def div_eq_0_iff unat_gt_0)
  have N: "N < 2 ^ 64" unfolding N_def by (rule u64_less)
  define n1 n0 d0 :: u32 where defs: "n1 = ucast (drop_bit 32 n)" "n0 = ucast n" "d0 = ucast d"
  have n1: "unat n1 = N div 2 ^ 32" unfolding defs using N by (subst unat_ucast_small) (simp_all add: unat_drop32 N_def div_less_iff_less_mult)
  have n0: "unat n0 = N mod 2 ^ 32" unfolding defs by (simp add: unsigned_ucast_eq take_bit_eq_mod N_def)
  have d0: "unat d0 = D" "d0 \<noteq> 0" unfolding defs using D by (auto simp: D_def unat_ucast_small simp flip: unat_eq_0)
  define r where "r = 2 ^ 32 * (N div 2 ^ 32 mod D) + N mod 2 ^ 32"
  have r: "r < 2 ^ 32 * D"
  proof -
    have "2 ^ 32 * (N div 2 ^ 32 mod D) \<le> 2 ^ 32 * (D - 1)" using D(1) by (intro mult_left_mono) (simp_all add: less_Suc_eq_le [symmetric])
    then have "2 ^ 32 * (N div 2 ^ 32 mod D) \<le> 2 ^ 32 * D - 2 ^ 32" by (simp add: diff_mult_distrib2)
    moreover have "N mod 2 ^ 32 < 2 ^ 32" "(2 :: nat) ^ 32 \<le> 2 ^ 32 * D" using D(1) by simp_all
    ultimately show ?thesis unfolding r_def by linarith
  qed
  have w: "push_bit 32 1 * ucast (n1 mod d0) + ucast n0 = (of_nat r :: u64)"
    unfolding ucast_nat by (simp add: r_def push_bit_eq_mult n1 n0 d0(1) unat_mod del: of_nat_unat)
  have "2 ^ 32 * D \<le> 2 ^ 32 * 2 ^ 32" using D(2) by (intro mult_left_mono) auto
  then have "r < 2 ^ 64" using r by simp
  then have ur: "unat (of_nat r :: u64) = r" by (simp add: unat_of_nat)
  have q: "r div D < 2 ^ 32" using r D(1) by (simp add: div_less_iff_less_mult)
  then have dv: "divl (of_nat r) d0 = Some (of_nat (r div D))" using d0 by (simp add: divl_def ur)
  have split: "b * A = b * (A mod D) + D * (b * (A div D))" for b A :: nat
    using arg_cong [OF mult_div_mod_eq [of D A], of "\<lambda>x. b * x"] by (simp only: add_mult_distrib2 mult.left_commute add.commute)
  have "N = 2 ^ 32 * (N div 2 ^ 32) + N mod 2 ^ 32" by simp
  also have "\<dots> = r + D * (2 ^ 32 * (N div 2 ^ 32 div D))" unfolding r_def split [of "2 ^ 32" "N div 2 ^ 32"] by (simp only: ac_simps)
  finally have "N div D = (r + D * (2 ^ 32 * (N div 2 ^ 32 div D))) div D" by simp
  then have nd: "N div D = r div D + 2 ^ 32 * (N div 2 ^ 32 div D)" using D(1) by simp
  have uq: "unat (of_nat (r div D) :: u32) = r div D" using q by (simp add: unat_of_nat)
  have "ucast (of_nat (r div D) :: u32) + push_bit 32 1 * ucast (n1 div d0) = (of_nat (N div D) :: u64)"
    unfolding ucast_nat nd uq by (simp add: push_bit_eq_mult n1 d0(1) unat_div_distrib del: of_nat_unat)
  then show ?thesis using small d0(2) w dv unfolding udiv64_def Let_def defs [symmetric] by (simp add: word_div_nat N_def D_def)
qed

lemma correct_estimate:
  fixes n d :: u64
  assumes "unat d \<noteq> 0" "unat d \<le> unat n" and q: "q' = unat n div unat d \<or> q' = unat n div unat d + 1"
  shows "(let q = of_nat q' :: u64 in if n - (q - 1) * d < d then q - 1 else q) = n div d"
proof -
  define N D where "N = unat n" and "D = unat d"
  have nd: "n = of_nat N" "d = of_nat D" by (simp_all add: N_def D_def)
  have D: "0 < D" and "D \<le> N" using assms(1,2) by (simp_all add: N_def D_def)
  then have Q: "1 \<le> N div D" using div_le_mono [of D N D] by simp
  then have "1 \<le> q'" using q by (auto simp: N_def D_def)
  then have q1: "(of_nat q' :: u64) - 1 = of_nat (q' - 1)" by (simp add: of_nat_diff)
  have "(q' - 1) * D \<le> N div D * D" using q by (intro mult_right_mono) (auto simp: N_def D_def)
  also have "\<dots> \<le> N" by simp
  finally have le: "(q' - 1) * D \<le> N" .
  then have r: "n - (of_nat q' - 1) * d = of_nat (N - (q' - 1) * D)" unfolding q1 nd by (simp add: of_nat_diff)
  have "N - (q' - 1) * D < 2 ^ 64" using u64_less [of n] by (simp add: N_def less_imp_diff_less)
  then have u: "unat (of_nat (N - (q' - 1) * D) :: u64) = N - (q' - 1) * D" by (subst unat_of_nat) simp
  have t: "n - (of_nat q' - 1) * d < d \<longleftrightarrow> N - (q' - 1) * D < D" unfolding r word_less_nat_alt u by (simp add: D_def)
  have e: "N = N div D * D + N mod D" by simp
  have dv: "n div d = of_nat (N div D)" by (simp add: word_div_nat N_def D_def)
  from q consider "q' = N div D" | "q' = N div D + 1" by (auto simp: N_def D_def)
  then show ?thesis
  proof cases
    case 1
    then have "q' = Suc (q' - 1)" using \<open>1 \<le> q'\<close> by simp
    then have "N = (q' - 1) * D + (N mod D + D)" using e 1 by (metis add.assoc add.commute mult_Suc)
    then have "N - (q' - 1) * D = N mod D + D" by linarith
    then have "\<not> N - (q' - 1) * D < D" by simp
    then show ?thesis using t 1 by (simp add: dv)
  next
    case 2
    have "N - N div D * D = N mod D" using e by linarith
    then have "N - (q' - 1) * D < D" using 2 D by simp
    then show ?thesis using t 2 by (simp add: dv)
  qed
qed

lemma udiv64_large:
  assumes large: "drop_bit 32 d \<noteq> 0"
  shows "udiv64 n d = Some (n div d)"
proof (cases "n < d")
  case True
  then show ?thesis using large by (simp add: udiv64_def word_div_nat word_less_nat_alt)
next
  case False
  define N D where "N = unat n" and "D = unat d"
  have N: "N < 2 ^ 64" and D64: "D < 2 ^ 64" unfolding N_def D_def by (rule u64_less)+
  define d1 :: u32 where "d1 = ucast (drop_bit 32 d)"
  have d1: "unat d1 = D div 2 ^ 32" unfolding d1_def using D64 by (subst unat_ucast_small) (simp_all add: unat_drop32 D_def div_less_iff_less_mult)
  have "unat (drop_bit 32 d) \<noteq> 0" using large by (simp add: unat_eq_0)
  then have "d1 \<noteq> 0" using d1 by (auto simp: unat_drop32 D_def simp flip: unat_eq_0)
  define s where "s = nlz d1"
  note s = nlz_normalises [OF \<open>d1 \<noteq> 0\<close>, folded s_def, unfolded d1]
  have "2 ^ 63 = (2 :: nat) ^ 32 * 2 ^ 31" by simp
  also have "\<dots> \<le> 2 ^ 32 * (D div 2 ^ 32 * 2 ^ s)" by (rule mult_left_mono [OF s(1)]) simp
  also have "\<dots> = 2 ^ 32 * (D div 2 ^ 32) * 2 ^ s" by (rule mult.assoc [symmetric])
  also have "\<dots> \<le> D * 2 ^ s" by (rule mult_right_mono) simp_all
  finally have low: "2 ^ 63 \<le> D * 2 ^ s" .
  have p: "(2 :: nat) ^ 32 = 2 ^ (32 - s) * 2 ^ s" using s(3) by (simp flip: power_add)
  have "D div 2 ^ 32 * 2 ^ s < 2 ^ (32 - s) * 2 ^ s" using s(2) p by argo
  then have "D div 2 ^ 32 + 1 \<le> 2 ^ (32 - s)" by simp
  then have "(D div 2 ^ 32 + 1) * 2 ^ 32 * 2 ^ s \<le> 2 ^ (32 - s) * 2 ^ 32 * 2 ^ s" by (intro mult_right_mono) simp_all
  also have "\<dots> = 2 ^ 64" using p by (simp add: mult.commute)
  finally have "(D div 2 ^ 32 + 1) * 2 ^ 32 * 2 ^ s \<le> 2 ^ 64" .
  moreover have "D < (D div 2 ^ 32 + 1) * 2 ^ 32" using dividend_less_times_div [of "2 ^ 32" D] by simp
  ultimately have high: "D * 2 ^ s < 2 ^ 64" by (meson mult_less_mono1 order_less_le_trans zero_less_numeral zero_less_power)
  define v where "v = D * 2 ^ s div 2 ^ 32"
  note est = quotient_estimate [OF N s(3) low high v_def]
  have ps: "unat (push_bit s d) = D * 2 ^ s" unfolding D_def using high by (intro unat_push64) (simp add: D_def)
  define w where "w = drop_bit 32 (push_bit s d)"
  have "unat w = v" by (simp add: w_def unat_drop32 ps v_def)
  then have uv: "unat (ucast w :: u32) = v" using est(3) by (subst unat_ucast_small) simp_all
  have "(ucast w :: u32) \<noteq> 0" using uv est(2) by (auto simp flip: unat_eq_0)
  then have dv: "divl (drop_bit 1 n) (ucast w) = Some (of_nat (N div 2 div v))"
    using est(4) by (simp only: divl_def uv unat_drop32 N_def) simp
  have uq: "unat (of_nat (N div 2 div v) :: u32) = N div 2 div v" using est(4) by (subst unat_of_nat) simp
  define q' where "q' = N div 2 div v div 2 ^ (31 - s)"
  have q: "ucast (drop_bit (31 - s) (of_nat (N div 2 div v) :: u32)) = (of_nat q' :: u64)"
    unfolding ucast_nat unat_drop32 uq q'_def ..
  have "D \<le> N" using False by (simp add: N_def D_def word_less_nat_alt)
  moreover have "D \<noteq> 0" using low by (metis mult_0 not_numeral_le_zero power_not_zero le_zero_eq zero_neq_numeral)
  ultimately have "(let q = of_nat q' :: u64 in if n - (q - 1) * d < d then q - 1 else q) = n div d"
    using est(1) by (intro correct_estimate) (simp_all add: N_def D_def q'_def)
  then show ?thesis using large False dv q unfolding udiv64_def Let_def d1_def [symmetric] s_def [symmetric] w_def [symmetric] by (simp split: if_splits)
qed

lemma udiv64_eq: "d \<noteq> 0 \<Longrightarrow> udiv64 n d = Some (n div d)"
  using udiv64_small udiv64_large by blast


lemma ucast_ucast_take: "ucast (ucast w :: u32) = take_bit 32 (w :: u64)"
  by (rule bit_word_eqI) (auto simp: bit_simps)

lemma umod64_eq: "d \<noteq> 0 \<Longrightarrow> umod64 n d = Some (ucast (n mod d))"
  by (simp add: umod64_def udiv64_eq minus_mult_div_eq_mod)

subsection \<open>Signed division\<close>

lemma uint_abs64: "uint (abs64 n) = \<bar>sint n\<bar>"
proof (cases "sint n \<ge> 0")
  case True
  then show ?thesis using sint_lt [of n] by (simp add: abs64_def uint_sint take_bit_int_eq_self)
next
  case False
  have r: "- (2 ^ 63) \<le> sint n" using sint_ge [of n] by simp
  have "uint (word_of_int (- sint n) :: u64) = take_bit 64 (- sint n)" unfolding unsigned_of_int by simp
  then have "uint (- n) = take_bit 64 (- sint n)" by simp
  also have "\<dots> = - sint n" using r False by (intro take_bit_int_eq_self) auto
  finally show ?thesis using False by (simp add: abs64_def)
qed

lemma abs64_zero [simp]: "abs64 d = 0 \<longleftrightarrow> d = 0"
  using uint_abs64 [of d] by (metis abs_eq_0 signed_0 signed_eq_0_iff unsigned_eq_0_iff)

lemma sdiv64_eq:
  assumes "d \<noteq> 0"
  shows "sdiv64 n d = Some (word_of_int (sint n sdiv sint d))"
proof -
  have "abs64 n div abs64 d = word_of_int (\<bar>sint n\<bar> div \<bar>sint d\<bar>)" by (simp add: word_div_def uint_abs64)
  then have "sdiv64 n d = Some (word_of_int (if (sint n < 0) = (sint d < 0) then \<bar>sint n\<bar> div \<bar>sint d\<bar> else - (\<bar>sint n\<bar> div \<bar>sint d\<bar>)))"
    using assms by (simp add: sdiv64_def udiv64_eq)
  moreover have "sint d \<noteq> 0" using assms by (simp add: signed_eq_0_iff)
  ultimately show ?thesis by (auto simp: signed_divide_int_def sgn_if)
qed

lemma smod64_eq:
  assumes "d \<noteq> 0"
  shows "smod64 n d = Some (word_of_int (sint n smod sint d))"
proof -
  have "n - d * word_of_int (sint n sdiv sint d) = word_of_int (sint n - sint d * (sint n sdiv sint d))" by simp
  also have "sint n - sint d * (sint n sdiv sint d) = sint n smod sint d" by (rule minus_mult_sdiv_eq_smod)
  finally have "n - d * word_of_int (sint n sdiv sint d) = word_of_int (sint n smod sint d)" .
  moreover have "ucast (word_of_int k :: u64) = (word_of_int k :: u32)" for k by (rule bit_word_eqI) (simp add: bit_simps)
  ultimately show ?thesis using assms by (simp add: smod64_def sdiv64_eq)
qed

lemma mod_less_iff: "0 < m \<Longrightarrow> k mod m = k \<longleftrightarrow> k < m" for k m :: nat
  by (metis mod_less mod_less_divisor)

text \<open>
  C21. The unsigned routines agree with the arithmetic of the machine for every divisor but zero: no \<^verbatim>\<open>divl\<close> traps, \<^verbatim>\<open>__udivdi3\<close>
  returns the quotient, by either of its two algorithms, and \<^verbatim>\<open>__umoddi3\<close> the lower 32 bits of the remainder, since \<^verbatim>\<open>umod64\<close>
  returns a \<^verbatim>\<open>uint32_t\<close>: it is the remainder exactly if that is less than \<open>2 ^ 32\<close>.
\<close>

theorem udivdi3_correct:
  assumes "d \<noteq> 0"
  shows "udivdi3 n d = Some (n div d) \<and> umoddi3 n d = Some (take_bit 32 (n mod d)) \<and> (umoddi3 n d = Some (n mod d) \<longleftrightarrow> n mod d < 2 ^ 32)"
proof -
  have u: "umoddi3 n d = Some (take_bit 32 (n mod d))" using assms by (simp add: umoddi3_def umod64_eq ucast_ucast_take)
  have "take_bit 32 (n mod d) = n mod d \<longleftrightarrow> n mod d < 2 ^ 32"
    by (simp add: take_bit_eq_mod word_less_nat_alt flip: word_unat_eq_iff) (simp add: word_unat_eq_iff unat_mod_distrib mod_less_iff)
  then show ?thesis using assms u by (simp add: udivdi3_def udiv64_eq)
qed

theorem udivdi3_correct_witness:
  "udivdi3 0xFFFFFFFFFFFFFFFF 0x100000001 = Some 0xFFFFFFFF \<and> umoddi3 0xFFFFFFFFFFFFFFFF 0xFFFFFFFFFFFFFFF0 = Some 15 \<and> umoddi3 0x200000005 0x500000000 = Some 5"
  using udivdi3_correct [of "0x100000001" "0xFFFFFFFFFFFFFFFF"] udivdi3_correct [of "0xFFFFFFFFFFFFFFF0" "0xFFFFFFFFFFFFFFFF"] udivdi3_correct [of "0x500000000" "0x200000005"] by simp

text \<open>
  The signed routines divide as C does, towards zero, for every divisor but zero, the least 64-bit number included (divided by minus
  one it wraps to itself); \<^verbatim>\<open>__moddi3\<close> returns the remainder cut to a signed 32-bit number.
\<close>

theorem divdi3_correct:
  assumes "d \<noteq> 0"
  shows "divdi3 n d = Some (word_of_int (sint n sdiv sint d)) \<and> moddi3 n d = Some (word_of_int (signed_take_bit 31 (sint n smod sint d)))"
proof -
  have "scast (word_of_int k :: u32) = (word_of_int (signed_take_bit 31 k) :: u64)" for k
    by (simp add: scast_eq sint_sbintrunc')
  then show ?thesis using assms by (simp add: divdi3_def moddi3_def sdiv64_eq smod64_eq)
qed

end
