(* ===== verification/Malloc.thy ===== *)
theory Malloc
  imports Pagedir CString
begin

unbundle bit_operations_syntax

text \<open>
  The block allocator of \<^verbatim>\<open>threads/malloc.c\<close>, on top of the page allocator. The headers of the arenas are words in the memory, so that
  a store outside of a block would damage them; a descriptor has the list of the addresses of its free blocks. (The code keeps the links of
  this list in the free blocks themselves; the model does not write them there.) A descriptor pointer is the address of an element of the static
  array \<^verbatim>\<open>descs\<close>, which begins at \<open>descs_at\<close>. The locks of the descriptors are not modelled: the calls run one at a time.

  The lemmas show that the allocator refines a map from the addresses of the allocated blocks to their bytes: \<^verbatim>\<open>malloc\<close> adds a block that overlaps no
  other one, \<^verbatim>\<open>free\<close> removes it, no call changes the bytes of another block, and when all blocks are free all pages are back
  at the page allocator.
\<close>

definition ARENA_MAGIC :: u32 where
  "ARENA_MAGIC = 0x9a548eed"

record desc =
  block_size :: size_t
  blocks_per_arena :: size_t
  free_list :: "nat list"

record heap =
  store :: pages_state
  descs :: "desc list"
  descs_at :: nat

text \<open>The sizes of \<^verbatim>\<open>struct arena\<close> and \<^verbatim>\<open>struct desc\<close> in bytes.\<close>

definition ARENA_SIZE :: nat where
  "ARENA_SIZE = 12"

definition DESC_SIZE :: nat where
  "DESC_SIZE = 48"

abbreviation bytes :: "heap \<Rightarrow> nat \<Rightarrow> u8" where
  "bytes h \<equiv> ram (store h)"

definition put_bytes :: "(nat \<Rightarrow> u8) \<Rightarrow> heap \<Rightarrow> heap" where
  "put_bytes m h = h\<lparr>store := (store h)\<lparr>ram := m\<rparr>\<rparr>"

definition upd_free :: "nat \<Rightarrow> nat list \<Rightarrow> heap \<Rightarrow> heap" where
  "upd_free i xs h = h\<lparr>descs := (descs h)[i := (descs h ! i)\<lparr>free_list := xs\<rparr>]\<rparr>"

definition desc_ptr :: "heap \<Rightarrow> nat \<Rightarrow> u32" where
  "desc_ptr h i = of_nat (descs_at h + DESC_SIZE * i)"

text \<open>
  The fields of the header. The pointer \<^verbatim>\<open>a->desc\<close> is null (\<open>Some None\<close>), points to a descriptor, or is wild
  (\<^const>\<open>None\<close>, as for every access through it).
\<close>

definition magic :: "heap \<Rightarrow> nat \<Rightarrow> u32" where
  "magic h a = rd32 (bytes h) a"

definition arena_desc :: "heap \<Rightarrow> nat \<Rightarrow> nat option option" where
  "arena_desc h a =
     (let p = rd32 (bytes h) (a + 4); i = (unat p - descs_at h) div DESC_SIZE
      in if p = 0 then Some None else if i < length (descs h) \<and> p = desc_ptr h i then Some (Some i) else None)"

definition free_cnt :: "heap \<Rightarrow> nat \<Rightarrow> u32" where
  "free_cnt h a = rd32 (bytes h) (a + 8)"

definition set_free_cnt :: "nat \<Rightarrow> u32 \<Rightarrow> heap \<Rightarrow> heap" where
  "set_free_cnt a n h = put_bytes (wr32 (a + 8) n (bytes h)) h"

definition init_arena :: "nat \<Rightarrow> u32 \<Rightarrow> nat \<Rightarrow> heap \<Rightarrow> heap" where
  "init_arena a d n h = put_bytes (wr32 (a + 8) (of_nat n) (wr32 (a + 4) d (wr32 a ARENA_MAGIC (bytes h)))) h"

subsection \<open>The operations\<close>

partial_function (option) init_loop :: "size_t \<Rightarrow> desc list \<Rightarrow> desc list option" where
  "init_loop bsize ds =
     (if bsize < PGSIZE div 2
      then do {
        ASSERT (length ds + 1 \<le> 10);
        init_loop (wrap32 (bsize * 2)) (ds @ [\<lparr>block_size = bsize, blocks_per_arena = (PGSIZE - ARENA_SIZE) div bsize, free_list = []\<rparr>]) }
      else Some ds)"

definition malloc_init :: "heap \<Rightarrow> heap option" where
  "malloc_init h = do { ds \<leftarrow> init_loop 16 (descs h); Some (h\<lparr>descs := ds\<rparr>) }"

definition block_to_arena :: "heap \<Rightarrow> nat \<Rightarrow> nat option" where
  "block_to_arena h b = do {
     let a = pg_round_down b;
     ASSERT (a \<noteq> 0);
     ASSERT (magic h a = ARENA_MAGIC);
     d \<leftarrow> arena_desc h a;
     case d of
       None \<Rightarrow> do { ASSERT (pg_ofs b = ARENA_SIZE); Some a }
     | Some i \<Rightarrow> do { ASSERT (wrap32 (pg_ofs b + 4294967296 - ARENA_SIZE) mod block_size (descs h ! i) = 0); Some a } }"

definition arena_to_block :: "heap \<Rightarrow> nat \<Rightarrow> nat \<Rightarrow> nat option" where
  "arena_to_block h a idx = do {
     ASSERT (a \<noteq> 0);
     ASSERT (magic h a = ARENA_MAGIC);
     d \<leftarrow> arena_desc h a;
     i \<leftarrow> d;
     ASSERT (idx < blocks_per_arena (descs h ! i));
     Some (a + ARENA_SIZE + idx * block_size (descs h ! i)) }"

fun find_desc :: "size_t \<Rightarrow> nat \<Rightarrow> desc list \<Rightarrow> nat" where
  "find_desc n i [] = i"
| "find_desc n i (d # ds) = (if block_size d \<ge> n then i else find_desc n (i + 1) ds)"

definition add_block :: "nat \<Rightarrow> nat \<Rightarrow> nat \<Rightarrow> heap \<Rightarrow> heap option" where
  "add_block d a i h = do {
     b \<leftarrow> arena_to_block h a i;
     Some (upd_free d (free_list (descs h ! d) @ [b]) h) }"

definition get_pages :: "size_t \<Rightarrow> heap \<Rightarrow> (nat \<times> heap) option" where
  "get_pages n h = do { (a, s) \<leftarrow> palloc_get_multiple 0 n (store h); Some (a, h\<lparr>store := s\<rparr>) }"

definition new_arena :: "nat \<Rightarrow> heap \<Rightarrow> (bool \<times> heap) option" where
  "new_arena d h = do {
     (a, h) \<leftarrow> get_pages 1 h;
     if a = 0 then Some (False, h)
     else do {
       let n = blocks_per_arena (descs h ! d);
       h \<leftarrow> for_range 0 n (add_block d a) (init_arena a (desc_ptr h d) n h);
       Some (True, h) } }"

definition take_block :: "nat \<Rightarrow> heap \<Rightarrow> (nat \<times> heap) option" where
  "take_block d h =
     (case free_list (descs h ! d) of
        [] \<Rightarrow> None
      | b # bs \<Rightarrow> do {
          let h = upd_free d bs h;
          a \<leftarrow> block_to_arena h b;
          Some (b, set_free_cnt a (free_cnt h a - 1) h) })"

definition malloc :: "size_t \<Rightarrow> heap \<Rightarrow> (nat \<times> heap) option" where
  "malloc n h =
     (if n = 0 then Some (0, h)
      else let d = find_desc n 0 (descs h) in
        if d = length (descs h)
        then do {
          let page_cnt = DIV_ROUND_UP (wrap32 (n + ARENA_SIZE)) PGSIZE;
          (a, h) \<leftarrow> get_pages page_cnt h;
          if a = 0 then Some (0, h)
          else Some (a + ARENA_SIZE, init_arena a 0 page_cnt h) }
        else do {
          (ok, h) \<leftarrow> (if free_list (descs h ! d) = [] then new_arena d h else Some (True, h));
          if \<not> ok then Some (0, h) else take_block d h })"

definition calloc :: "size_t \<Rightarrow> size_t \<Rightarrow> heap \<Rightarrow> (nat \<times> heap) option" where
  "calloc a b h =
     (let n = wrap32 (a * b)
      in if n < a \<or> n < b then Some (0, h)
      else do {
        (p, h) \<leftarrow> malloc n h;
        if p = 0 then Some (p, h)
        else do { (_, m) \<leftarrow> memset (bytes h) p 0 n; Some (p, put_bytes m h) } })"

definition block_bytes :: "heap \<Rightarrow> nat \<Rightarrow> size_t option" where
  "block_bytes h p = do {
     a \<leftarrow> block_to_arena h p;
     d \<leftarrow> arena_desc h a;
     Some (case d of Some i \<Rightarrow> block_size (descs h ! i) | None \<Rightarrow> wrap32 (wrap32 (PGSIZE * unat (free_cnt h a)) + 4294967296 - pg_ofs p)) }"

definition remove_block :: "nat \<Rightarrow> nat \<Rightarrow> nat \<Rightarrow> heap \<Rightarrow> heap option" where
  "remove_block d a i h = do {
     b \<leftarrow> arena_to_block h a i;
     ASSERT (b \<in> set (free_list (descs h ! d)));
     Some (upd_free d (remove1 b (free_list (descs h ! d))) h) }"

definition free :: "nat \<Rightarrow> heap \<Rightarrow> heap option" where
  "free p h =
     (if p = 0 then Some h
      else do {
        a \<leftarrow> block_to_arena h p;
        d \<leftarrow> arena_desc h a;
        case d of
          None \<Rightarrow> do { s \<leftarrow> palloc_free_multiple a (unat (free_cnt h a)) (store h); Some (h\<lparr>store := s\<rparr>) }
        | Some i \<Rightarrow> do {
            (_, m) \<leftarrow> memset (bytes h) p 0xcc (block_size (descs h ! i));
            let h = put_bytes m h;
            let h = upd_free i (p # free_list (descs h ! i)) h;
            let h = set_free_cnt a (free_cnt h a + 1) h;
            let n = blocks_per_arena (descs h ! i);
            if unat (free_cnt h a) \<ge> n
            then do {
              ASSERT (unat (free_cnt h a) = n);
              h \<leftarrow> for_range 0 n (remove_block i a) h;
              s \<leftarrow> palloc_free_page a (store h);
              Some (h\<lparr>store := s\<rparr>) }
            else Some h } })"

definition realloc :: "nat \<Rightarrow> size_t \<Rightarrow> heap \<Rightarrow> (nat \<times> heap) option" where
  "realloc old_block new_size h =
     (if new_size = 0 then do { h \<leftarrow> free old_block h; Some (0, h) }
      else do {
        (new_block, h) \<leftarrow> malloc new_size h;
        if old_block \<noteq> 0 \<and> new_block \<noteq> 0
        then do {
          old_size \<leftarrow> block_bytes h old_block;
          (_, m) \<leftarrow> memcpy (bytes h) new_block old_block (if new_size < old_size then new_size else old_size);
          h \<leftarrow> free old_block (put_bytes m h);
          Some (new_block, h) }
        else Some (new_block, h) })"

subsection \<open>Pages of the kernel pool\<close>

abbreviation kernel_used :: "pages_state \<Rightarrow> nat set" where
  "kernel_used s \<equiv> used_of (kernel_pool s)"

lemma the_pool_False: "the_pool False s = kernel_pool s"
  by (simp add: the_pool_def)

lemma kernel_used_set_map: "kernel_used (set_map False b s) = (\<lambda>i. pg_no (base (kernel_pool s)) + i) ` used_units b"
  by (simp add: set_map_def used_of_def)

lemma kernel_get_cases:
  assumes wf: "pages_wf s" and n: "0 < n"
  obtains (none) "palloc_get_multiple 0 n s = Some (0, s)"
    | (pages) a s' where "palloc_get_multiple 0 n s = Some (a, s')" "a \<noteq> 0" "pg_ofs a = 0" "pages_wf s'" "ram s' = ram s"
      "{pg_no a..<pg_no a + n} \<inter> kernel_used s = {}" "kernel_used s' = kernel_used s \<union> {pg_no a..<pg_no a + n}"
      "pg_no a + n < 2 ^ 20" "user_pool s' = user_pool s"
proof (rule palloc_get_cases [OF wf n, of False 0])
  show "False \<longleftrightarrow> 0 AND PAL_USER \<noteq> 0" by simp
next
  assume "palloc_get_multiple 0 n s = (if 0 AND PAL_ASSERT \<noteq> 0 then None else Some (0, s))"
  then show thesis using none by simp
next
  fix i b s'
  let ?p = "kernel_pool s"
  assume g: "palloc_get_multiple 0 n s = Some (base (the_pool False s) + PGSIZE * i, s')" "take_units (used_map (the_pool False s)) n = (Some i, b)"
    and s': "s' = (set_map False b s)\<lparr>ram := if 0 AND PAL_ZERO \<noteq> 0 then fill (base (the_pool False s) + PGSIZE * i) 0 (PGSIZE * n) (ram s) else ram s\<rparr>"
  note t = take_units_pages [OF wf g(2)]
  have p: "pg_ofs (base ?p) = 0" "0 < base ?p" "base ?p + PGSIZE * bit_cnt (used_map ?p) < 4294967296" using wf by (simp_all add: pages_wf_def pool_wf_def)
  have "PGSIZE * (i + n) \<le> PGSIZE * bit_cnt (used_map ?p)" using t(7) by (simp add: the_pool_False)
  then have lt: "base ?p + PGSIZE * (i + n) < 4294967296" using p(3) by linarith
  have ks: "kernel_used s' = kernel_used s \<union> {pg_no (base ?p) + i..<pg_no (base ?p) + i + n}"
    using t(5) unfolding s' by (simp add: set_map_def used_of_def the_pool_False image_Un ac_simps)
  show thesis
  proof (rule pages [OF g(1)])
    show "pages_wf s'" using t(1) by (simp add: s')
    show "{pg_no (base (the_pool False s) + PGSIZE * i)..<pg_no (base (the_pool False s) + PGSIZE * i) + n} \<inter> kernel_used s = {}"
      using t(3) p(1) by (auto simp: pg_no_page the_pool_False used_pages_def)
    show "pg_no (base (the_pool False s) + PGSIZE * i) + n < 2 ^ 20"
      using lt p(1) unfolding the_pool_False by (auto simp: pg_no_page pg_no_def PGSIZE_def pg_ofs_def)
  qed (use p ks s' in \<open>simp_all add: the_pool_False pg_no_page set_map_def\<close>)
qed

lemma kernel_free:
  assumes wf: "pages_wf s" and n: "0 < n" and a: "pg_ofs a = 0" "{pg_no a..<pg_no a + n} \<subseteq> kernel_used s"
  obtains s' where "palloc_free_multiple a n s = Some s'" "pages_wf s'" "kernel_used s' = kernel_used s - {pg_no a..<pg_no a + n}"
    "ram s' = fill a 0xcc (PGSIZE * n) (ram s)" "user_pool s' = user_pool s"
proof -
  let ?p = "kernel_pool s" let ?b = "used_map ?p"
  define i where "i = pg_no a - pg_no (base ?p)"
  have p: "pg_ofs (base ?p) = 0" "bitmap_wf ?b" using wf by (simp_all add: pages_wf_def pool_wf_def)
  have "pg_no a \<in> kernel_used s" using a(2) n by auto
  then have "pg_no (base ?p) \<le> pg_no a" by (auto simp: used_of_def)
  then have i: "pg_no a = pg_no (base ?p) + i" by (simp add: i_def)
  have a_eq: "a = base ?p + PGSIZE * i"
  proof -
    have "a = PGSIZE * pg_no a" "base ?p = PGSIZE * pg_no (base ?p)" using a(1) p(1) by (auto simp: pg_ofs_def pg_no_def)
    then show ?thesis using i by (metis distrib_left)
  qed
  have sub: "{i..<i + n} \<subseteq> used_units ?b"
  proof
    fix k assume "k \<in> {i..<i + n}"
    then have "pg_no (base ?p) + k \<in> kernel_used s" using a(2) i by auto
    then show "k \<in> used_units ?b" by (auto simp: used_of_def)
  qed
  have "i + n - 1 \<in> used_units ?b" using sub n by auto
  then have le: "i + n \<le> bit_cnt ?b" using n by (auto simp: used_units_def)
  obtain c where c: "give_units ?b i n = Some c" "bitmap_wf c" "bit_cnt c = bit_cnt ?b" "used_units c = used_units ?b - {i..<i + n}"
    using units.release_eq [OF p(2) le sub] by blast
  define s' where "s' = (set_map False c s)\<lparr>ram := fill a 0xcc (PGSIZE * n) (ram s)\<rparr>"
  show thesis
  proof (rule that [of s'])
    show "palloc_free_multiple a n s = Some s'"
      using palloc_free_eq [OF wf n, of i False] le c(1) by (simp add: the_pool_False a_eq s'_def)
    show "pages_wf s'" using pages_wf_map [OF wf c(2), of False] c(3) by (simp add: s'_def the_pool_False)
    show "kernel_used s' = kernel_used s - {pg_no a..<pg_no a + n}"
      unfolding s'_def i by (auto simp: set_map_def used_of_def c(4))
  qed (simp_all add: s'_def set_map_def)
qed


subsection \<open>The invariant\<close>

text \<open>
  \<open>ar\<close> says which pages begin an arena: one of blocks of the \<open>i\<close>th descriptor, or a big block of \<open>n\<close> pages. A block of a small
  arena that is not in the free list is allocated.
\<close>

datatype arena_kind = Small nat | Big nat

definition bsz :: "nat \<Rightarrow> nat" where
  "bsz i = 16 * 2 ^ i"

definition bpa :: "nat \<Rightarrow> nat" where
  "bpa i = 4084 div bsz i"

definition descs_ok :: "heap \<Rightarrow> bool" where
  "descs_ok h \<longleftrightarrow> length (descs h) = 7 \<and> 0 < descs_at h \<and> descs_at h + 480 < 4294967296
     \<and> (\<forall>i<7. block_size (descs h ! i) = bsz i \<and> blocks_per_arena (descs h ! i) = bpa i)"

abbreviation free_of :: "heap \<Rightarrow> nat \<Rightarrow> nat list" where
  "free_of h i \<equiv> free_list (descs h ! i)"

definition blk :: "nat \<Rightarrow> nat \<Rightarrow> nat \<Rightarrow> nat" where
  "blk i a k = a + 12 + k * bsz i"

definition blocks :: "nat \<Rightarrow> nat \<Rightarrow> nat set" where
  "blocks i a = blk i a ` {..<bpa i}"

fun kind_pages :: "arena_kind \<Rightarrow> nat" where
  "kind_pages (Small i) = 1"
| "kind_pages (Big n) = n"

definition extent :: "nat \<Rightarrow> arena_kind \<Rightarrow> nat set" where
  "extent a k = {pg_no a..<pg_no a + kind_pages k}"

fun header_ok :: "heap \<Rightarrow> nat \<Rightarrow> arena_kind \<Rightarrow> bool" where
  "header_ok h a (Small i) \<longleftrightarrow> magic h a = ARENA_MAGIC \<and> i < 7 \<and> rd32 (bytes h) (a + 4) = desc_ptr h i
     \<and> free_cnt h a = of_nat (card (blocks i a \<inter> set (free_of h i)))"
| "header_ok h a (Big n) \<longleftrightarrow> magic h a = ARENA_MAGIC \<and> 0 < n \<and> rd32 (bytes h) (a + 4) = 0 \<and> free_cnt h a = of_nat n"

definition arenas_ok :: "(nat \<rightharpoonup> arena_kind) \<Rightarrow> heap \<Rightarrow> bool" where
  "arenas_ok ar h \<longleftrightarrow> (\<forall>a k. ar a = Some k \<longrightarrow> a \<noteq> 0 \<and> pg_ofs a = 0 \<and> pg_no a + kind_pages k < 2 ^ 20 \<and> extent a k \<subseteq> kernel_used (store h) \<and> header_ok h a k)
     \<and> (\<forall>a k b l. ar a = Some k \<longrightarrow> ar b = Some l \<longrightarrow> a \<noteq> b \<longrightarrow> extent a k \<inter> extent b l = {})"

definition lists_ok :: "(nat \<rightharpoonup> arena_kind) \<Rightarrow> heap \<Rightarrow> bool" where
  "lists_ok ar h \<longleftrightarrow> (\<forall>i<7. distinct (free_of h i) \<and> (\<forall>b\<in>set (free_of h i). ar (pg_round_down b) = Some (Small i) \<and> b \<in> blocks i (pg_round_down b)))"

definition heap_ok :: "(nat \<rightharpoonup> arena_kind) \<Rightarrow> heap \<Rightarrow> bool" where
  "heap_ok ar h \<longleftrightarrow> pages_wf (store h) \<and> descs_ok h \<and> arenas_ok ar h \<and> lists_ok ar h"

definition live :: "(nat \<rightharpoonup> arena_kind) \<Rightarrow> heap \<Rightarrow> nat \<Rightarrow> nat option" where
  "live ar h p =
     (case ar (pg_round_down p) of
        None \<Rightarrow> None
      | Some (Small i) \<Rightarrow> if p \<in> blocks i (pg_round_down p) \<and> p \<notin> set (free_of h i) then Some (bsz i) else None
      | Some (Big n) \<Rightarrow> if p = pg_round_down p + 12 then Some (PGSIZE * n - 12) else None)"

text \<open>Between two calls no arena is entirely free.\<close>

definition packed :: "(nat \<rightharpoonup> arena_kind) \<Rightarrow> heap \<Rightarrow> bool" where
  "packed ar h \<longleftrightarrow> (\<forall>a k. ar a = Some k \<longrightarrow> (\<exists>p. pg_round_down p = a \<and> live ar h p \<noteq> None))"

subsection \<open>Geometry\<close>

lemma bsz_le: "i < 7 \<Longrightarrow> bsz i \<le> 1024"
proof -
  assume "i < 7"
  then have "(2 :: nat) ^ i \<le> 2 ^ 6" by (intro power_increasing) auto
  then show ?thesis by (simp add: bsz_def)
qed

lemma bsz_pos [simp]: "0 < bsz i" "bsz i \<noteq> 0"
  by (simp_all add: bsz_def)

lemma bpa_pos: "i < 7 \<Longrightarrow> 3 \<le> bpa i"
  using bsz_le [of i] unfolding bpa_def by (simp add: less_eq_div_iff_mult_less_eq)

lemma bpa_le: "bpa i \<le> 4084"
  by (simp add: bpa_def)

lemma blk_end: "k < bpa i \<Longrightarrow> k * bsz i + bsz i \<le> 4084"
proof -
  assume "k < bpa i"
  then have "Suc k * bsz i \<le> bpa i * bsz i" by (intro mult_right_mono) auto
  also have "\<dots> \<le> 4084" by (simp add: bpa_def)
  finally show ?thesis by simp
qed

lemma round_down_add:
  assumes "pg_ofs a = 0" "x < 4096"
  shows "pg_round_down (a + x) = a" "pg_ofs (a + x) = x" "pg_no (a + x) = pg_no a"
proof -
  obtain q where "a = 4096 * q" using assms(1) by (auto simp: pg_ofs_def PGSIZE_def)
  then show "pg_round_down (a + x) = a" "pg_ofs (a + x) = x" "pg_no (a + x) = pg_no a"
    using assms(2) by (simp_all add: pg_round_down_def pg_ofs_def PGSIZE_def pg_no_def)
qed

lemma blk_round_down:
  assumes "pg_ofs a = 0" "k < bpa i"
  shows "pg_round_down (blk i a k) = a" "pg_ofs (blk i a k) = 12 + k * bsz i" "pg_no (blk i a k) = pg_no a"
proof -
  have "12 + k * bsz i < 4096" using blk_end [OF assms(2)] bsz_pos(1) [of i] by linarith
  note r = round_down_add [OF assms(1) this]
  show "pg_round_down (blk i a k) = a" "pg_ofs (blk i a k) = 12 + k * bsz i" "pg_no (blk i a k) = pg_no a"
    using r by (simp_all add: blk_def add.assoc)
qed

lemma blk_inj: "blk i a k = blk i a l \<longleftrightarrow> k = l"
  by (simp add: blk_def)

lemma blk_apart:
  assumes "k \<noteq> l"
  shows "blk i a k + bsz i \<le> blk i a l \<or> blk i a l + bsz i \<le> blk i a k"
proof (cases "k < l")
  case True
  then have "Suc k * bsz i \<le> l * bsz i" by (intro mult_right_mono) auto
  then show ?thesis by (simp add: blk_def)
next
  case False
  then have "Suc l * bsz i \<le> k * bsz i" using assms by (intro mult_right_mono) auto
  then show ?thesis by (simp add: blk_def)
qed

lemma finite_blocks [simp]: "finite (blocks i a)"
  by (simp add: blocks_def)

lemma card_blocks: "card (blocks i a) = bpa i"
  unfolding blocks_def by (subst card_image) (auto simp: inj_on_def blk_inj)

lemma blocks_round_down: "pg_ofs a = 0 \<Longrightarrow> b \<in> blocks i a \<Longrightarrow> pg_round_down b = a"
  by (auto simp: blocks_def blk_round_down)

lemma blocks_range: "b \<in> blocks i a \<Longrightarrow> a + 12 \<le> b \<and> b + bsz i \<le> a + 4096"
  using blk_end by (auto simp: blocks_def blk_def)

subsection \<open>Headers\<close>

lemma heap_fields [simp]:
  "bytes (put_bytes m h) = m" "descs (put_bytes m h) = descs h" "descs_at (put_bytes m h) = descs_at h"
  "kernel_pool (store (put_bytes m h)) = kernel_pool (store h)" "pages_wf (store (put_bytes m h)) = pages_wf (store h)"
  "store (upd_free i xs h) = store h" "descs_at (upd_free i xs h) = descs_at h" "length (descs (upd_free i xs h)) = length (descs h)"
  "desc_ptr (put_bytes m h) = desc_ptr h" "desc_ptr (upd_free i xs h) = desc_ptr h"
  "user_pool (store (put_bytes m h)) = user_pool (store h)"
  by (simp_all add: put_bytes_def upd_free_def desc_ptr_def fun_eq_iff)

lemma nth_upd_free:
  "descs (upd_free i xs h) ! j = (if j = i \<and> i < length (descs h) then (descs h ! i)\<lparr>free_list := xs\<rparr> else descs h ! j)"
  unfolding upd_free_def by (cases "i < length (descs h)") (simp_all add: nth_list_update list_update_beyond)

lemma free_of_upd: "i < length (descs h) \<Longrightarrow> free_of (upd_free i xs h) j = (if j = i then xs else free_of h j)"
  by (simp add: nth_upd_free)

lemma sizes_upd [simp]:
  "block_size (descs (upd_free i xs h) ! j) = block_size (descs h ! j)"
  "blocks_per_arena (descs (upd_free i xs h) ! j) = blocks_per_arena (descs h ! j)"
  by (simp_all add: nth_upd_free)

lemma descs_ok_upd [simp]: "descs_ok (upd_free i xs h) \<longleftrightarrow> descs_ok h"
  by (simp add: descs_ok_def)

lemma descs_ok_put [simp]: "descs_ok (put_bytes m h) \<longleftrightarrow> descs_ok h"
  by (simp add: descs_ok_def)

lemma descs_okD:
  assumes "descs_ok h"
  shows "length (descs h) = 7" "i < 7 \<Longrightarrow> block_size (descs h ! i) = bsz i" "i < 7 \<Longrightarrow> blocks_per_arena (descs h ! i) = bpa i"
  using assms by (simp_all add: descs_ok_def)

lemma desc_ptr_decode:
  assumes "descs_ok h" "i < 7"
  shows "desc_ptr h i \<noteq> 0" "(unat (desc_ptr h i) - descs_at h) div DESC_SIZE = i"
proof -
  have "descs_at h + DESC_SIZE * i < 4294967296" using assms by (simp add: descs_ok_def DESC_SIZE_def)
  then have u: "unat (desc_ptr h i) = descs_at h + DESC_SIZE * i" unfolding desc_ptr_def by (subst unat_of_nat) simp
  then show "(unat (desc_ptr h i) - descs_at h) div DESC_SIZE = i" by (simp add: DESC_SIZE_def)
  have "unat (desc_ptr h i) \<noteq> 0" using u assms(1) by (simp add: descs_ok_def)
  then show "desc_ptr h i \<noteq> 0" by (simp add: unat_eq_0)
qed

lemma arena_desc_ptr:
  assumes "descs_ok h"
  shows "rd32 (bytes h) (a + 4) = desc_ptr h i \<Longrightarrow> i < 7 \<Longrightarrow> arena_desc h a = Some (Some i)"
    and "rd32 (bytes h) (a + 4) = 0 \<Longrightarrow> arena_desc h a = Some None"
  using desc_ptr_decode [OF assms, of i] assms by (simp_all add: arena_desc_def Let_def descs_ok_def)

lemma heap_okD:
  assumes "heap_ok ar h" "ar a = Some k"
  shows "a \<noteq> 0" "pg_ofs a = 0" "header_ok h a k" "extent a k \<subseteq> kernel_used (store h)" "pg_no a + kind_pages k < 2 ^ 20" "descs_ok h" "magic h a = ARENA_MAGIC"
proof -
  have *: "arenas_ok ar h" "descs_ok h" using assms(1) by (simp_all add: heap_ok_def)
  then show "a \<noteq> 0" "pg_ofs a = 0" and ho: "header_ok h a k" and "extent a k \<subseteq> kernel_used (store h)" "pg_no a + kind_pages k < 2 ^ 20" "descs_ok h"
    using assms(2) unfolding arenas_ok_def by blast+
  show "magic h a = ARENA_MAGIC" using ho by (cases k) simp_all
qed

lemma free_listD:
  assumes "heap_ok ar h" "i < 7" "b \<in> set (free_of h i)"
  shows "ar (pg_round_down b) = Some (Small i)" "b \<in> blocks i (pg_round_down b)" "distinct (free_of h i)"
  using assms by (auto simp: heap_ok_def lists_ok_def)

lemma block_to_arena_small:
  assumes d: "descs_ok h" and a: "a \<noteq> 0" "pg_ofs a = 0" and m: "magic h a = ARENA_MAGIC" "rd32 (bytes h) (a + 4) = desc_ptr h i" and i: "i < 7" and b: "b \<in> blocks i a"
  shows "block_to_arena h b = Some a"
proof -
  obtain k where k: "k < bpa i" "b = blk i a k" using b by (auto simp: blocks_def)
  have o: "wrap32 (pg_ofs b + 4294967296 - ARENA_SIZE) = k * bsz i"
    using blk_end [OF k(1)] blk_round_down(2) [OF a(2) k(1)] by (simp add: k(2) ARENA_SIZE_def wrap32_def)
  show ?thesis
    using a m i o arena_desc_ptr(1) [OF d m(2) i] descs_okD(2) [OF d i] blk_round_down(1) [OF a(2) k(1)]
    by (simp add: block_to_arena_def k(2) Let_def)
qed

lemma arena_to_block_small:
  assumes d: "descs_ok h" and a: "a \<noteq> 0" and m: "magic h a = ARENA_MAGIC" "rd32 (bytes h) (a + 4) = desc_ptr h i" and i: "i < 7" and k: "k < bpa i"
  shows "arena_to_block h a k = Some (blk i a k)"
  using a m arena_desc_ptr(1) [OF d m(2) i] descs_okD(2,3) [OF d i] k by (simp add: arena_to_block_def blk_def ARENA_SIZE_def)

lemma block_to_arena_big:
  assumes ok: "heap_ok ar h" and a: "ar a = Some (Big n)"
  shows "block_to_arena h (a + 12) = Some a" "arena_desc h a = Some None" "free_cnt h a = of_nat n" "0 < n" "unat (free_cnt h a) = n"
proof -
  note h = heap_okD [OF ok a]
  show d: "arena_desc h a = Some None" using h(3) arena_desc_ptr(2) [OF h(6)] by simp
  show "block_to_arena h (a + 12) = Some a" using round_down_add [OF h(2), of 12] h(1,7) d by (simp add: block_to_arena_def ARENA_SIZE_def)
  show "free_cnt h a = of_nat n" "0 < n" using h(3) by simp_all
  then show "unat (free_cnt h a) = n" using h(5) by (simp add: unat_of_nat)
qed

subsection \<open>Allocated blocks\<close>

lemma live_cases:
  assumes "heap_ok ar h" "live ar h p = Some n"
  obtains (small) i a where "ar a = Some (Small i)" "p \<in> blocks i a" "p \<notin> set (free_of h i)" "n = bsz i" "pg_round_down p = a" "i < 7"
    | (big) a m where "ar a = Some (Big m)" "p = a + 12" "n = PGSIZE * m - 12" "pg_round_down p = a" "0 < m"
proof (cases "ar (pg_round_down p)")
  case (Some k)
  show thesis
  proof (cases k)
    case (Small i)
    then have "i < 7" using heap_okD(3) [OF assms(1) Some] by simp
    then show thesis using small [of "pg_round_down p" i] assms(2) Some Small by (auto simp: live_def split: if_splits)
  next
    case (Big m)
    then have "0 < m" using heap_okD(3) [OF assms(1) Some] by simp
    then show thesis using big [of "pg_round_down p" m] assms(2) Some Big by (auto simp: live_def split: if_splits)
  qed
qed (use assms(2) in \<open>simp add: live_def\<close>)

lemma live_range:
  assumes ok: "heap_ok ar h" and l: "live ar h p = Some n"
  obtains k where "ar (pg_round_down p) = Some k" "pg_round_down p + 12 \<le> p" "p + n \<le> pg_round_down p + 4096 * kind_pages k" "0 < n"
proof (rule live_cases [OF assms])
  fix i a assume a: "ar a = Some (Small i)" "p \<in> blocks i a" "n = bsz i" "pg_round_down p = a" "i < 7"
  then show thesis using that [of "Small i"] blocks_range [of p i a] by simp
next
  fix a m assume "ar a = Some (Big m)" "p = a + 12" "n = PGSIZE * m - 12" "pg_round_down p = a" "0 < m"
  then show thesis using that [of "Big m"] by (simp add: PGSIZE_def)
qed

lemma in_extent:
  assumes "pg_ofs a = 0" "a \<le> x" "x < a + 4096 * kind_pages k"
  shows "pg_no x \<in> extent a k"
proof -
  obtain q where "a = 4096 * q" using assms(1) by (auto simp: pg_ofs_def PGSIZE_def)
  then show ?thesis using assms(2,3) by (auto simp: extent_def pg_no_def PGSIZE_def)
qed

lemma arenas_apart:
  assumes ok: "heap_ok ar h" and "ar a = Some k" "ar b = Some l" "a \<le> x" "x < a + 4096 * kind_pages k" "b \<le> x" "x < b + 4096 * kind_pages l"
  shows "a = b"
proof (rule ccontr)
  assume "a \<noteq> b"
  then have "extent a k \<inter> extent b l = {}" using ok assms(2,3) by (simp add: heap_ok_def arenas_ok_def)
  moreover have "pg_no x \<in> extent a k" "pg_no x \<in> extent b l"
    using assms by (auto intro: in_extent dest: heap_okD(2) [OF ok])
  ultimately show False by blast
qed

text \<open>No two allocated blocks have a byte in common, and no block has a byte of a header.\<close>

lemma live_disjoint:
  assumes ok: "heap_ok ar h" and l: "live ar h p = Some m" "live ar h q = Some n" and "p \<noteq> q"
  shows "p + m \<le> q \<or> q + n \<le> p"
proof (rule ccontr)
  assume neg: "\<not> ?thesis"
  obtain k where k: "ar (pg_round_down p) = Some k" "pg_round_down p + 12 \<le> p" "p + m \<le> pg_round_down p + 4096 * kind_pages k" "0 < m"
    using live_range [OF ok l(1)] by blast
  obtain j where j: "ar (pg_round_down q) = Some j" "pg_round_down q + 12 \<le> q" "q + n \<le> pg_round_down q + 4096 * kind_pages j" "0 < n"
    using live_range [OF ok l(2)] by blast
  have e: "pg_round_down p = pg_round_down q"
    by (rule arenas_apart [OF ok k(1) j(1), of "if p \<le> q then q else p"]) (use k j neg in \<open>auto split: if_splits\<close>)
  show False
  proof (rule live_cases [OF ok l(1)])
    fix i a assume a: "ar a = Some (Small i)" "p \<in> blocks i a" "m = bsz i" "pg_round_down p = a"
    then have "q \<in> blocks i a" "n = bsz i" using l(2) e by (auto simp: live_def split: if_splits)
    then obtain r s where "p = blk i a r" "q = blk i a s" "r \<noteq> s" using a(2) \<open>p \<noteq> q\<close> by (auto simp: blocks_def)
    then show False using blk_apart [of r s i a] neg a(3) \<open>n = bsz i\<close> by auto
  next
    fix a x assume a: "ar a = Some (Big x)" "p = a + 12" "pg_round_down p = a"
    then have "q = a + 12" using l(2) e by (auto simp: live_def split: if_splits)
    then show False using a(2) \<open>p \<noteq> q\<close> by simp
  qed
qed

lemma live_no_header:
  assumes ok: "heap_ok ar h" and l: "live ar h p = Some n" and a: "ar a = Some k"
  shows "p + n \<le> a \<or> a + 12 \<le> p"
proof (rule ccontr)
  assume neg: "\<not> ?thesis"
  obtain j where j: "ar (pg_round_down p) = Some j" "pg_round_down p + 12 \<le> p" "p + n \<le> pg_round_down p + 4096 * kind_pages j" "0 < n"
    using live_range [OF ok l] by blast
  have "0 < kind_pages k" using heap_okD(3) [OF ok a] by (cases k) auto
  then have "pg_round_down p = a"
    by (intro arenas_apart [OF ok j(1) a, of "if p \<le> a then a else p"]) (use j neg in \<open>auto split: if_splits\<close>)
  then show False using j(2) neg by simp
qed

subsection \<open>Frames\<close>

lemma page_starts_apart:
  assumes "pg_ofs a = 0" "pg_ofs c = 0" "a \<noteq> c"
  shows "a + 4096 \<le> c \<or> c + 4096 \<le> a"
proof -
  obtain q where "a = 4096 * q" using assms(1) by (auto simp: pg_ofs_def PGSIZE_def)
  moreover obtain r where "c = 4096 * r" using assms(2) by (auto simp: pg_ofs_def PGSIZE_def)
  ultimately show ?thesis using assms(3) by auto
qed

lemma header_frame:
  assumes "header_ok h a k" and "\<And>x. a \<le> x \<Longrightarrow> x < a + 12 \<Longrightarrow> bytes h' x = bytes h x" and "desc_ptr h' = desc_ptr h"
    and "\<And>i. k = Small i \<Longrightarrow> blocks i a \<inter> set (free_of h' i) = blocks i a \<inter> set (free_of h i)"
  shows "header_ok h' a k"
proof -
  have "rd32 (bytes h') a = rd32 (bytes h) a" "rd32 (bytes h') (a + 4) = rd32 (bytes h) (a + 4)" "rd32 (bytes h') (a + 8) = rd32 (bytes h) (a + 8)"
    using assms(2) by (intro rd32_cong; simp)+
  then show ?thesis using assms(1,3,4) by (cases k) (simp_all add: magic_def free_cnt_def)
qed

definition kept :: "(nat \<rightharpoonup> arena_kind) \<Rightarrow> heap \<Rightarrow> heap \<Rightarrow> bool" where
  "kept ar h h' \<longleftrightarrow> (\<forall>p n x. live ar h p = Some n \<longrightarrow> p \<le> x \<longrightarrow> x < p + n \<longrightarrow> bytes h' x = bytes h x)"

lemma live_put [simp]: "live ar (put_bytes m h) = live ar h"
  by (auto simp: live_def fun_eq_iff split: option.split arena_kind.split)

lemma arenas_ok_frame:
  assumes "arenas_ok ar h" "\<And>a k. ar a = Some k \<Longrightarrow> header_ok h' a k" "kernel_used (store h') = kernel_used (store h)"
  shows "arenas_ok ar h'"
  using assms by (simp add: arenas_ok_def)

lemma heap_ok_put:
  assumes ok: "heap_ok ar h" and m: "\<And>a k x. ar a = Some k \<Longrightarrow> a \<le> x \<Longrightarrow> x < a + 12 \<Longrightarrow> m x = bytes h x"
  shows "heap_ok ar (put_bytes m h)"
proof -
  have "header_ok (put_bytes m h) a k" if "ar a = Some k" for a k
    using heap_okD(3) [OF ok that] by (rule header_frame) (use m [OF that] in simp_all)
  then show ?thesis using ok by (simp add: heap_ok_def arenas_ok_def lists_ok_def)
qed

text \<open>A program that writes into its blocks does not disturb the allocator.\<close>

lemma heap_ok_write:
  assumes ok: "heap_ok ar h" and l: "live ar h p = Some n" and m: "\<And>x. x < p \<or> p + n \<le> x \<Longrightarrow> m x = bytes h x"
  shows "heap_ok ar (put_bytes m h)"
  using ok by (rule heap_ok_put) (use live_no_header [OF ok l] m in fastforce)

lemma kept_header:
  assumes ok: "heap_ok ar h" and a: "ar a = Some k" and b: "\<And>x. x < a \<or> a + 12 \<le> x \<Longrightarrow> bytes h' x = bytes h x"
  shows "kept ar h h'"
  unfolding kept_def
proof (intro allI impI)
  fix p n x assume l: "live ar h p = Some n" "p \<le> x" "x < p + n"
  then have "x < a \<or> a + 12 \<le> x" using live_no_header [OF ok l(1) a] by auto
  then show "bytes h' x = bytes h x" by (rule b)
qed

lemma wr32_frame: "x < a \<or> a + 4 \<le> x \<Longrightarrow> wr32 a v m x = m x"
  by (auto simp: wr32_def)

lemma block_header_apart:
  assumes "pg_ofs a = 0" "pg_ofs c = 0" "b \<in> blocks i c"
  shows "b + bsz i \<le> a \<or> a + 12 \<le> b"
proof (cases "a = c")
  case True
  then show ?thesis using blocks_range [OF assms(3)] by simp
next
  case False
  then show ?thesis using page_starts_apart [OF assms(1,2)] blocks_range [OF assms(3)] by auto
qed

text \<open>The pages of the kernel pool that the allocator does not own.\<close>

definition others :: "(nat \<rightharpoonup> arena_kind) \<Rightarrow> heap \<Rightarrow> nat set" where
  "others ar h = kernel_used (store h) - {x. \<exists>a k. ar a = Some k \<and> x \<in> extent a k}"

lemma others_add:
  assumes "kernel_used (store h') = kernel_used (store h) \<union> extent a k" "extent a k \<inter> kernel_used (store h) = {}" "ar a = None"
  shows "others (ar(a \<mapsto> k)) h' = others ar h"
proof -
  have "{x. \<exists>b l. (ar(a \<mapsto> k)) b = Some l \<and> x \<in> extent b l} = extent a k \<union> {x. \<exists>b l. ar b = Some l \<and> x \<in> extent b l}"
    using assms(3) by (auto split: if_splits) (metis option.distinct(1))
  then show ?thesis using assms(1,2) unfolding others_def by auto
qed

lemma others_remove:
  assumes a: "ar a = Some k" and "kernel_used (store h') = kernel_used (store h) - extent a k"
  shows "others (ar(a := None)) h' = others ar h"
proof -
  have "{x. \<exists>b l. ar b = Some l \<and> x \<in> extent b l} = extent a k \<union> {x. \<exists>b l. (ar(a := None)) b = Some l \<and> x \<in> extent b l}"
    using a by (auto split: if_splits) (metis option.inject)
  then show ?thesis using assms(2) unfolding others_def by auto
qed

lemma others_same: "kernel_used (store h') = kernel_used (store h) \<Longrightarrow> others ar h' = others ar h"
  by (simp add: others_def)

subsection \<open>Taking a block\<close>

lemma take_block_ok:
  assumes ok: "heap_ok ar h" and i: "i < 7" and f: "free_of h i = b # bs"
  shows "\<exists>h'. take_block i h = Some (b, h') \<and> heap_ok ar h' \<and> live ar h b = None \<and> live ar h' = (live ar h)(b \<mapsto> bsz i) \<and> kept ar h h'
    \<and> kernel_used (store h') = kernel_used (store h)"
proof -
  define a where "a = pg_round_down b"
  have b: "ar a = Some (Small i)" "b \<in> blocks i a" "distinct (b # bs)" using free_listD [OF ok i, of b] f by (auto simp: a_def)
  note h = heap_okD [OF ok b(1)]
  have len: "i < length (descs h)" using descs_okD(1) [OF h(6)] i by simp
  define h1 where "h1 = upd_free i bs h"
  define h' where "h' = set_free_cnt a (free_cnt h1 a - 1) h1"
  have by1: "bytes h1 = bytes h" by (simp add: h1_def)
  have dp: "desc_ptr h' = desc_ptr h" by (simp add: h'_def set_free_cnt_def h1_def)
  have fo: "free_of h' j = (if j = i then bs else free_of h j)" for j using len by (simp add: h'_def set_free_cnt_def h1_def free_of_upd)
  have ds: "descs_ok h'" using h(6) by (simp add: h'_def set_free_cnt_def h1_def)
  have byt: "bytes h' = wr32 (a + 8) (free_cnt h a - 1) (bytes h)" by (simp add: h'_def set_free_cnt_def by1 free_cnt_def)
  have ba: "block_to_arena h1 b = Some a"
    using h(1-3,6) i b(2) by (intro block_to_arena_small) (simp_all add: h1_def magic_def)
  have t: "take_block i h = Some (b, h')" using f ba by (simp add: take_block_def h1_def [symmetric] h'_def)
  have hd_a: "header_ok h' a (Small i)"
  proof -
    have "rd32 (bytes h') a = rd32 (bytes h) a" "rd32 (bytes h') (a + 4) = rd32 (bytes h) (a + 4)" unfolding byt by (intro rd32_wr32_apart; simp)+
    moreover have "free_cnt h' a = free_cnt h a - 1" by (simp add: free_cnt_def byt)
    moreover have "blocks i a \<inter> set (free_of h i) = insert b (blocks i a \<inter> set bs)" "b \<notin> set bs" using b f by auto
    then have "card (blocks i a \<inter> set (free_of h i)) = card (blocks i a \<inter> set bs) + 1" by simp
    ultimately show ?thesis using h(3) i dp fo by (simp add: magic_def)
  qed
  have hd: "header_ok h' c k" if c: "ar c = Some k" "c \<noteq> a" for c k
  proof (rule header_frame [OF heap_okD(3) [OF ok c(1)]])
    have ca: "pg_ofs c = 0" by (rule heap_okD(2) [OF ok c(1)])
    show "bytes h' x = bytes h x" if "c \<le> x" "x < c + 12" for x
      unfolding byt using page_starts_apart [OF ca h(2) c(2)] that by (intro wr32_frame) auto
    show "blocks j c \<inter> set (free_of h' j) = blocks j c \<inter> set (free_of h j)" for j
      using blocks_round_down [OF ca, of b j] c(2) f fo by (auto simp: a_def)
  qed (rule dp)
  have st: "kernel_used (store h') = kernel_used (store h)" "pages_wf (store h') = pages_wf (store h)" by (simp_all add: h'_def set_free_cnt_def h1_def)
  have hd': "header_ok h' c k" if "ar c = Some k" for c k using hd hd_a b(1) that by (cases "c = a") auto
  have "arenas_ok ar h" using ok by (simp add: heap_ok_def)
  then have "arenas_ok ar h'" by (rule arenas_ok_frame) (use hd' st in auto)
  moreover have "lists_ok ar h'" using ok b(3) f fo by (auto simp: heap_ok_def lists_ok_def)
  ultimately have ok': "heap_ok ar h'" using ok ds st by (simp add: heap_ok_def)
  have "live ar h b = None" using b(1) f by (simp add: live_def a_def)
  moreover have "live ar h' = (live ar h)(b \<mapsto> bsz i)"
    using b f fo by (auto simp: live_def fun_eq_iff a_def split: option.split arena_kind.split)
  moreover have "kept ar h h'" using ok b(1) by (rule kept_header) (auto simp: byt intro: wr32_frame)
  ultimately show ?thesis using t ok' st by simp
qed

subsection \<open>New arenas\<close>

lemma add_arena:
  assumes ok: "heap_ok ar h" and a: "a \<noteq> 0" "pg_ofs a = 0" "pg_no a + kind_pages k < 2 ^ 20" "extent a k \<inter> kernel_used (store h) = {}"
    and st: "pages_wf (store h')" "kernel_used (store h') = kernel_used (store h) \<union> extent a k"
    and d: "descs_ok h'" "desc_ptr h' = desc_ptr h" and hd: "header_ok h' a k"
    and by': "\<And>x. x < a \<or> a + 12 \<le> x \<Longrightarrow> bytes h' x = bytes h x"
    and fl: "\<And>i. i < 7 \<Longrightarrow> distinct (free_of h' i)" "\<And>i. i < 7 \<Longrightarrow> set (free_of h' i) = set (free_of h i) \<union> (if k = Small i then blocks i a else {})"
  shows "heap_ok (ar(a \<mapsto> k)) h'" "ar a = None" "kept ar h h'"
    "live (ar(a \<mapsto> k)) h' = (case k of Small i \<Rightarrow> live ar h | Big n \<Rightarrow> (live ar h)(a + 12 \<mapsto> PGSIZE * n - 12))"
    "\<And>p. pg_round_down p = a \<Longrightarrow> live ar h p = None"
proof -
  have k0: "0 < kind_pages k" using hd by (cases k) auto
  then have pa: "pg_no a \<in> extent a k" by (simp add: extent_def)
  show na: "ar a = None"
  proof (rule ccontr)
    assume "ar a \<noteq> None"
    then obtain l where l: "ar a = Some l" by auto
    have "0 < kind_pages l" using heap_okD(3) [OF ok l] by (cases l) auto
    then have "pg_no a \<in> extent a l" by (simp add: extent_def)
    then show False using heap_okD(4) [OF ok l] a(4) pa by blast
  qed
  then show "live ar h p = None" if "pg_round_down p = a" for p using that by (simp add: live_def)
  have ap: "a + 4096 \<le> c \<or> c + 4096 \<le> a" if "ar c = Some l" for c l
  proof -
    have "a \<noteq> c" using that na by auto
    then show ?thesis by (rule page_starts_apart [OF a(2) heap_okD(2) [OF ok that]])
  qed
  have hd': "header_ok h' c l" if c: "ar c = Some l" for c l
  proof (rule header_frame [OF heap_okD(3) [OF ok c]])
    show "bytes h' x = bytes h x" if "c \<le> x" "x < c + 12" for x using ap [OF c] that by (intro by') auto
    show "blocks i c \<inter> set (free_of h' i) = blocks i c \<inter> set (free_of h i)" if "l = Small i" for i
    proof -
      have "i < 7" using heap_okD(3) [OF ok c] that by simp
      moreover have "blocks i c \<inter> blocks i a = {}"
        using blocks_round_down [OF a(2)] blocks_round_down [OF heap_okD(2) [OF ok c]] c na by fastforce
      ultimately show ?thesis using fl(2) [of i] by auto
    qed
  qed (rule d(2))
  have dis: "extent a k \<inter> extent c l = {}" if "ar c = Some l" for c l using heap_okD(4) [OF ok that] a(4) by blast
  have "arenas_ok (ar(a \<mapsto> k)) h'"
    using ok a hd hd' st(2) dis na unfolding heap_ok_def arenas_ok_def by (auto split: if_splits) blast+
  moreover have "lists_ok (ar(a \<mapsto> k)) h'"
    unfolding lists_ok_def
  proof (intro allI impI conjI ballI)
    fix i b assume i: "i < 7" and b: "b \<in> set (free_of h' i)"
    have or: "b \<in> set (free_of h i) \<or> k = Small i \<and> b \<in> blocks i a" using fl(2) [OF i] b by (auto split: if_splits)
    have old: "pg_round_down b \<noteq> a" if "b \<in> set (free_of h i)" using free_listD(1) [OF ok i that] na by auto
    show "(ar(a \<mapsto> k)) (pg_round_down b) = Some (Small i)" using or free_listD(1) [OF ok i] old blocks_round_down [OF a(2)] by auto
    show "b \<in> blocks i (pg_round_down b)" using or free_listD(2) [OF ok i] blocks_round_down [OF a(2)] by auto
  qed (use fl(1) in simp)
  ultimately show "heap_ok (ar(a \<mapsto> k)) h'" using st(1) d(1) by (simp add: heap_ok_def)
  show "kept ar h h'"
    unfolding kept_def
  proof (intro allI impI by')
    fix p n x assume l: "live ar h p = Some n" and x: "p \<le> x" "x < p + n"
    obtain l where l: "ar (pg_round_down p) = Some l" "pg_round_down p + 12 \<le> p" "p + n \<le> pg_round_down p + 4096 * kind_pages l"
      using live_range [OF ok l] by blast
    have "pg_no x \<in> extent (pg_round_down p) l" using l x heap_okD(2) [OF ok l(1)] by (intro in_extent) auto
    then have "pg_no x \<notin> extent a k" using dis [OF l(1)] by blast
    moreover have "pg_no x = pg_no a" if "a \<le> x" "x < a + 12" using round_down_add(3) [OF a(2), of "x - a"] that by simp
    ultimately show "x < a \<or> a + 12 \<le> x" using pa by force
  qed
  show "live (ar(a \<mapsto> k)) h' = (case k of Small i \<Rightarrow> live ar h | Big n \<Rightarrow> (live ar h)(a + 12 \<mapsto> PGSIZE * n - 12))"
  proof
    fix p
    show "live (ar(a \<mapsto> k)) h' p = (case k of Small i \<Rightarrow> live ar h | Big n \<Rightarrow> (live ar h)(a + 12 \<mapsto> PGSIZE * n - 12)) p"
    proof (cases "pg_round_down p = a")
      case True
      then show ?thesis
        using na hd fl(2) round_down_add(1) [OF a(2), of 12] by (cases k) (auto simp: live_def)
    next
      case False
      then have "live (ar(a \<mapsto> k)) h' p = live ar h p"
      proof (cases "ar (pg_round_down p)")
        case (Some l)
        then have "i < 7" if "l = Small i" for i using heap_okD(3) [OF ok Some] that by simp
        moreover have "p \<notin> blocks i a" for i using blocks_round_down [OF a(2)] False by blast
        ultimately show ?thesis using Some False fl(2) by (cases l) (auto simp: live_def split: if_splits)
      qed (simp add: live_def)
      moreover have "p \<noteq> a + 12" using False round_down_add(1) [OF a(2), of 12] by auto
      ultimately show ?thesis by (cases k) simp_all
    qed
  qed
qed

lemma init_arena_words:
  "rd32 (bytes (init_arena a d n h)) a = ARENA_MAGIC" "rd32 (bytes (init_arena a d n h)) (a + 4) = d" "rd32 (bytes (init_arena a d n h)) (a + 8) = of_nat n"
  by (simp_all add: init_arena_def rd32_wr32_apart)

lemma init_arena_fields [simp]:
  "descs (init_arena a d n h) = descs h" "desc_ptr (init_arena a d n h) = desc_ptr h" "descs_ok (init_arena a d n h) \<longleftrightarrow> descs_ok h"
  "kernel_used (store (init_arena a d n h)) = kernel_used (store h)" "pages_wf (store (init_arena a d n h)) = pages_wf (store h)"
  by (simp_all add: init_arena_def)

lemma init_arena_frame: "x < a \<or> a + 12 \<le> x \<Longrightarrow> bytes (init_arena a d n h) x = bytes h x"
  by (auto simp: init_arena_def wr32_frame)

lemma upd_free_twice [simp]: "upd_free i ys (upd_free i xs h) = upd_free i ys h"
  by (cases "i < length (descs h)") (simp_all add: upd_free_def list_update_beyond)

lemma upd_free_id: "upd_free i (free_of h i) h = h"
  by (cases "i < length (descs h)") (simp_all add: upd_free_def list_update_beyond)

lemma add_blocks:
  assumes d: "descs_ok h" "i < 7" and a: "a \<noteq> 0" and m: "magic h a = ARENA_MAGIC" "rd32 (bytes h) (a + 4) = desc_ptr h i" and n: "n \<le> bpa i"
  shows "for_range 0 n (add_block i a) h = Some (upd_free i (free_of h i @ map (blk i a) [0..<n]) h)"
  using n
proof (induction n)
  case 0
  show ?case by (simp add: upd_free_id)
next
  case (Suc n)
  let ?h = "upd_free i (free_of h i @ map (blk i a) [0..<n]) h"
  have "arena_to_block ?h a n = Some (blk i a n)"
    using d a m Suc.prems by (intro arena_to_block_small) (simp_all add: magic_def)
  moreover have "i < length (descs h)" using descs_okD(1) [OF d(1)] d(2) by simp
  ultimately have "add_block i a n ?h = Some (upd_free i (free_of h i @ map (blk i a) [0..<Suc n]) h)"
    by (simp add: add_block_def free_of_upd)
  then show ?case using Suc by (simp add: for_range_Suc)
qed

lemma set_map_blk: "set (map (blk i a) [0..<bpa i]) = blocks i a" "distinct (map (blk i a) [0..<bpa i])"
  by (auto simp: blocks_def atLeast0LessThan distinct_map inj_on_def blk_inj)

lemma new_arena_ok:
  assumes ok: "heap_ok ar h" and i: "i < 7" and f: "free_of h i = []"
  obtains (none) "new_arena i h = Some (False, h)"
    | (arena) a h' where "new_arena i h = Some (True, h')" "heap_ok (ar(a \<mapsto> Small i)) h'" "live (ar(a \<mapsto> Small i)) h' = live ar h" "kept ar h h'"
      "ar a = None" "free_of h' i = map (blk i a) [0..<bpa i]" "pg_ofs a = 0" "others (ar(a \<mapsto> Small i)) h' = others ar h"
proof -
  have wf: "pages_wf (store h)" and d: "descs_ok h" using ok by (simp_all add: heap_ok_def)
  note ds = descs_okD [OF d]
  show thesis
  proof (rule kernel_get_cases [OF wf, of 1])
    assume "palloc_get_multiple 0 1 (store h) = Some (0, store h)"
    then show thesis using none by (simp add: new_arena_def get_pages_def)
  next
    fix a s assume g: "palloc_get_multiple 0 1 (store h) = Some (a, s)" and a: "a \<noteq> 0" "pg_ofs a = 0" "pg_no a + 1 < 2 ^ 20"
      "{pg_no a..<pg_no a + 1} \<inter> kernel_used (store h) = {}" "kernel_used s = kernel_used (store h) \<union> {pg_no a..<pg_no a + 1}"
      "pages_wf s" "ram s = bytes h"
    define h1 where "h1 = init_arena a (desc_ptr h i) (bpa i) (h\<lparr>store := s\<rparr>)"
    define h' where "h' = upd_free i (map (blk i a) [0..<bpa i]) h1"
    have dp: "desc_ptr (h\<lparr>store := s\<rparr>) = desc_ptr h" by (simp add: desc_ptr_def fun_eq_iff)
    have d1: "descs_ok h1" "descs h1 = descs h" "desc_ptr h1 = desc_ptr h" using d dp by (simp_all add: h1_def) (simp add: descs_ok_def)
    have "i < length (descs h1)" using ds(1) i d1(2) by simp
    note fo = free_of_upd [OF this]
    note w = init_arena_words [of a "desc_ptr h i" "bpa i" "h\<lparr>store := s\<rparr>", folded h1_def]
    have "for_range 0 (bpa i) (add_block i a) h1 = Some h'"
      using add_blocks [OF d1(1) i a(1), of "bpa i"] w d1 f by (simp add: magic_def h'_def)
    then have n: "new_arena i h = Some (True, h')" using g a(1) ds(3) [OF i] dp by (simp add: new_arena_def get_pages_def h1_def)
    have hd: "header_ok h' a (Small i)" using w i d1(3) fo card_blocks [of i a] set_map_blk(1) [of i a] by (simp add: h'_def magic_def free_cnt_def)
    have "descs_ok h'" "desc_ptr h' = desc_ptr h" using d1 by (simp_all add: h'_def)
    moreover have ku: "pages_wf (store h')" "kernel_used (store h') = kernel_used (store h) \<union> extent a (Small i)" using a(5,6) by (simp_all add: h'_def h1_def extent_def)
    moreover have "bytes h' x = bytes h x" if "x < a \<or> a + 12 \<le> x" for x using init_arena_frame [OF that] a(7) by (simp add: h'_def h1_def)
    moreover have "distinct (free_of h' j)" "set (free_of h' j) = set (free_of h j) \<union> (if Small i = Small j then blocks j a else {})" if "j < 7" for j
      using ok that f set_map_blk d1(2) by (auto simp: h'_def fo heap_ok_def lists_ok_def)
    ultimately have "heap_ok (ar(a \<mapsto> Small i)) h'" "live (ar(a \<mapsto> Small i)) h' = live ar h" "kept ar h h'" "ar a = None"
      using add_arena [OF ok a(1,2), of "Small i" h'] a(3,4) hd by (simp_all add: extent_def)
    moreover from this(4) have "others (ar(a \<mapsto> Small i)) h' = others ar h" using ku(2) a(4) by (intro others_add) (simp_all add: extent_def)
    ultimately show thesis using arena [OF n] a(2) fo by (simp add: h'_def)
  qed simp
qed

subsection \<open>The abstract allocator\<close>

text \<open>
  The blocks that the program has, with their bytes: \<open>represents U h \<sigma>\<close> says that \<open>\<sigma>\<close> is this map in the state \<open>h\<close> and that the pages
  \<open>U\<close> of the kernel pool are in use by others.
\<close>

definition contents :: "heap \<Rightarrow> nat \<Rightarrow> nat \<Rightarrow> u8 list" where
  "contents h p n = map (bytes h) [p..<p + n]"

definition block_map :: "(nat \<rightharpoonup> arena_kind) \<Rightarrow> heap \<Rightarrow> nat \<Rightarrow> u8 list option" where
  "block_map ar h p = map_option (contents h p) (live ar h p)"

definition represents :: "nat set \<Rightarrow> heap \<Rightarrow> (nat \<rightharpoonup> u8 list) \<Rightarrow> bool" where
  "represents U h \<sigma> \<longleftrightarrow> (\<exists>ar. heap_ok ar h \<and> packed ar h \<and> \<sigma> = block_map ar h \<and> others ar h = U)"

lemma contents_kept: "kept ar h h' \<Longrightarrow> live ar h p = Some n \<Longrightarrow> contents h' p n = contents h p n"
  by (simp add: contents_def kept_def)

lemma block_map_add:
  assumes "live ar' h' = (live ar h)(b \<mapsto> n)" "kept ar h h'" "live ar h b = None"
  shows "block_map ar' h' = (block_map ar h)(b \<mapsto> contents h' b n)"
proof
  fix p
  show "block_map ar' h' p = ((block_map ar h)(b \<mapsto> contents h' b n)) p"
    using assms contents_kept [OF assms(2), of p] by (cases "live ar h p") (auto simp: block_map_def)
qed

lemma packed_mono:
  assumes "packed ar h" "\<And>p. live ar h p \<noteq> None \<Longrightarrow> live ar h' p \<noteq> None"
  shows "packed ar h'"
  using assms unfolding packed_def by meson

lemma packed_add:
  assumes "packed ar h" "\<And>p. live ar h p \<noteq> None \<Longrightarrow> live (ar(a \<mapsto> k)) h' p \<noteq> None" "pg_round_down b = a" "live (ar(a \<mapsto> k)) h' b \<noteq> None"
  shows "packed (ar(a \<mapsto> k)) h'"
  using assms unfolding packed_def by (metis map_upd_Some_unfold)

lemma kept_trans: "kept ar h h' \<Longrightarrow> kept ar' h' h'' \<Longrightarrow> live ar' h' = live ar h \<Longrightarrow> kept ar h h''"
  unfolding kept_def by metis

lemma find_desc_cases:
  assumes "find_desc n k ds = j"
  shows "k \<le> j \<and> j \<le> k + length ds \<and> (j < k + length ds \<longrightarrow> n \<le> block_size (ds ! (j - k)))"
  using assms
proof (induction n k ds arbitrary: j rule: find_desc.induct)
  case (2 n i d ds)
  show ?case
  proof (cases "block_size d \<ge> n")
    case False
    then show ?thesis using 2 by (fastforce simp: nth_Cons' split: if_splits)
  qed (use 2 in auto)
qed simp

lemma page_count:
  assumes "n + 12 < 4294967296"
  obtains "DIV_ROUND_UP (wrap32 (n + ARENA_SIZE)) PGSIZE = 0"
  | c where "DIV_ROUND_UP (wrap32 (n + ARENA_SIZE)) PGSIZE = c" "0 < c" "n + 12 \<le> PGSIZE * c"
proof (cases "n + 12 + 4096 \<le> 4294967296")
  case True
  then have "DIV_ROUND_UP (wrap32 (n + ARENA_SIZE)) PGSIZE = (n + 12 + 4096 - 1) div 4096"
    using assms by (simp add: ARENA_SIZE_def PGSIZE_def DIV_ROUND_UP_eq)
  moreover have "0 < (n + 12 + 4096 - 1) div 4096" by (simp add: div_greater_zero_iff)
  moreover have "n + 12 \<le> PGSIZE * ((n + 12 + 4096 - 1) div 4096)" unfolding PGSIZE_def by (simp add: algebra_simps)
  ultimately show thesis using that(2) by blast
next
  case False
  have "wrap32 (n + 12 + 4096 + 4294967295) = n + 12 + 4095 - 4294967296"
    using assms False unfolding wrap32_def by (simp add: mod_if)
  then show thesis using assms False that(1) by (simp add: DIV_ROUND_UP_def ARENA_SIZE_def PGSIZE_def SIZE_MAX_def)
qed


lemma malloc_big:
  assumes ok: "heap_ok ar h" and pk: "packed ar h" and c: "0 < c"
  obtains (none) "get_pages c h = Some (0, h)"
    | (arena) a h1 h' where "get_pages c h = Some (a, h1)" "a \<noteq> 0" "h' = init_arena a 0 c h1" "heap_ok (ar(a \<mapsto> Big c)) h'" "packed (ar(a \<mapsto> Big c)) h'"
      "block_map (ar(a \<mapsto> Big c)) h' = (block_map ar h)(a + 12 \<mapsto> contents h' (a + 12) (PGSIZE * c - 12))" "live ar h (a + 12) = None" "others (ar(a \<mapsto> Big c)) h' = others ar h"
proof -
  have wf: "pages_wf (store h)" and d: "descs_ok h" using ok by (simp_all add: heap_ok_def)
  show thesis
  proof (rule kernel_get_cases [OF wf c])
    assume "palloc_get_multiple 0 c (store h) = Some (0, store h)"
    then show thesis using none by (simp add: get_pages_def)
  next
    fix a s assume g: "palloc_get_multiple 0 c (store h) = Some (a, s)" and a: "a \<noteq> 0" "pg_ofs a = 0" "pg_no a + c < 2 ^ 20"
      "{pg_no a..<pg_no a + c} \<inter> kernel_used (store h) = {}" "kernel_used s = kernel_used (store h) \<union> {pg_no a..<pg_no a + c}"
      "pages_wf s" "ram s = bytes h"
    define h' where "h' = init_arena a 0 c (h\<lparr>store := s\<rparr>)"
    note w = init_arena_words [of a 0 c "h\<lparr>store := s\<rparr>", folded h'_def]
    have hd: "header_ok h' a (Big c)" using w c by (simp add: magic_def free_cnt_def)
    have "descs_ok h'" "desc_ptr h' = desc_ptr h" using d by (simp_all add: h'_def descs_ok_def desc_ptr_def fun_eq_iff init_arena_def)
    moreover have ku: "pages_wf (store h')" "kernel_used (store h') = kernel_used (store h) \<union> extent a (Big c)" using a(5,6) by (simp_all add: h'_def extent_def)
    moreover have "bytes h' x = bytes h x" if "x < a \<or> a + 12 \<le> x" for x using init_arena_frame [OF that] a(7) by (simp add: h'_def)
    moreover have "distinct (free_of h' j)" "set (free_of h' j) = set (free_of h j) \<union> (if Big c = Small j then blocks j a else {})" if "j < 7" for j
      using ok that by (auto simp: h'_def heap_ok_def lists_ok_def)
    ultimately have r: "heap_ok (ar(a \<mapsto> Big c)) h'" "live (ar(a \<mapsto> Big c)) h' = (live ar h)(a + 12 \<mapsto> PGSIZE * c - 12)" "kept ar h h'"
        "\<And>p. pg_round_down p = a \<Longrightarrow> live ar h p = None" "ar a = None"
      using add_arena [OF ok a(1,2), of "Big c" h'] a(3,4) hd by (simp_all add: extent_def)
    have rd: "pg_round_down (a + 12) = a" using round_down_add(1) [OF a(2), of 12] by simp
    have "packed (ar(a \<mapsto> Big c)) h'" using pk by (rule packed_add [where b = "a + 12"]) (use r(2) rd in auto)
    moreover have "others (ar(a \<mapsto> Big c)) h' = others ar h" using ku(2) a(4) r(5) by (intro others_add) (simp_all add: extent_def)
    ultimately show thesis using arena [OF _ a(1) h'_def r(1)] g r(4) [OF rd] block_map_add [OF r(2,3)] by (simp add: get_pages_def)
  qed
qed

lemma malloc_small:
  assumes ok: "heap_ok ar h" and pk: "packed ar h" and i: "i < 7"
  obtains (none) "free_of h i = []" "new_arena i h = Some (False, h)"
    | (block) b h' ar' where "(if free_of h i = [] then new_arena i h else Some (True, h)) \<bind> (\<lambda>(ok, h). if \<not> ok then Some (0, h) else take_block i h) = Some (b, h')"
      "b \<noteq> 0" "heap_ok ar' h'" "packed ar' h'" "block_map ar' h' = (block_map ar h)(b \<mapsto> contents h' b (bsz i))" "live ar h b = None" "others ar' h' = others ar h"
proof (cases "free_of h i")
  case (Cons b bs)
  obtain h' where t: "take_block i h = Some (b, h')" "heap_ok ar h'" "live ar h b = None" "live ar h' = (live ar h)(b \<mapsto> bsz i)" "kept ar h h'"
      "kernel_used (store h') = kernel_used (store h)"
    using take_block_ok [OF ok i Cons] by blast
  have "b \<noteq> 0" using free_listD(2) [OF ok i, of b] Cons blocks_range [of b i "pg_round_down b"] by auto
  moreover have "packed ar h'" using pk by (rule packed_mono) (simp add: t(4))
  ultimately show thesis using block [of b h' ar] Cons t others_same [OF t(6)] block_map_add [OF t(4,5,3)] by simp
next
  case Nil
  show thesis
  proof (rule new_arena_ok [OF ok i Nil])
    assume "new_arena i h = Some (False, h)" then show thesis using none Nil by simp
  next
    fix a h1 let ?ar = "ar(a \<mapsto> Small i)"
    assume n: "new_arena i h = Some (True, h1)" "heap_ok ?ar h1" "live ?ar h1 = live ar h" "kept ar h h1" "ar a = None"
      "free_of h1 i = map (blk i a) [0..<bpa i]" "pg_ofs a = 0" "others ?ar h1 = others ar h"
    have b0: "0 < bpa i" using bpa_pos [OF i] by simp
    then have f: "free_of h1 i = blk i a 0 # map (blk i a) [1..<bpa i]" using n(6) by (simp add: upt_conv_Cons)
    let ?b = "blk i a 0"
    obtain h' where t: "take_block i h1 = Some (?b, h')" "heap_ok ?ar h'" "live ?ar h1 ?b = None" "live ?ar h' = (live ?ar h1)(?b \<mapsto> bsz i)" "kept ?ar h1 h'"
        "kernel_used (store h') = kernel_used (store h1)"
      using take_block_ok [OF n(2) i f] by blast
    have l: "live ?ar h' = (live ar h)(?b \<mapsto> bsz i)" "live ar h ?b = None" using t(3,4) n(3) by simp_all
    have k: "kept ar h h'" using kept_trans [OF n(4) t(5) n(3)] .
    have "packed ?ar h'" using pk by (rule packed_add [where b = ?b]) (use l(1) blk_round_down(1) [OF n(7) b0] in auto)
    moreover have "?b \<noteq> 0" by (simp add: blk_def)
    ultimately show thesis using block [of ?b h' ?ar] Nil n(1) t(1,2) block_map_add [OF l(1) k l(2)] l(2) n(8) others_same [OF t(6)] by simp
  qed
qed

lemma malloc_represents:
  assumes r: "represents U h \<sigma>" and n: "0 < n" "n + 12 < 4294967296"
  shows "malloc n h = Some (0, h) \<or> (\<exists>p h' xs. malloc n h = Some (p, h') \<and> p \<noteq> 0 \<and> \<sigma> p = None \<and> n \<le> length xs \<and> represents U h' (\<sigma>(p \<mapsto> xs)))"
proof -
  obtain ar where ok: "heap_ok ar h" and pk: "packed ar h" and \<sigma>: "\<sigma> = block_map ar h" "others ar h = U" using r by (auto simp: represents_def)
  have d: "descs_ok h" using ok by (simp add: heap_ok_def)
  note ds = descs_okD [OF d]
  define i where "i = find_desc n 0 (descs h)"
  have i: "i \<le> 7" "i < 7 \<Longrightarrow> n \<le> bsz i" using find_desc_cases [OF i_def [symmetric]] ds by auto
  show ?thesis
  proof (cases "i = 7")
    case True
    have big: "malloc n h = (let c = DIV_ROUND_UP (wrap32 (n + ARENA_SIZE)) PGSIZE in
        get_pages c h \<bind> (\<lambda>(a, h). if a = 0 then Some (0, h) else Some (a + ARENA_SIZE, init_arena a 0 c h)))"
      using True ds(1) n(1) by (simp add: malloc_def i_def [symmetric] Let_def)
    show ?thesis
    proof (rule page_count [OF n(2)])
      assume "DIV_ROUND_UP (wrap32 (n + ARENA_SIZE)) PGSIZE = 0"
      then show ?thesis unfolding big by (simp add: get_pages_def palloc_get_multiple_def)
    next
      fix c assume c: "DIV_ROUND_UP (wrap32 (n + ARENA_SIZE)) PGSIZE = c" "0 < c" "n + 12 \<le> PGSIZE * c"
      show ?thesis
      proof (rule malloc_big [OF ok pk c(2)])
        assume "get_pages c h = Some (0, h)" then show ?thesis unfolding big c(1) by simp
      next
        fix a h1 h' let ?ar = "ar(a \<mapsto> Big c)"
        assume g: "get_pages c h = Some (a, h1)" "a \<noteq> 0" "h' = init_arena a 0 c h1" "heap_ok ?ar h'" "packed ?ar h'" "live ar h (a + 12) = None"
          "block_map ?ar h' = (block_map ar h)(a + 12 \<mapsto> contents h' (a + 12) (PGSIZE * c - 12))" "others ?ar h' = others ar h"
        have "malloc n h = Some (a + 12, h')" using g(1-3) unfolding big c(1) by (simp add: ARENA_SIZE_def)
        moreover have "represents U h' (\<sigma>(a + 12 \<mapsto> contents h' (a + 12) (PGSIZE * c - 12)))" unfolding represents_def \<sigma>(1) using g(4,5,7,8) \<sigma>(2) by metis
        ultimately show ?thesis using g(6) c(3) by (auto simp: \<sigma>(1) block_map_def contents_def intro!: exI)
      qed
    qed
  next
    case False
    then have i7: "i < 7" using i(1) by simp
    have small: "malloc n h = (if free_of h i = [] then new_arena i h else Some (True, h)) \<bind> (\<lambda>(ok, h). if \<not> ok then Some (0, h) else take_block i h)"
      using False ds(1) n(1) by (simp add: malloc_def i_def [symmetric] Let_def)
    show ?thesis
    proof (rule malloc_small [OF ok pk i7])
      assume "free_of h i = []" "new_arena i h = Some (False, h)" then show ?thesis unfolding small by simp
    next
      fix b h' ar' assume m: "(if free_of h i = [] then new_arena i h else Some (True, h)) \<bind> (\<lambda>(ok, h). if \<not> ok then Some (0, h) else take_block i h) = Some (b, h')"
        "b \<noteq> 0" "heap_ok ar' h'" "packed ar' h'" "block_map ar' h' = (block_map ar h)(b \<mapsto> contents h' b (bsz i))" "live ar h b = None" "others ar' h' = others ar h"
      have "represents U h' (\<sigma>(b \<mapsto> contents h' b (bsz i)))" unfolding represents_def \<sigma>(1) using m(3-5,7) \<sigma>(2) by metis
      then show ?thesis using m(1,2,6) i(2) [OF i7] unfolding small by (auto simp: \<sigma>(1) block_map_def contents_def intro!: exI)
    qed
  qed
qed

subsection \<open>Freeing\<close>

lemma remove_arena:
  assumes ok: "heap_ok ar h" and a: "ar a = Some k"
    and st: "pages_wf (store h')" "kernel_used (store h') = kernel_used (store h) - extent a k"
    and d: "descs_ok h'" "desc_ptr h' = desc_ptr h"
    and by': "\<And>x. x < a \<or> a + 4096 * kind_pages k \<le> x \<Longrightarrow> bytes h' x = bytes h x"
    and fl: "\<And>i. i < 7 \<Longrightarrow> free_of h' i = filter (\<lambda>b. pg_round_down b \<noteq> a) (free_of h i)"
  shows "heap_ok (ar(a := None)) h'" "block_map (ar(a := None)) h' = (\<lambda>p. if pg_round_down p = a then None else block_map ar h p)"
    "packed ar h \<Longrightarrow> packed (ar(a := None)) h'"
proof -
  have c4: "x < a \<or> a + 4096 * kind_pages k \<le> x" if "ar c = Some l" "c \<noteq> a" "c \<le> x" "x < c + 4096 * kind_pages l" for c l x
    using arenas_apart [OF ok a that(1), of x] that(2-4) by linarith
  have k0: "0 < kind_pages l" if "ar c = Some l" for c l using heap_okD(3) [OF ok that] by (cases l) auto
  have rest: "blocks i c \<inter> set (free_of h' i) = blocks i c \<inter> set (free_of h i)" if "i < 7" "pg_ofs c = 0" "c \<noteq> a" for i c
    using fl [OF that(1)] blocks_round_down [OF that(2)] that(3) by auto
  have hd: "header_ok h' c l" if c: "ar c = Some l" "c \<noteq> a" for c l
  proof (rule header_frame [OF heap_okD(3) [OF ok c(1)]])
    show "bytes h' x = bytes h x" if "c \<le> x" "x < c + 12" for x using c4 [OF c that(1)] that(2) k0 [OF c(1)] by (intro by') auto
    show "blocks i c \<inter> set (free_of h' i) = blocks i c \<inter> set (free_of h i)" if "l = Small i" for i
      using rest [OF _ heap_okD(2) [OF ok c(1)] c(2)] heap_okD(3) [OF ok c(1)] that by simp
  qed (rule d(2))
  have "extent c l \<inter> extent a k = {}" if "ar c = Some l" "c \<noteq> a" for c l using ok a that unfolding heap_ok_def arenas_ok_def by blast
  then have "arenas_ok (ar(a := None)) h'"
    using ok hd st(2) unfolding heap_ok_def arenas_ok_def by (auto split: if_splits) blast+
  moreover have "lists_ok (ar(a := None)) h'" using ok fl by (auto simp: heap_ok_def lists_ok_def)
  ultimately show "heap_ok (ar(a := None)) h'" using st(1) d(1) by (simp add: heap_ok_def)
  have l: "live (ar(a := None)) h' p = (if pg_round_down p = a then None else live ar h p)" for p
  proof (cases "pg_round_down p = a \<or> ar (pg_round_down p) = None")
    case False
    then obtain l where l: "ar (pg_round_down p) = Some l" by auto
    then have "i < 7" if "l = Small i" for i using heap_okD(3) [OF ok l] that by simp
    then show ?thesis using l False fl by (cases l) (auto simp: live_def)
  qed (auto simp: live_def)
  show "block_map (ar(a := None)) h' = (\<lambda>p. if pg_round_down p = a then None else block_map ar h p)"
  proof
    fix p
    have "contents h' p n = contents h p n" if lv: "live ar h p = Some n" and "pg_round_down p \<noteq> a" for n
    proof -
      obtain l where l: "ar (pg_round_down p) = Some l" "pg_round_down p + 12 \<le> p" "p + n \<le> pg_round_down p + 4096 * kind_pages l"
        using live_range [OF ok lv] by blast
      have "bytes h' x = bytes h x" if "p \<le> x" "x < p + n" for x using c4 [OF l(1) \<open>pg_round_down p \<noteq> a\<close>, of x] l(2,3) that by (intro by') auto
      then show ?thesis by (simp add: contents_def)
    qed
    then show "block_map (ar(a := None)) h' p = (if pg_round_down p = a then None else block_map ar h p)"
      using l [of p] by (cases "live ar h p") (auto simp: block_map_def)
  qed
  show "packed (ar(a := None)) h'" if pk: "packed ar h"
    unfolding packed_def
  proof (intro allI impI)
    fix c l assume "(ar(a := None)) c = Some l"
    then have c: "ar c = Some l" "c \<noteq> a" by (auto split: if_splits)
    obtain p where "pg_round_down p = c" "live ar h p \<noteq> None" using pk c(1) unfolding packed_def by blast
    then show "\<exists>p. pg_round_down p = c \<and> live (ar(a := None)) h' p \<noteq> None" using l c(2) by auto
  qed
qed

lemma free_big:
  assumes ok: "heap_ok ar h" and pk: "packed ar h" and a: "ar a = Some (Big n)"
  shows "\<exists>h' ar'. free (a + 12) h = Some h' \<and> heap_ok ar' h' \<and> packed ar' h' \<and> block_map ar' h' = (block_map ar h)(a + 12 := None) \<and> others ar' h' = others ar h"
proof -
  note h = heap_okD [OF ok a] and b = block_to_arena_big [OF ok a]
  have wf: "pages_wf (store h)" using ok by (simp add: heap_ok_def)
  obtain s where s: "palloc_free_multiple a n (store h) = Some s" "pages_wf s" "kernel_used s = kernel_used (store h) - {pg_no a..<pg_no a + n}"
    "ram s = fill a 0xcc (PGSIZE * n) (bytes h)"
    using kernel_free [OF wf b(4) h(2)] h(4) unfolding extent_def kind_pages.simps by metis
  define h' where "h' = h\<lparr>store := s\<rparr>"
  have f: "free (a + 12) h = Some h'" using b s(1) by (simp add: free_def h'_def)
  have fl: "free_of h' i = filter (\<lambda>b. pg_round_down b \<noteq> a) (free_of h i)" if "i < 7" for i
  proof -
    have "pg_round_down b \<noteq> a" if "b \<in> set (free_of h i)" for b using free_listD(1) [OF ok \<open>i < 7\<close> that] a by auto
    then show ?thesis by (simp add: h'_def filter_id_conv)
  qed
  have "descs_ok h'" "desc_ptr h' = desc_ptr h" using h(6) by (simp_all add: h'_def descs_ok_def desc_ptr_def fun_eq_iff)
  moreover have "bytes h' x = bytes h x" if "x < a \<or> a + 4096 * kind_pages (Big n) \<le> x" for x using that by (auto simp: h'_def s(4) fill_def PGSIZE_def)
  ultimately have r: "heap_ok (ar(a := None)) h'" "block_map (ar(a := None)) h' = (\<lambda>p. if pg_round_down p = a then None else block_map ar h p)" "packed (ar(a := None)) h'"
    using remove_arena [OF ok a, of h'] s(2,3) fl pk by (simp_all add: h'_def extent_def)
  have "(\<lambda>p. if pg_round_down p = a then None else block_map ar h p) = (block_map ar h)(a + 12 := None)"
    using a round_down_add(1) [OF h(2), of 12] by (auto simp: block_map_def live_def)
  then have "block_map (ar(a := None)) h' = (block_map ar h)(a + 12 := None)" using r(2) by simp
  moreover have "others (ar(a := None)) h' = others ar h" using a by (rule others_remove) (simp add: h'_def s(3) extent_def)
  ultimately show ?thesis using f r(1,3) by blast
qed

lemma give_block:
  assumes ok: "heap_ok ar h" and a: "ar a = Some (Small i)" and p: "p \<in> blocks i a" "p \<notin> set (free_of h i)"
    and m: "\<And>x. x < p \<or> p + bsz i \<le> x \<Longrightarrow> m x = bytes h x"
    and h': "h' = set_free_cnt a (rd32 m (a + 8) + 1) (upd_free i (p # free_of h i) (put_bytes m h))"
  shows "heap_ok ar h'" "block_map ar h' = (block_map ar h)(p := None)" "free_of h' i = p # free_of h i" "others ar h' = others ar h"
proof -
  note h = heap_okD [OF ok a]
  have i: "i < 7" using h(3) by simp
  have len: "i < length (descs h)" using descs_okD(1) [OF h(6)] i by simp
  have lp: "live ar h p = Some (bsz i)" using a p blocks_round_down [OF h(2) p(1)] by (simp add: live_def)
  define h1 where "h1 = put_bytes m h"
  have ok1: "heap_ok ar h1" unfolding h1_def using ok lp m by (rule heap_ok_write)
  have fo: "free_of h' j = (if j = i then p # free_of h i else free_of h j)" for j using len by (simp add: h' set_free_cnt_def free_of_upd)
  then show "free_of h' i = p # free_of h i" by simp
  have byt: "bytes h' = wr32 (a + 8) (rd32 m (a + 8) + 1) m" by (simp add: h' set_free_cnt_def)
  have dp: "desc_ptr h' = desc_ptr h1" "descs_ok h'" using h(6) by (simp_all add: h' set_free_cnt_def h1_def)
  have st: "kernel_used (store h') = kernel_used (store h1)" "pages_wf (store h') = pages_wf (store h1)" by (simp_all add: h' set_free_cnt_def h1_def)
  then show "others ar h' = others ar h" by (intro others_same) (simp add: h1_def)
  have hd_a: "header_ok h' a (Small i)"
  proof -
    have "rd32 (bytes h') a = rd32 m a" "rd32 (bytes h') (a + 4) = rd32 m (a + 4)" unfolding byt by (intro rd32_wr32_apart; simp)+
    moreover have "free_cnt h' a = rd32 m (a + 8) + 1" by (simp add: free_cnt_def byt)
    moreover have "blocks i a \<inter> set (free_of h' i) = insert p (blocks i a \<inter> set (free_of h i))" using p fo by auto
    then have "card (blocks i a \<inter> set (free_of h' i)) = card (blocks i a \<inter> set (free_of h i)) + 1" using p(2) by simp
    ultimately show ?thesis using heap_okD(3) [OF ok1 a] dp(1) by (simp add: magic_def free_cnt_def h1_def)
  qed
  have hd: "header_ok h' c k" if c: "ar c = Some k" "c \<noteq> a" for c k
  proof (rule header_frame [OF heap_okD(3) [OF ok1 c(1)]])
    have ca: "pg_ofs c = 0" by (rule heap_okD(2) [OF ok c(1)])
    show "bytes h' x = bytes h1 x" if "c \<le> x" "x < c + 12" for x
      using page_starts_apart [OF ca h(2) c(2)] that by (auto simp: byt h1_def intro!: wr32_frame)
    show "blocks j c \<inter> set (free_of h' j) = blocks j c \<inter> set (free_of h1 j)" for j
      using blocks_round_down [OF ca, of p j] c(2) fo blocks_round_down [OF h(2) p(1)] by (auto simp: h1_def)
  qed (rule dp(1))
  have hd': "header_ok h' c k" if "ar c = Some k" for c k using hd hd_a a that by (cases "c = a") auto
  have "arenas_ok ar h1" using ok1 by (simp add: heap_ok_def)
  then have "arenas_ok ar h'" by (rule arenas_ok_frame) (use hd' st in auto)
  moreover have "lists_ok ar h'" using ok a p blocks_round_down [OF h(2) p(1)] fo by (auto simp: heap_ok_def lists_ok_def)
  ultimately show "heap_ok ar h'" using ok1 dp st by (simp add: heap_ok_def)
  have l: "live ar h' = (live ar h)(p := None)"
    using a p fo blocks_round_down [OF h(2) p(1)] by (auto simp: live_def fun_eq_iff split: option.split arena_kind.split)
  show "block_map ar h' = (block_map ar h)(p := None)"
  proof
    fix q
    have "contents h' q n = contents h q n" if q: "live ar h q = Some n" "q \<noteq> p" for n
    proof -
      have "q + n \<le> a \<or> a + 12 \<le> q" "q + n \<le> p \<or> p + bsz i \<le> q" using live_no_header [OF ok q(1) a] live_disjoint [OF ok q(1) lp q(2)] by auto
      then have "bytes h' x = bytes h x" if "q \<le> x" "x < q + n" for x
        using that m [of x] by (auto simp: byt wr32_frame)
      then show ?thesis by (simp add: contents_def)
    qed
    then show "block_map ar h' q = ((block_map ar h)(p := None)) q" using l by (cases "live ar h q") (auto simp: block_map_def)
  qed
qed

lemma remove_blocks:
  assumes d: "descs_ok h" "i < 7" and a: "a \<noteq> 0" and m: "magic h a = ARENA_MAGIC" "rd32 (bytes h) (a + 4) = desc_ptr h i" and n: "n \<le> bpa i"
    and f: "distinct (free_of h i)" "blocks i a \<subseteq> set (free_of h i)"
  shows "for_range 0 n (remove_block i a) h = Some (upd_free i (filter (\<lambda>b. b \<notin> blk i a ` {..<n}) (free_of h i)) h)"
  using n
proof (induction n)
  case 0
  show ?case by (simp add: upd_free_id)
next
  case (Suc n)
  let ?xs = "filter (\<lambda>b. b \<notin> blk i a ` {..<n}) (free_of h i)"
  have t: "arena_to_block (upd_free i ?xs h) a n = Some (blk i a n)"
    using d a m Suc.prems by (intro arena_to_block_small) (simp_all add: magic_def)
  have "blk i a n \<in> set (free_of h i)" using f(2) Suc.prems by (auto simp: blocks_def)
  then have "blk i a n \<in> set ?xs" by (auto simp: blk_inj)
  moreover have "remove1 (blk i a n) ?xs = filter (\<lambda>b. b \<notin> blk i a ` {..<Suc n}) (free_of h i)"
    using f(1) by (auto simp: distinct_remove1_removeAll removeAll_filter_not_eq lessThan_Suc intro!: filter_cong)
  moreover have "i < length (descs h)" using descs_okD(1) [OF d(1)] d(2) by simp
  ultimately have "remove_block i a n (upd_free i ?xs h) = Some (upd_free i (filter (\<lambda>b. b \<notin> blk i a ` {..<Suc n}) (free_of h i)) h)"
    using t by (simp add: remove_block_def free_of_upd)
  then show ?case using Suc by (simp add: for_range_Suc)
qed

lemma free_arena:
  assumes ok: "heap_ok ar h" and a: "ar a = Some (Small i)" and full: "blocks i a \<subseteq> set (free_of h i)"
    and pk: "\<And>c k. c \<noteq> a \<Longrightarrow> ar c = Some k \<Longrightarrow> \<exists>p. pg_round_down p = c \<and> live ar h p \<noteq> None"
  shows "\<exists>h1 s h'. for_range 0 (bpa i) (remove_block i a) h = Some h1 \<and> palloc_free_page a (store h1) = Some s \<and> h' = h1\<lparr>store := s\<rparr>
    \<and> heap_ok (ar(a := None)) h' \<and> packed (ar(a := None)) h' \<and> block_map (ar(a := None)) h' = block_map ar h \<and> others (ar(a := None)) h' = others ar h"
proof -
  note h = heap_okD [OF ok a]
  have i: "i < 7" using h(3) by simp
  have len: "i < length (descs h)" using descs_okD(1) [OF h(6)] i by simp
  define h1 where "h1 = upd_free i (filter (\<lambda>b. b \<notin> blocks i a) (free_of h i)) h"
  have dis: "distinct (free_of h i)" using ok i by (simp add: heap_ok_def lists_ok_def)
  have l: "for_range 0 (bpa i) (remove_block i a) h = Some h1"
    unfolding h1_def blocks_def using full dis i h(1,3,6) by (intro remove_blocks) simp_all
  have wf: "pages_wf (store h)" using ok by (simp add: heap_ok_def)
  obtain s where s: "palloc_free_multiple a 1 (store h) = Some s" "pages_wf s" "kernel_used s = kernel_used (store h) - {pg_no a..<pg_no a + 1}"
    "ram s = fill a 0xcc (PGSIZE * 1) (bytes h)"
    using kernel_free [OF wf zero_less_one h(2)] h(4) unfolding extent_def kind_pages.simps by metis
  define h' where "h' = h1\<lparr>store := s\<rparr>"
  have fo: "free_of h' j = filter (\<lambda>b. pg_round_down b \<noteq> a) (free_of h j)" if "j < 7" for j
  proof (cases "j = i")
    case True
    have "b \<notin> blocks i a \<longleftrightarrow> pg_round_down b \<noteq> a" if "b \<in> set (free_of h i)" for b
      using free_listD(2) [OF ok i that] blocks_round_down [OF h(2), of b i] by auto
    then show ?thesis using True len by (simp add: h'_def h1_def free_of_upd cong: filter_cong)
  next
    case False
    have "pg_round_down b \<noteq> a" if "b \<in> set (free_of h j)" for b using free_listD(1) [OF ok \<open>j < 7\<close> that] a False by auto
    then show ?thesis using False len by (simp add: h'_def h1_def free_of_upd filter_id_conv)
  qed
  have "descs_ok h1" "desc_ptr h1 = desc_ptr h" using h(6) by (simp_all add: h1_def)
  then have d: "descs_ok h'" "desc_ptr h' = desc_ptr h" by (simp_all add: h'_def descs_ok_def desc_ptr_def fun_eq_iff)
  moreover have "bytes h' x = bytes h x" if "x < a \<or> a + 4096 * kind_pages (Small i) \<le> x" for x using that by (auto simp: h'_def s(4) fill_def PGSIZE_def)
  ultimately have r: "heap_ok (ar(a := None)) h'" "block_map (ar(a := None)) h' = (\<lambda>p. if pg_round_down p = a then None else block_map ar h p)"
    using remove_arena [OF ok a, of h'] s(2,3) fo by (simp_all add: h'_def extent_def)
  have none: "live ar h p = None" if "pg_round_down p = a" for p using a full that by (auto simp: live_def)
  then have bm: "block_map (ar(a := None)) h' = block_map ar h" using r(2) by (auto simp: block_map_def)
  have "live (ar(a := None)) h' p \<noteq> None" if "live ar h p \<noteq> None" for p using fun_cong [OF bm, of p] that by (auto simp: block_map_def)
  then have "packed (ar(a := None)) h'" unfolding packed_def using pk by (auto split: if_splits) (metis option.distinct(1))
  moreover have "others (ar(a := None)) h' = others ar h" using a by (rule others_remove) (simp add: h'_def s(3) extent_def)
  ultimately show ?thesis using l s(1) r(1) bm by (auto simp: h'_def palloc_free_page_def h1_def)
qed

lemma free_small:
  assumes ok: "heap_ok ar h" and pk: "packed ar h" and a: "ar a = Some (Small i)" and p: "p \<in> blocks i a" "p \<notin> set (free_of h i)"
  shows "\<exists>h' ar'. free p h = Some h' \<and> heap_ok ar' h' \<and> packed ar' h' \<and> block_map ar' h' = (block_map ar h)(p := None) \<and> others ar' h' = others ar h"
proof -
  note h = heap_okD [OF ok a]
  have i: "i < 7" using h(3) by simp
  note ds = descs_okD [OF h(6)]
  have p0: "p \<noteq> 0" using blocks_range [OF p(1)] by auto
  define m where "m = set_bytes (bsz i) p 0xcc (bytes h)"
  define h1 where "h1 = set_free_cnt a (rd32 m (a + 8) + 1) (upd_free i (p # free_of h i) (put_bytes m h))"
  have m: "m x = bytes h x" if "x < p \<or> p + bsz i \<le> x" for x using that by (auto simp: m_def set_bytes_eq)
  note g = give_block [OF ok a p _ h1_def]
  have ok1: "heap_ok ar h1" using m by (rule g(1))
  have bm1: "block_map ar h1 = (block_map ar h)(p := None)" using m by (rule g(2))
  have fo: "free_of h1 i = p # free_of h i" using m by (rule g(3))
  have ot: "others ar h1 = others ar h" using m by (rule g(4))
  let ?n = "card (blocks i a \<inter> set (free_of h1 i))"
  have le: "?n \<le> bpa i" using card_mono [of "blocks i a" "blocks i a \<inter> set (free_of h1 i)"] by (simp add: card_blocks)
  then have "?n < 4294967296" using bpa_le [of i] by linarith
  then have u: "unat (free_cnt h1 a) = ?n" using heap_okD(3) [OF ok1 a] by (simp add: unat_of_nat)
  have ba: "block_to_arena h p = Some a" using block_to_arena_small [OF h(6,1,2,7) _ i p(1)] h(3) by simp
  have bsz1: "blocks_per_arena (descs h1 ! i) = bpa i" using ds(3) [OF i] by (simp add: h1_def set_free_cnt_def)
  have h1_alt: "set_free_cnt a (free_cnt (upd_free i (p # free_of h i) (put_bytes m h)) a + 1) (upd_free i (p # free_of h i) (put_bytes m h)) = h1"
    by (simp add: h1_def free_cnt_def)
  have "memset (bytes h) p 0xcc (block_size (descs h ! i)) = Some (p, m)" using p0 ds(2) [OF i] by (simp add: memset_def m_def)
  moreover have "arena_desc h a = Some (Some i)" using arena_desc_ptr(1) [OF h(6) _ i] h(3) by simp
  ultimately have fr: "free p h = (if ?n \<ge> bpa i then for_range 0 (bpa i) (remove_block i a) h1 \<bind> (\<lambda>h. palloc_free_page a (store h) \<bind> (\<lambda>s. Some (h\<lparr>store := s\<rparr>))) else Some h1)"
    using p0 ba u le bsz1 unfolding free_def by (simp add: Let_def h1_alt panic_simps)
  have l1: "live ar h1 q \<noteq> None" if "q \<noteq> p" "live ar h q \<noteq> None" for q using fun_cong [OF bm1, of q] that by (auto simp: block_map_def)
  have pk1: "\<exists>q. pg_round_down q = c \<and> live ar h1 q \<noteq> None" if "c \<noteq> a" "ar c = Some k" for c k
  proof -
    obtain q where "pg_round_down q = c" "live ar h q \<noteq> None" using pk \<open>ar c = Some k\<close> unfolding packed_def by blast
    then show ?thesis using l1 [of q] blocks_round_down [OF h(2) p(1)] \<open>c \<noteq> a\<close> by blast
  qed
  show ?thesis
  proof (cases "?n \<ge> bpa i")
    case True
    then have "blocks i a \<inter> set (free_of h1 i) = blocks i a" by (intro card_seteq) (simp_all add: card_blocks)
    then have "blocks i a \<subseteq> set (free_of h1 i)" by blast
    then show ?thesis using free_arena [OF ok1 a _ pk1] True bm1 fr ot by fastforce
  next
    case False
    then have "blocks i a \<inter> set (free_of h1 i) \<noteq> blocks i a" using card_blocks [of i a] by auto
    then obtain q where q: "q \<in> blocks i a" "q \<notin> set (free_of h1 i)" by blast
    then have "live ar h1 q \<noteq> None" "pg_round_down q = a" using a blocks_round_down [OF h(2) q(1)] by (simp_all add: live_def)
    then have "packed ar h1" unfolding packed_def using pk1 by metis
    then show ?thesis using ok1 bm1 fr False ot by auto
  qed
qed

lemma free_represents:
  assumes "represents U h \<sigma>" "\<sigma> p \<noteq> None"
  shows "\<exists>h'. free p h = Some h' \<and> represents U h' (\<sigma>(p := None))"
proof -
  obtain ar where ok: "heap_ok ar h" and pk: "packed ar h" and \<sigma>: "\<sigma> = block_map ar h" "others ar h = U" using assms(1) by (auto simp: represents_def)
  obtain n where "live ar h p = Some n" using assms(2) by (auto simp: \<sigma>(1) block_map_def)
  with ok have "\<exists>h' ar'. free p h = Some h' \<and> heap_ok ar' h' \<and> packed ar' h' \<and> block_map ar' h' = (block_map ar h)(p := None) \<and> others ar' h' = others ar h"
    by (rule live_cases) (use free_small [OF ok pk] free_big [OF ok pk] in blast)+
  then show ?thesis unfolding represents_def \<sigma>(1) using \<sigma>(2) by metis
qed

subsection \<open>The contract\<close>

lemma represents_disjoint:
  assumes "represents U h \<sigma>" "\<sigma> p = Some xs" "\<sigma> q = Some ys" "p \<noteq> q"
  shows "p + length xs \<le> q \<or> q + length ys \<le> p"
proof -
  obtain ar where ok: "heap_ok ar h" and \<sigma>: "\<sigma> = block_map ar h" using assms(1) by (auto simp: represents_def)
  obtain m n where "live ar h p = Some m" "live ar h q = Some n" "length xs = m" "length ys = n"
    using assms(2,3) by (auto simp: \<sigma> block_map_def contents_def)
  then show ?thesis using live_disjoint [OF ok _ _ assms(4)] by blast
qed

text \<open>
  What a program may rely on, whatever the allocator is: \<open>repr s \<sigma>\<close> says that \<open>\<sigma>\<close> are the allocated blocks of the state \<open>s\<close>.
\<close>

locale block_allocator =
  fixes repr :: "'s \<Rightarrow> (nat \<rightharpoonup> 'b list) \<Rightarrow> bool"
    and alloc :: "nat \<Rightarrow> 's \<Rightarrow> (nat \<times> 's) option"
    and release :: "nat \<Rightarrow> 's \<Rightarrow> 's option"
    and fits :: "nat \<Rightarrow> bool"
  assumes alloc_law: "repr s \<sigma> \<Longrightarrow> fits n \<Longrightarrow>
      alloc n s = Some (0, s) \<or> (\<exists>p s' xs. alloc n s = Some (p, s') \<and> p \<noteq> 0 \<and> \<sigma> p = None \<and> n \<le> length xs \<and> repr s' (\<sigma>(p \<mapsto> xs)))"
    and release_law: "repr s \<sigma> \<Longrightarrow> \<sigma> p \<noteq> None \<Longrightarrow> \<exists>s'. release p s = Some s' \<and> repr s' (\<sigma>(p := None))"
    and disjoint_law: "repr s \<sigma> \<Longrightarrow> \<sigma> p = Some xs \<Longrightarrow> \<sigma> q = Some ys \<Longrightarrow> p \<noteq> q \<Longrightarrow> p + length xs \<le> q \<or> q + length ys \<le> p"
begin

lemma alloc_apart:
  assumes "repr s \<sigma>" "fits n"
  shows "alloc n s = Some (0, s) \<or> (\<exists>p s' xs. alloc n s = Some (p, s') \<and> p \<noteq> 0 \<and> \<sigma> p = None \<and> n \<le> length xs \<and> repr s' (\<sigma>(p \<mapsto> xs))
    \<and> (\<forall>q ys. \<sigma> q = Some ys \<longrightarrow> p + length xs \<le> q \<or> q + length ys \<le> p))"
  using alloc_law [OF assms]
proof (elim disjE exE conjE)
  fix p s' xs assume a: "alloc n s = Some (p, s')" "p \<noteq> 0" "\<sigma> p = None" "n \<le> length xs" "repr s' (\<sigma>(p \<mapsto> xs))"
  have "p + length xs \<le> q \<or> q + length ys \<le> p" if "\<sigma> q = Some ys" for q ys
    using that a(3) by (intro disjoint_law [OF a(5)]) auto
  then show ?thesis using a by blast
qed blast

lemma release_all:
  assumes "repr s \<sigma>" "distinct ps" "set ps \<subseteq> dom \<sigma>"
  shows "\<exists>s'. foldM release ps s = Some s' \<and> repr s' (\<sigma> |` (- set ps))"
  using assms
proof (induction ps arbitrary: s \<sigma>)
  case (Cons p ps)
  then obtain s1 where s1: "release p s = Some s1" "repr s1 (\<sigma>(p := None))" using release_law [OF Cons.prems(1), of p] by auto
  have "distinct ps" "set ps \<subseteq> dom (\<sigma>(p := None))" using Cons.prems by auto
  then obtain s' where "foldM release ps s1 = Some s'" "repr s' ((\<sigma>(p := None)) |` (- set ps))" using Cons.IH [OF s1(2)] by blast
  moreover have "(\<sigma>(p := None)) |` (- set ps) = \<sigma> |` (- set (p # ps))" by (auto simp: restrict_map_def)
  ultimately show ?case using s1(1) by auto
qed (simp add: restrict_map_def)

end

interpretation kheap: block_allocator "represents U" malloc free "\<lambda>n. 0 < n \<and> n + 12 < 4294967296" for U
  by (unfold_locales, (erule conjE, rule malloc_represents; assumption), (rule free_represents; assumption), (rule represents_disjoint; assumption))

lemma represents_none:
  assumes "represents U h Map.empty"
  shows "kernel_used (store h) = U"
proof -
  obtain ar where "packed ar h" "block_map ar h = Map.empty" "others ar h = U" using assms by (auto simp: represents_def)
  moreover from this(1,2) have "ar a = None" for a
    unfolding packed_def block_map_def by (metis map_option_is_None not_Some_eq)
  ultimately show ?thesis by (simp add: others_def)
qed

subsection \<open>The start\<close>

lemma init_loop_eq:
  "init_loop 16 [] = Some (map (\<lambda>i. \<lparr>block_size = bsz i, blocks_per_arena = bpa i, free_list = []\<rparr>) [0..<7])"
  by (simp add: init_loop.simps PGSIZE_def ARENA_SIZE_def bsz_def bpa_def upt_conv_Cons)

lemma malloc_init_represents:
  assumes "pages_wf s" "0 < b" "b + 480 < 4294967296"
  obtains h where "malloc_init \<lparr>store = s, descs = [], descs_at = b\<rparr> = Some h" "represents (kernel_used s) h Map.empty" "store h = s"
proof -
  define ds where "ds = map (\<lambda>i. \<lparr>block_size = bsz i, blocks_per_arena = bpa i, free_list = []\<rparr>) [0..<7]"
  let ?h = "\<lparr>store = s, descs = ds, descs_at = b\<rparr>"
  have "descs_ok ?h" using assms(2,3) by (simp add: descs_ok_def ds_def)
  then have "heap_ok Map.empty ?h" using assms(1) by (simp add: heap_ok_def arenas_ok_def lists_ok_def ds_def)
  moreover have "block_map Map.empty ?h = Map.empty" by (simp add: block_map_def live_def fun_eq_iff)
  ultimately have "represents (kernel_used s) ?h Map.empty" unfolding represents_def by (intro exI [of _ Map.empty]) (simp add: packed_def others_def)
  then show thesis using that [of ?h] init_loop_eq by (simp add: malloc_init_def ds_def)
qed

subsection \<open>Contents\<close>

lemma represents_bytes:
  assumes "represents U h \<sigma>" "\<sigma> p = Some xs"
  shows "xs = map (bytes h) [p..<p + length xs]"
  using assms by (auto simp: represents_def block_map_def contents_def)

lemma represents_write:
  assumes r: "represents U h \<sigma>" and p: "\<sigma> p = Some xs" and m: "\<And>x. x < p \<or> p + length xs \<le> x \<Longrightarrow> m x = bytes h x"
  shows "represents U (put_bytes m h) (\<sigma>(p \<mapsto> map m [p..<p + length xs]))"
proof -
  obtain ar where ok: "heap_ok ar h" and pk: "packed ar h" and \<sigma>: "\<sigma> = block_map ar h" "others ar h = U" using r by (auto simp: represents_def)
  have l: "live ar h p = Some (length xs)" using p by (auto simp: \<sigma>(1) block_map_def contents_def)
  have "heap_ok ar (put_bytes m h)" using ok l m by (rule heap_ok_write)
  moreover have "packed ar (put_bytes m h)" using pk by (simp add: packed_def)
  moreover have "others ar (put_bytes m h) = U" using \<sigma>(2) by (simp add: others_def)
  moreover have "\<sigma>(p \<mapsto> map m [p..<p + length xs]) = block_map ar (put_bytes m h)"
  proof
    fix q
    show "(\<sigma>(p \<mapsto> map m [p..<p + length xs])) q = block_map ar (put_bytes m h) q"
    proof (cases "q = p \<or> live ar h q = None")
      case False
      then obtain n where n: "live ar h q = Some n" "q \<noteq> p" by auto
      have "m x = bytes h x" if "q \<le> x" "x < q + n" for x using live_disjoint [OF ok n(1) l n(2)] that by (intro m) auto
      then show ?thesis using n by (simp add: \<sigma>(1) block_map_def contents_def)
    qed (use l in \<open>auto simp: \<sigma>(1) block_map_def contents_def\<close>)
  qed
  ultimately show ?thesis unfolding represents_def by blast
qed

lemma block_bytes_represents:
  assumes "represents U h \<sigma>" "\<sigma> p = Some xs"
  shows "block_bytes h p = Some (length xs)" "p \<noteq> 0"
proof -
  obtain ar where ok: "heap_ok ar h" and \<sigma>: "\<sigma> = block_map ar h" using assms(1) by (auto simp: represents_def)
  have l: "live ar h p = Some (length xs)" using assms(2) by (auto simp: \<sigma> block_map_def contents_def)
  have "block_bytes h p = Some (length xs) \<and> p \<noteq> 0"
  proof (rule live_cases [OF ok l])
    fix i a assume a: "ar a = Some (Small i)" "p \<in> blocks i a" "length xs = bsz i" "i < 7"
    note h = heap_okD [OF ok a(1)]
    have "block_to_arena h p = Some a" using block_to_arena_small [OF h(6,1,2,7) _ a(4,2)] h(3) by simp
    moreover have "arena_desc h a = Some (Some i)" using arena_desc_ptr(1) [OF h(6) _ a(4)] h(3) by simp
    ultimately show ?thesis using descs_okD(2) [OF h(6) a(4)] a(3) blocks_range [OF a(2)] by (simp add: block_bytes_def)
  next
    fix a m assume a: "ar a = Some (Big m)" "p = a + 12" "length xs = PGSIZE * m - 12" "0 < m"
    note h = heap_okD [OF ok a(1)] and b = block_to_arena_big [OF ok a(1)]
    have "PGSIZE * m < 4294967296" using h(5) by (simp add: PGSIZE_def)
    moreover have "wrap32 (PGSIZE * m + 4294967296 - 12) = PGSIZE * m - 12" using calculation a(4) by (simp add: wrap32_def PGSIZE_def mod_if)
    ultimately show ?thesis using b a(2,3) round_down_add(2) [OF h(2), of 12] by (simp add: block_bytes_def)
  qed
  then show "block_bytes h p = Some (length xs)" "p \<noteq> 0" by simp_all
qed

lemma realloc_represents:
  assumes r: "represents U h \<sigma>" and p: "\<sigma> p = Some xs" and n: "0 < n" "n + 12 < 4294967296"
  shows "realloc p n h = Some (0, h) \<or> (\<exists>q h' ys. realloc p n h = Some (q, h') \<and> q \<noteq> 0 \<and> \<sigma> q = None \<and> n \<le> length ys
    \<and> take (min n (length xs)) ys = take (min n (length xs)) xs \<and> represents U h' (\<sigma>(p := None, q \<mapsto> ys)))"
proof -
  note b = block_bytes_represents [OF r p]
  from malloc_represents [OF r n] show ?thesis
  proof (elim disjE exE conjE)
    assume "malloc n h = Some (0, h)"
    then show ?thesis using n by (simp add: realloc_def)
  next
    fix q h1 zs assume m: "malloc n h = Some (q, h1)" "q \<noteq> 0" "\<sigma> q = None" "n \<le> length zs" "represents U h1 (\<sigma>(q \<mapsto> zs))"
    have pq: "p \<noteq> q" using p m(3) by auto
    then have p1: "(\<sigma>(q \<mapsto> zs)) p = Some xs" "(\<sigma>(q \<mapsto> zs)) q = Some zs" using p by auto
    define k where "k = min n (length xs)"
    define w where "w = copy_up k q p (bytes h1)"
    have apart: "p + length xs \<le> q \<or> q + length zs \<le> p" using represents_disjoint [OF m(5) p1 pq] .
    then have w: "w = (\<lambda>x. if q \<le> x \<and> x < q + k then bytes h1 (p + (x - q)) else bytes h1 x)"
      unfolding w_def by (intro copy_up_eq) (auto simp: k_def)
    define ys where "ys = map w [q..<q + length zs]"
    have k: "k \<le> length zs" "k \<le> length xs" using m(4) by (simp_all add: k_def)
    have "represents U (put_bytes w h1) (\<sigma>(q \<mapsto> zs, q \<mapsto> ys))" unfolding ys_def using m(5) p1(2) by (rule represents_write) (use w k in auto)
    moreover have "(\<sigma>(q \<mapsto> zs, q \<mapsto> ys)) p \<noteq> None" using p pq by simp
    ultimately obtain h2 where h2: "free p (put_bytes w h1) = Some h2" "represents U h2 ((\<sigma>(q \<mapsto> zs, q \<mapsto> ys))(p := None))" using free_represents by blast
    have e: "(\<sigma>(q \<mapsto> zs, q \<mapsto> ys))(p := None) = \<sigma>(p := None, q \<mapsto> ys)" using pq by auto
    have x: "xs ! j = bytes h1 (p + j)" if "j < length xs" for j using represents_bytes [OF m(5) p1(1)] that by (metis add.commute nth_map_upt add_diff_cancel_left')
    have tk: "take k ys = take k xs" using k x by (intro nth_equalityI) (auto simp: ys_def w)
    have bb: "block_bytes h1 p = Some (length xs)" by (rule block_bytes_represents(1) [OF m(5) p1(1)])
    have "(if n < length xs then n else length xs) = k" by (simp add: k_def min_def)
    moreover have "memcpy (bytes h1) q p k = Some (q, w)" using m(2) b(2) by (simp add: memcpy_def w_def)
    ultimately have "realloc p n h = Some (q, h2)" using m(1,2) n b(2) bb h2(1) by (simp add: realloc_def)
    moreover have "length ys = length zs" by (simp add: ys_def)
    ultimately show ?thesis using m(2-4) h2(2) tk unfolding e k_def by metis
  qed
qed

lemma calloc_represents:
  assumes r: "represents U h \<sigma>" and n: "n = wrap32 (a * b)" "a \<le> n" "b \<le> n" "0 < n" "n + 12 < 4294967296"
  shows "calloc a b h = Some (0, h) \<or> (\<exists>p h' xs. calloc a b h = Some (p, h') \<and> p \<noteq> 0 \<and> \<sigma> p = None \<and> n \<le> length xs
    \<and> take n xs = replicate n 0 \<and> represents U h' (\<sigma>(p \<mapsto> xs)))"
  using malloc_represents [OF r n(4,5)]
proof (elim disjE exE conjE)
  assume "malloc n h = Some (0, h)"
  then show ?thesis using n by (simp add: calloc_def Let_def)
next
  fix p h1 zs assume m: "malloc n h = Some (p, h1)" "p \<noteq> 0" "\<sigma> p = None" "n \<le> length zs" "represents U h1 (\<sigma>(p \<mapsto> zs))"
  define w where "w = set_bytes n p 0 (bytes h1)"
  have w: "w x = (if p \<le> x \<and> x < p + n then 0 else bytes h1 x)" for x by (simp add: w_def set_bytes_eq)
  define xs where "xs = map w [p..<p + length zs]"
  have "represents U (put_bytes w h1) (\<sigma>(p \<mapsto> zs, p \<mapsto> xs))" unfolding xs_def using m(5) by (rule represents_write) (use w m(4) in auto)
  moreover have "calloc a b h = Some (p, put_bytes w h1)" using m(1,2) n by (simp add: calloc_def Let_def memset_def w_def)
  moreover have "take n xs = replicate n 0" using m(4) by (intro nth_equalityI) (auto simp: xs_def w)
  moreover have "n \<le> length xs" using m(4) by (simp add: xs_def)
  ultimately show ?thesis using m(2,3) by auto
qed

text \<open>A single page is given out exactly when the pool has a free one.\<close>

lemma one_page:
  assumes "pages_wf s" and "palloc_get_multiple 0 1 s = Some (a, s')"
  shows "a = 0 \<longleftrightarrow> pool_pages (kernel_pool s) \<subseteq> kernel_used s"
proof (rule palloc_get_cases [OF assms(1) zero_less_one, of False 0])
  show "False \<longleftrightarrow> 0 AND PAL_USER \<noteq> (0 :: u32)" by simp
next
  assume n: "palloc_get_multiple 0 1 s = (if 0 AND PAL_ASSERT \<noteq> 0 then None else Some (0, s))"
    and f: "\<And>i. i + 1 \<le> bit_cnt (used_map (the_pool False s)) \<Longrightarrow> {i..<i + 1} \<inter> used_units (used_map (the_pool False s)) \<noteq> {}"
  have "pool_pages (kernel_pool s) \<subseteq> kernel_used s"
  proof
    fix x assume "x \<in> pool_pages (kernel_pool s)"
    then have "x - pg_no (base (kernel_pool s)) + 1 \<le> bit_cnt (used_map (kernel_pool s))" "x = pg_no (base (kernel_pool s)) + (x - pg_no (base (kernel_pool s)))"
      by (auto simp: pool_pages_def)
    then show "x \<in> kernel_used s" using f [of "x - pg_no (base (kernel_pool s))"] by (auto simp: the_pool_False used_of_def)
  qed
  then show ?thesis using n assms(2) by simp
next
  fix i b s1
  assume g: "palloc_get_multiple 0 1 s = Some (base (the_pool False s) + PGSIZE * i, s1)" "take_units (used_map (the_pool False s)) 1 = (Some i, b)"
  note t = take_units_pages [OF assms(1) g(2)]
  have "0 < base (kernel_pool s)" using assms(1) by (simp add: pages_wf_def pool_wf_def)
  then have "a \<noteq> 0" using g(1) assms(2) by (simp add: the_pool_False)
  moreover have "pg_no (base (kernel_pool s)) + i \<in> pool_pages (kernel_pool s)" using t(7) by (simp add: the_pool_False pool_pages_def)
  moreover have "pg_no (base (kernel_pool s)) + i \<notin> kernel_used s" using t(3) by (auto simp: the_pool_False used_pages_def)
  ultimately show ?thesis by blast
qed

text \<open>No block is as long as the memory.\<close>

lemma block_short:
  assumes "represents U h \<sigma>" and "\<sigma> p = Some xs"
  shows "length xs < 4294967296"
proof -
  obtain ar n where ok: "heap_ok ar h" and n: "live ar h p = Some n" "length xs = n"
    using assms by (auto simp: represents_def block_map_def contents_def)
  then obtain k where k: "ar (pg_round_down p) = Some k" by (cases "ar (pg_round_down p)") (auto simp: live_def)
  show ?thesis
  proof (cases k)
    case (Small i)
    have "header_ok h (pg_round_down p) (Small i)" using ok k unfolding Small heap_ok_def arenas_ok_def by blast
    then have "i < 7" by simp
    then show ?thesis using n k Small bsz_le [of i] by (auto simp: live_def split: if_splits)
  next
    case (Big m)
    have "pg_no (pg_round_down p) + kind_pages (Big m) < 2 ^ 20" using ok k unfolding Big heap_ok_def arenas_ok_def by blast
    then have "PGSIZE * m < 4294967296" by (simp add: PGSIZE_def)
    then show ?thesis using n k Big by (auto simp: live_def split: if_splits)
  qed
qed

lemma malloc_wraps:
  assumes r: "represents U h \<sigma>" and n: "4294967284 < n" "n < 4294967296"
  shows "if pool_pages (kernel_pool (store h)) \<subseteq> kernel_used (store h) then malloc n h = Some (0, h)
    else \<exists>p h' xs. malloc n h = Some (p, h') \<and> p \<noteq> 0 \<and> length xs = 4084 \<and> represents U h' (\<sigma>(p \<mapsto> xs))"
proof -
  obtain ar where ok: "heap_ok ar h" and pk: "packed ar h" and \<sigma>: "\<sigma> = block_map ar h" "others ar h = U" using r by (auto simp: represents_def)
  note ds = descs_okD [of h]
  have d: "descs_ok h" using ok by (simp add: heap_ok_def)
  have "find_desc n 0 (descs h) = 7"
    using find_desc_cases [of n 0 "descs h", OF refl] ds(1) [OF d] ds(2) [OF d, of "find_desc n 0 (descs h)"] bsz_le [of "find_desc n 0 (descs h)"] n(1) by (cases "find_desc n 0 (descs h) < 7") auto
  moreover have "DIV_ROUND_UP (wrap32 (n + ARENA_SIZE)) PGSIZE = 1"
  proof -
    have "wrap32 (n + ARENA_SIZE) = n - 4294967284" using n by (simp add: wrap32_def ARENA_SIZE_def mod_if)
    moreover have "(n - 4294967284 + 4096 - 1) div 4096 = 1" using n by (intro div_nat_eqI) auto
    ultimately show ?thesis using n by (simp add: DIV_ROUND_UP_eq PGSIZE_def)
  qed
  ultimately have m: "malloc n h = get_pages 1 h \<bind> (\<lambda>(a, h). if a = 0 then Some (0, h) else Some (a + ARENA_SIZE, init_arena a 0 1 h))"
    using ds(1) [OF d] n(1) by (simp add: malloc_def del: One_nat_def)
  have pg: "a = 0 \<longleftrightarrow> pool_pages (kernel_pool (store h)) \<subseteq> kernel_used (store h)" if "get_pages 1 h = Some (a, h1)" for a h1
    using that one_page [of "store h" a] ok by (auto simp: get_pages_def bind_Some_iff heap_ok_def simp del: One_nat_def)
  show ?thesis
  proof (rule malloc_big [OF ok pk zero_less_one])
    assume "get_pages 1 h = Some (0, h)" then show ?thesis using pg unfolding m by (simp del: One_nat_def)
  next
    fix a h1 h' let ?ar = "ar(a \<mapsto> Big 1)"
    assume g: "get_pages 1 h = Some (a, h1)" "a \<noteq> 0" "h' = init_arena a 0 1 h1" "heap_ok ?ar h'" "packed ?ar h'" "others ?ar h' = others ar h"
      "block_map ?ar h' = (block_map ar h)(a + 12 \<mapsto> contents h' (a + 12) (PGSIZE * 1 - 12))"
    have "malloc n h = Some (a + 12, h')" using g(1-3) unfolding m by (simp add: ARENA_SIZE_def)
    moreover have "represents U h' (\<sigma>(a + 12 \<mapsto> contents h' (a + 12) (PGSIZE * 1 - 12)))" unfolding represents_def \<sigma>(1) using g(4-7) \<sigma>(2) by metis
    moreover have "length (contents h' (a + 12) (PGSIZE * 1 - 12)) = 4084" by (simp add: contents_def PGSIZE_def)
    ultimately have "\<exists>p h' xs. malloc n h = Some (p, h') \<and> p \<noteq> 0 \<and> length xs = 4084 \<and> represents U h' (\<sigma>(p \<mapsto> xs))"
      by (metis add_is_0 zero_neq_numeral)
    then show ?thesis using pg [OF g(1)] g(2) by simp
  qed
qed

lemma calloc_wraps:
  assumes r: "represents U h \<sigma>" and n: "n = wrap32 (a * b)" "a \<le> n" "b \<le> n" "0 < n" "n + 12 < 4294967296" and big: "4294967296 \<le> a * b"
    and m: "malloc n h = Some (p, h1)" "p \<noteq> 0"
  shows "\<exists>h' xs. calloc a b h = Some (p, h') \<and> length xs < a * b \<and> take n xs = replicate n 0 \<and> represents U h' (\<sigma>(p \<mapsto> xs))"
proof -
  have "calloc a b h = Some (p, put_bytes (set_bytes n p 0 (bytes h1)) h1)" using m n by (simp add: calloc_def Let_def memset_def)
  then obtain h' xs where c: "calloc a b h = Some (p, h')" "take n xs = replicate n 0" "represents U h' (\<sigma>(p \<mapsto> xs))"
    using calloc_represents [OF r n] m(2) by auto
  moreover have "length xs < a * b" using block_short [OF c(3), of p xs] big by simp
  ultimately show ?thesis by blast
qed


subsection \<open>An example\<close>

definition demo_heap :: heap where
  "demo_heap = \<lparr>store = demo_pages, descs = map (\<lambda>i. \<lparr>block_size = bsz i, blocks_per_arena = bpa i, free_list = []\<rparr>) [0..<7], descs_at = 3221500000\<rparr>"

lemma demo_heap_represents: "represents {} demo_heap Map.empty"
proof -
  have "descs_ok demo_heap" by (simp add: descs_ok_def demo_heap_def)
  then have "heap_ok Map.empty demo_heap" using demo_pages_wf by (simp add: heap_ok_def arenas_ok_def lists_ok_def demo_heap_def)
  moreover have "block_map Map.empty demo_heap = Map.empty" by (simp add: block_map_def live_def fun_eq_iff)
  moreover have "others Map.empty demo_heap = {}" by (simp add: others_def demo_heap_def demo_pages_def used_of_def two_bits_free)
  ultimately show ?thesis unfolding represents_def by (intro exI [of _ Map.empty]) (simp add: packed_def)
qed

lemma demo_page: "\<exists>a s. palloc_get_multiple 0 1 demo_pages = Some (a, s) \<and> a \<noteq> 0"
proof (rule palloc_get_cases [OF demo_pages_wf, of 1 False 0])
  assume "\<And>i. i + 1 \<le> bit_cnt (used_map (the_pool False demo_pages)) \<Longrightarrow> {i..<i + 1} \<inter> used_units (used_map (the_pool False demo_pages)) \<noteq> {}"
  from this [of 0] show ?thesis by (simp add: the_pool_def demo_pages_def two_bits_free) (simp add: two_bits_def)
next
  fix i b s assume "palloc_get_multiple 0 1 demo_pages = Some (base (the_pool False demo_pages) + PGSIZE * i, s)"
  then show ?thesis by (auto simp: the_pool_def demo_pages_def)
qed simp_all

lemma demo_malloc:
  assumes "n = 4000 \<or> n = 4294967290"
  shows "malloc n demo_heap \<noteq> Some (0, demo_heap)"
proof -
  have "find_desc n 0 (descs demo_heap) = 7" using assms by (auto simp: demo_heap_def bsz_def upt_conv_Cons)
  moreover have "DIV_ROUND_UP (wrap32 (n + ARENA_SIZE)) PGSIZE = 1"
    using assms by (auto simp: DIV_ROUND_UP_def ARENA_SIZE_def PGSIZE_def SIZE_MAX_def wrap32_def)
  moreover have "length (descs demo_heap) = 7" "store demo_heap = demo_pages" by (simp_all add: demo_heap_def)
  ultimately show ?thesis using demo_page assms by (auto simp: malloc_def get_pages_def)
qed

subsection \<open>The properties\<close>

text \<open>
  C19. \<^verbatim>\<open>malloc\<close> refines the map of the allocated blocks: a request that leaves room for the header never panics, and either returns a null pointer
  and changes nothing, or returns a new block of at least the requested size that overlaps none of the other blocks, whose bytes it does not change.
\<close>

theorem malloc_new_block:
  assumes "represents U h \<sigma>" "0 < n" "n + 12 < 4294967296"
  shows "malloc n h = Some (0, h) \<or> (\<exists>p h' xs. malloc n h = Some (p, h') \<and> p \<noteq> 0 \<and> \<sigma> p = None \<and> n \<le> length xs \<and> represents U h' (\<sigma>(p \<mapsto> xs))
    \<and> (\<forall>q ys. \<sigma> q = Some ys \<longrightarrow> p + length xs \<le> q \<or> q + length ys \<le> p))"
  using assms by (intro kheap.alloc_apart) simp_all

theorem malloc_new_block_witness:
  "\<exists>p h' xs. malloc 4000 demo_heap = Some (p, h') \<and> p \<noteq> 0 \<and> 4000 \<le> length xs \<and> represents {} h' [p \<mapsto> xs]"
  using malloc_new_block [OF demo_heap_represents, of 4000] demo_malloc [of 4000] by auto

text \<open>
  C20. \<^verbatim>\<open>free\<close> never panics on a block that \<^verbatim>\<open>malloc\<close> returned, and keeps the other blocks; when all blocks have been freed, in whatever
  order, the pages of the kernel pool in use are those that were never the allocator's: no arena is lost.
\<close>

theorem free_returns_pages:
  assumes "represents U h \<sigma>" "distinct ps" "set ps = dom \<sigma>"
  shows "\<exists>h'. foldM free ps h = Some h' \<and> represents U h' Map.empty \<and> kernel_used (store h') = U"
proof -
  have "\<sigma> |` (- set ps) = Map.empty" using assms(3) by (auto simp: restrict_map_def fun_eq_iff)
  then show ?thesis using kheap.release_all [OF assms(1,2)] assms(3) represents_none by fastforce
qed

theorem free_returns_pages_witness:
  "\<exists>p h1 h2. malloc 4000 demo_heap = Some (p, h1) \<and> p \<noteq> 0 \<and> foldM free [p] h1 = Some h2 \<and> kernel_used (store h2) = {}"
proof -
  obtain p h1 xs where m: "malloc 4000 demo_heap = Some (p, h1)" "p \<noteq> 0" "represents {} h1 [p \<mapsto> xs]"
    using malloc_represents [OF demo_heap_represents, of 4000] demo_malloc [of 4000] by auto
  then show ?thesis using free_returns_pages [OF m(3), of "[p]"] by auto
qed

text \<open>
  C33. \<^verbatim>\<open>realloc\<close> of an allocated block either returns a null pointer and changes nothing, or moves the block: the bytes up to the smaller
  of the two sizes are the old ones, the old block is free and all other blocks are as they were.
\<close>

theorem realloc_keeps_bytes:
  assumes "represents U h \<sigma>" "\<sigma> p = Some xs" "0 < n" "n + 12 < 4294967296"
  shows "realloc p n h = Some (0, h) \<or> (\<exists>q h' ys. realloc p n h = Some (q, h') \<and> q \<noteq> 0 \<and> \<sigma> q = None \<and> n \<le> length ys
    \<and> take (min n (length xs)) ys = take (min n (length xs)) xs \<and> represents U h' (\<sigma>(p := None, q \<mapsto> ys)))"
  using assms by (rule realloc_represents)

theorem realloc_keeps_bytes_witness:
  "\<exists>p h1. malloc 4000 demo_heap = Some (p, h1) \<and> p \<noteq> 0
     \<and> (realloc p 20 h1 = Some (0, h1) \<or> (\<exists>q h' ys. realloc p 20 h1 = Some (q, h') \<and> q \<noteq> 0 \<and> represents {} h' [q \<mapsto> ys]))"
proof -
  obtain p h1 xs where m: "malloc 4000 demo_heap = Some (p, h1)" "p \<noteq> 0" "represents {} h1 [p \<mapsto> xs]"
    using malloc_represents [OF demo_heap_represents, of 4000] demo_malloc [of 4000] by auto
  moreover have "[p \<mapsto> xs](p := None, q \<mapsto> ys) = [q \<mapsto> ys]" for q and ys :: "u8 list" by auto
  ultimately show ?thesis using realloc_keeps_bytes [OF m(3), of p xs 20] by fastforce
qed

text \<open>
  C34. The sum of the size and the header is not checked for wrap-around: a request of more than \<open>2 ^ 32 - 12\<close> bytes is given a block of 4084 bytes
  whenever the kernel pool has a free page, and a null pointer only when it has none. So is a product in \<^verbatim>\<open>calloc\<close> that wraps to a number not less than its factors: if
  \<^verbatim>\<open>malloc\<close> of the product modulo \<open>2 ^ 32\<close> succeeds, then \<^verbatim>\<open>calloc\<close> returns this block, which is shorter than the array that was asked for.
\<close>

theorem huge_request_short_block:
  assumes "represents U h \<sigma>"
  shows "(4294967284 < n \<longrightarrow> n < 4294967296 \<longrightarrow>
      (if pool_pages (kernel_pool (store h)) \<subseteq> used_of (kernel_pool (store h)) then malloc n h = Some (0, h)
       else \<exists>p h' xs. malloc n h = Some (p, h') \<and> p \<noteq> 0 \<and> length xs = 4084 \<and> represents U h' (\<sigma>(p \<mapsto> xs))))
    \<and> (4294967296 \<le> a * b \<longrightarrow> m = wrap32 (a * b) \<longrightarrow> a \<le> m \<longrightarrow> b \<le> m \<longrightarrow> 0 < m \<longrightarrow> m + 12 < 4294967296 \<longrightarrow> malloc m h = Some (p, h1) \<longrightarrow> p \<noteq> 0 \<longrightarrow>
      (\<exists>h' xs. calloc a b h = Some (p, h') \<and> length xs < a * b \<and> take m xs = replicate m 0 \<and> represents U h' (\<sigma>(p \<mapsto> xs))))"
  using malloc_wraps [OF assms] calloc_wraps [OF assms] by blast

theorem huge_request_short_block_witness:
  "\<exists>p h' xs. malloc 4294967290 demo_heap = Some (p, h') \<and> p \<noteq> 0 \<and> length xs = 4084 \<and> represents {} h' [p \<mapsto> xs]"
  using huge_request_short_block [OF demo_heap_represents, of 4294967290 1 1 1 1 demo_heap] demo_malloc [of 4294967290] by (simp split: if_splits)

end
