(* ===== verification/VMem.thy ===== *)
theory VMem
  imports Klist Pagedir
begin

unbundle bit_operations_syntax

text \<open>
  The virtual memory of \<^verbatim>\<open>src/vm_PintOS\<close>: the frames of \<^verbatim>\<open>vm/frame.c\<close>, the supplemental page table of \<^verbatim>\<open>vm/page.c\<close>, the swap slots
  of \<^verbatim>\<open>vm/swap.c\<close> and the page fault handler of \<^verbatim>\<open>userprog/exception.c\<close>, as one thread runs them. The table of the thread is a list of
  \<open>Klist\<close> at \<open>sup_list\<close>; a \<^verbatim>\<open>struct sup_page\<close> has its list element first, so its address is that of the element, and \<open>spages\<close> is what the
  memory at an address holds, read as such a structure. \<open>stk\<close> is the address of the local variable into which the code copies the \<^verbatim>\<open>struct list\<close>.
  The two locks are held or not by this thread: a second \<^verbatim>\<open>lock_acquire\<close> is a failed assertion. The addresses in the table and of the frames are
  addresses of the kernel: \<^verbatim>\<open>load_segment\<close> enters the frame of a page. \<^verbatim>\<open>malloc\<close> is an argument: the address of a new structure (0 for a null pointer).

  The lemmas show how the searches of the table end: the loop compares with the end of the copy, which no element points to. They show
  that a swap slot keeps a page, that the frames are the pages handed out, and what a lack of memory and a page fault lead to.
\<close>

datatype location = IN_MEMORY | IN_SWAP | IN_DISK | ALL_ZERO

record sup_page =
  swap_index :: int
  v_addr :: nat
  spage_file :: nat
  spage_offset :: nat
  read_bytes :: nat
  zero_bytes :: nat
  writable :: bool
  page_location :: location

record frame =
  frame_page :: nat
  frame_thread :: nat

record vm =
  mm :: mmu
  cur_thread :: nat
  cur_pagedir :: nat
  elems :: links
  sup_list :: addr
  spages :: "addr \<Rightarrow> sup_page"
  fifo_list :: "frame list"
  frame_lock :: bool
  filesys_lock :: bool
  swap_lock :: bool
  is_initialized :: bool
  swap_bitmap :: "bitmap option"
  block_device :: "u8 list list option"

subsection \<open>The supplemental page table\<close>

definition copy_list :: "links \<Rightarrow> addr \<Rightarrow> addr \<Rightarrow> links" where
  "copy_list h l c = h\<lparr>le_prev := (le_prev h)(c := le_prev h l, tail_of c := le_prev h (tail_of l)),
     le_next := (le_next h)(c := le_next h l, tail_of c := le_next h (tail_of l))\<rparr>"

partial_function (option) find_spage :: "links \<Rightarrow> (addr \<Rightarrow> sup_page) \<Rightarrow> addr \<Rightarrow> addr \<Rightarrow> nat \<Rightarrow> addr option" where
  "find_spage h sp e stop a =
     (if e \<noteq> stop
      then if v_addr (sp e) = a then Some e
        else do { e' \<leftarrow> list_next h e; find_spage h sp e' stop a }
      else Some NULL)"

definition get_sup_page :: "addr \<Rightarrow> nat \<Rightarrow> vm \<Rightarrow> addr option" where
  "get_sup_page stk a s = do {
     let h = copy_list (elems s) (sup_list s) stk;
     e \<leftarrow> list_begin h stk;
     stop \<leftarrow> list_end stk;
     find_spage h (spages s) e stop a }"

definition add_sup_page :: "addr \<Rightarrow> vm \<Rightarrow> vm option" where
  "add_sup_page p s = do { h \<leftarrow> list_push_back (elems s) (sup_list s) p; Some (s\<lparr>elems := h\<rparr>) }"

definition create_sup_page :: "addr \<Rightarrow> nat \<Rightarrow> nat \<Rightarrow> nat \<Rightarrow> nat \<Rightarrow> nat \<Rightarrow> bool \<Rightarrow> vm \<Rightarrow> (addr \<times> vm) option" where
  "create_sup_page new f ofs a r_bytes z_bytes write s = do {
     ASSERT (new \<noteq> NULL);
     let sp = \<lparr>swap_index = -1, v_addr = a, spage_file = f, spage_offset = ofs, read_bytes = r_bytes, zero_bytes = z_bytes,
               writable = write, page_location = IN_MEMORY\<rparr>;
     s \<leftarrow> add_sup_page new (s\<lparr>spages := (spages s)(new := sp)\<rparr>);
     Some (new, s) }"

text \<open>
  The deletion runs on a copy of the list, too; it stops at the first element with the address. The step of the loop after the removal reads
  links of the freed structure and goes nowhere with them.
\<close>

definition delete_sup_page :: "addr \<Rightarrow> addr \<Rightarrow> vm \<Rightarrow> vm option" where
  "delete_sup_page stk p s = do {
     let h = copy_list (elems s) (sup_list s) stk;
     e \<leftarrow> list_begin h stk;
     stop \<leftarrow> list_end stk;
     e \<leftarrow> find_spage h (spages s) e stop (v_addr (spages s p));
     if e = NULL then Some s
     else do { (_, h) \<leftarrow> list_remove h e; Some (s\<lparr>elems := h\<rparr>) } }"

subsection \<open>Swap\<close>

definition NUM_SECTORS_PER_PAGE :: nat where
  "NUM_SECTORS_PER_PAGE = PGSIZE div 512"

definition swap_init :: "bool \<Rightarrow> u32 list option \<Rightarrow> vm \<Rightarrow> vm option" where
  "swap_init malloc_b malloc_bits s = do {
     d \<leftarrow> block_device s;
     b \<leftarrow> bitmap_create malloc_b malloc_bits (length d div NUM_SECTORS_PER_PAGE);
     ASSERT (b \<noteq> None);
     Some (s\<lparr>swap_bitmap := b, swap_lock := False\<rparr>) }"

definition change_page_location :: "addr \<Rightarrow> nat \<Rightarrow> location \<Rightarrow> int \<Rightarrow> vm \<Rightarrow> vm option" where
  "change_page_location stk a t i s = do {
     e \<leftarrow> get_sup_page stk a s;
     ASSERT (e \<noteq> NULL);
     Some (s\<lparr>spages := (spages s)(e := (spages s e)\<lparr>page_location := t, swap_index := i\<rparr>)\<rparr>) }"

definition read_sector :: "nat \<Rightarrow> nat \<Rightarrow> vm \<Rightarrow> vm option" where
  "read_sector n a s = do {
     d \<leftarrow> block_device s;
     ASSERT (n < length d);
     Some (s\<lparr>mm := put_ram (\<lambda>x. if a \<le> x \<and> x < a + 512 then d ! n ! (x - a) else mem (mm s) x) (mm s)\<rparr>) }"

definition write_sector :: "nat \<Rightarrow> nat \<Rightarrow> vm \<Rightarrow> vm option" where
  "write_sector n a s = do {
     d \<leftarrow> block_device s;
     ASSERT (n < length d);
     Some (s\<lparr>block_device := Some (d[n := map (mem (mm s)) [a..<a + 512]])\<rparr>) }"

definition read_slot :: "nat \<Rightarrow> nat \<Rightarrow> vm \<Rightarrow> vm option" where
  "read_slot sector_base a s = for_range 0 NUM_SECTORS_PER_PAGE (\<lambda>i. read_sector (wrap32 (sector_base + i)) (512 * i + a)) s"

definition write_slot :: "nat \<Rightarrow> nat \<Rightarrow> vm \<Rightarrow> vm option" where
  "write_slot sector_base a s = for_range 0 NUM_SECTORS_PER_PAGE (\<lambda>i. write_sector (wrap32 (sector_base + i)) (512 * i + a)) s"

definition load_swap :: "addr \<Rightarrow> nat \<Rightarrow> int \<Rightarrow> vm \<Rightarrow> vm option" where
  "load_swap stk uaddr i s = do {
     ASSERT (\<not> swap_lock s);
     let s = s\<lparr>swap_lock := True\<rparr>;
     let idx = nat (i mod 4294967296);
     b \<leftarrow> swap_bitmap s;
     v \<leftarrow> bitmap_test b idx;
     ASSERT v;
     s \<leftarrow> read_slot (wrap32 (idx * NUM_SECTORS_PER_PAGE)) uaddr s;
     b \<leftarrow> bitmap_set b idx False;
     s \<leftarrow> change_page_location stk uaddr IN_MEMORY (-1) (s\<lparr>swap_bitmap := Some b\<rparr>);
     ASSERT (swap_lock s);
     Some (s\<lparr>swap_lock := False\<rparr>) }"

text \<open>\<^verbatim>\<open>store_swap\<close> ends with a second \<^verbatim>\<open>lock_acquire (&swap_lock)\<close>. A \<^verbatim>\<open>size_t\<close> result above \<open>2 ^ 31\<close> is a negative \<^verbatim>\<open>int\<close>.\<close>

definition store_swap :: "addr \<Rightarrow> bool \<Rightarrow> u32 list option \<Rightarrow> nat \<Rightarrow> vm \<Rightarrow> (int \<times> vm) option" where
  "store_swap stk malloc_b malloc_bits uaddr s = do {
     s \<leftarrow> (if \<not> is_initialized s then do { s \<leftarrow> swap_init malloc_b malloc_bits s; Some (s\<lparr>is_initialized := True\<rparr>) } else Some s);
     ASSERT (\<not> swap_lock s);
     let s = s\<lparr>swap_lock := True\<rparr>;
     b \<leftarrow> swap_bitmap s;
     (idx, b) \<leftarrow> bitmap_scan_and_flip b 0 1 False;
     let i = sint (of_nat idx :: u32);
     s \<leftarrow> write_slot (wrap32 (idx * NUM_SECTORS_PER_PAGE)) uaddr (s\<lparr>swap_bitmap := Some b\<rparr>);
     s \<leftarrow> change_page_location stk uaddr IN_SWAP i s;
     ASSERT (\<not> swap_lock s);
     Some (i, s\<lparr>swap_lock := True\<rparr>) }"

subsection \<open>Frames\<close>

definition vm_palloc :: "u32 \<Rightarrow> vm \<Rightarrow> (nat \<times> vm) option" where
  "vm_palloc flags s = do { (p, ps) \<leftarrow> palloc_get_page flags (pages (mm s)); Some (p, s\<lparr>mm := (mm s)\<lparr>pages := ps\<rparr>\<rparr>) }"

definition vm_pfree :: "nat \<Rightarrow> vm \<Rightarrow> vm option" where
  "vm_pfree p s = do { ps \<leftarrow> palloc_free_page p (pages (mm s)); Some (s\<lparr>mm := (mm s)\<lparr>pages := ps\<rparr>\<rparr>) }"

definition evict_frame :: "addr \<Rightarrow> bool \<Rightarrow> u32 list option \<Rightarrow> vm \<Rightarrow> vm option" where
  "evict_frame stk malloc_b malloc_bits s =
     (case fifo_list s of
        [] \<Rightarrow> None
      | f # fs \<Rightarrow> do {
          (_, s) \<leftarrow> store_swap stk malloc_b malloc_bits (frame_page f) (s\<lparr>fifo_list := fs\<rparr>);
          vm_pfree (frame_page f) s })"

text \<open>\<^verbatim>\<open>get_frame\<close> does not check the result of \<^verbatim>\<open>malloc\<close> for the \<^verbatim>\<open>struct frame\<close>: \<open>new\<close> says whether it is not null.\<close>

definition get_frame :: "addr \<Rightarrow> bool \<Rightarrow> bool \<Rightarrow> u32 list option \<Rightarrow> u32 \<Rightarrow> vm \<Rightarrow> (nat \<times> vm) option" where
  "get_frame stk new malloc_b malloc_bits flags s = do {
     ASSERT (\<not> frame_lock s);
     (a, s) \<leftarrow> vm_palloc flags (s\<lparr>frame_lock := True\<rparr>);
     (a, s) \<leftarrow> (if a = 0 then do { s \<leftarrow> evict_frame stk malloc_b malloc_bits s; vm_palloc flags s } else Some (a, s));
     s \<leftarrow> (if a \<noteq> 0
           then do { ASSERT new; Some (s\<lparr>fifo_list := fifo_list s @ [\<lparr>frame_page = a, frame_thread = cur_thread s\<rparr>]\<rparr>) }
           else Some s);
     ASSERT (frame_lock s);
     Some (a, s\<lparr>frame_lock := False\<rparr>) }"

fun remove_frame :: "nat \<Rightarrow> frame list \<Rightarrow> frame list" where
  "remove_frame a [] = []"
| "remove_frame a (f # fs) = (if frame_page f = a then fs else f # remove_frame a fs)"

definition free_frame :: "nat \<Rightarrow> vm \<Rightarrow> vm option" where
  "free_frame a s = vm_pfree a (s\<lparr>fifo_list := remove_frame a (fifo_list s)\<rparr>)"

subsection \<open>Page faults\<close>

text \<open>How the handler ends: the process ends with the status -1, the thread ends, or the access is tried again.\<close>

datatype fault_end = Exit_minus_1 | Thread_exit | Retry vm

datatype segment = SEL_UCSEG | SEL_KCSEG | Other_segment

definition kill :: "segment \<Rightarrow> fault_end option" where
  "kill cs = (case cs of SEL_UCSEG \<Rightarrow> Some Thread_exit | SEL_KCSEG \<Rightarrow> None | Other_segment \<Rightarrow> Some Thread_exit)"

definition PF_P :: u32 where
  "PF_P = 1"

definition PF_W :: u32 where
  "PF_W = 2"

definition PF_U :: u32 where
  "PF_U = 4"

definition acquire_both :: "vm \<Rightarrow> vm option" where
  "acquire_both s = do {
     ASSERT (\<not> filesys_lock s);
     ASSERT (\<not> frame_lock s);
     Some (s\<lparr>filesys_lock := True, frame_lock := True\<rparr>) }"

definition release_both :: "vm \<Rightarrow> vm option" where
  "release_both s = do {
     ASSERT (frame_lock s);
     ASSERT (filesys_lock s);
     Some (s\<lparr>filesys_lock := False, frame_lock := False\<rparr>) }"

definition map_frame :: "addr \<Rightarrow> nat \<Rightarrow> vm \<Rightarrow> vm option" where
  "map_frame e f s = do {
     (ok, m) \<leftarrow> pagedir_set_page (cur_pagedir s) (v_addr (spages s e)) f (writable (spages s e)) (mm s);
     let s = s\<lparr>mm := m\<rparr>;
     if \<not> ok then free_frame f s else Some s }"

text \<open>
  The handler. \<open>read_file e f\<close> stands for \<^verbatim>\<open>file_seek\<close> and \<^verbatim>\<open>file_read\<close> of the page \<open>e\<close> into the frame \<open>f\<close>: whether all bytes were read, and the state.
\<close>

definition page_fault :: "addr \<Rightarrow> bool \<Rightarrow> bool \<Rightarrow> u32 list option \<Rightarrow> (addr \<Rightarrow> nat \<Rightarrow> vm \<Rightarrow> (bool \<times> vm) option)
    \<Rightarrow> u32 \<Rightarrow> segment \<Rightarrow> nat \<Rightarrow> vm \<Rightarrow> fault_end option" where
  "page_fault stk new malloc_b malloc_bits read_file error_code cs fault_addr s =
     (let not_present = (error_code AND PF_P = 0);
          write = (error_code AND PF_W \<noteq> 0);
          user = (error_code AND PF_U \<noteq> 0);
          upage = pg_round_down fault_addr
      in if user \<or> \<not> is_user_vaddr fault_addr \<or> write then Some Exit_minus_1
      else if upage \<ge> PHYS_BASE then Some Exit_minus_1
      else do {
        e \<leftarrow> get_sup_page stk upage s;
        if not_present \<and> e \<noteq> NULL \<and> is_user_vaddr fault_addr
        then (case page_location (spages s e) of
            IN_SWAP \<Rightarrow> do {
              (f, s) \<leftarrow> get_frame stk new malloc_b malloc_bits PAL_USER s;
              s \<leftarrow> acquire_both s;
              s \<leftarrow> map_frame e f s;
              s \<leftarrow> release_both s;
              s \<leftarrow> load_swap stk (v_addr (spages s e)) (swap_index (spages s e)) s;
              Some (Retry s) }
          | IN_DISK \<Rightarrow> do {
              s \<leftarrow> acquire_both s;
              (f, s) \<leftarrow> get_frame stk new malloc_b malloc_bits PAL_USER s;
              (ok, s) \<leftarrow> read_file e f s;
              s \<leftarrow> (if \<not> ok then free_frame f s else Some s);
              s \<leftarrow> release_both s;
              s \<leftarrow> map_frame e f s;
              Some (Retry s) }
          | ALL_ZERO \<Rightarrow> do {
              (f, s) \<leftarrow> get_frame stk new malloc_b malloc_bits PAL_USER s;
              Some (Retry (s\<lparr>spages := (spages s)(e := (spages s e)\<lparr>page_location := IN_MEMORY\<rparr>)\<rparr>)) }
          | IN_MEMORY \<Rightarrow> Some (Retry s))
        else kill cs })"

subsection \<open>Searching the table\<close>

definition stk_ok :: "addr \<Rightarrow> vm \<Rightarrow> addr list \<Rightarrow> bool" where
  "stk_ok stk s xs \<longleftrightarrow> dlist (elems s) (sup_list s) xs \<and> stk \<noteq> NULL \<and> {stk, tail_of stk} \<inter> set (list_cells (sup_list s) xs) = {}"

lemma copy_list_dlist:
  assumes "stk_ok stk s xs"
  shows "dlist (copy_list (elems s) (sup_list s) stk) (sup_list s) xs"
  using assms unfolding stk_ok_def
  by (elim conjE, rule_tac S = "{stk, tail_of stk}" in dlist_frame) (auto simp: same_outside_def copy_list_def)

text \<open>The loop never meets the end of the copy. It stops at an element with the address, the tail of the list itself included, or panics at the tail.\<close>

lemma find_spage_dlist:
  assumes "dlist h l (us @ xs)" "stop \<notin> set (list_cells l (us @ xs))"
  shows "find_spage h sp (hd (xs @ [tail_of l])) stop a = find (\<lambda>e. v_addr (sp e) = a) (xs @ [tail_of l])"
  using assms
proof (induction xs arbitrary: us)
  case Nil
  then have "tail_of l \<noteq> stop" by (auto simp: list_cells_def)
  moreover have "list_next h (tail_of l) = None"
    using Nil.prems(1) by (simp add: list_next_def dlist_def dcells_def list_cells_def is_head_def is_interior_def)
  ultimately show ?case by (subst find_spage.simps) simp
next
  case (Cons x xs)
  then have "x \<noteq> stop" by (auto simp: list_cells_def)
  moreover have "list_next h x = Some (hd (xs @ [tail_of l]))" using list_next_dlist Cons.prems(1) by blast
  moreover have "find_spage h sp (hd (xs @ [tail_of l])) stop a = find (\<lambda>e. v_addr (sp e) = a) (xs @ [tail_of l])"
    using Cons.prems by (intro Cons.IH [of "us @ [x]"]) simp_all
  ultimately show ?case by (subst find_spage.simps) simp
qed

lemma list_begin_copy:
  assumes "stk_ok stk s xs"
  shows "list_begin (copy_list (elems s) (sup_list s) stk) stk = Some (hd (xs @ [tail_of (sup_list s)]))"
proof -
  have "le_next (elems s) (sup_list s) = hd (xs @ [tail_of (sup_list s)])"
    using assms list_begin_dlist [of "elems s" "sup_list s" xs] dlist_nonnull [of "elems s" "sup_list s" xs] by (simp add: stk_ok_def list_begin_def)
  then show ?thesis using assms by (simp add: stk_ok_def list_begin_def copy_list_def tail_of_def)
qed

lemma get_sup_page_eq:
  assumes "stk_ok stk s xs"
  shows "get_sup_page stk a s = find (\<lambda>e. v_addr (spages s e) = a) (xs @ [tail_of (sup_list s)])"
proof -
  have "dlist (copy_list (elems s) (sup_list s) stk) (sup_list s) ([] @ xs)" "tail_of stk \<notin> set (list_cells (sup_list s) ([] @ xs))"
    using copy_list_dlist [OF assms] assms by (simp_all add: stk_ok_def)
  then have "find_spage (copy_list (elems s) (sup_list s) stk) (spages s) (hd (xs @ [tail_of (sup_list s)])) (tail_of stk) a
      = find (\<lambda>e. v_addr (spages s e) = a) (xs @ [tail_of (sup_list s)])"
    by (rule find_spage_dlist)
  then show ?thesis using assms list_begin_copy [OF assms] by (simp add: get_sup_page_def list_end_def stk_ok_def)
qed

lemma create_sup_page_adds:
  assumes "dlist (elems s) (sup_list s) xs" "new \<notin> set (list_cells (sup_list s) xs)" "new \<noteq> NULL"
  obtains s' where "create_sup_page new f ofs a r z w s = Some (new, s')" "dlist (elems s') (sup_list s') (xs @ [new])" "sup_list s' = sup_list s"
    "\<And>e. e \<noteq> new \<Longrightarrow> spages s' e = spages s e" "v_addr (spages s' new) = a" "page_location (spages s' new) = IN_MEMORY"
proof -
  obtain h where "list_push_back (elems s) (sup_list s) new = Some h" "dlist h (sup_list s) (xs @ [new])"
    using list_push_back_dlist [OF assms] by blast
  then show thesis using that assms(3) by (simp add: create_sup_page_def add_sup_page_def Let_def)
qed

lemma delete_sup_page_removes:
  assumes ok: "stk_ok stk s (us @ e # vs)" and p: "v_addr (spages s p) = v_addr (spages s e)" and first: "\<forall>u\<in>set us. v_addr (spages s u) \<noteq> v_addr (spages s e)"
  obtains s' where "delete_sup_page stk p s = Some s'" "dlist (elems s') (sup_list s') (us @ vs)" "sup_list s' = sup_list s" "spages s' = spages s"
proof -
  let ?h = "copy_list (elems s) (sup_list s) stk"
  have nz: "e \<noteq> NULL" using dlist_cells [of "elems s" "sup_list s" "us @ e # vs"] ok by (auto simp: stk_ok_def list_cells_def)
  have f: "find (\<lambda>x. v_addr (spages s x) = v_addr (spages s e)) (us @ ws) = find (\<lambda>x. v_addr (spages s x) = v_addr (spages s e)) ws" for ws
    using first by (induction us) auto
  have "get_sup_page stk (v_addr (spages s p)) s = Some e" using get_sup_page_eq [OF ok] f [of "e # vs @ [tail_of (sup_list s)]"] by (simp add: p)
  moreover obtain h where "list_remove ?h e = Some (hd (vs @ [tail_of (sup_list s)]), h)" "dlist h (sup_list s) (us @ vs)"
    using list_remove_dlist [OF copy_list_dlist [OF ok]] by blast
  ultimately show thesis using that nz
    by (simp add: delete_sup_page_def get_sup_page_def Let_def bind_Some_iff) (force simp: bind_Some_iff)
qed

subsection \<open>Slots\<close>

lemma read_slot_eq:
  assumes d: "block_device s = Some d" and n: "sector_base + 8 \<le> length d" "sector_base + 8 \<le> 4294967296"
  shows "read_slot sector_base a s = Some (s\<lparr>mm := put_ram (\<lambda>x. if a \<le> x \<and> x < a + 4096 then d ! (sector_base + (x - a) div 512) ! ((x - a) mod 512) else mem (mm s) x) (mm s)\<rparr>)"
proof -
  define F where "F k = (\<lambda>x. if a \<le> x \<and> x < a + 512 * k then d ! (sector_base + (x - a) div 512) ! ((x - a) mod 512) else mem (mm s) x)" for k
  have "for_range 0 k (\<lambda>i. read_sector (wrap32 (sector_base + i)) (512 * i + a)) s = Some (s\<lparr>mm := put_ram (F k) (mm s)\<rparr>)" if "k \<le> 8" for k
    using that
  proof (induction k)
    case 0
    have "F 0 = mem (mm s)" by (rule ext) (auto simp: F_def)
    then show ?case by (simp add: put_ram_def)
  next
    case (Suc k)
    have w: "wrap32 (sector_base + k) = sector_base + k" "sector_base + k < length d" using n Suc.prems by (simp_all add: wrap32_def)
    have "(if 512 * k + a \<le> x \<and> x < 512 * k + a + 512 then d ! (sector_base + k) ! (x - (512 * k + a)) else F k x) = F (Suc k) x" for x
    proof (cases "512 * k + a \<le> x \<and> x < 512 * k + a + 512")
      case True
      then obtain r where "x = a + 512 * k + r" "r < 512" by (metis add.commute le_add_diff_inverse less_diff_conv2 nat_add_left_cancel_less)
      then show ?thesis by (simp add: F_def)
    qed (auto simp: F_def)
    then have "(\<lambda>x. if 512 * k + a \<le> x \<and> x < 512 * k + a + 512 then d ! (sector_base + k) ! (x - (512 * k + a)) else F k x) = F (Suc k)" by blast
    then show ?case using Suc w d by (simp add: for_range_Suc read_sector_def put_ram_def cong: if_cong)
  qed
  from this [of 8] show ?thesis by (simp add: read_slot_def NUM_SECTORS_PER_PAGE_def PGSIZE_def F_def)
qed

lemma write_slot_eq:
  assumes d: "block_device s = Some d" and n: "sector_base + 8 \<le> length d" "sector_base + 8 \<le> 4294967296"
  shows "\<exists>d'. write_slot sector_base a s = Some (s\<lparr>block_device := Some d'\<rparr>) \<and> length d' = length d
    \<and> (\<forall>j. d' ! j = (if sector_base \<le> j \<and> j < sector_base + 8 then map (mem (mm s)) [a + 512 * (j - sector_base)..<a + 512 * (j - sector_base) + 512] else d ! j))"
proof -
  have "\<exists>d'. for_range 0 k (\<lambda>i. write_sector (wrap32 (sector_base + i)) (512 * i + a)) s = Some (s\<lparr>block_device := Some d'\<rparr>) \<and> length d' = length d
    \<and> (\<forall>j. d' ! j = (if sector_base \<le> j \<and> j < sector_base + k then map (mem (mm s)) [a + 512 * (j - sector_base)..<a + 512 * (j - sector_base) + 512] else d ! j))" if "k \<le> 8" for k
    using that
  proof (induction k)
    case 0
    then show ?case using d by (auto intro!: exI [of _ d])
  next
    case (Suc k)
    then obtain d' where d': "for_range 0 k (\<lambda>i. write_sector (wrap32 (sector_base + i)) (512 * i + a)) s = Some (s\<lparr>block_device := Some d'\<rparr>)" "length d' = length d"
      "\<And>j. d' ! j = (if sector_base \<le> j \<and> j < sector_base + k then map (mem (mm s)) [a + 512 * (j - sector_base)..<a + 512 * (j - sector_base) + 512] else d ! j)"
      by auto
    have w: "wrap32 (sector_base + k) = sector_base + k" "sector_base + k < length d'" using n Suc.prems d'(2) by (simp_all add: wrap32_def)
    let ?d = "d'[sector_base + k := map (mem (mm s)) [512 * k + a..<512 * k + a + 512]]"
    have "for_range 0 (Suc k) (\<lambda>i. write_sector (wrap32 (sector_base + i)) (512 * i + a)) s = Some (s\<lparr>block_device := Some ?d\<rparr>)"
      using d'(1) w by (simp add: for_range_Suc write_sector_def)
    moreover have "?d ! j = (if sector_base \<le> j \<and> j < sector_base + Suc k then map (mem (mm s)) [a + 512 * (j - sector_base)..<a + 512 * (j - sector_base) + 512] else d ! j)" for j
      using w(2) d'(3) [of j] by (cases "j = sector_base + k") (auto simp: add.commute)
    ultimately show ?case using d'(2) by (intro exI [of _ ?d]) simp
  qed
  from this [of 8] show ?thesis by (simp add: write_slot_def NUM_SECTORS_PER_PAGE_def PGSIZE_def)
qed


lemma write_read_slot:
  assumes d: "block_device s = Some d" and n: "8 * i + 8 \<le> length d" "8 * i + 8 \<le> 4294967296"
  obtains s1 d' where "write_slot (8 * i) a s = Some s1" "s1 = s\<lparr>block_device := Some d'\<rparr>" "length d' = length d" "\<And>j. j div 8 \<noteq> i \<Longrightarrow> d' ! j = d ! j"
    "\<And>m. read_slot (8 * i) b (s1\<lparr>mm := m\<rparr>) = Some (s1\<lparr>mm := put_ram (\<lambda>x. if b \<le> x \<and> x < b + 4096 then mem (mm s) (a + (x - b)) else mem m x) m\<rparr>)"
proof -
  obtain d' where w: "write_slot (8 * i) a s = Some (s\<lparr>block_device := Some d'\<rparr>)" "length d' = length d"
    and nth: "\<And>j. d' ! j = (if 8 * i \<le> j \<and> j < 8 * i + 8 then map (mem (mm s)) [a + 512 * (j - 8 * i)..<a + 512 * (j - 8 * i) + 512] else d ! j)"
    using write_slot_eq [OF d n, of a] by auto
  have "d' ! (8 * i + y div 512) ! (y mod 512) = mem (mm s) (a + y)" if "y < 4096" for y
  proof -
    have "d' ! (8 * i + y div 512) = map (mem (mm s)) [a + 512 * (y div 512)..<a + 512 * (y div 512) + 512]" using that by (subst nth) auto
    moreover have "map (mem (mm s)) [a + 512 * (y div 512)..<a + 512 * (y div 512) + 512] ! (y mod 512) = mem (mm s) (a + 512 * (y div 512) + y mod 512)"
      by (subst nth_map) simp_all
    ultimately show ?thesis by (simp add: add.assoc)
  qed
  then have byte: "(if b \<le> x \<and> x < b + 4096 then d' ! (8 * i + (x - b) div 512) ! ((x - b) mod 512) else mem m x) =
      (if b \<le> x \<and> x < b + 4096 then mem (mm s) (a + (x - b)) else mem m x)" for x m
    by auto
  have "read_slot (8 * i) b (s\<lparr>block_device := Some d', mm := m\<rparr>) =
      Some (s\<lparr>block_device := Some d', mm := put_ram (\<lambda>x. if b \<le> x \<and> x < b + 4096 then mem (mm s) (a + (x - b)) else mem m x) m\<rparr>)" for m
    using read_slot_eq [of "s\<lparr>block_device := Some d', mm := m\<rparr>" d' "8 * i" b] n w(2) by (simp add: byte cong: if_cong)
  moreover have "d' ! j = d ! j" if "j div 8 \<noteq> i" for j
  proof -
    have "\<not> (8 * i \<le> j \<and> j < 8 * i + 8)" using that by auto
    then show ?thesis using nth [of j] by (simp only: if_False)
  qed
  ultimately show thesis using that [OF w(1) refl w(2)] by simp
qed

subsection \<open>Frames\<close>

lemma write_slot_swap_lock: "write_slot n a s = Some s' \<Longrightarrow> swap_lock s' = swap_lock s"
  unfolding write_slot_def for_range_def by (rule foldM_invariant [where P = "\<lambda>t. swap_lock t = swap_lock s"]) (auto simp: write_sector_def bind_Some_iff)

lemma change_page_location_swap_lock: "change_page_location stk a t i s = Some s' \<Longrightarrow> swap_lock s' = swap_lock s"
  by (auto simp: change_page_location_def bind_Some_iff)

text \<open>The swap lock is taken twice, so that no page is ever put into swap.\<close>

lemma store_swap_panics: "store_swap stk mb mbits a s = None"
proof (rule ccontr)
  assume "store_swap stk mb mbits a s \<noteq> None"
  then obtain i t where "store_swap stk mb mbits a s = Some (i, t)" by auto
  then obtain s1 b idx b' s2 s3 where "write_slot (wrap32 (idx * NUM_SECTORS_PER_PAGE)) a (s1\<lparr>swap_lock := True, swap_bitmap := Some b'\<rparr>) = Some s2"
    "change_page_location stk a IN_SWAP (sint (of_nat idx :: u32)) s2 = Some s3" "\<not> swap_lock s3"
    by (auto simp: store_swap_def bind_Some_iff Let_def split: prod.splits)
  then show False using write_slot_swap_lock change_page_location_swap_lock by fastforce
qed

lemma evict_frame_panics: "evict_frame stk mb mbits s = None"
  by (simp add: evict_frame_def store_swap_panics split: list.split)

lemma get_frame_cases:
  assumes wf: "pages_wf (pages (mm s))" and f: "flags AND PAL_ASSERT = 0" and l: "\<not> frame_lock s"
  obtains (none) "get_frame stk new mb mbits flags s = None"
      "\<And>i. i < bit_cnt (used_map (the_pool (flags AND PAL_USER \<noteq> 0) (pages (mm s)))) \<Longrightarrow> i \<in> used_units (used_map (the_pool (flags AND PAL_USER \<noteq> 0) (pages (mm s))))"
    | (frame) a ps where "get_frame stk new mb mbits flags s =
        (if new then Some (a, s\<lparr>mm := (mm s)\<lparr>pages := ps\<rparr>, fifo_list := fifo_list s @ [\<lparr>frame_page = a, frame_thread = cur_thread s\<rparr>], frame_lock := False\<rparr>) else None)"
      "a \<noteq> 0" "pg_no a \<notin> used_pages (pages (mm s))" "used_pages ps = insert (pg_no a) (used_pages (pages (mm s)))" "pages_wf ps"
      "pg_no a \<in> pool_pages (the_pool (flags AND PAL_USER \<noteq> 0) (pages (mm s)))"
proof (rule palloc_get_cases [OF wf zero_less_one refl, of flags])
  let ?p = "the_pool (flags AND PAL_USER \<noteq> 0) (pages (mm s))"
  assume g: "palloc_get_multiple flags 1 (pages (mm s)) = (if flags AND PAL_ASSERT \<noteq> 0 then None else Some (0, pages (mm s)))"
    and u: "\<And>i. i + 1 \<le> bit_cnt (used_map ?p) \<Longrightarrow> {i..<i + 1} \<inter> used_units (used_map ?p) \<noteq> {}"
  have "get_frame stk new mb mbits flags s = None" using g f l by (simp add: get_frame_def vm_palloc_def palloc_get_page_def evict_frame_panics)
  moreover have "i \<in> used_units (used_map ?p)" if "i < bit_cnt (used_map ?p)" for i using u [of i] that by auto
  ultimately show thesis by (rule none)
next
  fix i b s' let ?u = "flags AND PAL_USER \<noteq> 0" let ?p = "the_pool ?u (pages (mm s))"
  assume g: "palloc_get_multiple flags 1 (pages (mm s)) = Some (base ?p + PGSIZE * i, s')" and t: "take_units (used_map ?p) 1 = (Some i, b)"
    and s': "s' = (set_map ?u b (pages (mm s)))\<lparr>ram := if flags AND PAL_ZERO \<noteq> 0 then fill (base ?p + PGSIZE * i) 0 (PGSIZE * 1) (ram (pages (mm s))) else ram (pages (mm s))\<rparr>"
  note tp = take_units_pages [OF wf t]
  have p: "pg_ofs (base ?p) = 0" "0 < base ?p" using wf by (simp_all add: pages_wf_alt [of _ ?u] pool_wf_def)
  show thesis
  proof (rule frame [of "base ?p + PGSIZE * i" s'])
    show "get_frame stk new mb mbits flags s = (if new then Some (base ?p + PGSIZE * i, s\<lparr>mm := (mm s)\<lparr>pages := s'\<rparr>,
        fifo_list := fifo_list s @ [\<lparr>frame_page = base ?p + PGSIZE * i, frame_thread = cur_thread s\<rparr>], frame_lock := False\<rparr>) else None)"
      using g l p(2) by (simp add: get_frame_def vm_palloc_def palloc_get_page_def)
  qed (use tp(1-4) p s' in \<open>auto simp: pg_no_page\<close>)
qed


subsection \<open>The properties\<close>

lemma find_append_None: "\<forall>e\<in>set xs. \<not> P e \<Longrightarrow> find P (xs @ ys) = find P ys"
  by (induction xs) auto

text \<open>
  C27. \<^verbatim>\<open>get_sup_page\<close> returns the first entry with the address, but it never returns a null pointer: a search for an address that is not in the table
  runs past the tail of the list and panics in \<^verbatim>\<open>list_next\<close>, since the loop waits for the tail of a copy; if the memory after the list in the
  \<^verbatim>\<open>struct thread\<close> happens to hold the address, the result is a pointer to the tail itself.
\<close>

theorem get_sup_page_search:
  assumes "stk_ok stk s xs"
  shows "get_sup_page stk a s = (case find (\<lambda>e. v_addr (spages s e) = a) xs of
     Some e \<Rightarrow> Some e
   | None \<Rightarrow> if v_addr (spages s (tail_of (sup_list s))) = a then Some (tail_of (sup_list s)) else None)"
proof -
  have "find P (xs @ [t]) = (case find P xs of Some e \<Rightarrow> Some e | None \<Rightarrow> if P t then Some t else None)" for P and t :: addr
    by (induction xs) auto
  then show ?thesis by (simp add: get_sup_page_eq [OF assms])
qed

definition demo_spage :: "nat \<Rightarrow> sup_page" where
  "demo_spage a = \<lparr>swap_index = -1, v_addr = a, spage_file = 0, spage_offset = 0, read_bytes = 0, zero_bytes = 0, writable = True, page_location = IN_MEMORY\<rparr>"

definition demo_vm :: vm where
  "demo_vm = \<lparr>mm = demo_mmu, cur_thread = 7, cur_pagedir = 3222274048,
     elems = \<lparr>le_prev = (\<lambda>_. 0)(1000 := 100, 108 := 1000), le_next = (\<lambda>_. 0)(100 := 1000, 1000 := 108)\<rparr>,
     sup_list = 100, spages = (\<lambda>_. demo_spage 0)(1000 := demo_spage 3223322624), fifo_list = [], frame_lock = False, filesys_lock = False, swap_lock = False,
     is_initialized = False, swap_bitmap = None, block_device = Some (replicate 16 (replicate 512 9))\<rparr>"

lemma demo_stk_ok: "stk_ok 500 demo_vm [1000]"
  by (simp add: stk_ok_def demo_vm_def dlist_def dcells_def list_cells_def tail_of_def)

theorem get_sup_page_search_witness:
  "get_sup_page 500 3223322624 demo_vm = Some 1000 \<and> get_sup_page 500 4096 demo_vm = None"
  using get_sup_page_search [OF demo_stk_ok, of 3223322624] get_sup_page_search [OF demo_stk_ok, of 4096]
  by (simp add: demo_vm_def demo_spage_def tail_of_def)

text \<open>
  A swap slot keeps a page: after the sectors of the slot \<open>i\<close> have been written from a page and the memory has changed in whatever way, reading the slot restores
  every byte of the page and changes nothing else; the other slots are not touched.
\<close>

theorem swap_slot_keeps_page:
  assumes "block_device s = Some d" "8 * i + 8 \<le> length d" "8 * i + 8 \<le> 4294967296"
  shows "\<exists>s1 d'. write_slot (8 * i) a s = Some s1 \<and> s1 = s\<lparr>block_device := Some d'\<rparr> \<and> (\<forall>j. j div 8 \<noteq> i \<longrightarrow> d' ! j = d ! j)
    \<and> (\<forall>m. read_slot (8 * i) b (s1\<lparr>mm := m\<rparr>) = Some (s1\<lparr>mm := put_ram (\<lambda>x. if b \<le> x \<and> x < b + 4096 then mem (mm s) (a + (x - b)) else mem m x) m\<rparr>))"
proof (rule write_read_slot [OF assms, of a b])
  fix s1 d'
  assume w: "write_slot (8 * i) a s = Some s1" "s1 = s\<lparr>block_device := Some d'\<rparr>" "\<And>j. j div 8 \<noteq> i \<Longrightarrow> d' ! j = d ! j"
    "\<And>m. read_slot (8 * i) b (s1\<lparr>mm := m\<rparr>) = Some (s1\<lparr>mm := put_ram (\<lambda>x. if b \<le> x \<and> x < b + 4096 then mem (mm s) (a + (x - b)) else mem m x) m\<rparr>)"
  show ?thesis by (intro exI [of _ s1] exI [of _ d'] conjI allI impI) (rule w, assumption?)+
qed

text \<open>
  C35. \<^verbatim>\<open>get_frame\<close> hands out a page of the pool that nobody uses, appends it to the list of frames and releases the lock, as long as the pool has a page;
  when it has none the kernel panics. No frame is ever evicted, since \<^verbatim>\<open>store_swap\<close> acquires the swap lock twice instead of releasing it.
\<close>

theorem get_frame_never_evicts:
  assumes "pages_wf (pages (mm s))" "flags AND PAL_ASSERT = 0" "\<not> frame_lock s" "p = the_pool (flags AND PAL_USER \<noteq> 0) (pages (mm s))"
  shows "if used_units (used_map p) = {..<bit_cnt (used_map p)} then get_frame stk True mb mbits flags s = None
    else \<exists>a ps. get_frame stk True mb mbits flags s =
        Some (a, s\<lparr>mm := (mm s)\<lparr>pages := ps\<rparr>, fifo_list := fifo_list s @ [\<lparr>frame_page = a, frame_thread = cur_thread s\<rparr>], frame_lock := False\<rparr>)
      \<and> a \<noteq> 0 \<and> pg_no a \<notin> used_pages (pages (mm s)) \<and> used_pages ps = insert (pg_no a) (used_pages (pages (mm s))) \<and> pages_wf ps"
proof (rule get_frame_cases [OF assms(1-3), of stk True mb mbits])
  assume "get_frame stk True mb mbits flags s = None"
    and "\<And>i. i < bit_cnt (used_map (the_pool (flags AND PAL_USER \<noteq> 0) (pages (mm s)))) \<Longrightarrow> i \<in> used_units (used_map (the_pool (flags AND PAL_USER \<noteq> 0) (pages (mm s))))"
  then show ?thesis by (auto simp: assms(4) used_units_def)
next
  fix a ps
  assume g: "get_frame stk True mb mbits flags s = (if True then Some (a, s\<lparr>mm := (mm s)\<lparr>pages := ps\<rparr>,
      fifo_list := fifo_list s @ [\<lparr>frame_page = a, frame_thread = cur_thread s\<rparr>], frame_lock := False\<rparr>) else None)"
    and a: "a \<noteq> 0" "pg_no a \<notin> used_pages (pages (mm s))" "used_pages ps = insert (pg_no a) (used_pages (pages (mm s)))" "pages_wf ps"
    and q: "pg_no a \<in> pool_pages (the_pool (flags AND PAL_USER \<noteq> 0) (pages (mm s)))"
  have "used_units (used_map p) \<noteq> {..<bit_cnt (used_map p)}"
  proof
    assume "used_units (used_map p) = {..<bit_cnt (used_map p)}"
    moreover obtain i where "pg_no a = pg_no (base p) + i" "i < bit_cnt (used_map p)" using q by (auto simp: assms(4) pool_pages_def le_iff_add)
    ultimately have "pg_no a \<in> used_of p" by (auto simp: used_of_def)
    then show False using a(2) by (auto simp: assms(4) used_pages_alt [of _ "flags AND PAL_USER \<noteq> 0"])
  qed
  then show ?thesis using g a by auto
qed

theorem get_frame_never_evicts_witness:
  "(\<exists>a s'. get_frame 500 True True None PAL_USER (demo_vm\<lparr>mm := demo_mmu\<lparr>pages := demo_pages\<rparr>\<rparr>) = Some (a, s') \<and> a \<noteq> 0 \<and> length (fifo_list s') = 1)
    \<and> get_frame 500 True True None PAL_USER (demo_vm\<lparr>mm := demo_mmu\<lparr>pages := demo_pages\<lparr>user_pool := \<lparr>used_map = \<lparr>bit_cnt = 0, bits = []\<rparr>, base = 3223322624\<rparr>\<rparr>\<rparr>\<rparr>) = None"
proof -
  let ?s = "demo_vm\<lparr>mm := demo_mmu\<lparr>pages := demo_pages\<rparr>\<rparr>"
  let ?q = "\<lparr>used_map = \<lparr>bit_cnt = 0, bits = []\<rparr>, base = 3223322624\<rparr>"
  let ?t = "demo_vm\<lparr>mm := demo_mmu\<lparr>pages := demo_pages\<lparr>user_pool := ?q\<rparr>\<rparr>\<rparr>"
  have f: "PAL_USER AND PAL_ASSERT = 0" "PAL_USER AND PAL_USER \<noteq> 0" "\<not> frame_lock ?s" "\<not> frame_lock ?t" by (simp_all add: PAL_USER_def PAL_ASSERT_def demo_vm_def)
  have "pool_wf ?q" by (simp add: pool_wf_def pg_ofs_def PGSIZE_def bitmap_wf_def elem_cnt_eq)
  then have "pages_wf (demo_pages\<lparr>user_pool := ?q\<rparr>)" using demo_pages_wf by (simp add: pages_wf_def pool_pages_def)
  then have "get_frame 500 True True None PAL_USER ?t = None"
    using get_frame_never_evicts [OF _ f(1) f(4) refl, of 500 True None] f(2) by (simp add: the_pool_def used_units_def)
  moreover have "used_units (used_map (the_pool True demo_pages)) \<noteq> {..<bit_cnt (used_map (the_pool True demo_pages))}"
    by (simp add: the_pool_def demo_pages_def two_bits_free) (simp add: two_bits_def lessThan_Suc numeral_2_eq_2)
  then have "\<exists>a s'. get_frame 500 True True None PAL_USER ?s = Some (a, s') \<and> a \<noteq> 0 \<and> length (fifo_list s') = 1"
    using get_frame_never_evicts [OF _ f(1) f(3) refl, of 500 True None] f(2) demo_pages_wf by (auto simp: demo_vm_def)
  ultimately show ?thesis by simp
qed

text \<open>
  C36. The page fault handler never brings a page in. The table is as \<^verbatim>\<open>load_segment\<close> fills it, whose entries have the addresses of the frames, and the words
  behind the list, which is the last member of the \<^verbatim>\<open>struct thread\<close> in a page that \<^verbatim>\<open>palloc_get_page (PAL_ZERO)\<close> has cleared, are zero. A fault in user mode,
  a write and an address of the kernel end the process with status -1. A read of the kernel in the first page of the user memory finds the tail of the list: it is
  tried again in the same state when the page is not present, and goes to \<^verbatim>\<open>kill\<close> otherwise. Every other fault is a panic of the kernel.
\<close>

theorem page_fault_never_loads:
  assumes "stk_ok stk s xs" "\<forall>e\<in>set xs. PHYS_BASE \<le> v_addr (spages s e)"
    and "v_addr (spages s (tail_of (sup_list s))) = 0" "page_location (spages s (tail_of (sup_list s))) = IN_MEMORY"
  shows "page_fault stk new mb mbits read_file error_code cs fault_addr s =
     (if error_code AND PF_U \<noteq> 0 \<or> \<not> is_user_vaddr fault_addr \<or> error_code AND PF_W \<noteq> 0 then Some Exit_minus_1
      else if fault_addr < PGSIZE then if error_code AND PF_P = 0 then Some (Retry s) else kill cs
      else None)"
proof -
  let ?a = "pg_round_down fault_addr" let ?t = "tail_of (sup_list s)"
  have le: "?a \<le> fault_addr" by (simp add: pg_round_down_def)
  have z: "?a = 0 \<longleftrightarrow> fault_addr < PGSIZE" by (auto simp: pg_round_down_def PGSIZE_def)
  have t: "?t \<noteq> NULL" by (simp add: tail_of_def)
  have "get_sup_page stk ?a s = (if ?a = 0 then Some ?t else None)" if "is_user_vaddr fault_addr"
  proof -
    have "v_addr (spages s e) \<noteq> ?a" if "e \<in> set xs" for e
      using assms(2) that le \<open>is_user_vaddr fault_addr\<close> by (auto simp: is_user_vaddr_def)
    then show ?thesis using assms(3) by (auto simp: get_sup_page_eq [OF assms(1)] find_append_None)
  qed
  moreover have "\<not> ?a \<ge> PHYS_BASE" if "is_user_vaddr fault_addr" using that le by (simp add: is_user_vaddr_def)
  ultimately show ?thesis using t by (auto simp: page_fault_def Let_def z assms(4))
qed

theorem page_fault_never_loads_witness:
  "page_fault 500 True True None (\<lambda>_ _ _. None) 0 SEL_KCSEG 4100 demo_vm = None
    \<and> page_fault 500 True True None (\<lambda>_ _ _. None) 0 SEL_KCSEG 8 demo_vm = Some (Retry demo_vm)
    \<and> page_fault 500 True True None (\<lambda>_ _ _. None) PF_P SEL_KCSEG 8 demo_vm = None
    \<and> page_fault 500 True True None (\<lambda>_ _ _. None) PF_U SEL_UCSEG 4100 demo_vm = Some Exit_minus_1"
proof -
  have d: "\<forall>e\<in>set [1000]. PHYS_BASE \<le> v_addr (spages demo_vm e)" "v_addr (spages demo_vm (tail_of (sup_list demo_vm))) = 0"
      "page_location (spages demo_vm (tail_of (sup_list demo_vm))) = IN_MEMORY"
    by (simp_all add: demo_vm_def demo_spage_def PHYS_BASE_def tail_of_def)
  note f = page_fault_never_loads [OF demo_stk_ok d, of True True None "\<lambda>_ _ _. None"]
  show ?thesis unfolding f by (simp add: PF_P_def PF_U_def PF_W_def is_user_vaddr_def PHYS_BASE_def PGSIZE_def kill_def)
qed

end
