(* ===== verification/Intq.thy ===== *)
theory Intq
  imports Prelude
begin

text \<open>
  The interrupt queues of \<^verbatim>\<open>devices/intq.c\<close> and the input buffer of \<^verbatim>\<open>devices/input.c\<close>. A queue is a circular buffer of 64 bytes shared by threads
  and interrupt handlers, which run with interrupts off. A call that has to wait sleeps in \<^verbatim>\<open>thread_block\<close> with itself as the waiting thread
  and the lock of the queue held, so that a second thread sleeps at the lock instead; when it is woken it goes on at \<open>getc_woken\<close> or \<open>putc_woken\<close>.
  \<^verbatim>\<open>serial_notify\<close> of the serial driver only programs the device; it is not modelled.

  The lemmas show that the buffer refines a first-in first-out queue of at most 63 bytes.
\<close>

definition INTQ_BUFSIZE :: nat where
  "INTQ_BUFSIZE = 64"

record intq =
  lock_holder :: "nat option"
  not_full :: "nat option"
  not_empty :: "nat option"
  buf :: "u8 list"
  head :: nat
  tail :: nat

text \<open>The processor: interrupts off, inside an external interrupt, and the running thread.\<close>

record cpu =
  intr_off :: bool
  intr_context :: bool
  running :: nat

text \<open>
  A call returns a value and the thread that it made ready, or the caller sleeps: as the waiting thread of the queue, or at the lock that another
  thread holds.
\<close>

datatype 'a outcome = Returns 'a intq "nat option" | Sleeps intq | Sleeps_at_lock intq

definition next_pos :: "nat \<Rightarrow> nat" where
  "next_pos pos = (pos + 1) mod INTQ_BUFSIZE"

definition intq_init :: "intq \<Rightarrow> intq" where
  "intq_init q = q\<lparr>lock_holder := None, not_full := None, not_empty := None, head := 0, tail := 0\<rparr>"

definition intq_empty :: "cpu \<Rightarrow> intq \<Rightarrow> bool option" where
  "intq_empty c q = do { ASSERT (intr_off c); Some (head q = tail q) }"

definition intq_full :: "cpu \<Rightarrow> intq \<Rightarrow> bool option" where
  "intq_full c q = do { ASSERT (intr_off c); Some (next_pos (head q) = tail q) }"

definition signal_not_full :: "cpu \<Rightarrow> intq \<Rightarrow> (intq \<times> nat option) option" where
  "signal_not_full c q = do {
     ASSERT (intr_off c);
     f \<leftarrow> intq_full c q;
     ASSERT (\<not> f);
     Some (q\<lparr>not_full := None\<rparr>, not_full q) }"

definition signal_not_empty :: "cpu \<Rightarrow> intq \<Rightarrow> (intq \<times> nat option) option" where
  "signal_not_empty c q = do {
     ASSERT (intr_off c);
     e \<leftarrow> intq_empty c q;
     ASSERT (\<not> e);
     Some (q\<lparr>not_empty := None\<rparr>, not_empty q) }"

definition wait_not_empty :: "cpu \<Rightarrow> intq \<Rightarrow> intq option" where
  "wait_not_empty c q = do {
     ASSERT (\<not> intr_context c);
     ASSERT (intr_off c);
     e \<leftarrow> intq_empty c q;
     ASSERT e;
     Some (q\<lparr>not_empty := Some (running c)\<rparr>) }"

definition wait_not_full :: "cpu \<Rightarrow> intq \<Rightarrow> intq option" where
  "wait_not_full c q = do {
     ASSERT (\<not> intr_context c);
     ASSERT (intr_off c);
     f \<leftarrow> intq_full c q;
     ASSERT f;
     Some (q\<lparr>not_full := Some (running c)\<rparr>) }"

definition intq_getc :: "cpu \<Rightarrow> intq \<Rightarrow> u8 outcome option" where
  "intq_getc c q = do {
     ASSERT (intr_off c);
     e \<leftarrow> intq_empty c q;
     if e
     then do {
       ASSERT (\<not> intr_context c);
       ASSERT (lock_holder q \<noteq> Some (running c));
       if lock_holder q \<noteq> None then Some (Sleeps_at_lock q)
       else do { q \<leftarrow> wait_not_empty c (q\<lparr>lock_holder := Some (running c)\<rparr>); Some (Sleeps q) } }
     else do {
       ASSERT (tail q < length (buf q));
       let byte = buf q ! tail q;
       (q, t) \<leftarrow> signal_not_full c (q\<lparr>tail := next_pos (tail q)\<rparr>);
       Some (Returns byte q t) } }"

definition intq_putc :: "cpu \<Rightarrow> u8 \<Rightarrow> intq \<Rightarrow> unit outcome option" where
  "intq_putc c byte q = do {
     ASSERT (intr_off c);
     f \<leftarrow> intq_full c q;
     if f
     then do {
       ASSERT (\<not> intr_context c);
       ASSERT (lock_holder q \<noteq> Some (running c));
       if lock_holder q \<noteq> None then Some (Sleeps_at_lock q)
       else do { q \<leftarrow> wait_not_full c (q\<lparr>lock_holder := Some (running c)\<rparr>); Some (Sleeps q) } }
     else do {
       ASSERT (head q < length (buf q));
       (q, t) \<leftarrow> signal_not_empty c (q\<lparr>buf := (buf q)[head q := byte], head := next_pos (head q)\<rparr>);
       Some (Returns () q t) } }"

text \<open>The rest of the loop after the waiting thread is woken: \<^verbatim>\<open>lock_release\<close>, and the test again.\<close>

definition getc_woken :: "cpu \<Rightarrow> intq \<Rightarrow> u8 outcome option" where
  "getc_woken c q = do { ASSERT (lock_holder q = Some (running c)); intq_getc c (q\<lparr>lock_holder := None\<rparr>) }"

definition putc_woken :: "cpu \<Rightarrow> u8 \<Rightarrow> intq \<Rightarrow> unit outcome option" where
  "putc_woken c byte q = do { ASSERT (lock_holder q = Some (running c)); intq_putc c byte (q\<lparr>lock_holder := None\<rparr>) }"

definition input_putc :: "cpu \<Rightarrow> u8 \<Rightarrow> intq \<Rightarrow> unit outcome option" where
  "input_putc c key q = do {
     ASSERT (intr_off c);
     f \<leftarrow> intq_full c q;
     ASSERT (\<not> f);
     intq_putc c key q }"

definition input_getc :: "cpu \<Rightarrow> intq \<Rightarrow> u8 outcome option" where
  "input_getc c q = intq_getc (c\<lparr>intr_off := True\<rparr>) q"

definition input_full :: "cpu \<Rightarrow> intq \<Rightarrow> bool option" where
  "input_full c q = do { ASSERT (intr_off c); intq_full c q }"

subsection \<open>The queue\<close>

definition intq_wf :: "intq \<Rightarrow> bool" where
  "intq_wf q \<longleftrightarrow> length (buf q) = 64 \<and> head q < 64 \<and> tail q < 64"

definition fill :: "intq \<Rightarrow> nat" where
  "fill q = (head q + 64 - tail q) mod 64"

definition queue :: "intq \<Rightarrow> u8 list" where
  "queue q = map (\<lambda>i. buf q ! ((tail q + i) mod 64)) [0..<fill q]"

lemma fill_cases:
  assumes "intq_wf q"
  shows "fill q = (if tail q \<le> head q then head q - tail q else head q + 64 - tail q)"
  using assms by (auto simp: fill_def intq_wf_def mod_if)

lemma queue_update [simp]:
  "queue (q\<lparr>not_full := w\<rparr>) = queue q" "queue (q\<lparr>not_empty := w\<rparr>) = queue q" "queue (q\<lparr>lock_holder := w\<rparr>) = queue q"
  "intq_wf (q\<lparr>not_full := w\<rparr>) = intq_wf q" "intq_wf (q\<lparr>not_empty := w\<rparr>) = intq_wf q" "intq_wf (q\<lparr>lock_holder := w\<rparr>) = intq_wf q"
  by (simp_all add: queue_def fill_def intq_wf_def)

lemma queue_length:
  assumes "intq_wf q"
  shows "length (queue q) \<le> 63" "queue q = [] \<longleftrightarrow> head q = tail q" "length (queue q) = 63 \<longleftrightarrow> next_pos (head q) = tail q"
  using assms fill_cases [OF assms] by (auto simp: queue_def intq_wf_def next_pos_def INTQ_BUFSIZE_def mod_if split: if_splits)

lemma queue_get:
  assumes wf: "intq_wf q" and ne: "head q \<noteq> tail q"
  shows "queue q = buf q ! tail q # queue (q\<lparr>tail := next_pos (tail q)\<rparr>)" "intq_wf (q\<lparr>tail := next_pos (tail q)\<rparr>)"
proof -
  let ?q = "q\<lparr>tail := next_pos (tail q)\<rparr>"
  show wf': "intq_wf ?q" using wf by (simp add: intq_wf_def next_pos_def INTQ_BUFSIZE_def)
  have f: "fill q = Suc (fill ?q)"
    using wf ne fill_cases [OF wf] fill_cases [OF wf'] by (auto simp: intq_wf_def next_pos_def INTQ_BUFSIZE_def mod_if split: if_splits)
  have "(tail q + Suc i) mod 64 = (next_pos (tail q) + i) mod 64" for i by (simp add: next_pos_def INTQ_BUFSIZE_def mod_simps)
  then show "queue q = buf q ! tail q # queue ?q"
    using wf unfolding queue_def f by (simp add: upt_conv_Cons map_Suc_upt [symmetric] intq_wf_def del: upt_Suc)
qed

lemma queue_put:
  assumes wf: "intq_wf q" and nf: "next_pos (head q) \<noteq> tail q"
  shows "queue (q\<lparr>buf := (buf q)[head q := x], head := next_pos (head q)\<rparr>) = queue q @ [x]" "intq_wf (q\<lparr>buf := (buf q)[head q := x], head := next_pos (head q)\<rparr>)"
proof -
  let ?q = "q\<lparr>buf := (buf q)[head q := x], head := next_pos (head q)\<rparr>"
  show wf': "intq_wf ?q" using wf by (simp add: intq_wf_def next_pos_def INTQ_BUFSIZE_def)
  have f: "fill ?q = Suc (fill q)"
    using wf nf fill_cases [OF wf] fill_cases [OF wf'] by (auto simp: intq_wf_def next_pos_def INTQ_BUFSIZE_def mod_if split: if_splits)
  have last: "(tail q + fill q) mod 64 = head q" using wf by (auto simp: fill_cases [OF wf] intq_wf_def mod_if)
  have "head q \<noteq> (tail q + i) mod 64" if "i < fill q" for i
  proof (cases "tail q \<le> head q")
    case True
    then have "i < head q - tail q" "head q < 64" using that wf by (simp_all add: fill_cases intq_wf_def)
    then show ?thesis by simp
  next
    case False
    then have i: "i < head q + 64 - tail q" "tail q < 64" using that wf by (simp_all add: fill_cases intq_wf_def)
    show ?thesis
    proof (cases "tail q + i < 64")
      case True
      then have "(tail q + i) mod 64 = tail q + i" by simp
      then show ?thesis using False by linarith
    next
      case wrap: False
      have "tail q + i - 64 < 64" using i False by linarith
      then have "(tail q + i) mod 64 = tail q + i - 64" using wrap by (simp add: le_mod_geq)
      then show ?thesis using i False wrap by linarith
    qed
  qed
  then show "queue ?q = queue q @ [x]"
    using wf last unfolding queue_def f by (auto simp: intq_wf_def)
qed


fun get_n :: "('q \<Rightarrow> ('a \<times> 'q) option) \<Rightarrow> nat \<Rightarrow> 'q \<Rightarrow> ('a list \<times> 'q) option" where
  "get_n get 0 q = Some ([], q)"
| "get_n get (Suc n) q = do { (x, q) \<leftarrow> get q; (xs, q) \<leftarrow> get_n get n q; Some (x # xs, q) }"

text \<open>
  The contract of a bounded queue: \<open>get\<close> and \<open>put\<close> give \<^const>\<open>None\<close> when they cannot go on at once.
\<close>

locale bounded_queue =
  fixes invar :: "'q \<Rightarrow> bool" and items :: "'q \<Rightarrow> 'a list" and cap :: nat
    and get :: "'q \<Rightarrow> ('a \<times> 'q) option" and put :: "'a \<Rightarrow> 'q \<Rightarrow> 'q option"
  assumes get_law: "invar q \<Longrightarrow> (case items q of [] \<Rightarrow> get q = None | x # xs \<Rightarrow> \<exists>q'. get q = Some (x, q') \<and> invar q' \<and> items q' = xs)"
    and put_law: "invar q \<Longrightarrow> if length (items q) = cap then put x q = None else \<exists>q'. put x q = Some q' \<and> invar q' \<and> items q' = items q @ [x]"
    and items_cap: "invar q \<Longrightarrow> length (items q) \<le> cap"
begin

text \<open>What is put into the queue comes out again in the same order, after what was there before.\<close>

lemma put_all_items: "invar q \<Longrightarrow> length (items q) + length xs \<le> cap \<Longrightarrow> \<exists>q'. foldM put xs q = Some q' \<and> invar q' \<and> items q' = items q @ xs"
proof (induction xs arbitrary: q)
  case (Cons x xs)
  then obtain q1 where q1: "put x q = Some q1" "invar q1" "items q1 = items q @ [x]" using put_law [of q x] by auto
  show ?case using Cons.IH [OF q1(2)] Cons.prems(2) q1 by auto
qed simp

lemma get_all_items: "invar q \<Longrightarrow> n \<le> length (items q) \<Longrightarrow> \<exists>q'. get_n get n q = Some (take n (items q), q') \<and> invar q' \<and> items q' = drop n (items q)"
proof (induction n arbitrary: q)
  case (Suc n)
  then obtain x xs where xs: "items q = x # xs" by (cases "items q") auto
  then obtain q1 where q1: "get q = Some (x, q1)" "invar q1" "items q1 = xs" using get_law [OF Suc.prems(1)] by auto
  show ?case using Suc.IH [OF q1(2)] Suc.prems(2) q1 xs by auto
qed simp

lemma put_get_all:
  assumes "invar q" "items q = []" "length xs \<le> cap"
  shows "\<exists>q1 q2. foldM put xs q = Some q1 \<and> get_n get (length xs) q1 = Some (xs, q2) \<and> items q2 = []"
proof -
  obtain q1 where q1: "foldM put xs q = Some q1" "invar q1" "items q1 = xs" using put_all_items [OF assms(1), of xs] assms(2,3) by auto
  then show ?thesis using get_all_items [OF q1(2), of "length xs"] by auto
qed

end

text \<open>The calls with interrupts off, when they need not wait.\<close>

definition try_get :: "cpu \<Rightarrow> intq \<Rightarrow> (u8 \<times> intq) option" where
  "try_get c q = (case intq_getc (c\<lparr>intr_off := True\<rparr>) q of Some (Returns x q' t) \<Rightarrow> Some (x, q') | _ \<Rightarrow> None)"

definition try_put :: "cpu \<Rightarrow> u8 \<Rightarrow> intq \<Rightarrow> intq option" where
  "try_put c x q = (case intq_putc (c\<lparr>intr_off := True\<rparr>) x q of Some (Returns u q' t) \<Rightarrow> Some q' | _ \<Rightarrow> None)"

lemma getc_cases:
  assumes wf: "intq_wf q" and c: "intr_off c"
  shows "if queue q = [] then intq_getc c q =
      (if intr_context c \<or> lock_holder q = Some (running c) then None
       else if lock_holder q \<noteq> None then Some (Sleeps_at_lock q)
       else Some (Sleeps (q\<lparr>lock_holder := Some (running c), not_empty := Some (running c)\<rparr>)))
    else \<exists>q'. intq_getc c q = Some (Returns (hd (queue q)) q' (not_full q)) \<and> intq_wf q' \<and> queue q' = tl (queue q) \<and> not_full q' = None"
proof (cases "head q = tail q")
  case True
  then show ?thesis using queue_length(2) [OF wf] c by (auto simp: intq_getc_def intq_empty_def wait_not_empty_def panic_simps)
next
  case False
  note g = queue_get [OF wf False]
  have "next_pos (head q) \<noteq> next_pos (tail q)" using wf False by (auto simp: intq_wf_def next_pos_def INTQ_BUFSIZE_def mod_if split: if_splits)
  then have "intq_getc c q = Some (Returns (buf q ! tail q) (q\<lparr>tail := next_pos (tail q), not_full := None\<rparr>) (not_full q))"
    using wf False c by (simp add: intq_getc_def intq_empty_def intq_full_def signal_not_full_def intq_wf_def Let_def)
  then show ?thesis using g by simp
qed

lemma putc_cases:
  assumes wf: "intq_wf q" and c: "intr_off c"
  shows "if length (queue q) = 63 then intq_putc c x q =
      (if intr_context c \<or> lock_holder q = Some (running c) then None
       else if lock_holder q \<noteq> None then Some (Sleeps_at_lock q)
       else Some (Sleeps (q\<lparr>lock_holder := Some (running c), not_full := Some (running c)\<rparr>)))
    else \<exists>q'. intq_putc c x q = Some (Returns () q' (not_empty q)) \<and> intq_wf q' \<and> queue q' = queue q @ [x] \<and> not_empty q' = None"
proof (cases "next_pos (head q) = tail q")
  case True
  then show ?thesis using queue_length(3) [OF wf] c by (auto simp: intq_putc_def intq_full_def wait_not_full_def panic_simps)
next
  case False
  note g = queue_put [OF wf False, of x]
  let ?q = "q\<lparr>buf := (buf q)[head q := x], head := next_pos (head q)\<rparr>"
  have "head ?q \<noteq> tail ?q" using False by simp
  then have "intq_putc c x q = Some (Returns () (?q\<lparr>not_empty := None\<rparr>) (not_empty q))"
    using wf False c by (simp add: intq_putc_def intq_full_def intq_empty_def signal_not_empty_def intq_wf_def)
  then show ?thesis using g queue_length(3) [OF wf] False by (simp del: intq.simps)
qed


interpretation ring: bounded_queue intq_wf queue 63 "try_get c" "try_put c" for c
proof
  let ?c = "c\<lparr>intr_off := True\<rparr>"
  fix q x assume wf: "intq_wf q"
  have c: "intr_off ?c" by simp
  show "case queue q of [] \<Rightarrow> try_get c q = None | x # xs \<Rightarrow> \<exists>q'. try_get c q = Some (x, q') \<and> intq_wf q' \<and> queue q' = xs"
  proof (cases "queue q")
    case Nil
    then have "intq_getc ?c q \<noteq> Some (Returns y q' t)" for y q' t using getc_cases [OF wf c] by (simp split: if_splits)
    then have "try_get c q = None" by (simp add: try_get_def split: option.split outcome.split)
    then show ?thesis using Nil by simp
  next
    case (Cons y ys)
    then obtain q' where "intq_getc ?c q = Some (Returns y q' (not_full q))" "intq_wf q'" "queue q' = ys" using getc_cases [OF wf c] by auto
    then show ?thesis using Cons by (simp add: try_get_def)
  qed
  show "if length (queue q) = 63 then try_put c x q = None else \<exists>q'. try_put c x q = Some q' \<and> intq_wf q' \<and> queue q' = queue q @ [x]"
  proof (cases "length (queue q) = 63")
    case True
    then have "intq_putc ?c x q \<noteq> Some (Returns () q' t)" for q' t using putc_cases [OF wf c, of x] by (simp split: if_splits)
    then have "try_put c x q = None" by (simp add: try_put_def split: option.split outcome.split)
    then show ?thesis using True by simp
  next
    case False
    then obtain q' where "intq_putc ?c x q = Some (Returns () q' (not_empty q))" "intq_wf q'" "queue q' = queue q @ [x]" using putc_cases [OF wf c, of x] by auto
    then show ?thesis using False by (simp add: try_put_def)
  qed
  show "length (queue q) \<le> 63" by (rule queue_length(1) [OF wf])
qed

subsection \<open>The property\<close>

text \<open>
  C22. An interrupt queue refines a first-in first-out queue of at most 63 bytes. With interrupts off \<^verbatim>\<open>intq_getc\<close> returns the oldest byte and wakes the thread that waits
  for room; on an empty queue it panics in an interrupt handler, and a thread sleeps. \<^verbatim>\<open>intq_putc\<close> appends the byte and wakes the thread that waits for a byte; on a full
  queue it does the same as the other on an empty one. Up to 63 bytes that are put into an empty queue come out in the same order.
\<close>

theorem intq_refines_queue:
  assumes "intq_wf q" "intr_off c"
  shows "(if queue q = [] then intq_getc c q =
        (if intr_context c \<or> lock_holder q = Some (running c) then None
         else if lock_holder q \<noteq> None then Some (Sleeps_at_lock q)
         else Some (Sleeps (q\<lparr>lock_holder := Some (running c), not_empty := Some (running c)\<rparr>)))
      else \<exists>q'. intq_getc c q = Some (Returns (hd (queue q)) q' (not_full q)) \<and> intq_wf q' \<and> queue q' = tl (queue q) \<and> not_full q' = None)
    \<and> (if length (queue q) = 63 then intq_putc c x q =
        (if intr_context c \<or> lock_holder q = Some (running c) then None
         else if lock_holder q \<noteq> None then Some (Sleeps_at_lock q)
         else Some (Sleeps (q\<lparr>lock_holder := Some (running c), not_full := Some (running c)\<rparr>)))
      else \<exists>q'. intq_putc c x q = Some (Returns () q' (not_empty q)) \<and> intq_wf q' \<and> queue q' = queue q @ [x] \<and> not_empty q' = None)
    \<and> (queue q = [] \<longrightarrow> length xs \<le> 63 \<longrightarrow> (\<exists>q1 q2. foldM (try_put c) xs q = Some q1 \<and> get_n (try_get c) (length xs) q1 = Some (xs, q2) \<and> queue q2 = []))"
  using getc_cases [OF assms] putc_cases [OF assms] ring.put_get_all [OF assms(1)] by blast

definition demo_intq :: intq where
  "demo_intq = \<lparr>lock_holder = None, not_full = None, not_empty = Some 4, buf = replicate 64 0, head = 63, tail = 63\<rparr>"

definition demo_cpu :: cpu where
  "demo_cpu = \<lparr>intr_off = True, intr_context = True, running = 3\<rparr>"

theorem intq_refines_queue_witness:
  "intq_getc demo_cpu demo_intq = None \<and> (\<exists>q'. intq_putc demo_cpu 65 demo_intq = Some (Returns () q' (Some 4)) \<and> queue q' = [65])
    \<and> (\<exists>q1 q2. foldM (try_put demo_cpu) [65, 66, 67] demo_intq = Some q1 \<and> get_n (try_get demo_cpu) 3 q1 = Some ([65, 66, 67], q2))"
proof -
  have "intq_wf demo_intq" "intr_off demo_cpu" "queue demo_intq = []" "intr_context demo_cpu" "not_empty demo_intq = Some 4"
    by (simp_all add: demo_intq_def demo_cpu_def intq_wf_def queue_def fill_def)
  then show ?thesis using intq_refines_queue [of demo_intq demo_cpu 65 "[65, 66, 67]"] by (auto simp: eval_nat_numeral)
qed

end
