(* ===== verification/Stdlib.thy ===== *)
theory Stdlib
  imports CString
begin

text \<open>
  The functions of \<^verbatim>\<open>lib/stdlib.c\<close> with the character classes of \<^verbatim>\<open>lib/ctype.h\<close> that they use: \<^verbatim>\<open>atoi\<close>, the heap sort of \<^verbatim>\<open>sort\<close> and \<^verbatim>\<open>qsort\<close>,
  and the binary search. An array is a block of bytes in the memory of \<open>CString\<close>; its elements have \<^verbatim>\<open>size\<close> bytes each and are swapped
  byte by byte. The comparison that the caller passes is a function of the bytes of two elements; its
  auxiliary data is part of it. Indices are natural numbers, as an array of 2^31 elements does not fit into the memory.

  The lemmas show that \<^verbatim>\<open>sort\<close> permutes the elements into order and changes no other byte, that \<^verbatim>\<open>binary_search\<close> finds a
  matching element of a sorted array whenever there is one, and that \<^verbatim>\<open>atoi\<close> reads decimal numbers.
\<close>

type_synonym cmp = "u8 list \<Rightarrow> u8 list \<Rightarrow> int"

definition isdigit :: "u8 \<Rightarrow> bool" where
  "isdigit c \<longleftrightarrow> 48 \<le> c \<and> c \<le> 57"

definition isspace :: "u8 \<Rightarrow> bool" where
  "isspace c \<longleftrightarrow> c = 32 \<or> c = 12 \<or> c = 10 \<or> c = 13 \<or> c = 9 \<or> c = 11"

subsection \<open>Numbers\<close>

partial_function (option) skip_spaces :: "mem \<Rightarrow> nat \<Rightarrow> nat option" where
  "skip_spaces m s = (if isspace (m s) then skip_spaces m (s + 1) else Some s)"

text \<open>The value is a 32-bit word; where the product overflows, the machine keeps its low 32 bits.\<close>

partial_function (option) digits_loop :: "mem \<Rightarrow> nat \<Rightarrow> u32 \<Rightarrow> u32 option" where
  "digits_loop m s v = (if isdigit (m s) then digits_loop m (s + 1) (v * 10 - (ucast (m s) - 48)) else Some v)"

definition atoi :: "mem \<Rightarrow> nat \<Rightarrow> int option" where
  "atoi m s = do {
     ASSERT (s \<noteq> 0);
     s \<leftarrow> skip_spaces m s;
     let negative = (m s = 45);
     let s = (if m s = 43 \<or> m s = 45 then s + 1 else s);
     v \<leftarrow> digits_loop m s 0;
     Some (sint (if negative then v else - v)) }"

subsection \<open>Sorting\<close>

text \<open>The element with the index \<open>k\<close>, counted from 0, and all elements.\<close>

definition elem :: "mem \<Rightarrow> nat \<Rightarrow> size_t \<Rightarrow> nat \<Rightarrow> u8 list" where
  "elem m arr sz k = map m [arr + k * sz..<arr + k * sz + sz]"

definition elems :: "mem \<Rightarrow> nat \<Rightarrow> size_t \<Rightarrow> nat \<Rightarrow> u8 list list" where
  "elems m arr sz cnt = map (elem m arr sz) [0..<cnt]"

primrec swap_bytes :: "nat \<Rightarrow> nat \<Rightarrow> nat \<Rightarrow> mem \<Rightarrow> mem" where
  "swap_bytes 0 a b m = m"
| "swap_bytes (Suc n) a b m = swap_bytes n (a + 1) (b + 1) (m(a := m b, b := m a))"

definition do_swap :: "nat \<Rightarrow> size_t \<Rightarrow> size_t \<Rightarrow> size_t \<Rightarrow> mem \<Rightarrow> mem" where
  "do_swap arr a_idx b_idx sz m = swap_bytes sz (arr + (a_idx - 1) * sz) (arr + (b_idx - 1) * sz) m"

definition do_compare :: "nat \<Rightarrow> size_t \<Rightarrow> size_t \<Rightarrow> size_t \<Rightarrow> cmp \<Rightarrow> mem \<Rightarrow> int" where
  "do_compare arr a_idx b_idx sz compare m = compare (elem m arr sz (a_idx - 1)) (elem m arr sz (b_idx - 1))"

text \<open>The index of the largest element among \<open>i\<close> and its children.\<close>

definition max_child :: "nat \<Rightarrow> size_t \<Rightarrow> size_t \<Rightarrow> size_t \<Rightarrow> cmp \<Rightarrow> mem \<Rightarrow> size_t" where
  "max_child arr i cnt sz compare m =
     (let left = 2 * i; right = 2 * i + 1; mx = i;
          mx = (if left \<le> cnt \<and> do_compare arr left mx sz compare m > 0 then left else mx)
      in if right \<le> cnt \<and> do_compare arr right mx sz compare m > 0 then right else mx)"

lemma max_child_cases: "max_child arr i cnt sz compare m = i \<or> max_child arr i cnt sz compare m \<le> cnt \<and> max_child arr i cnt sz compare m \<in> {2 * i, 2 * i + 1}"
  by (auto simp: max_child_def Let_def)

function heapify :: "nat \<Rightarrow> size_t \<Rightarrow> size_t \<Rightarrow> size_t \<Rightarrow> cmp \<Rightarrow> mem \<Rightarrow> mem" where
  "heapify arr i cnt sz compare m =
     (let mx = max_child arr i cnt sz compare m
      in if mx = i then m else heapify arr mx cnt sz compare (do_swap arr i mx sz m))"
  by pat_completeness auto
termination
proof (relation "measure (\<lambda>(arr, i, cnt, sz, compare, m). cnt + 1 - i)", goal_cases)
  case (2 arr i cnt sz compare m mx)
  then show ?case using max_child_cases [of arr i cnt sz compare m] by auto
qed simp

declare heapify.simps [simp del]

primrec build_loop :: "nat \<Rightarrow> nat \<Rightarrow> size_t \<Rightarrow> size_t \<Rightarrow> cmp \<Rightarrow> mem \<Rightarrow> mem" where
  "build_loop 0 arr cnt sz compare m = m"
| "build_loop (Suc i) arr cnt sz compare m = build_loop i arr cnt sz compare (heapify arr (Suc i) cnt sz compare m)"

fun sort_loop :: "nat \<Rightarrow> nat \<Rightarrow> size_t \<Rightarrow> cmp \<Rightarrow> mem \<Rightarrow> mem" where
  "sort_loop 0 arr sz compare m = m"
| "sort_loop (Suc 0) arr sz compare m = m"
| "sort_loop (Suc (Suc i)) arr sz compare m = sort_loop (Suc i) arr sz compare (heapify arr 1 (Suc i) sz compare (do_swap arr 1 (Suc (Suc i)) sz m))"

definition sort_array :: "nat \<Rightarrow> size_t \<Rightarrow> size_t \<Rightarrow> cmp \<Rightarrow> mem \<Rightarrow> mem option" where
  "sort_array arr cnt sz compare m = do {
     ASSERT (arr \<noteq> 0 \<or> cnt = 0);
     ASSERT (sz > 0);
     Some (sort_loop cnt arr sz compare (build_loop (cnt div 2) arr cnt sz compare m)) }"

definition compare_thunk :: "u8 list \<Rightarrow> u8 list \<Rightarrow> cmp \<Rightarrow> int" where
  "compare_thunk a b aux = aux a b"

definition qsort :: "nat \<Rightarrow> size_t \<Rightarrow> size_t \<Rightarrow> cmp \<Rightarrow> mem \<Rightarrow> mem option" where
  "qsort arr cnt sz compare m = sort_array arr cnt sz (\<lambda>a b. compare_thunk a b compare) m"

subsection \<open>Searching\<close>

text \<open>
  The loop of \<^verbatim>\<open>binary_search\<close> on the addresses \<^verbatim>\<open>first\<close> and \<^verbatim>\<open>last\<close>; the result is an address, 0 for none. With elements of no bytes
  the two are equal, so that the test of the size never decides.
\<close>

function search_loop :: "u8 list \<Rightarrow> nat \<Rightarrow> nat \<Rightarrow> size_t \<Rightarrow> cmp \<Rightarrow> mem \<Rightarrow> nat" where
  "search_loop key first lst sz compare m =
     (if first < lst \<and> 0 < sz
      then (let range = (lst - first) div sz;
                middle = first + (range div 2) * sz;
                c = compare key (map m [middle..<middle + sz])
            in if c < 0 then search_loop key first middle sz compare m
               else if c > 0 then search_loop key (middle + sz) lst sz compare m
               else middle)
      else 0)"
  by pat_completeness auto
termination
proof (relation "measure (\<lambda>(key, first, lst, sz, compare, m). lst - first)", goal_cases)
  case (2 key first lst sz compare m range middle c)
  have "range div 2 * sz \<le> (lst - first) div 2" unfolding 2(2)
    by (metis div_times_less_eq_dividend div_mult2_eq mult.commute div_le_mono)
  also have "\<dots> < lst - first" using 2(1) by simp
  finally show ?case using 2(3) by simp
qed auto

declare search_loop.simps [simp del]

definition binary_search :: "u8 list \<Rightarrow> nat \<Rightarrow> size_t \<Rightarrow> size_t \<Rightarrow> cmp \<Rightarrow> mem \<Rightarrow> nat" where
  "binary_search key arr cnt sz compare m = search_loop key arr (arr + sz * cnt) sz compare m"

definition bsearch :: "u8 list \<Rightarrow> nat \<Rightarrow> size_t \<Rightarrow> size_t \<Rightarrow> cmp \<Rightarrow> mem \<Rightarrow> nat" where
  "bsearch key arr cnt sz compare m = binary_search key arr cnt sz (\<lambda>a b. compare_thunk a b compare) m"
subsection \<open>Swapping elements\<close>

lemma swap_bytes_eq:
  assumes "a + n \<le> b \<or> b + n \<le> a \<or> a = b"
  shows "swap_bytes n a b m x = (if a \<le> x \<and> x < a + n then m (b + (x - a)) else if b \<le> x \<and> x < b + n then m (a + (x - b)) else m x)"
  using assms
proof (induction n arbitrary: a b m)
  case (Suc n)
  have "swap_bytes n (a + 1) (b + 1) (m(a := m b, b := m a)) x
      = (if a + 1 \<le> x \<and> x < a + 1 + n then (m(a := m b, b := m a)) (b + 1 + (x - (a + 1)))
         else if b + 1 \<le> x \<and> x < b + 1 + n then (m(a := m b, b := m a)) (a + 1 + (x - (b + 1))) else (m(a := m b, b := m a)) x)"
    using Suc.prems by (intro Suc.IH) auto
  note eq = this [folded swap_bytes.simps(2)]
  consider "x = a" | "x \<noteq> a" "x = b" | "a < x" "x < a + Suc n" | "b < x" "x < b + Suc n" "\<not> (a \<le> x \<and> x < a + Suc n)"
    | "\<not> (a \<le> x \<and> x < a + Suc n)" "\<not> (b \<le> x \<and> x < b + Suc n)" by linarith
  then show ?case
  proof cases
    case 3
    then have "b + 1 + (x - (a + 1)) = b + (x - a)" "b + (x - a) \<noteq> b" "a \<noteq> b \<Longrightarrow> b + (x - a) \<noteq> a" using Suc.prems by linarith+
    then show ?thesis unfolding eq using 3 by auto
  next
    case 4
    then have "a + 1 + (x - (b + 1)) = a + (x - b)" "a + (x - b) \<noteq> a" "a \<noteq> b \<Longrightarrow> a + (x - b) \<noteq> b" using Suc.prems by linarith+
    then show ?thesis unfolding eq using 4 by auto
  next
    case 1
    then have "\<not> (a + 1 \<le> x \<and> x < a + 1 + n)" "\<not> (b + 1 \<le> x \<and> x < b + 1 + n)" "(m(a := m b, b := m a)) x = m b" "a \<le> x \<and> x < a + Suc n" "b + (x - a) = b"
      using Suc.prems by auto
    then show ?thesis unfolding eq by (simp only: if_False if_True simp_thms)
  next
    case 2
    then have "\<not> (a + 1 \<le> x \<and> x < a + 1 + n)" "\<not> (b + 1 \<le> x \<and> x < b + 1 + n)" "\<not> (a \<le> x \<and> x < a + Suc n)" "b \<le> x \<and> x < b + Suc n"
      "(m(a := m b, b := m a)) x = m a" "a + (x - b) = a" using Suc.prems by auto
    then show ?thesis unfolding eq by (simp only: if_False if_True simp_thms)
  next
    case 5
    then have "\<not> (a + 1 \<le> x \<and> x < a + 1 + n)" "\<not> (b + 1 \<le> x \<and> x < b + 1 + n)" "x \<noteq> a" "x \<noteq> b" by auto
    then show ?thesis unfolding eq using 5 by (simp only: if_False fun_upd_other not_False_eq_True)
  qed
qed auto

definition swap_at :: "nat \<Rightarrow> nat \<Rightarrow> 'a list \<Rightarrow> 'a list" where
  "swap_at i j xs = xs[i := xs ! j, j := xs ! i]"

lemma length_elems [simp]: "length (elems m arr sz n) = n" "k < n \<Longrightarrow> elems m arr sz n ! k = elem m arr sz k"
  by (simp_all add: elems_def)

lemma swap_at_simps [simp]: "length (swap_at i j xs) = length xs"
  by (simp add: swap_at_def)

lemma nth_swap_at: "i < length xs \<Longrightarrow> j < length xs \<Longrightarrow> k < length xs \<Longrightarrow> swap_at i j xs ! k = xs ! (if k = i then j else if k = j then i else k)"
  by (auto simp: swap_at_def nth_list_update)

lemma mset_swap_at: "i < length xs \<Longrightarrow> j < length xs \<Longrightarrow> mset (swap_at i j xs) = mset xs"
  unfolding swap_at_def by (cases "i = j") (auto simp: mset_update)

text \<open>Elements at different places share no byte.\<close>

lemma elem_ranges: "i \<noteq> j \<Longrightarrow> arr + i * sz + sz \<le> arr + j * sz \<or> arr + j * sz + sz \<le> arr + i * (sz :: nat)"
proof -
  assume "i \<noteq> j"
  then have "(i + 1) * sz \<le> j * sz \<or> (j + 1) * sz \<le> i * sz" by (metis Suc_eq_plus1 Suc_leI mult_le_mono1 nat_neq_iff)
  then show ?thesis by auto
qed

lemma do_swap_elem:
  assumes "1 \<le> a" "1 \<le> b"
  shows "elem (do_swap arr a b sz m) arr sz k = elem m arr sz (if k = a - 1 then b - 1 else if k = b - 1 then a - 1 else k)"
proof (rule nth_equalityI)
  fix i assume i: "i < length (elem (do_swap arr a b sz m) arr sz k)"
  then have i: "i < sz" by (simp add: elem_def)
  let ?a = "arr + (a - 1) * sz" and ?b = "arr + (b - 1) * sz"
  have d: "?a + sz \<le> ?b \<or> ?b + sz \<le> ?a \<or> ?a = ?b" using elem_ranges [of "a - 1" "b - 1" arr sz] by metis
  have ka: "k \<noteq> a - 1 \<Longrightarrow> \<not> (?a \<le> arr + k * sz + i \<and> arr + k * sz + i < ?a + sz)" using elem_ranges [of k "a - 1" arr sz] i by linarith
  have kb: "k \<noteq> b - 1 \<Longrightarrow> \<not> (?b \<le> arr + k * sz + i \<and> arr + k * sz + i < ?b + sz)" using elem_ranges [of k "b - 1" arr sz] i by linarith
  show "elem (do_swap arr a b sz m) arr sz k ! i = elem m arr sz (if k = a - 1 then b - 1 else if k = b - 1 then a - 1 else k) ! i"
    using i ka kb unfolding do_swap_def elem_def swap_bytes_eq [OF d, abs_def] by (auto simp: add.assoc)
qed (simp add: elem_def)

lemma do_swap_elems:
  assumes "1 \<le> a" "1 \<le> b" "a \<le> n" "b \<le> n"
  shows "elems (do_swap arr a b sz m) arr sz n = swap_at (a - 1) (b - 1) (elems m arr sz n)"
  using assms by (intro nth_equalityI) (auto simp: do_swap_elem nth_swap_at)

lemma do_swap_outside:
  assumes "1 \<le> a" "1 \<le> b" "a \<le> n" "b \<le> n" and x: "x < arr \<or> arr + n * sz \<le> x"
  shows "do_swap arr a b sz m x = m x"
proof -
  let ?a = "arr + (a - 1) * sz" and ?b = "arr + (b - 1) * sz"
  have d: "?a + sz \<le> ?b \<or> ?b + sz \<le> ?a \<or> ?a = ?b" using elem_ranges [of "a - 1" "b - 1" arr sz] by metis
  have "a * sz \<le> n * sz" "b * sz \<le> n * sz" using assms by simp_all
  moreover have "(a - 1) * sz + sz = a * sz" "(b - 1) * sz + sz = b * sz" using assms(1,2) by (simp_all add: mult_eq_if)
  ultimately have "\<not> (?a \<le> x \<and> x < ?a + sz)" "\<not> (?b \<le> x \<and> x < ?b + sz)" using x by linarith+
  then show ?thesis unfolding do_swap_def swap_bytes_eq [OF d] by (simp only: if_False)
qed
subsection \<open>Heap sort\<close>

text \<open>
  What the documentation asks of a comparison: its sign is that of an order in which any two elements can be
  compared. The lemmas about heaps are on lists and with indices from 1, as the code has them.
\<close>

definition strcmp_like :: "('a \<Rightarrow> 'a \<Rightarrow> int) \<Rightarrow> bool" where
  "strcmp_like c \<longleftrightarrow> (\<forall>x y. c x y < 0 \<longleftrightarrow> c y x > 0) \<and> (\<forall>x y z. c x y \<le> 0 \<and> c y z \<le> 0 \<longrightarrow> c x z \<le> 0)"

lemma strcmp_likeD:
  assumes "strcmp_like c"
  shows "c x x = 0" "c x y > 0 \<Longrightarrow> c y x < 0" "\<not> c x y \<le> 0 \<Longrightarrow> c y x \<le> 0" "c x y \<le> 0 \<Longrightarrow> c y z \<le> 0 \<Longrightarrow> c x z \<le> 0"
proof -
  have "c x x < 0 \<longleftrightarrow> c x x > 0" using assms unfolding strcmp_like_def by blast
  then show "c x x = 0" by linarith
  show "c x y > 0 \<Longrightarrow> c y x < 0" "c x y \<le> 0 \<Longrightarrow> c y z \<le> 0 \<Longrightarrow> c x z \<le> 0" using assms unfolding strcmp_like_def by blast+
  show "\<not> c x y \<le> 0 \<Longrightarrow> c y x \<le> 0" using assms unfolding strcmp_like_def by (meson less_imp_le not_le)
qed

abbreviation at1 :: "'a list \<Rightarrow> nat \<Rightarrow> 'a" where
  "at1 xs k \<equiv> xs ! (k - 1)"

text \<open>Above \<open>j\<close> no element of the first \<open>n\<close> is greater than its parent; the second form leaves out the children of \<open>i\<close>.\<close>

definition heap_from :: "('a \<Rightarrow> 'a \<Rightarrow> int) \<Rightarrow> nat \<Rightarrow> nat \<Rightarrow> 'a list \<Rightarrow> bool" where
  "heap_from c j n xs \<longleftrightarrow> (\<forall>k. 2 \<le> k \<and> k \<le> n \<and> j \<le> k div 2 \<longrightarrow> c (at1 xs k) (at1 xs (k div 2)) \<le> 0)"

definition heap_but :: "('a \<Rightarrow> 'a \<Rightarrow> int) \<Rightarrow> nat \<Rightarrow> nat \<Rightarrow> nat \<Rightarrow> 'a list \<Rightarrow> bool" where
  "heap_but c j i n xs \<longleftrightarrow> (\<forall>k. 2 \<le> k \<and> k \<le> n \<and> j \<le> k div 2 \<longrightarrow>
     (if k div 2 = i then j \<le> i div 2 \<longrightarrow> c (at1 xs k) (at1 xs (i div 2)) \<le> 0 else c (at1 xs k) (at1 xs (k div 2)) \<le> 0))"

lemma heap_but_start: "heap_from c (Suc i) n xs \<Longrightarrow> 1 \<le> i \<Longrightarrow> heap_but c i i n xs"
  by (auto simp: heap_from_def heap_but_def)

text \<open>The element goes down to its greater child.\<close>

lemma heap_but_step:
  assumes c: "strcmp_like c" and b: "heap_but c j i n xs" and ji: "1 \<le> j" "j \<le> i" and n: "n \<le> length xs"
    and mx: "mx \<in> {2 * i, 2 * i + 1}" "mx \<le> n" "c (at1 xs mx) (at1 xs i) > 0"
    and other: "\<And>k. k \<in> {2 * i, 2 * i + 1} \<Longrightarrow> k \<le> n \<Longrightarrow> c (at1 xs k) (at1 xs mx) \<le> 0"
  shows "heap_but c j mx n (swap_at (i - 1) (mx - 1) xs)"
  unfolding heap_but_def
proof (intro allI impI)
  fix k assume k: "2 \<le> k \<and> k \<le> n \<and> j \<le> k div 2"
  have m2: "mx div 2 = i" "i < mx" using mx(1) ji by auto
  have at: "at1 (swap_at (i - 1) (mx - 1) xs) l = at1 xs (if l = i then mx else if l = mx then i else l)" if "1 \<le> l" "l \<le> n" for l
    using that mx(2) n ji m2 by (subst nth_swap_at) auto
  have inv: "if k div 2 = i then j \<le> i div 2 \<longrightarrow> c (at1 xs k) (at1 xs (i div 2)) \<le> 0 else c (at1 xs k) (at1 xs (k div 2)) \<le> 0"
    using b k unfolding heap_but_def by blast
  let ?ys = "swap_at (i - 1) (mx - 1) xs"
  have kd: "1 \<le> k div 2" "k div 2 \<le> n" "1 \<le> k" "k div 2 < k" using k by auto
  show "if k div 2 = mx then j \<le> mx div 2 \<longrightarrow> c (at1 ?ys k) (at1 ?ys (mx div 2)) \<le> 0 else c (at1 ?ys k) (at1 ?ys (k div 2)) \<le> 0"
  proof (cases "k div 2 = mx")
    case True
    then have "k \<noteq> i" "k \<noteq> mx" using m2 kd by auto
    moreover have "1 \<le> i" "i \<le> n" using ji m2 mx(2) by auto
    ultimately show ?thesis using inv True m2 at [of k] at [of i] k kd by auto
  next
    case False
    consider "k div 2 = i" "k = mx" | "k div 2 = i" "k \<noteq> mx" | "k div 2 \<noteq> i" "k = i" | "k div 2 \<noteq> i" "k \<noteq> i" by blast
    then show ?thesis
    proof cases
      case 1
      then have "c (at1 ?ys k) (at1 ?ys (k div 2)) = c (at1 xs i) (at1 xs mx)" using at [of k] at [of "k div 2"] k kd m2 by auto
      then show ?thesis using False strcmp_likeD(2) [OF c mx(3)] by simp
    next
      case 2
      then have "k \<noteq> i" using kd by auto
      then have "c (at1 ?ys k) (at1 ?ys (k div 2)) = c (at1 xs k) (at1 xs mx)" using at [of k] at [of "k div 2"] k kd 2 by auto
      moreover have "k \<in> {2 * i, 2 * i + 1}" using 2(1) by auto
      ultimately show ?thesis using False other k by simp
    next
      case 3
      then have "c (at1 ?ys k) (at1 ?ys (k div 2)) = c (at1 xs mx) (at1 xs (i div 2))" using at [of k] at [of "k div 2"] k kd False by auto
      moreover have "c (at1 xs mx) (at1 xs (i div 2)) \<le> 0" using b [unfolded heap_but_def, rule_format, of mx] mx(2) m2 3 k kd by auto
      ultimately show ?thesis using False by simp
    next
      case 4
      then have "k \<noteq> mx" using m2 by auto
      then have "c (at1 ?ys k) (at1 ?ys (k div 2)) = c (at1 xs k) (at1 xs (k div 2))" using at [of k] at [of "k div 2"] k kd 4 False by auto
      then show ?thesis using inv 4 False by simp
    qed
  qed
qed

lemma heap_but_stop:
  assumes "heap_but c j i n xs" and "\<And>k. k \<in> {2 * i, 2 * i + 1} \<Longrightarrow> k \<le> n \<Longrightarrow> c (at1 xs k) (at1 xs i) \<le> 0"
  shows "heap_from c j n xs"
  unfolding heap_from_def
proof (intro allI impI)
  fix k assume k: "2 \<le> k \<and> k \<le> n \<and> j \<le> k div 2"
  have "k div 2 = i \<Longrightarrow> k \<in> {2 * i, 2 * i + 1}" by auto
  then show "c (at1 xs k) (at1 xs (k div 2)) \<le> 0" using assms(1) assms(2) [of k] k unfolding heap_but_def by (cases "k div 2 = i") auto
qed

lemma max_child_spec:
  fixes arr i n sz c m N
  defines "xs \<equiv> elems m arr sz N" and "mx \<equiv> max_child arr i n sz c m"
  assumes c: "strcmp_like c" and i: "1 \<le> i" "i \<le> n" "n \<le> N"
  shows "\<And>k. k \<in> {2 * i, 2 * i + 1} \<Longrightarrow> k \<le> n \<Longrightarrow> c (at1 xs k) (at1 xs mx) \<le> 0"
    and "mx \<noteq> i \<Longrightarrow> mx \<in> {2 * i, 2 * i + 1} \<and> mx \<le> n \<and> c (at1 xs mx) (at1 xs i) > 0"
proof -
  have dc: "do_compare arr a b sz c m = c (at1 xs a) (at1 xs b)" if "1 \<le> a" "a \<le> n" "1 \<le> b" "b \<le> n" for a b
    using that i(3) by (simp add: do_compare_def xs_def)
  define l where "l = (if 2 * i \<le> n \<and> c (at1 xs (2 * i)) (at1 xs i) > 0 then 2 * i else i)"
  have l: "1 \<le> l" "l \<le> n" "c (at1 xs i) (at1 xs l) \<le> 0" "2 * i \<le> n \<Longrightarrow> c (at1 xs (2 * i)) (at1 xs l) \<le> 0" "l \<noteq> i \<Longrightarrow> l = 2 * i \<and> c (at1 xs l) (at1 xs i) > 0"
    using i strcmp_likeD(1) [OF c] strcmp_likeD(2) [OF c, of "at1 xs (2 * i)" "at1 xs i"] by (auto simp: l_def split: if_splits)
  have mx: "mx = (if 2 * i + 1 \<le> n \<and> c (at1 xs (2 * i + 1)) (at1 xs l) > 0 then 2 * i + 1 else l)"
  proof -
    have "(if 2 * i \<le> n \<and> do_compare arr (2 * i) i sz c m > 0 then 2 * i else i) = l" using i dc [of "2 * i" i] by (auto simp: l_def)
    then have "mx = (if 2 * i + 1 \<le> n \<and> do_compare arr (2 * i + 1) l sz c m > 0 then 2 * i + 1 else l)" by (simp only: mx_def max_child_def Let_def)
    then show ?thesis using dc [of "2 * i + 1" l] l(1,2) by (cases "2 * i + 1 \<le> n") simp_all
  qed
  show "c (at1 xs k) (at1 xs mx) \<le> 0" if k: "k \<in> {2 * i, 2 * i + 1}" "k \<le> n" for k
  proof (cases "2 * i + 1 \<le> n \<and> c (at1 xs (2 * i + 1)) (at1 xs l) > 0")
    case True
    then have "mx = 2 * i + 1" "c (at1 xs l) (at1 xs (2 * i + 1)) \<le> 0" using mx strcmp_likeD(2) [OF c] by force+
    then show ?thesis using k strcmp_likeD(1) [OF c] l(4) strcmp_likeD(4) [OF c, of "at1 xs (2 * i)" "at1 xs l"] by auto
  next
    case False
    then show ?thesis using k l(4) mx by auto
  qed
  show "mx \<in> {2 * i, 2 * i + 1} \<and> mx \<le> n \<and> c (at1 xs mx) (at1 xs i) > 0" if "mx \<noteq> i"
  proof (cases "2 * i + 1 \<le> n \<and> c (at1 xs (2 * i + 1)) (at1 xs l) > 0")
    case True
    then have m: "mx = 2 * i + 1" using mx by simp
    have "\<not> c (at1 xs mx) (at1 xs i) \<le> 0" using strcmp_likeD(4) [OF c _ l(3), of "at1 xs mx"] True m by auto
    then show ?thesis using m True by simp
  next
    case False
    then show ?thesis using mx l(2,5) that by auto
  qed
qed


text \<open>What \<^verbatim>\<open>heapify\<close> at \<open>i\<close> with the count \<open>n\<close> may do to an array of \<open>N\<close> elements: permute the elements from \<open>i\<close> to \<open>n\<close>.\<close>

definition shuffled :: "nat \<Rightarrow> size_t \<Rightarrow> nat \<Rightarrow> nat \<Rightarrow> nat \<Rightarrow> mem \<Rightarrow> mem \<Rightarrow> bool" where
  "shuffled arr sz i n N m m' \<longleftrightarrow> mset (elems m' arr sz n) = mset (elems m arr sz n) \<and> (\<forall>k<N. k < i \<or> n \<le> k \<longrightarrow> elem m' arr sz k = elem m arr sz k)
     \<and> (\<forall>x. x < arr \<or> arr + N * sz \<le> x \<longrightarrow> m' x = m x)"

lemma shuffled_refl [simp]: "shuffled arr sz i n N m m"
  by (simp add: shuffled_def)

lemma shuffled_trans: "shuffled arr sz i n N m m' \<Longrightarrow> shuffled arr sz j n N m' m'' \<Longrightarrow> l \<le> i \<Longrightarrow> l \<le> j \<Longrightarrow> shuffled arr sz l n N m m''"
  by (auto simp: shuffled_def)

lemma shuffled_swap:
  assumes "1 \<le> a" "1 \<le> b" "a \<le> n" "b \<le> n" "n \<le> N" "l \<le> a - 1" "l \<le> b - 1"
  shows "shuffled arr sz l n N m (do_swap arr a b sz m)"
  using assms do_swap_elems [OF assms(1-4)] do_swap_outside [of a b N _ arr sz m]
  by (auto simp: shuffled_def mset_swap_at do_swap_elem)

lemma heapify_heap:
  assumes "strcmp_like c" and "1 \<le> j" "j \<le> i" "i \<le> n" "n \<le> N" and "heap_but c j i n (elems m arr sz N)"
  shows "heap_from c j n (elems (heapify arr i n sz c m) arr sz N) \<and> shuffled arr sz (j - 1) n N m (heapify arr i n sz c m)"
  using assms
proof (induction arr i n sz c m rule: heapify.induct)
  case (1 arr i n sz c m)
  note c = 1(2) and j = 1(3,4) and n = 1(5,6) and but = 1(7)
  let ?mx = "max_child arr i n sz c m" and ?xs = "elems m arr sz N"
  have i: "1 \<le> i" using j by simp
  note s = max_child_spec [OF c i n, where arr = arr and sz = sz and m = m]
  show ?case
  proof (cases "?mx = i")
    case True
    then have "heapify arr i n sz c m = m" by (subst heapify.simps) simp
    then show ?thesis using heap_but_stop [OF but] s(1) True by simp
  next
    case False
    let ?m = "do_swap arr i ?mx sz m"
    have mx: "?mx \<in> {2 * i, 2 * i + 1}" "?mx \<le> n" "c (at1 ?xs ?mx) (at1 ?xs i) > 0" using s(2) False by auto
    then have r: "1 \<le> ?mx" "j \<le> ?mx" "i \<le> ?mx" using i j by auto
    have "elems ?m arr sz N = swap_at (i - 1) (?mx - 1) ?xs" using i n mx(2) r by (intro do_swap_elems) auto
    then have "heap_but c j ?mx n (elems ?m arr sz N)" using heap_but_step [OF c but j _ mx s(1)] n(2) by simp
    note ih = 1(1) [OF refl False c j(1) r(2) mx(2) n(2) this]
    have "shuffled arr sz (j - 1) n N m ?m" using i j n mx(2) r by (intro shuffled_swap) auto
    moreover have "heapify arr i n sz c m = heapify arr ?mx n sz c ?m" using False by (subst heapify.simps) (simp add: Let_def)
    ultimately show ?thesis using ih shuffled_trans [of arr sz "j - 1" n N m ?m "j - 1"] by simp
  qed
qed

lemma build_loop_heap:
  assumes "strcmp_like c" and "i \<le> n" and "heap_from c (Suc i) n (elems m arr sz n)"
  shows "heap_from c 1 n (elems (build_loop i arr n sz c m) arr sz n) \<and> shuffled arr sz 0 n n m (build_loop i arr n sz c m)"
  using assms
proof (induction i arbitrary: m)
  case (Suc i)
  have "heap_but c (Suc i) (Suc i) n (elems m arr sz n)" using Suc.prems(3) by (intro heap_but_start) simp_all
  then have h: "heap_from c (Suc i) n (elems (heapify arr (Suc i) n sz c m) arr sz n)" "shuffled arr sz i n n m (heapify arr (Suc i) n sz c m)"
    using heapify_heap [OF Suc.prems(1) _ order_refl Suc.prems(2) order_refl] by auto
  show ?case using Suc.IH [OF Suc.prems(1) _ h(1)] Suc.prems(2) shuffled_trans [OF h(2)] by auto
qed simp

text \<open>The first element of a heap is the greatest.\<close>

lemma heap_max:
  assumes c: "strcmp_like c" and h: "heap_from c 1 n xs" and k: "1 \<le> k" "k \<le> n"
  shows "c (at1 xs k) (at1 xs 1) \<le> 0"
  using k
proof (induction k rule: less_induct)
  case (less k)
  show ?case
  proof (cases "k = 1")
    case False
    then have "2 \<le> k" using less.prems by simp
    then have "c (at1 xs k) (at1 xs (k div 2)) \<le> 0" "c (at1 xs (k div 2)) (at1 xs 1) \<le> 0"
      using h less by (auto simp: heap_from_def)
    then show ?thesis by (rule strcmp_likeD(4) [OF c])
  qed (simp add: strcmp_likeD(1) [OF c])
qed
lemma shuffled_mono:
  assumes "shuffled arr sz l n N m m'" and "n \<le> n'" "n' \<le> N"
  shows "shuffled arr sz l n' N m m'"
proof -
  have "elems mm arr sz n' = elems mm arr sz n @ map (elem mm arr sz) [n..<n']" for mm
    using upt_add_eq_append [of 0 n "n' - n"] assms(2) by (simp add: elems_def)
  moreover have "map (elem m' arr sz) [n..<n'] = map (elem m arr sz) [n..<n']" using assms by (auto simp: shuffled_def)
  moreover have "mset (elems m' arr sz n) = mset (elems m arr sz n)" using assms(1) by (simp add: shuffled_def)
  ultimately have "mset (elems m' arr sz n') = mset (elems m arr sz n')" by (simp only: mset_append)
  then show ?thesis using assms by (auto simp: shuffled_def)
qed

lemma shuffled_set:
  assumes "shuffled arr sz l n N m m'" "k < n"
  shows "\<exists>j<n. elem m' arr sz k = elem m arr sz j"
proof -
  have "elem m' arr sz k \<in> set (elems m' arr sz n)" using assms(2) by (auto simp: elems_def)
  also have "set (elems m' arr sz n) = set (elems m arr sz n)" using assms(1) by (metis shuffled_def set_mset_mset)
  finally show ?thesis by (auto simp: elems_def)
qed

text \<open>The state of the second loop of \<^verbatim>\<open>sort\<close>: a heap of \<open>n\<close> elements, and after it the greatest elements in order.\<close>

definition sort_inv :: "cmp \<Rightarrow> nat \<Rightarrow> nat \<Rightarrow> (nat \<Rightarrow> u8 list) \<Rightarrow> bool" where
  "sort_inv c n N x \<longleftrightarrow> (\<forall>k l. k < l \<and> n \<le> l \<and> l < N \<longrightarrow> c (x k) (x l) \<le> 0)"

lemma sort_step:
  assumes c: "strcmp_like c" and n: "2 \<le> n" "n \<le> N" and h: "heap_from c 1 n (elems m arr sz N)" and inv: "sort_inv c n N (elem m arr sz)"
    and m': "m' = heapify arr 1 (n - 1) sz c (do_swap arr 1 n sz m)"
  shows "heap_from c 1 (n - 1) (elems m' arr sz N)" "sort_inv c (n - 1) N (elem m' arr sz)" "shuffled arr sz 0 N N m m'"
proof -
  let ?s = "do_swap arr 1 n sz m"
  have e: "elem ?s arr sz k = elem m arr sz (if k = 0 then n - 1 else if k = n - 1 then 0 else k)" for k
    using do_swap_elem [of 1 n arr sz m k] n by simp
  have "heap_but c 1 1 (n - 1) (elems ?s arr sz N)"
    unfolding heap_but_def
  proof (intro allI impI)
    fix k assume k: "2 \<le> k \<and> k \<le> n - 1 \<and> 1 \<le> k div 2"
    have "c (at1 (elems m arr sz N) k) (at1 (elems m arr sz N) (k div 2)) \<le> 0" using h k by (auto simp: heap_from_def)
    then show "if k div 2 = 1 then 1 \<le> (1 :: nat) div 2 \<longrightarrow> c (at1 (elems ?s arr sz N) k) (at1 (elems ?s arr sz N) (1 div 2)) \<le> 0
        else c (at1 (elems ?s arr sz N) k) (at1 (elems ?s arr sz N) (k div 2)) \<le> 0" using k n e by auto
  qed
  then have hp: "heap_from c 1 (n - 1) (elems m' arr sz N)" "shuffled arr sz 0 (n - 1) N ?s m'"
    using heapify_heap [OF c, of 1 1 "n - 1" N ?s arr sz] n by (auto simp: m')
  then show "heap_from c 1 (n - 1) (elems m' arr sz N)" by simp
  have sw: "shuffled arr sz 0 N N m ?s" using n by (intro shuffled_swap) auto
  show "shuffled arr sz 0 N N m m'" using shuffled_trans [OF sw shuffled_mono [OF hp(2)], of 0] n by simp
  have top: "c (elem m arr sz j) (elem m arr sz 0) \<le> 0" if "j < n" for j
    using heap_max [OF c h, of "j + 1"] that n by simp
  have same: "elem m' arr sz l = elem ?s arr sz l" if "n - 1 \<le> l" "l < N" for l using hp(2) that by (auto simp: shuffled_def)
  show "sort_inv c (n - 1) N (elem m' arr sz)"
    unfolding sort_inv_def
  proof (intro allI impI)
    fix k l assume kl: "k < l \<and> n - 1 \<le> l \<and> l < N"
    have low: "\<exists>j<n. elem m' arr sz k = elem m arr sz j" if k: "k < n - 1"
    proof -
      obtain j where j: "j < n - 1" "elem m' arr sz k = elem ?s arr sz j" using shuffled_set [OF hp(2) k] by blast
      then show ?thesis using e [of j] n by (intro exI [of _ "if j = 0 then n - 1 else j"]) auto
    qed
    show "c (elem m' arr sz k) (elem m' arr sz l) \<le> 0"
    proof (cases "l = n - 1")
      case True
      then have "elem m' arr sz l = elem m arr sz 0" using same e n kl by auto
      then show ?thesis using low top kl True by auto
    next
      case False
      then have l: "n \<le> l" "elem m' arr sz l = elem m arr sz l" using same e n kl by auto
      consider "k < n - 1" | "k = n - 1" | "n \<le> k" by linarith
      then show ?thesis
      proof cases
        case 1
        then obtain j where "j < n" "elem m' arr sz k = elem m arr sz j" using low by blast
        then show ?thesis using inv l kl by (simp add: sort_inv_def)
      next
        case 2
        then have "elem m' arr sz k = elem m arr sz 0" using same e n kl by auto
        then show ?thesis using inv l kl n by (simp add: sort_inv_def)
      next
        case 3
        then have "elem m' arr sz k = elem m arr sz k" using same e n kl by auto
        then show ?thesis using inv l kl by (simp add: sort_inv_def)
      qed
    qed
  qed
qed

lemma sort_loop_sorts:
  assumes "strcmp_like c" and "n \<le> N" and "heap_from c 1 n (elems m arr sz N)" and "sort_inv c n N (elem m arr sz)"
  shows "sort_inv c 1 N (elem (sort_loop n arr sz c m) arr sz) \<and> shuffled arr sz 0 N N m (sort_loop n arr sz c m)"
  using assms
proof (induction n arr sz c m rule: sort_loop.induct)
  case (3 i arr sz c m)
  note s = sort_step [OF 3(2) _ 3(3-5) refl]
  show ?case using 3(1) [OF 3(2)] s 3(3) shuffled_trans [of arr sz 0 N N m _ 0] by simp
qed (auto simp: sort_inv_def)


subsection \<open>Binary search\<close>

lemma strcmp_like_strict:
  assumes c: "strcmp_like c"
  shows "c x y < 0 \<Longrightarrow> c y z \<le> 0 \<Longrightarrow> c x z < 0" and "c x y > 0 \<Longrightarrow> c z y \<le> 0 \<Longrightarrow> c x z > 0"
proof -
  have swap: "c a b < 0 \<longleftrightarrow> c b a > 0" for a b using c unfolding strcmp_like_def by blast
  show "c x z < 0" if "c x y < 0" "c y z \<le> 0"
  proof (rule ccontr)
    assume "\<not> c x z < 0"
    then have "c z x \<le> 0" using swap by force
    then have "c y x \<le> 0" using that(2) strcmp_likeD(4) [OF c] by blast
    then show False using that(1) swap by force
  qed
  show "c x z > 0" if "c x y > 0" "c z y \<le> 0"
  proof (rule ccontr)
    assume "\<not> c x z > 0"
    then have "c x y \<le> 0" using that(2) strcmp_likeD(4) [OF c, of x z y] by simp
    then show False using that(1) by simp
  qed
qed

lemma search_loop_finds:
  assumes c: "strcmp_like c" and sz: "0 < sz" and so: "\<And>k l. k < l \<Longrightarrow> l < N \<Longrightarrow> c (elem m arr sz k) (elem m arr sz l) \<le> 0"
    and lohi: "lo \<le> hi" "hi \<le> N" and out: "\<And>k. k < lo \<Longrightarrow> c key (elem m arr sz k) > 0" "\<And>k. hi \<le> k \<Longrightarrow> k < N \<Longrightarrow> c key (elem m arr sz k) < 0"
  shows "(\<exists>k<N. search_loop key (arr + lo * sz) (arr + hi * sz) sz c m = arr + k * sz \<and> c key (elem m arr sz k) = 0)
    \<or> search_loop key (arr + lo * sz) (arr + hi * sz) sz c m = 0 \<and> (\<forall>k<N. c key (elem m arr sz k) \<noteq> 0)"
  using lohi out
proof (induction "hi - lo" arbitrary: lo hi rule: less_induct)
  case less
  show ?case
  proof (cases "lo < hi")
    case False
    then have "lo = hi" using less.prems by simp
    moreover have "c key (elem m arr sz k) \<noteq> 0" if "k < N" for k using less.prems(3,4) [of k] that \<open>lo = hi\<close> by (cases "k < lo") force+
    ultimately show ?thesis by (subst (1 2) search_loop.simps) auto
  next
    case True
    define mid where "mid = lo + (hi - lo) div 2"
    have mid: "lo \<le> mid" "mid < hi" "mid < N" using True less.prems(2) by (auto simp: mid_def)
    have "arr + hi * sz - (arr + lo * sz) = (hi - lo) * sz" by (simp add: diff_mult_distrib)
    then have "arr + lo * sz + (arr + hi * sz - (arr + lo * sz)) div sz div 2 * sz = arr + mid * sz"
      using sz by (simp add: mid_def add_mult_distrib)
    then have eq: "search_loop key (arr + lo * sz) (arr + hi * sz) sz c m =
        (let d = c key (elem m arr sz mid) in if d < 0 then search_loop key (arr + lo * sz) (arr + mid * sz) sz c m
         else if d > 0 then search_loop key (arr + (mid + 1) * sz) (arr + hi * sz) sz c m else arr + mid * sz)"
      using True sz by (subst search_loop.simps) (simp add: Let_def elem_def algebra_simps)
    consider "c key (elem m arr sz mid) < 0" | "c key (elem m arr sz mid) > 0" | "c key (elem m arr sz mid) = 0" by linarith
    then show ?thesis
    proof cases
      case 1
      have "c key (elem m arr sz k) < 0" if "mid \<le> k" "k < N" for k
        using strcmp_like_strict(1) [OF c 1, of "elem m arr sz k"] so [of mid k] that 1 by (cases "mid = k") auto
      moreover have "search_loop key (arr + lo * sz) (arr + hi * sz) sz c m = search_loop key (arr + lo * sz) (arr + mid * sz) sz c m"
        using eq 1 by (simp add: Let_def)
      ultimately show ?thesis using less.hyps [of mid lo] less.prems mid by simp
    next
      case 2
      then have e2: "search_loop key (arr + lo * sz) (arr + hi * sz) sz c m = search_loop key (arr + (mid + 1) * sz) (arr + hi * sz) sz c m"
        using eq by (simp add: Let_def)
      have "c key (elem m arr sz k) > 0" if "k < mid + 1" for k
        using strcmp_like_strict(2) [OF c 2, of "elem m arr sz k"] so [of k mid] that 2 mid by (cases "k = mid") auto
      then show ?thesis unfolding e2 using less.prems mid by (intro less.hyps) auto
    next
      case 3
      then show ?thesis using eq mid by (auto simp: Let_def)
    qed
  qed
qed


subsection \<open>Properties\<close>

lemma sort_array_eq:
  assumes c: "strcmp_like c" and sz: "0 < sz" and arr: "arr \<noteq> 0 \<or> cnt = 0"
  shows "\<exists>m'. sort_array arr cnt sz c m = Some m' \<and> (\<forall>k l. k < l \<and> l < cnt \<longrightarrow> c (elem m' arr sz k) (elem m' arr sz l) \<le> 0)
    \<and> mset (elems m' arr sz cnt) = mset (elems m arr sz cnt) \<and> (\<forall>x. x < arr \<or> arr + cnt * sz \<le> x \<longrightarrow> m' x = m x)"
proof -
  define m1 where "m1 = build_loop (cnt div 2) arr cnt sz c m"
  define m2 where "m2 = sort_loop cnt arr sz c m1"
  have "heap_from c (Suc (cnt div 2)) cnt (elems m arr sz cnt)" by (auto simp: heap_from_def dest: div_le_mono [of _ cnt 2])
  then have 1: "heap_from c 1 cnt (elems m1 arr sz cnt)" "shuffled arr sz 0 cnt cnt m m1"
    using build_loop_heap [OF c, of "cnt div 2" cnt m arr sz] by (auto simp: m1_def)
  have 2: "sort_inv c 1 cnt (elem m2 arr sz)" "shuffled arr sz 0 cnt cnt m1 m2"
    using sort_loop_sorts [OF c order_refl 1(1)] by (simp_all add: m2_def sort_inv_def)
  have "shuffled arr sz 0 cnt cnt m m2" using shuffled_trans [OF 1(2) 2(2)] by simp
  moreover have "c (elem m2 arr sz k) (elem m2 arr sz l) \<le> 0" if "k < l \<and> l < cnt" for k l using 2(1) that by (simp add: sort_inv_def)
  ultimately show ?thesis using sz arr by (auto simp: sort_array_def m2_def m1_def shuffled_def)
qed

text \<open>
  C23. \<^verbatim>\<open>sort\<close> and \<^verbatim>\<open>qsort\<close>: with a comparison that is an order, the call ends, the elements of the array are a permutation of the
  elements before and in order, and no byte outside of the array has changed.
\<close>

theorem qsort_sorts:
  assumes "strcmp_like c" and "0 < sz" and "arr \<noteq> 0 \<or> cnt = 0"
  shows "\<exists>m'. qsort arr cnt sz c m = Some m' \<and> sorted_wrt (\<lambda>a b. c a b \<le> 0) (elems m' arr sz cnt)
    \<and> mset (elems m' arr sz cnt) = mset (elems m arr sz cnt) \<and> (\<forall>x. x < arr \<or> arr + cnt * sz \<le> x \<longrightarrow> m' x = m x)"
  using sort_array_eq [OF assms, of m] by (auto simp: qsort_def compare_thunk_def sorted_wrt_iff_nth_less)

text \<open>A comparison of elements by their first byte.\<close>

definition first_byte_cmp :: cmp where
  "first_byte_cmp a b = sint (hd a) - sint (hd b)"

lemma first_byte_cmp_ok: "strcmp_like first_byte_cmp"
  by (auto simp: strcmp_like_def first_byte_cmp_def)

theorem qsort_sorts_witness:
  "\<exists>m'. qsort 100 3 2 first_byte_cmp (\<lambda>x. of_nat (200 - x)) = Some m' \<and> m' 99 = 101
     \<and> sorted_wrt (\<lambda>a b. first_byte_cmp a b \<le> 0) (elems m' 100 2 3)"
  using qsort_sorts [OF first_byte_cmp_ok, of 2 100 3 "\<lambda>x. of_nat (200 - x)"] by auto

text \<open>
  \<^verbatim>\<open>binary_search\<close> and \<^verbatim>\<open>bsearch\<close> on an array that \<^verbatim>\<open>sort\<close> has sorted: the call ends and returns the address of an element that compares equal
  to the key, or the null pointer exactly if there is none in the array.
\<close>

theorem sort_then_search:
  assumes "strcmp_like c" and "0 < sz" and "0 < arr"
  shows "\<exists>m'. qsort arr cnt sz c m = Some m'
    \<and> (if \<exists>e \<in> set (elems m arr sz cnt). c key e = 0
       then \<exists>k<cnt. bsearch key arr cnt sz c m' = arr + k * sz \<and> c key (elem m' arr sz k) = 0
       else bsearch key arr cnt sz c m' = 0)"
proof -
  obtain m' where m': "sort_array arr cnt sz c m = Some m'" "\<And>k l. k < l \<Longrightarrow> l < cnt \<Longrightarrow> c (elem m' arr sz k) (elem m' arr sz l) \<le> 0"
    "mset (elems m' arr sz cnt) = mset (elems m arr sz cnt)" using sort_array_eq [OF assms(1,2), of arr cnt m] assms(3) by auto
  have "set (elems m arr sz cnt) = set (elems m' arr sz cnt)" using m'(3) by (metis set_mset_mset)
  then have "(\<exists>e \<in> set (elems m arr sz cnt). c key e = 0) \<longleftrightarrow> (\<exists>k<cnt. c key (elem m' arr sz k) = 0)" by (auto simp: elems_def)
  moreover have "bsearch key arr cnt sz c m' = search_loop key (arr + 0 * sz) (arr + cnt * sz) sz c m'"
    by (simp add: bsearch_def binary_search_def compare_thunk_def mult.commute)
  ultimately show ?thesis
    using search_loop_finds [OF assms(1,2) _, of cnt m' arr 0 cnt key] m'(2) m'(1) assms(3) by (auto simp: qsort_def compare_thunk_def)
qed

subsection \<open>Reading numbers\<close>

text \<open>The value of decimal digits.\<close>

definition dec_value :: "u8 list \<Rightarrow> nat" where
  "dec_value ds = foldl (\<lambda>v d. v * 10 + (unat d - 48)) 0 ds"

lemma digits_loop_eq:
  assumes "cstr m s (ds @ rest)" and "list_all isdigit ds" and "rest = [] \<or> \<not> isdigit (hd rest)"
  shows "digits_loop m s v = Some (foldl (\<lambda>v d. v * 10 - (ucast d - 48)) v ds)"
  using assms
proof (induction ds arbitrary: s v)
  case Nil
  then have "\<not> isdigit (m s)" by (cases rest) (auto simp: isdigit_def)
  then show ?case by (simp add: digits_loop.simps)
next
  case (Cons d ds)
  then show ?case using Cons.IH [of "s + 1"] by (subst digits_loop.simps) simp
qed

lemma fold_digits:
  "list_all isdigit ds \<Longrightarrow> foldl (\<lambda>v d. v * 10 - (ucast d - 48)) (- of_nat v) ds = (- of_nat (foldl (\<lambda>v d. v * 10 + (unat d - 48)) v ds) :: u32)"
proof (induction ds arbitrary: v)
  case (Cons d ds)
  have "48 \<le> unat d" using Cons.prems by (simp add: isdigit_def word_le_nat_alt)
  then have "(ucast d - 48 :: u32) = of_nat (unat d - 48)" by (simp add: of_nat_diff)
  then have e: "- of_nat v * 10 - (ucast d - 48) = (- of_nat (v * 10 + (unat d - 48)) :: u32)" by simp
  show ?case using Cons unfolding foldl_Cons e by (intro Cons.IH) simp
qed simp

lemma skip_spaces_eq:
  assumes "cstr m s (sp @ rest)" and "list_all isspace sp" and "rest = [] \<or> \<not> isspace (hd rest)"
  shows "skip_spaces m s = Some (s + length sp)"
  using assms
proof (induction sp arbitrary: s)
  case Nil
  then have "\<not> isspace (m s)" by (cases rest) (auto simp: isspace_def)
  then show ?case by (simp add: skip_spaces.simps)
next
  case (Cons d ds)
  then show ?case using Cons.IH [of "s + 1"] by (subst skip_spaces.simps) simp
qed

lemma atoi_eq:
  assumes str: "cstr m s (sp @ sig @ ds @ rest)" and s: "s \<noteq> 0" and sp: "list_all isspace sp" and sig: "sig \<in> {[], [43], [45]}"
    and ds: "list_all isdigit ds" "ds \<noteq> []" and rest: "rest = [] \<or> \<not> isdigit (hd rest)"
    and range: "if sig = [45] then dec_value ds \<le> 2 ^ 31 else dec_value ds < 2 ^ 31"
  shows "atoi m s = Some (if sig = [45] then - int (dec_value ds) else int (dec_value ds))"
proof -
  have d: "isdigit (hd ds)" using ds by (cases ds) auto
  let ?t = "s + length sp"
  have "sig @ ds @ rest = [] \<or> \<not> isspace (hd (sig @ ds @ rest))" using sig d ds(2) by (auto simp: isspace_def isdigit_def)
  then have 1: "skip_spaces m s = Some ?t" using skip_spaces_eq [OF str sp] by simp
  have t: "cstr m ?t (sig @ ds @ rest)" using cstr_drop [OF str, of "length sp"] by simp
  have sg: "m ?t = 43 \<longleftrightarrow> sig = [43]" "m ?t = 45 \<longleftrightarrow> sig = [45]" using t sig d ds(2) by (cases ds; auto simp: isdigit_def)+
  have "cstr m (if m ?t = 43 \<or> m ?t = 45 then ?t + 1 else ?t) (ds @ rest)" using t sig sg by auto
  from digits_loop_eq [OF this ds(1) rest, of 0]
  have 2: "digits_loop m (if m ?t = 43 \<or> m ?t = 45 then ?t + 1 else ?t) 0 = Some (- of_nat (dec_value ds))"
    using fold_digits [OF ds(1), of 0] by (simp add: dec_value_def)
  have "sint (of_int k :: u32) = k" if "- (2 ^ 31) \<le> k" "k < 2 ^ 31" for k
    using that by (simp add: signed_of_int signed_take_bit_int_eq_self)
  from this [of "- int (dec_value ds)"] this [of "int (dec_value ds)"] range
  have "sint (if sig = [45] then - of_nat (dec_value ds) else - (- of_nat (dec_value ds)) :: u32) = (if sig = [45] then - int (dec_value ds) else int (dec_value ds))"
    by (auto split: if_splits)
  then show ?thesis using s 1 2 sg(2) by (simp add: atoi_def Let_def)
qed

end
