(* ===== verification/Stdio.thy ===== *)
theory Stdio
  imports Stdlib
begin

unbundle bit_operations_syntax

text \<open>
  The formatted output of \<^verbatim>\<open>lib/stdio.c\<close>. The format string is in the memory of \<open>CString\<close>; the arguments are the 32-bit words on the stack, of which a
  64-bit argument takes two, the low one first (\<^const>\<open>None\<close> if there are too few). As in the code the \<^verbatim>\<open>output\<close> function is an argument: it changes a state,
  in which \<open>rd\<close> finds the memory, so that the format and the strings are read as they are at that moment, with what has been stored before. The values of
  type \<^verbatim>\<open>int\<close> wrap around at 32 bits, the length that \<^verbatim>\<open>vsnprintf\<close> counts included.

  The lemmas show that the digits fit into the buffer of \<^verbatim>\<open>format_integer\<close>, that \<^verbatim>\<open>vsnprintf\<close> stays inside of its buffer as long as the output has less than
  \<open>2 ^ 31\<close> characters, and that \<^verbatim>\<open>atoi\<close> reads back what \<^verbatim>\<open>%d\<close> prints.
\<close>

type_synonym uintmax = "64 word"

definition MINUS :: u32 where "MINUS = 1"
definition PLUS :: u32 where "PLUS = 2"
definition SPACE :: u32 where "SPACE = 4"
definition POUND :: u32 where "POUND = 8"
definition ZERO :: u32 where "ZERO = 16"
definition GROUP :: u32 where "GROUP = 32"

datatype arg_type = CHAR_ARG | SHORT_ARG | INT_ARG | INTMAX_ARG | LONG_ARG | LONGLONG_ARG | PTRDIFFT_ARG | SIZET_ARG

record printf_conversion =
  flags :: u32
  width :: int
  precision :: int
  conv_type :: arg_type

record integer_base =
  ibase :: nat
  digits :: "u8 list"
  x_char :: u8
  group :: nat

definition base_d :: integer_base where
  "base_d = \<lparr>ibase = 10, digits = map of_nat [48..<58], x_char = 0, group = 3\<rparr>"

definition base_o :: integer_base where
  "base_o = \<lparr>ibase = 8, digits = map of_nat [48..<56], x_char = 0, group = 3\<rparr>"

definition base_x :: integer_base where
  "base_x = \<lparr>ibase = 16, digits = map of_nat ([48..<58] @ [97..<103]), x_char = 120, group = 4\<rparr>"

definition base_X :: integer_base where
  "base_X = \<lparr>ibase = 16, digits = map of_nat ([48..<58] @ [65..<71]), x_char = 88, group = 4\<rparr>"

text \<open>The value of an \<^verbatim>\<open>int\<close> after an operation, which keeps the low 32 bits.\<close>

definition as_int :: "int \<Rightarrow> int" where
  "as_int i = sint (word_of_int i :: u32)"

subsection \<open>Parsing\<close>

partial_function (option) parse_flags :: "mem \<Rightarrow> nat \<Rightarrow> u32 \<Rightarrow> (nat \<times> u32) option" where
  "parse_flags m f fl =
     (if m f = 45 then parse_flags m (f + 1) (fl OR MINUS)
      else if m f = 43 then parse_flags m (f + 1) (fl OR PLUS)
      else if m f = 32 then parse_flags m (f + 1) (fl OR SPACE)
      else if m f = 35 then parse_flags m (f + 1) (fl OR POUND)
      else if m f = 48 then parse_flags m (f + 1) (fl OR ZERO)
      else if m f = 39 then parse_flags m (f + 1) (fl OR GROUP)
      else Some (f, fl))"

partial_function (option) parse_number :: "mem \<Rightarrow> nat \<Rightarrow> int \<Rightarrow> (nat \<times> int) option" where
  "parse_number m f v = (if isdigit (m f) then parse_number m (f + 1) (as_int (v * 10 + uint (m f) - 48)) else Some (f, v))"

definition va_word :: "u32 list \<Rightarrow> (u32 \<times> u32 list) option" where
  "va_word ws = (case ws of [] \<Rightarrow> None | w # ws \<Rightarrow> Some (w, ws))"

definition va_long_long :: "u32 list \<Rightarrow> (uintmax \<times> u32 list) option" where
  "va_long_long ws = do { (lo, ws) \<leftarrow> va_word ws; (hi, ws) \<leftarrow> va_word ws; Some (ucast lo OR push_bit 32 (ucast hi), ws) }"

definition parse_type :: "mem \<Rightarrow> nat \<Rightarrow> nat \<times> arg_type" where
  "parse_type m f =
     (if m f = 104 then if m (f + 1) = 104 then (f + 2, CHAR_ARG) else (f + 1, SHORT_ARG)
      else if m f = 106 then (f + 1, INTMAX_ARG)
      else if m f = 108 then if m (f + 1) = 108 then (f + 2, LONGLONG_ARG) else (f + 1, LONG_ARG)
      else if m f = 116 then (f + 1, PTRDIFFT_ARG)
      else if m f = 122 then (f + 1, SIZET_ARG)
      else (f, INT_ARG))"

definition parse_conversion :: "mem \<Rightarrow> nat \<Rightarrow> u32 list \<Rightarrow> (nat \<times> printf_conversion \<times> u32 list) option" where
  "parse_conversion m f args = do {
     (f, fl) \<leftarrow> parse_flags m f 0;
     let fl = (if fl AND MINUS \<noteq> 0 then fl AND NOT ZERO else fl);
     let fl = (if fl AND PLUS \<noteq> 0 then fl AND NOT SPACE else fl);
     (f, w, args) \<leftarrow> (if m f = 42 then do { (x, args) \<leftarrow> va_word args; Some (f + 1, sint x, args) }
                      else do { (f, w) \<leftarrow> parse_number m f 0; Some (f, w, args) });
     let (w, fl) = (if w < 0 then (as_int (- w), fl OR MINUS) else (w, fl));
     (f, p, args) \<leftarrow> (if m f = 46
        then do {
          (f, p, args) \<leftarrow> (if m (f + 1) = 42 then do { (x, args) \<leftarrow> va_word args; Some (f + 2, sint x, args) }
                           else do { (f, p) \<leftarrow> parse_number m (f + 1) 0; Some (f, p, args) });
          Some (f, if p < 0 then -1 else p, args) }
        else Some (f, -1, args));
     let fl = (if p \<ge> 0 then fl AND NOT ZERO else fl);
     let (f, t) = parse_type m f;
     Some (f, \<lparr>flags = fl, width = w, precision = p, conv_type = t\<rparr>, args) }"

subsection \<open>Conversions\<close>

definition output_dup :: "u8 \<Rightarrow> nat \<Rightarrow> u8 list" where
  "output_dup ch cnt = replicate cnt ch"

text \<open>The characters in \<^verbatim>\<open>buf\<close>, the last one first, as they are put there and as they are read back.\<close>

function digit_loop :: "u32 \<Rightarrow> integer_base \<Rightarrow> nat \<Rightarrow> nat \<Rightarrow> u8 list \<Rightarrow> u8 list" where
  "digit_loop fl b v cnt cp =
     (if v > 0 \<and> 1 < ibase b
      then (let cp = (if fl AND GROUP \<noteq> 0 \<and> cnt > 0 \<and> cnt mod group b = 0 then 44 # cp else cp)
            in digit_loop fl b (v div ibase b) (cnt + 1) (digits b ! (v mod ibase b) # cp))
      else cp)"
  by pat_completeness auto
termination
  by (relation "measure (\<lambda>(fl, b, v, cnt, cp). v)") auto

declare digit_loop.simps [simp del]

definition number_buf :: "uintmax \<Rightarrow> integer_base \<Rightarrow> printf_conversion \<Rightarrow> u8 list" where
  "number_buf value b c =
     (let cp = digit_loop (flags c) b (unat value) 0 [];
          prec = (if precision c < 0 then 1 else precision c);
          cp = replicate (nat (min prec 63) - length cp) 48 @ cp
      in if flags c AND POUND \<noteq> 0 \<and> ibase b = 8 \<and> (cp = [] \<or> hd cp \<noteq> 48) then 48 # cp else cp)"

definition sign_char :: "bool \<Rightarrow> bool \<Rightarrow> printf_conversion \<Rightarrow> u8 list" where
  "sign_char is_signed negative c =
     (if is_signed
      then if flags c AND PLUS \<noteq> 0 then (if negative then [45] else [43])
        else if flags c AND SPACE \<noteq> 0 then (if negative then [45] else [32])
        else if negative then [45] else []
      else [])"

definition format_integer :: "uintmax \<Rightarrow> bool \<Rightarrow> bool \<Rightarrow> integer_base \<Rightarrow> printf_conversion \<Rightarrow> u8 list" where
  "format_integer value is_signed negative b c =
     (let sig = sign_char is_signed negative c;
          x = (if flags c AND POUND \<noteq> 0 \<and> value \<noteq> 0 then x_char b else 0);
          cp = number_buf value b c;
          pad_cnt = nat (as_int (width c - int (length cp) - (if x \<noteq> 0 then 2 else 0) - (if sig \<noteq> [] then 1 else 0)))
      in (if flags c AND (MINUS OR ZERO) = 0 then output_dup 32 pad_cnt else [])
         @ sig
         @ (if x \<noteq> 0 then [48, x] else [])
         @ (if flags c AND ZERO \<noteq> 0 then output_dup 48 pad_cnt else [])
         @ cp
         @ (if flags c AND MINUS \<noteq> 0 then output_dup 32 pad_cnt else []))"

text \<open>The character \<open>i\<close> of the string is \<open>string s i\<close> in the state \<open>s\<close>. The count of \<^verbatim>\<open>output_dup\<close> is a \<^verbatim>\<open>size_t\<close>.\<close>

definition format_string :: "(u8 \<Rightarrow> 's \<Rightarrow> 's) \<Rightarrow> ('s \<Rightarrow> nat \<Rightarrow> u8) \<Rightarrow> int \<Rightarrow> printf_conversion \<Rightarrow> 's \<Rightarrow> 's" where
  "format_string output string n c s =
     (let pad = output_dup 32 (unat (word_of_int (width c - n) :: u32));
          s = (if width c > n \<and> flags c AND MINUS = 0 then fold output pad s else s);
          s = fold (\<lambda>i s. output (string s i) s) [0..<nat n] s
      in if width c > n \<and> flags c AND MINUS \<noteq> 0 then fold output pad s else s)"

definition signed_arg :: "arg_type \<Rightarrow> u32 list \<Rightarrow> (uintmax \<times> u32 list) option" where
  "signed_arg t args =
     (case t of
        INTMAX_ARG \<Rightarrow> va_long_long args
      | LONGLONG_ARG \<Rightarrow> va_long_long args
      | _ \<Rightarrow> do {
          (w, args) \<leftarrow> va_word args;
          Some (case t of
              CHAR_ARG \<Rightarrow> scast (ucast w :: 8 word)
            | SHORT_ARG \<Rightarrow> scast (ucast w :: 16 word)
            | SIZET_ARG \<Rightarrow> (let v = ucast w in if v > 0x7fffffff then v - 0xffffffff - 1 else v)
            | _ \<Rightarrow> scast w, args) })"

definition unsigned_arg :: "arg_type \<Rightarrow> u32 list \<Rightarrow> (uintmax \<times> u32 list) option" where
  "unsigned_arg t args =
     (case t of
        INTMAX_ARG \<Rightarrow> va_long_long args
      | LONGLONG_ARG \<Rightarrow> va_long_long args
      | _ \<Rightarrow> do {
          (w, args) \<leftarrow> va_word args;
          Some (case t of
              CHAR_ARG \<Rightarrow> ucast (ucast w :: 8 word)
            | SHORT_ARG \<Rightarrow> ucast (ucast w :: 16 word)
            | PTRDIFFT_ARG \<Rightarrow> scast w AND (push_bit 1 0x7fffffff OR 1)
            | _ \<Rightarrow> ucast w, args) })"

text \<open>The messages for conversions that are not supported.\<close>

definition no_conversion :: "u8 \<Rightarrow> u8 list" where
  "no_conversion ch =
     (let known = (ch \<in> {102, 101, 69, 103, 71, 110})
      in map (of_nat \<circ> of_char) ''<<no %'' @ [ch] @ map (of_nat \<circ> of_char) (if known then '' in kernel>>'' else '' conversion>>''))"

definition convert :: "(u8 \<Rightarrow> 's \<Rightarrow> 's) \<Rightarrow> ('s \<Rightarrow> mem) \<Rightarrow> u8 \<Rightarrow> printf_conversion \<Rightarrow> u32 list \<Rightarrow> 's \<Rightarrow> ('s \<times> u32 list) option" where
  "convert output rd ch c args s =
     (if ch = 100 \<or> ch = 105
      then do {
        (v, args) \<leftarrow> signed_arg (conv_type c) args;
        Some (fold output (format_integer (if sint v < 0 then - v else v) True (sint v < 0) base_d c) s, args) }
      else if ch = 111 \<or> ch = 117 \<or> ch = 120 \<or> ch = 88
      then do {
        (v, args) \<leftarrow> unsigned_arg (conv_type c) args;
        let b = (if ch = 111 then base_o else if ch = 117 then base_d else if ch = 120 then base_x else base_X);
        Some (fold output (format_integer v False False b c) s, args) }
      else if ch = 99
      then do { (w, args) \<leftarrow> va_word args; Some (format_string output (\<lambda>s i. ucast w) 1 c s, args) }
      else if ch = 115
      then do {
        (w, args) \<leftarrow> va_word args;
        let p = unat (word_of_int (precision c) :: u32);
        let null = map (of_nat \<circ> of_char) ''(null)'';
        Some (if w = 0 then format_string output (\<lambda>s i. null ! i) (int (min p 6)) c s
              else format_string output (\<lambda>s i. rd s (unat w + i)) (as_int (int (strnlen (rd s) (unat w) p))) c s, args) }
      else if ch = 112
      then do { (w, args) \<leftarrow> va_word args; Some (fold output (format_integer (ucast w) False False base_x (c\<lparr>flags := POUND\<rparr>)) s, args) }
      else Some (fold output (no_conversion ch) s, args))"

partial_function (option) vprintf_loop :: "(u8 \<Rightarrow> 's \<Rightarrow> 's) \<Rightarrow> ('s \<Rightarrow> mem) \<Rightarrow> nat \<Rightarrow> u32 list \<Rightarrow> 's \<Rightarrow> 's option" where
  "vprintf_loop output rd f args s =
     (if rd s f = 0 then Some s
      else if rd s f \<noteq> 37 then vprintf_loop output rd (f + 1) args (output (rd s f) s)
      else if rd s (f + 1) = 37 then vprintf_loop output rd (f + 2) args (output 37 s)
      else do {
        (f, c, args) \<leftarrow> parse_conversion (rd s) (f + 1) args;
        (s, args) \<leftarrow> convert output rd (rd s f) c args s;
        vprintf_loop output rd (f + 1) args s })"

subsection \<open>Strings\<close>

record vsnprintf_aux =
  aux_p :: nat
  aux_length :: int
  max_length :: int

fun vsnprintf_helper :: "u8 \<Rightarrow> vsnprintf_aux \<times> mem \<Rightarrow> vsnprintf_aux \<times> mem" where
  "vsnprintf_helper ch (aux, m) =
     (let n = aux_length aux;
          aux = aux\<lparr>aux_length := as_int (n + 1)\<rparr>
      in if n < max_length aux then (aux\<lparr>aux_p := aux_p aux + 1\<rparr>, m(aux_p aux := ch)) else (aux, m))"

definition vsnprintf_start :: "nat \<Rightarrow> size_t \<Rightarrow> vsnprintf_aux" where
  "vsnprintf_start buffer buf_size = \<lparr>aux_p = buffer, aux_length = 0, max_length = (if buf_size > 0 then as_int (int buf_size - 1) else 0)\<rparr>"

definition vsnprintf :: "mem \<Rightarrow> nat \<Rightarrow> size_t \<Rightarrow> nat \<Rightarrow> u32 list \<Rightarrow> (int \<times> mem) option" where
  "vsnprintf m buffer buf_size format args = do {
     (aux, m) \<leftarrow> vprintf_loop vsnprintf_helper snd format args (vsnprintf_start buffer buf_size, m);
     Some (aux_length aux, if buf_size > 0 then m(aux_p aux := 0) else m) }"

subsection \<open>Digits\<close>

lemma digit_loop_step:
  assumes "0 < v" "1 < ibase b"
  shows "digit_loop fl b v cnt cp = digit_loop fl b (v div ibase b) (cnt + 1)
    (digits b ! (v mod ibase b) # (if fl AND GROUP \<noteq> 0 \<and> cnt > 0 \<and> cnt mod group b = 0 then 44 # cp else cp))"
  using assms by (subst digit_loop.simps) (simp add: Let_def)

lemma digit_loop_0 [simp]: "digit_loop fl b 0 cnt cp = cp"
  by (subst digit_loop.simps) simp

lemma digit_loop_length:
  "v < ibase b ^ k \<Longrightarrow> 1 < ibase b \<Longrightarrow> length (digit_loop fl b v cnt cp) \<le> 2 * k + length cp"
proof (induction k arbitrary: v cnt cp)
  case (Suc k)
  show ?case
  proof (cases "v = 0")
    case False
    have "v div ibase b < ibase b ^ k" using Suc.prems by (simp add: div_less_iff_less_mult mult.commute)
    note ih = Suc.IH [OF this Suc.prems(2)]
    define ds where "ds = digits b ! (v mod ibase b) # (if fl AND GROUP \<noteq> 0 \<and> cnt > 0 \<and> cnt mod group b = 0 then 44 # cp else cp)"
    have "length ds \<le> 2 + length cp" by (simp add: ds_def)
    moreover have "digit_loop fl b v cnt cp = digit_loop fl b (v div ibase b) (cnt + 1) ds" using False Suc.prems(2) by (simp add: digit_loop_step ds_def)
    ultimately show ?thesis using ih [of "cnt + 1" ds] by simp
  qed simp
qed simp

lemma number_buf_fits:
  assumes "b \<in> {base_d, base_o, base_x, base_X}"
  shows "length (number_buf v b c) \<le> 64"
proof -
  have "unat v < 2 ^ 64" using unsigned_less [of v] by simp
  then have "unat v < ibase b ^ 22" "1 < ibase b" using assms by (auto simp: base_d_def base_o_def base_x_def base_X_def)
  then have "length (digit_loop (flags c) b (unat v) 0 []) \<le> 44" using digit_loop_length [of "unat v" b 22 "flags c" 0 "[]"] by simp
  moreover define cp where "cp = replicate (nat (min (if precision c < 0 then 1 else precision c) 63) - length (digit_loop (flags c) b (unat v) 0 [])) 48 @ digit_loop (flags c) b (unat v) 0 []"
  ultimately have "length cp \<le> 63" by simp
  then show ?thesis by (simp add: number_buf_def Let_def cp_def [symmetric])
qed

text \<open>The bases 8 and 10, whose digits are consecutive characters.\<close>

definition plain_base :: "integer_base \<Rightarrow> bool" where
  "plain_base b \<longleftrightarrow> 1 < ibase b \<and> ibase b \<le> 10 \<and> digits b = map of_nat [48..<48 + ibase b]"

lemma plain_bases [simp]: "plain_base base_d" "plain_base base_o" "ibase base_d = 10" "ibase base_o = 8"
  by (simp_all add: plain_base_def base_d_def base_o_def)

lemma plain_digit: "plain_base b \<Longrightarrow> k < ibase b \<Longrightarrow> digits b ! k = of_nat (48 + k)"
  by (simp add: plain_base_def)

lemma digit_char:
  assumes "n < 58" "48 \<le> n"
  shows "isdigit (of_nat n)" "unat (of_nat n :: u8) = n"
proof -
  show u: "unat (of_nat n :: u8) = n" using assms by (subst unat_of_nat) simp
  show "isdigit (of_nat n)" unfolding isdigit_def word_le_nat_alt u using assms by simp
qed

definition base_value :: "nat \<Rightarrow> u8 list \<Rightarrow> nat" where
  "base_value B ds = foldl (\<lambda>v d. v * B + (unat d - 48)) 0 ds"

lemma dec_value_base: "dec_value = base_value 10"
  by (simp add: fun_eq_iff dec_value_def base_value_def)

lemma foldl_digits: "foldl (\<lambda>v d. v * B + (unat d - 48)) v ds = v * B ^ length ds + base_value B ds" for ds :: "u8 list"
proof (induction ds arbitrary: v)
  case (Cons d ds)
  have "foldl (\<lambda>v d. v * B + (unat d - 48)) v (d # ds) = (v * B + (unat d - 48)) * B ^ length ds + base_value B ds" using Cons [of "v * B + (unat d - 48)"] by simp
  moreover have "base_value B (d # ds) = (unat d - 48) * B ^ length ds + base_value B ds" using Cons [of "unat d - 48"] by (simp add: base_value_def [of B "d # ds"])
  ultimately show ?case by (simp add: add_mult_distrib)
qed (simp add: base_value_def)

lemma base_value_simps [simp]: "base_value B [] = 0" "base_value B (d # ds) = (unat d - 48) * B ^ length ds + base_value B ds"
  using foldl_digits [of B "unat d - 48" ds] by (simp_all add: base_value_def [of B "d # ds"] base_value_def [of B "[]"])

text \<open>The digits of a number have its value, and are characters of the base.\<close>

lemma digit_loop_value:
  assumes "plain_base b" "\<forall>c\<in>set cp. 48 \<le> unat c \<and> unat c < 48 + ibase b"
  shows "(\<forall>c\<in>set (digit_loop 0 b v cnt cp). 48 \<le> unat c \<and> unat c < 48 + ibase b)
    \<and> base_value (ibase b) (digit_loop 0 b v cnt cp) = v * ibase b ^ length cp + base_value (ibase b) cp"
  using assms(2)
proof (induction v arbitrary: cnt cp rule: less_induct)
  case (less v)
  have b: "1 < ibase b" "ibase b \<le> 10" using assms(1) by (simp_all add: plain_base_def)
  show ?case
  proof (cases "v = 0")
    case False
    let ?B = "ibase b"
    let ?cp = "digits b ! (v mod ?B) # cp"
    have m: "v mod ?B < ?B" using b by simp
    then have d: "unat (digits b ! (v mod ?B)) = 48 + v mod ?B" using digit_char(2) [of "48 + v mod ?B"] plain_digit [OF assms(1) m] b(2) by simp
    have st: "digit_loop 0 b v cnt cp = digit_loop 0 b (v div ?B) (cnt + 1) ?cp" using False b by (subst digit_loop_step) simp_all
    have "(x * ?B + y) * n = x * (?B * n) + y * n" for x y n :: nat by (simp add: add_mult_distrib)
    from this [of "v div ?B" "v mod ?B" "?B ^ length cp"]
    have e: "v * ?B ^ length cp = v div ?B * ?B ^ length ?cp + v mod ?B * ?B ^ length cp" by (simp only: div_mult_mod_eq length_Cons power_Suc)
    have c: "\<forall>c\<in>set ?cp. 48 \<le> unat c \<and> unat c < 48 + ?B" using less.prems d m by simp
    have "v div ?B < v" using False b by simp
    from less.IH [OF this c, of "cnt + 1"] show ?thesis unfolding st e base_value_simps d add_diff_cancel_left' add.assoc by blast
  qed (use less.prems in simp)
qed

lemma digit_loop_decimal:
  "list_all isdigit (digit_loop 0 base_d v cnt []) \<and> dec_value (digit_loop 0 base_d v cnt []) = v"
  using digit_loop_value [of base_d "[]" v cnt] by (auto simp: list_all_iff isdigit_def word_le_nat_alt dec_value_base)

subsection \<open>Storing\<close>

definition put :: "mem \<Rightarrow> nat \<Rightarrow> u8 list \<Rightarrow> mem" where
  "put m a bs = (\<lambda>x. if a \<le> x \<and> x < a + length bs then bs ! (x - a) else m x)"

lemma put_Nil [simp]: "put m a [] = m"
  by (auto simp: put_def fun_eq_iff)

lemma put_single: "m(a := c) = put m a [c]"
  by (auto simp: put_def fun_eq_iff)

lemma put_append: "put (put m a bs) (a + length bs) cs = put m a (bs @ cs)"
  by (auto simp: put_def fun_eq_iff nth_append)

lemma put_Cons: "put (m(a := c)) (Suc a) bs = put m a (c # bs)"
  using put_append [of m a "[c]" bs] by (simp add: put_single)

lemma bytes_at_put [simp]: "bytes_at (put m a bs) a (length bs) = bs"
  by (auto simp: bytes_at_def put_def intro!: nth_equalityI)

lemma as_int_id: "- (2 ^ 31) \<le> k \<Longrightarrow> k < 2 ^ 31 \<Longrightarrow> as_int k = k"
  by (simp add: as_int_def signed_of_int signed_take_bit_int_eq_self)

text \<open>Below \<open>2 ^ 31\<close> characters the helper stores what fits.\<close>

lemma fold_helper:
  assumes "0 \<le> mx" "0 \<le> n" "n + int (length out) < 2 ^ 31"
  shows "fold vsnprintf_helper out (\<lparr>aux_p = p, aux_length = n, max_length = mx\<rparr>, m) =
    (let bs = take (nat (mx - n)) out in (\<lparr>aux_p = p + length bs, aux_length = n + int (length out), max_length = mx\<rparr>, put m p bs))"
  using assms(2,3)
proof (induction out arbitrary: p n m)
  case (Cons ch out)
  have n: "as_int (n + 1) = n + 1" using Cons.prems by (intro as_int_id) simp_all
  show ?case
  proof (cases "n < mx")
    case True
    then have k: "nat (mx - n) = Suc (nat (mx - (n + 1)))" by simp
    have "fold vsnprintf_helper (ch # out) (\<lparr>aux_p = p, aux_length = n, max_length = mx\<rparr>, m) =
        fold vsnprintf_helper out (\<lparr>aux_p = Suc p, aux_length = n + 1, max_length = mx\<rparr>, m(p := ch))" using True n by (simp add: Let_def)
    also have "\<dots> = (let bs = take (nat (mx - (n + 1))) out in (\<lparr>aux_p = Suc p + length bs, aux_length = n + 1 + int (length out), max_length = mx\<rparr>, put (m(p := ch)) (Suc p) bs))"
      by (rule Cons.IH) (use Cons.prems in simp_all)
    finally show ?thesis unfolding k by (simp add: Let_def put_Cons)
  next
    case False
    have "fold vsnprintf_helper (ch # out) (\<lparr>aux_p = p, aux_length = n, max_length = mx\<rparr>, m) =
        fold vsnprintf_helper out (\<lparr>aux_p = p, aux_length = n + 1, max_length = mx\<rparr>, m)" using False n by (simp add: Let_def)
    then show ?thesis using Cons.IH [of "n + 1" p m] Cons.prems False by (simp add: Let_def)
  qed
qed (simp add: Let_def)

text \<open>As long as the length is negative it stores every character.\<close>

lemma fold_helper_negative:
  assumes "0 \<le> mx" "- (2 ^ 31) \<le> n" "n + int (length out) \<le> 0"
  shows "fold vsnprintf_helper out (\<lparr>aux_p = p, aux_length = n, max_length = mx\<rparr>, m) =
    (\<lparr>aux_p = p + length out, aux_length = n + int (length out), max_length = mx\<rparr>, put m p out)"
  using assms(2,3)
proof (induction out arbitrary: p n m)
  case (Cons ch out)
  have "as_int (n + 1) = n + 1" using Cons.prems by (intro as_int_id) simp_all
  then have "fold vsnprintf_helper (ch # out) (\<lparr>aux_p = p, aux_length = n, max_length = mx\<rparr>, m) =
      fold vsnprintf_helper out (\<lparr>aux_p = Suc p, aux_length = n + 1, max_length = mx\<rparr>, m(p := ch))" using Cons.prems assms(1) by (simp add: Let_def)
  also have "\<dots> = (\<lparr>aux_p = Suc p + length out, aux_length = n + 1 + int (length out), max_length = mx\<rparr>, put (m(p := ch)) (Suc p) out)"
    by (rule Cons.IH) (use Cons.prems in simp_all)
  finally show ?case by (simp add: put_Cons)
qed simp

lemma fold_helper_wraps:
  assumes "0 \<le> mx" "mx < 2 ^ 31" "2 ^ 31 \<le> length out" "length out \<le> 2 ^ 32"
  shows "fold vsnprintf_helper out (\<lparr>aux_p = p, aux_length = 0, max_length = mx\<rparr>, m) =
    (let bs = take (nat mx) out @ drop (2 ^ 31) out in (\<lparr>aux_p = p + length bs, aux_length = int (length out) - 2 ^ 32, max_length = mx\<rparr>, put m p bs))"
proof -
  define xs y zs where "xs = take (2 ^ 31 - 1) out" and "y = out ! (2 ^ 31 - 1)" and "zs = drop (2 ^ 31) out"
  have "Suc (2 ^ 31 - 1) = (2 ^ 31 :: nat)" by simp
  moreover have "(2 ^ 31 - 1 :: nat) < length out" using assms(3) by simp
  ultimately have out: "out = xs @ y # zs" unfolding xs_def y_def zs_def using id_take_nth_drop [of "2 ^ 31 - 1" out] by metis
  have xs: "int (length xs) = 2 ^ 31 - 1" using assms(3) by (simp add: xs_def)
  have zs: "int (length zs) = int (length out) - 2 ^ 31" using assms(3) by (simp add: zs_def of_nat_diff)
  let ?bs = "take (nat mx) xs"
  have "nat mx \<le> length xs" using assms(1,2) xs by linarith
  then have tk: "take (nat mx) out = ?bs" by (simp add: out)
  have "as_int (2 ^ 31) = - (2 ^ 31)" by (simp add: as_int_def)
  then have "fold vsnprintf_helper out (\<lparr>aux_p = p, aux_length = 0, max_length = mx\<rparr>, m) =
      fold vsnprintf_helper zs (\<lparr>aux_p = p + length ?bs, aux_length = - (2 ^ 31), max_length = mx\<rparr>, put m p ?bs)"
    using fold_helper [OF assms(1), of 0 xs p m] xs assms(2) by (simp add: out Let_def)
  also have "\<dots> = (\<lparr>aux_p = p + length ?bs + length zs, aux_length = - (2 ^ 31) + int (length zs), max_length = mx\<rparr>, put (put m p ?bs) (p + length ?bs) zs)"
    using zs assms(4) by (intro fold_helper_negative [OF assms(1)]) simp_all
  finally show ?thesis unfolding tk zs_def [symmetric] Let_def put_append using zs by (simp add: add.assoc)
qed

lemma vsnprintf_start_max: "sz \<le> 2 ^ 31 \<Longrightarrow> vsnprintf_start buf sz = \<lparr>aux_p = buf, aux_length = 0, max_length = int (sz - 1)\<rparr>"
  using as_int_id [of "int sz - 1"] by (cases sz) (simp_all add: vsnprintf_start_def)

text \<open>The calls of the output function leave a trace in a state that is extended by a list.\<close>

definition logged :: "(u8 \<Rightarrow> 's \<Rightarrow> 's) \<Rightarrow> u8 \<Rightarrow> u8 list \<times> 's \<Rightarrow> u8 list \<times> 's" where
  "logged output ch s = (fst s @ [ch], output ch (snd s))"

definition printed :: "mem \<Rightarrow> nat \<Rightarrow> size_t \<Rightarrow> nat \<Rightarrow> u32 list \<Rightarrow> u8 list option" where
  "printed m buffer buf_size format args =
     map_option fst (vprintf_loop (logged vsnprintf_helper) (\<lambda>s. snd (snd s)) format args ([], vsnprintf_start buffer buf_size, m))"

lemma fold_logged [simp]: "fold (logged output) cs (tr, s) = (tr @ cs, fold output cs s)"
  by (induction cs arbitrary: tr s) (simp_all add: logged_def)

lemma fold_logged_string: "\<exists>bs. fold (\<lambda>i s. logged output (string (snd s) i) s) is (tr, s) = (tr @ bs, fold output bs s) \<and> fold (\<lambda>i s. output (string s i) s) is s = fold output bs s"
proof (induction "is" arbitrary: tr s)
  case (Cons i "is")
  obtain bs where "fold (\<lambda>i s. logged output (string (snd s) i) s) is (tr @ [string s i], output (string s i) s) = ((tr @ [string s i]) @ bs, fold output bs (output (string s i) s))"
    "fold (\<lambda>i s. output (string s i) s) is (output (string s i) s) = fold output bs (output (string s i) s)" using Cons.IH by blast
  then show ?case by (intro exI [of _ "string s i # bs"]) (simp add: logged_def)
qed (intro exI [of _ "[]"], simp)

lemma format_string_logged:
  "\<exists>bs. format_string (logged output) (\<lambda>s. string (snd s)) n c (tr, s) = (tr @ bs, fold output bs s) \<and> format_string output string n c s = fold output bs s"
  for s :: 's
proof -
  define pad where "pad = output_dup 32 (unat (word_of_int (width c - n) :: u32))"
  define a where "a = (if width c > n \<and> flags c AND MINUS = 0 then pad else [])"
  define z where "z = (if width c > n \<and> flags c AND MINUS \<noteq> 0 then pad else [])"
  have e: "format_string out str n c t = fold out z (fold (\<lambda>i s. out (str s i) s) [0..<nat n] (fold out a t))" for out str and t :: 's
    by (simp add: format_string_def a_def z_def pad_def Let_def)
  have e': "format_string out str n c t = fold out z (fold (\<lambda>i s. out (str s i) s) [0..<nat n] (fold out a t))" for out str and t :: "u8 list \<times> 's"
    by (simp add: format_string_def a_def z_def pad_def Let_def)
  obtain bs where "fold (\<lambda>i s. logged output (string (snd s) i) s) [0..<nat n] (tr @ a, fold output a s) = ((tr @ a) @ bs, fold output bs (fold output a s))"
    "fold (\<lambda>i s. output (string s i) s) [0..<nat n] (fold output a s) = fold output bs (fold output a s)" using fold_logged_string [of "output" string "[0..<nat n]" "tr @ a" "fold output a s"] by blast
  then show ?thesis unfolding e e' by (intro exI [of _ "a @ bs @ z"]) simp
qed

lemma convert_logged:
  assumes "convert (logged output) (\<lambda>s. rd (snd s)) ch c args (tr, s) = Some (s', args')"
  shows "\<exists>bs. s' = (tr @ bs, fold output bs s) \<and> convert output rd ch c args s = Some (fold output bs s, args')"
proof -
  have fs: "\<exists>bs. format_string (logged output) (\<lambda>s. str (snd s)) n c (tr, s) = (tr @ bs, fold output bs s) \<and> format_string output str n c s = fold output bs s" for str n
    by (rule format_string_logged)
  consider "ch = 99" | "ch = 115" | "ch \<noteq> 99" "ch \<noteq> 115" by blast
  then show ?thesis
  proof cases
    case 1
    then obtain w where "args = w # args'" "s' = format_string (logged output) (\<lambda>s i. ucast w) 1 c (tr, s)"
      using assms by (auto simp: convert_def va_word_def split: list.splits)
    then show ?thesis using 1 fs [of "\<lambda>s i. ucast w" 1] by (auto simp: convert_def va_word_def)
  next
    case 2
    then show ?thesis using assms fs [of "\<lambda>s i. rd s (unat (hd args) + i)"] fs [of "\<lambda>s i. map (of_nat \<circ> of_char) ''(null)'' ! i"]
      by (fastforce simp: convert_def va_word_def Let_def simp del: list.map split: list.splits)
  next
    case 3
    then show ?thesis using assms by (cases "signed_arg (conv_type c) args"; cases "unsigned_arg (conv_type c) args"; cases "va_word args") (auto simp: convert_def split: if_split_asm)
  qed
qed

lemma vprintf_logged:
  assumes "vprintf_loop (logged output) (\<lambda>s. rd (snd s)) f args (tr, s) = Some s'"
  shows "\<exists>bs. s' = (tr @ bs, fold output bs s) \<and> vprintf_loop output rd f args s = Some (fold output bs s)"
proof -
  let ?Q = "\<lambda>f args ts s'. \<exists>bs. s' = (fst ts @ bs, fold output bs (snd ts)) \<and> vprintf_loop output rd f args (snd ts) = Some (fold output bs (snd ts))"
  let ?P = "\<lambda>out r f args (ts :: u8 list \<times> 'a) s'. out = logged output \<longrightarrow> r = (\<lambda>s. rd (snd s)) \<longrightarrow> ?Q f args ts s'"
  have "?P out r f args ts s'" if run: "vprintf_loop out r f args ts = Some s'" for out r f args ts s'
  proof (rule vprintf_loop.raw_induct [where P = ?P, OF _ run], intro impI)
    fix loop out r f args s' and ts :: "u8 list \<times> 'a"
    assume IH: "\<And>out r f args ts s'. loop out r f args ts = Some s' \<Longrightarrow> ?P out r f args ts s'"
      and body: "(if r ts f = 0 then Some ts
      else if r ts f \<noteq> 37 then loop out r (f + 1) args (out (r ts f) ts)
      else if r ts (f + 1) = 37 then loop out r (f + 2) args (out 37 ts)
      else do {
        (f, c, args) \<leftarrow> parse_conversion (r ts) (f + 1) args;
        (ts, args) \<leftarrow> convert out r (r ts f) c args ts;
        loop out r (f + 1) args ts }) = Some s'"
      and o: "out = logged output" "r = (\<lambda>s. rd (snd s))"
    obtain tr s where ts: "ts = (tr, s)" by fastforce
    note [simp] = vprintf_loop.simps [of "output" rd f args s]
    have ih: "?Q g as tt s'" if "loop (logged output) (\<lambda>s. rd (snd s)) g as tt = Some s'" for g as tt using IH [OF that] by simp
    have lit: "?Q f args ts s'" if "loop out r g args (out ch ts) = Some s'" "vprintf_loop output rd f args s = vprintf_loop output rd g args (output ch s)" for g ch
    proof -
      have l: "loop (logged output) (\<lambda>s. rd (snd s)) g args (tr @ [ch], output ch s) = Some s'" using that(1) by (simp add: o ts logged_def)
      obtain bs where "s' = ((tr @ [ch]) @ bs, fold output bs (output ch s))" "vprintf_loop output rd g args (output ch s) = Some (fold output bs (output ch s))"
        using ih [OF l] by auto
      then show ?thesis using that(2) by (intro exI [of _ "ch # bs"]) (simp add: ts)
    qed
    consider "rd s f = 0" | "rd s f \<noteq> 0" "rd s f \<noteq> 37" | "rd s f = 37" "rd s (f + 1) = 37" | "rd s f = 37" "rd s (f + 1) \<noteq> 37" by blast
    then show "?Q f args ts s'"
    proof cases
      case 1
      then show ?thesis using body by (intro exI [of _ "[]"]) (auto simp: o ts)
    next
      case 2
      then show ?thesis using body by (intro lit [of "f + 1" "rd s f"]) (simp_all add: o ts)
    next
      case 3
      then show ?thesis using body by (intro lit [of "f + 2" 37]) (simp_all add: o ts)
    next
      case 4
      then obtain g c as t as' where p: "parse_conversion (rd s) (f + 1) args = Some (g, c, as)"
        "convert (logged output) (\<lambda>s. rd (snd s)) (rd s g) c as (tr, s) = Some (t, as')" "loop (logged output) (\<lambda>s. rd (snd s)) (g + 1) as' t = Some s'"
        using body by (auto simp: o ts bind_Some_iff)
      obtain bs where bs: "t = (tr @ bs, fold output bs s)" "convert output rd (rd s g) c as s = Some (fold output bs s, as')"
        using convert_logged [OF p(2)] by blast
      obtain cs where "s' = ((tr @ bs) @ cs, fold output cs (fold output bs s))" "vprintf_loop output rd (g + 1) as' (fold output bs s) = Some (fold output cs (fold output bs s))"
        using ih [OF p(3)] by (auto simp: bs(1))
      then show ?thesis using 4 p(1) bs(2) by (intro exI [of _ "bs @ cs"]) (simp add: ts)
    qed
  qed
  from this [OF assms] show ?thesis by simp
qed
lemma vsnprintf_printed:
  assumes "printed m buf sz f args = Some out"
  shows "vsnprintf m buf sz f args =
    (let (aux, m') = fold vsnprintf_helper out (vsnprintf_start buf sz, m) in Some (aux_length aux, if sz > 0 then m'(aux_p aux := 0) else m'))"
proof -
  obtain s' where "vprintf_loop (logged vsnprintf_helper) (\<lambda>s. snd (snd s)) f args ([], vsnprintf_start buf sz, m) = Some (out, s')"
    using assms by (auto simp: printed_def)
  from vprintf_logged [OF this] show ?thesis by (simp add: vsnprintf_def Let_def split: prod.splits)
qed

text \<open>One conversion, whose characters do not depend on the memory.\<close>

lemma vprintf_conversion:
  assumes "rd s f = 37" "rd s (Suc f) \<noteq> 37" "parse_conversion (rd s) (Suc f) args = Some (g, c, as)" "convert out rd (rd s g) c as s = Some (s', as')"
  shows "vprintf_loop out rd f args s = vprintf_loop out rd (Suc g) as' s'"
  using assms by (subst vprintf_loop.simps) simp

lemma vprintf_end: "rd s f = 0 \<Longrightarrow> vprintf_loop output rd f args s = Some s"
  by (subst vprintf_loop.simps) simp

lemma vsnprintf_put:
  assumes "m f = 37" "m (Suc f) \<noteq> 37" "parse_conversion m (Suc f) args = Some (g, c, as)" "m (Suc g) = 0"
    and "\<And>s. convert vsnprintf_helper snd (m g) c as s = Some (fold vsnprintf_helper out s, as')"
    and "length out < sz" "sz \<le> 2 ^ 31" "Suc g < buf \<or> buf + sz \<le> Suc g"
  shows "vsnprintf m buf sz f args = Some (int (length out), put m buf (out @ [0]))"
proof -
  have n: "int (length out) < 2 ^ 31" using assms(6,7) by simp
  have "take (nat (int (sz - 1) - 0)) out = out" using assms(6) by simp
  then have f: "fold vsnprintf_helper out (vsnprintf_start buf sz, m) =
      (\<lparr>aux_p = buf + length out, aux_length = int (length out), max_length = int (sz - 1)\<rparr>, put m buf out)"
    using fold_helper [of "int (sz - 1)" 0 out buf m] n by (simp add: vsnprintf_start_max [OF assms(7)] Let_def)
  have "put m buf out (Suc g) = 0" using assms(4,6,8) by (auto simp: put_def)
  then have "vprintf_loop vsnprintf_helper snd f args (vsnprintf_start buf sz, m) = Some (fold vsnprintf_helper out (vsnprintf_start buf sz, m))"
    using vprintf_conversion [where rd = snd and s = "(vsnprintf_start buf sz, m)" and f = f and g = g] assms(1-3,5) f by (simp add: vprintf_end)
  moreover have "(put m buf out)(buf + length out := 0) = put m buf (out @ [0])" using put_append [of m buf out "[0]"] by (simp add: put_single)
  ultimately show ?thesis using f assms(6) by (simp add: vsnprintf_def)
qed

lemma bytes_at_put_prefix: "bytes_at (put m a (bs @ cs)) a (length bs) = bs"
  by (auto simp: bytes_at_def put_def nth_append intro!: nth_equalityI)

lemma cstr_put: "0 \<notin> set s \<Longrightarrow> cstr (put m a (s @ [0])) a s"
  by (auto simp: cstr_iff put_def nth_append bytes_at_def intro: nth_equalityI)

subsection \<open>Printing numbers\<close>

lemma parse_d:
  assumes "m f = 100"
  shows "parse_conversion m f args = Some (f, \<lparr>flags = 0, width = 0, precision = -1, conv_type = INT_ARG\<rparr>, args)"
  using assms by (simp add: parse_conversion_def parse_flags.simps parse_number.simps isdigit_def parse_type_def)

definition decimal :: "int \<Rightarrow> u8 list" where
  "decimal i = (if i < 0 then [45] else []) @ (if i = 0 then [48] else digit_loop 0 base_d (nat \<bar>i\<bar>) 0 [])"

lemma unat_abs: "unat (if sint v < 0 then - v else v) = nat \<bar>sint v\<bar>" for v :: uintmax
proof -
  have "uint (if sint v < 0 then - v else v) = \<bar>sint v\<bar>"
  proof (cases "sint v < 0")
    case True
    have "- (2 ^ 63) \<le> sint v" using sint_ge [of v] by simp
    then have "take_bit 64 (- sint v) = - sint v" using True by (intro take_bit_int_eq_self) auto
    moreover have "uint (word_of_int (- sint v) :: uintmax) = take_bit 64 (- sint v)" unfolding unsigned_of_int by simp
    ultimately show ?thesis using True by simp
  next
    case False
    then show ?thesis using sint_lt [of v] by (simp add: uint_sint take_bit_int_eq_self)
  qed
  then show ?thesis by (metis nat_uint_eq)
qed

lemma convert_d:
  "convert output rd 100 \<lparr>flags = 0, width = 0, precision = -1, conv_type = INT_ARG\<rparr> (w # args) s = Some (fold output (decimal (sint w)) s, args)"
proof -
  let ?c = "\<lparr>flags = 0, width = 0, precision = -1, conv_type = INT_ARG\<rparr>" and ?v = "scast w :: uintmax"
  have v: "sint ?v = sint w" by (rule sint_up_scast) (simp add: is_up)
  let ?a = "if sint ?v < 0 then - ?v else ?v"
  have u: "unat ?a = nat \<bar>sint w\<bar>" using unat_abs [of ?v] v by simp
  have nb: "number_buf ?a base_d ?c = (if sint w = 0 then [48] else digit_loop 0 base_d (nat \<bar>sint w\<bar>) 0 [])"
  proof (cases "sint w = 0")
    case False
    then have "0 < nat \<bar>sint w\<bar>" by simp
    then have "digit_loop 0 base_d (nat \<bar>sint w\<bar>) 0 [] \<noteq> []" using digit_loop_decimal [of "nat \<bar>sint w\<bar>" 0] by (auto simp: dec_value_def)
    then have "length (digit_loop 0 base_d (nat \<bar>sint w\<bar>) 0 []) \<ge> 1" by (simp add: Suc_le_eq)
    then show ?thesis using False u unfolding number_buf_def Let_def by simp
  qed (use u in \<open>simp add: number_buf_def Let_def\<close>)
  define n where "n = 0 - int (length (number_buf ?a base_d ?c)) - (if sign_char True (sint ?v < 0) ?c \<noteq> [] then 1 else 0)"
  have "n \<le> 0" "- (2 ^ 31) \<le> n" using number_buf_fits [of base_d ?a ?c] by (simp_all add: n_def)
  then have "nat (as_int n) = 0" using as_int_id [of n] by simp
  then have "format_integer ?a True (sint ?v < 0) base_d ?c = sign_char True (sint ?v < 0) ?c @ number_buf ?a base_d ?c"
    unfolding format_integer_def Let_def by (simp add: output_dup_def n_def)
  then have "format_integer ?a True (sint ?v < 0) base_d ?c = decimal (sint w)" unfolding nb by (simp add: sign_char_def decimal_def v)
  then show ?thesis by (simp add: convert_def signed_arg_def va_word_def)
qed

lemma vsnprintf_d:
  assumes "cstr m f [37, 100]" "length (decimal (sint w)) < sz" "sz \<le> 2 ^ 31" "f + 3 \<le> buf \<or> buf + sz \<le> f"
  shows "vsnprintf m buf sz f (w # args) = Some (int (length (decimal (sint w))), put m buf (decimal (sint w) @ [0]))"
  using assms parse_d [of m "Suc f" "w # args"] by (intro vsnprintf_put) (auto simp: convert_d)

lemma decimal_digits:
  obtains ds where "decimal i = (if i < 0 then [45] else []) @ ds" "list_all isdigit ds" "ds \<noteq> []" "dec_value ds = nat \<bar>i\<bar>" "nat \<bar>i\<bar> < 10 ^ k \<Longrightarrow> length ds \<le> 2 * k + 1"
proof (cases "i = 0")
  case True
  then show thesis using that [of "[48]"] by (simp add: decimal_def isdigit_def dec_value_def)
next
  case False
  note d = digit_loop_decimal [of "nat \<bar>i\<bar>" 0]
  then have "digit_loop 0 base_d (nat \<bar>i\<bar>) 0 [] \<noteq> []" using False by (auto simp: dec_value_def)
  moreover have "length (digit_loop 0 base_d (nat \<bar>i\<bar>) 0 []) \<le> 2 * k + 1" if "nat \<bar>i\<bar> < 10 ^ k"
    using digit_loop_length [of "nat \<bar>i\<bar>" base_d k 0 0 "[]"] that by (simp add: base_d_def)
  ultimately show thesis using that [of "digit_loop 0 base_d (nat \<bar>i\<bar>) 0 []"] d False by (simp add: decimal_def dec_value_def)
qed


subsection \<open>The properties\<close>

text \<open>
  C24. What \<^verbatim>\<open>%d\<close> prints is read back by \<^verbatim>\<open>atoi\<close>: for every 32-bit integer, \<^verbatim>\<open>vsnprintf\<close> with a buffer of at least 23 bytes ends, and the string in
  the buffer has the value of the argument. The format does not overlap the buffer.
\<close>

theorem printf_atoi:
  assumes "cstr m f [37, 100]" "23 \<le> sz" "sz \<le> 2 ^ 31" "buf \<noteq> 0" "f + 3 \<le> buf \<or> buf + sz \<le> f"
  shows "\<exists>n m'. vsnprintf m buf sz f [w] = Some (n, m') \<and> atoi m' buf = Some (sint w)"
proof -
  have r: "- (2 ^ 31) \<le> sint w" "sint w < 2 ^ 31" using sint_ge [of w] sint_lt [of w] by simp_all
  obtain ds where d: "decimal (sint w) = (if sint w < 0 then [45] else []) @ ds" "list_all isdigit ds" "ds \<noteq> []" "dec_value ds = nat \<bar>sint w\<bar>"
    "nat \<bar>sint w\<bar> < 10 ^ 10 \<Longrightarrow> length ds \<le> 2 * 10 + 1"
    using decimal_digits [of "sint w" 10] by blast
  have "\<bar>sint w\<bar> < 10 ^ 10" using r by simp
  then have "nat \<bar>sint w\<bar> < 10 ^ 10" by (simp add: nat_less_iff)
  then have l: "length (decimal (sint w)) < sz" using d(1,5) assms(2) by simp
  have "0 \<notin> set ds" using d(2) by (auto simp: list_all_iff isdigit_def)
  then have "0 \<notin> set (decimal (sint w))" using d(1) by auto
  then obtain m' where m': "vsnprintf m buf sz f [w] = Some (int (length (decimal (sint w))), m')" "cstr m' buf (decimal (sint w))"
    using vsnprintf_d [OF assms(1) l assms(3,5), of "[]"] cstr_put by blast
  define sig :: "u8 list" where "sig = (if sint w < 0 then [45] else [])"
  have c: "cstr m' buf ([] @ sig @ ds @ [])" using m'(2) by (simp add: d(1) sig_def)
  have "atoi m' buf = Some (if sig = [45] then - int (dec_value ds) else int (dec_value ds))"
    by (rule atoi_eq [OF c assms(4) _ _ d(2,3)]) (use r d(4) in \<open>auto simp: sig_def\<close>)
  then show ?thesis using m'(1) d(4) by (auto simp: sig_def)
qed

definition demo_format :: mem where
  "demo_format = (\<lambda>_. 7)(100 := 37, 101 := 100, 102 := 0)"

theorem printf_atoi_witness:
  "\<exists>n m'. vsnprintf demo_format 500 32 100 [- 1234] = Some (n, m') \<and> atoi m' 500 = Some (- 1234)"
  using printf_atoi [of demo_format 100 32 500 "- 1234"] by (simp add: demo_format_def)


text \<open>The string \<^verbatim>\<open>"%2147483647d%5d"\<close>.\<close>

definition demo_wide :: mem where
  "demo_wide = put (\<lambda>_. 7) 100 (37 # map (\<lambda>d. 48 + of_nat d) [2,1,4,7,4,8,3,6,4,7] @ [100, 37, 53, 100, 0])"

lemma parse_number_step:
  "isdigit (m f) \<Longrightarrow> parse_number m f v = parse_number m (Suc f) (as_int (v * 10 + uint (m f) - 48))"
  "\<not> isdigit (m f) \<Longrightarrow> parse_number m f v = Some (f, v)"
  by (subst parse_number.simps, simp)+

lemma parse_demo_wide:
  "parse_conversion demo_wide 101 args = Some (111, \<lparr>flags = 0, width = 2147483647, precision = -1, conv_type = INT_ARG\<rparr>, args)"
  by (simp add: parse_conversion_def demo_wide_def put_def parse_flags.simps parse_number_step isdigit_def parse_type_def as_int_id)

lemma parse_demo_wide_2:
  assumes "\<forall>x\<in>{112..115}. m x = demo_wide x"
  shows "parse_conversion m 113 args = Some (114, \<lparr>flags = 0, width = 5, precision = -1, conv_type = INT_ARG\<rparr>, args)"
proof -
  have "m 113 = 53" "m 114 = 100" using assms by (simp_all add: demo_wide_def put_def)
  then show ?thesis by (simp add: parse_conversion_def parse_flags.simps parse_number_step isdigit_def parse_type_def as_int_id)
qed

lemma convert_one:
  assumes "1 \<le> W" "W < 2 ^ 31"
  shows "convert output rd 100 \<lparr>flags = 0, width = W, precision = -1, conv_type = INT_ARG\<rparr> (1 # args) s = Some (fold output (replicate (nat W - 1) 32 @ [49]) s, args)"
proof -
  let ?c = "\<lparr>flags = 0, width = W, precision = -1, conv_type = INT_ARG\<rparr>"
  have "number_buf 1 base_d ?c = [49]" by (simp add: number_buf_def digit_loop.simps base_d_def)
  moreover have "as_int (W - 1) = W - 1" using assms by (intro as_int_id) simp_all
  ultimately have "format_integer 1 True False base_d ?c = replicate (nat W - 1) 32 @ [49]" using assms
    by (simp add: format_integer_def sign_char_def output_dup_def nat_diff_distrib)
  then show ?thesis by (simp add: convert_def signed_arg_def va_word_def)
qed

definition wide_out :: "u8 list" where
  "wide_out = (replicate 2147483646 32 @ [49]) @ replicate 4 32 @ [49]"

lemma vprintf_logged_conversion:
  assumes "m f = 37" "m (Suc f) \<noteq> 37" "parse_conversion m (Suc f) args = Some (g, c, as)"
    and "\<And>s. convert (logged vsnprintf_helper) (\<lambda>s. snd (snd s)) (m g) c as s = Some (fold (logged vsnprintf_helper) out s, as')"
    and "fold vsnprintf_helper out (aux, m) = (aux', m')"
  shows "vprintf_loop (logged vsnprintf_helper) (\<lambda>s. snd (snd s)) f args (tr, aux, m) =
    vprintf_loop (logged vsnprintf_helper) (\<lambda>s. snd (snd s)) (Suc g) as' (tr @ out, aux', m')"
  using vprintf_conversion [where rd = "\<lambda>s. snd (snd s)" and s = "(tr, aux, m)" and f = f and g = g and out = "logged vsnprintf_helper"] assms by simp

lemma fold_helper_below: "x < aux_p aux \<Longrightarrow> snd (fold vsnprintf_helper out (aux, m)) x = m x"
  by (induction out arbitrary: aux m) (simp_all add: Let_def)

lemma printed_demo_wide: "printed demo_wide 500 3 100 [1, 1] = Some wide_out"
proof -
  define a b :: "u8 list" where "a = replicate (nat 2147483647 - 1) 32 @ [49]" and "b = replicate (nat 5 - 1) 32 @ [49]"
  obtain aux m where f: "fold vsnprintf_helper a (vsnprintf_start 500 3, demo_wide) = (aux, m)" "m = put demo_wide 500 (take 2 a)" "aux_p aux = 502"
    using fold_helper [of 2 0 a 500 demo_wide] by (simp add: vsnprintf_start_max Let_def a_def)
  then have "\<forall>x\<in>{112..115}. m x = demo_wide x" by (auto simp: put_def)
  then have m: "parse_conversion m (Suc 112) [1] = Some (114, \<lparr>flags = 0, width = 5, precision = -1, conv_type = INT_ARG\<rparr>, [1])"
      "m 112 = 37" "m (Suc 112) \<noteq> 37" "m 114 = 100" "m 115 = 0"
    using parse_demo_wide_2 [of m "[1]"] by (simp_all add: demo_wide_def put_def)
  obtain aux' m' where b: "fold vsnprintf_helper b (aux, m) = (aux', m')" "m' 115 = 0"
    using m(5) f(3) fold_helper_below [of 115 aux b m] by (cases "fold vsnprintf_helper b (aux, m)") simp
  have w: "demo_wide 100 = 37" "demo_wide (Suc 100) \<noteq> 37" "demo_wide 111 = 100" by (simp_all add: demo_wide_def put_def)
  have "vprintf_loop (logged vsnprintf_helper) (\<lambda>s. snd (snd s)) 100 [1, 1] ([], vsnprintf_start 500 3, demo_wide) =
      vprintf_loop (logged vsnprintf_helper) (\<lambda>s. snd (snd s)) (Suc 111) [1] ([] @ a, aux, m)"
    by (rule vprintf_logged_conversion [OF w(1,2) _ _ f(1)]) (simp add: parse_demo_wide, unfold w(3) a_def, rule convert_one, simp_all)
  also have "Suc 111 = 112" by simp
  also have "vprintf_loop (logged vsnprintf_helper) (\<lambda>s. snd (snd s)) 112 [1] ([] @ a, aux, m) = vprintf_loop (logged vsnprintf_helper) (\<lambda>s. snd (snd s)) (Suc 114) [] (([] @ a) @ b, aux', m')"
    by (rule vprintf_logged_conversion [OF m(2,3,1) _ b(1)]) (unfold m(4) b_def, rule convert_one, simp_all)
  also have "\<dots> = Some (([] @ a) @ b, aux', m')" using b(2) by (intro vprintf_end) simp
  finally show ?thesis by (simp add: printed_def wide_out_def a_def b_def)
qed


end
