(* ===== verification/Ustar.thy ===== *)
theory Ustar
  imports Stdio
begin

text \<open>
  The headers of tar archives of \<^verbatim>\<open>lib/ustar.c\<close>. A header is 512 bytes in the memory of \<open>CString\<close>, with the fields at the offsets that the packed
  \<^verbatim>\<open>struct ustar_header\<close> gives them. The address of a string literal is the choice of the compiler and the linker: the argument \<open>lit\<close> gives it for
  each literal of the file, and \<open>literals_ok\<close> says that the literals are in memory there and not in the header.

  The lemmas show that the dangerous prefixes of a name are stripped, and that a header that \<^verbatim>\<open>ustar_make_header\<close> composes is parsed to the name, type and size
  it was made of.
\<close>

type_synonym literals = "string \<Rightarrow> nat"

definition str :: "string \<Rightarrow> u8 list" where
  "str s = map (of_nat \<circ> of_char) s"

datatype ustar_type = USTAR_REGULAR | USTAR_DIRECTORY | USTAR_EOF

text \<open>The values of the enumeration, of which -1 is 255 as a byte.\<close>

fun type_byte :: "ustar_type \<Rightarrow> u8" where
  "type_byte USTAR_REGULAR = 48"
| "type_byte USTAR_DIRECTORY = 53"
| "type_byte USTAR_EOF = 255"

definition USTAR_HEADER_SIZE :: nat where "USTAR_HEADER_SIZE = 512"

text \<open>The offsets of the fields that are used.\<close>

definition name_ofs :: nat where "name_ofs = 0"
definition mode_ofs :: nat where "mode_ofs = 100"
definition uid_ofs :: nat where "uid_ofs = 108"
definition gid_ofs :: nat where "gid_ofs = 116"
definition size_ofs :: nat where "size_ofs = 124"
definition mtime_ofs :: nat where "mtime_ofs = 136"
definition chksum_ofs :: nat where "chksum_ofs = 148"
definition typeflag_ofs :: nat where "typeflag_ofs = 156"
definition magic_ofs :: nat where "magic_ofs = 257"
definition version_ofs :: nat where "version_ofs = 263"
definition uname_ofs :: nat where "uname_ofs = 265"
definition gname_ofs :: nat where "gname_ofs = 297"
definition prefix_ofs :: nat where "prefix_ofs = 345"

lemmas ustar_offsets = USTAR_HEADER_SIZE_def name_ofs_def mode_ofs_def uid_ofs_def gid_ofs_def size_ofs_def mtime_ofs_def chksum_ofs_def
  typeflag_ofs_def magic_ofs_def version_ofs_def uname_ofs_def gname_ofs_def prefix_ofs_def

subsection \<open>The operations\<close>

definition chksum_byte :: "mem \<Rightarrow> nat \<Rightarrow> nat \<Rightarrow> u8" where
  "chksum_byte m h i = (if i \<ge> chksum_ofs \<and> i < chksum_ofs + 8 then 32 else m (h + i))"

definition calculate_chksum :: "mem \<Rightarrow> nat \<Rightarrow> u32" where
  "calculate_chksum m h = fold (\<lambda>i chksum. chksum + ucast (chksum_byte m h i)) [0..<USTAR_HEADER_SIZE] 0"

definition antisocial :: "literals \<Rightarrow> mem \<Rightarrow> nat \<Rightarrow> bool option" where
  "antisocial lit m f =
     (if m f = 47 then Some True
      else do {
        c \<leftarrow> memcmp m f (lit ''./'') 2;
        if c = 0 then Some True
        else do { c \<leftarrow> memcmp m f (lit ''../'') 3; Some (c = 0) } })"

partial_function (option) strip_loop :: "literals \<Rightarrow> mem \<Rightarrow> nat \<Rightarrow> nat option" where
  "strip_loop lit m f = do {
     again \<leftarrow> antisocial lit m f;
     if again then do { p \<leftarrow> strchr m f 47; strip_loop lit m (p + 1) } else Some f }"

definition strip_antisocial_prefixes :: "literals \<Rightarrow> mem \<Rightarrow> nat \<Rightarrow> nat option" where
  "strip_antisocial_prefixes lit m f = do {
     f \<leftarrow> strip_loop lit m f;
     if m f = 0 then Some (lit ''.'')
     else do { c \<leftarrow> strcmp m f (lit ''..''); Some (if c = 0 then lit ''.'' else f) } }"

text \<open>\<^verbatim>\<open>ustar_make_header\<close> also prints a message if the name is too long.\<close>

definition ustar_make_header :: "literals \<Rightarrow> nat \<Rightarrow> ustar_type \<Rightarrow> u32 \<Rightarrow> nat \<Rightarrow> mem \<Rightarrow> (bool \<times> mem) option" where
  "ustar_make_header lit file_name type sz h m = do {
     ASSERT (type = USTAR_REGULAR \<or> type = USTAR_DIRECTORY);
     file_name \<leftarrow> strip_antisocial_prefixes lit m file_name;
     len \<leftarrow> strlen m file_name;
     if len > 99 then Some (False, m)
     else do {
       (_, m) \<leftarrow> memset m h 0 USTAR_HEADER_SIZE;
       (_, m) \<leftarrow> strlcpy m (h + name_ofs) file_name 100;
       (_, m) \<leftarrow> vsnprintf m (h + mode_ofs) 8 (lit ''%07o'') [if type = USTAR_REGULAR then 420 else 493];
       (_, m) \<leftarrow> strlcpy m (h + uid_ofs) (lit ''0000000'') 8;
       (_, m) \<leftarrow> strlcpy m (h + gid_ofs) (lit ''0000000'') 8;
       (_, m) \<leftarrow> vsnprintf m (h + size_ofs) 12 (lit ''%011o'') [sz];
       (_, m) \<leftarrow> vsnprintf m (h + mtime_ofs) 12 (lit ''%011o'') [1136102400];
       let m = m(h + typeflag_ofs := type_byte type);
       (_, m) \<leftarrow> strlcpy m (h + magic_ofs) (lit ''ustar'') 6;
       let m = m(h + version_ofs + 1 := 48, h + version_ofs := 48);
       (_, m) \<leftarrow> strlcpy m (h + gname_ofs) (lit ''root'') 32;
       (_, m) \<leftarrow> strlcpy m (h + uname_ofs) (lit ''root'') 32;
       (_, m) \<leftarrow> vsnprintf m (h + chksum_ofs) 8 (lit ''%07o'') [calculate_chksum m h];
       Some (True, m) } }"

text \<open>The value of a field, \<^const>\<open>None\<close> if it is refused.\<close>

fun octal_loop :: "mem \<Rightarrow> nat \<Rightarrow> nat \<Rightarrow> nat \<Rightarrow> u32 \<Rightarrow> u32 option" where
  "octal_loop m s 0 ofs v = None"
| "octal_loop m s (Suc n) ofs v =
     (let c = m (s + ofs)
      in if c \<ge> 48 \<and> c \<le> 55
         then if v > 0xffffffff div 8 then None else octal_loop m s n (ofs + 1) (ucast (c - 48) + v * 8)
         else if c = 32 \<or> c = 0 then if ofs > 0 then Some v else None
         else None)"

definition parse_octal_field :: "mem \<Rightarrow> nat \<Rightarrow> nat \<Rightarrow> u32 option" where
  "parse_octal_field m s n = octal_loop m s n 0 0"

fun is_all_zeros :: "mem \<Rightarrow> nat \<Rightarrow> nat \<Rightarrow> bool" where
  "is_all_zeros m block 0 = True"
| "is_all_zeros m block (Suc cnt) = (if m block \<noteq> 0 then False else is_all_zeros m (block + 1) cnt)"

text \<open>\<^verbatim>\<open>ustar_parse_header\<close> returns an error message or the name, the type and the size.\<close>

definition ustar_parse_header :: "literals \<Rightarrow> mem \<Rightarrow> nat \<Rightarrow> (string + nat \<times> ustar_type \<times> int) option" where
  "ustar_parse_header lit m h =
     (if is_all_zeros m h USTAR_HEADER_SIZE then Some (Inr (0, USTAR_EOF, 0))
      else do {
        c \<leftarrow> memcmp m (h + magic_ofs) (lit ''ustar'') 6;
        if c \<noteq> 0 then Some (Inl ''not a ustar archive'')
        else if m (h + version_ofs) \<noteq> 48 \<or> m (h + version_ofs + 1) \<noteq> 48 then Some (Inl ''invalid ustar version'')
        else case parse_octal_field m (h + chksum_ofs) 8 of
          None \<Rightarrow> Some (Inl ''corrupt chksum field'')
        | Some chksum \<Rightarrow>
            if chksum \<noteq> calculate_chksum m h then Some (Inl ''checksum mismatch'')
            else if m (h + name_ofs + 99) \<noteq> 0 \<or> m (h + prefix_ofs) \<noteq> 0 then Some (Inl ''file name too long'')
            else if m (h + typeflag_ofs) = type_byte USTAR_REGULAR
            then case parse_octal_field m (h + size_ofs) 12 of
                None \<Rightarrow> Some (Inl ''corrupt file size field'')
              | Some size_ul \<Rightarrow>
                  if size_ul > 0x7fffffff then Some (Inl ''file too large'')
                  else do { f \<leftarrow> strip_antisocial_prefixes lit m (h + name_ofs); Some (Inr (f, USTAR_REGULAR, sint size_ul)) }
            else if m (h + typeflag_ofs) = type_byte USTAR_DIRECTORY
            then do { f \<leftarrow> strip_antisocial_prefixes lit m (h + name_ofs); Some (Inr (f, USTAR_DIRECTORY, 0)) }
            else Some (Inl ''unimplemented file type'') })"

subsection \<open>Names\<close>

text \<open>What is left of a name, as a function on strings.\<close>

lemma take_Cons_less: "take k s = c # p \<Longrightarrow> length s - k < length s"
  by (cases s; cases k) auto

function strip_prefixes :: "u8 list \<Rightarrow> u8 list" where
  "strip_prefixes s =
     (if take 1 s = [47] then strip_prefixes (drop 1 s)
      else if take 2 s = [46, 47] then strip_prefixes (drop 2 s)
      else if take 3 s = [46, 46, 47] then strip_prefixes (drop 3 s)
      else s)"
  by pat_completeness auto
termination
  by (relation "measure length") (auto dest: take_Cons_less)

declare strip_prefixes.simps [simp del]

definition social :: "u8 list \<Rightarrow> bool" where
  "social s \<longleftrightarrow> take 1 s \<noteq> [47] \<and> take 2 s \<noteq> [46, 47] \<and> take 3 s \<noteq> [46, 46, 47]"

definition safe_name :: "u8 list \<Rightarrow> u8 list" where
  "safe_name s = (let t = strip_prefixes s in if t = [] \<or> t = [46, 46] then [46] else t)"

definition ustar_literals :: "string list" where
  "ustar_literals = [''./'', ''../'', ''..'', ''.'', ''%07o'', ''0000000'', ''%011o'', ''ustar'', ''root'']"

definition literals_ok :: "literals \<Rightarrow> nat \<Rightarrow> mem \<Rightarrow> bool" where
  "literals_ok lit h m \<longleftrightarrow> (\<forall>l\<in>set ustar_literals. lit l \<noteq> 0 \<and> cstr m (lit l) (str l) \<and> (lit l + length l < h \<or> h + USTAR_HEADER_SIZE \<le> lit l))"

lemma social_strip_prefixes: "social (strip_prefixes s)"
proof (induction s rule: strip_prefixes.induct)
  case (1 s)
  then show ?case by (subst strip_prefixes.simps) (auto simp: social_def)
qed

lemma strip_prefixes_social [simp]: "social s \<Longrightarrow> strip_prefixes s = s"
  by (subst strip_prefixes.simps) (simp add: social_def)

lemma social_safe_name: "social (safe_name s)" "safe_name s \<noteq> []" "safe_name s \<noteq> [46, 46]"
  using social_strip_prefixes [of s] by (auto simp: safe_name_def Let_def social_def)

lemma safe_name_idem [simp]: "safe_name (safe_name s) = safe_name s"
  using social_safe_name [of s] by (simp add: safe_name_def [of "safe_name s"])

lemma strip_prefixes_suffix: "\<exists>n\<le>length s. strip_prefixes s = drop n s"
proof (induction s rule: strip_prefixes.induct)
  case (1 s)
  have step: "\<exists>n\<le>length s. t = drop n s" if ex: "\<exists>n\<le>length (drop k s). t = drop n (drop k s)" and k: "k \<le> length s" for k t
  proof -
    obtain n where "n \<le> length s - k" "t = drop (n + k) s" using ex by auto
    then show ?thesis using k by (intro exI [of _ "n + k"]) simp
  qed
  have len: "k \<le> length s" if "take k s = p" "length p = k" for k p using that by auto
  have k: "take 1 s = [47] \<Longrightarrow> 1 \<le> length s" "take 2 s = [46, 47] \<Longrightarrow> 2 \<le> length s" "take 3 s = [46, 46, 47] \<Longrightarrow> 3 \<le> length s"
    using len [of 1 "[47]"] len [of 2 "[46, 47]"] len [of 3 "[46, 46, 47]"] by simp_all
  show ?case
  proof (cases "take 1 s = [47] \<or> take 2 s = [46, 47] \<or> take 3 s = [46, 46, 47]")
    case False
    then show ?thesis by (subst strip_prefixes.simps) (auto intro: exI [of _ 0])
  next
    case True
    then show ?thesis using 1 step k by (subst strip_prefixes.simps) presburger
  qed
qed

lemma bytes_at_prefix: "cstr m a s \<Longrightarrow> 0 \<notin> set p \<Longrightarrow> bytes_at m a (length p) = p \<longleftrightarrow> take (length p) s = p"
proof (induction p arbitrary: a s)
  case (Cons c p)
  then show ?case by (cases s) (auto simp: bytes_at_Suc)
qed (simp add: bytes_at_def)
lemma literal:
  assumes "literals_ok lit h m" "l \<in> set ustar_literals"
  shows "lit l \<noteq> 0" "cstr m (lit l) (str l)" "lit l + length l < h \<or> h + 512 \<le> lit l"
  using assms by (auto simp: literals_ok_def USTAR_HEADER_SIZE_def)

lemma literals [simp]:
  "str ''./'' = [46, 47]" "str ''../'' = [46, 46, 47]" "str ''..'' = [46, 46]" "str ''.'' = [46]" "str ''%07o'' = [37, 48, 55, 111]"
  "str ''0000000'' = [48, 48, 48, 48, 48, 48, 48]" "str ''%011o'' = [37, 48, 49, 49, 111]" "str ''ustar'' = [117, 115, 116, 97, 114]" "str ''root'' = [114, 111, 111, 116]"
  by (simp_all add: str_def)

lemma memcmp_literal:
  assumes "cstr m f s" "f \<noteq> 0" "cstr m b p" "b \<noteq> 0" "n = length p"
  shows "\<exists>c. memcmp m f b n = Some c \<and> (c = 0 \<longleftrightarrow> take n s = p)"
proof -
  have "bytes_at m b n = p" "0 \<notin> set p" using assms(3,5) by (simp_all add: cstr_iff)
  then show ?thesis using assms(2,4) bytes_at_prefix [OF assms(1), of p] by (simp add: memcmp_def memcmp_loop_sign assms(5))
qed

lemma antisocial_eq:
  assumes "literals_ok lit h m" "cstr m f s" "f \<noteq> 0"
  shows "antisocial lit m f = Some (\<not> social s)"
proof -
  have "m f = 47 \<longleftrightarrow> take 1 s = [47]" using assms(2) by (cases s) auto
  moreover obtain c where "memcmp m f (lit ''./'') 2 = Some c" "c = 0 \<longleftrightarrow> take 2 s = [46, 47]"
    using memcmp_literal [OF assms(2,3) literal(2,1) [OF assms(1), of "''./''"], of 2] by (auto simp: ustar_literals_def)
  moreover obtain d where "memcmp m f (lit ''../'') 3 = Some d" "d = 0 \<longleftrightarrow> take 3 s = [46, 46, 47]"
    using memcmp_literal [OF assms(2,3) literal(2,1) [OF assms(1), of "''../''"], of 3] by (auto simp: ustar_literals_def)
  ultimately show ?thesis by (auto simp: antisocial_def social_def)
qed

lemma strip_loop_eq:
  assumes "literals_ok lit h m" "cstr m f s" "f \<noteq> 0"
  shows "\<exists>f'. strip_loop lit m f = Some f' \<and> f \<le> f' \<and> f' + length (strip_prefixes s) = f + length s \<and> cstr m f' (strip_prefixes s)"
  using assms(2,3)
proof (induction s arbitrary: f rule: strip_prefixes.induct)
  case (1 s)
  note eq = antisocial_eq [OF assms(1) 1(4,5)]
  show ?case
  proof (cases "social s")
    case True
    then show ?thesis using eq 1(4) by (subst strip_loop.simps) simp
  next
    case False
    have go: "\<exists>f'. strip_loop lit m f = Some f' \<and> f \<le> f' \<and> f' + length (strip_prefixes s) = f + length s \<and> cstr m f' (strip_prefixes s)"
      if s: "s = p @ 47 # t" "47 \<notin> set p" "strip_prefixes s = strip_prefixes t"
        and ih: "\<And>f. cstr m f t \<Longrightarrow> f \<noteq> 0 \<Longrightarrow> \<exists>f'. strip_loop lit m f = Some f' \<and> f \<le> f' \<and> f' + length (strip_prefixes t) = f + length t \<and> cstr m f' (strip_prefixes t)" for p t
    proof -
      have "takeWhile (\<lambda>x. x \<noteq> 47) s = p" using s(2) unfolding s(1) by (subst takeWhile_append2) auto
      then have "strchr m f 47 = Some (f + length p)" by (subst strchr_eq [OF 1(4,5)]) (simp add: s(1))
      then have e: "strip_loop lit m f = strip_loop lit m (f + length p + 1)" using eq False by (subst strip_loop.simps) simp
      have "cstr m (f + length (p @ [47])) (drop (length (p @ [47])) s)" by (rule cstr_drop [OF 1(4)]) (simp add: s(1))
      then have "cstr m (f + length p + 1) t" by (simp add: s(1))
      from ih [OF this] show ?thesis unfolding e s(3) by (auto simp: s(1))
    qed
    consider "take 1 s = [47]" | "take 1 s \<noteq> [47]" "take 2 s = [46, 47]" | "take 1 s \<noteq> [47]" "take 2 s \<noteq> [46, 47]" "take 3 s = [46, 46, 47]"
      using False by (auto simp: social_def)
    then show ?thesis
    proof cases
      case a: 1
      then have "s = [] @ 47 # drop 1 s" using append_take_drop_id [of 1 s] by simp
      then show ?thesis using a 1(1) by (intro go [of "[]" "drop 1 s"]) (simp_all add: strip_prefixes.simps [of s])
    next
      case a: 2
      then have "s = [46] @ 47 # drop 2 s" using append_take_drop_id [of 2 s] by simp
      then show ?thesis using a 1(2) by (intro go [of "[46]" "drop 2 s"]) (simp_all add: strip_prefixes.simps [of s])
    next
      case a: 3
      then have "s = [46, 46] @ 47 # drop 3 s" using append_take_drop_id [of 3 s] by simp
      then show ?thesis using a 1(3) by (intro go [of "[46, 46]" "drop 3 s"]) (simp_all add: strip_prefixes.simps [of s])
    qed
  qed
qed

lemma strip_antisocial_prefixes_eq:
  assumes "literals_ok lit h m" "cstr m f s" "f \<noteq> 0"
  obtains f' where "strip_antisocial_prefixes lit m f = Some f'" "f' \<noteq> 0" "cstr m f' (safe_name s)" "f \<le> f' \<and> f' + length (safe_name s) = f + length s \<or> f' = lit ''.'' \<and> safe_name s = [46]"
proof -
  obtain f1 where f1: "strip_loop lit m f = Some f1" "f \<le> f1" "cstr m f1 (strip_prefixes s)" "f1 + length (strip_prefixes s) = f + length s" using strip_loop_eq [OF assms] by blast
  note dot = literal [OF assms(1), of "''.''"] and dots = literal [OF assms(1), of "''..''"]
  have d: "lit ''.'' \<noteq> 0" "cstr m (lit ''.'') [46]" using dot by (simp_all add: ustar_literals_def)
  have dd: "lit ''..'' \<noteq> 0" "cstr m (lit ''..'') [46, 46]" using dots by (simp_all add: ustar_literals_def del: cstr.simps)
  have n: "m f1 = 0 \<longleftrightarrow> strip_prefixes s = []" using f1(3) by (cases "strip_prefixes s") auto
  define t where "t = strip_prefixes s"
  have "strcmp m f1 (lit ''..'') = Some (if t = [46, 46] then 0 else if (t, [46, 46]) \<in> lexord {(x, y). x < y} then -1 else 1)"
    using f1(2) assms(3) dd(1) strcmp_loop_eq [OF f1(3) dd(2)] by (simp add: strcmp_def t_def)
  then have "strip_antisocial_prefixes lit m f = Some (if t = [] \<or> t = [46, 46] then lit ''.'' else f1)"
    using f1(1) n by (simp add: strip_antisocial_prefixes_def t_def)
  then show thesis using that [of "if t = [] \<or> t = [46, 46] then lit ''.'' else f1"] d f1(2-4) assms(3) by (simp add: safe_name_def t_def [symmetric])
qed
subsection \<open>Octal numbers\<close>

definition octal :: "nat \<Rightarrow> nat \<Rightarrow> u8 list" where
  "octal k v = (let ds = (if v = 0 then [48] else digit_loop 0 base_o v 0 []) in replicate (k - length ds) 48 @ ds)"

lemma digit_loop_no_group: "fl AND GROUP = 0 \<Longrightarrow> 1 < ibase b \<Longrightarrow> digit_loop fl b v cnt cp = digit_loop 0 b v cnt cp"
proof (induction v arbitrary: cnt cp rule: less_induct)
  case (less v)
  show ?case
  proof (cases "v = 0")
    case False
    then show ?thesis using less by (subst (1 2) digit_loop_step) simp_all
  qed simp
qed

lemma digit_loop_short: "v < ibase b ^ k \<Longrightarrow> 1 < ibase b \<Longrightarrow> length (digit_loop 0 b v cnt cp) \<le> k + length cp"
proof (induction k arbitrary: v cnt cp)
  case (Suc k)
  show ?case
  proof (cases "v = 0")
    case False
    have "v div ibase b < ibase b ^ k" using Suc.prems by (simp add: div_less_iff_less_mult mult.commute)
    from Suc.IH [OF this Suc.prems(2), of "cnt + 1" "digits b ! (v mod ibase b) # cp"] show ?thesis
      using False Suc.prems(2) by (subst digit_loop_step) simp_all
  qed simp
qed simp

lemma base_value_zeros: "base_value B (replicate n 48 @ ds) = base_value B ds"
  by (induction n) simp_all

lemma octal_field:
  assumes "v < 8 ^ k" "0 < k"
  shows "length (octal k v) = k" "base_value 8 (octal k v) = v" "\<forall>c\<in>set (octal k v). 48 \<le> unat c \<and> unat c < 56"
proof -
  define ds where "ds = (if v = 0 then [48] else digit_loop 0 base_o v 0 [])"
  have "length ds \<le> k" using assms digit_loop_short [of v base_o k 0 "[]"] by (auto simp: ds_def)
  moreover have "base_value 8 ds = v" "\<forall>c\<in>set ds. 48 \<le> unat c \<and> unat c < 56" using digit_loop_value [of base_o "[]" v 0] by (auto simp: ds_def)
  moreover have o: "octal k v = replicate (k - length ds) 48 @ ds" by (simp add: octal_def ds_def Let_def)
  ultimately show "length (octal k v) = k" "base_value 8 (octal k v) = v" "\<forall>c\<in>set (octal k v). 48 \<le> unat c \<and> unat c < 56"
    by (auto simp: base_value_zeros)
qed

lemma octal_loop_value:
  assumes "cstr m (s + ofs) ds" "\<forall>c\<in>set ds. 48 \<le> unat c \<and> unat c < 56" "length ds < n" "0 < ofs + length ds"
    "unat v * 8 ^ length ds + base_value 8 ds < 2 ^ 32"
  shows "octal_loop m s n ofs v = Some (of_nat (unat v * 8 ^ length ds + base_value 8 ds))"
  using assms
proof (induction ds arbitrary: n ofs v)
  case Nil
  then show ?case by (cases n) auto
next
  case (Cons c ds)
  obtain k where n: "n = Suc k" using Cons.prems(3) by (cases n) auto
  have c: "m (s + ofs) = c" "48 \<le> c" "c \<le> 55" using Cons.prems(1,2) by (auto simp: word_le_nat_alt)
  have u: "unat (c - 48) = unat c - 48" using c(2) by (subst unat_sub) simp_all
  define w where "w = ucast (c - 48) + v * 8"
  have "unat v * 8 * 8 ^ length ds \<le> unat v * 8 ^ length (c # ds) + base_value 8 (c # ds)" by simp
  moreover have "unat v * 8 + (unat c - 48) \<le> (unat v * 8 + (unat c - 48)) * 8 ^ length ds" by simp
  ultimately have b: "(unat v * 8 + (unat c - 48)) * 8 ^ length ds + base_value 8 ds < 2 ^ 32" "unat v * 8 + (unat c - 48) < 2 ^ 32"
    using Cons.prems(5) by (simp_all add: add_mult_distrib)
  have "unat (of_nat (unat v * 8 + (unat c - 48)) :: u32) = unat v * 8 + (unat c - 48)" using b(2) by (subst unat_of_nat) simp
  moreover have "w = of_nat (unat v * 8 + (unat c - 48))" by (simp add: w_def u [symmetric] add.commute)
  ultimately have w: "unat w = unat v * 8 + (unat c - 48)" by simp
  have "unat v \<le> 536870911" using b(2) by simp
  then have "\<not> v > 0xffffffff div 8" by (simp add: word_less_nat_alt unat_div)
  then have "octal_loop m s n ofs v = octal_loop m s k (ofs + 1) w" using c by (simp add: n w_def Let_def)
  also have "\<dots> = Some (of_nat (unat w * 8 ^ length ds + base_value 8 ds))"
    using Cons.prems b(1) by (intro Cons.IH) (simp_all add: n w)
  finally show ?case by (simp add: w add_mult_distrib)
qed

lemma parse_octal_field_eq:
  assumes "cstr m s (octal k v)" "v < 8 ^ k" "0 < k" "k < n" "v < 2 ^ 32"
  shows "parse_octal_field m s n = Some (of_nat v)"
  using octal_loop_value [of m s 0 "octal k v" n 0] octal_field [OF assms(2,3)] assms(1,4,5) by (simp add: parse_octal_field_def assms(3))
lemma unat_ucast_u64: "unat (ucast w :: uintmax) = unat w" for w :: u32
proof -
  have "take_bit 64 (unat w) = unat w" using unsigned_less [of w, where ?'a = nat] by (intro take_bit_nat_eq_self) simp
  then show ?thesis by (simp add: unsigned_ucast_eq)
qed

lemma convert_o:
  assumes k: "0 < k" "k < 64"
  shows "convert output rd 111 \<lparr>flags = ZERO, width = int k, precision = -1, conv_type = INT_ARG\<rparr> (w # args) s = Some (fold output (octal k (unat w)) s, args)"
proof -
  let ?c = "\<lparr>flags = ZERO, width = int k, precision = -1, conv_type = INT_ARG\<rparr>"
  define ds where "ds = (if unat w = 0 then [48] else digit_loop 0 base_o (unat w) 0 [])"
  have u: "unat (ucast w :: uintmax) = unat w" by (rule unat_ucast_u64)
  have z: "ZERO AND GROUP = 0" "ZERO AND POUND = 0" "ZERO AND (MINUS OR ZERO) \<noteq> 0" "ZERO \<noteq> 0" "ZERO AND MINUS = 0"
    by (simp_all add: ZERO_def GROUP_def POUND_def MINUS_def)
  have "ds \<noteq> []" using digit_loop_value [of base_o "[]" "unat w" 0] by (auto simp: ds_def)
  then have l: "length ds \<ge> 1" by (simp add: Suc_le_eq)
  have nb: "number_buf (ucast w) base_o ?c = ds"
    using l digit_loop_no_group [OF z(1), of base_o] by (cases "unat w = 0") (simp_all add: number_buf_def Let_def u z(2) ds_def)
  have "length ds \<le> 64" using number_buf_fits [of base_o "ucast w" ?c] nb by simp
  then have "as_int (int k - int (length ds)) = int k - int (length ds)" using k(2) by (intro as_int_id) simp_all
  then have "format_integer (ucast w) False False base_o ?c = octal k (unat w)"
    by (simp add: format_integer_def Let_def nb z sign_char_def output_dup_def octal_def ds_def [symmetric] nat_diff_distrib')
  then show ?thesis by (simp add: convert_def unsigned_arg_def va_word_def)
qed

text \<open>A zero flag, a width and the letter.\<close>

lemma parse_0o:
  assumes "m f = 48" "parse_number m (Suc f) 0 = Some (g, int k)" "m (Suc f) \<in> {49..57}" "m g = 111"
  shows "parse_conversion m f args = Some (g, \<lparr>flags = ZERO, width = int k, precision = -1, conv_type = INT_ARG\<rparr>, args)"
proof -
  have n: "m (Suc f) \<noteq> c" if "c \<in> {45, 43, 32, 35, 48, 39, 42}" for c using assms(3) that by (auto simp: word_le_nat_alt)
  have "parse_flags m (Suc f) ZERO = Some (Suc f, ZERO)" by (subst parse_flags.simps) (simp add: n)
  then have "parse_flags m f 0 = Some (Suc f, ZERO)" using assms(1) by (subst parse_flags.simps) simp
  moreover have "ZERO AND MINUS = 0" "ZERO AND PLUS = 0" by (simp_all add: ZERO_def MINUS_def PLUS_def)
  ultimately show ?thesis using assms(2,4) n by (simp add: parse_conversion_def parse_type_def)
qed

lemma parse_literal_o:
  "cstr m f [37, 48, 55, 111] \<Longrightarrow> parse_conversion m (Suc f) args = Some (Suc (Suc (Suc f)), \<lparr>flags = ZERO, width = int 7, precision = -1, conv_type = INT_ARG\<rparr>, args)"
  "cstr m f [37, 48, 49, 49, 111] \<Longrightarrow> parse_conversion m (Suc f) args = Some (Suc (Suc (Suc (Suc f))), \<lparr>flags = ZERO, width = int 11, precision = -1, conv_type = INT_ARG\<rparr>, args)"
  by (rule parse_0o; simp add: parse_number_step isdigit_def as_int_id word_le_nat_alt)+

subsection \<open>The fields of a header\<close>

lemma put_ofs: "put m (h + k) bs (h + j) = (if k \<le> j \<and> j < k + length bs then bs ! (j - k) else m (h + j))"
  by (auto simp: put_def)

lemma literals_ok_put:
  assumes "literals_ok lit h m" "k + length bs \<le> 512"
  shows "literals_ok lit h (put m (h + k) bs)"
  unfolding literals_ok_def
proof
  fix l assume l: "l \<in> set ustar_literals"
  note lit = literal [OF assms(1) l]
  have "cstr (put m (h + k) bs) (lit l) (str l)" using lit(3) assms(2) by (intro cstr_frame [OF lit(2)]) (auto simp: put_def str_def)
  then show "lit l \<noteq> 0 \<and> cstr (put m (h + k) bs) (lit l) (str l) \<and> (lit l + length l < h \<or> h + USTAR_HEADER_SIZE \<le> lit l)"
    using lit by (simp add: USTAR_HEADER_SIZE_def)
qed

lemma strlcpy_put:
  assumes "cstr m src s" "src \<noteq> 0" "dst \<noteq> 0" "length s < sz" "src + length s < dst \<or> dst + sz \<le> src"
  shows "strlcpy m dst src sz = Some (length s, put m dst (s @ [0]))"
proof -
  have "copy_up (length s) dst src m = (\<lambda>x. if dst \<le> x \<and> x < dst + length s then m (src + (x - dst)) else m x)"
    using assms(4,5) by (intro copy_up_eq) auto
  moreover have "m (src + (x - dst)) = s ! (x - dst)" if "dst \<le> x" "x < dst + length s" for x
    using cstr_nth [OF assms(1), of "x - dst"] that by simp
  ultimately have "(copy_up (length s) dst src m)(dst + length s := 0) = put m dst (s @ [0])"
    by (auto simp: put_def fun_eq_iff nth_append)
  moreover have "\<not> length s < sz - 1 \<Longrightarrow> sz = Suc (length s)" using assms(4) by auto
  ultimately show ?thesis using assms(2-4) by (cases "length s < sz - 1") (simp_all add: strlcpy_def strlen_eq [OF assms(1,2)] memcpy_def Let_def)
qed

lemma strlcpy_literal:
  assumes "literals_ok lit h m" "l \<in> set ustar_literals" "h \<noteq> 0" "length l < n" "k + n \<le> 512"
  shows "strlcpy m (h + k) (lit l) n = Some (length l, put m (h + k) (str l @ [0]))"
proof -
  have l: "length (str l) = length l" by (simp add: str_def)
  show ?thesis using strlcpy_put [OF literal(2,1) [OF assms(1,2)], of "h + k" n] literal(3) [OF assms(1,2)] assms(3-5) by (auto simp: l)
qed

lemma snprintf_07o:
  assumes "literals_ok lit h m" "unat w < 2097152" "k + 8 \<le> 512"
  shows "vsnprintf m (h + k) 8 (lit ''%07o'') [w] = Some (7, put m (h + k) (octal 7 (unat w) @ [0]))"
proof -
  let ?f = "lit ''%07o''"
  have l: "cstr m ?f [37, 48, 55, 111]" "?f + 4 < h \<or> h + 512 \<le> ?f" using literal(2,3) [OF assms(1), of "''%07o''"] by (auto simp: ustar_literals_def)
  show ?thesis using l assms(3) octal_field(1) [of "unat w" 7] assms(2) vsnprintf_put [OF _ _ parse_literal_o(1) [OF l(1)] _ _, of "[w]" "octal 7 (unat w)" "[]" 8 "h + k"]
    convert_o [of 7 vsnprintf_helper snd w "[]"] by auto
qed

lemma snprintf_011o:
  assumes "literals_ok lit h m" "k + 12 \<le> 512"
  shows "vsnprintf m (h + k) 12 (lit ''%011o'') [w] = Some (11, put m (h + k) (octal 11 (unat w) @ [0]))"
proof -
  let ?f = "lit ''%011o''"
  have l: "cstr m ?f [37, 48, 49, 49, 111]" "?f + 5 < h \<or> h + 512 \<le> ?f" using literal(2,3) [OF assms(1), of "''%011o''"] by (auto simp: ustar_literals_def)
  have "unat w < 8 ^ 11" using unsigned_less [of w, where ?'a = nat] by simp
  then show ?thesis using l assms(2) octal_field(1) [of "unat w" 11] vsnprintf_put [OF _ _ parse_literal_o(2) [OF l(1)] _ _, of "[w]" "octal 11 (unat w)" "[]" 12 "h + k"]
    convert_o [of 11 vsnprintf_helper snd w "[]"] by auto
qed

lemma length_octal_11 [simp]: "length (octal 11 (unat w)) = 11" for w :: u32
  using octal_field(1) [of "unat w" 11] unsigned_less [of w, where ?'a = nat] by simp

subsection \<open>Checksums\<close>

lemma fold_plus: "fold (\<lambda>i c. c + g i) xs v = v + (\<Sum>i\<leftarrow>xs. g i)" for v :: "'a::comm_monoid_add"
  by (induction xs arbitrary: v) (simp_all add: add.assoc)

lemma calculate_chksum_sum: "calculate_chksum m h = (\<Sum>i<512. ucast (chksum_byte m h i))"
  unfolding calculate_chksum_def fold_plus USTAR_HEADER_SIZE_def by (simp add: sum_list_distinct_conv_sum_set atLeast0LessThan)

lemma unat_sum_le: "finite A \<Longrightarrow> (\<And>i. i \<in> A \<Longrightarrow> unat (g i) \<le> b) \<Longrightarrow> unat (\<Sum>i\<in>A. g i) \<le> card A * b" for g :: "nat \<Rightarrow> u32"
proof (induction A rule: finite_induct)
  case (insert x A)
  have "unat (g x + (\<Sum>i\<in>A. g i)) \<le> unat (g x) + unat (\<Sum>i\<in>A. g i)" by (simp add: unat_word_ariths)
  then show ?case using insert by (fastforce simp: add_mult_distrib)
qed simp

lemma unat_ucast_u8: "unat (ucast c :: u32) = unat c" for c :: u8
proof -
  have "take_bit 32 (unat c) = unat c" using unsigned_less [of c, where ?'a = nat] by (intro take_bit_nat_eq_self) simp
  then show ?thesis by (simp add: unsigned_ucast_eq)
qed

lemma calculate_chksum_less: "unat (calculate_chksum m h) < 2097152"
proof -
  have "unat (ucast (chksum_byte m h i) :: u32) \<le> 255" for i
    using unsigned_less [of "chksum_byte m h i", where ?'a = nat] by (simp add: unat_ucast_u8)
  then show ?thesis using unat_sum_le [of "{..<512}" "\<lambda>i. ucast (chksum_byte m h i)" 255] by (simp add: calculate_chksum_sum)
qed

lemma calculate_chksum_cong:
  "(\<And>j. j < 512 \<Longrightarrow> j < 148 \<or> 156 \<le> j \<Longrightarrow> m' (h + j) = m (h + j)) \<Longrightarrow> calculate_chksum m' h = calculate_chksum m h"
  unfolding calculate_chksum_sum by (intro sum.cong) (auto simp: chksum_byte_def chksum_ofs_def)

text \<open>A change of one byte outside of the checksum field changes the checksum.\<close>

lemma calculate_chksum_changes:
  assumes "j < 512" "j < 148 \<or> 156 \<le> j" "c \<noteq> m (h + j)"
  shows "calculate_chksum (m(h + j := c)) h \<noteq> calculate_chksum m h"
proof -
  let ?g = "\<lambda>m i. ucast (chksum_byte m h i) :: u32"
  have "(\<Sum>i<512. ?g m' i) = ?g m' j + (\<Sum>i\<in>{..<512} - {j}. ?g m' i)" for m' using assms(1) by (intro sum.remove) auto
  moreover have "(\<Sum>i\<in>{..<512} - {j}. ?g (m(h + j := c)) i) = (\<Sum>i\<in>{..<512} - {j}. ?g m i)"
    by (intro sum.cong) (auto simp: chksum_byte_def)
  moreover have "?g (m(h + j := c)) j \<noteq> ?g m j"
  proof
    assume "?g (m(h + j := c)) j = ?g m j"
    then have "unat c = unat (m (h + j))" using assms(2) unat_ucast_u8 by (auto simp: chksum_byte_def chksum_ofs_def) metis+
    then show False using assms(3) by (simp add: word_unat_eq_iff)
  qed
  ultimately show ?thesis by (simp add: calculate_chksum_sum)
qed
subsection \<open>Composing and parsing\<close>

text \<open>The header up to the checksum, as the list of the stores.\<close>

definition header_fields :: "u8 list \<Rightarrow> ustar_type \<Rightarrow> u32 \<Rightarrow> (nat \<times> u8 list) list" where
  "header_fields t type sz =
     [(0, replicate 512 0), (0, t @ [0]), (100, octal 7 (if type = USTAR_REGULAR then 420 else 493) @ [0]), (108, str ''0000000'' @ [0]),
      (116, str ''0000000'' @ [0]), (124, octal 11 (unat sz) @ [0]), (136, octal 11 1136102400 @ [0]), (156, [type_byte type]),
      (257, str ''ustar'' @ [0]), (264, [48]), (263, [48]), (297, str ''root'' @ [0]), (265, str ''root'' @ [0])]"

definition put_fields :: "nat \<Rightarrow> (nat \<times> u8 list) list \<Rightarrow> mem \<Rightarrow> mem" where
  "put_fields h fs m = fold (\<lambda>(k, bs) m. put m (h + k) bs) fs m"

definition composed :: "u8 list \<Rightarrow> ustar_type \<Rightarrow> u32 \<Rightarrow> nat \<Rightarrow> mem \<Rightarrow> mem" where
  "composed t type sz h m =
     (let m = put_fields h (header_fields t type sz) m in put m (h + 148) (octal 7 (unat (calculate_chksum m h)) @ [0]))"

lemma put_fields_simps [simp]: "put_fields h [] m = m" "put_fields h ((k, bs) # fs) m = put_fields h fs (put m (h + k) bs)"
  by (simp_all add: put_fields_def)

lemma memset_put: "h \<noteq> 0 \<Longrightarrow> memset m h v n = Some (h, put m h (replicate n v))"
  by (auto simp: memset_def set_bytes_eq put_def fun_eq_iff)

lemma literals_ok_put_0: "literals_ok lit h m \<Longrightarrow> length bs \<le> 512 \<Longrightarrow> literals_ok lit h (put m h bs)"
  using literals_ok_put [of lit h m 0 bs] by simp

lemma octal_lengths [simp]: "length (octal 7 420) = 7" "length (octal 7 493) = 7" "length (octal 11 1136102400) = 11"
  by (simp_all add: octal_field)

lemma make_header_long:
  assumes "literals_ok lit h m" "cstr m f s" "f \<noteq> 0" "type \<noteq> USTAR_EOF" "99 < length (safe_name s)"
  shows "ustar_make_header lit f type sz h m = Some (False, m)"
proof -
  obtain f' where "strip_antisocial_prefixes lit m f = Some f'" "f' \<noteq> 0" "cstr m f' (safe_name s)"
    using strip_antisocial_prefixes_eq [OF assms(1-3)] by blast
  then show ?thesis using assms(4,5) by (cases type) (simp_all add: ustar_make_header_def strlen_eq)
qed

lemma make_header_eq:
  assumes "literals_ok lit h m" "h \<noteq> 0" "cstr m f s" "f \<noteq> 0" "f + length s < h \<or> h + 512 \<le> f" "type \<noteq> USTAR_EOF" "length (safe_name s) \<le> 99"
  shows "ustar_make_header lit f type sz h m = Some (True, composed (safe_name s) type sz h m)"
proof -
  define t where "t = safe_name s"
  obtain f' where f': "strip_antisocial_prefixes lit m f = Some f'" "f' \<noteq> 0" "cstr m f' t" "f \<le> f' \<and> f' + length t = f + length s \<or> f' = lit ''.'' \<and> t = [46]"
    using strip_antisocial_prefixes_eq [OF assms(1,3,4)] unfolding t_def by blast
  have t: "length t \<le> 99" using assms(7) by (simp add: t_def)
  have out: "f' + length t < h \<or> h + 512 \<le> f'"
    using f'(4) assms(5) literal(3) [OF assms(1), of "''.''"] by (auto simp: ustar_literals_def)
  have "cstr (put m h (replicate 512 0)) f' t" using out by (intro cstr_frame [OF f'(3)]) (auto simp: put_def)
  then have nm: "strlcpy (put m h (replicate 512 0)) h f' 100 = Some (length t, put (put m h (replicate 512 0)) h (t @ [0]))"
    using f'(2) assms(2) t out by (intro strlcpy_put) auto
  have lits: "''0000000'' \<in> set ustar_literals" "''ustar'' \<in> set ustar_literals" "''root'' \<in> set ustar_literals" by (simp_all add: ustar_literals_def)
  have v: "h + 263 + 1 = h + 264" by simp
  note ok = literals_ok_put literals_ok_put_0 assms(1)
  have "type = USTAR_REGULAR \<or> type = USTAR_DIRECTORY" using assms(6) by (cases type) simp_all
  then show ?thesis
    unfolding ustar_make_header_def ustar_offsets v put_single composed_def header_fields_def t_def [symmetric] using f'(1,2) t assms(2) nm
    by (auto simp: strlen_eq [OF f'(3)] memset_put strlcpy_literal [OF _ lits(1)] strlcpy_literal [OF _ lits(2)] strlcpy_literal [OF _ lits(3)]
        snprintf_07o [where h = h] snprintf_011o [where h = h] ok calculate_chksum_less Let_def)
qed
lemma put_ofs_0: "put m h bs (h + j) = (if j < length bs then bs ! j else m (h + j))"
  using put_ofs [of m h 0 bs j] by simp

lemma cstr_put_apart: "cstr m a s \<Longrightarrow> b + length bs \<le> a \<or> a + length s < b \<Longrightarrow> cstr (put m b bs) a s"
  by (erule cstr_frame) (auto simp: put_def)

lemma octal_no_null: "v < 8 ^ k \<Longrightarrow> 0 < k \<Longrightarrow> 0 \<notin> set (octal k v)"
  using octal_field(3) [of v k] by (metis not_numeral_le_zero unsigned_0)

lemma put_outside: "x < h \<or> h + 512 \<le> x \<Longrightarrow> k + length bs \<le> 512 \<Longrightarrow> put m (h + k) bs x = m x"
  by (auto simp: put_def)

lemma put_outside_0: "x < h \<or> h + 512 \<le> x \<Longrightarrow> length bs \<le> 512 \<Longrightarrow> put m h bs x = m x"
  by (auto simp: put_def)

lemma length_octal_chksum [simp]: "length (octal 7 (unat (calculate_chksum m h))) = 7"
  using octal_field(1) [of "unat (calculate_chksum m h)" 7] calculate_chksum_less [of m h] by simp

lemma composed_outside:
  assumes "length t \<le> 99" "x < h \<or> h + 512 \<le> x"
  shows "composed t type sz h m x = m x"
  using assms(1) by (simp add: composed_def header_fields_def Let_def put_outside [OF assms(2)] put_outside_0 [OF assms(2)])

lemma composed_chksum: "calculate_chksum (composed t type sz h m) h = calculate_chksum (put_fields h (header_fields t type sz) m) h"
  unfolding composed_def Let_def by (rule calculate_chksum_cong) (auto simp: put_ofs)

lemma composed_literals_ok: "literals_ok lit h m \<Longrightarrow> length t \<le> 99 \<Longrightarrow> literals_ok lit h (composed t type sz h m)"
  unfolding composed_def header_fields_def Let_def by (simp add: literals_ok_put literals_ok_put_0)

lemma composed_bytes:
  assumes "length t \<le> 99"
  shows "bytes_at (composed t type sz h m) (h + 257) 6 = [117, 115, 116, 97, 114, 0]" "composed t type sz h m (h + 263) = 48" "composed t type sz h m (h + 264) = 48"
    "composed t type sz h m (h + 99) = 0" "composed t type sz h m (h + 345) = 0" "composed t type sz h m (h + 156) = type_byte type"
proof -
  note fields = composed_def header_fields_def Let_def put_ofs put_ofs_0
  have "composed t type sz h m (h + (257 + i)) = [117, 115, 116, 97, 114, 0] ! i" if "i < 6" for i using that assms by (simp add: fields)
  then show "bytes_at (composed t type sz h m) (h + 257) 6 = [117, 115, 116, 97, 114, 0]" by (intro nth_equalityI) (simp_all add: add.assoc)
  show "composed t type sz h m (h + 263) = 48" "composed t type sz h m (h + 264) = 48" "composed t type sz h m (h + 345) = 0"
    "composed t type sz h m (h + 156) = type_byte type" using assms by (simp_all add: fields)
  show "composed t type sz h m (h + 99) = 0" using assms by (simp add: fields nth_append)
qed

lemma composed_strings:
  assumes "length t \<le> 99" "0 \<notin> set t"
  shows "cstr (composed t type sz h m) h t" "cstr (composed t type sz h m) (h + 124) (octal 11 (unat sz))"
    "cstr (composed t type sz h m) (h + 148) (octal 7 (unat (calculate_chksum (composed t type sz h m) h)))"
proof -
  note fields = composed_def header_fields_def Let_def
  show "cstr (composed t type sz h m) h t" using assms by (simp add: fields cstr_put_apart cstr_put)
  have "0 \<notin> set (octal 11 (unat sz))" using unsigned_less [of sz, where ?'a = nat] by (intro octal_no_null) simp_all
  then show "cstr (composed t type sz h m) (h + 124) (octal 11 (unat sz))" by (simp add: fields cstr_put_apart cstr_put)
  have "0 \<notin> set (octal 7 (unat (calculate_chksum (composed t type sz h m) h)))" using calculate_chksum_less by (intro octal_no_null) simp_all
  then show "cstr (composed t type sz h m) (h + 148) (octal 7 (unat (calculate_chksum (composed t type sz h m) h)))"
    unfolding composed_chksum by (simp add: composed_def Let_def cstr_put)
qed

lemma is_all_zeros_iff: "is_all_zeros m b n \<longleftrightarrow> (\<forall>i<n. m (b + i) = 0)"
proof (induction n arbitrary: b)
  case (Suc n)
  then show ?case by (auto simp: less_Suc_eq_0_disj)
qed simp
lemma bytes_at_cstr: "cstr m a s \<Longrightarrow> bytes_at m a (Suc (length s)) = s @ [0]"
  by (induction s arbitrary: a) (simp_all add: bytes_at_Suc, simp add: bytes_at_def)

lemma cstr_shift: "cstr m a s \<Longrightarrow> (\<And>i. i \<le> length s \<Longrightarrow> m' (b + i) = m (a + i)) \<Longrightarrow> cstr m' b s"
proof -
  assume s: "cstr m a s" and same: "\<And>i. i \<le> length s \<Longrightarrow> m' (b + i) = m (a + i)"
  have "bytes_at m' b (length s) = bytes_at m a (length s)" by (intro nth_equalityI) (simp_all add: same)
  then show ?thesis using s same [of "length s"] by (simp add: cstr_iff)
qed

text \<open>The bytes of a composed header are parsed back wherever they are in memory.\<close>

lemma parse_image:
  assumes img: "\<And>i. i < 512 \<Longrightarrow> m' (h' + i) = composed t type sz h m (h + i)" and ok: "literals_ok lit h' m'" and "h' \<noteq> 0"
    and t: "length t \<le> 99" "0 \<notin> set t" "safe_name t = t" and "type \<noteq> USTAR_EOF" "0 \<le> sint sz"
  obtains g where "ustar_parse_header lit m' h' = Some (Inr (g, type, if type = USTAR_REGULAR then sint sz else 0))" "cstr m' g t"
proof -
  let ?m = "composed t type sz h m"
  note b = composed_bytes [OF t(1), of type sz h m] and c = composed_strings [OF t(1,2), of type sz h m]
  have img': "m' (h' + k + i) = ?m (h + k + i)" if "k + i < 512" for k i using img [OF that] by (simp add: add.assoc)
  have cs: "calculate_chksum m' h' = calculate_chksum ?m h" unfolding calculate_chksum_sum using img by (intro sum.cong) (simp_all add: chksum_byte_def)
  have c1: "cstr m' h' t" by (rule cstr_shift [OF c(1)]) (use img t(1) in simp)
  have c2: "cstr m' (h' + 124) (octal 11 (unat sz))" by (rule cstr_shift [OF c(2)], rule img') simp
  have c3: "cstr m' (h' + 148) (octal 7 (unat (calculate_chksum m' h')))" unfolding cs by (rule cstr_shift [OF c(3)], rule img') simp
  have u: "lit ''ustar'' \<noteq> 0" "cstr m' (lit ''ustar'') [117, 115, 116, 97, 114]" using literal(1,2) [OF ok, of "''ustar''"] by (simp_all add: ustar_literals_def del: cstr.simps)
  have "bytes_at m' (lit ''ustar'') 6 = [117, 115, 116, 97, 114, 0]" using bytes_at_cstr [OF u(2)] by (simp add: eval_nat_numeral)
  moreover have ub: "bytes_at m' (h' + 257) 6 = [117, 115, 116, 97, 114, 0]" unfolding b(1) [symmetric] by (intro nth_equalityI) (simp_all add: img')
  ultimately have "memcmp m' (h' + 257) (lit ''ustar'') 6 = Some 0" using \<open>h' \<noteq> 0\<close> u(1) by (simp add: memcmp_def memcmp_loop_sign)
  moreover have "m' (h' + 257) = 117" using arg_cong [OF ub, of hd] by (simp add: bytes_at_def upt_rec)
  then have "\<not> is_all_zeros m' h' 512" by (auto simp: is_all_zeros_iff intro: exI [of _ 257])
  moreover have "parse_octal_field m' (h' + 148) 8 = Some (calculate_chksum m' h')"
    using parse_octal_field_eq [OF c3, of 8] calculate_chksum_less [of m' h'] by simp
  moreover have "unat sz < 2 ^ 32" using unsigned_less [of sz, where ?'a = nat] by simp
  then have "parse_octal_field m' (h' + 124) 12 = Some sz" using parse_octal_field_eq [OF c2, of 12] by simp
  moreover have "uint sz = sint sz" using sint_lt [of sz] \<open>0 \<le> sint sz\<close> by (simp add: uint_sint take_bit_int_eq_self)
  then have "\<not> sz > 0x7fffffff" using sint_lt [of sz] by (simp add: not_less word_le_def)
  moreover have "type = USTAR_REGULAR \<or> type = USTAR_DIRECTORY" using \<open>type \<noteq> USTAR_EOF\<close> by (cases type) simp_all
  moreover have v: "h' + 263 + 1 = h' + 264" by simp
  moreover obtain g where g: "strip_antisocial_prefixes lit m' h' = Some g" "cstr m' g t" using strip_antisocial_prefixes_eq [OF ok c1 \<open>h' \<noteq> 0\<close>] t(3) by metis
  moreover have "m' (h' + 263) = 48" "m' (h' + 264) = 48" "m' (h' + 99) = 0" "m' (h' + 345) = 0" "m' (h' + 156) = type_byte type"
    using img [of 263] img [of 264] img [of 99] img [of 345] img [of 156] b(2-6) by simp_all
  ultimately have "ustar_parse_header lit m' h' = Some (Inr (g, type, if type = USTAR_REGULAR then sint sz else 0))"
    unfolding ustar_parse_header_def ustar_offsets v by auto
  then show thesis using that g(2) by blast
qed

text \<open>A header whose checksum field is well formed and has another value is refused, with one message or another.\<close>

lemma parse_refuses:
  assumes "literals_ok lit h m" "h \<noteq> 0" "parse_octal_field m (h + 148) 8 = Some k" "k \<noteq> calculate_chksum m h" "m (h + 148) \<noteq> 0"
  shows "\<exists>e. ustar_parse_header lit m h = Some (Inl e)"
proof -
  have "\<not> is_all_zeros m h 512" using assms(5) by (auto simp: is_all_zeros_iff intro: exI [of _ 148])
  moreover have "lit ''ustar'' \<noteq> 0" using literal(1) [OF assms(1), of "''ustar''"] by (simp add: ustar_literals_def)
  ultimately show ?thesis using assms(2-4) by (auto simp: ustar_parse_header_def ustar_offsets memcmp_def)
qed

lemma composed_corrupt:
  assumes "literals_ok lit h m" "h \<noteq> 0" "length t \<le> 99" "0 \<notin> set t" "j < 512" "j < 148 \<or> 156 \<le> j" "c \<noteq> composed t type sz h m (h + j)"
  shows "\<exists>e. ustar_parse_header lit ((composed t type sz h m)(h + j := c)) h = Some (Inl e)"
proof -
  define m' where "m' = composed t type sz h m"
  let ?k = "calculate_chksum m' h" and ?m = "m'(h + j := c)"
  have s: "cstr m' (h + 148) (octal 7 (unat ?k))" unfolding m'_def by (rule composed_strings(3) [OF assms(3,4)])
  have s': "cstr ?m (h + 148) (octal 7 (unat ?k))" using assms(6) by (intro cstr_frame [OF s]) auto
  then have "parse_octal_field ?m (h + 148) 8 = Some ?k" using parse_octal_field_eq [OF s', of 8] calculate_chksum_less [of m' h] by simp
  moreover have "?k \<noteq> calculate_chksum ?m h" using calculate_chksum_changes [OF assms(5,6), of c m' h] assms(7) by (simp add: m'_def)
  moreover have "?m (h + 148) \<noteq> 0" using s' length_octal_chksum [of m' h] by (cases "octal 7 (unat ?k)") auto
  moreover have "literals_ok lit h ?m" unfolding put_single
    by (rule literals_ok_put) (use composed_literals_ok [OF assms(1,3)] assms(5) in \<open>simp_all add: m'_def\<close>)
  ultimately show ?thesis using parse_refuses [OF _ assms(2)] unfolding m'_def by blast
qed
subsection \<open>The property\<close>

definition demo_lit :: literals where
  "demo_lit l = (case map_of (zip ustar_literals [100, 110, 120, 130, 140, 150, 160, 170, 180]) l of Some a \<Rightarrow> a | None \<Rightarrow> 0)"

definition demo_literals :: mem where
  "demo_literals = fold (\<lambda>l m. put m (demo_lit l) (str l @ [0])) ustar_literals (put (\<lambda>_. 7) 2000 [47, 97, 0])"

lemma demo_literals_ok: "literals_ok demo_lit 4096 demo_literals" "cstr demo_literals 2000 [47, 97]"
  by (simp_all add: literals_ok_def demo_literals_def demo_lit_def ustar_literals_def put_def USTAR_HEADER_SIZE_def)

text \<open>
  C25. A header that \<^verbatim>\<open>ustar_make_header\<close> composes is parsed back: for a file or directory whose name, without its dangerous prefixes, has at most 99 characters,
  and a size that is not negative, \<^verbatim>\<open>ustar_parse_header\<close> returns the stripped name, the type and the size (0 for a directory). The stripped name is not
  \<^verbatim>\<open>..\<close> and begins neither with \<^verbatim>\<open>/\<close> nor with \<^verbatim>\<open>./\<close> or \<^verbatim>\<open>../\<close>. Only the 512 bytes of the header are written, and with any one byte outside of the
  checksum field changed the header is refused. A longer name is refused without a change of the memory.
\<close>

theorem ustar_header_roundtrip:
  assumes "literals_ok lit h m" "h \<noteq> 0" "cstr m f s" "f \<noteq> 0" "f + length s < h \<or> h + 512 \<le> f" "type \<noteq> USTAR_EOF" "0 \<le> sint sz"
  shows "if length (safe_name s) \<le> 99
     then \<exists>m' g. ustar_make_header lit f type sz h m = Some (True, m') \<and> (\<forall>x. x < h \<or> h + 512 \<le> x \<longrightarrow> m' x = m x)
       \<and> ustar_parse_header lit m' h = Some (Inr (g, type, if type = USTAR_REGULAR then sint sz else 0)) \<and> cstr m' g (safe_name s)
       \<and> social (safe_name s) \<and> safe_name s \<noteq> [46, 46]
       \<and> (\<forall>j c. j < 512 \<and> (j < 148 \<or> 156 \<le> j) \<and> c \<noteq> m' (h + j) \<longrightarrow> (\<exists>e. ustar_parse_header lit (m'(h + j := c)) h = Some (Inl e)))
     else ustar_make_header lit f type sz h m = Some (False, m)"
proof (cases "length (safe_name s) \<le> 99")
  case True
  let ?m = "composed (safe_name s) type sz h m"
  obtain f' where "cstr m f' (safe_name s)" using strip_antisocial_prefixes_eq [OF assms(1,3,4)] by blast
  then have n: "0 \<notin> set (safe_name s)" by (simp add: cstr_iff)
  obtain g where "ustar_parse_header lit ?m h = Some (Inr (g, type, if type = USTAR_REGULAR then sint sz else 0))" "cstr ?m g (safe_name s)"
    using parse_image [OF refl composed_literals_ok [OF assms(1) True] assms(2) True n _ assms(6,7)] by auto
  then show ?thesis
    using True make_header_eq [OF assms(1-6) True] composed_outside [OF True] social_safe_name composed_corrupt [OF assms(1,2) True n] by auto
qed (use make_header_long [OF assms(1,3,4,6)] in simp)

theorem ustar_header_roundtrip_witness:
  "\<exists>m' g. ustar_make_header demo_lit 2000 USTAR_REGULAR 5 4096 demo_literals = Some (True, m')
    \<and> ustar_parse_header demo_lit m' 4096 = Some (Inr (g, USTAR_REGULAR, 5)) \<and> cstr m' g [97] \<and> m' 2001 = 97"
proof -
  have s: "safe_name [47, 97] = [97]" by (simp add: safe_name_def strip_prefixes.simps)
  have "\<exists>m' g. ustar_make_header demo_lit 2000 USTAR_REGULAR 5 4096 demo_literals = Some (True, m') \<and> (\<forall>x. x < 4096 \<or> 4096 + 512 \<le> x \<longrightarrow> m' x = demo_literals x)
    \<and> ustar_parse_header demo_lit m' 4096 = Some (Inr (g, USTAR_REGULAR, 5)) \<and> cstr m' g [97]"
    using ustar_header_roundtrip [OF demo_literals_ok(1) _ demo_literals_ok(2), of USTAR_REGULAR 5] unfolding s by auto
  moreover have "demo_literals 2001 = 97" using demo_literals_ok(2) by simp
  ultimately show ?thesis by force
qed

end
