(* ===== verification/Fsutil.thy ===== *)
theory Fsutil
  imports Ustar Filesys Palloc
begin

text \<open>
  The commands of \<^verbatim>\<open>filesys/fsutil.c\<close>, which list, print and remove files and copy them from and to tar archives on the scratch device. The state holds the
  file system, the sectors of the scratch device (\<^const>\<open>None\<close> if there is none), the memory with the file names and buffers, and the two static variables \<^verbatim>\<open>sector\<close>.
  The addresses of the buffers that \<^verbatim>\<open>malloc\<close> returns are arguments, \<open>stack\<close> is the uninitialised entry of \<^verbatim>\<open>dir_add\<close>. Messages are left out; what
  \<^verbatim>\<open>ls\<close> and \<^verbatim>\<open>cat\<close> print is their result.

  The lemmas show what \<^verbatim>\<open>append\<close> leaves on the scratch device: a header that is parsed back and sectors whose copy is the file, but not the two sectors of zeros
  that should end the archive.
\<close>

record fsutil =
  fsys :: fs
  scratch :: "u8 list list option"
  umem :: mem
  extract_sector :: nat
  append_sector :: nat

definition scratch_read :: "nat \<Rightarrow> nat \<Rightarrow> fsutil \<Rightarrow> fsutil option" where
  "scratch_read n a st = do {
     d \<leftarrow> scratch st;
     ASSERT (n < length d);
     Some (st\<lparr>umem := put (umem st) a (d ! n)\<rparr>) }"

definition scratch_write :: "nat \<Rightarrow> nat \<Rightarrow> fsutil \<Rightarrow> fsutil option" where
  "scratch_write n a st = do {
     d \<leftarrow> scratch st;
     ASSERT (n < length d);
     Some (st\<lparr>scratch := Some (d[n := bytes_at (umem st) a 512])\<rparr>) }"

text \<open>The string at an address.\<close>

definition string_at :: "mem \<Rightarrow> nat \<Rightarrow> u8 list option" where
  "string_at m a = do { n \<leftarrow> strlen m a; Some (bytes_at m a n) }"

subsection \<open>Listing, printing and removing\<close>

partial_function (option) ls_loop :: "fs \<Rightarrow> dir \<Rightarrow> u8 list list option" where
  "ls_loop s d = do {
     (name, d) \<leftarrow> dir_readdir s d;
     case name of None \<Rightarrow> Some [] | Some name \<Rightarrow> do { rest \<leftarrow> ls_loop s d; Some (name # rest) } }"

definition fsutil_ls :: "fsutil \<Rightarrow> (u8 list list \<times> fsutil) option" where
  "fsutil_ls st = do {
     (d, s) \<leftarrow> dir_open_root (fsys st);
     d \<leftarrow> d;
     names \<leftarrow> ls_loop s d;
     Some (names, st\<lparr>fsys := s\<rparr>) }"

partial_function (option) cat_loop :: "fs \<Rightarrow> file_t \<Rightarrow> ((nat \<times> u8 list) list \<times> file_t) option" where
  "cat_loop s f = do {
     (bs, f') \<leftarrow> file_read s f PGSIZE;
     if bs = [] then Some ([], f') else do { (rest, f'') \<leftarrow> cat_loop s f'; Some ((file_tell f, bs) # rest, f'') } }"

text \<open>\<open>page\<close> says whether \<^verbatim>\<open>palloc_get_page\<close> finds a page.\<close>

definition fsutil_cat :: "bool \<Rightarrow> nat \<Rightarrow> fsutil \<Rightarrow> ((nat \<times> u8 list) list \<times> fsutil) option" where
  "fsutil_cat page file_name st = do {
     name \<leftarrow> string_at (umem st) file_name;
     (f, s) \<leftarrow> filesys_open (fsys st) name;
     f \<leftarrow> f;
     ASSERT page;
     (out, f) \<leftarrow> cat_loop s f;
     s \<leftarrow> file_close s (Some f);
     Some (out, st\<lparr>fsys := s\<rparr>) }"

definition fsutil_rm :: "nat \<Rightarrow> fsutil \<Rightarrow> fsutil option" where
  "fsutil_rm file_name st = do {
     name \<leftarrow> string_at (umem st) file_name;
     (ok, s) \<leftarrow> filesys_remove (fsys st) name;
     ASSERT ok;
     Some (st\<lparr>fsys := s\<rparr>) }"

subsection \<open>Archives\<close>

function extract_copy :: "nat \<Rightarrow> nat \<Rightarrow> file_t \<Rightarrow> fsutil \<Rightarrow> (file_t \<times> fsutil) option" where
  "extract_copy data_buf sz dst st =
     (if sz > 0
      then do {
        let chunk_size = (if sz > 512 then 512 else sz);
        st \<leftarrow> scratch_read (extract_sector st) data_buf st;
        let st = st\<lparr>extract_sector := extract_sector st + 1\<rparr>;
        (n, dst, s) \<leftarrow> file_write (fsys st) dst (bytes_at (umem st) data_buf chunk_size);
        ASSERT (n = chunk_size);
        extract_copy data_buf (sz - chunk_size) dst (st\<lparr>fsys := s\<rparr>) }
      else Some (dst, st))"
  by pat_completeness auto
termination
  by (relation "measure (\<lambda>(_, sz, _). sz)") auto

declare extract_copy.simps [simp del]

definition extract_file :: "u8 list \<Rightarrow> nat \<Rightarrow> u8 list \<Rightarrow> nat \<Rightarrow> fsutil \<Rightarrow> fsutil option" where
  "extract_file stack data_buf name sz st = do {
     (ok, s) \<leftarrow> filesys_create stack (fsys st) (Some name) sz False;
     ASSERT ok;
     (dst, s) \<leftarrow> filesys_open s name;
     dst \<leftarrow> dst;
     (dst, st) \<leftarrow> extract_copy data_buf sz dst (st\<lparr>fsys := s\<rparr>);
     s \<leftarrow> file_close (fsys st) (Some dst);
     Some (st\<lparr>fsys := s\<rparr>) }"

partial_function (option) extract_loop :: "literals \<Rightarrow> u8 list \<Rightarrow> nat \<Rightarrow> nat \<Rightarrow> fsutil \<Rightarrow> fsutil option" where
  "extract_loop lit stack header data_buf st = do {
     st \<leftarrow> scratch_read (extract_sector st) header st;
     let st = st\<lparr>extract_sector := extract_sector st + 1\<rparr>;
     r \<leftarrow> ustar_parse_header lit (umem st) header;
     case r of
       Inl error \<Rightarrow> None
     | Inr (file_name, type, sz) \<Rightarrow>
         if type = USTAR_EOF then Some st
         else if type = USTAR_DIRECTORY then extract_loop lit stack header data_buf st
         else do {
           name \<leftarrow> string_at (umem st) file_name;
           st \<leftarrow> extract_file stack data_buf name (nat sz) st;
           extract_loop lit stack header data_buf st } }"

definition fsutil_extract :: "literals \<Rightarrow> u8 list \<Rightarrow> nat \<Rightarrow> nat \<Rightarrow> fsutil \<Rightarrow> fsutil option" where
  "fsutil_extract lit stack header data_buf st = do {
     ASSERT (header \<noteq> 0 \<and> data_buf \<noteq> 0);
     ASSERT (scratch st \<noteq> None);
     st \<leftarrow> extract_loop lit stack header data_buf st;
     (_, m) \<leftarrow> memset (umem st) header 0 512;
     st \<leftarrow> scratch_write 0 header (st\<lparr>umem := m\<rparr>);
     scratch_write 1 header st }"

function append_loop :: "nat \<Rightarrow> nat \<Rightarrow> file_t \<Rightarrow> fsutil \<Rightarrow> (file_t \<times> fsutil) option" where
  "append_loop buffer sz src st =
     (if sz > 0
      then do {
        let chunk_size = (if sz > 512 then 512 else sz);
        d \<leftarrow> scratch st;
        ASSERT (append_sector st < length d);
        (bs, src) \<leftarrow> file_read (fsys st) src chunk_size;
        ASSERT (length bs = chunk_size);
        (_, m) \<leftarrow> memset (put (umem st) buffer bs) (buffer + chunk_size) 0 (512 - chunk_size);
        st \<leftarrow> scratch_write (append_sector st) buffer (st\<lparr>umem := m\<rparr>);
        append_loop buffer (sz - chunk_size) src (st\<lparr>append_sector := append_sector st + 1\<rparr>) }
      else Some (src, st))"
  by pat_completeness auto
termination
  by (relation "measure (\<lambda>(_, sz, _). sz)") auto

declare append_loop.simps [simp del]

text \<open>The last statement but two writes to the sector of the one before it, from the address after that of the buffer.\<close>

definition fsutil_append :: "literals \<Rightarrow> nat \<Rightarrow> nat \<Rightarrow> fsutil \<Rightarrow> fsutil option" where
  "fsutil_append lit file_name buffer st = do {
     ASSERT (buffer \<noteq> 0);
     name \<leftarrow> string_at (umem st) file_name;
     (src, s) \<leftarrow> filesys_open (fsys st) name;
     src \<leftarrow> src;
     let sz = file_length s src;
     ASSERT (scratch st \<noteq> None);
     (ok, m) \<leftarrow> ustar_make_header lit file_name USTAR_REGULAR (of_nat sz) buffer (umem st);
     ASSERT ok;
     st \<leftarrow> scratch_write (append_sector st) buffer (st\<lparr>fsys := s, umem := m\<rparr>);
     (src, st) \<leftarrow> append_loop buffer sz src (st\<lparr>append_sector := append_sector st + 1\<rparr>);
     (_, m) \<leftarrow> memset (umem st) buffer 0 512;
     st \<leftarrow> scratch_write (append_sector st) buffer (st\<lparr>umem := m\<rparr>);
     st \<leftarrow> scratch_write (append_sector st) (buffer + 1) st;
     s \<leftarrow> file_close (fsys st) (Some src);
     Some (st\<lparr>fsys := s\<rparr>) }"
subsection \<open>Contents in sectors\<close>

text \<open>The sectors that hold a list of bytes, the last one filled with zeros.\<close>

function sectors_of :: "u8 list \<Rightarrow> u8 list list" where
  "sectors_of bs = (if bs = [] then [] else (take 512 bs @ replicate (512 - length bs) 0) # sectors_of (drop 512 bs))"
  by pat_completeness auto
termination
  by (relation "measure length") auto

declare sectors_of.simps [simp del]

lemma sectors_of_Nil [simp]: "sectors_of [] = []"
  by (simp add: sectors_of.simps)

lemma sectors_of_step: "bs \<noteq> [] \<Longrightarrow> sectors_of bs = (take 512 bs @ replicate (512 - length bs) 0) # sectors_of (drop 512 bs)"
  by (subst sectors_of.simps) simp

lemma take_concat_sectors: "take (length bs) (concat (sectors_of bs)) = bs"
proof (induction bs rule: sectors_of.induct)
  case (1 bs)
  show ?case
  proof (cases "bs = []")
    case False
    show ?thesis
    proof (cases "length bs \<le> 512")
      case True
      then show ?thesis using False by (simp add: sectors_of_step)
    next
      case l: False
      then have "take (length bs) (concat (sectors_of bs)) = take 512 bs @ take (length (drop 512 bs)) (concat (sectors_of (drop 512 bs)))"
        using False by (simp add: sectors_of_step)
      then show ?thesis using 1 [OF False] by simp
    qed
  qed simp
qed

lemma patch_single: "k < length d \<Longrightarrow> patch d k [x] = d[k := x]"
  by (simp add: patch_def upd_conv_take_nth_drop)

text \<open>One round of the loop of \<^verbatim>\<open>append\<close>, and the state after it.\<close>

definition appended :: "nat \<Rightarrow> u8 list list \<Rightarrow> u8 list \<Rightarrow> fsutil \<Rightarrow> fsutil" where
  "appended buf d X st = st\<lparr>umem := put (umem st) buf X, scratch := Some (d[append_sector st := X]), append_sector := append_sector st + 1\<rparr>"

lemma append_loop_step:
  assumes "file_ok (fsys st) f" "rest = drop (pos f) (file_contents (fsys st) f)" "buf \<noteq> 0" "scratch st = Some d" "append_sector st < length d" "rest \<noteq> []"
  shows "append_loop buf (length rest) f st =
    append_loop buf (length (drop 512 rest)) (f\<lparr>pos := pos f + min 512 (length rest)\<rparr>) (appended buf d (take 512 rest @ replicate (512 - length rest) 0) st)"
proof -
  define n where "n = (if length rest > 512 then 512 else length rest)"
  define X where "X = take 512 rest @ replicate (512 - length rest) 0"
  define m1 where "m1 = put (umem st) buf X"
  have n: "length (take 512 rest) = n" "take n rest = take 512 rest" "n \<le> 512" "512 - n = 512 - length rest" "length rest - n = length (drop 512 rest)"
    "n = min 512 (length rest)" by (auto simp: n_def)
  have pn: "min n (length (file_contents (fsys st) f) - pos f) = n" using assms(2) by (auto simp: n_def)
  have rd: "file_read (fsys st) f n = Some (take 512 rest, f\<lparr>pos := pos f + n\<rparr>)"
    unfolding file_read_eq [OF assms(1)] assms(2) [symmetric] n(2) pn ..
  have "memset (put (umem st) buf (take 512 rest)) (buf + n) 0 (512 - n) = Some (buf + n, put (put (umem st) buf (take 512 rest)) (buf + n) (replicate (512 - n) 0))"
    using assms(3) by (intro memset_put) simp
  also have "put (put (umem st) buf (take 512 rest)) (buf + n) (replicate (512 - n) 0) = m1"
    using put_append [of "umem st" buf "take 512 rest" "replicate (512 - n) 0"] n by (simp add: m1_def X_def)
  finally have ms: "memset (put (umem st) buf (take 512 rest)) (buf + n) 0 (512 - n) = Some (buf + n, m1)" .
  have "length X = 512" by (auto simp: X_def)
  then have "bytes_at m1 buf 512 = X" using bytes_at_put [of "umem st" buf X] by (simp add: m1_def)
  then have "scratch_write (append_sector st) buf (st\<lparr>umem := m1\<rparr>) = Some (st\<lparr>umem := m1, scratch := Some (d[append_sector st := X])\<rparr>)"
    using assms(4,5) by (simp add: scratch_write_def)
  then show ?thesis
    using assms(4-6) rd ms n by (subst append_loop.simps) (simp add: n_def [symmetric] X_def [symmetric] m1_def appended_def Let_def)
qed

lemma append_loop_eq:
  assumes "file_ok (fsys st) f" "pos f \<le> length (file_contents (fsys st) f)" "rest = drop (pos f) (file_contents (fsys st) f)" "buf \<noteq> 0" "scratch st = Some d"
    "append_sector st + length (sectors_of rest) \<le> length d"
  shows "\<exists>m'. append_loop buf (length rest) f st = Some (f\<lparr>pos := length (file_contents (fsys st) f)\<rparr>,
      st\<lparr>scratch := Some (patch d (append_sector st) (sectors_of rest)), umem := m', append_sector := append_sector st + length (sectors_of rest)\<rparr>)
    \<and> (\<forall>x. x < buf \<or> buf + 512 \<le> x \<longrightarrow> m' x = umem st x)"
  using assms
proof (induction rest arbitrary: f st d rule: sectors_of.induct)
  case (1 rest)
  let ?k = "append_sector st"
  note p = "1.prems"(2) and r = "1.prems"(3) and d = "1.prems"(5)
  show ?case
  proof (cases "rest = []")
    case True
    then have "length (file_contents (fsys st) f) = pos f" using p r by simp
    then show ?thesis using True d by (subst append_loop.simps) (auto intro: exI [of _ "umem st"])
  next
    case False
    define X where "X = take 512 rest @ replicate (512 - length rest) 0"
    define f1 where "f1 = f\<lparr>pos := pos f + min 512 (length rest)\<rparr>"
    let ?st = "appended buf d X st"
    have k: "?k < length d" using "1.prems"(6) False by (simp add: sectors_of_step)
    have step: "append_loop buf (length rest) f st = append_loop buf (length (drop 512 rest)) f1 ?st"
      unfolding X_def f1_def by (rule append_loop_step [OF "1.prems"(1,3,4,5) k False])
    have "\<exists>m'. append_loop buf (length (drop 512 rest)) f1 ?st = Some (f1\<lparr>pos := length (file_contents (fsys ?st) f1)\<rparr>,
        ?st\<lparr>scratch := Some (patch (d[?k := X]) (append_sector ?st) (sectors_of (drop 512 rest))), umem := m',
          append_sector := append_sector ?st + length (sectors_of (drop 512 rest))\<rparr>)
      \<and> (\<forall>x. x < buf \<or> buf + 512 \<le> x \<longrightarrow> m' x = umem ?st x)"
    proof (rule "1.IH" [OF False])
      show "file_ok (fsys ?st) f1" using "1.prems"(1) by (simp add: appended_def f1_def file_ok_def)
      show "pos f1 \<le> length (file_contents (fsys ?st) f1)" using p r by (auto simp: appended_def f1_def)
      show "drop 512 rest = drop (pos f1) (file_contents (fsys ?st) f1)" using r by (auto simp: appended_def f1_def add.commute min_def)
      show "append_sector ?st + length (sectors_of (drop 512 rest)) \<le> length (d[?k := X])" using "1.prems"(6) False by (simp add: appended_def sectors_of_step)
    qed (use "1.prems"(4) in \<open>simp_all add: appended_def\<close>)
    moreover have "patch (d[?k := X]) (?k + 1) (sectors_of (drop 512 rest)) = patch d ?k (sectors_of rest)"
      using patch_append [of ?k "[X]" "sectors_of (drop 512 rest)" d] "1.prems"(6) k False by (simp add: patch_single sectors_of_step X_def)
    moreover have "put (umem st) buf X x = umem st x" if "x < buf \<or> buf + 512 \<le> x" for x using that by (auto simp: X_def put_def)
    ultimately show ?thesis using False unfolding step by (auto simp: appended_def f1_def sectors_of_step)
  qed
qed

lemma extract_copy_eq:
  assumes "writable_file (fsys st) f" "pos f + length bs \<le> length (file_contents (fsys st) f)" "scratch st = Some d"
    "extract_sector st + length (sectors_of bs) \<le> length d" "take (length (sectors_of bs)) (drop (extract_sector st) d) = sectors_of bs"
  shows "\<exists>f' st'. extract_copy a (length bs) f st = Some (f', st') \<and> writable_file (fsys st') f'
    \<and> file_contents (fsys st') f' = patch (file_contents (fsys st) f) (pos f) bs \<and> extract_sector st' = extract_sector st + length (sectors_of bs)"
  using assms
proof (induction bs arbitrary: f st rule: sectors_of.induct)
  case (1 bs)
  show ?case
  proof (cases "bs = []")
    case True
    then show ?thesis using "1.prems"(1) by (subst extract_copy.simps) simp
  next
    case False
    let ?X = "take 512 bs @ replicate (512 - length bs) 0" and ?c = "file_contents (fsys st) f"
    define n where "n = (if length bs > 512 then 512 else length bs)"
    define st1 where "st1 = st\<lparr>umem := put (umem st) a ?X, extract_sector := extract_sector st + 1\<rparr>"
    have n: "length (take 512 bs) = n" "length bs - n = length (drop 512 bs)" by (auto simp: n_def)
    note ss = sectors_of_step [OF False]
    have k: "extract_sector st < length d" using "1.prems"(4) by (simp add: ss)
    have at: "d ! extract_sector st = ?X" "take (length (sectors_of (drop 512 bs))) (drop (extract_sector st + 1) d) = sectors_of (drop 512 bs)"
      using "1.prems"(5) k by (simp_all add: ss Cons_nth_drop_Suc [symmetric])
    have "bytes_at (umem st1) a n = take 512 bs" by (intro nth_equalityI) (auto simp: st1_def put_def n_def nth_append split: if_splits)
    moreover have "pos f + length (take 512 bs) \<le> length ?c" "take 512 bs \<noteq> []" using "1.prems"(2) False by simp_all
    then obtain f' s' where w: "file_write (fsys st) f (take 512 bs) = Some (n, f', s')" "writable_file s' f'" "pos f' = pos f + n"
      "file_contents s' f' = patch ?c (pos f) (take 512 bs)"
      using files.wr_law [OF "1.prems"(1), of "take 512 bs"] n(1) by (auto simp: file_tell_def patch_def)
    ultimately have step: "extract_copy a (length bs) f st = extract_copy a (length (drop 512 bs)) f' (st1\<lparr>fsys := s'\<rparr>)"
      using False "1.prems"(3) k at(1) n(2) by (subst extract_copy.simps) (simp add: n_def [symmetric] scratch_read_def st1_def Let_def)
    have l: "length (take 512 bs) + length (drop 512 bs) = length bs" by (metis append_take_drop_id length_append)
    have "\<exists>f2 st2. extract_copy a (length (drop 512 bs)) f' (st1\<lparr>fsys := s'\<rparr>) = Some (f2, st2) \<and> writable_file (fsys st2) f2
      \<and> file_contents (fsys st2) f2 = patch (file_contents (fsys (st1\<lparr>fsys := s'\<rparr>)) f') (pos f') (drop 512 bs)
      \<and> extract_sector st2 = extract_sector (st1\<lparr>fsys := s'\<rparr>) + length (sectors_of (drop 512 bs))"
      by (rule "1.IH" [OF False]) (use w "1.prems" at l n(1) in \<open>simp_all add: st1_def ss\<close>)
    moreover have "patch (patch ?c (pos f) (take 512 bs)) (pos f + n) (drop 512 bs) = patch ?c (pos f) bs"
      using patch_append [of "pos f" "take 512 bs" "drop 512 bs" ?c] "1.prems"(2) n(1) l by simp
    ultimately show ?thesis unfolding step using w(3,4) by (auto simp: st1_def ss)
  qed
qed
subsection \<open>The end of an archive\<close>

text \<open>The sector that \<^verbatim>\<open>append\<close> writes last: the byte after the buffer is its last byte.\<close>

definition end_sector :: "u8 \<Rightarrow> u8 list" where
  "end_sector c = replicate 511 0 @ [c]"

lemma bytes_at_after_zeros: "bytes_at (put m a (replicate 512 0)) (a + 1) 512 = end_sector (m (a + 512))"
proof (intro nth_equalityI)
  fix i assume "i < length (bytes_at (put m a (replicate 512 0)) (a + 1) 512)"
  then have i: "i < 512" by simp
  show "bytes_at (put m a (replicate 512 0)) (a + 1) 512 ! i = end_sector (m (a + 512)) ! i"
  proof (cases "i = 511")
    case True
    then show ?thesis by (simp add: put_def end_sector_def nth_append add.commute)
  next
    case False
    then show ?thesis using i by (simp add: put_def end_sector_def nth_append)
  qed
qed (simp add: end_sector_def)

lemma extract_loop_end:
  assumes "scratch x = Some d" "extract_sector x < length d" "d ! extract_sector x = end_sector c" "literals_ok lit h (umem x)" "h \<noteq> 0"
  shows "extract_loop lit stack h a x \<noteq> None \<longleftrightarrow> c = 0"
proof -
  define m where "m = put (umem x) h (end_sector c)"
  have e: "m (h + i) = (if i = 511 then c else 0)" if "i < 512" for i
    using that put_ofs_0 [of "umem x" h "end_sector c" i] by (auto simp: m_def end_sector_def nth_append)
  have ok: "literals_ok lit h m" unfolding m_def by (rule literals_ok_put_0 [OF assms(4)]) (simp add: end_sector_def)
  have u: "lit ''ustar'' \<noteq> 0" "m (lit ''ustar'') = 117" using literal(1,2) [OF ok, of "''ustar''"] by (simp_all add: ustar_literals_def)
  have "is_all_zeros m h 512 \<longleftrightarrow> c = 0" using e by (auto simp: is_all_zeros_iff split: if_splits)
  moreover have "memcmp_loop 6 (h + 257) (lit ''ustar'') m \<noteq> 0" using e [of 257] u(2) by (simp add: memcmp_loop_sign bytes_at_def upt_rec)
  ultimately have "ustar_parse_header lit m h = Some (if c = 0 then Inr (0, USTAR_EOF, 0) else Inl ''not a ustar archive'')"
    using u(1) assms(5) by (simp add: ustar_parse_header_def ustar_offsets memcmp_def)
  then show ?thesis using assms(1-3) by (subst extract_loop.simps) (simp add: scratch_read_def m_def Let_def)
qed

subsection \<open>Opening files\<close>

lemma filesys_open_fresh: "filesys_open s name = Some (Some f, s') \<Longrightarrow> pos f = 0 \<and> \<not> deny_write f"
  by (auto simp: filesys_open_def file_open_def bind_Some_iff split: option.splits if_splits prod.splits)

lemma file_close_pos: "file_close s (Some (f\<lparr>pos := p\<rparr>)) = file_close s (Some f)"
  by (cases "deny_write f") (simp_all add: file_close_def file_allow_write_def bind_assoc)

lemma sint_size: "n < 2 ^ 31 \<Longrightarrow> sint (of_nat n :: u32) = int n"
  using as_int_id [of "int n"] by (simp add: as_int_def)

lemma string_at_cstr: "cstr m a s \<Longrightarrow> a \<noteq> 0 \<Longrightarrow> string_at m a = Some s"
  by (simp add: string_at_def strlen_eq) (simp add: cstr_iff)

lemma append_eq:
  assumes "literals_ok lit buf (umem st)" "buf \<noteq> 0" "cstr (umem st) name s" "name \<noteq> 0" "name + length s < buf \<or> buf + 512 \<le> name" "length (safe_name s) \<le> 99"
    and f: "filesys_open (fsys st) s = Some (Some f, s1)" "file_ok s1 f" "file_close s1 (Some f) = Some s2" "bs = file_contents s1 f"
    and d: "scratch st = Some d" "append_sector st + length (sectors_of bs) + 1 < length d"
    and h: "hdr = bytes_at (composed (safe_name s) USTAR_REGULAR (of_nat (length bs)) buf (umem st)) buf 512"
  shows "\<exists>st'. fsutil_append lit name buf st = Some st' \<and> fsys st' = s2 \<and> append_sector st' = append_sector st + 1 + length (sectors_of bs)
    \<and> scratch st' = Some (patch d (append_sector st) (hdr # sectors_of bs @ [end_sector (umem st (buf + 512))]))"
proof -
  define m1 where "m1 = composed (safe_name s) USTAR_REGULAR (of_nat (length bs)) buf (umem st)"
  define k where "k = append_sector st"
  define st1 where "st1 = st\<lparr>fsys := s1, umem := m1, scratch := Some (d[k := hdr]), append_sector := k + 1\<rparr>"
  have len: "file_length s1 f = length bs" using f(4) by (simp add: file_length_def inode_length_def)
  have mk: "ustar_make_header lit name USTAR_REGULAR (of_nat (length bs)) buf (umem st) = Some (True, m1)"
    unfolding m1_def by (rule make_header_eq [OF assms(1-5) _ assms(6)]) simp
  have p0: "pos f = 0" using filesys_open_fresh [OF f(1)] by simp
  have "\<exists>m'. append_loop buf (length bs) f st1 = Some (f\<lparr>pos := length (file_contents (fsys st1) f)\<rparr>,
      st1\<lparr>scratch := Some (patch (d[k := hdr]) (append_sector st1) (sectors_of bs)), umem := m', append_sector := append_sector st1 + length (sectors_of bs)\<rparr>)
    \<and> (\<forall>x. x < buf \<or> buf + 512 \<le> x \<longrightarrow> m' x = umem st1 x)"
    by (rule append_loop_eq) (use f(2,4) p0 assms(2) d(2) in \<open>simp_all add: st1_def k_def\<close>)
  then obtain m2 where m2: "append_loop buf (length bs) f st1 = Some (f\<lparr>pos := length bs\<rparr>,
      st1\<lparr>scratch := Some (patch (d[k := hdr]) (k + 1) (sectors_of bs)), umem := m2, append_sector := k + 1 + length (sectors_of bs)\<rparr>)"
    "m2 (buf + 512) = m1 (buf + 512)" using f(4) by (auto simp: st1_def)
  have c: "m1 (buf + 512) = umem st (buf + 512)" unfolding m1_def by (rule composed_outside [OF assms(6)]) simp
  have k: "k < length d" using d(2) by (simp add: k_def)
  have pt: "patch (d[k := hdr]) (k + 1) (sectors_of bs) = patch d k (hdr # sectors_of bs)"
    using patch_append [of k "[hdr]" "sectors_of bs" d] d(2) k by (simp add: patch_single k_def)
  let ?d = "patch d k (hdr # sectors_of bs)" and ?E = "end_sector (umem st (buf + 512))" and ?j = "k + 1 + length (sectors_of bs)"
  have lj: "?j < length ?d" using d(2) by (simp add: k_def)
  have en: "?d[?j := ?E] = patch d k (hdr # sectors_of bs @ [?E])"
    using patch_append [of k "hdr # sectors_of bs" "[?E]" d] patch_single [OF lj, of ?E] d(2) by (simp add: k_def)
  have "bytes_at (put m2 buf (replicate 512 0)) (buf + 1) 512 = ?E" unfolding bytes_at_after_zeros m2(2) c ..
  then have "fsutil_append lit name buf st = Some (st1\<lparr>scratch := Some (?d[?j := ?E]), umem := put m2 buf (replicate 512 0), append_sector := ?j, fsys := s2\<rparr>)"
    using assms(2) string_at_cstr [OF assms(3,4)] f(1,3) d(1) len mk k m2(1) [unfolded pt] lj h [folded m1_def]
    by (simp add: fsutil_append_def scratch_write_def st1_def k_def [symmetric] memset_put file_close_pos)
  then show ?thesis unfolding en by (simp add: k_def)
qed
lemma filesys_open_eq:
  assumes r: "find (\<lambda>i. sector (inodes s ! i) = ROOT_DIR_SECTOR) (open_inodes s) = Some r" "r < length (inodes s)" "0 < open_cnt (inodes s ! r)"
    and dir: "dir_ok s r" "dir_sector s r name = Some sec"
    and k: "find (\<lambda>i. sector (inodes s ! i) = sec) (open_inodes s) = Some k" "k < length (inodes s)" "k \<noteq> r" and heap: "heap_ok s"
  shows "filesys_open s name = Some (Some \<lparr>file_inode = k, pos = 0, deny_write = False\<rparr>, upd_inode k (\<lambda>n. n\<lparr>open_cnt := open_cnt n + 1\<rparr>) s)"
proof -
  let ?up = "\<lambda>n :: inode. n\<lparr>open_cnt := open_cnt n + 1\<rparr>"
  define s1 where "s1 = upd_inode r ?up s"
  have i: "inodes s1 ! j = (if r = j then ?up (inodes s ! j) else inodes s ! j)" for j unfolding s1_def by (rule nth_upd_inode [OF r(2)])
  have fields: "open_inodes s1 = open_inodes s" "heap_ok s1" "length (inodes s1) = length (inodes s)" using heap by (simp_all add: s1_def upd_inode_def)
  have "data (inodes s1 ! r) = data (inodes s ! r)" "deny_write_cnt (inodes s1 ! r) = deny_write_cnt (inodes s ! r)" by (simp_all add: i)
  then have "inode_ok s1 (data (inodes s1 ! r))" "dir_sector s1 r name = Some sec" using dir by (simp_all add: dir_ok_def dir_sector_def s1_def)
  then obtain e ofs where l: "lookup s1 r name = Some (Some (e, ofs))" "entry_sector e = sec"
    using lookup_dir_sector [of s1 r name] by auto
  have "sector (inodes s1 ! j) = sector (inodes s ! j)" for j by (simp add: i)
  then have k1: "find (\<lambda>i. sector (inodes s1 ! i) = sec) (open_inodes s1) = Some k" using k(1) fields(1) by simp
  have "inode_close (upd_inode k ?up s1) (Some r) = Some (upd_inode k ?up s)"
    using r(2,3) k(2,3) unfolding s1_def by (simp add: inode_close_def upd_inode_def Let_def list_update_swap)
  then show ?thesis
    using r(1) l k1 fields(2) unfolding filesys_open_def dir_open_root_def inode_open_def
    by (simp add: inode_reopen_def dir_open_def dir_lookup_def inode_open_def dir_close_def file_open_def s1_def [symmetric]) (simp add: s1_def upd_inode_def heap)
qed
subsection \<open>The property\<close>

text \<open>The file system of \<open>Directory\<close> with five bytes in the file ``a'', and a scratch device of eight sectors.\<close>

definition demo_data :: inode_disk where
  "demo_data = demo_inode\<lparr>dlength := 5, direct_block_sectors := replicate 122 0\<rparr>"

definition demo_arch :: fsutil where
  "demo_arch = \<lparr>fsys = upd_inode 1 (\<lambda>n. n\<lparr>data := demo_data\<rparr>) demo_dir_fs, scratch = Some (replicate 8 (replicate 512 9)), umem = demo_literals,
     extract_sector = 0, append_sector = 0\<rparr>"

lemma demo_data_ok: "inode_ok (fsys demo_arch) demo_data" "separate (fsys demo_arch) demo_data" "length (contents (fsys demo_arch) demo_data) = 5"
proof -
  have n: "nsectors demo_data = 1" "data_sector demo_dir_fs demo_data 0 = 0"
    by (simp_all add: nsectors_def bytes_to_sectors_def data_sector_def inode_consts demo_inode_def demo_data_def)
  then have "inode_ok demo_dir_fs demo_data" using length_demo_entries
    by (auto simp: inode_ok_def index_used_def) (simp_all add: demo_dir_fs_def demo_fs_def zeros_def BLOCK_SECTOR_SIZE_def, auto)
  moreover have "separate demo_dir_fs demo_data" using n by (auto simp: separate_def index_used_def inj_on_def)
  ultimately show "inode_ok (fsys demo_arch) demo_data" "separate (fsys demo_arch) demo_data" by (simp_all add: demo_arch_def)
  show "length (contents (fsys demo_arch) demo_data) = 5" by (simp add: demo_data_def)
qed

definition demo_arch_file :: file_t where
  "demo_arch_file = \<lparr>file_inode = 1, pos = 0, deny_write = False\<rparr>"

lemma demo_open:
  obtains s1 s2 where "filesys_open (fsys demo_arch) [97] = Some (Some demo_arch_file, s1)" "file_ok s1 demo_arch_file"
    "file_close s1 (Some demo_arch_file) = Some s2" "length (file_contents s1 demo_arch_file) = 5"
proof -
  let ?s = "fsys demo_arch" and ?up = "\<lambda>n :: inode. n\<lparr>open_cnt := open_cnt n + 1\<rparr>"
  have "inodes ?s = [\<lparr>sector = 1, open_cnt = 1, removed = False, deny_write_cnt = 0, data = demo_dir_inode\<rparr>,
      \<lparr>sector = 2, open_cnt = 1, removed = False, deny_write_cnt = 0, data = demo_data\<rparr>]" "open_inodes ?s = [1, 0]" "heap_ok ?s"
    by (simp_all add: demo_arch_def upd_inode_def demo_dir_fs_def demo_fs_def)
  note ino = this
  have i0: "inodes ?s ! 0 = inodes demo_dir_fs ! 0" by (simp add: ino demo_dir_fs_def)
  have same: "inode_ok ?s d = inode_ok demo_dir_fs d" "separate ?s d = separate demo_dir_fs d" "contents ?s d = contents demo_dir_fs d" for d by (simp_all add: demo_arch_def)
  have "dir_ok ?s 0" using demo_dir_ok unfolding dir_ok_def i0 same .
  moreover have "dir_sector ?s 0 = dir_sector demo_dir_fs 0" by (rule ext) (simp only: dir_sector_def i0 same)
  then have "dir_sector ?s 0 [97] = Some 2" by (simp add: demo_dir_sector)
  ultimately have "filesys_open ?s [97] = Some (Some demo_arch_file, upd_inode 1 ?up ?s)"
    unfolding demo_arch_file_def by (intro filesys_open_eq [where r = 0 and k = 1 and sec = 2]) (simp_all add: ino ROOT_DIR_SECTOR_def)
  moreover have "data (inodes (upd_inode 1 ?up ?s) ! 1) = demo_data" "open_cnt (inodes (upd_inode 1 ?up ?s) ! 1) = 2" by (simp_all add: upd_inode_def ino)
  then have "file_ok (upd_inode 1 ?up ?s) demo_arch_file" "length (file_contents (upd_inode 1 ?up ?s) demo_arch_file) = 5"
    "file_close (upd_inode 1 ?up ?s) (Some demo_arch_file) = Some ?s"
    using demo_data_ok by (simp_all add: demo_arch_file_def file_ok_def file_close_def file_allow_write_def inode_close_def) (simp_all add: upd_inode_def ino Let_def)
  ultimately show thesis using that by blast
qed
text \<open>
  C26. What \<^verbatim>\<open>fsutil_append\<close> leaves on the scratch device, for a file whose stripped name has at most 99 characters, while there is room: a header that
  \<^verbatim>\<open>ustar_parse_header\<close> reads back as this name and the length of the file, and the contents in the sectors after it, from which the loop of \<^verbatim>\<open>fsutil_extract\<close>
  makes a file with the same contents. But only one sector follows, whose last byte is the byte in memory after the buffer: an extraction that comes to it ends
  if that byte is zero, and panics otherwise.
\<close>

theorem fsutil_append_archive:
  assumes "literals_ok lit buf (umem st)" "buf \<noteq> 0" "cstr (umem st) name s" "name \<noteq> 0" "name + length s < buf \<or> buf + 512 \<le> name" "length (safe_name s) \<le> 99"
    and f: "filesys_open (fsys st) s = Some (Some f, s1)" "file_ok s1 f" "file_close s1 (Some f) = Some s2" "bs = file_contents s1 f" "length bs < 2 ^ 31"
    and d: "scratch st = Some d" "append_sector st + length (sectors_of bs) + 1 < length d"
  shows "\<exists>st' hdr. fsutil_append lit name buf st = Some st' \<and> fsys st' = s2 \<and> append_sector st' = append_sector st + 1 + length (sectors_of bs)
    \<and> scratch st' = Some (patch d (append_sector st) (hdr # sectors_of bs @ [end_sector (umem st (buf + 512))]))
    \<and> (\<forall>m h. bytes_at m h 512 = hdr \<and> literals_ok lit h m \<and> h \<noteq> 0 \<longrightarrow>
        (\<exists>g. ustar_parse_header lit m h = Some (Inr (g, USTAR_REGULAR, int (length bs))) \<and> cstr m g (safe_name s)))
    \<and> (\<forall>x g a. scratch x = scratch st' \<and> extract_sector x = append_sector st + 1 \<and> writable_file (fsys x) g \<and> pos g = 0
        \<and> length (file_contents (fsys x) g) = length bs \<longrightarrow>
        (\<exists>g' x'. extract_copy a (length bs) g x = Some (g', x') \<and> file_contents (fsys x') g' = bs \<and> extract_sector x' = append_sector st'))
    \<and> (\<forall>x stack h a. scratch x = scratch st' \<and> extract_sector x = append_sector st' \<and> literals_ok lit h (umem x) \<and> h \<noteq> 0 \<longrightarrow>
        (extract_loop lit stack h a x \<noteq> None \<longleftrightarrow> umem st (buf + 512) = 0))"
proof -
  let ?c = "composed (safe_name s) USTAR_REGULAR (of_nat (length bs)) buf (umem st)" and ?E = "end_sector (umem st (buf + 512))"
  define k where "k = append_sector st"
  define hdr where "hdr = bytes_at ?c buf 512"
  define d' where "d' = patch d k (hdr # sectors_of bs @ [?E])"
  obtain st' where st': "fsutil_append lit name buf st = Some st'" "fsys st' = s2" "append_sector st' = k + 1 + length (sectors_of bs)" "scratch st' = Some d'"
    using append_eq [OF assms(1-6) f(1-4) d hdr_def] unfolding d'_def k_def by blast
  obtain f' where "cstr (umem st) f' (safe_name s)" using strip_antisocial_prefixes_eq [OF assms(1,3,4)] by blast
  then have n: "0 \<notin> set (safe_name s)" by (simp add: cstr_iff)
  have "\<exists>g. ustar_parse_header lit m h = Some (Inr (g, USTAR_REGULAR, int (length bs))) \<and> cstr m g (safe_name s)"
    if h: "bytes_at m h 512 = hdr" "literals_ok lit h m" "h \<noteq> 0" for m h
  proof -
    have "m (h + i) = ?c (buf + i)" if "i < 512" for i using arg_cong [OF h(1), of "\<lambda>l. l ! i"] that by (simp add: hdr_def)
    from parse_image [OF this h(2,3) assms(6) n] f(5) show ?thesis by (auto simp: sint_size)
  qed
  moreover have l: "k + length (hdr # sectors_of bs @ [?E]) \<le> length d" using d(2) by (simp add: k_def)
  have nth: "d' ! (k + i) = (hdr # sectors_of bs @ [?E]) ! i" if "i < length (sectors_of bs) + 2" for i
    using nth_patch [OF l, of "k + i"] that l by (simp add: d'_def)
  have ld: "length d' = length d" using l by (simp add: d'_def)
  have "d' ! (k + 1 + i) = sectors_of bs ! i" if "i < length (sectors_of bs)" for i using nth [of "Suc i"] that by (simp add: nth_append)
  then have "take (length (sectors_of bs)) (drop (k + 1) d') = sectors_of bs" by (rule_tac nth_equalityI) (use ld l in simp_all)
  then have "\<exists>g' x'. extract_copy a (length bs) g x = Some (g', x') \<and> file_contents (fsys x') g' = bs \<and> extract_sector x' = append_sector st'"
    if "scratch x = scratch st'" "extract_sector x = k + 1" "writable_file (fsys x) g" "pos g = 0" "length (file_contents (fsys x) g) = length bs" for x g a
    using extract_copy_eq [OF that(3), of bs d' a] that st'(3,4) l ld by (auto simp: patch_def)
  moreover have "extract_loop lit stack h a x \<noteq> None \<longleftrightarrow> umem st (buf + 512) = 0"
    if "scratch x = scratch st'" "extract_sector x = append_sector st'" "literals_ok lit h (umem x)" "h \<noteq> 0" for x stack h a
    using extract_loop_end [OF _ _ _ that(3,4), of d' "umem st (buf + 512)" stack a] nth [of "Suc (length (sectors_of bs))"] that(1,2) st'(3,4) ld l by (simp add: nth_append)
  ultimately show ?thesis using st' unfolding k_def [symmetric] d'_def by blast
qed

theorem fsutil_append_archive_witness:
  "\<exists>st'. fsutil_append demo_lit 2001 4096 demo_arch = Some st' \<and> append_sector st' = 2
    \<and> extract_loop demo_lit [] 4096 9000 (st'\<lparr>umem := demo_literals, extract_sector := 2\<rparr>) = None"
proof -
  obtain s1 s2 where f: "filesys_open (fsys demo_arch) [97] = Some (Some demo_arch_file, s1)" "file_ok s1 demo_arch_file"
    "file_close s1 (Some demo_arch_file) = Some s2" "length (file_contents s1 demo_arch_file) = 5" by (rule demo_open)
  let ?bs = "file_contents s1 demo_arch_file"
  have "length ?bs \<noteq> 0" unfolding f(4) by simp
  then have "?bs \<noteq> []" by (simp only: length_0_conv) simp
  then have ss: "length (sectors_of ?bs) = 1" using f(4) by (subst sectors_of_step) auto
  have s: "safe_name [97] = [97]" by (simp add: safe_name_def strip_prefixes.simps)
  have m: "umem demo_arch = demo_literals" "append_sector demo_arch = 0" "scratch demo_arch = Some (replicate 8 (replicate 512 9))" by (simp_all add: demo_arch_def)
  have b: "demo_literals (4096 + 512) = 7" by (simp add: demo_literals_def demo_lit_def ustar_literals_def put_def)
  have n: "literals_ok demo_lit 4096 (umem demo_arch)" "cstr (umem demo_arch) 2001 [97]" using demo_literals_ok by (simp_all add: m)
  have c: "(4096::nat) \<noteq> 0" "(2001::nat) \<noteq> 0" "2001 + length [97::u8] < 4096 \<or> 4096 + 512 \<le> (2001::nat)" "length (safe_name [97]) \<le> 99" "length ?bs < 2 ^ 31"
    "append_sector demo_arch + length (sectors_of ?bs) + 1 < length (replicate 8 (replicate 512 (9::u8)))"
    unfolding s f(4) ss m by simp_all
  obtain st' where st': "fsutil_append demo_lit 2001 4096 demo_arch = Some st'" "append_sector st' = append_sector demo_arch + 1 + length (sectors_of ?bs)"
    "\<And>x stack h a. scratch x = scratch st' \<and> extract_sector x = append_sector st' \<and> literals_ok demo_lit h (umem x) \<and> h \<noteq> 0 \<Longrightarrow>
        (extract_loop demo_lit stack h a x \<noteq> None \<longleftrightarrow> umem demo_arch (4096 + 512) = 0)"
    using fsutil_append_archive [OF n(1) c(1) n(2) c(2-4) f(1-3) refl c(5) m(3) c(6)] by blast
  have e: "append_sector st' = 2" unfolding st'(2) ss m by simp
  have "extract_loop demo_lit [] 4096 9000 (st'\<lparr>umem := demo_literals, extract_sector := 2\<rparr>) = None"
    using st'(3) [of "st'\<lparr>umem := demo_literals, extract_sector := 2\<rparr>" 4096 "[]" 9000] e b demo_literals_ok(1) by (simp add: m)
  then show ?thesis using st'(1) e by blast
qed
text \<open>\<^verbatim>\<open>fsutil_cat\<close> ends, and the pieces that it prints are the contents of the file.\<close>

theorem cat_loop_prints:
  assumes "file_ok s f" "pos f \<le> length (file_contents s f)"
  shows "\<exists>out f'. cat_loop s f = Some (out, f') \<and> concat (map snd out) = drop (pos f) (file_contents s f)"
  using assms
proof (induction "length (file_contents s f) - pos f" arbitrary: f rule: less_induct)
  case less
  let ?c = "file_contents s f"
  define n where "n = min PGSIZE (length ?c - pos f)"
  define f1 where "f1 = f\<lparr>pos := pos f + n\<rparr>"
  have rd: "file_read s f PGSIZE = Some (take PGSIZE (drop (pos f) ?c), f1)" by (simp add: file_read_eq [OF less.prems(1)] f1_def n_def)
  show ?case
  proof (cases "pos f = length ?c")
    case True
    then have "cat_loop s f = Some ([], f1)" using rd by (subst cat_loop.simps) simp
    then show ?thesis using True by simp
  next
    case False
    then have n: "0 < n" "take PGSIZE (drop (pos f) ?c) \<noteq> []" using less.prems(2) by (simp_all add: n_def PGSIZE_def)
    have ok: "file_ok s f1" "pos f1 \<le> length (file_contents s f1)" using less.prems by (simp_all add: f1_def n_def file_ok_def)
    have "length (file_contents s f1) - pos f1 < length ?c - pos f" using n(1) False less.prems(2) by (simp add: f1_def)
    from less.hyps [OF this ok] obtain out f' where o: "cat_loop s f1 = Some (out, f')" "concat (map snd out) = drop (pos f1) (file_contents s f1)" by blast
    have "cat_loop s f = Some ((pos f, take PGSIZE (drop (pos f) ?c)) # out, f')" using rd n(2) o(1) by (subst cat_loop.simps) (simp add: file_tell_def)
    moreover have "take PGSIZE (drop (pos f) ?c) = take n (drop (pos f) ?c)" by (simp add: n_def min_def)
    then have "take PGSIZE (drop (pos f) ?c) @ concat (map snd out) = drop (pos f) ?c"
      using append_take_drop_id [of n "drop (pos f) ?c"] unfolding o(2) by (simp add: f1_def add.commute)
    ultimately show ?thesis by (intro exI conjI) (assumption, simp)
  qed
qed

end
