(* ===== verification/Rc4.thy ===== *)
theory Rc4
  imports CString
begin

text \<open>
  The pseudo-random numbers of \<^verbatim>\<open>lib/random.c\<close>, a generator built on the stream cipher RC4. The state is the array \<^verbatim>\<open>s\<close> with its two indices, which wrap
  around at 256 like every \<^verbatim>\<open>uint8_t\<close>.

  The lemmas show that the array always is a permutation of the bytes, so that no access is out of bounds and no byte is lost, and that the bytes depend on the
  seed and on how many were taken only, not on how they were asked for.
\<close>

record rng =
  s_box :: "u8 list"
  s_i :: u8
  s_j :: u8
  inited :: bool

definition swap_byte :: "u8 \<Rightarrow> u8 \<Rightarrow> u8 list \<Rightarrow> u8 list" where
  "swap_byte a b s = s[unat a := s ! unat b, unat b := s ! unat a]"

definition mix_step :: "u32 \<Rightarrow> nat \<Rightarrow> u8 list \<times> u8 \<Rightarrow> u8 list \<times> u8" where
  "mix_step seed i = (\<lambda>(s, j). let j = j + (s ! i + u32_bytes seed ! (i mod 4)) in (swap_byte (of_nat i) j s, j))"

definition random_init :: "u32 \<Rightarrow> rng \<Rightarrow> rng" where
  "random_init seed r =
     (let (s, j) = fold (mix_step seed) [0..<256] (map of_nat [0..<256], 0)
      in r\<lparr>s_box := s, s_i := 0, s_j := 0, inited := True\<rparr>)"

definition next_byte :: "rng \<Rightarrow> u8 \<times> rng" where
  "next_byte r =
     (let i = s_i r + 1; j = s_j r + s_box r ! unat i; s = swap_byte i j (s_box r); k = s ! unat i + s ! unat j
      in (s ! unat k, r\<lparr>s_box := s, s_i := i, s_j := j\<rparr>))"

primrec bytes_loop :: "nat \<Rightarrow> nat \<Rightarrow> mem \<times> rng \<Rightarrow> mem \<times> rng" where
  "bytes_loop 0 buf st = st"
| "bytes_loop (Suc n) buf st = (let (c, r) = next_byte (snd st) in bytes_loop n (buf + 1) ((fst st)(buf := c), r))"

definition random_bytes :: "nat \<Rightarrow> nat \<Rightarrow> mem \<Rightarrow> rng \<Rightarrow> mem \<times> rng" where
  "random_bytes buf n m r = bytes_loop n buf (m, if inited r then r else random_init 0 r)"

text \<open>\<^verbatim>\<open>random_ulong\<close> fills a variable on its stack, at the address \<open>ul\<close>.\<close>

definition random_ulong :: "nat \<Rightarrow> mem \<Rightarrow> rng \<Rightarrow> u32 \<times> mem \<times> rng" where
  "random_ulong ul m r = (let (m, r) = random_bytes ul 4 m r in (bytes_u32 (m ul) (m (ul + 1)) (m (ul + 2)) (m (ul + 3)), m, r))"

subsection \<open>The array is a permutation\<close>

definition perm_box :: "u8 list \<Rightarrow> bool" where
  "perm_box s \<longleftrightarrow> mset s = mset (map of_nat [0..<256])"

definition rng_ok :: "rng \<Rightarrow> bool" where
  "rng_ok r \<longleftrightarrow> inited r \<longrightarrow> perm_box (s_box r)"

lemma perm_box_length: "perm_box s \<Longrightarrow> length s = 256"
  unfolding perm_box_def by (drule mset_eq_length) simp

lemma u8_less: "unat i < 256" for i :: u8
  using unsigned_less [of i, where ?'a = nat] by simp

lemma perm_box_swap:
  assumes "perm_box s"
  shows "perm_box (swap_byte a b s)"
proof -
  have "unat a < length s" "unat b < length s" using perm_box_length [OF assms] u8_less by simp_all
  then show ?thesis using assms by (simp add: perm_box_def swap_byte_def mset_swap)
qed

lemma perm_box_mix: "perm_box (fst st) \<Longrightarrow> perm_box (fst (fold (mix_step seed) xs st))"
  by (induction xs arbitrary: st) (auto simp: mix_step_def Let_def perm_box_swap split: prod.splits)

lemma random_init_ok: "perm_box (s_box (random_init seed r))" "inited (random_init seed r)"
  using perm_box_mix [of "(map of_nat [0..<256], 0)" seed "[0..<256]"] by (auto simp: random_init_def Let_def perm_box_def split: prod.splits)

lemma next_byte_ok: "perm_box (s_box r) \<Longrightarrow> perm_box (s_box (snd (next_byte r)))" "inited (snd (next_byte r)) = inited r"
  by (simp_all add: next_byte_def Let_def perm_box_swap)

lemma perm_box_all: "perm_box s \<Longrightarrow> set s = UNIV \<and> distinct s"
proof -
  assume p: "perm_box s"
  have inj: "inj_on (of_nat :: nat \<Rightarrow> u8) {0..<256}"
  proof (rule inj_onI)
    fix x y :: nat assume b: "x \<in> {0..<256}" "y \<in> {0..<256}" and "(of_nat x :: u8) = of_nat y"
    then have "unat (of_nat x :: u8) = unat (of_nat y :: u8)" by simp
    then show "x = y" using b by (simp add: unsigned_of_nat take_bit_eq_mod)
  qed
  have "distinct (map of_nat [0..<256] :: u8 list)" using inj by (simp add: distinct_map)
  moreover have "x \<in> set (map of_nat [0..<256])" for x :: u8 using u8_less [of x] by (auto intro!: image_eqI [of _ _ "unat x"])
  then have "set (map of_nat [0..<256] :: u8 list) = UNIV" by blast
  ultimately show ?thesis using p unfolding perm_box_def by (metis mset_eq_setD mset_eq_imp_distinct_iff)
qed
lemma bytes_loop_ok:
  assumes "perm_box (s_box r)" "inited r"
  shows "perm_box (s_box (snd (bytes_loop n buf (m, r)))) \<and> inited (snd (bytes_loop n buf (m, r)))
    \<and> (\<forall>x. x < buf \<or> buf + n \<le> x \<longrightarrow> fst (bytes_loop n buf (m, r)) x = m x)"
  using assms
proof (induction n arbitrary: buf m r)
  case (Suc n)
  obtain c r' where c: "next_byte r = (c, r')" by (cases "next_byte r")
  have "perm_box (s_box r')" "inited r'" using next_byte_ok [of r] c Suc.prems by simp_all
  note ih = Suc.IH [OF this, of "buf + 1"]
  define m1 where "m1 = m(buf := c)"
  have "m1 x = m x" if "x \<noteq> buf" for x using that by (simp add: m1_def)
  moreover have "bytes_loop (Suc n) buf (m, r) = bytes_loop n (buf + 1) (m1, r')" by (simp add: c m1_def)
  ultimately show ?case using ih [of m1] by auto
qed simp

lemma bytes_loop_add: "bytes_loop (n + k) buf st = bytes_loop k (buf + n) (bytes_loop n buf st)"
  by (induction n arbitrary: buf st) (simp_all split: prod.split)

text \<open>
  The generator keeps a permutation of all 256 bytes in its array, so that no two entries become equal; it writes the bytes that were asked for
  and nothing else, and taking bytes in two pieces gives the same bytes and the same state as taking them at once.
\<close>

theorem random_bytes_stream:
  assumes "rng_ok r" "random_bytes buf n m r = (m', r')"
  shows "rng_ok r' \<and> inited r' \<and> distinct (s_box r') \<and> set (s_box r') = UNIV \<and> (\<forall>x. x < buf \<or> buf + n \<le> x \<longrightarrow> m' x = m x)
    \<and> random_bytes (buf + n) k m' r' = random_bytes buf (n + k) m r"
proof -
  let ?r = "if inited r then r else random_init 0 r"
  have r: "perm_box (s_box ?r)" "inited ?r" using assms(1) random_init_ok [of 0 r] by (auto simp: rng_ok_def)
  have b: "bytes_loop n buf (m, ?r) = (m', r')" using assms(2) by (simp add: random_bytes_def)
  have ok: "perm_box (s_box r')" "inited r'" "\<forall>x. x < buf \<or> buf + n \<le> x \<longrightarrow> m' x = m x" using bytes_loop_ok [OF r, of n buf m] by (simp_all add: b)
  moreover have "random_bytes (buf + n) k m' r' = random_bytes buf (n + k) m r" using ok(2) by (simp add: random_bytes_def bytes_loop_add b)
  ultimately show ?thesis using perm_box_all by (simp add: rng_ok_def)
qed

end
