(* ===== verification/Shell.thy ===== *)
theory Shell
  imports Prelude
begin

text \<open>
  The shell of \<^verbatim>\<open>src/Project0\<close>: the job list of \<^verbatim>\<open>jobs.c\<close>, and of \<^verbatim>\<open>msh.c\<close> the commands that start jobs and move them between foreground and background, with the
  signal handler that notices the ends and stops of children. A job is an entry of an array of 16; a pointer to one is its index.

  The step relation interleaves the main loop with the handler. A step of the main loop is a stretch of code in which the handler cannot come, because \<^verbatim>\<open>SIGCHLD\<close> is
  blocked (from \<^verbatim>\<open>fork\<close> to \<^verbatim>\<open>addjob\<close>), or one that touches the jobs only once. The system is given by what \<^verbatim>\<open>fork\<close>, \<^verbatim>\<open>waitpid\<close> and \<^verbatim>\<open>kill\<close> document: a new
  process has a number that no child has that runs or has not been waited for; \<^verbatim>\<open>waitpid\<close> returns the last status of each child that has changed, in any order,
  and none for a child that has been continued; and \<^verbatim>\<open>SIGCHLD\<close> signals that come before the handler runs count once. Messages are left out. The numbers of jobs are integers without an upper bound.

  The lemmas show the invariant that \<^verbatim>\<open>jobs.h\<close> documents, that at most one job is in the foreground, and the states in which the shell crashes or waits forever.
\<close>

subsection \<open>The job list\<close>

datatype job_state = UNDEF | FG | BG | ST

record job_t =
  pid :: int
  jid :: int
  state :: job_state
  cmdline :: "u8 list"

record shell =
  jobs :: "job_t list"
  nextjid :: int

definition MAXJOBS :: nat where "MAXJOBS = 16"

definition clearjob :: "job_t \<Rightarrow> job_t" where
  "clearjob j = j\<lparr>pid := 0, jid := 0, state := UNDEF, cmdline := []\<rparr>"

definition initjobs :: "shell \<Rightarrow> shell" where
  "initjobs s = s\<lparr>jobs := map clearjob (jobs s)\<rparr>"

definition maxjid :: "job_t list \<Rightarrow> int" where
  "maxjid js = fold (\<lambda>j mx. if jid j > mx then jid j else mx) js 0"

definition addjob :: "int \<Rightarrow> job_state \<Rightarrow> u8 list \<Rightarrow> shell \<Rightarrow> bool \<times> shell" where
  "addjob p st cmd s =
     (if p < 1 then (False, s)
      else case find (\<lambda>i. pid (jobs s ! i) = 0) [0..<MAXJOBS] of
        None \<Rightarrow> (False, s)
      | Some i \<Rightarrow>
          (True, s\<lparr>jobs := (jobs s)[i := (jobs s ! i)\<lparr>pid := p, state := st, jid := nextjid s, cmdline := cmd\<rparr>],
             nextjid := (if nextjid s + 1 > int MAXJOBS then 1 else nextjid s + 1)\<rparr>))"

definition deletejob :: "int \<Rightarrow> shell \<Rightarrow> bool \<times> shell" where
  "deletejob p s =
     (if p < 1 then (False, s)
      else case find (\<lambda>i. pid (jobs s ! i) = p) [0..<MAXJOBS] of
        None \<Rightarrow> (False, s)
      | Some i \<Rightarrow>
          let js = (jobs s)[i := clearjob (jobs s ! i)] in (True, s\<lparr>jobs := js, nextjid := maxjid js + 1\<rparr>))"

definition fgpid :: "shell \<Rightarrow> int" where
  "fgpid s = (case find (\<lambda>i. state (jobs s ! i) = FG) [0..<MAXJOBS] of None \<Rightarrow> 0 | Some i \<Rightarrow> pid (jobs s ! i))"

definition getjobpid :: "int \<Rightarrow> shell \<Rightarrow> nat option" where
  "getjobpid p s = (if p < 1 then None else find (\<lambda>i. pid (jobs s ! i) = p) [0..<MAXJOBS])"

definition getjobjid :: "int \<Rightarrow> shell \<Rightarrow> nat option" where
  "getjobjid n s = (if n < 1 then None else find (\<lambda>i. jid (jobs s ! i) = n) [0..<MAXJOBS])"

definition pid2jid :: "int \<Rightarrow> shell \<Rightarrow> int" where
  "pid2jid p s = (if p < 1 then 0 else case find (\<lambda>i. pid (jobs s ! i) = p) [0..<MAXJOBS] of None \<Rightarrow> 0 | Some i \<Rightarrow> jid (jobs s ! i))"

definition set_state :: "nat \<Rightarrow> job_state \<Rightarrow> shell \<Rightarrow> shell" where
  "set_state i st s = s\<lparr>jobs := (jobs s)[i := (jobs s ! i)\<lparr>state := st\<rparr>]\<rparr>"

subsection \<open>Children\<close>

datatype child_status = Signaled | Stopped | Exited

text \<open>
  The handler takes the statuses that \<^verbatim>\<open>waitpid\<close> returns, and leaves those that it does not come to. \<^const>\<open>None\<close> is the access through the null pointer
  \<^verbatim>\<open>childJob\<close>.
\<close>

fun sigchld_handler :: "(int \<times> child_status) list \<Rightarrow> shell \<Rightarrow> ((int \<times> child_status) list \<times> shell) option" where
  "sigchld_handler [] s = Some ([], s)"
| "sigchld_handler ((p, status) # rest) s =
     (case getjobpid p s of
        None \<Rightarrow> None
      | Some i \<Rightarrow>
          if status = Stopped then Some (rest, set_state i ST s)
          else sigchld_handler rest (snd (deletejob p s)))"

text \<open>
  Where the main loop is: at the prompt, in \<^verbatim>\<open>do_bgfg\<close> with the pointer \<^verbatim>\<open>currentJob\<close> (before the first statement that changes the job or signals it, and after it),
  in the loop of \<^verbatim>\<open>waitfg\<close>; or the shell has ended.
\<close>

datatype place = Prompt | Bg_kill nat | Bg_set nat | Fg_set nat | Fg_kill nat | Waiting int | Crashed | Ended

record msh =
  shell :: shell
  place :: place
  live :: "int set"
  pending :: "(int \<times> child_status) list"
  sigchld :: bool

definition children :: "msh \<Rightarrow> int set" where
  "children s = live s \<union> fst ` set (pending s)"

text \<open>The end of \<^verbatim>\<open>eval\<close> in the parent: \<open>bg\<close> is the value that \<^verbatim>\<open>parseline\<close> returned.\<close>

definition eval_fork :: "int \<Rightarrow> bool \<Rightarrow> u8 list \<Rightarrow> msh \<Rightarrow> msh" where
  "eval_fork p bg cmd s =
     s\<lparr>shell := snd (addjob p (if bg then BG else FG) cmd (shell s)), live := insert p (live s), place := (if bg then Prompt else Waiting p)\<rparr>"

text \<open>\<^verbatim>\<open>do_bgfg\<close> up to the pointer to the job: \<open>Inl\<close> is a process number, \<open>Inr\<close> the number of a job.\<close>

definition bgfg_job :: "int + int \<Rightarrow> shell \<Rightarrow> nat option" where
  "bgfg_job arg s = (case arg of Inl p \<Rightarrow> getjobpid p s | Inr n \<Rightarrow> getjobjid n s)"

definition do_bgfg :: "bool \<Rightarrow> int + int \<Rightarrow> msh \<Rightarrow> msh" where
  "do_bgfg fg arg s =
     (case bgfg_job arg (shell s) of None \<Rightarrow> s | Some i \<Rightarrow> s\<lparr>place := (if fg then Fg_set i else Bg_kill i)\<rparr>)"

text \<open>The rest of \<^verbatim>\<open>do_bgfg\<close>; \<open>ok\<close> says whether \<^verbatim>\<open>kill\<close> succeeds.\<close>

definition bgfg_step :: "bool \<Rightarrow> msh \<Rightarrow> msh" where
  "bgfg_step ok s =
     (case place s of
        Bg_kill i \<Rightarrow> s\<lparr>place := (if ok then Bg_set i else Ended)\<rparr>
      | Bg_set i \<Rightarrow> s\<lparr>shell := set_state i BG (shell s), place := Prompt\<rparr>
      | Fg_set i \<Rightarrow> s\<lparr>shell := set_state i FG (shell s), place := Fg_kill i\<rparr>
      | Fg_kill i \<Rightarrow> s\<lparr>place := (if ok then Waiting (pid (jobs (shell s) ! i)) else Ended)\<rparr>
      | _ \<Rightarrow> s)"

definition waitfg_test :: "msh \<Rightarrow> msh" where
  "waitfg_test s = (case place s of Waiting p \<Rightarrow> if p = fgpid (shell s) then s else s\<lparr>place := Prompt\<rparr> | _ \<Rightarrow> s)"

definition handle_sigchld :: "msh \<Rightarrow> msh" where
  "handle_sigchld s =
     (case sigchld_handler (pending s) (shell s) of
        None \<Rightarrow> s\<lparr>place := Crashed\<rparr>
      | Some (rest, sh) \<Rightarrow> s\<lparr>shell := sh, pending := rest, sigchld := False\<rparr>)"

text \<open>\<^verbatim>\<open>sigint_handler\<close> and \<^verbatim>\<open>sigtstp_handler\<close> pass their signal on to a process group, if there is a foreground job.\<close>

definition forward_signal :: "shell \<Rightarrow> int option" where
  "forward_signal s = (let p = fgpid s in if p \<noteq> 0 then Some p else None)"

text \<open>
  What the system does: a child stops or ends, and \<^verbatim>\<open>SIGCHLD\<close> is sent; a child that is continued has no stop to report. Only the last status of a child is kept.
\<close>

definition child_changes :: "int \<Rightarrow> child_status \<Rightarrow> msh \<Rightarrow> msh" where
  "child_changes p st s =
     s\<lparr>pending := filter (\<lambda>r. fst r \<noteq> p) (pending s) @ [(p, st)], sigchld := True, live := (if st = Stopped then live s else live s - {p})\<rparr>"

definition child_continues :: "int \<Rightarrow> msh \<Rightarrow> msh" where
  "child_continues p s = s\<lparr>pending := filter (\<lambda>r. fst r \<noteq> p) (pending s)\<rparr>"

inductive step :: "msh \<Rightarrow> msh \<Rightarrow> bool" where
  eval: "place s = Prompt \<Longrightarrow> 1 \<le> p \<Longrightarrow> p \<notin> children s \<Longrightarrow> step s (eval_fork p bg cmd s)"
| bgfg: "place s = Prompt \<Longrightarrow> step s (do_bgfg fg arg s)"
| bgfg_on: "place s \<in> range Bg_kill \<union> range Bg_set \<union> range Fg_set \<union> range Fg_kill \<Longrightarrow> step s (bgfg_step ok s)"
| waitfg: "place s = Waiting p \<Longrightarrow> step s (waitfg_test s)"
| handler: "sigchld s \<Longrightarrow> place s \<notin> {Crashed, Ended} \<Longrightarrow> step s (handle_sigchld s)"
| child: "p \<in> live s \<Longrightarrow> place s \<notin> {Crashed, Ended} \<Longrightarrow> step s (child_changes p st s)"
| continued: "p \<in> live s \<Longrightarrow> place s \<notin> {Crashed, Ended} \<Longrightarrow> step s (child_continues p s)"
| order: "mset ps = mset (pending s) \<Longrightarrow> place s \<notin> {Crashed, Ended} \<Longrightarrow> step s (s\<lparr>pending := ps\<rparr>)"
| quit: "place s = Prompt \<Longrightarrow> step s (s\<lparr>place := Ended\<rparr>)"

definition started :: "msh \<Rightarrow> bool" where
  "started s \<longleftrightarrow> (\<exists>j. length j = MAXJOBS \<and> shell s = initjobs \<lparr>jobs = j, nextjid = 1\<rparr>) \<and> place s = Prompt \<and> live s = {} \<and> pending s = [] \<and> \<not> sigchld s"

inductive reachable :: "msh \<Rightarrow> bool" where
  start: "started s \<Longrightarrow> reachable s"
| next_step: "reachable s \<Longrightarrow> step s t \<Longrightarrow> reachable t"
inductive_cases step_cases: "step s t"

subsection \<open>The invariant\<close>

definition table_ok :: "int set \<Rightarrow> shell \<Rightarrow> bool" where
  "table_ok C s \<longleftrightarrow> length (jobs s) = MAXJOBS \<and> (\<forall>i<MAXJOBS. 0 \<le> pid (jobs s ! i) \<and> (pid (jobs s ! i) \<noteq> 0 \<longrightarrow> pid (jobs s ! i) \<in> C))
     \<and> (\<forall>i<MAXJOBS. \<forall>j<MAXJOBS. pid (jobs s ! i) = pid (jobs s ! j) \<and> pid (jobs s ! i) \<noteq> 0 \<longrightarrow> i = j)"

definition fg_slots :: "shell \<Rightarrow> nat set" where
  "fg_slots s = {i. i < MAXJOBS \<and> state (jobs s ! i) = FG}"

definition one_fg :: "shell \<Rightarrow> bool" where
  "one_fg s \<longleftrightarrow> (\<exists>i. fg_slots s \<subseteq> {i})"

text \<open>Where the foreground job can be, by what the main loop does.\<close>

fun fg_ok :: "place \<Rightarrow> shell \<Rightarrow> bool" where
  "fg_ok (Waiting p) s \<longleftrightarrow> one_fg s \<and> (\<forall>i\<in>fg_slots s. pid (jobs s ! i) = p)"
| "fg_ok (Fg_kill i) s \<longleftrightarrow> i < MAXJOBS \<and> fg_slots s \<subseteq> {i}"
| "fg_ok (Fg_set i) s \<longleftrightarrow> i < MAXJOBS \<and> fg_slots s = {}"
| "fg_ok (Bg_kill i) s \<longleftrightarrow> i < MAXJOBS \<and> fg_slots s = {}"
| "fg_ok (Bg_set i) s \<longleftrightarrow> i < MAXJOBS \<and> fg_slots s = {}"
| "fg_ok Prompt s \<longleftrightarrow> fg_slots s = {}"
| "fg_ok Crashed s \<longleftrightarrow> one_fg s"
| "fg_ok Ended s \<longleftrightarrow> one_fg s"

text \<open>A child has one report, and it is a stop if the child has not ended.\<close>

definition reports_ok :: "int set \<Rightarrow> (int \<times> child_status) list \<Rightarrow> bool" where
  "reports_ok L ps \<longleftrightarrow> distinct (map fst ps) \<and> (\<forall>r\<in>set ps. snd r = Stopped \<longleftrightarrow> fst r \<in> L)"

lemma reports_ok_simps [simp]:
  "reports_ok L []"
  "reports_ok L ((p, st) # rest) \<longleftrightarrow> p \<notin> fst ` set rest \<and> (st = Stopped \<longleftrightarrow> p \<in> L) \<and> reports_ok L rest"
  by (auto simp: reports_ok_def)

definition msh_ok :: "msh \<Rightarrow> bool" where
  "msh_ok s \<longleftrightarrow> table_ok (children s) (shell s) \<and> fg_ok (place s) (shell s) \<and> reports_ok (live s) (pending s) \<and> (\<forall>p\<in>children s. 1 \<le> p)"

lemma table_ok_mono: "table_ok C s \<Longrightarrow> C \<subseteq> D \<Longrightarrow> table_ok D s"
  by (auto simp: table_ok_def)

lemma fg_ok_one: "fg_ok pl s \<Longrightarrow> one_fg s"
  by (cases pl) (auto simp: one_fg_def)

lemma find_index: "find P [0..<n] = Some i \<Longrightarrow> i < n \<and> P i"
  by (auto simp: find_Some_iff)

lemma find_no_index: "find P [0..<n] = None \<Longrightarrow> i < n \<Longrightarrow> \<not> P i"
  by (auto simp: find_None_iff)

lemma fg_slots_update:
  assumes "length (jobs s) = MAXJOBS" "i < MAXJOBS"
  shows "fg_slots (s\<lparr>jobs := (jobs s)[i := j], nextjid := n\<rparr>) = (if state j = FG then insert i (fg_slots s) else fg_slots s - {i})"
    "fg_slots (s\<lparr>jobs := (jobs s)[i := j]\<rparr>) = (if state j = FG then insert i (fg_slots s) else fg_slots s - {i})"
  using assms by (auto simp: fg_slots_def nth_list_update)

lemma table_ok_length: "table_ok C s \<Longrightarrow> length (jobs s) = MAXJOBS"
  by (simp add: table_ok_def)

lemma pid_set_state: "table_ok C s \<Longrightarrow> i < MAXJOBS \<Longrightarrow> pid (jobs (set_state i st s) ! j) = pid (jobs s ! j)"
  by (cases "i = j") (simp_all add: table_ok_length set_state_def)

lemma table_ok_set_state: "table_ok C s \<Longrightarrow> i < MAXJOBS \<Longrightarrow> table_ok C (set_state i st s)"
  unfolding table_ok_def [of C "set_state i st s"] by (simp only: pid_set_state) (simp add: table_ok_def set_state_def)

lemma fg_slots_set_state:
  "table_ok C s \<Longrightarrow> i < MAXJOBS \<Longrightarrow> fg_slots (set_state i st s) = (if st = FG then insert i (fg_slots s) else fg_slots s - {i})"
  by (simp add: table_ok_length set_state_def fg_slots_update)

text \<open>A table in which the entry \<open>i\<close> has another process number.\<close>

lemma table_ok_update:
  assumes "table_ok C s" "i < MAXJOBS" "\<And>k. k \<noteq> i \<Longrightarrow> pid (jobs t ! k) = pid (jobs s ! k)" "length (jobs t) = MAXJOBS" "pid (jobs t ! i) = p" "0 \<le> p"
    "\<And>k. k < MAXJOBS \<Longrightarrow> k \<noteq> i \<Longrightarrow> pid (jobs s ! k) \<noteq> 0 \<Longrightarrow> pid (jobs s ! k) \<noteq> p \<and> pid (jobs s ! k) \<in> D" "p = 0 \<or> p \<in> D"
  shows "table_ok D t"
  unfolding table_ok_def
proof (intro conjI allI impI)
  have t: "pid (jobs t ! k) = (if k = i then p else pid (jobs s ! k))" for k using assms(3,5) by simp
  show "length (jobs t) = MAXJOBS" by (rule assms(4))
  show "0 \<le> pid (jobs t ! k)" if "k < MAXJOBS" for k using assms(1,6) that unfolding t by (simp add: table_ok_def)
  show "pid (jobs t ! k) \<in> D" if "k < MAXJOBS" "pid (jobs t ! k) \<noteq> 0" for k using assms(7) [OF that(1)] assms(8) that(2) unfolding t by (auto split: if_splits)
  show "k = l" if "k < MAXJOBS" "l < MAXJOBS" "pid (jobs t ! k) = pid (jobs t ! l) \<and> pid (jobs t ! k) \<noteq> 0" for k l
    using assms(1) assms(7) [OF that(1)] assms(7) [OF that(2)] that unfolding t by (auto simp: table_ok_def split: if_splits)
qed

lemma addjob_ok:
  assumes "table_ok C s" "1 \<le> p" "p \<notin> C"
  shows "table_ok (insert p C) (snd (addjob p st cmd s))"
    "fg_slots s = {} \<Longrightarrow> fg_slots (snd (addjob p st cmd s)) = {} \<or> st = FG \<and> (\<exists>i. fg_slots (snd (addjob p st cmd s)) = {i} \<and> pid (jobs (snd (addjob p st cmd s)) ! i) = p)"
proof -
  let ?t = "snd (addjob p st cmd s)"
  have "table_ok (insert p C) ?t \<and> (fg_slots s = {} \<longrightarrow> fg_slots ?t = {} \<or> st = FG \<and> (\<exists>i. fg_slots ?t = {i} \<and> pid (jobs ?t ! i) = p))"
  proof (cases "find (\<lambda>i. pid (jobs s ! i) = 0) [0..<MAXJOBS]")
    case None
    then show ?thesis using assms by (auto simp: addjob_def table_ok_def)
  next
    case (Some i)
    note i = find_index [OF Some]
    let ?j = "(jobs s ! i)\<lparr>pid := p, state := st, jid := nextjid s, cmdline := cmd\<rparr>"
    have t: "?t = s\<lparr>jobs := (jobs s)[i := ?j], nextjid := (if nextjid s + 1 > int MAXJOBS then 1 else nextjid s + 1)\<rparr>"
      using Some assms(2) by (simp add: addjob_def)
    have l: "length (jobs s) = MAXJOBS" using assms(1) by (simp add: table_ok_def)
    have old: "pid (jobs s ! k) \<noteq> p" if "k < MAXJOBS" for k using assms that by (auto simp: table_ok_def)
    have "pid (jobs s ! k) \<in> C" if "k < MAXJOBS" "pid (jobs s ! k) \<noteq> 0" for k using assms(1) that by (simp add: table_ok_def)
    then have "table_ok (insert p C) ?t" by (intro table_ok_update [OF assms(1), of i ?t p]) (use assms(2) i l old in \<open>simp_all add: t\<close>)
    moreover have "fg_slots ?t = (if st = FG then insert i (fg_slots s) else fg_slots s - {i})" unfolding t using i l by (simp add: fg_slots_update)
    moreover have "pid (jobs ?t ! i) = p" unfolding t using i l by simp
    ultimately show ?thesis by auto
  qed
  then show "table_ok (insert p C) ?t"
    "fg_slots s = {} \<Longrightarrow> fg_slots ?t = {} \<or> st = FG \<and> (\<exists>i. fg_slots ?t = {i} \<and> pid (jobs ?t ! i) = p)" by simp_all
qed

lemma deletejob_eq:
  assumes "getjobpid p s = Some i"
  shows "i < MAXJOBS" "pid (jobs s ! i) = p" "1 \<le> p"
    "deletejob p s = (True, s\<lparr>jobs := (jobs s)[i := clearjob (jobs s ! i)], nextjid := maxjid ((jobs s)[i := clearjob (jobs s ! i)]) + 1\<rparr>)"
  using assms by (auto simp: getjobpid_def deletejob_def Let_def split: if_splits dest: find_index)

lemma deletejob_ok:
  assumes "table_ok (insert p C) s" "getjobpid p s = Some i"
  shows "table_ok C (snd (deletejob p s))" "fg_slots (snd (deletejob p s)) = fg_slots s - {i}"
    "\<And>j. j \<noteq> i \<Longrightarrow> pid (jobs (snd (deletejob p s)) ! j) = pid (jobs s ! j)"
proof -
  note d = deletejob_eq [OF assms(2)]
  have l: "length (jobs s) = MAXJOBS" using assms(1) by (simp add: table_ok_def)
  have "pid (jobs s ! j) \<noteq> p" if "j < MAXJOBS" "j \<noteq> i" for j using assms(1) d(1-3) that by (force simp: table_ok_def)
  moreover have "pid (jobs s ! j) \<in> insert p C" if "j < MAXJOBS" "pid (jobs s ! j) \<noteq> 0" for j using assms(1) that by (simp add: table_ok_def)
  ultimately show "table_ok C (snd (deletejob p s))"
    by (intro table_ok_update [OF assms(1), of i _ 0]) (use d(1) l in \<open>auto simp: d(4) clearjob_def\<close>)
  show "fg_slots (snd (deletejob p s)) = fg_slots s - {i}" unfolding d(4) using d(1) l by (simp add: fg_slots_update clearjob_def)
  show "pid (jobs (snd (deletejob p s)) ! j) = pid (jobs s ! j)" if "j \<noteq> i" for j unfolding d(4) using that by simp
qed

text \<open>The handler takes foreground jobs away and makes none.\<close>

definition fewer_fg :: "shell \<Rightarrow> shell \<Rightarrow> bool" where
  "fewer_fg s t \<longleftrightarrow> fg_slots t \<subseteq> fg_slots s \<and> (\<forall>i\<in>fg_slots t. pid (jobs t ! i) = pid (jobs s ! i))"

lemma fewer_fg_trans: "fewer_fg s t \<Longrightarrow> fewer_fg t u \<Longrightarrow> fewer_fg s u"
  by (auto simp: fewer_fg_def)

lemma one_fg_fewer: "one_fg s \<Longrightarrow> fewer_fg s t \<Longrightarrow> one_fg t"
  unfolding one_fg_def fewer_fg_def by (meson subset_trans)

lemma fg_ok_fewer: "fg_ok pl s \<Longrightarrow> fewer_fg s t \<Longrightarrow> fg_ok pl t"
  by (cases pl) (auto dest: one_fg_fewer simp: fewer_fg_def)

lemma sigchld_handler_ok:
  assumes "sigchld_handler ps s = Some (rest, t)" "table_ok (L \<union> fst ` set ps) s" "reports_ok L ps"
  shows "table_ok (L \<union> fst ` set rest) t \<and> fewer_fg s t \<and> reports_ok L rest"
  using assms
proof (induction ps s rule: sigchld_handler.induct)
  case (2 p status ps s)
  from "2.prems"(1) obtain i where i: "getjobpid p s = Some i" by (auto split: option.splits)
  note d = deletejob_eq [OF i]
  show ?case
  proof (cases "status = Stopped")
    case True
    then have "rest = ps" "t = set_state i ST s" using "2.prems"(1) i by simp_all
    moreover have "table_ok (L \<union> fst ` set ps) s" using "2.prems"(2,3) True by (auto simp: insert_absorb)
    ultimately show ?thesis using "2.prems"(3) d(1) by (auto simp: table_ok_set_state fewer_fg_def fg_slots_set_state pid_set_state)
  next
    case False
    have "table_ok (insert p (L \<union> fst ` set ps)) s" using "2.prems"(2) by simp
    note del = deletejob_ok [OF this i]
    have "fewer_fg s (snd (deletejob p s))" using del(2,3) by (auto simp: fewer_fg_def)
    then show ?thesis using "2.IH" [OF i False _ del(1)] "2.prems"(1,3) i False fewer_fg_trans by auto
  qed
qed (auto simp: fewer_fg_def)
lemma reports_ok_fork: "reports_ok L ps \<Longrightarrow> p \<notin> fst ` set ps \<Longrightarrow> reports_ok (insert p L) ps"
  by (induction ps) auto

lemma reports_ok_drop: "reports_ok L ps \<Longrightarrow> reports_ok L (filter P ps)"
  by (auto simp: reports_ok_def distinct_map_filter)

lemma reports_ok_append: "reports_ok L ps \<Longrightarrow> p \<in> L \<Longrightarrow> reports_ok (if st = Stopped then L else L - {p}) (filter (\<lambda>r. fst r \<noteq> p) ps @ [(p, st)])"
  by (auto simp: reports_ok_def distinct_map_filter)

lemma reports_ok_order: "mset ps = mset qs \<Longrightarrow> reports_ok L qs \<Longrightarrow> reports_ok L ps"
  unfolding reports_ok_def by (metis mset_eq_imp_distinct_iff mset_map set_mset_mset)

lemma fgpid_cases:
  assumes "\<forall>i\<in>fg_slots s. pid (jobs s ! i) = p"
  shows "fgpid s = (if fg_slots s = {} then 0 else p)"
proof (cases "find (\<lambda>i. state (jobs s ! i) = FG) [0..<MAXJOBS]")
  case None
  then show ?thesis using find_no_index [OF None] by (auto simp: fgpid_def fg_slots_def)
next
  case (Some i)
  then have "i \<in> fg_slots s" using find_index [OF Some] by (simp add: fg_slots_def)
  then show ?thesis using Some assms by (auto simp: fgpid_def)
qed

lemma getjob_less: "bgfg_job arg s = Some i \<Longrightarrow> i < MAXJOBS"
  by (auto simp: bgfg_job_def getjobpid_def getjobjid_def split: sum.splits if_splits dest: find_index)

lemma eval_fork_ok:
  assumes "msh_ok s" "place s = Prompt" "1 \<le> p" "p \<notin> children s"
  shows "msh_ok (eval_fork p bg cmd s)"
proof -
  have t: "table_ok (children s) (shell s)" and f: "fg_slots (shell s) = {}" using assms(1,2) by (simp_all add: msh_ok_def)
  have "children (eval_fork p bg cmd s) = insert p (children s)" by (simp add: children_def eval_fork_def)
  moreover have "reports_ok (insert p (live s)) (pending s)" using assms(1,4) by (intro reports_ok_fork) (simp_all add: msh_ok_def children_def)
  moreover have "fg_ok (if bg then Prompt else Waiting p) (snd (addjob p (if bg then BG else FG) cmd (shell s)))"
    using addjob_ok(2) [OF t assms(3,4) f, of "if bg then BG else FG" cmd] by (auto simp: one_fg_def)
  ultimately show ?thesis using addjob_ok(1) [OF t assms(3,4)] assms(1,3) by (simp add: msh_ok_def eval_fork_def)
qed

lemma bgfg_step_ok:
  assumes "msh_ok s"
  shows "msh_ok (bgfg_step ok s)"
proof -
  have t: "table_ok (children s) (shell s)" and f: "fg_ok (place s) (shell s)" and r: "reports_ok (live s) (pending s)" using assms by (simp_all add: msh_ok_def)
  have c: "children (bgfg_step ok s) = children s" "live (bgfg_step ok s) = live s" "pending (bgfg_step ok s) = pending s"
    by (simp_all add: bgfg_step_def children_def split: place.splits)
  have "table_ok (children s) (shell (bgfg_step ok s))" using t f by (auto simp: bgfg_step_def table_ok_set_state split: place.splits)
  moreover have "fg_ok (place (bgfg_step ok s)) (shell (bgfg_step ok s))"
    using t f by (cases "place s") (auto simp: bgfg_step_def fg_slots_set_state one_fg_def)
  ultimately show ?thesis using r assms by (simp add: msh_ok_def c)
qed

lemma sigchld_handler_rest: "sigchld_handler ps s = Some (rest, t) \<Longrightarrow> set rest \<subseteq> set ps"
  by (induction ps s rule: sigchld_handler.induct) (auto split: option.splits if_splits)

lemma handle_sigchld_ok:
  assumes "msh_ok s"
  shows "msh_ok (handle_sigchld s)"
proof (cases "sigchld_handler (pending s) (shell s)")
  case None
  then show ?thesis using assms by (auto simp: handle_sigchld_def msh_ok_def children_def dest: fg_ok_one)
next
  case (Some r)
  obtain rest t where r: "r = (rest, t)" by (cases r)
  have "table_ok (live s \<union> fst ` set (pending s)) (shell s)" "reports_ok (live s) (pending s)" using assms by (simp_all add: msh_ok_def children_def)
  from sigchld_handler_ok [OF Some [unfolded r] this] have "table_ok (live s \<union> fst ` set rest) t \<and> fewer_fg (shell s) t \<and> reports_ok (live s) rest" .
  moreover have "fst ` set rest \<subseteq> fst ` set (pending s)" using sigchld_handler_rest [OF Some [unfolded r]] by blast
  ultimately show ?thesis using assms Some by (auto simp: r handle_sigchld_def msh_ok_def children_def dest: fg_ok_fewer)
qed

lemma child_changes_ok:
  assumes "msh_ok s" "p \<in> live s"
  shows "msh_ok (child_changes p st s)"
proof -
  have "children (child_changes p st s) = children s" using assms(2) by (auto simp: children_def child_changes_def)
  then show ?thesis using assms reports_ok_append [of "live s" "pending s" p st] by (simp add: msh_ok_def child_changes_def)
qed

lemma child_continues_ok:
  assumes "msh_ok s" "p \<in> live s"
  shows "msh_ok (child_continues p s)"
proof -
  have "children (child_continues p s) = children s" using assms(2) by (auto simp: children_def child_continues_def)
  then show ?thesis using assms reports_ok_drop by (simp add: msh_ok_def child_continues_def)
qed

lemma order_ok:
  assumes "msh_ok s" "mset ps = mset (pending s)"
  shows "msh_ok (s\<lparr>pending := ps\<rparr>)"
  using assms reports_ok_order [OF assms(2)] mset_eq_setD [OF assms(2)] by (simp add: msh_ok_def children_def)

lemma waitfg_test_ok:
  assumes "msh_ok s" "place s = Waiting p"
  shows "msh_ok (waitfg_test s)"
proof -
  have f: "\<forall>i\<in>fg_slots (shell s). pid (jobs (shell s) ! i) = p" using assms by (simp add: msh_ok_def)
  then have "fg_slots (shell s) = {}" if "p \<noteq> fgpid (shell s)" using fgpid_cases [OF f] that by (auto split: if_splits)
  then show ?thesis using assms by (auto simp: msh_ok_def waitfg_test_def children_def)
qed

lemma step_ok: "step s t \<Longrightarrow> msh_ok s \<Longrightarrow> msh_ok t"
proof (induction rule: step.induct)
  case (bgfg s fg arg)
  then show ?case using getjob_less [of arg "shell s"] by (auto simp: msh_ok_def do_bgfg_def children_def split: option.splits)
qed (simp_all add: eval_fork_ok bgfg_step_ok waitfg_test_ok handle_sigchld_ok child_changes_ok child_continues_ok order_ok, auto simp: msh_ok_def children_def one_fg_def)

lemma started_ok: "started s \<Longrightarrow> msh_ok s"
  by (auto simp: started_def msh_ok_def table_ok_def initjobs_def clearjob_def fg_slots_def children_def)

lemma reachable_ok: "reachable s \<Longrightarrow> msh_ok s"
  by (induction rule: reachable.induct) (simp_all add: started_ok step_ok)
subsection \<open>Children in the table\<close>

definition has_job :: "shell \<Rightarrow> int \<Rightarrow> bool" where
  "has_job s p \<longleftrightarrow> (\<exists>i<MAXJOBS. pid (jobs s ! i) = p)"

definition tracked :: "msh \<Rightarrow> bool" where
  "tracked s \<longleftrightarrow> (\<forall>p\<in>children s. has_job (shell s) p)"

lemma getjobpid_has_job: "1 \<le> p \<Longrightarrow> (\<exists>i. getjobpid p s = Some i) \<longleftrightarrow> has_job s p"
  unfolding getjobpid_def has_job_def
  by (cases "find (\<lambda>i. pid (jobs s ! i) = p) [0..<MAXJOBS]") (auto dest: find_index find_no_index)

lemma sigchld_handler_tracked:
  assumes "table_ok (L \<union> fst ` set ps) s" "reports_ok L ps" "\<forall>p\<in>L \<union> fst ` set ps. 1 \<le> p \<and> has_job s p"
  shows "\<exists>rest t. sigchld_handler ps s = Some (rest, t) \<and> (\<forall>p\<in>L \<union> fst ` set rest. has_job t p)"
  using assms
proof (induction ps s rule: sigchld_handler.induct)
  case (2 p status ps s)
  have "1 \<le> p" "has_job s p" using "2.prems"(3) by simp_all
  then obtain i where i: "getjobpid p s = Some i" using getjobpid_has_job by blast
  note d = deletejob_eq [OF i]
  show ?case
  proof (cases "status = Stopped")
    case True
    have "has_job (set_state i ST s) q = has_job s q" for q using pid_set_state [OF "2.prems"(1) d(1)] by (simp add: has_job_def)
    then show ?thesis using True i "2.prems"(3) by simp
  next
    case False
    then have new: "p \<notin> L \<union> fst ` set ps" "reports_ok L ps" using "2.prems"(2) by auto
    have "table_ok (insert p (L \<union> fst ` set ps)) s" using "2.prems"(1) by simp
    note del = deletejob_ok [OF this i]
    have "has_job (snd (deletejob p s)) q" if q: "q \<in> L \<union> fst ` set ps" for q
    proof -
      obtain j where j: "j < MAXJOBS" "pid (jobs s ! j) = q" using "2.prems"(3) q by (auto simp: has_job_def)
      then have "j \<noteq> i" using new(1) q d(2) by auto
      then show ?thesis using j del(3) by (auto simp: has_job_def)
    qed
    then show ?thesis using "2.IH" [OF i False del(1) new(2)] "2.prems"(3) i False by auto
  qed
qed simp

lemma addjob_free:
  assumes "length (jobs s) = MAXJOBS" "1 \<le> p" "has_job s 0"
  obtains i where "i < MAXJOBS" "pid (jobs s ! i) = 0" "pid (jobs (snd (addjob p st cmd s)) ! i) = p" "\<And>j. j \<noteq> i \<Longrightarrow> jobs (snd (addjob p st cmd s)) ! j = jobs s ! j"
proof (cases "find (\<lambda>i. pid (jobs s ! i) = 0) [0..<MAXJOBS]")
  case None
  then show thesis using assms(3) find_no_index [OF None] by (auto simp: has_job_def)
next
  case (Some i)
  show thesis by (rule that [of i]) (use find_index [OF Some] Some assms(1,2) in \<open>simp_all add: addjob_def\<close>)
qed

lemma eval_fork_tracked:
  assumes "msh_ok s" "tracked s" "1 \<le> p" "has_job (shell s) 0"
  shows "tracked (eval_fork p bg cmd s)"
proof -
  let ?t = "snd (addjob p (if bg then BG else FG) cmd (shell s))"
  have l: "length (jobs (shell s)) = MAXJOBS" using assms(1) table_ok_length by (auto simp: msh_ok_def)
  obtain i where i: "i < MAXJOBS" "pid (jobs (shell s) ! i) = 0" "pid (jobs ?t ! i) = p" "\<And>j. j \<noteq> i \<Longrightarrow> jobs ?t ! j = jobs (shell s) ! j"
    using addjob_free [OF l assms(3,4), of "if bg then BG else FG" cmd] by blast
  have "has_job ?t q" if q: "q \<in> children s" for q
  proof -
    obtain j where j: "j < MAXJOBS" "pid (jobs (shell s) ! j) = q" using assms(2) q by (auto simp: tracked_def has_job_def)
    have "1 \<le> q" using assms(1) q by (simp add: msh_ok_def)
    then have "j \<noteq> i" using i(2) j(2) by auto
    then show ?thesis using i(4) j by (auto simp: has_job_def)
  qed
  moreover have "has_job ?t p" using i(1,3) by (auto simp: has_job_def)
  moreover have "children (eval_fork p bg cmd s) = insert p (children s)" by (simp add: children_def eval_fork_def)
  ultimately show ?thesis by (simp add: tracked_def eval_fork_def)
qed

lemma bgfg_step_tracked:
  assumes "msh_ok s" "tracked s"
  shows "tracked (bgfg_step ok s)"
proof -
  have t: "table_ok (children s) (shell s)" and f: "fg_ok (place s) (shell s)" using assms(1) by (simp_all add: msh_ok_def)
  have "children (bgfg_step ok s) = children s" by (simp add: bgfg_step_def children_def split: place.splits)
  moreover have "has_job (shell (bgfg_step ok s)) q = has_job (shell s) q" for q
    using f by (cases "place s") (simp_all add: bgfg_step_def has_job_def pid_set_state [OF t])
  ultimately show ?thesis using assms(2) by (simp add: tracked_def)
qed

lemma step_tracked:
  assumes "step s t" "msh_ok s" "tracked s" "has_job (shell s) 0 \<or> live t \<subseteq> live s"
  shows "tracked t \<and> place t \<noteq> Crashed"
  using assms
proof (induction rule: step.induct)
  case (eval s p bg cmd)
  then have "has_job (shell s) 0" by (auto simp: eval_fork_def children_def)
  then show ?case using eval eval_fork_tracked by (simp add: eval_fork_def)
next
  case (bgfg s fg arg)
  then show ?case by (auto simp: do_bgfg_def tracked_def children_def split: option.splits)
next
  case (bgfg_on s ok)
  then have "place (bgfg_step ok s) \<noteq> Crashed" by (auto simp: bgfg_step_def split: if_splits)
  then show ?case using bgfg_on.prems bgfg_step_tracked by blast
next
  case (handler s)
  have "\<exists>rest u. sigchld_handler (pending s) (shell s) = Some (rest, u) \<and> (\<forall>p\<in>live s \<union> fst ` set rest. has_job u p)"
    by (rule sigchld_handler_tracked) (use handler.prems in \<open>auto simp: msh_ok_def tracked_def children_def\<close>)
  then show ?case using handler.hyps by (fastforce simp: handle_sigchld_def tracked_def children_def ball_Un)
next
  case (child p s st)
  then show ?case by (auto simp: child_changes_def tracked_def children_def split: if_splits)
next
  case (continued p s)
  then show ?case by (auto simp: child_continues_def tracked_def children_def)
next
  case (order ps s)
  then show ?case using mset_eq_setD [OF order.hyps(1)] by (auto simp: tracked_def children_def)
qed (auto simp: waitfg_test_def tracked_def children_def)

subsection \<open>The properties\<close>

definition demo_msh :: msh where
  "demo_msh = \<lparr>shell = initjobs \<lparr>jobs = replicate MAXJOBS \<lparr>pid = 3, jid = 4, state = ST, cmdline = [97]\<rparr>, nextjid = 1\<rparr>, place = Prompt, live = {}, pending = [], sigchld = False\<rparr>"

lemma demo_reachable: "reachable demo_msh"
  by (rule reachable.start)
    (auto simp: started_def demo_msh_def intro: exI [of _ "replicate MAXJOBS \<lparr>pid = 3, jid = 4, state = ST, cmdline = [97]\<rparr>"])

text \<open>
  C38. In every state that the shell can reach, however the handler of \<^verbatim>\<open>SIGCHLD\<close> comes between, at most one job is in the foreground, as \<^verbatim>\<open>jobs.h\<close> says, and none
  is at the prompt; no two jobs have the same process number; and while the shell waits for a process, \<^verbatim>\<open>SIGINT\<close> and \<^verbatim>\<open>SIGTSTP\<close> are passed on to the group of
  that process or to none.
\<close>

theorem one_foreground_job:
  assumes "reachable s"
  shows "card (fg_slots (shell s)) \<le> 1 \<and> (place s = Prompt \<longrightarrow> fgpid (shell s) = 0)
    \<and> (\<forall>p. place s = Waiting p \<longrightarrow> forward_signal (shell s) \<in> {None, Some p})
    \<and> (\<forall>i<MAXJOBS. \<forall>j<MAXJOBS. pid (jobs (shell s) ! i) = pid (jobs (shell s) ! j) \<and> pid (jobs (shell s) ! i) \<noteq> 0 \<longrightarrow> i = j)"
proof -
  have ok: "table_ok (children s) (shell s)" "fg_ok (place s) (shell s)" using reachable_ok [OF assms] by (simp_all add: msh_ok_def)
  obtain i where "fg_slots (shell s) \<subseteq> {i}" using fg_ok_one [OF ok(2)] by (auto simp: one_fg_def)
  then have "card (fg_slots (shell s)) \<le> 1" using card_mono [of "{i}"] by fastforce
  moreover have "fgpid (shell s) = 0" if "place s = Prompt" using ok(2) that fgpid_cases [of "shell s" 0] by simp
  moreover have "forward_signal (shell s) \<in> {None, Some p}" if "place s = Waiting p" for p
    using ok(2) that fgpid_cases [of "shell s" p] by (simp add: forward_signal_def)
  ultimately show ?thesis using ok(1) unfolding table_ok_def by blast
qed

theorem one_foreground_job_witness:
  "card (fg_slots (shell (eval_fork 7 False [97] demo_msh))) \<le> 1 \<and> forward_signal (shell (eval_fork 7 False [97] demo_msh)) \<in> {None, Some 7}"
proof -
  have "step demo_msh (eval_fork 7 False [97] demo_msh)" by (rule step.eval) (simp_all add: demo_msh_def children_def)
  then have "reachable (eval_fork 7 False [97] demo_msh)" by (rule reachable.next_step [OF demo_reachable])
  from one_foreground_job [OF this] show ?thesis by (simp add: eval_fork_def)
qed

text \<open>Background jobs with the process numbers from 1 on.\<close>

primrec forks :: "nat \<Rightarrow> msh" where
  "forks 0 = demo_msh"
| "forks (Suc n) = eval_fork (int n + 1) True [] (forks n)"

lemma forks_state:
  "n \<le> MAXJOBS \<Longrightarrow> reachable (forks n) \<and> place (forks n) = Prompt \<and> pending (forks n) = [] \<and> live (forks n) = {1..int n}
    \<and> length (jobs (shell (forks n))) = MAXJOBS \<and> (\<forall>i<MAXJOBS. pid (jobs (shell (forks n)) ! i) = (if i < n then int i + 1 else 0))"
proof (induction n)
  case 0
  then show ?case using demo_reachable by (simp add: demo_msh_def initjobs_def clearjob_def)
next
  case (Suc n)
  let ?s = "forks n" and ?sh = "shell (forks n)"
  have ih: "reachable ?s" "place ?s = Prompt" "pending ?s = []" "live ?s = {1..int n}" "length (jobs ?sh) = MAXJOBS"
    "\<And>i. i < MAXJOBS \<Longrightarrow> pid (jobs ?sh ! i) = (if i < n then int i + 1 else 0)" using Suc by simp_all
  have "step ?s (eval_fork (int n + 1) True [] ?s)" by (rule step.eval) (simp_all add: ih children_def)
  then have r: "reachable (forks (Suc n))" using reachable.next_step [OF ih(1)] by simp
  have "find (\<lambda>i. pid (jobs ?sh ! i) = 0) [0..<MAXJOBS] = Some n"
    unfolding find_Some_iff using Suc.prems ih(6) by (auto intro!: exI [of _ n])
  then have "shell (forks (Suc n)) = ?sh\<lparr>jobs := (jobs ?sh)[n := (jobs ?sh ! n)\<lparr>pid := int n + 1, state := BG, jid := nextjid ?sh, cmdline := []\<rparr>],
      nextjid := (if nextjid ?sh + 1 > int MAXJOBS then 1 else nextjid ?sh + 1)\<rparr>" by (simp add: eval_fork_def addjob_def)
  moreover have "live (forks (Suc n)) = {1..int (Suc n)}" using ih(4) by (auto simp: eval_fork_def)
  ultimately show ?case using r ih Suc.prems by (simp add: eval_fork_def nth_list_update less_Suc_eq)
qed

text \<open>
  C39. The shell survives the ends of its children as long as each of them has an entry in the job list: a step that does not start a process while the list is full keeps it
  so and does not crash. But a command that is started while the list has 16 jobs runs without an entry, and when it ends the handler of \<^verbatim>\<open>SIGCHLD\<close> reads
  through a null pointer.
\<close>

theorem full_table_crash:
  assumes "reachable s"
  shows "(tracked s \<and> step s t \<and> (has_job (shell s) 0 \<or> live t \<subseteq> live s) \<longrightarrow> tracked t \<and> place t \<noteq> Crashed)
    \<and> (place s = Prompt \<and> pending s = [] \<and> \<not> has_job (shell s) 0 \<and> 1 \<le> p \<and> p \<notin> children s \<longrightarrow>
        reachable (handle_sigchld (child_changes p Exited (eval_fork p bg cmd s)))
        \<and> place (handle_sigchld (child_changes p Exited (eval_fork p bg cmd s))) = Crashed)"
proof (intro conjI impI)
  note ok = reachable_ok [OF assms]
  show "tracked t" "place t \<noteq> Crashed" if "tracked s \<and> step s t \<and> (has_job (shell s) 0 \<or> live t \<subseteq> live s)"
    using step_tracked [of s t] ok that by blast+
  assume a: "place s = Prompt \<and> pending s = [] \<and> \<not> has_job (shell s) 0 \<and> 1 \<le> p \<and> p \<notin> children s"
  let ?f = "eval_fork p bg cmd s"
  have "find (\<lambda>i. pid (jobs (shell s) ! i) = 0) [0..<MAXJOBS] = None" using a by (auto simp: find_None_iff has_job_def)
  then have sh: "shell ?f = shell s" by (simp add: eval_fork_def addjob_def)
  have "\<not> has_job (shell s) p" using ok a by (auto simp: msh_ok_def table_ok_def has_job_def)
  then have "getjobpid p (shell s) = None" using getjobpid_has_job [of p "shell s"] a by force
  then show "place (handle_sigchld (child_changes p Exited ?f)) = Crashed"
    using a sh by (simp add: handle_sigchld_def child_changes_def eval_fork_def)
  have "step s ?f" using a by (intro step.eval) simp_all
  moreover have "step ?f (child_changes p Exited ?f)" by (rule step.child) (simp_all add: eval_fork_def)
  moreover have "step (child_changes p Exited ?f) (handle_sigchld (child_changes p Exited ?f))"
    by (rule step.handler) (simp_all add: child_changes_def eval_fork_def)
  ultimately show "reachable (handle_sigchld (child_changes p Exited ?f))" using assms reachable.next_step by blast
qed

theorem full_table_crash_witness:
  "reachable (handle_sigchld (child_changes 17 Exited (eval_fork 17 True [97] (forks 16))))
    \<and> place (handle_sigchld (child_changes 17 Exited (eval_fork 17 True [97] (forks 16)))) = Crashed"
proof -
  have f: "reachable (forks 16)" "place (forks 16) = Prompt" "pending (forks 16) = []" "live (forks 16) = {1..16}"
    "\<forall>i<MAXJOBS. pid (jobs (shell (forks 16)) ! i) = (if i < 16 then int i + 1 else 0)" using forks_state [of 16] by (simp_all add: MAXJOBS_def)
  then have "\<not> has_job (shell (forks 16)) 0" by (auto simp: has_job_def MAXJOBS_def)
  then show ?thesis using full_table_crash [OF f(1), of demo_msh 17 True "[97]"] f by (simp add: children_def)
qed

text \<open>
  The shell waits forever if the job that \<^verbatim>\<open>fg\<close> has found ends before its entry is used: the entry has been cleared, \<^verbatim>\<open>waitfg\<close> is called with 0, and \<^verbatim>\<open>fgpid\<close> returns 0
  in every state that follows.
\<close>

lemma waiting_for_0: "step s t \<Longrightarrow> msh_ok s \<Longrightarrow> place s = Waiting 0 \<Longrightarrow> place t \<in> {Waiting 0, Crashed}"
proof (induction rule: step.induct)
  case (waitfg s p)
  then show ?case using fgpid_cases [of "shell s" 0] by (simp add: waitfg_test_def msh_ok_def)
qed (auto simp: handle_sigchld_def child_changes_def child_continues_def split: option.splits)

theorem fg_race_hangs:
  assumes "reachable s" "place s = Fg_set i" "pending s = []" "p = pid (jobs (shell s) ! i)" "p \<in> live s"
    and t: "t = bgfg_step True (bgfg_step ok (handle_sigchld (child_changes p Exited s)))"
  shows "reachable t \<and> place t = Waiting 0 \<and> (\<forall>u. step\<^sup>*\<^sup>* t u \<longrightarrow> place u \<in> {Waiting 0, Crashed})"
proof -
  note m = reachable_ok [OF assms(1)]
  have i: "i < MAXJOBS" "1 \<le> p" using m assms(2,5) by (simp_all add: msh_ok_def children_def)
  then obtain j where j: "getjobpid p (shell s) = Some j" using getjobpid_has_job [of p "shell s"] assms(4) by (auto simp: has_job_def)
  note d = deletejob_eq [OF j]
  have ji: "j = i" using m d(1,2) i assms(4) by (auto simp: msh_ok_def table_ok_def)
  let ?h = "handle_sigchld (child_changes p Exited s)"
  have h: "?h = s\<lparr>shell := snd (deletejob p (shell s)), pending := [], sigchld := False, live := live s - {p}\<rparr>"
    using j assms(3) by (simp add: handle_sigchld_def child_changes_def)
  have l: "length (jobs (shell s)) = MAXJOBS" using m table_ok_length by (auto simp: msh_ok_def)
  have 1: "place ?h = Fg_set i" unfolding h by (simp add: assms(2))
  then have 2: "place (bgfg_step ok ?h) = Fg_kill i" by (simp add: bgfg_step_def)
  have "pid (jobs (shell (bgfg_step ok ?h)) ! i) = 0" using 1 i(1) l by (simp add: bgfg_step_def h d(4) ji set_state_def clearjob_def)
  then have w: "place t = Waiting 0" using 2 by (simp add: t bgfg_step_def [of True])
  have "step s (child_changes p Exited s)" by (rule step.child) (simp_all add: assms(2,5))
  moreover have "step (child_changes p Exited s) ?h" by (rule step.handler) (simp_all add: child_changes_def assms(2))
  moreover have "step ?h (bgfg_step ok ?h)" "step (bgfg_step ok ?h) t" unfolding t by (rule step.bgfg_on; simp add: 1 2)+
  ultimately have r: "reachable t" using assms(1) reachable.next_step by blast
  have "msh_ok u \<and> place u \<in> {Waiting 0, Crashed}" if "step\<^sup>*\<^sup>* t u" for u using that
  proof (induction rule: rtranclp_induct)
    case (step u v)
    then have "place u \<noteq> Crashed" by (auto elim!: step.cases)
    then show ?case using step step_ok waiting_for_0 by blast
  qed (use w reachable_ok [OF r] in simp)
  then show ?thesis using r w by blast
qed

end
