(* ===== verification/Spec2Isabelle.thy ===== *)
theory Spec2Isabelle
  imports Bitmap Klist Hash Palloc FreeMap CString File Directory Filesys Pagedir Syscall Segment KernelProps
    Arith64 Malloc VMem Intq Stdio Fsutil Rc4 Shell
begin

text \<open>
  A verification development of the Pintos kernels of this repository: \<^verbatim>\<open>src/Project1\<close> (threads with
  priorities), \<^verbatim>\<open>src/fs_PintOS\<close> (user programs and a file system with indexed inodes) and \<^verbatim>\<open>src/vm_PintOS\<close>
  (the same base with virtual memory, most of whose files are copies).

  \<^bold>\<open>The program.\<close> The kernel runs threads on one processor. The scheduler keeps the ready threads in a list
  ordered by priority; semaphores keep their waiters in such lists, locks and condition variables are
  built from semaphores, and the timer interrupt wakes sleeping threads through semaphores and makes
  threads give way. Memory comes in pages from two pools, each with a bitmap of the pages in use; page
  directories in such pages are the address spaces of the user programs. The file system is a disk of
  sectors: a free map, itself kept in a file, says which sectors are in use, an inode says which
  sectors hold the bytes of a file, a directory is a file whose bytes are entries with names, and
  the calls of \<^verbatim>\<open>filesys.c\<close> work on the root directory. System calls are made by pushing words on the user
  stack; the handler checks pointers, keeps the table of open files of the process and calls the file system
  under one lock. All of it uses the libraries \<^verbatim>\<open>lib/kernel\<close> (bitmaps, linked lists, hash tables) and \<^verbatim>\<open>lib/string.c\<close>.

  \<^bold>\<open>The theories\<close>, in the order in which they use each other, with the files of \<^verbatim>\<open>src/fs_PintOS\<close> they model unless
  another directory is named:

  \<^item> \<open>Prelude\<close>: 32-bit sizes, the \<^verbatim>\<open>ASSERT\<close> macro and \<^verbatim>\<open>round.h\<close>, \<^verbatim>\<open>for\<close> loops in the \<open>option\<close> monad, words as bytes,
    list lemmas.
  \<^item> \<open>Bitmap\<close> (\<^verbatim>\<open>lib/kernel/bitmap.c\<close>): arrays of 32-bit elements. The scan finds the first group of equal bits;
    the locale \<open>region_allocator\<close> is the contract of a bitmap as an allocator, on which \<open>Palloc\<close> and
    \<open>FreeMap\<close> rest.
  \<^item> \<open>Klist\<close> (\<^verbatim>\<open>lib/kernel/list.c\<close>): doubly linked lists as \<^verbatim>\<open>prev\<close> and \<^verbatim>\<open>next\<close> pointers in a store; sorting, ordered
    insertion, splicing, reversal, and that no other link changes.
  \<^item> \<open>Hash\<close> (\<^verbatim>\<open>lib/kernel/hash.c\<close>): tables of bucket lists with the growth and shrinking of \<^verbatim>\<open>rehash\<close>; the locales give
    the laws of a table with insertion, replacement, deletion, search and iteration.
  \<^item> \<open>Palloc\<close> (\<^verbatim>\<open>threads/palloc.c\<close>, \<^verbatim>\<open>threads/vaddr.h\<close>): the two page pools and the memory they fill.
  \<^item> \<open>Pagedir\<close> (\<^verbatim>\<open>userprog/pagedir.c\<close>, \<^verbatim>\<open>threads/pte.h\<close>): directories and page tables in the memory of \<open>Palloc\<close>. Mapping
    a page refines the update of one point of an address space; address spaces are isolated; destroying
    a directory returns exactly its pages.
  \<^item> \<open>Inode\<close>, \<open>InodeData\<close>, \<open>FreeMap\<close> (\<^verbatim>\<open>filesys/inode.c\<close>, \<^verbatim>\<open>filesys/free-map.c\<close>, block access of \<^verbatim>\<open>devices/block.c\<close>): inodes with
    direct, indirect and doubly indirect sectors over a disk of sectors. A file is a list of bytes, whose sectors a layout
    gives that is defined apart from the code (\<open>data_sector\<close>): reading in chunks returns a part of it, writing replaces a part of it, and the free map in memory
    and the one on disk agree after every allocation and release.
  \<^item> \<open>CString\<close> (\<^verbatim>\<open>lib/string.c\<close>): strings and memory blocks in a memory of bytes.
  \<^item> \<open>File\<close>, \<open>Directory\<close>, \<open>Filesys\<close> (\<^verbatim>\<open>filesys/file.c\<close>, \<^verbatim>\<open>filesys/directory.c\<close>, \<^verbatim>\<open>filesys/filesys.c\<close>): open files with the
    locale \<open>byte_stream\<close>; directories as finite maps from names to sectors; the calls of the file system.
  \<^item> \<open>Syscall\<close> (\<^verbatim>\<open>userprog/syscall.c\<close>, parts of \<^verbatim>\<open>userprog/process.c\<close> and \<^verbatim>\<open>lib/user/syscall.c\<close>): every system call
    as one process makes it, with its reads and writes of user memory, and the ways in which it ends.
  \<^item> \<open>Process\<close>, \<open>Segment\<close> (\<^verbatim>\<open>userprog/process.c\<close>): the loader. ELF headers are read from the file system into the pages
    of \<open>Palloc\<close>, mapped through \<open>Pagedir\<close>; the stack with the arguments is equal to the layout that a program expects, a segment
    is mapped byte for byte, and no file makes the loop over the headers panic.
  \<^item> \<open>Thread\<close>, \<open>Synch\<close> (\<^verbatim>\<open>src/Project1/thread.c\<close>, \<^verbatim>\<open>synch.c\<close>, \<^verbatim>\<open>timer.c\<close>, and the interrupt level and external interrupts
    of \<^verbatim>\<open>threads/interrupt.c\<close>): the scheduler and the primitives as operations on one kernel record. Every thread has
    a list of frames, the calls that it is in, so that a call that blocks goes on later where it stopped.
  \<^item> \<open>Sched\<close>, \<open>SchedInv\<close>, \<open>Locks\<close>, \<open>KernelProps\<close>: the step relation of the kernel (the running thread runs its next
    frame, makes a call or returns, or the timer interrupts), the invariants of all reachable states, the
    counting argument for locks, and the properties.

  \<^item> \<open>Stdlib\<close>, \<open>Arith64\<close>, \<open>Stdio\<close> (\<^verbatim>\<open>lib/stdlib.c\<close>, \<^verbatim>\<open>lib/arithmetic.c\<close>, \<^verbatim>\<open>lib/stdio.c\<close>): heap sort and binary search on arrays of
    bytes, 64-bit division built from the 32-bit instruction, and formatted output. Sorting gives the sorted permutation, division the true
    quotient, and a printed number is read back by \<^verbatim>\<open>atoi\<close>; the stores of \<^verbatim>\<open>vsnprintf\<close> are exact, its \<^verbatim>\<open>int\<close> length included.
  \<^item> \<open>Malloc\<close> (\<^verbatim>\<open>threads/malloc.c\<close>): arenas and descriptors over the pages of \<open>Palloc\<close>, with the headers as bytes in memory. The
    locale \<open>block_allocator\<close> is the contract: a map of disjoint blocks that \<^verbatim>\<open>malloc\<close> extends and \<^verbatim>\<open>free\<close> restricts.
  \<^item> \<open>VMem\<close> (\<^verbatim>\<open>src/vm_PintOS/vm\<close> and \<^verbatim>\<open>userprog/exception.c\<close> there): frames, the supplemental page table as a list of \<open>Klist\<close>,
    swap slots and the page fault handler, with what keeps a page from ever being evicted or brought in.
  \<^item> \<open>Intq\<close> (\<^verbatim>\<open>devices/intq.c\<close>, \<^verbatim>\<open>devices/input.c\<close>): the circular queues between interrupt handlers and threads, which refine
    bounded queues through the locale \<open>bounded_queue\<close>.

  \<^item> \<open>Ustar\<close>, \<open>Fsutil\<close> (\<^verbatim>\<open>lib/ustar.c\<close>, \<^verbatim>\<open>filesys/fsutil.c\<close>): headers of tar archives, composed with the formatted output of \<open>Stdio\<close> and parsed
    back, and the commands that copy files between the file system and an archive.
  \<^item> \<open>Rc4\<close> (\<^verbatim>\<open>lib/random.c\<close>): the generator of pseudo-random numbers, whose array stays a permutation.
  \<^item> \<open>Shell\<close> (\<^verbatim>\<open>src/Project0/jobs.c\<close>, \<^verbatim>\<open>msh.c\<close>): the job list of the shell and a step relation that interleaves the main loop with the handler of
    \<^verbatim>\<open>SIGCHLD\<close>.

  \<^bold>\<open>How code is modelled.\<close> A failed assertion, a call of \<^verbatim>\<open>PANIC\<close> and a kernel page fault are the value \<open>None\<close> of an
  \<open>option\<close> (in \<open>Syscall\<close> the ending \<open>Panic\<close>, as there a call can also end by the end of the process).
  Loops are structural recursion, \<open>function\<close> with a measure, or \<open>partial_function (option)\<close> where the code may loop
  forever; the properties then prove that the loop ends, or, for \<^verbatim>\<open>exit_status\<close>, when it does not. No
  definition has fuel. Values that the code leaves undefined are arguments: the uninitialised
  directory entry of \<^verbatim>\<open>dir_add\<close> (\<open>stack\<close>), memory from \<^verbatim>\<open>malloc\<close> (\<open>storage\<close>, \<open>junk\<close>; the model of \<open>Malloc\<close> is not joined to the other theories), the page that \<^verbatim>\<open>thread_create\<close> gets.
  \<open>heap_ok\<close> says whether \<^verbatim>\<open>malloc\<close> succeeds in the file system. Addresses and file offsets are natural numbers; where
  \<^verbatim>\<open>size_t\<close> can wrap around (bitmaps, \<^verbatim>\<open>ROUND_UP\<close>, page addresses) the wrap-around is written out, and flags, counters,
  hash values and page table entries are 32-bit words.

  \<^bold>\<open>Interleaving.\<close> In the kernel of \<open>Sched\<close> interrupts come between frames while they are enabled; a frame is a
  stretch of code that runs with interrupts off, touches only the running thread or what a lock protects, or makes one
  access to what threads share. So \<^verbatim>\<open>thread_set_priority\<close> is three frames: the new priority, the look at the head of the ready list, and
  the comparison. The insertion into the list of sleeping threads in \<^verbatim>\<open>timer_sleep\<close>, which the code does with interrupts on, is the exception: it is
  one step.
  The invariants start at \<open>booted\<close>, the state in which \<^verbatim>\<open>thread_start\<close> leaves the kernel. The file system, the
  page allocator and the system calls run one call at a time, as their locks make them do.

  \<^bold>\<open>Not modelled.\<close> Hardware and its drivers (\<^verbatim>\<open>devices/ide.c\<close>, \<^verbatim>\<open>kbd.c\<close>, \<^verbatim>\<open>vga.c\<close>, \<^verbatim>\<open>serial.c\<close>, \<^verbatim>\<open>pit.c\<close>, \<^verbatim>\<open>rtc.c\<close>,
  \<^verbatim>\<open>speaker.c\<close>, \<^verbatim>\<open>shutdown.c\<close>, \<^verbatim>\<open>partition.c\<close>), assembly code and processor tables (\<^verbatim>\<open>switch.S\<close>, \<^verbatim>\<open>gdt.c\<close>, \<^verbatim>\<open>tss.c\<close>, the
  interrupt descriptors), the start of the kernel (\<^verbatim>\<open>init.c\<close>, \<^verbatim>\<open>loader.h\<close>), the console, \<^verbatim>\<open>hex_dump\<close> and
  \<^verbatim>\<open>print_human_readable_size\<close>, which only print, tests, examples and host tools. Not modelled either: \<^verbatim>\<open>destroy_sup_page_table\<close> of
  \<^verbatim>\<open>vm_PintOS/vm/page.c\<close>, whose only call is commented out, the changes that \<^verbatim>\<open>vm_PintOS\<close> makes to the loader and the system
  calls, and of the shell the parsing of the command line and the program of the child process.
  The schedulers of \<^verbatim>\<open>fs_PintOS\<close> and \<^verbatim>\<open>vm_PintOS\<close> are the base version without priorities, and the file system of
  \<^verbatim>\<open>vm_PintOS\<close> is the base version with contiguous files; the extended versions are the ones modelled.
\<close>

end
